(* ===== verification/Errors.thy ===== *)
theory Errors
  imports Prelude
begin

text \<open>
  The domain errors of \<^verbatim>\<open>notedthat-core/src/error.rs\<close> and \<^verbatim>\<open>search/error.rs\<close>, and the contract the
  crate's validated newtypes share.  Error values carry the messages the code builds, so that
  every early return of the source is a distinct branch of the model.
\<close>

record validators =
  v_etag :: "string option"
  v_last_modified :: "int option"

datatype storage_error =
    SE_NotFound (se_key: string)
  | SE_BucketNotFound (se_bucket: string)
  | SE_BackendUnavailable (se_message: string)
  | SE_Other (se_source: string)
  | SE_NotModified (se_validators: validators)
  | SE_PreconditionFailed
  | SE_RangeNotSatisfiable (se_complete_length: u64)

datatype error =
    InvalidInput string
  | NotFound string
  | PayloadTooLarge u64 u64
  | BucketNameTooLong string nat
  | Config string
  | Storage storage_error
  | MalformedRange string

fun storage_error_display :: "storage_error \<Rightarrow> string" where
  "storage_error_display (SE_NotFound key) = ''object not found: '' @ key"
| "storage_error_display (SE_BucketNotFound bucket) = ''bucket not found: '' @ bucket"
| "storage_error_display (SE_BackendUnavailable message) = ''backend unavailable: '' @ message"
| "storage_error_display (SE_Other source) = ''storage error: '' @ source"
| "storage_error_display (SE_NotModified _) = ''not modified''"
| "storage_error_display SE_PreconditionFailed = ''precondition failed''"
| "storage_error_display (SE_RangeNotSatisfiable n) =
     ''range not satisfiable (object size: '' @ show_u64 n @ '')''"

fun is_not_found :: "storage_error \<Rightarrow> bool" where
  "is_not_found (SE_NotFound _) = True"
| "is_not_found (SE_BucketNotFound _) = True"
| "is_not_found _ = False"

datatype search_error =
    Search_InvalidInput string
  | Search_UnknownKb string
  | Search_BackendUnavailable string
  | Search_Internal string

fun error_of_search_error :: "search_error \<Rightarrow> error" where
  "error_of_search_error (Search_InvalidInput message) = InvalidInput message"
| "error_of_search_error (Search_UnknownKb slug) = NotFound (''knowledgebase '' @ sq @ slug @ sq)"
| "error_of_search_error (Search_BackendUnavailable message) =
     Storage (SE_BackendUnavailable message)"
| "error_of_search_error (Search_Internal message) = Config message"

text \<open>What a write had already done to storage when a later step failed.\<close>

datatype write_effect = Effect_Stored | Effect_Deleted

section \<open>Validated newtypes\<close>

text \<open>
  A type with a private string field, a checking constructor and an accessor (\<^verbatim>\<open>ObjectPath\<close>,
  \<^verbatim>\<open>KbSlug\<close>, \<^verbatim>\<open>TenantSlug\<close>, \<^verbatim>\<open>ObjectKey\<close>): serde serialises the string and deserialises through
  the constructor.  The contract: what the constructor accepts is well formed, a well-formed
  string is accepted unchanged, and two values with one string are equal.
\<close>

locale validated_newtype =
  fixes parse :: "string \<Rightarrow> ('e, 'a) result"
    and as_str :: "'a \<Rightarrow> string"
    and wf_str :: "string \<Rightarrow> bool"
  assumes parse_sound: "parse s = Inr v \<Longrightarrow> wf_str (as_str v)"
    and parse_complete: "wf_str s \<Longrightarrow> \<exists>v. parse s = Inr v \<and> as_str v = s"
    and as_str_inj: "as_str v = as_str w \<Longrightarrow> v = w"
begin

lemma reparse: "parse s = Inr v \<Longrightarrow> parse (as_str v) = Inr v"
  using parse_sound parse_complete as_str_inj by metis

lemma accepted_iff: "(\<exists>v. parse s = Inr v \<and> as_str v = s) \<longleftrightarrow> wf_str s"
  using parse_sound parse_complete by metis

lemma range_as_str: "{as_str v |v s. parse s = Inr v} = Collect wf_str"
  using parse_sound parse_complete by blast

end

end
