(* ===== verification/Object_Path.thy ===== *)
theory Object_Path
  imports Errors
begin

text \<open>
  Object paths (\<^verbatim>\<open>notedthat-core/src/object_path.rs\<close>) and the object keys of the search index
  (\<^verbatim>\<open>search/object_key.rs\<close>): their checking constructors, the internal namespace and the reserved
  keys.  The lemmas give the exact set of accepted strings and interpret
  \<open>validated_newtype\<close> for both types.
\<close>

section \<open>Definitions\<close>

definition is_internal_path :: "string \<Rightarrow> bool" where
  "is_internal_path path \<longleftrightarrow> path = ''.notedthat'' \<or> prefix ''.notedthat/'' path"

definition RESERVED_KEYS :: "string list" where
  "RESERVED_KEYS = [''index'', ''index/reconcile'', ''events'', ''search'']"

datatype object_path = ObjectPath (path_str: string)

definition check_segment :: "string \<Rightarrow> (error, unit) result" where
  "check_segment segment =
     (if segment = [] then
        Inl (InvalidInput ''path must not contain empty segments (double slashes or trailing slash)'')
      else if segment = ''.'' \<or> segment = ''..'' then
        Inl (InvalidInput (''path must not contain '' @ sq @ ''.'' @ sq @ '' or '' @ sq @ ''..'' @ sq @ '' segments''))
      else Inr ())"

definition strip_leading_slash :: "string \<Rightarrow> string" where
  "strip_leading_slash input = (case strip_prefix ''/'' input of Some s \<Rightarrow> s | None \<Rightarrow> input)"

definition try_from_str :: "string \<Rightarrow> (error, object_path) result" where
  "try_from_str input =
     (let s = strip_leading_slash input in
      if s = [] then Inl (InvalidInput ''path must not be empty'')
      else if backslash \<in> set s then Inl (InvalidInput ''path must not contain backslash'')
      else if CHR 0x00 \<in> set s then Inl (InvalidInput ''path must not contain NUL byte'')
      else res_bind (check_all check_segment (split_on CHR ''/'' s)) (\<lambda>_. Inr (ObjectPath s)))"

definition is_reserved :: "object_path \<Rightarrow> bool" where
  "is_reserved path \<longleftrightarrow> path_str path \<in> set RESERVED_KEYS"

definition try_object_key :: "string \<Rightarrow> (error, object_path) result" where
  "try_object_key input =
     res_bind (try_from_str input) (\<lambda>path.
       if is_reserved path then
         Inl (InvalidInput (''path '' @ sq @ path_str path @ sq
                @ '' is reserved: it names an API route of the knowledge base''))
       else Inr path)"

datatype object_key = ObjectKey (key_str: string)

definition check_key_segment :: "string \<Rightarrow> (error, unit) result" where
  "check_key_segment segment =
     (if segment = ''..'' \<or> segment = ''.'' then
        Inl (InvalidInput (''object key contains invalid path segment: '' @ sq @ segment @ sq))
      else Inr ())"

definition object_key_try_new :: "string \<Rightarrow> (error, object_key) result" where
  "object_key_try_new s =
     (if s = [] then Inl (InvalidInput ''object key must not be empty'')
      else if prefix ''/'' s then
        Inl (InvalidInput (''object key must not start with '' @ sq @ ''/'' @ sq))
      else if CHR 0x00 \<in> set s then Inl (InvalidInput ''object key must not contain NUL bytes'')
      else res_bind (check_all check_key_segment (split_on CHR ''/'' s)) (\<lambda>_. Inr (ObjectKey s)))"

section \<open>Accepted paths\<close>

definition wf_segment :: "string \<Rightarrow> bool" where
  "wf_segment seg \<longleftrightarrow> seg \<noteq> [] \<and> seg \<noteq> ''.'' \<and> seg \<noteq> ''..''"

definition wf_path :: "string \<Rightarrow> bool" where
  "wf_path s \<longleftrightarrow>
     backslash \<notin> set s \<and> CHR 0x00 \<notin> set s \<and> list_all wf_segment (split_on CHR ''/'' s)"

definition wf_key :: "string \<Rightarrow> bool" where
  "wf_key s \<longleftrightarrow>
     s \<noteq> [] \<and> \<not> prefix ''/'' s \<and> CHR 0x00 \<notin> set s
     \<and> list_all (\<lambda>seg. seg \<noteq> ''.'' \<and> seg \<noteq> ''..'') (split_on CHR ''/'' s)"

lemma check_segment_Inr_iff [result_simps]: "check_segment seg = Inr u \<longleftrightarrow> wf_segment seg"
  by (simp add: check_segment_def wf_segment_def)

lemma check_key_segment_Inr_iff [result_simps]:
  "check_key_segment seg = Inr u \<longleftrightarrow> seg \<noteq> ''.'' \<and> seg \<noteq> ''..''"
  by (auto simp: check_key_segment_def)

lemma wf_path_not_Nil: "wf_path s \<Longrightarrow> s \<noteq> []"
  by (auto simp: wf_path_def wf_segment_def)

lemma wf_path_no_leading_slash: "wf_path s \<Longrightarrow> \<not> prefix ''/'' s"
  by (auto simp: wf_path_def wf_segment_def prefix_def)

lemma wf_path_no_trailing_slash: "wf_path s \<Longrightarrow> \<not> suffix ''/'' s"
  using split_on_append_sep[of "CHR ''/''" _ "[]"]
  by (auto simp: wf_path_def wf_segment_def suffix_def)

lemma strip_leading_slash_id [simp]: "\<not> prefix ''/'' s \<Longrightarrow> strip_leading_slash s = s"
  by (simp add: strip_leading_slash_def strip_prefix_def)

lemma strip_leading_slash_Cons [simp]: "strip_leading_slash (CHR ''/'' # s) = s"
  by (simp add: strip_leading_slash_def strip_prefix_def)

lemma try_from_str_Inr_iff [result_simps]:
  "try_from_str input = Inr p \<longleftrightarrow> wf_path (strip_leading_slash input) \<and> p = ObjectPath (strip_leading_slash input)"
  using wf_path_not_Nil[of "strip_leading_slash input"]
  by (auto simp: try_from_str_def Let_def result_simps wf_path_def list_all_iff)

lemma try_object_key_Inr_iff [result_simps]:
  "try_object_key input = Inr p
   \<longleftrightarrow> try_from_str input = Inr p \<and> path_str p \<notin> set RESERVED_KEYS"
  by (auto simp: try_object_key_def is_reserved_def res_bind_Inr_iff)

lemma object_key_try_new_Inr_iff [result_simps]:
  "object_key_try_new s = Inr k \<longleftrightarrow> wf_key s \<and> k = ObjectKey s"
  by (auto simp: object_key_try_new_def result_simps wf_key_def list_all_iff)

lemma wf_path_imp_wf_key: "wf_path s \<Longrightarrow> wf_key s"
  using wf_path_not_Nil wf_path_no_leading_slash
  by (auto simp: wf_path_def wf_key_def wf_segment_def list_all_iff)

lemma wf_path_append_slash:
  "wf_path (a @ ''/'' @ b) \<longleftrightarrow> wf_path a \<and> wf_path b"
  by (auto simp: wf_path_def split_on_append_sep)

interpretation object_path: validated_newtype try_from_str path_str wf_path
proof (standard, goal_cases)
  case (2 s)
  then show ?case by (simp add: result_simps wf_path_no_leading_slash)
qed (auto simp: result_simps object_path.expand)

interpretation object_key: validated_newtype object_key_try_new key_str wf_key
  by standard (auto simp: result_simps object_key.expand)

section \<open>Properties\<close>

text \<open>
  C34: Path validation is exact.  A string is accepted as an object path precisely when, after one
  leading slash is dropped, it has no backslash, no NUL and only non-empty segments other than
  \<^verbatim>\<open>.\<close> and \<^verbatim>\<open>..\<close>; the value keeps the stripped string, has neither a leading nor a trailing slash,
  and parses back to itself.
\<close>

theorem object_path_exact:
  "(\<exists>p. try_from_str input = Inr p) = wf_path (strip_leading_slash input)
   \<and> (try_from_str input = Inr p \<longrightarrow>
        path_str p = strip_leading_slash input \<and> \<not> prefix ''/'' (path_str p) \<and> \<not> suffix ''/'' (path_str p)
        \<and> list_all (\<lambda>seg. seg \<noteq> [] \<and> seg \<noteq> ''.'' \<and> seg \<noteq> ''..'') (split_on CHR ''/'' (path_str p))
        \<and> try_from_str (path_str p) = Inr p)"
proof (intro conjI impI)
  assume p: "try_from_str input = Inr p"
  then have wf: "wf_path (path_str p)" by (rule object_path.parse_sound)
  then show "\<not> prefix ''/'' (path_str p)" "\<not> suffix ''/'' (path_str p)"
    by (simp_all add: wf_path_no_leading_slash wf_path_no_trailing_slash)
  show "list_all (\<lambda>seg. seg \<noteq> [] \<and> seg \<noteq> ''.'' \<and> seg \<noteq> ''..'') (split_on CHR ''/'' (path_str p))"
    using wf by (simp add: wf_path_def wf_segment_def[abs_def])
  show "path_str p = strip_leading_slash input" using p by (simp add: result_simps)
  show "try_from_str (path_str p) = Inr p" using p by (rule object_path.reparse)
qed (auto simp: result_simps)

theorem object_path_exact_witness:
  "try_from_str ''/notes/a.md'' = Inr (ObjectPath ''notes/a.md'')
   \<and> try_from_str ''notes/a.md'' = Inr (ObjectPath ''notes/a.md'')"
proof -
  have "try_from_str ''/notes/a.md'' = Inr (ObjectPath ''notes/a.md'')" by code_simp
  then show ?thesis
    using object_path_exact[of "''/notes/a.md''" "ObjectPath ''notes/a.md''"] by simp
qed

text \<open>
  Every key a surface may create an object under is a well-formed path outside the reserved
  routes, and the search index accepts it as an object key unchanged.
\<close>

theorem object_key_addressable:
  assumes "try_object_key input = Inr p"
  shows "wf_path (path_str p) \<and> path_str p \<notin> {''index'', ''index/reconcile'', ''events'', ''search''}
    \<and> object_key_try_new (path_str p) = Inr (ObjectKey (path_str p))"
proof -
  have "try_from_str input = Inr p" "path_str p \<notin> set RESERVED_KEYS"
    using assms by (simp_all add: try_object_key_Inr_iff)
  moreover from this(1) have "wf_path (path_str p)" by (rule object_path.parse_sound)
  ultimately show ?thesis
    by (simp add: RESERVED_KEYS_def object_key_try_new_Inr_iff wf_path_imp_wf_key)
qed

theorem object_key_addressable_witness:
  "try_object_key ''search/results.md'' = Inr (ObjectPath ''search/results.md'')
   \<and> object_key_try_new ''search/results.md'' = Inr (ObjectKey ''search/results.md'')"
proof -
  have "try_object_key ''search/results.md'' = Inr (ObjectPath ''search/results.md'')" by code_simp
  then show ?thesis
    using object_key_addressable[of "''search/results.md''" "ObjectPath ''search/results.md''"] by simp
qed

end
