(* ===== verification/Glob_Loop.thy ===== *)
theory Glob_Loop
  imports Prelude
begin

text \<open>
  The two-pointer wildcard loop with one remembered backtrack point, as a contract.

  \<open>pieces_match piece pat xs\<close> is the declarative meaning of a wildcard pattern: \<open>xs\<close> can be cut
  into consecutive pieces, one per token of \<open>pat\<close>, such that each token allows its piece.  A loop
  satisfying the laws of \<open>two_pointer_glob\<close> decides it, whatever the tokens are, provided every
  token but the star has a fixed positive width.
\<close>

section \<open>The specification\<close>

definition pieces_match :: "('p \<Rightarrow> 'a list \<Rightarrow> bool) \<Rightarrow> 'p list \<Rightarrow> 'a list \<Rightarrow> bool" where
  "pieces_match piece pat xs \<longleftrightarrow> (\<exists>yss. xs = concat yss \<and> list_all2 piece pat yss)"

lemma pieces_match_Nil [simp]: "pieces_match piece [] xs \<longleftrightarrow> xs = []"
  by (auto simp: pieces_match_def)

lemma pieces_match_Cons:
  "pieces_match piece (t # pat) xs \<longleftrightarrow>
     (\<exists>i\<le>length xs. piece t (take i xs) \<and> pieces_match piece pat (drop i xs))"
proof
  assume "pieces_match piece (t # pat) xs"
  then obtain ys yss where xs: "xs = ys @ concat yss" "piece t ys" "list_all2 piece pat yss"
    by (auto simp: pieces_match_def list_all2_Cons1)
  then show "\<exists>i\<le>length xs. piece t (take i xs) \<and> pieces_match piece pat (drop i xs)"
    by (intro exI[of _ "length ys"]) (auto simp: pieces_match_def)
next
  assume "\<exists>i\<le>length xs. piece t (take i xs) \<and> pieces_match piece pat (drop i xs)"
  then obtain i yss where "piece t (take i xs)" "drop i xs = concat yss" "list_all2 piece pat yss"
    by (auto simp: pieces_match_def)
  then show "pieces_match piece (t # pat) xs"
    unfolding pieces_match_def
    by (intro exI[of _ "take i xs # yss"]) (auto, metis append_take_drop_id)
qed

section \<open>The loop\<close>

locale two_pointer_glob =
  fixes ok :: "'p \<Rightarrow> bool"
    and is_star :: "'p \<Rightarrow> bool"
    and width :: "'p \<Rightarrow> nat"
    and piece :: "'p \<Rightarrow> 'a list \<Rightarrow> bool"
    and loop :: "'p list \<Rightarrow> 'a list \<Rightarrow> nat \<Rightarrow> nat \<Rightarrow> nat option \<Rightarrow> nat \<Rightarrow> bool"
  assumes star_piece: "is_star t \<Longrightarrow> piece t ys"
    and width_pos: "ok t \<Longrightarrow> \<not> is_star t \<Longrightarrow> 0 < width t"
    and piece_width: "ok t \<Longrightarrow> \<not> is_star t \<Longrightarrow> piece t ys \<Longrightarrow> length ys = width t"
    and loop_end: "length key \<le> k \<Longrightarrow> loop pat key p k sp sk = list_all is_star (drop p pat)"
    and loop_star: "\<lbrakk>k < length key; p < length pat; is_star (pat ! p)\<rbrakk>
      \<Longrightarrow> loop pat key p k sp sk = loop pat key (Suc p) k (Some p) k"
    and loop_match: "\<lbrakk>k < length key; p < length pat; ok (pat ! p); \<not> is_star (pat ! p);
        piece (pat ! p) (take (width (pat ! p)) (drop k key))\<rbrakk>
      \<Longrightarrow> loop pat key p k sp sk = loop pat key (Suc p) (k + width (pat ! p)) sp sk"
    and loop_fail: "\<lbrakk>k < length key; p < length pat \<Longrightarrow> ok (pat ! p) \<and> \<not> is_star (pat ! p) \<and>
        \<not> piece (pat ! p) (take (width (pat ! p)) (drop k key))\<rbrakk>
      \<Longrightarrow> loop pat key p k sp sk =
            (case sp of None \<Rightarrow> False | Some r \<Rightarrow> loop pat key (Suc r) (Suc sk) (Some r) (Suc sk))"
begin

abbreviation spec :: "'p list \<Rightarrow> 'a list \<Rightarrow> bool" where
  "spec \<equiv> pieces_match piece"

lemma spec_fixed:
  assumes "ok t" "\<not> is_star t"
  shows "spec (t # pat) xs \<longleftrightarrow>
    width t \<le> length xs \<and> piece t (take (width t) xs) \<and> spec pat (drop (width t) xs)"
  using piece_width[OF assms] unfolding pieces_match_Cons
  by (metis length_take min.absorb2)

lemma spec_star:
  "is_star t \<Longrightarrow> spec (t # pat) xs \<longleftrightarrow> (\<exists>i\<le>length xs. spec pat (drop i xs))"
  by (simp add: pieces_match_Cons star_piece)

lemma spec_Nil:
  "list_all ok pat \<Longrightarrow> spec pat [] \<longleftrightarrow> list_all is_star pat"
proof (induction pat)
  case (Cons t pat)
  then show ?case
    using width_pos[of t] by (cases "is_star t") (auto simp: spec_star spec_fixed)
qed simp

lemma spec_star_drop:
  assumes "p < length pat" "is_star (pat ! p)" "k \<le> length key"
  shows "spec (drop p pat) (drop k key) \<longleftrightarrow>
    (\<exists>i. k \<le> i \<and> i \<le> length key \<and> spec (drop (Suc p) pat) (drop i key))"
proof -
  have "spec (drop p pat) (drop k key) \<longleftrightarrow>
      (\<exists>i\<le>length key - k. spec (drop (Suc p) pat) (drop (i + k) key))"
    using assms(1,2) by (simp add: Cons_nth_drop_Suc[symmetric] spec_star)
  then show ?thesis using assms(3)
    by (metis add_le_imp_le_diff le_add2 le_add_diff_inverse2 le_diff_conv2)
qed

text \<open>A chunk is a star-free run of tokens: it has a fixed width, and fits or does not.\<close>

abbreviation fixed_run :: "'p list \<Rightarrow> bool" where
  "fixed_run ts \<equiv> list_all (\<lambda>t. ok t \<and> \<not> is_star t) ts"

abbreviation run_width :: "'p list \<Rightarrow> nat" where
  "run_width ts \<equiv> sum_list (map width ts)"

lemma spec_run_append:
  assumes "fixed_run ts"
  shows "spec (ts @ pat) xs \<longleftrightarrow>
    run_width ts \<le> length xs \<and> spec ts (take (run_width ts) xs) \<and> spec pat (drop (run_width ts) xs)"
  using assms
proof (induction ts arbitrary: xs)
  case (Cons t ts)
  then have t: "ok t" "\<not> is_star t" and ts: "fixed_run ts" by auto
  let ?w = "width t" and ?rw = "run_width ts"
  have cut: "take ?w (take (?w + ?rw) xs) = take ?w xs" "drop ?w (take (?w + ?rw) xs) = take ?rw (drop ?w xs)"
    "drop ?rw (drop ?w xs) = drop (?w + ?rw) xs"
    by (simp_all add: drop_take add.commute)
  have len: "?w \<le> length xs \<and> ?rw \<le> length (drop ?w xs) \<longleftrightarrow> ?w + ?rw \<le> length xs"
    "?w \<le> length (take (?w + ?rw) xs) \<longleftrightarrow> ?w \<le> length xs"
    by auto
  show ?case
    using len by (auto simp only: append_Cons list.map sum_list.Cons spec_fixed[OF t] Cons.IH[OF ts] cut)
qed simp

text \<open>
  The state after a star at \<open>s\<close>: the run of tokens since it has matched from \<open>sk\<close> up to \<open>k\<close>.
\<close>

definition star_inv :: "'p list \<Rightarrow> 'a list \<Rightarrow> nat \<Rightarrow> nat \<Rightarrow> nat \<Rightarrow> nat \<Rightarrow> bool" where
  "star_inv pat key p k s sk \<longleftrightarrow>
     s < p \<and> p \<le> length pat \<and> k \<le> length key \<and> is_star (pat ! s) \<and>
     fixed_run (drop (Suc s) (take p pat)) \<and>
     k = sk + run_width (drop (Suc s) (take p pat)) \<and>
     spec (drop (Suc s) (take p pat)) (drop sk (take k key))"

lemma star_inv_split:
  assumes "star_inv pat key p k s sk"
  shows "drop (Suc s) pat = drop (Suc s) (take p pat) @ drop p pat"
proof -
  have "pat = take p pat @ drop p pat" by simp
  moreover have "Suc s \<le> length (take p pat)" using assms by (auto simp: star_inv_def)
  ultimately show ?thesis
    by (metis append_take_drop_id diff_is_0_eq drop0 drop_append)
qed

lemma star_inv_spec:
  assumes inv: "star_inv pat key p k s sk"
  shows "spec (drop (Suc s) pat) (drop sk key) \<longleftrightarrow> spec (drop p pat) (drop k key)"
proof -
  define ts where "ts = drop (Suc s) (take p pat)"
  have "fixed_run ts" "k = sk + run_width ts" "k \<le> length key" "spec ts (drop sk (take k key))"
    using inv by (auto simp: star_inv_def ts_def)
  then show ?thesis
    unfolding star_inv_split[OF inv] ts_def[symmetric]
    by (simp add: spec_run_append add.commute drop_take le_diff_conv2)
qed

lemma star_inv_later:
  assumes inv: "star_inv pat key p k s sk" and "sk \<le> i" "i \<le> length key"
    and "spec (drop (Suc s) pat) (drop i key)"
  shows "\<exists>j. k + (i - sk) = j \<and> j \<le> length key \<and> spec (drop p pat) (drop j key)"
proof -
  define ts where "ts = drop (Suc s) (take p pat)"
  have ts: "fixed_run ts" "k = sk + run_width ts" using inv by (auto simp: star_inv_def ts_def)
  have "run_width ts \<le> length key - i" "spec (drop p pat) (drop (run_width ts + i) key)"
    using assms(4) unfolding star_inv_split[OF inv] ts_def[symmetric]
    by (auto simp: spec_run_append[OF ts(1)] add.commute)
  moreover have "k + (i - sk) = run_width ts + i" using ts(2) assms(2) by simp
  ultimately show ?thesis using assms(3) by auto
qed

lemma star_inv_again:
  assumes inv: "star_inv pat key p k s sk" and p: "p < length pat" "is_star (pat ! p)"
  shows "spec (drop p pat) (drop k key) \<longleftrightarrow>
    (\<exists>i. sk \<le> i \<and> i \<le> length key \<and> spec (drop (Suc s) pat) (drop i key))"
proof
  have "sk \<le> length key" using inv by (auto simp: star_inv_def)
  then show "spec (drop p pat) (drop k key) \<Longrightarrow>
      \<exists>i. sk \<le> i \<and> i \<le> length key \<and> spec (drop (Suc s) pat) (drop i key)"
    using star_inv_spec[OF inv] by blast
next
  assume "\<exists>i. sk \<le> i \<and> i \<le> length key \<and> spec (drop (Suc s) pat) (drop i key)"
  then obtain j where j: "k \<le> j" "j \<le> length key" "spec (drop p pat) (drop j key)"
    using star_inv_later[OF inv] by (metis le_add1)
  then obtain i where "j \<le> i" "i \<le> length key" "spec (drop (Suc p) pat) (drop i key)"
    using spec_star_drop[OF p j(2)] by blast
  then show "spec (drop p pat) (drop k key)"
    using spec_star_drop[OF p, of k key] j(1,2) by (meson order_trans)
qed

lemma star_inv_start:
  "\<lbrakk>is_star (pat ! s); s < length pat; k \<le> length key\<rbrakk> \<Longrightarrow> star_inv pat key (Suc s) k s k"
  by (simp add: star_inv_def)

lemma star_inv_advance:
  assumes inv: "star_inv pat key p k s sk" and p: "p < length pat" "ok (pat ! p)" "\<not> is_star (pat ! p)"
    and piece: "piece (pat ! p) (take (width (pat ! p)) (drop k key))"
  shows "star_inv pat key (Suc p) (k + width (pat ! p)) s sk"
proof -
  define w where "w = width (pat ! p)"
  define ts where "ts = drop (Suc s) (take p pat)"
  have run: "drop (Suc s) (take (Suc p) pat) = ts @ [pat ! p]"
    using inv p(1) by (auto simp: ts_def star_inv_def take_Suc_conv_app_nth)
  have fits: "k + w \<le> length key"
    using piece_width[OF p(2,3) piece] inv width_pos[OF p(2,3)] by (auto simp: w_def star_inv_def)
  have ts: "fixed_run ts" "k = sk + run_width ts" "spec ts (drop sk (take k key))"
    using inv by (auto simp: star_inv_def ts_def)
  have "spec (ts @ [pat ! p]) (drop sk (take (k + w) key))"
    unfolding spec_run_append[OF ts(1)] spec_fixed[OF p(2,3)] w_def[symmetric] pieces_match_Nil
    using ts fits piece by (simp add: w_def drop_take add.commute)
  then show ?thesis
    unfolding star_inv_def run using inv p ts fits by (simp add: w_def star_inv_def)
qed

text \<open>The loop before the first star, and after one.\<close>

lemma loop_correct_star:
  assumes "list_all ok pat" and "star_inv pat key p k s sk"
  shows "loop pat key p k (Some s) sk \<longleftrightarrow>
    (\<exists>i. sk \<le> i \<and> i \<le> length key \<and> spec (drop (Suc s) pat) (drop i key))"
  using assms(2)
proof (induction "(length pat - s, length key - sk, length key - k)"
    arbitrary: p k s sk rule: wf_induct_rule[OF wf_lex_prod[OF wf_less_than wf_lex_prod[OF wf_less_than wf_less_than]]])
  case 1
  note inv = \<open>star_inv pat key p k s sk\<close>
  have le: "p \<le> length pat" "k \<le> length key" "sk \<le> k" "s < p" using inv by (auto simp: star_inv_def)
  have ok: "p < length pat \<Longrightarrow> ok (pat ! p)" using assms(1) by (simp add: list_all_length)
  have ok_rest: "list_all ok (drop p pat)" using assms(1) by (auto simp: list_all_iff dest: in_set_dropD)
  consider (finish) "k = length key" | (star) "k < length key" "p < length pat" "is_star (pat ! p)"
    | (match) "k < length key" "p < length pat" "\<not> is_star (pat ! p)"
        "piece (pat ! p) (take (width (pat ! p)) (drop k key))"
    | (fail) "k < length key" "p < length pat \<Longrightarrow>
        \<not> is_star (pat ! p) \<and> \<not> piece (pat ! p) (take (width (pat ! p)) (drop k key))"
    using le by fastforce
  then show ?case
  proof cases
    case finish
    then have "loop pat key p k (Some s) sk = spec (drop p pat) (drop k key)"
      by (simp add: loop_end spec_Nil[OF ok_rest])
    moreover have "spec (drop (Suc s) pat) (drop i key) \<Longrightarrow> sk \<le> i \<Longrightarrow> i \<le> length key \<Longrightarrow> i = sk" for i
      using star_inv_later[OF inv, of i] finish by auto
    ultimately show ?thesis
      using star_inv_spec[OF inv] le by (metis order_refl order_trans)
  next
    case star
    have "loop pat key p k (Some s) sk \<longleftrightarrow>
        (\<exists>i. k \<le> i \<and> i \<le> length key \<and> spec (drop (Suc p) pat) (drop i key))"
      unfolding loop_star[OF star] using star le
      by (intro 1(1)) (auto simp: star_inv_start)
    also have "\<dots> \<longleftrightarrow> spec (drop p pat) (drop k key)"
      using spec_star_drop[OF star(2,3)] le by simp
    also have "\<dots> \<longleftrightarrow> (\<exists>i. sk \<le> i \<and> i \<le> length key \<and> spec (drop (Suc s) pat) (drop i key))"
      using star_inv_again[OF inv star(2,3)] le by simp
    finally show ?thesis .
  next
    case match
    show ?thesis
      unfolding loop_match[OF match(1,2) ok[OF match(2)] match(3,4)]
      using match le width_pos[OF ok[OF match(2)] match(3)]
      by (intro 1(1) star_inv_advance inv ok) auto
  next
    case fail
    have "\<not> spec (drop p pat) (drop k key)"
      using fail le ok by (cases "p < length pat") (auto simp: Cons_nth_drop_Suc[symmetric] spec_fixed)
    then have no: "\<not> spec (drop (Suc s) pat) (drop sk key)" using star_inv_spec[OF inv] by simp
    have "loop pat key p k (Some s) sk = loop pat key (Suc s) (Suc sk) (Some s) (Suc sk)"
      using loop_fail[of k key p pat "Some s" sk] fail ok by simp
    also have "\<dots> \<longleftrightarrow> (\<exists>i. Suc sk \<le> i \<and> i \<le> length key \<and> spec (drop (Suc s) pat) (drop i key))"
      using fail le inv by (intro 1(1)) (auto simp: star_inv_def intro!: star_inv_start)
    also have "\<dots> \<longleftrightarrow> (\<exists>i. sk \<le> i \<and> i \<le> length key \<and> spec (drop (Suc s) pat) (drop i key))"
      using no le by (metis Suc_leI le_neq_implies_less Suc_leD)
    finally show ?thesis .
  qed
qed

lemma loop_correct_none:
  assumes "list_all ok pat" and "p \<le> length pat" "k \<le> length key"
  shows "loop pat key p k None sk \<longleftrightarrow> spec (drop p pat) (drop k key)"
  using assms(2,3)
proof (induction "length pat - p" arbitrary: p k rule: less_induct)
  case less
  have ok: "p < length pat \<Longrightarrow> ok (pat ! p)" using assms(1) by (simp add: list_all_length)
  have ok_rest: "list_all ok (drop p pat)" using assms(1) by (auto simp: list_all_iff dest: in_set_dropD)
  consider (finish) "k = length key" | (star) "k < length key" "p < length pat" "is_star (pat ! p)"
    | (match) "k < length key" "p < length pat" "\<not> is_star (pat ! p)"
        "piece (pat ! p) (take (width (pat ! p)) (drop k key))"
    | (fail) "k < length key" "p < length pat \<Longrightarrow>
        \<not> is_star (pat ! p) \<and> \<not> piece (pat ! p) (take (width (pat ! p)) (drop k key))"
    using less.prems by fastforce
  then show ?case
  proof cases
    case finish
    then show ?thesis by (simp add: loop_end spec_Nil[OF ok_rest])
  next
    case star
    then show ?thesis
      by (simp add: loop_star[OF star] loop_correct_star[OF assms(1) star_inv_start] spec_star_drop)
  next
    case match
    have w: "width (pat ! p) \<le> length key - k"
      using piece_width[OF ok[OF match(2)] match(3,4)] by simp
    have "drop p pat = pat ! p # drop (Suc p) pat" using match(2) by (simp add: Cons_nth_drop_Suc)
    then show ?thesis
      unfolding loop_match[OF match(1,2) ok[OF match(2)] match(3,4)]
      using match ok w less.hyps[of "Suc p" "k + width (pat ! p)"]
      by (simp add: spec_fixed le_diff_conv2 add.commute)
  next
    case fail
    then show ?thesis
      using loop_fail[of k key p pat None sk] ok less.prems
      by (cases "p < length pat") (auto simp: Cons_nth_drop_Suc[symmetric] spec_fixed)
  qed
qed

lemma loop_correct:
  "list_all ok pat \<Longrightarrow> loop pat key 0 0 None 0 \<longleftrightarrow> spec pat key"
  using loop_correct_none[of pat 0 0 key] by simp

end

end
