(* ===== verification/Key_Pattern.thy ===== *)
theory Key_Pattern
  imports Errors Glob_Loop
begin

text \<open>
  The glob language that scopes an access rule to part of a knowledge base
  (\<^verbatim>\<open>notedthat-core/src/access/pattern.rs\<close>): parsing with brace expansion, and the two iterative
  matchers \<^verbatim>\<open>match_segments\<close> and \<^verbatim>\<open>match_tokens\<close>, with the indices and the single remembered
  backtrack point the code keeps.

  The locale \<open>two_pointer_glob\<close> states what the two loops have in common and proves once that such
  a loop decides the declarative specification \<open>pieces_match\<close>: the subject can be cut into one
  piece per pattern token, each piece being one its token allows.
\<close>

section \<open>The pattern\<close>

definition MAX_PATTERN_BYTES :: nat where
  "MAX_PATTERN_BYTES = 1024"

definition MAX_SEGMENTS :: nat where
  "MAX_SEGMENTS = 64"

definition MAX_ALTERNATIVES :: nat where
  "MAX_ALTERNATIVES = 256"

datatype token = Star | Any | TLiteral string

datatype segment = DoubleStar | SLiteral string | Wild "token list"

record key_pattern =
  source :: string
  alternatives :: "segment list list"

section \<open>Matching\<close>

text \<open>
  \<^verbatim>\<open>literal_at\<close>: the literal's characters found one by one from position \<open>at\<close>.
\<close>

fun literal_at_chars :: "string list \<Rightarrow> nat \<Rightarrow> string list \<Rightarrow> bool" where
  "literal_at_chars chars index [] = True"
| "literal_at_chars chars index (expected # rest) =
     (if index < length chars \<and> chars ! index = expected
      then literal_at_chars chars (Suc index) rest else False)"

definition literal_at :: "string list \<Rightarrow> nat \<Rightarrow> string \<Rightarrow> bool" where
  "literal_at chars at literal = literal_at_chars chars at (utf8_chars literal)"

text \<open>
  The measure shared by both loops: entering a star shortens the longer of the pattern's rest and
  the rest to resume from, backtracking moves the remembered position of the subject on, and a
  match moves the subject on.
\<close>

abbreviation pattern_left :: "'p list \<Rightarrow> nat \<Rightarrow> nat option \<Rightarrow> nat" where
  "pattern_left pat p star_p \<equiv>
     max (length pat - p) (case star_p of None \<Rightarrow> 0 | Some s \<Rightarrow> length pat - Suc s)"

function match_tokens_loop :: "token list \<Rightarrow> string list \<Rightarrow> nat \<Rightarrow> nat \<Rightarrow> nat option \<Rightarrow> nat \<Rightarrow> bool" where
  "match_tokens_loop tokens chars t c star_t star_c =
     (if c < length chars then
        (let backtrack = (\<lambda>_ :: unit. case star_t of
             None \<Rightarrow> False
           | Some resume \<Rightarrow>
               match_tokens_loop tokens chars (resume + 1) (star_c + 1) star_t (star_c + 1)) in
         if t < length tokens then
           (case tokens ! t of
              Star \<Rightarrow> match_tokens_loop tokens chars (t + 1) c (Some t) c
            | Any \<Rightarrow> match_tokens_loop tokens chars (t + 1) (c + 1) star_t star_c
            | TLiteral literal \<Rightarrow>
                if literal_at chars c literal
                then match_tokens_loop tokens chars (t + 1) (c + length (utf8_chars literal)) star_t star_c
                else backtrack ())
         else backtrack ())
      else list_all (\<lambda>token. token = Star) (drop t tokens))"
  by pat_completeness auto
termination
  by (relation "measures [\<lambda>(tokens, chars, t, c, star_t, star_c). pattern_left tokens t star_t,
        \<lambda>(tokens, chars, t, c, star_t, star_c). length chars - star_c,
        \<lambda>(tokens, chars, t, c, star_t, star_c). length chars - c,
        \<lambda>(tokens, chars, t, c, star_t, star_c). length tokens - t]")
     (auto split: option.splits)


declare match_tokens_loop.simps [simp del]

definition match_tokens :: "token list \<Rightarrow> string \<Rightarrow> bool" where
  "match_tokens tokens candidate = match_tokens_loop tokens (utf8_chars candidate) 0 0 None 0"

fun segment_matches :: "segment \<Rightarrow> string \<Rightarrow> bool" where
  "segment_matches DoubleStar candidate = True"
| "segment_matches (SLiteral literal) candidate = (literal = candidate)"
| "segment_matches (Wild tokens) candidate = match_tokens tokens candidate"

function match_segments_loop :: "segment list \<Rightarrow> string list \<Rightarrow> nat \<Rightarrow> nat \<Rightarrow> nat option \<Rightarrow> nat \<Rightarrow> bool" where
  "match_segments_loop pattern key p k star_p star_k =
     (if k < length key then
        (if p < length pattern \<and> pattern ! p = DoubleStar then
           match_segments_loop pattern key (p + 1) k (Some p) k
         else if p < length pattern \<and> segment_matches (pattern ! p) (key ! k) then
           match_segments_loop pattern key (p + 1) (k + 1) star_p star_k
         else (case star_p of
             None \<Rightarrow> False
           | Some resume \<Rightarrow>
               match_segments_loop pattern key (resume + 1) (star_k + 1) star_p (star_k + 1)))
      else list_all (\<lambda>segment. segment = DoubleStar) (drop p pattern))"
  by pat_completeness auto
termination
  by (relation "measures [\<lambda>(pat, key, p, k, star_p, star_k). pattern_left pat p star_p,
        \<lambda>(pat, key, p, k, star_p, star_k). length key - star_k,
        \<lambda>(pat, key, p, k, star_p, star_k). length key - k]")
     (auto split: option.splits)

declare match_segments_loop.simps [simp del]

definition match_segments :: "segment list \<Rightarrow> string list \<Rightarrow> bool" where
  "match_segments pattern key = match_segments_loop pattern key 0 0 None 0"

definition pattern_matches :: "key_pattern \<Rightarrow> string \<Rightarrow> bool" where
  "pattern_matches pat key =
     list_ex (\<lambda>alternative. match_segments alternative (split_on CHR ''/'' key)) (alternatives pat)"

text \<open>\<^verbatim>\<open>literal_prefix\<close>: the loop over the alternatives with the prefix they share so far.\<close>

fun literal_prefix_loop :: "segment list list \<Rightarrow> string option \<Rightarrow> string option" where
  "literal_prefix_loop [] shortest = shortest"
| "literal_prefix_loop ((SLiteral first # _) # rest) shortest =
     (case shortest of
        None \<Rightarrow> literal_prefix_loop rest (Some first)
      | Some existing \<Rightarrow>
          if existing = first then literal_prefix_loop rest (Some existing) else None)"
| "literal_prefix_loop (_ # rest) shortest = None"

definition literal_prefix :: "key_pattern \<Rightarrow> string option" where
  "literal_prefix pat = literal_prefix_loop (alternatives pat) None"

section \<open>Parsing\<close>

text \<open>
  The tokens of a segment with wildcards: \<open>literal\<close> collects the run of ordinary characters.
\<close>

definition push_literal :: "token list \<Rightarrow> string \<Rightarrow> token list" where
  "push_literal tokens literal = (if literal = [] then tokens else tokens @ [TLiteral literal])"

fun tokenize :: "string list \<Rightarrow> token list \<Rightarrow> string \<Rightarrow> token list" where
  "tokenize [] tokens literal = push_literal tokens literal"
| "tokenize (ch # chs) tokens literal =
     (if ch = ''*'' \<or> ch = ''?'' then
        tokenize chs (push_literal tokens literal @ [if ch = ''*'' then Star else Any]) []
      else tokenize chs tokens (literal @ ch))"

definition parse_segment :: "string \<Rightarrow> (error, segment) result" where
  "parse_segment segment =
     (if segment = ''**'' then Inr DoubleStar
      else if contains_str ''**'' segment then
        Inl (InvalidInput (sq @ ''**'' @ sq @ '' must be a whole segment; found it inside '' @ sq @ segment @ sq))
      else if \<not> (CHR ''*'' \<in> set segment \<or> CHR ''?'' \<in> set segment) then Inr (SLiteral segment)
      else Inr (Wild (tokenize (utf8_chars segment) [] [])))"

definition unmatched_close :: "string \<Rightarrow> error" where
  "unmatched_close segment =
     InvalidInput (sq @ ''}'' @ sq @ '' without a matching '' @ sq @ ''{'' @ sq @ '' in '' @ sq @ segment @ sq)"

definition too_many_alternatives :: error where
  "too_many_alternatives =
     InvalidInput (''pattern expands to more than '' @ show_nat MAX_ALTERNATIVES @ '' brace alternatives'')"

function expand_loop :: "string \<Rightarrow> string list \<Rightarrow> string \<Rightarrow> (error, string list) result" where
  "expand_loop segment results rest =
     (case split_once CHR ''{'' rest of
        None \<Rightarrow>
          if CHR ''}'' \<in> set rest then Inl (unmatched_close segment)
          else Inr (map (\<lambda>result. result @ rest) results)
      | Some (literal, inner_and_rest) \<Rightarrow>
          (case split_once CHR ''}'' inner_and_rest of
             None \<Rightarrow> Inl (InvalidInput (''unclosed '' @ sq @ ''{'' @ sq @ '' in '' @ sq @ segment @ sq))
           | Some (inner, rest') \<Rightarrow>
               if CHR ''{'' \<in> set inner then
                 Inl (InvalidInput (''nested braces are not supported: '' @ sq @ segment @ sq))
               else if contains_str ''**'' inner then
                 Inl (InvalidInput (sq @ ''**'' @ sq
                   @ '' must be a whole segment and cannot appear inside braces: '' @ sq @ segment @ sq))
               else let branches = split_on CHR '','' inner in
                 if list_ex (\<lambda>branch. branch = []) branches then
                   Inl (InvalidInput (''brace alternation must not contain an empty branch: '' @ sq @ segment @ sq))
                 else if MAX_ALTERNATIVES < length results * length branches then Inl too_many_alternatives
                 else expand_loop segment
                        (concat (map (\<lambda>prefix. map (\<lambda>branch. prefix @ literal @ branch) branches) results))
                        rest'))"
  by pat_completeness auto
termination
  by (relation "measure (\<lambda>(segment, results, rest). length rest)") (auto simp: split_once_Some_iff)

declare expand_loop.simps [simp del]

definition expand_braces :: "string \<Rightarrow> (error, string list) result" where
  "expand_braces segment =
     (if CHR ''{'' \<notin> set segment then
        (if CHR ''}'' \<in> set segment then Inl (unmatched_close segment) else Inr [segment])
      else expand_loop segment [[]] segment)"

fun parse_loop :: "string list \<Rightarrow> segment list list \<Rightarrow> (error, segment list list) result" where
  "parse_loop [] alts = Inr alts"
| "parse_loop (raw # raws) alts =
     (if raw = [] then
        Inl (InvalidInput ''pattern must not contain empty segments (double slash or trailing slash)'')
      else if raw = ''.'' \<or> raw = ''..'' then
        Inl (InvalidInput (''pattern must not contain '' @ sq @ ''.'' @ sq @ '' or '' @ sq @ ''..'' @ sq
               @ '' segments; no key can contain them''))
      else res_bind (expand_braces raw) (\<lambda>expansions.
        if MAX_ALTERNATIVES < length alts * length expansions then Inl too_many_alternatives
        else res_bind
               (collect_results (\<lambda>(prefix, expansion). res_map (\<lambda>s. prefix @ [s]) (parse_segment expansion))
                 (List.product alts expansions))
               (\<lambda>next. parse_loop raws next)))"

definition pattern_parse :: "string \<Rightarrow> (error, key_pattern) result" where
  "pattern_parse input =
     (if input = [] then Inl (InvalidInput ''pattern must not be empty'')
      else if MAX_PATTERN_BYTES < length input then
        Inl (InvalidInput (''pattern exceeds '' @ show_nat MAX_PATTERN_BYTES @ '' bytes''))
      else if prefix ''/'' input then
        Inl (InvalidInput (''pattern must not start with '' @ sq @ ''/'' @ sq @ ''; keys have no leading slash''))
      else if backslash \<in> set input then Inl (InvalidInput ''pattern must not contain backslash'')
      else if CHR 0x00 \<in> set input then Inl (InvalidInput ''pattern must not contain NUL byte'')
      else let raw_segments = split_on CHR ''/'' input in
        if MAX_SEGMENTS < length raw_segments then
          Inl (InvalidInput (''pattern exceeds '' @ show_nat MAX_SEGMENTS @ '' segments''))
        else res_map (\<lambda>alts. \<lparr>source = input, alternatives = alts\<rparr>) (parse_loop raw_segments [[]]))"

definition whole_kb :: key_pattern where
  "whole_kb = \<lparr>source = ''**'', alternatives = [[DoubleStar]]\<rparr>"

definition is_whole_kb :: "key_pattern \<Rightarrow> bool" where
  "is_whole_kb pat \<longleftrightarrow> source pat = ''**''"

section \<open>Meaning of a pattern\<close>

fun wf_token :: "token \<Rightarrow> bool" where
  "wf_token (TLiteral l) = (l \<noteq> [])"
| "wf_token _ = True"

fun wf_seg :: "segment \<Rightarrow> bool" where
  "wf_seg (Wild ts) = list_all wf_token ts"
| "wf_seg _ = True"

text \<open>The characters a token may stand for, and the key segments a pattern segment may.\<close>

fun token_piece :: "token \<Rightarrow> string list \<Rightarrow> bool" where
  "token_piece Star cs = True"
| "token_piece Any cs = (length cs = 1)"
| "token_piece (TLiteral l) cs = (cs = utf8_chars l)"

fun segment_piece :: "segment \<Rightarrow> string list \<Rightarrow> bool" where
  "segment_piece DoubleStar segs = True"
| "segment_piece (SLiteral l) segs = (segs = [l])"
| "segment_piece (Wild ts) segs =
     (\<exists>seg. segs = [seg] \<and> pieces_match token_piece ts (utf8_chars seg))"

fun token_width :: "token \<Rightarrow> nat" where
  "token_width (TLiteral l) = length (utf8_chars l)"
| "token_width _ = 1"

definition pattern_spec :: "key_pattern \<Rightarrow> string \<Rightarrow> bool" where
  "pattern_spec pat key \<longleftrightarrow>
     (\<exists>alt\<in>set (alternatives pat). pieces_match segment_piece alt (split_on CHR ''/'' key))"

lemma utf8_chars_eq_Nil_iff [simp]: "utf8_chars s = [] \<longleftrightarrow> s = []"
  by (cases s) auto

lemma literal_at_chars_iff:
  "literal_at_chars chars i ls \<longleftrightarrow> take (length ls) (drop i chars) = ls"
proof (induction chars i ls rule: literal_at_chars.induct)
  case (2 chars index expected rest)
  show ?case
  proof (cases "index < length chars")
    case True
    then show ?thesis using 2 by (auto simp: Cons_nth_drop_Suc[symmetric])
  qed auto
qed simp

lemma literal_at_iff:
  "literal_at chars i l \<longleftrightarrow> take (length (utf8_chars l)) (drop i chars) = utf8_chars l"
  by (simp add: literal_at_def literal_at_chars_iff)

interpretation token_glob:
  two_pointer_glob wf_token "\<lambda>t. t = Star" token_width token_piece match_tokens_loop
proof (standard, goal_cases)
  case (2 t)
  then show ?case by (cases t) auto
next
  case (3 t ys)
  then show ?case by (cases t) auto
next
  case (4 key k pat p sp sk)
  then show ?case by (subst match_tokens_loop.simps) simp
next
  case (5 k key p pat sp sk)
  then show ?case by (subst match_tokens_loop.simps) simp
next
  case (6 k key p pat sp sk)
  then show ?case
    by (subst match_tokens_loop.simps) (cases "pat ! p", auto simp: literal_at_iff)
next
  case (7 k key p pat sp sk)
  show ?case
  proof (cases "p < length pat")
    case True
    then obtain l where "pat ! p = TLiteral l" "\<not> literal_at key k l"
      using 7 by (cases "pat ! p") (auto simp: literal_at_iff)
    then show ?thesis using 7(1) True
      by (subst match_tokens_loop.simps) (auto split: option.splits)
  next
    case False
    then show ?thesis using 7(1)
      by (subst match_tokens_loop.simps) (auto split: option.splits)
  qed
qed simp_all

lemma match_tokens_iff:
  "list_all wf_token ts \<Longrightarrow> match_tokens ts seg \<longleftrightarrow> pieces_match token_piece ts (utf8_chars seg)"
  by (simp add: match_tokens_def token_glob.loop_correct)

lemma segment_piece_single:
  "\<lbrakk>wf_seg s; s \<noteq> DoubleStar\<rbrakk> \<Longrightarrow> segment_piece s [seg] \<longleftrightarrow> segment_matches s seg"
  by (cases s) (auto simp: match_tokens_iff)

lemma take_1_drop: "k < length xs \<Longrightarrow> take 1 (drop k xs) = [xs ! k]"
  by (simp add: Cons_nth_drop_Suc[symmetric])

interpretation segment_glob:
  two_pointer_glob wf_seg "\<lambda>s. s = DoubleStar" "\<lambda>_. 1" segment_piece match_segments_loop
proof (standard, goal_cases)
  case (3 t ys)
  then show ?case by (cases t) auto
next
  case (4 key k pat p sp sk)
  then show ?case by (subst match_segments_loop.simps) simp
next
  case (5 k key p pat sp sk)
  then show ?case by (subst match_segments_loop.simps) simp
next
  case (6 k key p pat sp sk)
  then show ?case
    by (subst match_segments_loop.simps) (simp add: take_1_drop[simplified] segment_piece_single)
next
  case (7 k key p pat sp sk)
  then show ?case
    by (subst match_segments_loop.simps)
      (auto simp: take_1_drop[simplified] segment_piece_single split: option.splits)
qed simp_all

lemma match_segments_iff:
  "list_all wf_seg alt \<Longrightarrow> match_segments alt segs \<longleftrightarrow> pieces_match segment_piece alt segs"
  by (simp add: match_segments_def segment_glob.loop_correct)

section \<open>What parsing yields\<close>

fun token_src :: "token \<Rightarrow> string" where
  "token_src Star = ''*''"
| "token_src Any = ''?''"
| "token_src (TLiteral l) = l"

fun segment_src :: "segment \<Rightarrow> string" where
  "segment_src DoubleStar = ''**''"
| "segment_src (SLiteral l) = l"
| "segment_src (Wild ts) = concat (map token_src ts)"

lemma push_literal_src [simp]:
  "concat (map token_src (push_literal ts l)) = concat (map token_src ts) @ l"
  by (simp add: push_literal_def)

lemma push_literal_wf [simp]: "list_all wf_token (push_literal ts l) \<longleftrightarrow> list_all wf_token ts"
  by (auto simp: push_literal_def)

lemma tokenize_src:
  "concat (map token_src (tokenize chs ts l)) = concat (map token_src ts) @ l @ concat chs"
  by (induction chs ts l rule: tokenize.induct) auto

lemma tokenize_wf: "list_all wf_token ts \<Longrightarrow> list_all wf_token (tokenize chs ts l)"
  by (induction chs ts l rule: tokenize.induct) auto

lemma parse_segment_src: "parse_segment t = Inr s \<Longrightarrow> segment_src s = t"
  by (auto simp: parse_segment_def tokenize_src split: if_splits)

lemma parse_segment_wf: "parse_segment t = Inr s \<Longrightarrow> wf_seg s"
  by (auto simp: parse_segment_def tokenize_wf split: if_splits)

text \<open>
  Brace alternation, declaratively: a string expands to every string obtained by choosing one
  branch of each group.
\<close>

inductive expands :: "string \<Rightarrow> string \<Rightarrow> bool" where
  plain: "\<lbrakk>CHR ''{'' \<notin> set s; CHR ''}'' \<notin> set s\<rbrakk> \<Longrightarrow> expands s s"
| group: "\<lbrakk>CHR ''{'' \<notin> set literal; CHR ''}'' \<notin> set inner; branch \<in> set (split_on CHR '','' inner);
    expands rest t\<rbrakk> \<Longrightarrow> expands (literal @ ''{'' @ inner @ ''}'' @ rest) (literal @ branch @ t)"

inductive_cases expandsE: "expands s t"

lemma expands_plain_iff:
  "CHR ''{'' \<notin> set s \<Longrightarrow> expands s t \<longleftrightarrow> CHR ''}'' \<notin> set s \<and> t = s"
  by (auto elim: expandsE intro: expands.plain)

lemma expands_group_iff:
  assumes "CHR ''{'' \<notin> set literal" "CHR ''}'' \<notin> set inner"
  shows "expands (literal @ CHR ''{'' # inner @ CHR ''}'' # rest) t \<longleftrightarrow>
    (\<exists>branch\<in>set (split_on CHR '','' inner). \<exists>t'. expands rest t' \<and> t = literal @ branch @ t')"
    (is "expands ?s t \<longleftrightarrow> ?R")
proof
  assume "expands ?s t"
  then show ?R
  proof (cases rule: expands.cases)
    case (group literal' inner' branch rest' t')
    have "literal = literal' \<and> inner @ CHR ''}'' # rest = inner' @ CHR ''}'' # rest'"
      using append_sep_inj[of literal "CHR ''{''" "inner @ CHR ''}'' # rest" literal' "inner' @ CHR ''}'' # rest'"]
        group assms by simp
    moreover from this have "inner = inner' \<and> rest = rest'"
      using append_sep_inj[of inner "CHR ''}''" rest inner' rest'] group assms by simp
    ultimately show ?thesis using group by blast
  qed auto
next
  assume ?R
  then show "expands ?s t" using expands.group[OF assms] by auto
qed

lemma expand_loop_set:
  "expand_loop segment results rest = Inr out \<Longrightarrow>
     set out = {r @ t |r t. r \<in> set results \<and> expands rest t}"
proof (induction segment results rest arbitrary: out rule: expand_loop.induct)
  case (1 segment results rest)
  show ?case
  proof (cases "split_once CHR ''{'' rest")
    case None
    then have "CHR ''{'' \<notin> set rest" by (simp add: split_once_None_iff)
    then show ?thesis using 1(2) None
      by (auto simp: expand_loop.simps[of segment results rest] expands_plain_iff split: if_splits)
  next
    case (Some a)
    then obtain literal tl where a: "a = (literal, tl)"
      and rest: "rest = literal @ CHR ''{'' # tl" "CHR ''{'' \<notin> set literal"
      by (cases a) (auto simp: split_once_Some_iff)
    obtain inner rest' where b: "split_once CHR ''}'' tl = Some (inner, rest')"
      using 1(2) Some a by (auto simp: expand_loop.simps[of segment results rest] split: option.splits)
    then have tl: "tl = inner @ CHR ''}'' # rest'" "CHR ''}'' \<notin> set inner"
      by (auto simp: split_once_Some_iff)
    define next_results where "next_results =
      concat (map (\<lambda>prefix. map (\<lambda>branch. prefix @ literal @ branch) (split_on CHR '','' inner)) results)"
    have step: "expand_loop segment next_results rest' = Inr out"
      and g: "CHR ''{'' \<notin> set inner" "\<not> contains_str ''**'' inner"
      "\<not> list_ex (\<lambda>branch. branch = []) (split_on CHR '','' inner)"
      "\<not> MAX_ALTERNATIVES < length results * length (split_on CHR '','' inner)"
      using 1(2) Some a b
      by (auto simp: expand_loop.simps[of segment results rest] Let_def next_results_def split: if_splits)
    have "set out = {r @ t |r t. r \<in> set next_results \<and> expands rest' t}"
      by (rule 1(1)[OF Some a[symmetric] b refl g(1,2) refl g(3,4) step[unfolded next_results_def], folded next_results_def])
    moreover have "set next_results =
        {r @ literal @ b |r b. r \<in> set results \<and> b \<in> set (split_on CHR '','' inner)}"
      by (auto simp: next_results_def)
    moreover have "expands rest t \<longleftrightarrow>
        (\<exists>b\<in>set (split_on CHR '','' inner). \<exists>t'. expands rest' t' \<and> t = literal @ b @ t')" for t
      using expands_group_iff[OF rest(2) tl(2)] rest(1) tl(1) by simp
    ultimately show ?thesis
      by (simp only: set_eq_iff mem_Collect_eq) (metis append_assoc)
  qed
qed

lemma expand_braces_set: "expand_braces s = Inr out \<Longrightarrow> set out = {t. expands s t}"
  by (auto simp: expand_braces_def expands_plain_iff dest: expand_loop_set split: if_splits)

text \<open>
  The alternatives of a parsed pattern are exactly the parses of the expansions of its segments.
\<close>

definition parses_to :: "string \<Rightarrow> segment \<Rightarrow> bool" where
  "parses_to raw seg \<longleftrightarrow> (\<exists>t. expands raw t \<and> parse_segment t = Inr seg)"

lemma collect_results_set:
  "collect_results f xs = Inr ys \<Longrightarrow> set ys = {y. \<exists>x\<in>set xs. f x = Inr y}"
  by (fastforce simp: collect_results_Inr_iff list_all2_conv_all_nth set_conv_nth)

lemma parse_loop_Cons_Inr:
  assumes "parse_loop (raw # raws) alts = Inr out"
  obtains expansions extended where
    "expand_braces raw = Inr expansions"
    "collect_results (\<lambda>(prefix, expansion). res_map (\<lambda>s. prefix @ [s]) (parse_segment expansion))
       (List.product alts expansions) = Inr extended"
    "length extended \<le> MAX_ALTERNATIVES"
    "parse_loop raws extended = Inr out"
    "raw \<noteq> []"
proof -
  obtain expansions extended where *: "expand_braces raw = Inr expansions" "raw \<noteq> []"
    "length alts * length expansions \<le> MAX_ALTERNATIVES"
    "collect_results (\<lambda>(prefix, expansion). res_map (\<lambda>s. prefix @ [s]) (parse_segment expansion))
       (List.product alts expansions) = Inr extended" "parse_loop raws extended = Inr out"
    using assms by (auto simp: res_bind_Inr_iff split: if_splits)
  moreover from *(3,4) have "length extended \<le> MAX_ALTERNATIVES"
    by (auto simp: collect_results_Inr_iff dest!: list_all2_lengthD)
  ultimately show thesis using that by blast
qed

lemma extended_set:
  assumes "expand_braces raw = Inr expansions"
    and "collect_results (\<lambda>(prefix, expansion). res_map (\<lambda>s. prefix @ [s]) (parse_segment expansion))
       (List.product alts expansions) = Inr extended"
  shows "set extended = {alt @ [s] |alt s. alt \<in> set alts \<and> parses_to raw s}"
  using collect_results_set[OF assms(2)] expand_braces_set[OF assms(1)]
  by (auto simp: res_map_Inr_iff parses_to_def)

lemma parse_loop_set:
  "parse_loop raws alts = Inr out \<Longrightarrow>
     set out = {alt @ segs |alt segs. alt \<in> set alts \<and> list_all2 parses_to raws segs}"
proof (induction raws arbitrary: alts)
  case (Cons raw raws)
  obtain expansions extended where *: "expand_braces raw = Inr expansions"
    "collect_results (\<lambda>(prefix, expansion). res_map (\<lambda>s. prefix @ [s]) (parse_segment expansion))
       (List.product alts expansions) = Inr extended" "parse_loop raws extended = Inr out"
    using parse_loop_Cons_Inr[OF Cons.prems] by metis
  show ?case
    using Cons.IH[OF *(3)] unfolding extended_set[OF *(1,2)]
    by (auto simp: list_all2_Cons1) (metis append_Cons append_Nil append_assoc)+
qed simp

lemma parse_loop_bound:
  "\<lbrakk>parse_loop raws alts = Inr out; length alts \<le> MAX_ALTERNATIVES\<rbrakk> \<Longrightarrow> length out \<le> MAX_ALTERNATIVES"
proof (induction raws arbitrary: alts)
  case (Cons raw raws)
  then show ?case by (metis parse_loop_Cons_Inr)
qed simp

lemma pattern_parse_Inr:
  assumes "pattern_parse s = Inr pat"
  shows "source pat = s" "parse_loop (split_on CHR ''/'' s) [[]] = Inr (alternatives pat)"
    "length s \<le> MAX_PATTERN_BYTES" "length (split_on CHR ''/'' s) \<le> MAX_SEGMENTS" "s \<noteq> []"
  using assms by (auto simp: pattern_parse_def Let_def res_map_Inr_iff split: if_splits)

lemma pattern_parse_alternatives:
  assumes "pattern_parse s = Inr pat"
  shows "set (alternatives pat) = {segs. list_all2 parses_to (split_on CHR ''/'' s) segs}"
  using parse_loop_set[OF pattern_parse_Inr(2)[OF assms]] by simp

lemma parses_to_wf: "parses_to raw seg \<Longrightarrow> wf_seg seg"
  by (auto simp: parses_to_def parse_segment_wf)

lemma pattern_parse_wf:
  assumes "pattern_parse s = Inr pat" "alt \<in> set (alternatives pat)"
  shows "list_all wf_seg alt" "length alt = length (split_on CHR ''/'' s)"
  using assms pattern_parse_alternatives[OF assms(1)] parses_to_wf
  by (auto simp: list_all_length list_all2_conv_all_nth)

lemma pattern_matches_spec:
  "pattern_parse s = Inr pat \<Longrightarrow> pattern_matches pat key \<longleftrightarrow> pattern_spec pat key"
  by (auto simp: pattern_matches_def pattern_spec_def list_ex_iff match_segments_iff pattern_parse_wf)

lemma pattern_parse_denotation:
  assumes "pattern_parse s = Inr pat"
  shows "pattern_matches pat key \<longleftrightarrow>
    (\<exists>segs. list_all2 parses_to (split_on CHR ''/'' s) segs \<and>
       pieces_match segment_piece segs (split_on CHR ''/'' key))"
  using pattern_matches_spec[OF assms] pattern_parse_alternatives[OF assms]
  by (auto simp: pattern_spec_def)

section \<open>Consequences for authorization\<close>

lemma whole_kb_parses: "pattern_parse ''**'' = Inr whole_kb"
  by (simp add: pattern_parse_def whole_kb_def MAX_PATTERN_BYTES_def MAX_SEGMENTS_def
      expand_braces_def MAX_ALTERNATIVES_def parse_segment_def)

lemma is_whole_kb_unique: "\<lbrakk>pattern_parse s = Inr pat; is_whole_kb pat\<rbrakk> \<Longrightarrow> pat = whole_kb"
  using pattern_parse_Inr(1)[of s pat] whole_kb_parses by (simp add: is_whole_kb_def)

lemma pieces_match_DoubleStar [simp]: "pieces_match segment_piece [DoubleStar] segs"
  by (auto simp: pieces_match_Cons)

lemma whole_kb_matches [simp]: "pattern_matches whole_kb key"
  unfolding pattern_matches_spec[OF whole_kb_parses] pattern_spec_def
  by (simp add: whole_kb_def)

lemma literal_prefix_loop_Some:
  "literal_prefix_loop alts shortest = Some l \<Longrightarrow>
     (shortest = None \<or> shortest = Some l) \<and> (\<forall>alt\<in>set alts. \<exists>rest. alt = SLiteral l # rest)"
  by (induction alts shortest rule: literal_prefix_loop.induct) (auto split: option.splits if_splits)

lemma split_on_hd_cases:
  "split_on c s = l # rest \<Longrightarrow> s = l \<or> prefix (l @ [c]) s"
  using prefix_split_on_iff[of c l s] split_on_segment_no_sep[of l c s] split_on_no_sep[of c l]
  by (simp add: prefix_def)

lemma literal_prefix_sound_spec:
  assumes "literal_prefix pat = Some l" "pattern_spec pat key"
  shows "key = l \<or> prefix (l @ ''/'') key"
proof -
  obtain rest where "pieces_match segment_piece (SLiteral l # rest) (split_on CHR ''/'' key)"
    using assms literal_prefix_loop_Some[of "alternatives pat" None l]
    by (auto simp: literal_prefix_def pattern_spec_def)
  then obtain i where "take i (split_on CHR ''/'' key) = [l]" by (auto simp: pieces_match_Cons)
  then have "hd (split_on CHR ''/'' key) = l" by (metis hd_take list.sel(1) not_Cons_self2 take_eq_Nil zero_less_iff_neq_zero)
  then show ?thesis using split_on_hd_cases[of "CHR ''/''" key l] by (cases "split_on CHR ''/'' key") auto
qed

lemma pieces_match_same_length:
  "\<lbrakk>pieces_match segment_piece alt segs; DoubleStar \<notin> set alt\<rbrakk> \<Longrightarrow> length segs = length alt"
proof (induction alt arbitrary: segs)
  case (Cons s alt)
  then obtain i where i: "i \<le> length segs" "segment_piece s (take i segs)" "pieces_match segment_piece alt (drop i segs)"
    by (auto simp: pieces_match_Cons)
  moreover have "length (take i segs) = 1" using i(2) Cons.prems(2) by (cases s) (auto simp del: length_take)
  ultimately show ?case using Cons.IH[of "drop i segs"] Cons.prems(2) by simp
qed simp

lemma pieces_match_literals:
  "pieces_match segment_piece (map SLiteral ls @ [DoubleStar]) segs \<longleftrightarrow> prefix ls segs"
proof (induction ls arbitrary: segs)
  case (Cons l ls)
  have "(\<exists>i\<le>length segs. take i segs = [l] \<and> prefix ls (drop i segs)) \<longleftrightarrow> prefix (l # ls) segs"
  proof (cases segs)
    case (Cons x xs)
    have "take i segs = [l] \<longleftrightarrow> i = 1 \<and> x = l \<or> xs = [] \<and> 0 < i \<and> x = l" for i
      unfolding Cons by (cases i) (auto simp: take_eq_Nil)
    then show ?thesis unfolding Cons by fastforce
  qed simp
  then show ?case by (simp add: pieces_match_Cons Cons.IH)
qed simp

definition meta_free :: "string \<Rightarrow> bool" where
  "meta_free s \<longleftrightarrow> (\<forall>c\<in>set s. c \<notin> {CHR ''*'', CHR ''?'', CHR ''{'', CHR ''}''})"

lemma meta_free_mono: "\<lbrakk>meta_free s; set t \<subseteq> set s\<rbrakk> \<Longrightarrow> meta_free t"
  by (auto simp: meta_free_def)

lemma parses_to_plain:
  assumes "meta_free raw"
  shows "parses_to raw seg \<longleftrightarrow> seg = SLiteral raw"
proof -
  have no: "CHR ''*'' \<notin> set raw" "CHR ''?'' \<notin> set raw" "CHR ''{'' \<notin> set raw" "CHR ''}'' \<notin> set raw"
    using assms by (auto simp: meta_free_def)
  have "\<not> contains_str ''**'' raw"
    using no(1) set_mono_sublist[of "''**''" raw] by (auto simp: contains_str_iff)
  then have "parse_segment raw = Inr (SLiteral raw)"
    using no(1,2) by (auto simp: parse_segment_def)
  then show ?thesis using expands_plain_iff[OF no(3)] no(4) by (auto simp: parses_to_def)
qed

lemma parses_to_DoubleStar: "parses_to ''**'' seg \<longleftrightarrow> seg = DoubleStar"
  using expands_plain_iff[of "''**''"] by (auto simp: parses_to_def parse_segment_def)

lemma list_all2_parses_to_plain:
  "\<forall>r\<in>set raws. meta_free r \<Longrightarrow> list_all2 parses_to raws segs \<longleftrightarrow> segs = map SLiteral raws"
proof (induction raws arbitrary: segs)
  case (Cons r raws)
  then show ?case by (cases segs) (auto simp: parses_to_plain)
qed auto

lemma subtree_pattern_iff:
  assumes parse: "pattern_parse (p @ ''/**'') = Inr pat" and "meta_free p"
  shows "pattern_matches pat key \<longleftrightarrow> key = p \<or> prefix (p @ ''/'') key"
proof -
  let ?raws = "split_on CHR ''/'' p"
  have free: "\<forall>r\<in>set ?raws. meta_free r"
    using assms(2) meta_free_mono set_split_on_subset by metis
  have raws: "split_on CHR ''/'' (p @ ''/**'') = ?raws @ [''**'']"
    using split_on_append_sep[of "CHR ''/''" p "''**''"] by simp
  have "list_all2 parses_to (?raws @ [''**'']) segs \<longleftrightarrow> segs = map SLiteral ?raws @ [DoubleStar]" for segs
    unfolding list_all2_append1 list_all2_Cons1 list_all2_parses_to_plain[OF free] parses_to_DoubleStar
    by auto
  then show ?thesis
    using prefix_split_on_iff[of "CHR ''/''" p key]
    by (simp add: pattern_parse_denotation[OF parse] raws pieces_match_literals)
qed

section \<open>Properties\<close>

text \<open>
  C2: The iterative matchers decide the pattern language.  For every pattern that parses, the
  two-pointer loops accept a key exactly when some choice of one branch per brace group parses to
  pattern segments such that the key's segments can be cut into one piece per pattern segment, each
  allowed by its segment: any run of segments for \<^verbatim>\<open>**\<close>, one segment otherwise, its characters cut
  into pieces the same way when it has \<^verbatim>\<open>*\<close> or \<^verbatim>\<open>?\<close>.
\<close>

theorem pattern_matching_correct:
  assumes "pattern_parse s = Inr pat"
  shows "pattern_matches pat key \<longleftrightarrow>
    (\<exists>segs. list_all2 parses_to (split_on CHR ''/'' s) segs
       \<and> pieces_match segment_piece segs (split_on CHR ''/'' key))"
  by (rule pattern_parse_denotation[OF assms])

theorem pattern_matching_correct_witness:
  "\<exists>segs. list_all2 parses_to [''notes'', ''*.{md,txt}''] segs
     \<and> pieces_match segment_piece segs [''notes'', ''a.b.txt'']"
proof -
  let ?pat = "\<lparr>source = ''notes/*.{md,txt}'', alternatives =
    [[SLiteral ''notes'', Wild [Star, TLiteral ''.md'']], [SLiteral ''notes'', Wild [Star, TLiteral ''.txt'']]]\<rparr>"
  have "pattern_parse ''notes/*.{md,txt}'' = Inr ?pat" "pattern_matches ?pat ''notes/a.b.txt''"
    by code_simp+
  then show ?thesis using pattern_matching_correct[of "''notes/*.{md,txt}''" ?pat "''notes/a.b.txt''"] by simp
qed

text \<open>
  A rule scoped to \<^verbatim>\<open>p/**\<close>, for a path \<^verbatim>\<open>p\<close> without pattern characters, reaches the key \<^verbatim>\<open>p\<close> and the
  keys below it, and nothing else: no sibling that merely starts with the same characters.
\<close>

theorem subtree_pattern_exact:
  assumes "pattern_parse (p @ ''/**'') = Inr pat" "meta_free p"
  shows "pattern_matches pat key \<longleftrightarrow> key = p \<or> prefix (p @ ''/'') key"
  by (rule subtree_pattern_iff[OF assms])

theorem subtree_pattern_exact_witness:
  "\<not> pattern_matches \<lparr>source = ''public/**'', alternatives = [[SLiteral ''public'', DoubleStar]]\<rparr> ''public-internal/a''"
proof -
  have "pattern_parse (''public'' @ ''/**'') =
      Inr \<lparr>source = ''public/**'', alternatives = [[SLiteral ''public'', DoubleStar]]\<rparr>" by code_simp
  moreover have "meta_free ''public''" by (simp add: meta_free_def)
  ultimately show ?thesis using subtree_pattern_exact[of "''public''" _ "''public-internal/a''"] by simp
qed

text \<open>
  Parsing is bounded and keeps its source: an accepted pattern has at most 256 alternatives,
  each with as many segments as the source, at most 64, and the source is what was written.  A
  pattern none of whose alternatives has a \<^verbatim>\<open>**\<close> segment matches only keys with exactly as many
  segments, so \<^verbatim>\<open>*\<close> and \<^verbatim>\<open>?\<close> never cross a slash.
\<close>

theorem pattern_parse_bounded:
  assumes "pattern_parse s = Inr pat"
  shows "source pat = s \<and> length (alternatives pat) \<le> 256
    \<and> (\<forall>alt\<in>set (alternatives pat). length alt = length (split_on CHR ''/'' s) \<and> length alt \<le> 64)
    \<and> (pattern_matches pat key \<and> (\<forall>alt\<in>set (alternatives pat). DoubleStar \<notin> set alt)
        \<longrightarrow> length (split_on CHR ''/'' key) = length (split_on CHR ''/'' s))"
proof (intro conjI ballI impI)
  note parse = pattern_parse_Inr[OF assms] and wf = pattern_parse_wf[OF assms]
  show "source pat = s" by (rule parse)
  show "length (alternatives pat) \<le> 256"
    using parse_loop_bound[OF parse(2)] by (simp add: MAX_ALTERNATIVES_def)
  fix alt assume alt: "alt \<in> set (alternatives pat)"
  then show "length alt = length (split_on CHR ''/'' s)" by (rule wf(2))
  then show "length alt \<le> 64" using parse(4) by (simp add: MAX_SEGMENTS_def)
next
  assume m: "pattern_matches pat key \<and> (\<forall>alt\<in>set (alternatives pat). DoubleStar \<notin> set alt)"
  then obtain alt where "alt \<in> set (alternatives pat)" "pieces_match segment_piece alt (split_on CHR ''/'' key)"
    using pattern_matches_spec[OF assms] by (auto simp: pattern_spec_def)
  then show "length (split_on CHR ''/'' key) = length (split_on CHR ''/'' s)"
    using pieces_match_same_length m pattern_parse_wf(2)[OF assms] by metis
qed

theorem pattern_parse_bounded_witness:
  "length (split_on CHR ''/'' ''public/a'') = length (split_on CHR ''/'' ''public/*'')"
proof -
  let ?pat = "\<lparr>source = ''public/*'', alternatives = [[SLiteral ''public'', Wild [Star]]]\<rparr>"
  have "pattern_parse ''public/*'' = Inr ?pat" "pattern_matches ?pat ''public/a''" by code_simp+
  then show ?thesis using pattern_parse_bounded[of "''public/*''" ?pat "''public/a''"] by simp
qed

text \<open>
  C39: A brace group can smuggle in the segment-crossing wildcard.  The check that keeps \<^verbatim>\<open>**\<close> out of
  braces looks at one group at a time, so \<^verbatim>\<open>public/{*}*\<close> is accepted and expands to \<^verbatim>\<open>public/**\<close>: it
  matches keys at any depth, although \<^verbatim>\<open>*\<close> is documented as never crossing a slash.
\<close>

theorem brace_star_crosses_slash:
  "\<exists>pat. pattern_parse ''public/{*}*'' = Inr pat \<and> pattern_matches pat ''public/deep/secret.md''"
proof -
  let ?pat = "\<lparr>source = ''public/{*}*'', alternatives = [[SLiteral ''public'', DoubleStar]]\<rparr>"
  have "pattern_parse ''public/{*}*'' = Inr ?pat" "pattern_matches ?pat ''public/deep/secret.md''"
    by code_simp+
  then show ?thesis by blast
qed

end
