(* ===== verification/Slug.thy ===== *)
theory Slug
  imports Errors
begin

text \<open>
  Knowledge-base and tenant slugs (\<^verbatim>\<open>notedthat-core/src/slug.rs\<close>) and the bucket name derived from
  the pair (\<^verbatim>\<open>bucket_name.rs\<close>).  The lemmas give the accepted slugs, that a tenant slug has no
  hyphen, that bucket names are injective and which pairs fit the 63-byte limit.
\<close>

section \<open>Definitions\<close>

datatype kb_slug = KbSlug (kb_str: string)
datatype tenant_slug = TenantSlug (tenant_str: string)

definition slug_char :: "char \<Rightarrow> bool" where
  "slug_char c \<longleftrightarrow> (CHR ''a'' \<le> c \<and> c \<le> CHR ''z'') \<or> (CHR ''0'' \<le> c \<and> c \<le> CHR ''9'') \<or> c = CHR ''-''"

fun check_slug_char :: "string \<Rightarrow> (error, unit) result" where
  "check_slug_char [c] =
     (if slug_char c then Inr ()
      else Inl (InvalidInput (''slug contains invalid character '' @ sq @ [c] @ sq @ ''; only [a-z0-9-] allowed'')))"
| "check_slug_char ch =
     Inl (InvalidInput (''slug contains invalid character '' @ sq @ ch @ sq @ ''; only [a-z0-9-] allowed''))"

definition validate_slug :: "string \<Rightarrow> nat \<Rightarrow> (error, unit) result" where
  "validate_slug s max_len =
     (if s = [] then Inl (InvalidInput ''slug must not be empty'')
      else if max_len < length s then
        Inl (InvalidInput (''slug must be at most '' @ show_nat max_len @ '' characters, got '' @ show_nat (length s)))
      else if prefix ''-'' s then Inl (InvalidInput ''slug must not start with a hyphen'')
      else if suffix ''-'' s then Inl (InvalidInput ''slug must not end with a hyphen'')
      else check_all check_slug_char (utf8_chars s))"

definition KB_MAX_LEN :: nat where
  "KB_MAX_LEN = 40"

definition kb_slug_try_new :: "string \<Rightarrow> (error, kb_slug) result" where
  "kb_slug_try_new s = res_bind (validate_slug s KB_MAX_LEN) (\<lambda>_. Inr (KbSlug s))"

definition TENANT_MAX_LEN :: nat where
  "TENANT_MAX_LEN = 20"

definition tenant_slug_try_new :: "string \<Rightarrow> (error, tenant_slug) result" where
  "tenant_slug_try_new s =
     res_bind (validate_slug s TENANT_MAX_LEN) (\<lambda>_.
       if CHR ''-'' \<in> set s then
         Inl (InvalidInput (''tenant slug must not contain a hyphen: the first hyphen after the ''
                @ ''prefix delimits the tenant from the knowledge base in bucket names''))
       else Inr (TenantSlug s))"

definition tenant_default :: tenant_slug where
  "tenant_default = TenantSlug ''default''"

definition BUCKET_NAME_MAX :: nat where
  "BUCKET_NAME_MAX = 63"

definition BUCKET_NAME_PREFIX :: string where
  "BUCKET_NAME_PREFIX = ''nt-''"

definition derive_bucket_name :: "tenant_slug \<Rightarrow> kb_slug \<Rightarrow> string" where
  "derive_bucket_name tenant kb = BUCKET_NAME_PREFIX @ tenant_str tenant @ ''-'' @ kb_str kb"

definition validate_bucket_name :: "tenant_slug \<Rightarrow> kb_slug \<Rightarrow> (error, unit) result" where
  "validate_bucket_name tenant kb =
     (let name = derive_bucket_name tenant kb in
      if BUCKET_NAME_MAX < length name then Inl (BucketNameTooLong name (length name))
      else Inr ())"

section \<open>Accepted slugs\<close>

definition wf_slug :: "nat \<Rightarrow> string \<Rightarrow> bool" where
  "wf_slug max_len s \<longleftrightarrow>
     s \<noteq> [] \<and> length s \<le> max_len \<and> hd s \<noteq> CHR ''-'' \<and> last s \<noteq> CHR ''-'' \<and> list_all slug_char s"

definition wf_tenant :: "string \<Rightarrow> bool" where
  "wf_tenant s \<longleftrightarrow> wf_slug TENANT_MAX_LEN s \<and> CHR ''-'' \<notin> set s"

lemma check_slug_char_Inr_iff:
  "check_slug_char cs = Inr u \<longleftrightarrow> (\<exists>c. cs = [c] \<and> slug_char c)"
  by (cases cs rule: check_slug_char.cases) auto

lemma slug_char_not_continuation: "slug_char c \<Longrightarrow> \<not> is_continuation c"
  by (auto simp: slug_char_def is_continuation_def less_eq_char_def)

lemma check_slug_chars_iff:
  "check_all check_slug_char (utf8_chars s) = Inr u \<longleftrightarrow> list_all slug_char s"
proof (induction s rule: utf8_chars.induct)
  case (2 x xs)
  show ?case
  proof (cases "xs \<noteq> [] \<and> is_continuation (hd xs)")
    case True
    then have "\<not> list_all slug_char xs" using slug_char_not_continuation
      by (cases xs) auto
    moreover have "takeWhile is_continuation xs \<noteq> []" using True by (cases xs) auto
    ultimately show ?thesis by (auto simp: result_simps check_slug_char_Inr_iff)
  next
    case False
    then have "takeWhile is_continuation xs = []" "dropWhile is_continuation xs = xs"
      by (cases xs; auto)+
    then show ?thesis using 2 by (auto simp: result_simps check_slug_char_Inr_iff)
  qed
qed simp

lemma validate_slug_Inr_iff [result_simps]: "validate_slug s n = Inr u \<longleftrightarrow> wf_slug n s"
  by (cases "s = []")
    (auto simp: validate_slug_def wf_slug_def check_slug_chars_iff prefix_single_iff suffix_single_iff)

lemma kb_slug_try_new_Inr_iff [result_simps]:
  "kb_slug_try_new s = Inr k \<longleftrightarrow> wf_slug KB_MAX_LEN s \<and> k = KbSlug s"
  by (auto simp: kb_slug_try_new_def result_simps)

lemma tenant_slug_try_new_Inr_iff [result_simps]:
  "tenant_slug_try_new s = Inr t \<longleftrightarrow> wf_tenant s \<and> t = TenantSlug s"
  by (auto simp: tenant_slug_try_new_def result_simps wf_tenant_def)

interpretation kb_slug: validated_newtype kb_slug_try_new kb_str "wf_slug KB_MAX_LEN"
  by standard (auto simp: result_simps kb_slug.expand)

interpretation tenant_slug: validated_newtype tenant_slug_try_new tenant_str wf_tenant
  by standard (auto simp: result_simps tenant_slug.expand)

lemma tenant_default_accepted: "tenant_slug_try_new ''default'' = Inr tenant_default"
  by (simp add: result_simps tenant_default_def wf_tenant_def wf_slug_def TENANT_MAX_LEN_def
      slug_char_def)

section \<open>Bucket names\<close>

lemma derive_bucket_name_inj_wf:
  assumes "wf_tenant (tenant_str t)" "wf_tenant (tenant_str t')"
    and "derive_bucket_name t k = derive_bucket_name t' k'"
  shows "t = t' \<and> k = k'"
  using append_sep_inj[of "tenant_str t" "CHR ''-''" "kb_str k" "tenant_str t'" "kb_str k'"] assms
  by (auto simp: derive_bucket_name_def wf_tenant_def tenant_slug.expand kb_slug.expand)

lemma length_derive_bucket_name:
  "length (derive_bucket_name t k) = 4 + length (tenant_str t) + length (kb_str k)"
  by (simp add: derive_bucket_name_def BUCKET_NAME_PREFIX_def)

section \<open>Properties\<close>

text \<open>
  Two different pairs of a tenant and a knowledge base never share a bucket: the derived name
  determines both slugs.
\<close>

theorem bucket_name_injective:
  assumes "tenant_slug_try_new ts = Inr t" "kb_slug_try_new ks = Inr k"
    and "tenant_slug_try_new ts' = Inr t'" "kb_slug_try_new ks' = Inr k'"
    and "derive_bucket_name t k = derive_bucket_name t' k'"
  shows "t = t' \<and> k = k' \<and> ts = ts' \<and> ks = ks'"
  using derive_bucket_name_inj_wf[of t t' k k'] assms by (auto simp: result_simps)

theorem bucket_name_injective_witness:
  "tenant_slug_try_new ''acme'' = Inr (TenantSlug ''acme'') \<and> kb_slug_try_new ''my-notes'' = Inr (KbSlug ''my-notes'')
   \<and> ''my-notes'' = ''my-notes''"
proof -
  have ok: "tenant_slug_try_new ''acme'' = Inr (TenantSlug ''acme'')"
    "kb_slug_try_new ''my-notes'' = Inr (KbSlug ''my-notes'')" by code_simp+
  show ?thesis using bucket_name_injective[OF ok ok refl] ok by simp
qed

text \<open>
  The bucket-name limit only ever refuses the single longest combination: with slugs the
  constructors accept, validation fails exactly when the tenant has 20 and the knowledge base 40
  characters, and the error carries the derived name and its length of 64.
\<close>

theorem bucket_name_limit:
  assumes "tenant_slug_try_new ts = Inr t" "kb_slug_try_new ks = Inr k"
  shows "validate_bucket_name t k =
    (if length ts = 20 \<and> length ks = 40 then Inl (BucketNameTooLong (derive_bucket_name t k) 64) else Inr ())"
proof -
  have "length ts \<le> 20" "length ks \<le> 40" "t = TenantSlug ts" "k = KbSlug ks"
    using assms by (auto simp: result_simps wf_tenant_def wf_slug_def TENANT_MAX_LEN_def KB_MAX_LEN_def)
  then show ?thesis
    by (auto simp: validate_bucket_name_def Let_def length_derive_bucket_name BUCKET_NAME_MAX_def)
qed

theorem bucket_name_limit_witness:
  "tenant_slug_try_new ''default'' = Inr tenant_default \<and> kb_slug_try_new ''notes'' = Inr (KbSlug ''notes'')
   \<and> validate_bucket_name tenant_default (KbSlug ''notes'') = Inr ()"
proof -
  have ok: "tenant_slug_try_new ''default'' = Inr tenant_default"
    "kb_slug_try_new ''notes'' = Inr (KbSlug ''notes'')" by code_simp+
  show ?thesis using bucket_name_limit[OF ok] ok by simp
qed

end
