(* ===== verification/Access.thy ===== *)
theory Access
  imports Object_Path Key_Pattern Slug
begin

text \<open>
  Access rules of a knowledge base (\<^verbatim>\<open>notedthat-core/src/access/mod.rs\<close>): principals and the subjects
  rules name, verbs, rules and their manifest spelling, the policy's decision function and the
  per-request \<^verbatim>\<open>KeyFilter\<close> with its shortcuts.

  The lemmas relate the filter to \<open>decision\<close>, a specification that reads the rules as two sets,
  and show that each shortcut agrees with the filter it stands for.  The locale
  \<open>key_predicate\<close> is the contract a listing relies on.
\<close>

section \<open>Principals\<close>

record user_identity =
  subject :: string
  groups :: "string set"
  valid_until :: "int option"

datatype identity = ServiceToken | UserId user_identity

datatype principal = PAnyone | PSignedIn identity

definition service_token :: principal where
  "service_token = PSignedIn ServiceToken"

definition principal_user :: "string \<Rightarrow> string set \<Rightarrow> principal" where
  "principal_user subj grps =
     PSignedIn (UserId \<lparr>subject = subj, groups = grps, valid_until = None\<rparr>)"

fun principal_valid_until :: "principal \<Rightarrow> int option" where
  "principal_valid_until (PSignedIn (UserId user)) = valid_until user"
| "principal_valid_until PAnyone = None"
| "principal_valid_until (PSignedIn ServiceToken) = None"

fun is_anonymous :: "principal \<Rightarrow> bool" where
  "is_anonymous PAnyone = True"
| "is_anonymous (PSignedIn _) = False"

fun is_signed_in :: "principal \<Rightarrow> bool" where
  "is_signed_in PAnyone = False"
| "is_signed_in (PSignedIn _) = True"

fun is_service_token :: "principal \<Rightarrow> bool" where
  "is_service_token (PSignedIn ServiceToken) = True"
| "is_service_token _ = False"

datatype reach = Reach_Anonymous | Reach_User | Reach_ServiceToken

fun reach_of :: "principal \<Rightarrow> reach" where
  "reach_of PAnyone = Reach_Anonymous"
| "reach_of (PSignedIn (UserId _)) = Reach_User"
| "reach_of (PSignedIn ServiceToken) = Reach_ServiceToken"

section \<open>Subjects\<close>

datatype who = WAnyone | WSignedIn | WGroup string | WUser string

fun who_matches :: "who \<Rightarrow> principal \<Rightarrow> bool" where
  "who_matches WAnyone PAnyone = True"
| "who_matches WSignedIn (PSignedIn _) = True"
| "who_matches (WGroup g) (PSignedIn (UserId user)) = (g \<in> groups user)"
| "who_matches (WUser subj) (PSignedIn (UserId user)) = (subject user = subj)"
| "who_matches _ _ = False"

fun needs_identity :: "who \<Rightarrow> bool" where
  "needs_identity (WGroup _) = True"
| "needs_identity (WUser _) = True"
| "needs_identity _ = False"

definition named :: "string \<Rightarrow> string \<Rightarrow> (string \<Rightarrow> who) \<Rightarrow> (error, who) result option" where
  "named src pre build =
     map_option (\<lambda>name.
         if name = []
         then Inl (Config (''`'' @ src @ ''` names nobody; write `'' @ pre @ ''<name>`''))
         else Inr (build name))
       (strip_prefix pre src)"

definition who_from_str :: "string \<Rightarrow> (error, who) result" where
  "who_from_str src =
     (if src = ''anyone'' then Inr WAnyone
      else if src = ''signed-in'' then Inr WSignedIn
      else case named src ''group:'' WGroup of
        Some r \<Rightarrow> r
      | None \<Rightarrow>
          (case named src ''user:'' WUser of
             Some r \<Rightarrow> r
           | None \<Rightarrow> Inl (Config (''unknown principal `'' @ src
               @ ''`; expected `anyone`, `signed-in`, `group:<name>` or `user:<name>`''))))"

fun who_display :: "who \<Rightarrow> string" where
  "who_display WAnyone = ''anyone''"
| "who_display WSignedIn = ''signed-in''"
| "who_display (WGroup name) = ''group:'' @ name"
| "who_display (WUser name) = ''user:'' @ name"

section \<open>Verbs\<close>

datatype verb = List | Read | Write | Delete | Search

fun verb_index :: "verb \<Rightarrow> nat" where
  "verb_index List = 0"
| "verb_index Read = 1"
| "verb_index Write = 2"
| "verb_index Delete = 3"
| "verb_index Search = 4"

text \<open>The derived \<^verbatim>\<open>Ord\<close>: declaration order.  A \<^verbatim>\<open>BTreeSet<Verb>\<close> iterates in it.\<close>

instantiation verb :: linorder
begin

definition less_eq_verb :: "verb \<Rightarrow> verb \<Rightarrow> bool" where
  "less_eq_verb a b \<longleftrightarrow> verb_index a \<le> verb_index b"

definition less_verb :: "verb \<Rightarrow> verb \<Rightarrow> bool" where
  "less_verb a b \<longleftrightarrow> verb_index a < verb_index b"

instance
proof
  fix a b c :: verb
  show "a < b \<longleftrightarrow> a \<le> b \<and> \<not> b \<le> a" by (auto simp: less_eq_verb_def less_verb_def)
  show "a \<le> a" by (simp add: less_eq_verb_def)
  show "a \<le> b \<Longrightarrow> b \<le> c \<Longrightarrow> a \<le> c" by (simp add: less_eq_verb_def)
  show "a \<le> b \<Longrightarrow> b \<le> a \<Longrightarrow> a = b" by (cases a; cases b; simp add: less_eq_verb_def)
  show "a \<le> b \<or> b \<le> a" by (auto simp: less_eq_verb_def)
qed

end

definition VERB_ALL :: "verb list" where
  "VERB_ALL = [List, Read, Write, Delete, Search]"

fun is_mutating :: "verb \<Rightarrow> bool" where
  "is_mutating Write = True"
| "is_mutating Delete = True"
| "is_mutating _ = False"

fun serde_verb :: "verb \<Rightarrow> string" where
  "serde_verb List = ''list''"
| "serde_verb Read = ''read''"
| "serde_verb Write = ''write''"
| "serde_verb Delete = ''delete''"
| "serde_verb Search = ''search''"

section \<open>Rules\<close>

datatype effect = Allow | Deny

record access_rule =
  rule_who :: who
  rule_effect :: effect
  verbs :: "verb set"
  under :: "key_pattern list"

record rule_repr =
  repr_who :: who
  may :: "verb set option"
  may_not :: "verb set option"
  repr_under :: "key_pattern list"

definition access_rule_try_from :: "rule_repr \<Rightarrow> (error, access_rule) result" where
  "access_rule_try_from repr =
     (let build = (\<lambda>e vs. Inr \<lparr>rule_who = repr_who repr, rule_effect = e, verbs = vs, under = repr_under repr\<rparr>) in
      case (may repr, may_not repr) of
        (Some vs, None) \<Rightarrow> build Allow vs
      | (None, Some vs) \<Rightarrow> build Deny vs
      | (Some _, Some _) \<Rightarrow> Inl (Config (''an access rule for `'' @ who_display (repr_who repr)
            @ ''` names both `may` and `may_not`; split it into two rules''))
      | (None, None) \<Rightarrow> Inl (Config (''an access rule for `'' @ who_display (repr_who repr)
            @ ''` names neither `may` nor `may_not`'')))"

definition rule_repr_from :: "access_rule \<Rightarrow> rule_repr" where
  "rule_repr_from rule =
     (let (m, n) = (case rule_effect rule of
          Allow \<Rightarrow> (Some (verbs rule), None)
        | Deny \<Rightarrow> (None, Some (verbs rule))) in
      \<lparr>repr_who = rule_who rule, may = m, may_not = n, repr_under = under rule\<rparr>)"

definition whole_kb_patterns :: "key_pattern list" where
  "whole_kb_patterns = [whole_kb]"

fun is_whole_kb_patterns :: "key_pattern list \<Rightarrow> bool" where
  "is_whole_kb_patterns [only] = is_whole_kb only"
| "is_whole_kb_patterns _ = False"

definition rule_new :: "who \<Rightarrow> verb set \<Rightarrow> access_rule" where
  "rule_new w vs = \<lparr>rule_who = w, rule_effect = Allow, verbs = vs, under = whole_kb_patterns\<rparr>"

definition rule_deny :: "who \<Rightarrow> verb set \<Rightarrow> access_rule" where
  "rule_deny w vs = \<lparr>rule_who = w, rule_effect = Deny, verbs = vs, under = whole_kb_patterns\<rparr>"

definition rule_under :: "access_rule \<Rightarrow> key_pattern list \<Rightarrow> access_rule" where
  "rule_under rule patterns = rule\<lparr>under := patterns\<rparr>"

definition covers :: "access_rule \<Rightarrow> principal \<Rightarrow> verb \<Rightarrow> bool" where
  "covers rule p v \<longleftrightarrow> who_matches (rule_who rule) p \<and> v \<in> verbs rule"

definition rule_is_whole_kb :: "access_rule \<Rightarrow> bool" where
  "rule_is_whole_kb rule = list_ex is_whole_kb (under rule)"

section \<open>Policies\<close>

type_synonym access_policy = "access_rule list"

definition policy_empty :: access_policy where
  "policy_empty = []"

definition signed_in_full :: access_policy where
  "signed_in_full = [rule_new WSignedIn (set VERB_ALL)]"

definition names_an_identity :: "access_policy \<Rightarrow> bool" where
  "names_an_identity policy = list_ex (\<lambda>rule. needs_identity (rule_who rule)) policy"

definition validate_rule :: "access_rule \<Rightarrow> (error, unit) result" where
  "validate_rule rule =
     (if verbs rule = {} then
        Inl (Config (''an access rule for `'' @ who_display (rule_who rule)
               @ ''` names no verbs; remove it or name a verb''))
      else if under rule = [] then
        Inl (Config (''an access rule has an empty `under`; omit the field to grant the whole ''
               @ ''knowledge base, or name a pattern''))
      else case (if rule_who rule = WAnyone
                 then find is_mutating (sorted_list_of_set (verbs rule)) else None) of
        Some v \<Rightarrow> Inl (Config (''an access rule ''
            @ (case rule_effect rule of Allow \<Rightarrow> ''grants'' | Deny \<Rightarrow> ''revokes'')
            @ '' `'' @ serde_verb v @ ''` for `anyone`; anonymous writes are never ''
            @ ''honoured, so this rule cannot mean what it says''))
      | None \<Rightarrow>
          (case find (\<lambda>pat. literal_prefix pat = Some ''.notedthat'') (under rule) of
             Some pat \<Rightarrow> Inl (Config (''an access rule scopes `'' @ who_display (rule_who rule)
                 @ ''` to `'' @ source pat @ ''`; the `.notedthat` namespace is ''
                 @ ''not addressable by a rule '' @ map byte [226, 128, 148]
                 @ '' the service token always reaches it and nobody else ever does''))
           | None \<Rightarrow> Inr ()))"

definition policy_validate :: "access_policy \<Rightarrow> (error, unit) result" where
  "policy_validate policy = check_all validate_rule policy"

record key_filter =
  f_reach :: reach
  f_allow :: "key_pattern list"
  f_deny :: "key_pattern list"

fun collect_patterns :: "principal \<Rightarrow> verb \<Rightarrow> access_rule list \<Rightarrow> key_pattern list \<times> key_pattern list
    \<Rightarrow> key_pattern list \<times> key_pattern list" where
  "collect_patterns p v [] acc = acc"
| "collect_patterns p v (rule # rules) (allow, deny) =
     (if covers rule p v
      then (case rule_effect rule of
              Allow \<Rightarrow> collect_patterns p v rules (allow @ under rule, deny)
            | Deny \<Rightarrow> collect_patterns p v rules (allow, deny @ under rule))
      else collect_patterns p v rules (allow, deny))"

definition policy_key_filter :: "access_policy \<Rightarrow> principal \<Rightarrow> verb \<Rightarrow> key_filter" where
  "policy_key_filter policy p v =
     (let reach = reach_of p in
      if reach = Reach_Anonymous \<and> is_mutating v
      then \<lparr>f_reach = reach, f_allow = [], f_deny = []\<rparr>
      else let (allow, deny) = collect_patterns p v policy ([], []) in
        \<lparr>f_reach = reach, f_allow = allow, f_deny = deny\<rparr>)"

definition filter_allows :: "key_filter \<Rightarrow> string \<Rightarrow> bool" where
  "filter_allows f key =
     (if is_internal_path key then f_reach f = Reach_ServiceToken
      else list_ex (\<lambda>pat. pattern_matches pat key) (f_allow f)
        \<and> \<not> list_ex (\<lambda>pat. pattern_matches pat key) (f_deny f))"

definition covers_whole_kb :: "key_filter \<Rightarrow> bool" where
  "covers_whole_kb f \<longleftrightarrow> f_deny f = [] \<and> list_ex is_whole_kb (f_allow f)"

definition is_allow_all :: "key_filter \<Rightarrow> bool" where
  "is_allow_all f \<longleftrightarrow> f_reach f = Reach_ServiceToken \<and> f_deny f = [] \<and> list_ex is_whole_kb (f_allow f)"

definition is_deny_all :: "key_filter \<Rightarrow> bool" where
  "is_deny_all f \<longleftrightarrow>
     f_reach f \<noteq> Reach_ServiceToken \<and> (f_allow f = [] \<or> list_ex is_whole_kb (f_deny f))"

fun prefix_hint_loop :: "key_pattern list \<Rightarrow> string option \<Rightarrow> string option" where
  "prefix_hint_loop [] shared = shared"
| "prefix_hint_loop (pat # pats) shared =
     (case literal_prefix pat of
        None \<Rightarrow> None
      | Some pre \<Rightarrow>
          (case shared of
             None \<Rightarrow> prefix_hint_loop pats (Some pre)
           | Some existing \<Rightarrow> if existing = pre then prefix_hint_loop pats shared else None))"

definition literal_prefix_hint :: "key_filter \<Rightarrow> string option" where
  "literal_prefix_hint f = prefix_hint_loop (f_allow f) None"

definition policy_allows :: "access_policy \<Rightarrow> principal \<Rightarrow> verb \<Rightarrow> string \<Rightarrow> bool" where
  "policy_allows policy p v key = filter_allows (policy_key_filter policy p v) key"

fun grants_any_loop :: "principal \<Rightarrow> verb \<Rightarrow> access_rule list \<Rightarrow> bool \<Rightarrow> bool" where
  "grants_any_loop p v [] granted = granted"
| "grants_any_loop p v (rule # rules) granted =
     (if covers rule p v
      then (case rule_effect rule of
              Allow \<Rightarrow> grants_any_loop p v rules True
            | Deny \<Rightarrow> if rule_is_whole_kb rule then False else grants_any_loop p v rules granted)
      else grants_any_loop p v rules granted)"

definition grants_any :: "access_policy \<Rightarrow> principal \<Rightarrow> verb \<Rightarrow> bool" where
  "grants_any policy p v =
     (if is_anonymous p \<and> is_mutating v then False else grants_any_loop p v policy False)"

definition visible_in_listing :: "access_policy \<Rightarrow> principal \<Rightarrow> bool" where
  "visible_in_listing policy p \<longleftrightarrow>
     is_service_token p \<or> list_ex (\<lambda>v. grants_any policy p v) VERB_ALL"

definition signed_in_policies :: "(string \<rightharpoonup> kb_slug) \<Rightarrow> (string \<rightharpoonup> access_policy)" where
  "signed_in_policies declared = (\<lambda>slug. map_option (\<lambda>_. signed_in_full) (declared slug))"

section \<open>The decision a policy means\<close>

definition parsed :: "key_pattern \<Rightarrow> bool" where
  "parsed pat \<longleftrightarrow> pattern_parse (source pat) = Inr pat"

definition wf_policy :: "access_policy \<Rightarrow> bool" where
  "wf_policy policy \<longleftrightarrow> (\<forall>rule\<in>set policy. \<forall>pat\<in>set (under rule). parsed pat)"

definition wf_filter :: "key_filter \<Rightarrow> bool" where
  "wf_filter f \<longleftrightarrow> (\<forall>pat\<in>set (f_allow f) \<union> set (f_deny f). parsed pat)"

definition speaks :: "access_rule set \<Rightarrow> effect \<Rightarrow> principal \<Rightarrow> verb \<Rightarrow> string \<Rightarrow> bool" where
  "speaks rules e p v key \<longleftrightarrow>
     (\<exists>rule\<in>rules. rule_effect rule = e \<and> covers rule p v \<and> (\<exists>pat\<in>set (under rule). pattern_spec pat key))"

definition decision :: "access_rule set \<Rightarrow> principal \<Rightarrow> verb \<Rightarrow> string \<Rightarrow> bool" where
  "decision rules p v key \<longleftrightarrow>
     (if is_internal_path key then p = service_token
      else \<not> (p = PAnyone \<and> v \<in> {Write, Delete}) \<and> speaks rules Allow p v key \<and> \<not> speaks rules Deny p v key)"

lemma parsed_matches: "parsed pat \<Longrightarrow> pattern_matches pat key \<longleftrightarrow> pattern_spec pat key"
  by (simp add: parsed_def pattern_matches_spec)

lemma parsed_whole_kb: "\<lbrakk>parsed pat; is_whole_kb pat\<rbrakk> \<Longrightarrow> pat = whole_kb"
  using is_whole_kb_unique by (auto simp: parsed_def)

lemma parsed_whole_kb_self [simp]: "parsed whole_kb"
  using whole_kb_parses by (simp add: parsed_def whole_kb_def)

lemma list_ex_whole_kb:
  assumes "\<forall>pat\<in>set pats. parsed pat"
  shows "list_ex is_whole_kb pats \<longleftrightarrow> whole_kb \<in> set pats"
proof -
  have "is_whole_kb whole_kb" by (simp add: is_whole_kb_def whole_kb_def)
  then show ?thesis using assms parsed_whole_kb unfolding list_ex_iff by metis
qed

lemma whole_kb_in_matches: "whole_kb \<in> set pats \<Longrightarrow> list_ex (\<lambda>pat. pattern_matches pat key) pats"
  by (auto simp: list_ex_iff intro!: bexI[of _ whole_kb])

lemma collect_patterns_eq:
  "collect_patterns p v rules (allow, deny) =
     (allow @ concat (map under (filter (\<lambda>r. covers r p v \<and> rule_effect r = Allow) rules)),
      deny @ concat (map under (filter (\<lambda>r. covers r p v \<and> rule_effect r = Deny) rules)))"
  by (induction rules arbitrary: allow deny) (auto split: effect.splits)

lemma reach_of_iff [simp]:
  "reach_of p = Reach_Anonymous \<longleftrightarrow> p = PAnyone"
  "reach_of p = Reach_ServiceToken \<longleftrightarrow> p = service_token"
  by (cases p rule: reach_of.cases; simp add: service_token_def)+

lemma is_mutating_iff: "is_mutating v \<longleftrightarrow> v \<in> {Write, Delete}"
  by (cases v) auto

lemma policy_key_filter_reach [simp]: "f_reach (policy_key_filter policy p v) = reach_of p"
  by (simp add: policy_key_filter_def Let_def collect_patterns_eq)

lemma policy_key_filter_patterns:
  "set (f_allow (policy_key_filter policy p v)) =
     (if p = PAnyone \<and> is_mutating v then {}
      else \<Union> {set (under r) |r. r \<in> set policy \<and> covers r p v \<and> rule_effect r = Allow})"
  "set (f_deny (policy_key_filter policy p v)) =
     (if p = PAnyone \<and> is_mutating v then {}
      else \<Union> {set (under r) |r. r \<in> set policy \<and> covers r p v \<and> rule_effect r = Deny})"
  by (auto simp: policy_key_filter_def Let_def collect_patterns_eq)

lemma policy_key_filter_wf [inv_intros]: "wf_policy policy \<Longrightarrow> wf_filter (policy_key_filter policy p v)"
  by (auto simp: wf_filter_def wf_policy_def policy_key_filter_patterns)

lemma wf_policy_decision:
  assumes "wf_policy policy"
  shows "policy_allows policy p v key \<longleftrightarrow> decision (set policy) p v key"
proof -
  have "\<And>r pat. r \<in> set policy \<Longrightarrow> pat \<in> set (under r) \<Longrightarrow> pattern_matches pat key \<longleftrightarrow> pattern_spec pat key"
    using assms by (auto simp: wf_policy_def parsed_matches)
  then show ?thesis
    by (simp add: policy_allows_def filter_allows_def decision_def speaks_def list_ex_iff
        policy_key_filter_patterns is_mutating_iff) blast
qed

section \<open>The shortcuts of a filter\<close>

text \<open>
  What a listing asks of a key predicate: whether a key is allowed, two shortcuts that decide all
  keys at once, and a leading segment every allowed key lies under.  Keys in the internal namespace
  are decided outside the rules, and the segment says nothing about them.
\<close>

locale key_predicate =
  fixes wf :: "'f \<Rightarrow> bool"
    and allows :: "'f \<Rightarrow> string \<Rightarrow> bool"
    and allow_all :: "'f \<Rightarrow> bool"
    and deny_all :: "'f \<Rightarrow> bool"
    and hint :: "'f \<Rightarrow> string option"
    and internal :: "string \<Rightarrow> bool"
  assumes allow_all_sound: "wf f \<Longrightarrow> allow_all f \<Longrightarrow> allows f key"
    and deny_all_sound: "wf f \<Longrightarrow> deny_all f \<Longrightarrow> \<not> allows f key"
    and hint_sound: "wf f \<Longrightarrow> hint f = Some l \<Longrightarrow> allows f key \<Longrightarrow> \<not> internal key
      \<Longrightarrow> key = l \<or> prefix (l @ ''/'') key"
begin

lemma filter_allow_all: "\<lbrakk>wf f; allow_all f\<rbrakk> \<Longrightarrow> filter (allows f) keys = keys"
  using allow_all_sound by (simp add: filter_id_conv)

lemma filter_deny_all: "\<lbrakk>wf f; deny_all f\<rbrakk> \<Longrightarrow> filter (allows f) keys = []"
  using deny_all_sound by (simp add: filter_empty_conv)

lemma filter_under_hint:
  assumes "wf f" "hint f = Some l" "\<forall>key\<in>set keys. \<not> internal key"
  shows "filter (allows f) keys = filter (allows f) (filter (prefix l) keys)"
  unfolding filter_filter
proof (rule filter_cong[OF refl])
  fix key assume "key \<in> set keys"
  then have "allows f key \<Longrightarrow> key = l \<or> prefix (l @ ''/'') key"
    using hint_sound[OF assms(1,2), of key] assms(3) by simp
  then have "allows f key \<Longrightarrow> prefix l key" using append_prefixD[of l "''/''" key] by auto
  then show "allows f key = (prefix l key \<and> allows f key)" by blast
qed

end

lemma prefix_hint_loop_Some:
  "prefix_hint_loop pats shared = Some l \<Longrightarrow>
     (shared = None \<or> shared = Some l) \<and> (\<forall>pat\<in>set pats. literal_prefix pat = Some l)"
proof (induction pats arbitrary: shared)
  case (Cons pat pats)
  then obtain pre where "literal_prefix pat = Some pre" "shared = None \<or> shared = Some pre"
    "prefix_hint_loop pats (Some pre) = Some l"
    by (auto split: option.splits if_splits)
  then show ?case using Cons.IH by fastforce
qed simp

lemma filter_hint_sound:
  assumes "wf_filter f" "literal_prefix_hint f = Some l" "filter_allows f key" "\<not> is_internal_path key"
  shows "key = l \<or> prefix (l @ ''/'') key"
proof -
  obtain pat where "pat \<in> set (f_allow f)" "pattern_matches pat key"
    using assms(3,4) by (auto simp: filter_allows_def list_ex_iff)
  moreover from this have "literal_prefix pat = Some l"
    using assms(2) prefix_hint_loop_Some[of "f_allow f" None l] by (simp add: literal_prefix_hint_def)
  ultimately show ?thesis
    using literal_prefix_sound_spec parsed_matches assms(1) by (auto simp: wf_filter_def)
qed

interpretation key_filter:
  key_predicate wf_filter filter_allows is_allow_all is_deny_all literal_prefix_hint is_internal_path
proof (standard, goal_cases)
  case (1 f key)
  then have "whole_kb \<in> set (f_allow f)"
    using list_ex_whole_kb[of "f_allow f"] by (simp add: is_allow_all_def wf_filter_def)
  then show ?case using 1 whole_kb_in_matches by (simp add: filter_allows_def is_allow_all_def)
next
  case (2 f key)
  have "list_ex is_whole_kb (f_deny f) \<Longrightarrow> whole_kb \<in> set (f_deny f)"
    using 2 list_ex_whole_kb[of "f_deny f"] by (simp add: wf_filter_def)
  then show ?case using 2 whole_kb_in_matches by (auto simp: filter_allows_def is_deny_all_def)
next
  case (3 f l key)
  then show ?case by (rule filter_hint_sound)
qed

lemma covers_whole_kb_sound:
  assumes "wf_filter f" "covers_whole_kb f" "\<not> is_internal_path key"
  shows "filter_allows f key"
  using assms list_ex_whole_kb[of "f_allow f"] whole_kb_in_matches[of "f_allow f" key]
  by (simp add: filter_allows_def covers_whole_kb_def wf_filter_def)

section \<open>Path-independent answers\<close>

lemma grants_any_loop_iff:
  "grants_any_loop p v rules granted \<longleftrightarrow>
     (granted \<or> (\<exists>r\<in>set rules. covers r p v \<and> rule_effect r = Allow)) \<and>
     \<not> (\<exists>r\<in>set rules. covers r p v \<and> rule_effect r = Deny \<and> rule_is_whole_kb r)"
  by (induction rules arbitrary: granted) (auto split: effect.splits)

lemma is_anonymous_iff: "is_anonymous p \<longleftrightarrow> p = PAnyone"
  by (cases p) auto

lemma is_service_token_iff: "is_service_token p \<longleftrightarrow> p = service_token"
  by (cases p rule: is_service_token.cases) (auto simp: service_token_def)

lemma whole_kb_spec [simp]: "pattern_spec whole_kb key"
  using parsed_matches[OF parsed_whole_kb_self, of key] by simp

lemma decision_grants_any:
  assumes "wf_policy policy" "decision (set policy) p v key" "\<not> is_internal_path key"
  shows "grants_any policy p v"
proof -
  have "speaks (set policy) Deny p v key" if "r \<in> set policy" "covers r p v" "rule_effect r = Deny"
    "rule_is_whole_kb r" for r
  proof -
    have "whole_kb \<in> set (under r)"
      using that assms(1) list_ex_whole_kb[of "under r"] by (simp add: rule_is_whole_kb_def wf_policy_def)
    then show ?thesis using that whole_kb_spec unfolding speaks_def by blast
  qed
  then show ?thesis using assms(2,3)
    by (auto simp: grants_any_def grants_any_loop_iff decision_def speaks_def is_anonymous_iff is_mutating_iff)
qed

lemma visible_if_allowed:
  assumes "wf_policy policy" "policy_allows policy p v key"
  shows "visible_in_listing policy p"
proof (cases "is_internal_path key")
  case True
  then show ?thesis using assms
    by (simp add: wf_policy_decision decision_def visible_in_listing_def is_service_token_iff)
next
  case False
  then have "grants_any policy p v" using assms decision_grants_any wf_policy_decision by blast
  then show ?thesis by (cases v) (auto simp: visible_in_listing_def VERB_ALL_def)
qed

section \<open>Spellings\<close>

fun wf_who :: "who \<Rightarrow> bool" where
  "wf_who (WGroup name) = (name \<noteq> [])"
| "wf_who (WUser name) = (name \<noteq> [])"
| "wf_who _ = True"

lemma who_from_str_display: "wf_who w \<Longrightarrow> who_from_str (who_display w) = Inr w"
  by (cases w) (auto simp: who_from_str_def named_def strip_prefix_def)

lemma who_from_str_Inr: "who_from_str src = Inr w \<Longrightarrow> wf_who w \<and> who_display w = src"
  by (auto simp: who_from_str_def named_def strip_prefix_def prefix_def split: if_splits option.splits)

lemma who_display_inj: "who_display a = who_display b \<Longrightarrow> a = b"
  by (cases a; cases b) auto

interpretation who_name: validated_newtype who_from_str who_display "\<lambda>s. \<exists>w. wf_who w \<and> who_display w = s"
  by standard (auto dest: who_from_str_Inr who_display_inj simp: who_from_str_display)

lemma access_rule_roundtrip: "access_rule_try_from (rule_repr_from rule) = Inr rule"
  by (cases "rule_effect rule") (simp_all add: access_rule_try_from_def rule_repr_from_def)

lemma wf_policy_demo [simp]: "wf_policy [rule_new w vs]" "wf_policy [rule_new w vs, rule_deny w' vs']"
  by (simp_all add: wf_policy_def rule_new_def rule_deny_def whole_kb_patterns_def)

section \<open>Properties\<close>

text \<open>
  C1: The access decision.  For a policy whose patterns were parsed, the compiled filter allows a
  principal a verb on a key exactly when: the key is in the internal namespace and the principal is
  the service token; or the key is outside it, the verb is not an anonymous mutation, some rule that
  covers the principal and the verb allows a pattern matching the key, and none denies one.  The
  rules enter as a set, so neither their order nor repetition changes a decision.
\<close>

theorem policy_decision_correct:
  assumes "wf_policy policy"
  shows "policy_allows policy p v key \<longleftrightarrow>
    (if is_internal_path key then p = service_token
     else \<not> (p = PAnyone \<and> v \<in> {Write, Delete})
       \<and> (\<exists>rule\<in>set policy. rule_effect rule = Allow \<and> who_matches (rule_who rule) p \<and> v \<in> verbs rule
            \<and> (\<exists>pat\<in>set (under rule). pattern_spec pat key))
       \<and> \<not> (\<exists>rule\<in>set policy. rule_effect rule = Deny \<and> who_matches (rule_who rule) p \<and> v \<in> verbs rule
            \<and> (\<exists>pat\<in>set (under rule). pattern_spec pat key)))"
  by (simp add: wf_policy_decision[OF assms] decision_def speaks_def covers_def)

theorem policy_decision_correct_witness:
  "policy_allows [rule_new WSignedIn {Read, Write}, rule_deny (WUser ''bob'') {Write}]
       (principal_user ''bob'' {}) Read ''notes/a.md''
   \<and> \<not> policy_allows [rule_new WSignedIn {Read, Write}, rule_deny (WUser ''bob'') {Write}]
       (principal_user ''bob'' {}) Write ''notes/a.md''"
  using policy_decision_correct[of "[rule_new WSignedIn {Read, Write}, rule_deny (WUser ''bob'') {Write}]"
      "principal_user ''bob'' {}" Read "''notes/a.md''"]
    policy_decision_correct[of "[rule_new WSignedIn {Read, Write}, rule_deny (WUser ''bob'') {Write}]"
      "principal_user ''bob'' {}" Write "''notes/a.md''"]
  by (simp add: rule_new_def rule_deny_def principal_user_def whole_kb_patterns_def is_internal_path_def
      wf_policy_def)

text \<open>
  Adding a denying rule never allows anything more, and adding an allowing rule never takes
  anything away, wherever in the policy it is added.
\<close>

theorem policy_rules_monotone:
  assumes "wf_policy (pre @ rule # post)"
  shows "(rule_effect rule = Deny \<and> policy_allows (pre @ rule # post) p v key \<longrightarrow> policy_allows (pre @ post) p v key)
    \<and> (rule_effect rule = Allow \<and> policy_allows (pre @ post) p v key \<longrightarrow> policy_allows (pre @ rule # post) p v key)"
proof -
  have wf: "wf_policy (pre @ post)" using assms by (auto simp: wf_policy_def)
  show ?thesis
    unfolding wf_policy_decision[OF assms] wf_policy_decision[OF wf]
    by (auto simp: decision_def speaks_def)
qed

theorem policy_rules_monotone_witness:
  "policy_allows [rule_new WSignedIn {Read}] service_token Read ''a''
   \<and> policy_allows [rule_new WSignedIn {Read}, rule_new WAnyone {Read}] service_token Read ''a''"
proof -
  have "policy_allows [rule_new WSignedIn {Read}] service_token Read ''a''" by code_simp
  moreover have "rule_effect (rule_new WAnyone {Read}) = Allow" by (simp add: rule_new_def)
  moreover have "wf_policy ([rule_new WSignedIn {Read}] @ rule_new WAnyone {Read} # [])"
    by (simp add: wf_policy_def rule_new_def whole_kb_patterns_def)
  ultimately show ?thesis
    using policy_rules_monotone[of "[rule_new WSignedIn {Read}]" "rule_new WAnyone {Read}" "[]"] by simp
qed

text \<open>
  The shortcuts of a compiled filter agree with it.  An allow-all filter allows every key, a
  deny-all filter none, a filter covering the whole knowledge base every key outside the internal
  namespace, and every allowed key outside that namespace is the hinted segment or lies below it.
\<close>

theorem key_filter_shortcuts_sound:
  assumes "wf_policy policy" "f = policy_key_filter policy p v"
  shows "(is_allow_all f \<longrightarrow> filter_allows f key)
    \<and> (is_deny_all f \<longrightarrow> \<not> filter_allows f key)
    \<and> (covers_whole_kb f \<and> \<not> is_internal_path key \<longrightarrow> filter_allows f key)
    \<and> (literal_prefix_hint f = Some l \<and> filter_allows f key \<and> \<not> is_internal_path key
        \<longrightarrow> key = l \<or> prefix (l @ ''/'') key)"
proof -
  have wf: "wf_filter f" using assms by (simp add: policy_key_filter_wf)
  show ?thesis
    using key_filter.allow_all_sound[OF wf] key_filter.deny_all_sound[OF wf]
      covers_whole_kb_sound[OF wf] key_filter.hint_sound[OF wf]
    by auto
qed

theorem key_filter_shortcuts_sound_witness:
  "is_allow_all (policy_key_filter signed_in_full service_token List)
   \<and> filter_allows (policy_key_filter signed_in_full service_token List) ''.notedthat/manifest.json''"
proof -
  have "is_allow_all (policy_key_filter signed_in_full service_token List)" by code_simp
  then show ?thesis
    using key_filter_shortcuts_sound[of signed_in_full _ service_token List "''.notedthat/manifest.json''"]
    by (simp add: signed_in_full_def)
qed

text \<open>
  The path-independent answers are necessary conditions.  A principal allowed a verb on some
  key sees the knowledge base in the listing, and on a key outside the internal namespace the
  verb counts as granted; an anonymous caller is never granted a mutating verb.
\<close>

theorem grants_any_necessary:
  assumes "wf_policy policy" "policy_allows policy p v key"
  shows "visible_in_listing policy p \<and> (\<not> is_internal_path key \<longrightarrow> grants_any policy p v)
    \<and> \<not> (p = PAnyone \<and> is_mutating v)"
  using assms visible_if_allowed decision_grants_any
  by (auto simp: wf_policy_decision decision_def is_mutating_iff service_token_def split: if_splits)

theorem grants_any_necessary_witness:
  "grants_any signed_in_full (principal_user ''ann'' {}) Write"
proof -
  have "policy_allows signed_in_full (principal_user ''ann'' {}) Write ''a.md''"
    "\<not> is_internal_path ''a.md''" by code_simp+
  then show ?thesis
    using grants_any_necessary[of signed_in_full "principal_user ''ann'' {}" Write "''a.md''"]
    by (simp add: signed_in_full_def)
qed

text \<open>
  Subjects and rules survive the manifest: every subject with a non-empty name prints to a
  string that parses back to it, every parsed string prints back to itself, and a rule's manifest
  form converts back to the rule.
\<close>

theorem access_spelling_roundtrip:
  "(wf_who w \<longrightarrow> who_from_str (who_display w) = Inr w)
   \<and> (who_from_str src = Inr w \<longrightarrow> who_display w = src)
   \<and> access_rule_try_from (rule_repr_from rule) = Inr rule"
  using who_from_str_display who_from_str_Inr access_rule_roundtrip by blast

theorem access_spelling_roundtrip_witness:
  "who_from_str ''group:editors'' = Inr (WGroup ''editors'')"
  using access_spelling_roundtrip[of "WGroup ''editors''"] by simp

end
