(* ===== verification/Ranges.thy ===== *)
theory Ranges
  imports Errors
begin

text \<open>
  Byte and line ranges (\<^verbatim>\<open>notedthat-core/src/range.rs\<close>): the \<^verbatim>\<open>Range\<close> header parsers, the conversion of
  HTTP ranges to half-open offsets, and the line index that maps line ranges to bytes.  Bounds are
  64-bit words; a buffer is a byte list, and its length fits a 64-bit word, as every buffer of the
  program does.

  The lemmas give the positions a byte range selects, the lines a line range selects (against the
  reference \<open>lines_of\<close>), and the round trip of both header forms.
\<close>

section \<open>Definitions\<close>

type_synonym bytes = string

datatype byte_range =
    BFromStart u64 u64
  | BFromStartOpen u64
  | BSuffix u64

datatype line_range =
    LFromStart u64 u64
  | LFromStartOpen u64
  | LSuffix u64
  | LInsert u64

datatype range_parse_error =
    RP_Empty
  | RP_MissingEquals
  | RP_NoRanges
  | RP_InvalidSpec string
  | RP_OverflowU64

fun byte_range_to_http :: "byte_range \<Rightarrow> string" where
  "byte_range_to_http (BFromStart first lst) = ''bytes='' @ show_u64 first @ ''-'' @ show_u64 lst"
| "byte_range_to_http (BFromStartOpen first) = ''bytes='' @ show_u64 first @ ''-''"
| "byte_range_to_http (BSuffix len) = ''bytes=-'' @ show_u64 len"

fun to_exclusive_range :: "byte_range \<Rightarrow> u64 \<Rightarrow> (u64 \<times> u64) option" where
  "to_exclusive_range (BFromStart first lst) total_size =
     (if first > lst \<or> first \<ge> total_size then None
      else let end_inclusive = min lst (total_size - 1) in Some (first, end_inclusive + 1))"
| "to_exclusive_range (BFromStartOpen first) total_size =
     (if first \<ge> total_size then None else Some (first, total_size))"
| "to_exclusive_range (BSuffix len) total_size =
     (if len = 0 \<or> total_size = 0 then None else Some (saturating_sub total_size len, total_size))"

definition is_satisfiable :: "byte_range \<Rightarrow> u64 \<Rightarrow> bool" where
  "is_satisfiable r total_size \<longleftrightarrow> to_exclusive_range r total_size \<noteq> None"

fun line_range_to_http :: "line_range \<Rightarrow> string" where
  "line_range_to_http (LFromStart first lst) = ''lines='' @ show_u64 first @ ''-'' @ show_u64 lst"
| "line_range_to_http (LFromStartOpen first) = ''lines='' @ show_u64 first @ ''-''"
| "line_range_to_http (LSuffix len) = ''lines=-'' @ show_u64 len"
| "line_range_to_http (LInsert before) = ''lines='' @ show_u64 before @ ''-'' @ show_u64 (before - 1)"

record line_index =
  line_starts :: "u64 list"
  total_lines :: u64
  total_bytes :: u64

function from_bytes_loop :: "bytes \<Rightarrow> nat \<Rightarrow> u64 list \<Rightarrow> u64 list" where
  "from_bytes_loop bytes i starts =
     (if i < length bytes then
        (if bytes ! i = CHR 0x0D \<and> i + 1 < length bytes \<and> bytes ! (i + 1) = CHR 0x0A then
           from_bytes_loop bytes (i + 2)
             (if i + 2 < length bytes then starts @ [of_nat (i + 2)] else starts)
         else if bytes ! i = CHR 0x0A then
           from_bytes_loop bytes (i + 1)
             (if i + 1 < length bytes then starts @ [of_nat (i + 1)] else starts)
         else from_bytes_loop bytes (i + 1) starts)
      else starts)"
  by pat_completeness auto
termination
  by (relation "measure (\<lambda>(bytes, i, starts). length bytes - i)") auto

declare from_bytes_loop.simps [simp del]

definition line_index_from_bytes :: "bytes \<Rightarrow> line_index" where
  "line_index_from_bytes bytes =
     (if bytes = [] then \<lparr>line_starts = [], total_lines = 0, total_bytes = 0\<rparr>
      else let starts = from_bytes_loop bytes 0 [0] in
        \<lparr>line_starts = starts, total_lines = of_nat (length starts), total_bytes = of_nat (length bytes)\<rparr>)"

definition line_start :: "line_index \<Rightarrow> u64 \<Rightarrow> u64 option" where
  "line_start idx zero_based_line =
     (let index = unat zero_based_line in
      if index < length (line_starts idx) then Some (line_starts idx ! index) else None)"

fun line_byte_range :: "line_index \<Rightarrow> line_range \<Rightarrow> (u64 \<times> u64) option" where
  "line_byte_range idx (LFromStart first lst) =
     (if first = 0 \<or> first > total_lines idx \<or> first > saturating_add lst 1 then None
      else let clamped_last = min lst (total_lines idx) in
        Option.bind (line_start idx (first - 1)) (\<lambda>start.
          if clamped_last = total_lines idx then Some (start, total_bytes idx)
          else Option.bind (line_start idx clamped_last) (\<lambda>finish. Some (start, finish))))"
| "line_byte_range idx (LFromStartOpen first) =
     (if first = 0 \<or> first > total_lines idx then None
      else Option.bind (line_start idx (first - 1)) (\<lambda>start. Some (start, total_bytes idx)))"
| "line_byte_range idx (LSuffix len) =
     (if len = 0 \<or> total_lines idx = 0 then None
      else let clamped = min len (total_lines idx); start_line = total_lines idx - clamped in
        Option.bind (line_start idx start_line) (\<lambda>start. Some (start, total_bytes idx)))"
| "line_byte_range idx (LInsert before) =
     (if before = 0 \<or> before > total_lines idx + 1 then None
      else if before = total_lines idx + 1 then Some (total_bytes idx, total_bytes idx)
      else Option.bind (line_start idx (before - 1)) (\<lambda>offset. Some (offset, offset)))"

fun content_range_string :: "line_index \<Rightarrow> line_range \<Rightarrow> string" where
  "content_range_string idx (LFromStart first lst) =
     ''lines '' @ show_u64 first @ ''-'' @ show_u64 (min lst (total_lines idx)) @ ''/'' @ show_u64 (total_lines idx)"
| "content_range_string idx (LFromStartOpen first) =
     ''lines '' @ show_u64 first @ ''-'' @ show_u64 (total_lines idx) @ ''/'' @ show_u64 (total_lines idx)"
| "content_range_string idx (LSuffix len) =
     (let actual_first = saturating_sub (total_lines idx) (min len (total_lines idx)) + 1 in
      ''lines '' @ show_u64 actual_first @ ''-'' @ show_u64 (total_lines idx) @ ''/'' @ show_u64 (total_lines idx))"
| "content_range_string idx (LInsert before) =
     ''lines '' @ show_u64 before @ ''-'' @ show_u64 (before - 1) @ ''/'' @ show_u64 (total_lines idx)"

record parsed_range =
  pr_unit :: string
  pr_range :: "byte_range option"

definition parse_u64 :: "string \<Rightarrow> string \<Rightarrow> (range_parse_error, u64) result" where
  "parse_u64 component spec =
     (if component = [] \<or> \<not> list_all is_digit component then Inl (RP_InvalidSpec spec)
      else if digits_val component < 2 ^ 64 then Inr (of_nat (digits_val component))
      else Inl RP_OverflowU64)"

definition parse_byte_range_spec :: "string \<Rightarrow> (range_parse_error, byte_range) result" where
  "parse_byte_range_spec spec =
     (case split_once CHR ''-'' spec of
        None \<Rightarrow> Inl (RP_InvalidSpec spec)
      | Some (start, finish) \<Rightarrow>
          if CHR ''-'' \<in> set finish \<or> (start = [] \<and> finish = []) then Inl (RP_InvalidSpec spec)
          else if start = [] then res_bind (parse_u64 finish spec) (\<lambda>len. Inr (BSuffix len))
          else res_bind (parse_u64 start spec) (\<lambda>first.
            if finish = [] then Inr (BFromStartOpen first)
            else res_bind (parse_u64 finish spec) (\<lambda>last.
              if last < first then Inl (RP_InvalidSpec spec) else Inr (BFromStart first last))))"

definition parse_range_header :: "string \<Rightarrow> (range_parse_error, parsed_range) result" where
  "parse_range_header value =
     (if value = [] then Inl RP_Empty
      else res_bind (ok_or RP_MissingEquals (split_once CHR ''='' value)) (\<lambda>(unit0, range_set).
        if range_set = [] then Inl RP_NoRanges
        else let unit' = map ascii_lower unit0 in
          if unit' \<noteq> ''bytes'' then Inr \<lparr>pr_unit = unit', pr_range = None\<rparr>
          else if CHR '','' \<in> set range_set then
            Inl (RP_InvalidSpec ''one byte range per request; a range set (multipart/byteranges) is not supported'')
          else res_bind (parse_byte_range_spec (trim range_set)) (\<lambda>r.
            Inr \<lparr>pr_unit = unit', pr_range = Some r\<rparr>)))"

definition parse_line_range_header :: "string \<Rightarrow> (range_parse_error, line_range) result" where
  "parse_line_range_header value =
     (if value = [] then Inl RP_Empty
      else res_bind (ok_or RP_MissingEquals (split_once CHR ''='' value)) (\<lambda>(_, range_set0).
        if range_set0 = [] then Inl RP_NoRanges
        else let range_set = trim range_set0 in
          if CHR '','' \<in> set range_set then Inl (RP_InvalidSpec ''multi-range lines= not supported'')
          else res_bind (ok_or (RP_InvalidSpec range_set) (split_once CHR ''-'' range_set)) (\<lambda>(start, finish).
            if start = [] \<and> finish = [] then Inl (RP_InvalidSpec range_set)
            else if start = [] then res_bind (parse_u64 finish range_set) (\<lambda>len. Inr (LSuffix len))
            else res_bind (parse_u64 start range_set) (\<lambda>first.
              if first = 0 then Inl (RP_InvalidSpec range_set)
              else if finish = [] then Inr (LFromStartOpen first)
              else res_bind (parse_u64 finish range_set) (\<lambda>last.
                if last < first - 1 then Inl (RP_InvalidSpec range_set)
                else if last = first - 1 then Inr (LInsert first)
                else Inr (LFromStart first last))))))"

section \<open>Positions a byte range selects\<close>

fun byte_selected :: "byte_range \<Rightarrow> nat \<Rightarrow> nat \<Rightarrow> bool" where
  "byte_selected (BFromStart first lst) n i \<longleftrightarrow> i < n \<and> unat first \<le> i \<and> i \<le> unat lst"
| "byte_selected (BFromStartOpen first) n i \<longleftrightarrow> i < n \<and> unat first \<le> i"
| "byte_selected (BSuffix len) n i \<longleftrightarrow> i < n \<and> n \<le> i + unat len"

lemma unat_u64_pred: "(w :: u64) \<noteq> 0 \<Longrightarrow> unat (w - 1) = unat w - 1"
  by (simp add: unat_minus_one)

lemma unat_u64_Suc: "unat (w :: u64) < 2 ^ 64 - 1 \<Longrightarrow> unat (w + 1) = unat w + 1"
  by (simp add: unat_plus_if')

lemma unat_min_u64: "unat (min a b :: u64) = min (unat a) (unat b)"
  by (simp add: min_def word_le_nat_alt)

lemma u64_eq_0_iff: "(w :: u64) = 0 \<longleftrightarrow> unat w = 0"
  by (simp add: unat_eq_zero)

lemmas u64_nat = word_le_nat_alt word_less_nat_alt unat_min_u64

lemma to_exclusive_range_Some:
  assumes "to_exclusive_range r tot = Some (s, e)"
  shows "unat s < unat e \<and> unat e \<le> unat tot
    \<and> (\<forall>i. unat s \<le> i \<and> i < unat e \<longleftrightarrow> byte_selected r (unat tot) i)"
proof (cases r)
  case (BFromStart first last)
  then have *: "unat first \<le> unat last" "unat first < unat tot" "s = first" "e = min last (tot - 1) + 1"
    using assms by (auto simp: u64_nat split: if_splits)
  then have "tot \<noteq> 0" by auto
  then have "unat (min last (tot - 1)) = min (unat last) (unat tot - 1)"
    by (simp add: unat_min_u64 unat_u64_pred)
  then have "unat e = min (unat last) (unat tot - 1) + 1"
    unfolding *(4) using unat_u64_less[of tot] by (subst unat_u64_Suc) auto
  then show ?thesis using * BFromStart by auto
next
  case (BSuffix len)
  then have "unat len \<noteq> 0" "unat tot \<noteq> 0" "s = saturating_sub tot len" "e = tot"
    using assms by (auto simp: u64_eq_0_iff split: if_splits)
  then show ?thesis using BSuffix by auto
qed (use assms in \<open>auto simp: u64_nat split: if_splits\<close>)

lemma to_exclusive_range_None:
  "to_exclusive_range r tot = None \<longleftrightarrow> (\<forall>i. \<not> byte_selected r (unat tot) i)"
proof (cases "to_exclusive_range r tot")
  case None
  have "\<not> byte_selected r (unat tot) i" for i
    using None by (cases r) (auto simp: u64_nat u64_eq_0_iff Let_def split: if_splits)
  then show ?thesis using None by simp
next
  case (Some a)
  then show ?thesis using to_exclusive_range_Some[of r tot "fst a" "snd a"] by fastforce
qed

section \<open>Lines\<close>

text \<open>The lines of a buffer with their terminators; a last line may lack one.\<close>

fun lines_of :: "bytes \<Rightarrow> bytes list" where
  "lines_of [] = []"
| "lines_of (c # cs) =
     (if c = CHR 0x0A then [c] # lines_of cs
      else case lines_of cs of [] \<Rightarrow> [[c]] | l # ls \<Rightarrow> (c # l) # ls)"

fun starts_after :: "nat \<Rightarrow> bytes \<Rightarrow> nat list" where
  "starts_after k [] = []"
| "starts_after k (c # cs) =
     (if c = CHR 0x0A \<and> cs \<noteq> [] then Suc k # starts_after (Suc k) cs else starts_after (Suc k) cs)"

abbreviation lines_len :: "bytes \<Rightarrow> nat \<Rightarrow> nat" where
  "lines_len s j \<equiv> length (concat (take j (lines_of s)))"

lemma concat_lines_of [simp]: "concat (lines_of s) = s"
  by (induction s) (auto split: list.splits)

lemma lines_of_eq_Nil_iff [simp]: "lines_of s = [] \<longleftrightarrow> s = []"
  by (cases s) (auto split: list.splits)

lemma from_bytes_loop_eq:
  "i \<le> length s \<Longrightarrow> from_bytes_loop s i acc = acc @ map of_nat (starts_after i (drop i s))"
proof (induction s i acc rule: from_bytes_loop.induct)
  case (1 s i acc)
  show ?case
  proof (cases "i < length s")
    case True
    then have d: "drop i s = s ! i # drop (Suc i) s" by (simp add: Cons_nth_drop_Suc)
    have d2: "Suc i < length s \<Longrightarrow> drop (Suc i) s = s ! Suc i # drop (Suc (Suc i)) s"
      by (simp add: Cons_nth_drop_Suc)
    show ?thesis
      by (subst from_bytes_loop.simps) (use True 1 d d2 in auto)
  qed (use 1(4) in \<open>simp add: from_bytes_loop.simps\<close>)
qed

lemma starts_after_lines:
  "s \<noteq> [] \<Longrightarrow> k # starts_after k s = map (\<lambda>j. k + lines_len s j) [0..<length (lines_of s)]"
proof (induction s arbitrary: k)
  case (Cons c cs)
  have shift: "map f [0..<Suc n] = f 0 # map (\<lambda>j. f (Suc j)) [0..<n]" for f :: "nat \<Rightarrow> nat" and n
    by (simp add: upt_conv_Cons map_Suc_upt[symmetric] del: upt_Suc)
  show ?case
  proof (cases "cs = []")
    case False
    note IH = Cons.IH[OF False, of "Suc k"]
    obtain l ls where ls: "lines_of cs = l # ls" using False by (cases "lines_of cs") auto
    show ?thesis
    proof (cases "c = CHR 0x0A")
      case True
      then show ?thesis using IH False by (simp add: shift del: upt_Suc)
    next
      case False
      then show ?thesis using IH ls by (simp add: shift del: upt_Suc)
    qed
  qed simp
qed simp

lemma length_starts_after: "s \<noteq> [] \<Longrightarrow> Suc (length (starts_after k s)) = length (lines_of s)"
  using arg_cong[OF starts_after_lines[of s k], of length] by simp

lemma line_index_total [simp]:
  "total_lines (line_index_from_bytes s) = of_nat (length (lines_of s))"
  "total_bytes (line_index_from_bytes s) = of_nat (length s)"
  using length_starts_after[of s 0, symmetric]
  by (auto simp: line_index_from_bytes_def Let_def from_bytes_loop_eq)

lemma line_starts_eq:
  "line_starts (line_index_from_bytes s) = map (\<lambda>j. of_nat (lines_len s j)) [0..<length (lines_of s)]"
proof (cases "s = []")
  case False
  then have "line_starts (line_index_from_bytes s) = map of_nat (0 # starts_after 0 s)"
    by (simp add: line_index_from_bytes_def Let_def from_bytes_loop_eq)
  then show ?thesis unfolding starts_after_lines[OF False] by simp
qed (simp add: line_index_from_bytes_def)

lemma line_start_eq:
  "line_start (line_index_from_bytes s) w =
     (if unat w < length (lines_of s) then Some (of_nat (lines_len s (unat w))) else None)"
  by (simp add: line_start_def line_starts_eq)

lemma lines_of_not_Nil: "l \<in> set (lines_of s) \<Longrightarrow> l \<noteq> []"
  by (induction s arbitrary: l) (auto split: if_splits list.splits)

lemma length_le_length_concat: "\<forall>l\<in>set ls. l \<noteq> [] \<Longrightarrow> length ls \<le> length (concat ls)"
proof (induction ls)
  case (Cons l ls)
  then have "1 \<le> length l" by (cases l) auto
  then show ?case using Cons by simp
qed simp

lemma length_lines_of: "length (lines_of s) \<le> length s"
  using length_le_length_concat[of "lines_of s"] lines_of_not_Nil[of _ s] by simp

lemma lines_len_total [simp]: "length (lines_of s) \<le> j \<Longrightarrow> lines_len s j = length s"
  by simp

lemma length_concat_take_mono: "i \<le> j \<Longrightarrow> length (concat (take i ls)) \<le> length (concat (take j ls))"
  by (metis concat_append length_append le_add1 le_add_diff_inverse take_add)

lemma lines_slice:
  assumes "i \<le> j"
  shows "take (lines_len s j - lines_len s i) (drop (lines_len s i) s) = concat (take (j - i) (drop i (lines_of s)))"
proof -
  define ls where "ls = lines_of s"
  have s: "s = concat (take i ls) @ concat (drop i ls)"
    by (metis append_take_drop_id concat_append concat_lines_of ls_def)
  have j: "concat (take j ls) = concat (take i ls) @ concat (take (j - i) (drop i ls))"
    using assms by (metis concat_append le_add_diff_inverse take_add)
  have rest: "concat (drop i ls) = concat (take (j - i) (drop i ls)) @ concat (drop (j - i) (drop i ls))"
    by (metis append_take_drop_id concat_append)
  have "drop (length (concat (take i ls))) s = concat (drop i ls)" by (subst s) simp
  then show ?thesis unfolding ls_def[symmetric] using j rest by simp
qed

text \<open>The zero-based lines a range stands for, out of \<open>n\<close>, and when it stands for any.\<close>

fun line_bounds :: "line_range \<Rightarrow> nat \<Rightarrow> nat \<times> nat" where
  "line_bounds (LFromStart first lst) n = (unat first - 1, min (unat lst) n)"
| "line_bounds (LFromStartOpen first) n = (unat first - 1, n)"
| "line_bounds (LSuffix len) n = (n - unat len, n)"
| "line_bounds (LInsert before) n = (unat before - 1, unat before - 1)"

fun line_range_ok :: "line_range \<Rightarrow> nat \<Rightarrow> bool" where
  "line_range_ok (LFromStart first lst) n \<longleftrightarrow> 0 < unat first \<and> unat first \<le> n \<and> unat first \<le> unat lst + 1"
| "line_range_ok (LFromStartOpen first) n \<longleftrightarrow> 0 < unat first \<and> unat first \<le> n"
| "line_range_ok (LSuffix len) n \<longleftrightarrow> 0 < unat len \<and> 0 < n"
| "line_range_ok (LInsert before) n \<longleftrightarrow> 0 < unat before \<and> unat before \<le> n + 1"

lemma line_bounds_le:
  "line_range_ok r n \<Longrightarrow> fst (line_bounds r n) \<le> snd (line_bounds r n) \<and> snd (line_bounds r n) \<le> n"
  by (cases r) auto

lemma unat_of_nat_u64: "n < 2 ^ 63 \<Longrightarrow> unat (of_nat n :: u64) = n"
  by (simp add: unat_of_nat)

lemma line_byte_range_eq:
  assumes "length s < 2 ^ 63"
  shows "line_byte_range (line_index_from_bytes s) r =
    (if line_range_ok r (length (lines_of s))
     then Some (of_nat (lines_len s (fst (line_bounds r (length (lines_of s))))),
                of_nat (lines_len s (snd (line_bounds r (length (lines_of s))))))
     else None)"
proof -
  define n where "n = length (lines_of s)"
  have n: "n < 2 ^ 63" using assms length_lines_of[of s] by (simp add: n_def)
  then have un: "unat (of_nat n :: u64) = n" by (rule unat_of_nat_u64)
  have un1: "unat (of_nat n + 1 :: u64) = n + 1" using n by (simp add: un unat_plus_if')
  have end': "(min w (of_nat n) = (of_nat n :: u64)) \<longleftrightarrow> n \<le> unat w" for w
    using un by (auto simp: min_def word_le_nat_alt)
  have last': "w \<noteq> of_nat n + 1 \<longleftrightarrow> unat w \<noteq> n + 1" for w :: u64
    using un1 by (metis unsigned_word_eqI)
  show ?thesis
  proof (cases r)
    case (LFromStart first lst)
    have f: "first \<noteq> 0 \<Longrightarrow> unat (first - 1) = unat first - 1" by (rule unat_u64_pred)
    have "saturating_add lst 1 < first \<longleftrightarrow> unat lst + 1 < unat first" if "unat first \<le> n"
      using that n by (auto simp: word_less_nat_alt unat_saturating_add min_def)
    then show ?thesis
      unfolding LFromStart
      by (auto simp: Let_def n_def[symmetric] line_start_eq end' u64_nat un f u64_eq_0_iff min_def)
  next
    case (LFromStartOpen first)
    have f: "first \<noteq> 0 \<Longrightarrow> unat (first - 1) = unat first - 1" by (rule unat_u64_pred)
    show ?thesis
      unfolding LFromStartOpen
      by (auto simp: n_def[symmetric] line_start_eq u64_nat un f u64_eq_0_iff)
  next
    case (LSuffix len)
    have "unat (of_nat n - min len (of_nat n)) = n - unat len"
      by (simp add: unat_sub unat_min_u64 un word_le_nat_alt min_def)
    then show ?thesis
      unfolding LSuffix
      by (auto simp: Let_def n_def[symmetric] line_start_eq un u64_eq_0_iff)
  next
    case (LInsert before)
    have f: "before \<noteq> 0 \<Longrightarrow> unat (before - 1) = unat before - 1" by (rule unat_u64_pred)
    show ?thesis
      unfolding LInsert using last'[of before]
      by (auto simp: n_def[symmetric] line_start_eq u64_nat un un1 f u64_eq_0_iff)
  qed
qed

section \<open>Header forms\<close>

lemma show_u64_printing: "c \<in> set (show_u64 w) \<Longrightarrow> is_digit c"
  using show_nat_digits by (auto simp: show_u64_def)

lemma show_u64_no [simp]: "CHR ''-'' \<notin> set (show_u64 w)" "CHR '','' \<notin> set (show_u64 w)"
  "CHR ''='' \<notin> set (show_u64 w)"
  by (auto dest!: show_u64_printing simp: is_digit_def)

lemma show_u64_not_Nil [simp]: "show_u64 w \<noteq> []"
  by (simp add: show_u64_def)

lemma parse_u64_show [simp]: "parse_u64 (show_u64 w) spec = Inr w"
proof -
  have "digits_val (show_u64 w) = unat w" by (simp add: show_u64_def)
  moreover have "list_all is_digit (show_u64 w)" using show_u64_printing by (auto simp: list_all_iff)
  ultimately show ?thesis using unat_u64_less[of w] by (simp add: parse_u64_def)
qed

lemma hyphen_printing: "\<not> is_continuation CHR ''-'' \<and> \<not> is_whitespace ''-''"
  by (simp add: is_continuation_def is_whitespace_def)

lemma trim_range_spec [simp]:
  "trim (show_u64 a @ CHR ''-'' # show_u64 b) = show_u64 a @ CHR ''-'' # show_u64 b"
  "trim (show_u64 a @ ''-'') = show_u64 a @ ''-''"
  "trim (CHR ''-'' # show_u64 b) = CHR ''-'' # show_u64 b"
  using digit_printing[OF show_u64_printing] hyphen_printing by (auto intro!: trim_id)

lemma split_once_hyphen [simp]:
  "split_once CHR ''-'' (show_u64 a @ CHR ''-'' # rest) = Some (show_u64 a, rest)"
  by (simp add: split_once_Some_iff)

lemma split_once_units [simp]:
  "split_once CHR ''='' (CHR ''b'' # CHR ''y'' # CHR ''t'' # CHR ''e'' # CHR ''s'' # CHR ''='' # body) = Some (''bytes'', body)"
  "split_once CHR ''='' (CHR ''l'' # CHR ''i'' # CHR ''n'' # CHR ''e'' # CHR ''s'' # CHR ''='' # body) = Some (''lines'', body)"
  by simp_all

lemma lower_bytes [simp]: "map ascii_lower ''bytes'' = ''bytes''"
  by (simp add: ascii_lower_def)

fun wf_byte_range :: "byte_range \<Rightarrow> bool" where
  "wf_byte_range (BFromStart first lst) = (first \<le> lst)"
| "wf_byte_range _ = True"

fun wf_line_range :: "line_range \<Rightarrow> bool" where
  "wf_line_range (LFromStart first lst) = (0 < first \<and> first \<le> lst)"
| "wf_line_range (LFromStartOpen first) = (0 < first)"
| "wf_line_range (LSuffix _) = True"
| "wf_line_range (LInsert before) = (0 < before)"

lemma byte_header_roundtrip:
  "wf_byte_range r \<Longrightarrow>
     parse_range_header (byte_range_to_http r) = Inr \<lparr>pr_unit = ''bytes'', pr_range = Some r\<rparr>"
  by (cases r)
    (auto simp: parse_range_header_def Let_def parse_byte_range_spec_def ascii_lower_def not_less)

lemma u64_pred_less: "0 < (a :: u64) \<Longrightarrow> a \<le> b \<Longrightarrow> \<not> b < a - 1 \<and> b \<noteq> a - 1"
  using unat_u64_pred[of a] by (cases "a = 0") (auto simp: u64_nat)

lemma line_header_roundtrip:
  "wf_line_range r \<Longrightarrow> parse_line_range_header (line_range_to_http r) = Inr r"
  using u64_pred_less
  by (cases r) (auto simp: parse_line_range_header_def Let_def word_neq_0_conv)

lemma parse_byte_spec_wf: "parse_byte_range_spec spec = Inr r \<Longrightarrow> wf_byte_range r"
  by (auto simp: parse_byte_range_spec_def result_simps not_less split: option.splits if_splits)

lemma parse_range_header_wf:
  assumes "parse_range_header value = Inr pr" "pr_range pr = Some r"
  shows "pr_unit pr = ''bytes'' \<and> wf_byte_range r"
proof -
  obtain u rs where "split_once CHR ''='' value = Some (u, rs)"
    using assms(1) by (auto simp: parse_range_header_def result_simps split: if_splits)
  then show ?thesis using assms
    by (auto simp: parse_range_header_def res_bind_Inr_iff Let_def split: if_splits dest: parse_byte_spec_wf)
qed

lemma parse_line_header_wf: "parse_line_range_header value = Inr r \<Longrightarrow> wf_line_range r"
proof -
  have "(l :: u64) \<ge> f - 1 \<Longrightarrow> l \<noteq> f - 1 \<Longrightarrow> f \<noteq> 0 \<Longrightarrow> f \<le> l" for l f
    using unat_u64_pred[of f] by (auto simp: u64_nat) (metis Suc_leI Suc_pred le_neq_implies_less not_gr_zero unat_eq_zero unsigned_word_eqI)
  then show "parse_line_range_header value = Inr r \<Longrightarrow> wf_line_range r"
    by (auto simp: parse_line_range_header_def Let_def result_simps not_less word_neq_0_conv
        split: option.splits if_splits prod.splits)
qed

section \<open>Properties\<close>

text \<open>
  Converting an HTTP byte range is exact.  For an object of the given size the half-open
  result is non-empty, within the object, and contains exactly the positions the range selects;
  there is no result exactly when the range selects no position.  Bounds near \<open>2 ^ 64\<close> do not wrap.
\<close>

theorem byte_range_exact:
  "(case to_exclusive_range r tot of
      Some (s, e) \<Rightarrow> unat s < unat e \<and> unat e \<le> unat tot
        \<and> {i. unat s \<le> i \<and> i < unat e} = {i. byte_selected r (unat tot) i}
    | None \<Rightarrow> {i. byte_selected r (unat tot) i} = {})"
  using to_exclusive_range_Some[of r tot] to_exclusive_range_None[of r tot]
  by (auto split: option.splits)

text \<open>
  The line index is exact.  For any buffer shorter than \<open>2 ^ 63\<close> bytes a line range is refused
  exactly when it names no line (or no insert position) of the buffer; otherwise the byte range
  lies within the buffer and cuts out precisely the selected lines, with their terminators, where
  lines end at a line feed whether or not a carriage return comes before it.
\<close>

theorem line_range_exact:
  assumes "length s < 2 ^ 63" "n = length (lines_of s)" "line_bounds r n = (lo, hi)"
  shows "(line_byte_range (line_index_from_bytes s) r = None \<longleftrightarrow> \<not> line_range_ok r n)
    \<and> (\<forall>a b. line_byte_range (line_index_from_bytes s) r = Some (a, b) \<longrightarrow>
         unat a \<le> unat b \<and> unat b \<le> length s
         \<and> take (unat b - unat a) (drop (unat a) s) = concat (take (hi - lo) (drop lo (lines_of s))))"
proof -
  have le: "lines_len s j \<le> length s" for j
    using length_concat_take_mono[of j "length (lines_of s) + j" "lines_of s"] by simp
  have un: "unat (of_nat (lines_len s j) :: u64) = lines_len s j" for j
    using le[of j] assms(1) by (intro unat_of_nat_u64) linarith
  show ?thesis
    unfolding line_byte_range_eq[OF assms(1)] assms(2)[symmetric]
    using assms(3) line_bounds_le[of r n] lines_slice[of lo hi s] length_concat_take_mono[of lo hi "lines_of s"] le[of hi]
    by (auto simp: un split: if_splits)
qed

theorem line_range_exact_witness:
  "take 5 (drop 4 [CHR ''a'', CHR ''b'', CHR 0x0D, CHR 0x0A, CHR ''c'', CHR 0x0D, CHR ''d'', CHR ''e'', CHR 0x0A])
     = concat [[CHR ''c'', CHR 0x0D, CHR ''d'', CHR ''e'', CHR 0x0A]]"
proof -
  let ?s = "[CHR ''a'', CHR ''b'', CHR 0x0D, CHR 0x0A, CHR ''c'', CHR 0x0D, CHR ''d'', CHR ''e'', CHR 0x0A]"
  have ls: "lines_of ?s = [[CHR ''a'', CHR ''b'', CHR 0x0D, CHR 0x0A],
      [CHR ''c'', CHR 0x0D, CHR ''d'', CHR ''e'', CHR 0x0A]]" by code_simp
  then have "line_byte_range (line_index_from_bytes ?s) (LFromStart 2 7) = Some (4, 9)"
    by (subst line_byte_range_eq) simp_all
  then show ?thesis
    using line_range_exact[of ?s 2 "LFromStart 2 7" 1 2] ls by simp
qed

text \<open>
  The header parsers invert the printers: every range the parsers can yield prints to a header
  that parses back to it, and what they yield is always well formed (no byte range ends before it
  starts; line numbers are positive; an insert point is never read as a range).
\<close>

theorem range_header_roundtrip:
  "(wf_byte_range r \<longrightarrow> parse_range_header (byte_range_to_http r) = Inr \<lparr>pr_unit = ''bytes'', pr_range = Some r\<rparr>)
   \<and> (wf_line_range l \<longrightarrow> parse_line_range_header (line_range_to_http l) = Inr l)
   \<and> (parse_range_header value = Inr \<lparr>pr_unit = u, pr_range = Some r'\<rparr> \<longrightarrow> u = ''bytes'' \<and> wf_byte_range r')
   \<and> (parse_line_range_header value = Inr l' \<longrightarrow> wf_line_range l')"
  using byte_header_roundtrip[of r] line_header_roundtrip[of l] parse_line_header_wf[of "value" l']
    parse_range_header_wf[of "value" "\<lparr>pr_unit = u, pr_range = Some r'\<rparr>" r']
  by simp

theorem range_header_roundtrip_witness:
  "parse_range_header ''bytes=5-'' = Inr \<lparr>pr_unit = ''bytes'', pr_range = Some (BFromStartOpen 5)\<rparr>"
proof -
  have "byte_range_to_http (BFromStartOpen 5) = ''bytes=5-''" by code_simp
  then show ?thesis using range_header_roundtrip[of "BFromStartOpen 5"] by simp
qed

end
