(* ===== verification/Conditionals.thy ===== *)
theory Conditionals
  imports Ranges
begin

text \<open>
  HTTP conditional requests (\<^verbatim>\<open>notedthat-core/src/conditional.rs\<close>, \<^verbatim>\<open>preconditions.rs\<close>): the carrier of
  the four headers, entity-tag comparison, and the preconditions of reads and writes that the
  backends without a server of their own evaluate.

  The crate \<^verbatim>\<open>httpdate\<close> is a parameter: \<open>parse_date\<close> yields a time or the text of its error.  A
  \<^verbatim>\<open>SystemTime\<close> is the integer number of nanoseconds since the Unix epoch.
\<close>

section \<open>Definitions\<close>

record conditional_headers =
  if_match :: "string option"
  if_none_match :: "string option"
  if_modified_since :: "string option"
  if_unmodified_since :: "string option"

definition no_conditions :: conditional_headers where
  "no_conditions = \<lparr>if_match = None, if_none_match = None, if_modified_since = None, if_unmodified_since = None\<rparr>"

definition conditionals_is_empty :: "conditional_headers \<Rightarrow> bool" where
  "conditionals_is_empty c \<longleftrightarrow>
     if_match c = None \<and> if_none_match c = None \<and> if_modified_since c = None \<and> if_unmodified_since c = None"

definition for_read :: "conditional_headers \<Rightarrow> conditional_headers" where
  "for_read c =
     \<lparr>if_match = if_match c,
      if_none_match = if_none_match c,
      if_modified_since = (if if_none_match c = None then if_modified_since c else None),
      if_unmodified_since = (if if_match c = None then if_unmodified_since c else None)\<rparr>"

text \<open>
  \<open>headers\<close> is the header map restricted to the values that are visible ASCII
  (\<^verbatim>\<open>HeaderValue::to_str\<close>), by lower-case name, first value each.
\<close>

definition from_header_map :: "(string \<Rightarrow> string option) \<Rightarrow> conditional_headers" where
  "from_header_map headers =
     \<lparr>if_match = headers ''if-match'', if_none_match = headers ''if-none-match'',
      if_modified_since = headers ''if-modified-since'', if_unmodified_since = headers ''if-unmodified-since''\<rparr>"

type_synonym system_time = int

record object_state =
  os_etag :: string
  os_last_modified :: system_time

definition unix_seconds :: "system_time \<Rightarrow> nat" where
  "unix_seconds time = (if time < 0 then 0 else nat (time div 1000000000))"

definition unix_seconds_i64 :: "system_time \<Rightarrow> int" where
  "unix_seconds_i64 time =
     (let s = int (unix_seconds time) in if s < 2 ^ 63 then s else 2 ^ 63 - 1)"

definition not_modified :: "object_state \<Rightarrow> storage_error" where
  "not_modified st =
     SE_NotModified \<lparr>v_etag = Some (os_etag st), v_last_modified = Some (unix_seconds_i64 (os_last_modified st))\<rparr>"

definition parse_http_date_or_err ::
    "(string \<Rightarrow> (string, system_time) result) \<Rightarrow> string \<Rightarrow> (storage_error, system_time) result" where
  "parse_http_date_or_err parse_date value =
     map_err (\<lambda>err. SE_Other (''invalid HTTP-date '' @ sq @ value @ sq @ '': '' @ err)) (parse_date value)"

definition matches_if_match :: "string \<Rightarrow> string \<Rightarrow> bool" where
  "matches_if_match current_etag value =
     (if trim value = ''*'' then True
      else list_ex (\<lambda>tag. tag = current_etag) (map trim (split_on CHR '','' value)))"

text \<open>\<^verbatim>\<open>trim_start_matches("W/")\<close>: every leading copy of the weak prefix.\<close>

fun strip_weak :: "string \<Rightarrow> string" where
  "strip_weak (a # b # s) = (if a = CHR ''W'' \<and> b = CHR ''/'' then strip_weak s else a # b # s)"
| "strip_weak s = s"

definition matches_if_none_match :: "string option \<Rightarrow> string \<Rightarrow> bool" where
  "matches_if_none_match current_etag value =
     (case current_etag of
        None \<Rightarrow> False
      | Some current \<Rightarrow>
          if trim value = ''*'' then True
          else list_ex (\<lambda>tag. strip_weak tag = strip_weak current) (map trim (split_on CHR '','' value)))"

definition evaluate_write_preconditions ::
    "object_state option \<Rightarrow> conditional_headers \<Rightarrow> (storage_error, unit) result" where
  "evaluate_write_preconditions st c =
     (if (case if_match c of
            None \<Rightarrow> False
          | Some value \<Rightarrow> \<not> (case st of None \<Rightarrow> False | Some obj \<Rightarrow> matches_if_match (os_etag obj) value))
      then Inl SE_PreconditionFailed
      else if (case if_none_match c of
            None \<Rightarrow> False
          | Some value \<Rightarrow> matches_if_none_match (map_option os_etag st) value)
      then Inl SE_PreconditionFailed
      else Inr ())"

definition evaluate_read_preconditions ::
    "(string \<Rightarrow> (string, system_time) result) \<Rightarrow> object_state \<Rightarrow> conditional_headers
     \<Rightarrow> (storage_error, unit) result" where
  "evaluate_read_preconditions parse_date st c0 =
     (let c = for_read c0 in
      if (case if_match c of None \<Rightarrow> False | Some value \<Rightarrow> \<not> matches_if_match (os_etag st) value)
      then Inl SE_PreconditionFailed
      else res_bind
        (case if_unmodified_since c of
           None \<Rightarrow> Inr ()
         | Some value \<Rightarrow> res_bind (parse_http_date_or_err parse_date value) (\<lambda>threshold.
             if unix_seconds (os_last_modified st) > unix_seconds threshold
             then Inl SE_PreconditionFailed else Inr ()))
        (\<lambda>_. if (case if_none_match c of
                  None \<Rightarrow> False | Some value \<Rightarrow> matches_if_none_match (Some (os_etag st)) value)
          then Inl (not_modified st)
          else case if_modified_since c of
             None \<Rightarrow> Inr ()
           | Some value \<Rightarrow> res_bind (parse_http_date_or_err parse_date value) (\<lambda>threshold.
               if unix_seconds (os_last_modified st) \<le> unix_seconds threshold
               then Inl (not_modified st) else Inr ())))"

definition if_range_matches ::
    "(string \<Rightarrow> (string, system_time) result) \<Rightarrow> string \<Rightarrow> string option \<Rightarrow> int option \<Rightarrow> bool" where
  "if_range_matches parse_date if_range0 etag last_modified =
     (let if_range = trim if_range0 in
      if prefix dq if_range \<or> prefix ''W/'' if_range then
        \<not> prefix ''W/'' if_range
        \<and> (case etag of None \<Rightarrow> False | Some current \<Rightarrow> \<not> prefix ''W/'' current \<and> current = if_range)
      else case parse_date if_range of
        Inl _ \<Rightarrow> False
      | Inr date \<Rightarrow> last_modified = Some (unix_seconds_i64 date))"

definition resolve_range ::
    "u64 \<Rightarrow> byte_range option \<Rightarrow> (storage_error, ((u64 \<times> u64) \<times> string) option) result" where
  "resolve_range total_size requested =
     (case requested of
        None \<Rightarrow> Inr None
      | Some r \<Rightarrow>
          res_bind (ok_or (SE_RangeNotSatisfiable total_size) (to_exclusive_range r total_size)) (\<lambda>(s, e).
            Inr (Some ((s, e), ''bytes '' @ show_u64 s @ ''-'' @ show_u64 (e - 1) @ ''/'' @ show_u64 total_size))))"

section \<open>Lemmas\<close>

lemma evaluate_write_Inr_iff [result_simps]:
  "evaluate_write_preconditions st c = Inr u \<longleftrightarrow>
     (\<forall>value. if_match c = Some value \<longrightarrow> (\<exists>obj. st = Some obj \<and> matches_if_match (os_etag obj) value))
     \<and> (\<forall>value obj. if_none_match c = Some value \<and> st = Some obj
          \<longrightarrow> \<not> matches_if_none_match (Some (os_etag obj)) value)"
  by (cases st) (auto simp: evaluate_write_preconditions_def matches_if_none_match_def split: option.splits)

lemma evaluate_write_Inl:
  "evaluate_write_preconditions st c = Inl e \<Longrightarrow> e = SE_PreconditionFailed"
  by (auto simp: evaluate_write_preconditions_def split: if_splits)

lemma evaluate_write_no_conditions [simp]: "evaluate_write_preconditions st no_conditions = Inr ()"
  by (simp add: evaluate_write_preconditions_def no_conditions_def)

text \<open>A tag as the program makes them: quoted, without comma or white space inside.\<close>

definition plain_tag :: "string \<Rightarrow> bool" where
  "plain_tag t \<longleftrightarrow> prefix dq t \<and> CHR '','' \<notin> set t
     \<and> (\<forall>c\<in>set t. \<not> is_continuation c \<and> \<not> is_whitespace [c])"

lemma evaluate_read_no_conditions [simp]: "evaluate_read_preconditions pd st no_conditions = Inr ()"
  by (simp add: evaluate_read_preconditions_def for_read_def no_conditions_def)

lemma plain_tag_single:
  assumes "plain_tag t"
  shows "trim t = t" "split_on CHR '','' t = [t]" "t \<noteq> ''*''" "strip_weak t = t" "\<not> prefix ''W/'' t"
proof -
  show "trim t = t" using assms by (intro trim_id) (simp add: plain_tag_def)
  show "split_on CHR '','' t = [t]" using assms by (intro split_on_no_sep) (simp add: plain_tag_def)
  show "t \<noteq> ''*''" "\<not> prefix ''W/'' t" using assms by (auto simp: plain_tag_def prefix_def)
  show "strip_weak t = t" using assms by (cases t rule: strip_weak.cases) (auto simp: plain_tag_def)
qed

lemma matches_if_match_plain [simp]: "plain_tag t \<Longrightarrow> matches_if_match current t \<longleftrightarrow> t = current"
  by (simp add: matches_if_match_def plain_tag_single)

lemma matches_if_none_match_plain [simp]:
  "\<lbrakk>plain_tag t; plain_tag current\<rbrakk> \<Longrightarrow> matches_if_none_match (Some current) t \<longleftrightarrow> t = current"
  by (simp add: matches_if_none_match_def plain_tag_single)

lemma trim_star [simp]: "trim ''*'' = ''*''"
  by (rule trim_id) (simp add: is_continuation_def is_whitespace_def)

lemma matches_star [simp]: "matches_if_match current ''*''" "matches_if_none_match (Some current) ''*''"
  by (simp_all add: matches_if_match_def matches_if_none_match_def)

lemma read_412_before_304:
  assumes "if_match c = Some value" "\<not> matches_if_match (os_etag st) value"
  shows "evaluate_read_preconditions pd st c = Inl SE_PreconditionFailed"
  using assms by (simp add: evaluate_read_preconditions_def for_read_def)

lemma parse_http_date_or_err_iff:
  "parse_http_date_or_err pd value = Inr t \<longleftrightarrow> pd value = Inr t"
  "parse_http_date_or_err pd value = Inl e \<longleftrightarrow>
     (\<exists>err. pd value = Inl err \<and> e = SE_Other (''invalid HTTP-date '' @ sq @ value @ sq @ '': '' @ err))"
  by (cases "pd value"; auto simp: parse_http_date_or_err_def)+

lemma evaluate_read_errors:
  assumes "evaluate_read_preconditions pd st c = Inl e"
  shows "e = SE_PreconditionFailed
    \<or> e = not_modified st \<and> (\<forall>tag. if_none_match c = Some tag \<longrightarrow> matches_if_none_match (Some (os_etag st)) tag)
    \<or> (\<exists>value err. pd value = Inl err \<and> e = SE_Other (''invalid HTTP-date '' @ sq @ value @ sq @ '': '' @ err)
        \<and> (if_unmodified_since c = Some value \<and> if_match c = None
           \<or> if_modified_since c = Some value \<and> if_none_match c = None))"
  using assms
  by (cases "if_match c"; cases "if_none_match c"; cases "if_unmodified_since c"; cases "if_modified_since c")
    (simp_all add: evaluate_read_preconditions_def for_read_def Let_def res_bind_Inl_iff
      parse_http_date_or_err_iff split: if_splits, blast+)

section \<open>Properties\<close>

text \<open>
  Write preconditions are compare-and-set.  With a tag of the form the program makes,
  \<^verbatim>\<open>If-Match\<close> lets a write through exactly when the object exists with that tag, \<^verbatim>\<open>If-None-Match: *\<close>
  exactly when no object exists, \<^verbatim>\<open>If-Match: *\<close> exactly when one does; date conditions never
  matter to a write, and the only refusal is 412.
\<close>

theorem write_precondition_cas:
  assumes "plain_tag t"
  shows "(evaluate_write_preconditions st (no_conditions\<lparr>if_match := Some t, if_modified_since := d, if_unmodified_since := d'\<rparr>)
      = (if map_option os_etag st = Some t then Inr () else Inl SE_PreconditionFailed))
    \<and> (evaluate_write_preconditions st (no_conditions\<lparr>if_none_match := Some ''*'', if_modified_since := d\<rparr>)
      = (if st = None then Inr () else Inl SE_PreconditionFailed))
    \<and> (evaluate_write_preconditions st (no_conditions\<lparr>if_match := Some ''*''\<rparr>)
      = (if st = None then Inl SE_PreconditionFailed else Inr ()))"
  using assms by (cases st) (auto simp: evaluate_write_preconditions_def no_conditions_def matches_if_none_match_def)

theorem write_precondition_cas_witness:
  "evaluate_write_preconditions (Some \<lparr>os_etag = dq @ ''v1'' @ dq, os_last_modified = 0\<rparr>)
     (no_conditions\<lparr>if_match := Some (dq @ ''v2'' @ dq), if_modified_since := None, if_unmodified_since := None\<rparr>)
   = Inl SE_PreconditionFailed"
proof -
  have "plain_tag (dq @ ''v2'' @ dq)"
    by (simp add: plain_tag_def is_continuation_def is_whitespace_def)
  then show ?thesis
    using write_precondition_cas[of "dq @ ''v2'' @ dq" "Some \<lparr>os_etag = dq @ ''v1'' @ dq, os_last_modified = 0\<rparr>" None None]
    by simp
qed

text \<open>
  Read preconditions follow the precedence of RFC 9110.  A date condition whose tag
  counterpart is present is neither evaluated nor parsed; the date parser is consulted for nothing
  else; a failing \<^verbatim>\<open>If-Match\<close> is a 412 whatever the other headers say; and a 304 carries the
  object's own validators and is never answered when \<^verbatim>\<open>If-None-Match\<close> is present without matching.
\<close>

theorem read_precondition_precedence:
  "(if_match c \<noteq> None \<and> if_none_match c \<noteq> None \<longrightarrow>
      evaluate_read_preconditions pd st c = evaluate_read_preconditions pd' st (c\<lparr>if_modified_since := d, if_unmodified_since := d'\<rparr>))
   \<and> (if_match c = Some value \<and> \<not> matches_if_match (os_etag st) value \<longrightarrow>
      evaluate_read_preconditions pd st c = Inl SE_PreconditionFailed)
   \<and> (evaluate_read_preconditions pd st c = Inl (SE_NotModified vs) \<longrightarrow>
      vs = \<lparr>v_etag = Some (os_etag st), v_last_modified = Some (unix_seconds_i64 (os_last_modified st))\<rparr>
      \<and> (\<forall>tag. if_none_match c = Some tag \<longrightarrow> matches_if_none_match (Some (os_etag st)) tag))"
proof (intro conjI impI allI)
  assume "if_match c \<noteq> None \<and> if_none_match c \<noteq> None"
  then show "evaluate_read_preconditions pd st c =
      evaluate_read_preconditions pd' st (c\<lparr>if_modified_since := d, if_unmodified_since := d'\<rparr>)"
    by (auto simp: evaluate_read_preconditions_def for_read_def Let_def)
next
  assume "if_match c = Some value \<and> \<not> matches_if_match (os_etag st) value"
  then show "evaluate_read_preconditions pd st c = Inl SE_PreconditionFailed"
    using read_412_before_304 by blast
next
  assume e: "evaluate_read_preconditions pd st c = Inl (SE_NotModified vs)"
  note errors = evaluate_read_errors[OF e]
  then show "vs = \<lparr>v_etag = Some (os_etag st), v_last_modified = Some (unix_seconds_i64 (os_last_modified st))\<rparr>"
    by (auto simp: not_modified_def)
  show "matches_if_none_match (Some (os_etag st)) tag" if "if_none_match c = Some tag" for tag
    using errors that by auto
qed

theorem read_precondition_precedence_witness:
  "evaluate_read_preconditions (\<lambda>_. Inl ''bad date'') \<lparr>os_etag = dq @ ''v1'' @ dq, os_last_modified = 0\<rparr>
     \<lparr>if_match = Some (dq @ ''v2'' @ dq), if_none_match = Some ''*'', if_modified_since = Some ''?'', if_unmodified_since = Some ''?''\<rparr>
   = Inl SE_PreconditionFailed"
proof -
  let ?c = "\<lparr>if_match = Some (dq @ ''v2'' @ dq), if_none_match = Some ''*'', if_modified_since = Some ''?'',
    if_unmodified_since = Some ''?''\<rparr>"
  let ?st = "\<lparr>os_etag = dq @ ''v1'' @ dq, os_last_modified = 0\<rparr>"
  have "\<not> matches_if_match (os_etag ?st) (dq @ ''v2'' @ dq)" by code_simp
  moreover have "if_match ?c = Some (dq @ ''v2'' @ dq) \<and> \<not> matches_if_match (os_etag ?st) (dq @ ''v2'' @ dq)
      \<longrightarrow> evaluate_read_preconditions (\<lambda>_. Inl ''bad date'') ?st ?c = Inl SE_PreconditionFailed"
    using read_precondition_precedence[of ?c "\<lambda>_. Inl ''bad date''" ?st] by blast
  ultimately show ?thesis by simp
qed

end
