(* ===== verification/Storage_Api.thy ===== *)
theory Storage_Api
  imports Slug Object_Path Conditionals
begin

text \<open>
  The storage interface (\<^verbatim>\<open>notedthat-core/src/storage.rs\<close>, with \<^verbatim>\<open>ObjectMeta\<close> of \<^verbatim>\<open>kb.rs\<close>): the values its
  operations exchange, the trait as a record of operations over an explicit store, and two
  contracts its clients rely on.

  \<open>object_store\<close> is what a writer needs: reads see the current object, a write that succeeds passed
  its preconditions and replaces exactly one object, a write that fails changes nothing.
  \<open>paged_store\<close> is what a walk needs: pages in key order, each resuming where the last one ended.
\<close>

section \<open>Values\<close>

record object_meta =
  om_key :: string
  om_size :: u64
  om_last_modified :: "int option"
  om_content_type :: "string option"
  om_etag :: "string option"

record copy_object_options =
  source_if_match :: "string option"
  destination_if_none_match :: "string option"
  copy_content_type :: "string option"

record object_read =
  or_bytes :: bytes
  or_meta :: object_meta
  or_content_range :: "string option"

record list_response =
  lr_objects :: "object_meta list"
  lr_truncated :: bool
  lr_next_cursor :: "string option"

datatype delete_outcome = Deleted | Delete_NotFound

record put_outcome =
  po_etag :: "string option"
  po_created :: bool

record stored_object =
  so_bytes :: bytes
  so_content_type :: "string option"
  so_etag :: string
  so_last_modified :: system_time

section \<open>The trait\<close>

record 's storage_ops =
  op_head :: "'s \<Rightarrow> kb_slug \<Rightarrow> object_path \<Rightarrow> conditional_headers \<Rightarrow> (storage_error, object_meta) result"
  op_get :: "'s \<Rightarrow> kb_slug \<Rightarrow> object_path \<Rightarrow> byte_range option \<Rightarrow> conditional_headers
    \<Rightarrow> (storage_error, object_read) result"
  op_put :: "'s \<Rightarrow> kb_slug \<Rightarrow> object_path \<Rightarrow> bytes \<Rightarrow> string option \<Rightarrow> conditional_headers
    \<Rightarrow> (storage_error, put_outcome) result \<times> 's"
  op_copy :: "'s \<Rightarrow> kb_slug \<Rightarrow> object_path \<Rightarrow> object_path \<Rightarrow> copy_object_options
    \<Rightarrow> (storage_error, put_outcome) result \<times> 's"
  op_delete :: "'s \<Rightarrow> kb_slug \<Rightarrow> object_path \<Rightarrow> conditional_headers
    \<Rightarrow> (storage_error, delete_outcome) result \<times> 's"
  op_list :: "'s \<Rightarrow> kb_slug \<Rightarrow> string option \<Rightarrow> nat \<Rightarrow> string option \<Rightarrow> (storage_error, list_response) result"

abbreviation obj_key :: "kb_slug \<Rightarrow> object_path \<Rightarrow> string \<times> string" where
  "obj_key kb path \<equiv> (kb_str kb, path_str path)"

definition stored_state :: "stored_object \<Rightarrow> object_state" where
  "stored_state obj = \<lparr>os_etag = so_etag obj, os_last_modified = so_last_modified obj\<rparr>"

section \<open>Contracts\<close>

locale object_store =
  fixes ops :: "'s storage_ops"
    and inv :: "'s \<Rightarrow> bool"
    and contents :: "'s \<Rightarrow> (string \<times> string) \<rightharpoonup> stored_object"
    and etag_of :: "bytes \<Rightarrow> string"
  assumes etag_inv: "\<lbrakk>inv s; contents s k = Some obj\<rbrakk> \<Longrightarrow> so_etag obj = etag_of (so_bytes obj)"
    and head_ok: "op_head ops s kb path c = Inr m \<Longrightarrow>
      \<exists>obj. contents s (obj_key kb path) = Some obj \<and> om_etag m = Some (so_etag obj)
        \<and> om_size m = of_nat (length (so_bytes obj)) \<and> om_content_type m = so_content_type obj"
    and get_ok: "op_get ops s kb path None c = Inr r \<Longrightarrow>
      \<exists>obj. contents s (obj_key kb path) = Some obj \<and> or_bytes r = so_bytes obj
        \<and> om_content_type (or_meta r) = so_content_type obj
        \<and> (\<forall>t. if_match c = Some t \<longrightarrow> matches_if_match (so_etag obj) t)"
    and put_ok: "\<lbrakk>inv s; op_put ops s kb path b ct c = (Inr out, s')\<rbrakk> \<Longrightarrow>
      inv s' \<and> (\<exists>t. contents s' = (contents s)(obj_key kb path \<mapsto>
          \<lparr>so_bytes = b, so_content_type = ct, so_etag = etag_of b, so_last_modified = t\<rparr>))
        \<and> po_etag out = Some (etag_of b) \<and> po_created out = (contents s (obj_key kb path) = None)
        \<and> evaluate_write_preconditions (map_option stored_state (contents s (obj_key kb path))) c = Inr ()"
    and put_err: "op_put ops s kb path b ct c = (Inl e, s') \<Longrightarrow> s' = s"
    and delete_ok: "\<lbrakk>inv s; op_delete ops s kb path c = (Inr d, s')\<rbrakk> \<Longrightarrow>
      inv s' \<and> contents s' = (contents s)(obj_key kb path := None)
        \<and> (d = Deleted \<longleftrightarrow> contents s (obj_key kb path) \<noteq> None)"
    and delete_err: "op_delete ops s kb path c = (Inl e, s') \<Longrightarrow> s' = s"
    and copy_ok: "\<lbrakk>inv s; op_copy ops s kb src dst opts = (Inr out, s')\<rbrakk> \<Longrightarrow>
      inv s' \<and> (\<exists>obj t ct. contents s (obj_key kb src) = Some obj
        \<and> contents s' = (contents s)(obj_key kb dst \<mapsto>
             \<lparr>so_bytes = so_bytes obj, so_content_type = ct, so_etag = so_etag obj, so_last_modified = t\<rparr>)
        \<and> po_etag out = Some (so_etag obj))"
    and copy_err: "op_copy ops s kb src dst opts = (Inl e, s') \<Longrightarrow> s' = s"
begin

text \<open>
  A conditional write against the tag of a version the writer has seen replaces that version: with
  tags that identify contents, the bytes replaced are the bytes seen.
\<close>

lemma cas_put_replaces_seen:
  assumes put: "op_put ops s kb path b ct (no_conditions\<lparr>if_match := Some t\<rparr>) = (Inr out, s')"
    and "inv s" and tag: "t = etag_of seen" "plain_tag t" and inj: "inj etag_of"
  shows "\<exists>obj. contents s (obj_key kb path) = Some obj \<and> so_bytes obj = seen"
proof -
  obtain obj where obj: "contents s (obj_key kb path) = Some obj" "matches_if_match (so_etag obj) t"
    using put_ok[OF assms(2) put] by (auto simp: evaluate_write_Inr_iff stored_state_def no_conditions_def)
  then have "etag_of (so_bytes obj) = etag_of seen" using etag_inv[OF assms(2)] tag by simp
  then show ?thesis using obj(1) inj by (auto dest: injD)
qed

lemma get_if_match_seen:
  assumes "op_get ops s kb path None (no_conditions\<lparr>if_match := Some t\<rparr>) = Inr r" "inv s" "plain_tag t"
  shows "etag_of (or_bytes r) = t"
  using get_ok[OF assms(1)] etag_inv[OF assms(2)] assms(3) by (auto simp: no_conditions_def)

end

locale paged_store =
  fixes ops :: "'s storage_ops"
    and ready :: "'s \<Rightarrow> kb_slug \<Rightarrow> bool"
    and listing :: "'s \<Rightarrow> kb_slug \<Rightarrow> string option \<Rightarrow> object_meta list"
    and pos :: "'s \<Rightarrow> kb_slug \<Rightarrow> string option \<Rightarrow> string option \<Rightarrow> nat option"
  assumes listing_sorted: "ready s kb \<Longrightarrow> sorted_wrt (\<lambda>a b. om_key a < om_key b) (listing s kb pre)"
    and pos_start: "pos s kb pre None = Some 0"
    and page: "\<lbrakk>ready s kb; pos s kb pre cursor = Some n; 0 < limit\<rbrakk> \<Longrightarrow>
      \<exists>lr. op_list ops s kb pre limit cursor = Inr lr
        \<and> lr_objects lr = take (min limit 1000) (drop n (listing s kb pre))
        \<and> (if n + min limit 1000 < length (listing s kb pre)
           then lr_truncated lr \<and> (\<exists>c. lr_next_cursor lr = Some c \<and> pos s kb pre (Some c) = Some (n + min limit 1000))
           else \<not> lr_truncated lr \<and> lr_next_cursor lr = None)"

end
