(* ===== verification/Mem_Storage.thy ===== *)
theory Mem_Storage
  imports Storage_Api "HOL-Library.AList"
begin

text \<open>
  The in-memory storage backend (\<^verbatim>\<open>notedthat-core/src/testing.rs\<close>, \<^verbatim>\<open>InMemoryStorage\<close>): the reference
  implementation of the storage trait the other backends are held against.  The hash map is an
  association list with distinct keys, its iteration order being lost in the sort of every listing.
  \<open>m_now\<close> is the wall clock as the backend would read it; \<open>etag_of\<close> stands for the SHA-256 tag of
  \<^verbatim>\<open>compute_etag\<close> and \<open>parse_date\<close> for the HTTP-date parser.

  The backend is shown to satisfy both contracts of \<open>Storage_Api\<close>.
\<close>

section \<open>State\<close>

record mem_storage =
  m_objects :: "((string \<times> string) \<times> stored_object) list"
  m_buckets :: "string set"
  m_unreachable :: bool
  m_now :: system_time

definition CURSOR_PREFIX :: string where
  "CURSOR_PREFIX = ''ntmem1:''"

definition set_reachable :: "mem_storage \<Rightarrow> bool \<Rightarrow> mem_storage" where
  "set_reachable st reachable = st\<lparr>m_unreachable := \<not> reachable\<rparr>"

definition check_reachable :: "mem_storage \<Rightarrow> (storage_error, unit) result" where
  "check_reachable st =
     (if m_unreachable st then Inl (SE_BackendUnavailable ''in-memory storage marked unreachable'') else Inr ())"

definition with_kbs :: "kb_slug list \<Rightarrow> system_time \<Rightarrow> mem_storage" where
  "with_kbs kbs now = \<lparr>m_objects = [], m_buckets = set (map kb_str kbs), m_unreachable = False, m_now = now\<rparr>"

definition require_bucket :: "mem_storage \<Rightarrow> kb_slug \<Rightarrow> (storage_error, unit) result" where
  "require_bucket st kb =
     (if kb_str kb \<in> m_buckets st then Inr ()
      else Inl (SE_BucketNotFound (derive_bucket_name tenant_default kb)))"

definition mem_object_meta :: "object_path \<Rightarrow> stored_object \<Rightarrow> u64 \<Rightarrow> object_meta" where
  "mem_object_meta path stored sz =
     \<lparr>om_key = path_str path, om_size = sz,
      om_last_modified = Some (unix_seconds_i64 (so_last_modified stored)),
      om_content_type = so_content_type stored, om_etag = Some (so_etag stored)\<rparr>"

section \<open>Operations\<close>

definition mem_ensure_bucket :: "mem_storage \<Rightarrow> kb_slug \<Rightarrow> (storage_error, unit) result \<times> mem_storage" where
  "mem_ensure_bucket st kb =
     (case check_reachable st of
        Inl e \<Rightarrow> (Inl e, st)
      | Inr _ \<Rightarrow> (Inr (), st\<lparr>m_buckets := insert (kb_str kb) (m_buckets st)\<rparr>))"

definition mem_probe :: "mem_storage \<Rightarrow> kb_slug \<Rightarrow> (storage_error, unit) result" where
  "mem_probe st kb = res_bind (check_reachable st) (\<lambda>_. require_bucket st kb)"

definition mem_lookup :: "mem_storage \<Rightarrow> kb_slug \<Rightarrow> object_path \<Rightarrow> (storage_error, stored_object) result" where
  "mem_lookup st kb path =
     res_bind (check_reachable st) (\<lambda>_.
     res_bind (require_bucket st kb) (\<lambda>_.
     ok_or (SE_NotFound (path_str path)) (map_of (m_objects st) (obj_key kb path))))"

definition mem_head_object ::
    "(string \<Rightarrow> (string, system_time) result) \<Rightarrow> mem_storage \<Rightarrow> kb_slug \<Rightarrow> object_path \<Rightarrow> conditional_headers
     \<Rightarrow> (storage_error, object_meta) result" where
  "mem_head_object parse_date st kb path c =
     res_bind (mem_lookup st kb path) (\<lambda>stored.
     res_bind (evaluate_read_preconditions parse_date (stored_state stored) c) (\<lambda>_.
     Inr (mem_object_meta path stored (of_nat (length (so_bytes stored))))))"

definition mem_get_object ::
    "(string \<Rightarrow> (string, system_time) result) \<Rightarrow> mem_storage \<Rightarrow> kb_slug \<Rightarrow> object_path \<Rightarrow> byte_range option
     \<Rightarrow> conditional_headers \<Rightarrow> (storage_error, object_read) result" where
  "mem_get_object parse_date st kb path range' c =
     res_bind (mem_lookup st kb path) (\<lambda>stored.
     res_bind (evaluate_read_preconditions parse_date (stored_state stored) c) (\<lambda>_.
     res_bind (resolve_range (of_nat (length (so_bytes stored))) range') (\<lambda>resolved.
     let (bytes, content_range) = (case resolved of
         Some ((s, e), content_range) \<Rightarrow>
           (take (unat e - unat s) (drop (unat s) (so_bytes stored)), Some content_range)
       | None \<Rightarrow> (so_bytes stored, None)) in
     Inr \<lparr>or_bytes = bytes, or_meta = mem_object_meta path stored (of_nat (length bytes)),
          or_content_range = content_range\<rparr>)))"

definition mem_put_object ::
    "(bytes \<Rightarrow> string) \<Rightarrow> mem_storage \<Rightarrow> kb_slug \<Rightarrow> object_path \<Rightarrow> bytes \<Rightarrow> string option \<Rightarrow> conditional_headers
     \<Rightarrow> (storage_error, put_outcome) result \<times> mem_storage" where
  "mem_put_object etag_of st kb path bytes content_type c =
     (case res_bind (check_reachable st) (\<lambda>_. require_bucket st kb) of
        Inl e \<Rightarrow> (Inl e, st)
      | Inr _ \<Rightarrow>
          let key = obj_key kb path; existing = map_of (m_objects st) key in
          case evaluate_write_preconditions (map_option stored_state existing) c of
            Inl e \<Rightarrow> (Inl e, st)
          | Inr _ \<Rightarrow>
              let etag = etag_of bytes in
              (Inr \<lparr>po_etag = Some etag, po_created = (existing = None)\<rparr>,
               st\<lparr>m_objects := AList.update key
                  \<lparr>so_bytes = bytes, so_content_type = content_type, so_etag = etag, so_last_modified = m_now st\<rparr>
                  (m_objects st)\<rparr>))"

definition mem_copy_object ::
    "mem_storage \<Rightarrow> kb_slug \<Rightarrow> object_path \<Rightarrow> object_path \<Rightarrow> copy_object_options
     \<Rightarrow> (storage_error, put_outcome) result \<times> mem_storage" where
  "mem_copy_object st kb source destination options =
     (case mem_lookup st kb source of
        Inl e \<Rightarrow> (Inl e, st)
      | Inr source_object \<Rightarrow>
          if (case source_if_match options of
                None \<Rightarrow> False | Some etag \<Rightarrow> \<not> matches_if_match (so_etag source_object) etag)
          then (Inl SE_PreconditionFailed, st)
          else
            let destination_key = obj_key kb destination;
                existing = map_of (m_objects st) destination_key in
            case evaluate_write_preconditions (map_option stored_state existing)
                   (no_conditions\<lparr>if_none_match := destination_if_none_match options\<rparr>) of
              Inl e \<Rightarrow> (Inl e, st)
            | Inr _ \<Rightarrow>
                let etag = so_etag source_object in
                (Inr \<lparr>po_etag = Some etag, po_created = (existing = None)\<rparr>,
                 st\<lparr>m_objects := AList.update destination_key
                    \<lparr>so_bytes = so_bytes source_object,
                     so_content_type = (case copy_content_type options of
                        Some ct \<Rightarrow> Some ct | None \<Rightarrow> so_content_type source_object),
                     so_etag = etag, so_last_modified = m_now st\<rparr>
                    (m_objects st)\<rparr>))"

definition mem_delete_object ::
    "mem_storage \<Rightarrow> kb_slug \<Rightarrow> object_path \<Rightarrow> conditional_headers
     \<Rightarrow> (storage_error, delete_outcome) result \<times> mem_storage" where
  "mem_delete_object st kb path c =
     (case res_bind (check_reachable st) (\<lambda>_. require_bucket st kb) of
        Inl e \<Rightarrow> (Inl e, st)
      | Inr _ \<Rightarrow>
          let key = obj_key kb path; existing = map_of (m_objects st) key in
          if (case if_match c of
                None \<Rightarrow> False
              | Some tag \<Rightarrow> \<not> (case existing of None \<Rightarrow> False | Some obj \<Rightarrow> matches_if_match (so_etag obj) tag))
          then (Inl SE_PreconditionFailed, st)
          else (Inr (case existing of Some _ \<Rightarrow> Deleted | None \<Rightarrow> Delete_NotFound),
                st\<lparr>m_objects := AList.delete key (m_objects st)\<rparr>))"

fun mem_listed :: "(string \<times> string) \<times> stored_object \<Rightarrow> object_meta" where
  "mem_listed ((_, key), stored) =
     \<lparr>om_key = key, om_size = of_nat (length (so_bytes stored)),
      om_last_modified = Some (unix_seconds_i64 (so_last_modified stored)),
      om_content_type = None, om_etag = Some (so_etag stored)\<rparr>"

fun mem_selected :: "string \<Rightarrow> string option \<Rightarrow> (string \<times> string) \<times> stored_object \<Rightarrow> bool" where
  "mem_selected kb pre ((kb', key), _) \<longleftrightarrow>
     kb' = kb \<and> (case pre of None \<Rightarrow> True | Some p \<Rightarrow> prefix p key)"

definition mem_matching :: "mem_storage \<Rightarrow> kb_slug \<Rightarrow> string option \<Rightarrow> object_meta list" where
  "mem_matching st kb pre =
     sort_key om_key (map mem_listed (filter (mem_selected (kb_str kb) pre) (m_objects st)))"

definition mem_list_objects ::
    "mem_storage \<Rightarrow> kb_slug \<Rightarrow> string option \<Rightarrow> nat \<Rightarrow> string option \<Rightarrow> (storage_error, list_response) result" where
  "mem_list_objects st kb pre limit cursor =
     res_bind (check_reachable st) (\<lambda>_.
     res_bind (require_bucket st kb) (\<lambda>_.
     let matching = mem_matching st kb pre in
     res_bind
       (case cursor of
          None \<Rightarrow> Inr matching
        | Some cursor_key \<Rightarrow>
            (case strip_prefix CURSOR_PREFIX cursor_key of
               None \<Rightarrow> Inl (SE_BackendUnavailable ''invalid or expired cursor'')
             | Some after \<Rightarrow> Inr (filter (\<lambda>object. after < om_key object) matching)))
       (\<lambda>remaining.
          let lim = min limit 1000;
              page = take lim remaining;
              next_cursor = (if lim < length remaining \<and> page \<noteq> []
                 then Some (CURSOR_PREFIX @ om_key (last page)) else None) in
          Inr \<lparr>lr_objects = page, lr_truncated = (next_cursor \<noteq> None), lr_next_cursor = next_cursor\<rparr>)))"

definition mem_ops ::
    "(bytes \<Rightarrow> string) \<Rightarrow> (string \<Rightarrow> (string, system_time) result) \<Rightarrow> mem_storage storage_ops" where
  "mem_ops etag_of parse_date =
     \<lparr>op_head = mem_head_object parse_date, op_get = mem_get_object parse_date,
      op_put = mem_put_object etag_of, op_copy = mem_copy_object, op_delete = mem_delete_object,
      op_list = mem_list_objects\<rparr>"

section \<open>Invariant and contents\<close>

definition mem_inv :: "(bytes \<Rightarrow> string) \<Rightarrow> mem_storage \<Rightarrow> bool" where
  "mem_inv etag_of st \<longleftrightarrow>
     distinct (map fst (m_objects st))
     \<and> (\<forall>key obj. map_of (m_objects st) key = Some obj \<longrightarrow> so_etag obj = etag_of (so_bytes obj))"

abbreviation mem_contents :: "mem_storage \<Rightarrow> (string \<times> string) \<rightharpoonup> stored_object" where
  "mem_contents st \<equiv> map_of (m_objects st)"

definition mem_ready :: "mem_storage \<Rightarrow> kb_slug \<Rightarrow> bool" where
  "mem_ready st kb \<longleftrightarrow> \<not> m_unreachable st \<and> kb_str kb \<in> m_buckets st"

lemma mem_inv_with_kbs [inv_intros]: "mem_inv etag_of (with_kbs kbs now)"
  by (simp add: mem_inv_def with_kbs_def)

lemma mem_inv_update [inv_intros]:
  assumes "mem_inv etag_of st" "so_etag obj = etag_of (so_bytes obj)"
  shows "mem_inv etag_of (st\<lparr>m_objects := AList.update key obj (m_objects st)\<rparr>)"
  using assms by (auto simp: mem_inv_def distinct_update update_conv')

lemma mem_inv_delete [inv_intros]:
  "mem_inv etag_of st \<Longrightarrow> mem_inv etag_of (st\<lparr>m_objects := AList.delete key (m_objects st)\<rparr>)"
  by (auto simp: mem_inv_def distinct_delete delete_conv')

lemma check_bucket_iff:
  "check_reachable st = Inr u \<longleftrightarrow> \<not> m_unreachable st"
  "require_bucket st kb = Inr u \<longleftrightarrow> kb_str kb \<in> m_buckets st"
  by (simp_all add: check_reachable_def require_bucket_def)

lemma mem_lookup_Inr_iff:
  "mem_lookup st kb path = Inr obj \<longleftrightarrow> mem_ready st kb \<and> mem_contents st (obj_key kb path) = Some obj"
  by (auto simp: mem_lookup_def result_simps check_bucket_iff mem_ready_def)

lemma mem_guard_Inr_iff:
  "res_bind (check_reachable st) (\<lambda>_. require_bucket st kb) = Inr u \<longleftrightarrow> mem_ready st kb"
  by (auto simp: res_bind_Inr_iff check_bucket_iff mem_ready_def)

lemma evaluate_read_if_match:
  "\<lbrakk>evaluate_read_preconditions pd st c = Inr u; if_match c = Some t\<rbrakk> \<Longrightarrow> matches_if_match (os_etag st) t"
  using read_412_before_304[of c t st pd] by auto

lemma os_etag_stored_state [simp]: "os_etag (stored_state obj) = so_etag obj"
  by (simp add: stored_state_def)

lemma mem_put_Inr:
  assumes "mem_put_object etag_of st kb path b ct c = (Inr out, st')"
  shows "mem_ready st kb"
    "evaluate_write_preconditions (map_option stored_state (mem_contents st (obj_key kb path))) c = Inr ()"
    "st' = st\<lparr>m_objects := AList.update (obj_key kb path)
        \<lparr>so_bytes = b, so_content_type = ct, so_etag = etag_of b, so_last_modified = m_now st\<rparr> (m_objects st)\<rparr>"
    "out = \<lparr>po_etag = Some (etag_of b), po_created = (mem_contents st (obj_key kb path) = None)\<rparr>"
  using assms
  by (auto simp: mem_put_object_def Let_def split: sum.splits dest: mem_guard_Inr_iff[THEN iffD1])

lemma mem_delete_Inr:
  assumes "mem_delete_object st kb path c = (Inr d, st')"
  shows "mem_ready st kb"
    "\<forall>t. if_match c = Some t \<longrightarrow> (\<exists>obj. mem_contents st (obj_key kb path) = Some obj \<and> matches_if_match (so_etag obj) t)"
    "st' = st\<lparr>m_objects := AList.delete (obj_key kb path) (m_objects st)\<rparr>"
    "d = (if mem_contents st (obj_key kb path) = None then Delete_NotFound else Deleted)"
  using assms
  by (auto simp: mem_delete_object_def Let_def split: sum.splits if_splits option.splits
      dest: mem_guard_Inr_iff[THEN iffD1])

lemma mem_copy_Inr:
  assumes "mem_copy_object st kb src dst opts = (Inr out, st')"
  shows "\<exists>obj ct. mem_contents st (obj_key kb src) = Some obj
    \<and> st' = st\<lparr>m_objects := AList.update (obj_key kb dst)
        \<lparr>so_bytes = so_bytes obj, so_content_type = ct, so_etag = so_etag obj, so_last_modified = m_now st\<rparr> (m_objects st)\<rparr>
    \<and> po_etag out = Some (so_etag obj)"
  using assms
  by (auto simp: mem_copy_object_def Let_def mem_lookup_Inr_iff split: sum.splits if_splits option.splits)

lemma mem_error_unchanged:
  "mem_put_object etag_of st kb path b ct c = (Inl e, st') \<Longrightarrow> st' = st"
  "mem_delete_object st kb path c = (Inl e, st') \<Longrightarrow> st' = st"
  "mem_copy_object st kb path dst opts = (Inl e, st') \<Longrightarrow> st' = st"
  by (auto simp: mem_put_object_def mem_delete_object_def mem_copy_object_def Let_def
      split: sum.splits if_splits)

interpretation mem_store:
  object_store "mem_ops etag_of parse_date" "mem_inv etag_of" mem_contents etag_of
  for etag_of :: "bytes \<Rightarrow> string" and parse_date :: "string \<Rightarrow> (string, system_time) result"
proof (standard, goal_cases)
  case (1 s k obj)
  then show ?case unfolding mem_inv_def by blast
next
  case (2 s kb path c m)
  then show ?case
    by (auto simp: mem_ops_def mem_head_object_def res_bind_Inr_iff mem_lookup_Inr_iff mem_object_meta_def)
next
  case (3 s kb path c r)
  then obtain obj where obj: "mem_contents s (obj_key kb path) = Some obj"
    "evaluate_read_preconditions parse_date (stored_state obj) c = Inr ()"
    "or_bytes r = so_bytes obj" "om_content_type (or_meta r) = so_content_type obj"
    by (auto simp: mem_ops_def mem_get_object_def res_bind_Inr_iff mem_lookup_Inr_iff mem_object_meta_def
        resolve_range_def)
  then show ?case using evaluate_read_if_match[OF obj(2)] by simp
next
  case (4 s kb path b ct c out s')
  then have "mem_put_object etag_of s kb path b ct c = (Inr out, s')" by (simp add: mem_ops_def)
  note put = mem_put_Inr[OF this]
  show ?case using put(1,2,4) 4(1) unfolding put(3) by (auto simp: update_conv' intro!: mem_inv_update)
next
  case (6 s kb path c d s')
  then have "mem_delete_object s kb path c = (Inr d, s')" by (simp add: mem_ops_def)
  note del = mem_delete_Inr[OF this]
  show ?case using del(4) 6(1) unfolding del(3) by (auto simp: delete_conv' intro!: mem_inv_delete)
next
  case (8 s kb src dst opts out s')
  then have "mem_copy_object s kb src dst opts = (Inr out, s')" by (simp add: mem_ops_def)
  from mem_copy_Inr[OF this] obtain obj ct where *: "mem_contents s (obj_key kb src) = Some obj"
    "s' = s\<lparr>m_objects := AList.update (obj_key kb dst)
        \<lparr>so_bytes = so_bytes obj, so_content_type = ct, so_etag = so_etag obj, so_last_modified = m_now s\<rparr> (m_objects s)\<rparr>"
    "po_etag out = Some (so_etag obj)" by blast
  moreover have "so_etag obj = etag_of (so_bytes obj)" using 8(1) *(1) by (simp add: mem_inv_def)
  ultimately show ?case using 8(1) by (auto simp: update_conv' intro!: mem_inv_update)
qed (auto simp: mem_ops_def dest: mem_error_unchanged)

section \<open>Listing\<close>

definition mem_pos :: "mem_storage \<Rightarrow> kb_slug \<Rightarrow> string option \<Rightarrow> string option \<Rightarrow> nat option" where
  "mem_pos st kb pre cursor =
     (case cursor of
        None \<Rightarrow> Some 0
      | Some c \<Rightarrow> map_option (\<lambda>after. length (filter (\<lambda>obj. om_key obj \<le> after) (mem_matching st kb pre)))
          (strip_prefix CURSOR_PREFIX c))"

lemma om_key_mem_listed [simp]: "om_key (mem_listed x) = snd (fst x)"
  by (cases x rule: mem_listed.cases) simp

lemma distinct_selected_keys:
  "distinct (map fst xs) \<Longrightarrow> distinct (map (\<lambda>x. snd (fst x)) (filter (mem_selected kb pre) xs))"
proof (induction xs)
  case (Cons x xs)
  obtain a b v where x: "x = ((a, b), v)" by (cases x) auto
  have "b \<noteq> snd (fst y)" if "y \<in> set xs" "mem_selected kb pre y" "a = kb" for y
    using that Cons.prems x by (cases y rule: mem_listed.cases) (auto simp: rev_image_eqI)
  then show ?case using Cons x by auto
qed simp

lemma mem_matching_sorted:
  "distinct (map fst (m_objects st)) \<Longrightarrow> key_sorted om_key (mem_matching st kb pre)"
  unfolding mem_matching_def
  by (intro sort_key_key_sorted) (simp add: distinct_selected_keys o_def)

lemma mem_list_page:
  assumes ready: "mem_ready st kb" and pos: "mem_pos st kb pre cursor = Some n" and "0 < limit"
    and sorted: "key_sorted om_key (mem_matching st kb pre)"
  shows "\<exists>lr. mem_list_objects st kb pre limit cursor = Inr lr
    \<and> lr_objects lr = take (min limit 1000) (drop n (mem_matching st kb pre))
    \<and> (if n + min limit 1000 < length (mem_matching st kb pre)
       then lr_truncated lr \<and> (\<exists>c. lr_next_cursor lr = Some c \<and> mem_pos st kb pre (Some c) = Some (n + min limit 1000))
       else \<not> lr_truncated lr \<and> lr_next_cursor lr = None)"
proof -
  define L where "L = mem_matching st kb pre"
  define lim where "lim = min limit 1000"
  define page where "page = take lim (drop n L)"
  have lim: "0 < lim" using assms(3) by (simp add: lim_def)
  have remaining: "(case cursor of None \<Rightarrow> Inr L
      | Some c \<Rightarrow> (case strip_prefix CURSOR_PREFIX c of
          None \<Rightarrow> Inl (SE_BackendUnavailable ''invalid or expired cursor'')
        | Some after \<Rightarrow> Inr (filter (\<lambda>obj. after < om_key obj) L))) = Inr (drop n L)"
    using pos key_sorted_filter_gt[OF sorted]
    by (auto simp: mem_pos_def L_def split: option.splits)
  define nc where "nc = (if lim < length (drop n L) \<and> page \<noteq> [] then Some (CURSOR_PREFIX @ om_key (last page)) else None)"
  have list: "mem_list_objects st kb pre limit cursor =
      Inr \<lparr>lr_objects = page, lr_truncated = (nc \<noteq> None), lr_next_cursor = nc\<rparr>"
    using ready remaining
    by (simp add: mem_list_objects_def check_reachable_def require_bucket_def mem_ready_def
        L_def[symmetric] lim_def[symmetric] page_def nc_def Let_def)
  have "\<exists>c. nc = Some c \<and> mem_pos st kb pre (Some c) = Some (n + lim)" if more: "n + lim < length L"
  proof -
    have len: "lim < length (drop n L)" using more by simp
    then have "page \<noteq> []" using lim by (auto simp: page_def)
    have "length (filter (\<lambda>obj. om_key obj \<le> om_key (last page)) L) = n + lim"
      using key_sorted_page_end[OF sorted lim] more by (simp add: page_def L_def)
    then show ?thesis using len \<open>page \<noteq> []\<close>
      by (simp add: nc_def mem_pos_def strip_prefix_def L_def)
  qed
  moreover have "nc = None" if "\<not> n + lim < length L" using that by (simp add: nc_def)
  ultimately show ?thesis
    unfolding list L_def[symmetric] lim_def[symmetric] by (auto simp: page_def)
qed

definition mem_listable :: "mem_storage \<Rightarrow> kb_slug \<Rightarrow> bool" where
  "mem_listable st kb \<longleftrightarrow> mem_ready st kb \<and> distinct (map fst (m_objects st))"

interpretation mem_pages: paged_store "mem_ops etag_of parse_date" mem_listable mem_matching mem_pos
  for etag_of :: "bytes \<Rightarrow> string" and parse_date :: "string \<Rightarrow> (string, system_time) result"
proof (standard, goal_cases)
  case (1 s kb pre)
  then show ?case by (simp add: mem_listable_def mem_matching_sorted)
next
  case (2 s kb pre)
  then show ?case by (simp add: mem_pos_def)
next
  case (3 s kb pre cursor n limit)
  then show ?case
    using mem_list_page[of s kb pre cursor n limit] mem_matching_sorted[of s kb pre]
    by (simp add: mem_listable_def mem_ops_def)
qed

lemma mem_matching_set:
  "set (mem_matching st kb pre) = mem_listed ` {x \<in> set (m_objects st). mem_selected (kb_str kb) pre x}"
  by (simp add: mem_matching_def)

section \<open>Properties\<close>

text \<open>
  C15: Reads see the last write.  After a put that succeeds, a read of the whole object returns
  exactly the bytes written with the tag the put reported, every other object of every knowledge
  base is untouched, and the put had met its preconditions; after one that fails nothing changed.
\<close>

theorem storage_put_get:
  assumes "mem_inv etag_of st" "mem_put_object etag_of st kb path b ct c = (res, st')"
  shows "(case res of
      Inr out \<Rightarrow>
        mem_inv etag_of st'
        \<and> (\<exists>m. mem_get_object pd st' kb path None no_conditions = Inr \<lparr>or_bytes = b, or_meta = m, or_content_range = None\<rparr>
             \<and> om_etag m = po_etag out \<and> om_content_type m = ct)
        \<and> (\<forall>k. k \<noteq> obj_key kb path \<longrightarrow> mem_contents st' k = mem_contents st k)
        \<and> (po_created out \<longleftrightarrow> mem_contents st (obj_key kb path) = None)
        \<and> evaluate_write_preconditions (map_option stored_state (mem_contents st (obj_key kb path))) c = Inr ()
    | Inl e \<Rightarrow> st' = st)"
proof (cases res)
  case (Inl e)
  then show ?thesis using assms(2) mem_error_unchanged by simp
next
  case (Inr out)
  note put = mem_put_Inr[OF assms(2)[unfolded Inr]]
  have "mem_inv etag_of st'" unfolding put(3) using assms(1) by (intro mem_inv_update) simp_all
  moreover have "mem_ready st' kb" using put(1) unfolding put(3) by (simp add: mem_ready_def)
  ultimately show ?thesis
    using put Inr by (auto simp: mem_get_object_def mem_lookup_def check_reachable_def require_bucket_def
        mem_ready_def resolve_range_def mem_object_meta_def update_conv')
qed

theorem storage_put_get_witness:
  "\<exists>st'. mem_get_object (\<lambda>_. Inr 0) st' (KbSlug ''notes'') (ObjectPath ''a.md'') None no_conditions
     = Inr \<lparr>or_bytes = ''hello'', or_meta = \<lparr>om_key = ''a.md'', om_size = 5, om_last_modified = Some 0,
          om_content_type = None, om_etag = Some (dq @ ''hello'' @ dq)\<rparr>, or_content_range = None\<rparr>"
proof -
  let ?st = "with_kbs [KbSlug ''notes''] 0"
  obtain res st' where put: "mem_put_object (\<lambda>b. dq @ b @ dq) ?st (KbSlug ''notes'') (ObjectPath ''a.md'') ''hello'' None no_conditions = (res, st')"
    by (cases "mem_put_object (\<lambda>b. dq @ b @ dq) ?st (KbSlug ''notes'') (ObjectPath ''a.md'') ''hello'' None no_conditions") auto
  then have st': "st' = ?st\<lparr>m_objects := [((''notes'', ''a.md''), \<lparr>so_bytes = ''hello'', so_content_type = None,
      so_etag = dq @ ''hello'' @ dq, so_last_modified = 0\<rparr>)]\<rparr>" "\<exists>out. res = Inr out"
    by (auto simp: mem_put_object_def with_kbs_def check_reachable_def require_bucket_def Let_def)
  have "mem_inv (\<lambda>b. dq @ b @ dq) ?st" by (rule mem_inv_with_kbs)
  from storage_put_get[OF this put, of "\<lambda>_. Inr 0"] st' show ?thesis
    by (intro exI[of _ st']) (auto simp: mem_get_object_def mem_lookup_def check_reachable_def
        require_bucket_def resolve_range_def mem_object_meta_def with_kbs_def unix_seconds_i64_def unix_seconds_def)
qed

end
