(* ===== verification/Api_Listing.thy ===== *)
theory Api_Listing
  imports Access Mem_Storage
begin

text \<open>
  Authorization and listing of the HTTP API (\<^verbatim>\<open>notedthat-api-http/src/authz.rs\<close>, \<^verbatim>\<open>router/kbs.rs\<close>,
  \<^verbatim>\<open>router/helpers.rs\<close>, \<^verbatim>\<open>error.rs\<close>) and the shared directory rollup (\<^verbatim>\<open>notedthat-core/src/listing.rs\<close>):
  resolving a knowledge base, the answers to callers without a grant, the list of visible knowledge
  bases, and the object listing that refills a filtered page across backend pages.

  The filtered listing is proved in the context of the two contracts it relies on, \<open>paged_store\<close>
  and \<open>key_predicate\<close>: its pages are exact, so following the cursors yields every visible row once.
\<close>

section \<open>Errors of the HTTP layer\<close>

datatype api_error =
    Unauthorized
  | Forbidden
  | Api_BackpressureUpsert
  | Api_BackpressureTombstone
  | Api_EventPublishFailed write_effect
  | ReconcileInProgress
  | ReconcileUnsupported
  | EventsGone u64 u64
  | EventsUnavailable string
  | Api_Core error
  | Api_PreconditionRequired string
  | LineRangeNotSatisfiable u64 u64
  | Api_ReplaceNoMatch
  | Api_ReplaceAmbiguous u64

definition bucket_not_found :: "string \<Rightarrow> api_error" where
  "bucket_not_found bucket = Api_Core (NotFound ''knowledge base storage'')"

fun api_error_of_core :: "error \<Rightarrow> api_error" where
  "api_error_of_core (Storage (SE_BucketNotFound bucket)) = bucket_not_found bucket"
| "api_error_of_core other = Api_Core other"

definition api_error_of_storage :: "storage_error \<Rightarrow> api_error" where
  "api_error_of_storage e = api_error_of_core (Storage e)"

definition kb_not_found :: "string \<Rightarrow> api_error" where
  "kb_not_found slug = Api_Core (NotFound (''KB '' @ sq @ slug @ sq @ '' not declared''))"

definition parse_path :: "string \<Rightarrow> (api_error, object_path) result" where
  "parse_path raw = map_err Api_Core (try_object_key raw)"

section \<open>Access to a knowledge base\<close>

record kb_details =
  display_name :: string
  description :: "string option"

record app_state =
  declared_kbs :: "(string \<times> kb_slug) list"
  access_policies :: "string \<rightharpoonup> access_policy"
  kb_details_of :: "string \<rightharpoonup> kb_details"

record kb_access =
  ka_kb :: kb_slug
  ka_principal :: principal
  ka_policy :: access_policy

definition lookup_kb :: "app_state \<Rightarrow> string \<Rightarrow> (api_error, kb_slug) result" where
  "lookup_kb state slug = ok_or (kb_not_found slug) (map_of (declared_kbs state) slug)"

definition resolve :: "app_state \<Rightarrow> string \<Rightarrow> principal \<Rightarrow> (api_error, kb_access) result" where
  "resolve state slug p =
     res_bind (lookup_kb state slug) (\<lambda>kb.
       let policy = (case access_policies state slug of Some pol \<Rightarrow> pol | None \<Rightarrow> policy_empty) in
       Inr \<lparr>ka_kb = kb, ka_principal = p, ka_policy = policy\<rparr>)"

definition denial :: "kb_access \<Rightarrow> api_error" where
  "denial access =
     (case ka_principal access of
        PAnyone \<Rightarrow> kb_not_found (kb_str (ka_kb access))
      | PSignedIn _ \<Rightarrow> Forbidden)"

definition require :: "kb_access \<Rightarrow> verb \<Rightarrow> string \<Rightarrow> (api_error, unit) result" where
  "require access v key =
     (if policy_allows (ka_policy access) (ka_principal access) v key then Inr () else Inl (denial access))"

definition require_any :: "kb_access \<Rightarrow> verb \<Rightarrow> (api_error, unit) result" where
  "require_any access v =
     (if grants_any (ka_policy access) (ka_principal access) v then Inr () else Inl (denial access))"

definition require_visible :: "kb_access \<Rightarrow> (api_error, unit) result" where
  "require_visible access =
     (if Access.visible_in_listing (ka_policy access) (ka_principal access) then Inr () else Inl (denial access))"

definition require_service_token :: "kb_access \<Rightarrow> (api_error, unit) result" where
  "require_service_token access =
     (if is_service_token (ka_principal access) then Inr () else Inl (denial access))"

definition access_filter :: "kb_access \<Rightarrow> verb \<Rightarrow> key_filter" where
  "access_filter access v = policy_key_filter (ka_policy access) (ka_principal access) v"

definition kb_visible :: "app_state \<Rightarrow> string \<Rightarrow> principal \<Rightarrow> bool" where
  "kb_visible state slug p =
     (case access_policies state slug of
        Some policy \<Rightarrow> Access.visible_in_listing policy p
      | None \<Rightarrow> Access.visible_in_listing policy_empty p)"

record kb_list_entry =
  le_slug :: string
  le_display_name :: string
  le_description :: "string option"

definition kb_list_entry_new :: "string \<Rightarrow> kb_details option \<Rightarrow> kb_list_entry" where
  "kb_list_entry_new slug details =
     \<lparr>le_slug = slug,
      le_display_name = (case details of None \<Rightarrow> slug | Some d \<Rightarrow> display_name d),
      le_description = (case details of None \<Rightarrow> None | Some d \<Rightarrow> description d)\<rparr>"

definition list_kbs :: "app_state \<Rightarrow> principal \<Rightarrow> (api_error, kb_list_entry list) result" where
  "list_kbs state p =
     (let knowledgebases = map (\<lambda>slug. kb_list_entry_new slug (kb_details_of state slug))
            (filter (\<lambda>slug. kb_visible state slug p) (map fst (declared_kbs state))) in
      if knowledgebases = [] \<and> is_anonymous p then Inl Unauthorized else Inr knowledgebases)"

section \<open>Filtered listing\<close>

datatype scan_scope = From "string option" | Disjoint

definition effective_prefix :: "string option \<Rightarrow> string option \<Rightarrow> scan_scope" where
  "effective_prefix requested hint =
     (case (requested, hint) of
        (None, None) \<Rightarrow> From None
      | (Some pre, None) \<Rightarrow> From (Some pre)
      | (None, Some h) \<Rightarrow> From (Some h)
      | (Some pre, Some h) \<Rightarrow>
          if prefix (h @ ''/'') pre then From (Some pre)
          else if prefix pre h then From (Some h)
          else Disjoint)"

definition LIST_SCAN_PAGE :: nat where
  "LIST_SCAN_PAGE = 1000"

definition LIST_SCAN_MAX_CALLS :: nat where
  "LIST_SCAN_MAX_CALLS = 20"

definition empty_page :: list_response where
  "empty_page = \<lparr>lr_objects = [], lr_truncated = False, lr_next_cursor = None\<rparr>"

text \<open>One backend page: the rows consumed, whether the result is filled, and the rows so far.\<close>

fun scan_page :: "(string \<Rightarrow> bool) \<Rightarrow> nat \<Rightarrow> object_meta list \<Rightarrow> nat \<Rightarrow> object_meta list
    \<Rightarrow> nat \<times> bool \<times> object_meta list" where
  "scan_page allows limit [] consumed objects = (consumed, False, objects)"
| "scan_page allows limit (object # rest) consumed objects =
     (if allows (om_key object) then
        (if limit \<le> length (objects @ [object]) then (consumed + 1, True, objects @ [object])
         else scan_page allows limit rest (consumed + 1) (objects @ [object]))
      else scan_page allows limit rest (consumed + 1) objects)"

primrec scan_loop :: "nat \<Rightarrow> (nat \<Rightarrow> string option \<Rightarrow> (storage_error, list_response) result) \<Rightarrow> (string \<Rightarrow> bool)
    \<Rightarrow> nat \<Rightarrow> string option \<Rightarrow> object_meta list \<Rightarrow> (storage_error, list_response) result" where
  "scan_loop 0 list_page allows limit page_cursor objects =
     Inr \<lparr>lr_objects = objects, lr_truncated = True, lr_next_cursor = page_cursor\<rparr>"
| "scan_loop (Suc calls) list_page allows limit page_cursor objects0 =
     res_bind (list_page LIST_SCAN_PAGE page_cursor) (\<lambda>page.
       let (consumed, filled, objects) = scan_page allows limit (lr_objects page) 0 objects0 in
       if filled then
         (if consumed < length (lr_objects page) then
            res_bind (list_page consumed page_cursor) (\<lambda>exact.
              Inr \<lparr>lr_objects = objects, lr_truncated = lr_truncated exact, lr_next_cursor = lr_next_cursor exact\<rparr>)
          else Inr \<lparr>lr_objects = objects, lr_truncated = lr_truncated page, lr_next_cursor = lr_next_cursor page\<rparr>)
       else case lr_next_cursor page of
         None \<Rightarrow> Inr \<lparr>lr_objects = objects, lr_truncated = False, lr_next_cursor = None\<rparr>
       | Some next_cursor \<Rightarrow>
           if page_cursor = Some next_cursor then
             Inl (SE_BackendUnavailable ''storage returned a non-advancing cursor'')
           else scan_loop calls list_page allows limit (Some next_cursor) objects)"

definition list_filtered_objects ::
    "'s storage_ops \<Rightarrow> 's \<Rightarrow> kb_slug \<Rightarrow> string option \<Rightarrow> nat \<Rightarrow> string option \<Rightarrow> key_filter
     \<Rightarrow> (storage_error, list_response) result" where
  "list_filtered_objects ops s kb pre limit cursor f =
     (if is_allow_all f then op_list ops s kb pre limit cursor
      else if is_deny_all f then Inr empty_page
      else case effective_prefix pre (literal_prefix_hint f) of
        Disjoint \<Rightarrow> Inr empty_page
      | From scan_prefix \<Rightarrow>
          scan_loop LIST_SCAN_MAX_CALLS (\<lambda>n c. op_list ops s kb scan_prefix n c) (filter_allows f) limit cursor [])"

definition api_list_objects ::
    "'s storage_ops \<Rightarrow> 's \<Rightarrow> kb_access \<Rightarrow> string option \<Rightarrow> nat option \<Rightarrow> string option
     \<Rightarrow> (api_error, list_response) result" where
  "api_list_objects ops s access pre q_limit cursor =
     res_bind (require_any access List) (\<lambda>_.
       let limit = min (case q_limit of Some n \<Rightarrow> if 0 < n then n else 100 | None \<Rightarrow> 100) 1000 in
       map_err api_error_of_storage
         (list_filtered_objects ops s (ka_kb access) pre limit cursor (access_filter access List)))"

section \<open>Directory rollup\<close>

record rollup =
  folders :: "string set"
  files :: "string \<rightharpoonup> object_meta"

definition rollup_is_empty :: "rollup \<Rightarrow> bool" where
  "rollup_is_empty r \<longleftrightarrow> folders r = {} \<and> files r = Map.empty"

definition roll_up_step :: "string \<Rightarrow> rollup \<Rightarrow> object_meta \<Rightarrow> rollup" where
  "roll_up_step pre r meta =
     (case strip_prefix pre (om_key meta) of
        None \<Rightarrow> r
      | Some relative \<Rightarrow>
          if relative = [] then r
          else case split_once CHR ''/'' relative of
            Some (folder, _) \<Rightarrow> r\<lparr>folders := insert folder (folders r)\<rparr>
          | None \<Rightarrow> r\<lparr>files := (files r)(relative \<mapsto> meta)\<rparr>)"

definition roll_up :: "object_meta list \<Rightarrow> string \<Rightarrow> rollup" where
  "roll_up objects pre = foldl (roll_up_step pre) \<lparr>folders = {}, files = Map.empty\<rparr> objects"

section \<open>Exactness of filtered pages\<close>

lemma scan_page_spec:
  assumes "scan_page allows limit rows c0 objs = (c, filled, objs')" "length objs < limit"
  shows "\<exists>k\<le>length rows. c = c0 + k \<and> objs' = objs @ filter (\<lambda>obj. allows (om_key obj)) (take k rows)
    \<and> length objs' \<le> limit \<and> (if filled then 0 < k else k = length rows \<and> length objs' < limit)"
  using assms
proof (induction rows arbitrary: c0 objs)
  case (Cons row rows)
  show ?case
  proof (cases "allows (om_key row) \<and> limit \<le> Suc (length objs)")
    case True
    then show ?thesis using Cons.prems by (auto intro!: exI[of _ 1])
  next
    case False
    define objs1 where "objs1 = (if allows (om_key row) then objs @ [row] else objs)"
    have "scan_page allows limit rows (c0 + 1) objs1 = (c, filled, objs')" "length objs1 < limit"
      using False Cons.prems by (auto simp: objs1_def)
    from Cons.IH[OF this] obtain k where "k \<le> length rows" "c = c0 + 1 + k"
      "objs' = objs1 @ filter (\<lambda>obj. allows (om_key obj)) (take k rows)" "length objs' \<le> limit"
      "if filled then 0 < k else k = length rows \<and> length objs' < limit" by auto
    then show ?thesis by (intro exI[of _ "Suc k"]) (auto simp: objs1_def)
  qed
qed simp

locale filtered_listing = paged_store ops ready listing pos
  for ops :: "'s storage_ops" and ready listing pos
begin

abbreviation visible :: "(string \<Rightarrow> bool) \<Rightarrow> object_meta list \<Rightarrow> object_meta list" where
  "visible allows rows \<equiv> filter (\<lambda>obj. allows (om_key obj)) rows"

text \<open>
  A response is exact from position \<open>n\<close> when it holds the visible rows of a stretch of the listing
  that starts at \<open>n\<close>, and its cursor stands for the end of that stretch.
\<close>

definition exact_from :: "'s \<Rightarrow> kb_slug \<Rightarrow> string option \<Rightarrow> (string \<Rightarrow> bool) \<Rightarrow> nat \<Rightarrow> object_meta list
    \<Rightarrow> list_response \<Rightarrow> bool" where
  "exact_from s kb pre allows n objs lr \<longleftrightarrow>
     (\<exists>m\<ge>n. lr_objects lr = objs @ visible allows (take (m - n) (drop n (listing s kb pre)))
        \<and> (if lr_truncated lr then pos s kb pre (lr_next_cursor lr) = Some m
           else length (listing s kb pre) \<le> m \<and> lr_next_cursor lr = None))"

lemma exact_from_step:
  assumes "exact_from s kb pre allows (n + k) (objs @ visible allows (take k (drop n (listing s kb pre)))) lr"
  shows "exact_from s kb pre allows n objs lr"
proof -
  let ?L = "listing s kb pre"
  obtain m where m: "n + k \<le> m"
    "lr_objects lr = objs @ visible allows (take k (drop n ?L)) @ visible allows (take (m - (n + k)) (drop (n + k) ?L))"
    "if lr_truncated lr then pos s kb pre (lr_next_cursor lr) = Some m
     else length ?L \<le> m \<and> lr_next_cursor lr = None"
    using assms by (auto simp: exact_from_def)
  have "m - n = k + (m - (n + k))" using m(1) by simp
  then have "take (m - n) (drop n ?L) = take k (drop n ?L) @ take (m - (n + k)) (drop (n + k) ?L)"
    by (simp add: take_add add.commute)
  then show ?thesis using m by (auto simp: exact_from_def intro!: exI[of _ m])
qed

lemma scan_loop_exact:
  assumes "ready s kb" "0 < limit"
  shows "\<lbrakk>pos s kb pre cursor = Some n; length objs < limit\<rbrakk> \<Longrightarrow>
    \<exists>lr. scan_loop calls (\<lambda>k c. op_list ops s kb pre k c) allows limit cursor objs = Inr lr
      \<and> exact_from s kb pre allows n objs lr \<and> length (lr_objects lr) \<le> limit"
proof (induction calls arbitrary: cursor n objs)
  case 0
  then show ?case by (auto simp: exact_from_def intro!: exI[of _ n])
next
  case (Suc calls)
  define L where "L = listing s kb pre"
  obtain lr where lr: "op_list ops s kb pre 1000 cursor = Inr lr" "lr_objects lr = take 1000 (drop n L)"
    "if n + 1000 < length L
     then lr_truncated lr \<and> (\<exists>c. lr_next_cursor lr = Some c \<and> pos s kb pre (Some c) = Some (n + 1000))
     else \<not> lr_truncated lr \<and> lr_next_cursor lr = None"
    using page[OF assms(1) Suc.prems(1), of 1000, unfolded min.idem] by (auto simp: L_def)
  obtain c filled objs' where scan: "scan_page allows limit (lr_objects lr) 0 objs = (c, filled, objs')"
    by (metis prod_cases3)
  have "\<exists>k\<le>length (lr_objects lr). c = 0 + k \<and> objs' = objs @ filter (\<lambda>obj. allows (om_key obj)) (take k (lr_objects lr))
    \<and> length objs' \<le> limit \<and> (if filled then 0 < k else k = length (lr_objects lr) \<and> length objs' < limit)"
    by (rule scan_page_spec[OF scan Suc.prems(2)])
  then have c: "c \<le> 1000" "c \<le> length L - n" "objs' = objs @ visible allows (take c (drop n L))" "length objs' \<le> limit"
    "if filled then 0 < c else c = min 1000 (length L - n) \<and> length objs' < limit"
    using lr(2) by (auto simp: min_def split: if_splits)
  have stop: "exact_from s kb pre allows n objs \<lparr>lr_objects = objs', lr_truncated = t, lr_next_cursor = nc\<rparr>"
    if "if t then pos s kb pre nc = Some (n + c) else length L \<le> n + c \<and> nc = None" for t nc
    using that c(3) by (auto simp: exact_from_def L_def intro!: exI[of _ "n + c"])
  have loop: "scan_loop (Suc calls) (\<lambda>k c. op_list ops s kb pre k c) allows limit cursor objs =
      (if filled then
         (if c < length (lr_objects lr) then
            res_bind (op_list ops s kb pre c cursor) (\<lambda>exact.
              Inr \<lparr>lr_objects = objs', lr_truncated = lr_truncated exact, lr_next_cursor = lr_next_cursor exact\<rparr>)
          else Inr \<lparr>lr_objects = objs', lr_truncated = lr_truncated lr, lr_next_cursor = lr_next_cursor lr\<rparr>)
       else case lr_next_cursor lr of
         None \<Rightarrow> Inr \<lparr>lr_objects = objs', lr_truncated = False, lr_next_cursor = None\<rparr>
       | Some nc \<Rightarrow>
           if cursor = Some nc then Inl (SE_BackendUnavailable ''storage returned a non-advancing cursor'')
           else scan_loop calls (\<lambda>k c. op_list ops s kb pre k c) allows limit (Some nc) objs')"
    using lr(1) scan by (simp add: LIST_SCAN_PAGE_def)
  show ?case
  proof (cases filled)
    case True
    show ?thesis
    proof (cases "c < length (lr_objects lr)")
      case more: True
      then have "n + c < length L" using lr(2) by (simp add: less_diff_conv)
      moreover have "0 < c" "min c 1000 = c" using c(1,5) True by auto
      ultimately obtain lr2 where "op_list ops s kb pre c cursor = Inr lr2" "lr_truncated lr2"
        "pos s kb pre (lr_next_cursor lr2) = Some (n + c)"
        using page[OF assms(1) Suc.prems(1), of c] by (auto simp: L_def)
      then show ?thesis using loop True more stop[of True] c(4) by auto
    next
      case False
      then have "c = min 1000 (length L - n)" using lr(2) c(1,2) by (auto simp: min_def split: if_splits)
      then have "if lr_truncated lr then pos s kb pre (lr_next_cursor lr) = Some (n + c)
          else length L \<le> n + c \<and> lr_next_cursor lr = None"
        using lr(3) by (auto split: if_splits)
      then show ?thesis using loop True False stop c(4) by auto
    qed
  next
    case False
    then have k: "c = min 1000 (length L - n)" "length objs' < limit" using c(5) by auto
    show ?thesis
    proof (cases "n + 1000 < length L")
      case True
      then obtain nc where nc: "lr_next_cursor lr = Some nc" "pos s kb pre (Some nc) = Some (n + 1000)"
        using lr(3) by auto
      then have "cursor \<noteq> Some nc" using Suc.prems(1) by auto
      then show ?thesis
        using Suc.IH[OF nc(2) k(2)] loop nc(1) False exact_from_step[of s kb pre allows n 1000 objs] c(3) k(1) True
        by (auto simp: L_def min_def)
    next
      case last: False
      then show ?thesis using loop False lr(3) stop[of False None] c(4) k(1) by auto
    qed
  qed
qed

end

interpretation mem_filtered: filtered_listing "mem_ops etag_of parse_date" mem_listable mem_matching mem_pos
  for etag_of :: "bytes \<Rightarrow> string" and parse_date :: "string \<Rightarrow> (string, system_time) result"
  by (intro filtered_listing.intro mem_pages.paged_store_axioms)

section \<open>Narrowing the scan\<close>

lemma mem_matching_prefix:
  "mem_matching st kb (Some q) = filter (\<lambda>obj. prefix q (om_key obj)) (mem_matching st kb None)"
proof -
  have "mem_selected k (Some q) x \<longleftrightarrow> mem_selected k None x \<and> prefix q (snd (fst x))" for k x
    by (cases x rule: mem_listed.cases) auto
  then have "mem_selected k (Some q) = (\<lambda>x. mem_selected k None x \<and> prefix q (snd (fst x)))" for k by blast
  then show ?thesis
    by (simp add: mem_matching_def filter_sort filter_map o_def conj_commute)
qed

lemma prefix_append_cases: "prefix a k \<Longrightarrow> prefix b k \<Longrightarrow> prefix a b \<or> prefix b a"
  using prefix_same_cases by blast

lemma narrowing_sound:
  assumes hint: "\<And>key. allows key \<Longrightarrow> key = h \<or> prefix (h @ ''/'') key"
    and allowed: "allows key"
  shows "case effective_prefix (Some pre) (Some h) of
      From (Some q) \<Rightarrow> prefix pre key \<longleftrightarrow> prefix q key
    | From None \<Rightarrow> False
    | Disjoint \<Rightarrow> \<not> prefix pre key"
proof -
  have key: "key = h \<or> prefix (h @ ''/'') key" "prefix h key" using hint[OF allowed] by (auto dest: append_prefixD)
  consider "prefix (h @ ''/'') pre" | "\<not> prefix (h @ ''/'') pre" "prefix pre h"
    | "\<not> prefix (h @ ''/'') pre" "\<not> prefix pre h" by blast
  then show ?thesis
  proof cases
    case 2
    then show ?thesis using key(2) prefix_order.trans by (auto simp: effective_prefix_def)
  next
    case 3
    have "\<not> prefix pre key"
    proof
      assume p: "prefix pre key"
      then have "prefix (h @ ''/'') key" using key(1) 3 by auto
      then have "prefix pre (h @ ''/'')" using prefix_append_cases[OF p] 3 by blast
      then show False using 3 by (auto simp: prefix_snoc)
    qed
    then show ?thesis using 3 by (simp add: effective_prefix_def)
  qed (simp add: effective_prefix_def)
qed

definition scan_rows :: "mem_storage \<Rightarrow> kb_slug \<Rightarrow> scan_scope \<Rightarrow> object_meta list" where
  "scan_rows st kb scope = (case scope of From q \<Rightarrow> mem_matching st kb q | Disjoint \<Rightarrow> [])"

lemma scan_rows_visible:
  assumes "\<And>h key. hint = Some h \<Longrightarrow> allows key \<Longrightarrow> key = h \<or> prefix (h @ ''/'') key"
  shows "filter (\<lambda>obj. allows (om_key obj)) (scan_rows st kb (effective_prefix pre hint)) =
    filter (\<lambda>obj. allows (om_key obj)) (mem_matching st kb pre)"
proof (cases hint)
  case None
  then show ?thesis by (cases pre) (simp_all add: effective_prefix_def scan_rows_def)
next
  case (Some h)
  note under = assms[OF Some]
  show ?thesis
  proof (cases pre)
    case None
    have "allows key \<Longrightarrow> prefix h key" for key using under append_prefixD by blast
    then show ?thesis using None Some
      by (auto simp: effective_prefix_def scan_rows_def mem_matching_prefix intro: filter_cong)
  next
    case pre: (Some q)
    have "\<And>key. allows key \<Longrightarrow> (case effective_prefix (Some q) (Some h) of
        From (Some q') \<Rightarrow> prefix q key \<longleftrightarrow> prefix q' key | From None \<Rightarrow> False | Disjoint \<Rightarrow> \<not> prefix q key)"
      using narrowing_sound[of allows h] under by blast
    then have narrow: "(case effective_prefix (Some q) (Some h) of
        From (Some q') \<Rightarrow> \<forall>key. allows key \<longrightarrow> prefix q key = prefix q' key
      | From None \<Rightarrow> \<forall>key. \<not> allows key | Disjoint \<Rightarrow> \<forall>key. allows key \<longrightarrow> \<not> prefix q key)"
      by (auto split: scan_scope.splits option.splits)
    show ?thesis
    proof (cases "effective_prefix (Some q) (Some h)")
      case (From x)
      then show ?thesis using narrow Some pre
        by (cases x) (auto simp: scan_rows_def mem_matching_prefix intro!: filter_cong[OF refl])
    next
      case Disjoint
      then have "filter (\<lambda>x. prefix q (om_key x) \<and> allows (om_key x)) (mem_matching st kb None) = []"
        using narrow by (auto simp: filter_empty_conv)
      then show ?thesis using Disjoint Some pre by (simp add: scan_rows_def mem_matching_prefix)
    qed
  qed
qed

lemma key_filter_hint_all:
  assumes "wf_policy policy" "p \<noteq> service_token" "f = policy_key_filter policy p v"
    and "literal_prefix_hint f = Some h" "filter_allows f key"
  shows "key = h \<or> prefix (h @ ''/'') key"
proof -
  have "\<not> is_internal_path key" using assms(2,3,5) by (auto simp: filter_allows_def)
  moreover have "wf_filter f" using assms(1,3) by (simp add: policy_key_filter_wf)
  ultimately show ?thesis using filter_hint_sound assms(4,5) by blast
qed

section \<open>Rollup\<close>

lemma roll_up_snoc: "roll_up (objs @ [obj]) pre = roll_up_step pre (roll_up objs pre) obj"
  by (simp add: roll_up_def)

lemma roll_up_folders:
  "folders (roll_up objs pre) = {folder. \<exists>obj\<in>set objs. \<exists>rest. om_key obj = pre @ folder @ ''/'' @ rest \<and> CHR ''/'' \<notin> set folder}"
proof (induction objs rule: rev_induct)
  case (snoc obj objs)
  have "folders (roll_up_step pre r obj) =
      folders r \<union> {folder. \<exists>rest. om_key obj = pre @ folder @ ''/'' @ rest \<and> CHR ''/'' \<notin> set folder}" for r
    by (auto simp: roll_up_step_def strip_prefix_Some_iff strip_prefix_None_iff split_once_Some_iff
        split_once_None_iff prefix_def split: option.splits)
      (metis append_sep_inj option.inject same_append_eq)+
  then show ?case using snoc by (auto simp: roll_up_snoc)
qed (simp add: roll_up_def)

lemma roll_up_files_dom:
  "dom (files (roll_up objs pre)) = {name. name \<noteq> [] \<and> CHR ''/'' \<notin> set name \<and> pre @ name \<in> om_key ` set objs}"
proof (induction objs rule: rev_induct)
  case (snoc obj objs)
  have "dom (files (roll_up_step pre r obj)) =
      dom (files r) \<union> {name. name \<noteq> [] \<and> CHR ''/'' \<notin> set name \<and> om_key obj = pre @ name}" for r
    by (auto simp: roll_up_step_def strip_prefix_Some_iff strip_prefix_None_iff split_once_Some_iff
        split_once_None_iff prefix_def split: option.splits if_splits)
  then show ?case using snoc by (auto simp: roll_up_snoc)
qed (simp add: roll_up_def)

lemma roll_up_files_key:
  "files (roll_up objs pre) name = Some obj \<Longrightarrow> om_key obj = pre @ name \<and> obj \<in> set objs"
proof (induction objs rule: rev_induct)
  case (snoc o' objs)
  then show ?case
    by (auto simp: roll_up_snoc roll_up_step_def strip_prefix_Some_iff split: option.splits if_splits)
qed (simp add: roll_up_def)

section \<open>Properties\<close>

lemma list_filtered_From:
  assumes "p \<noteq> service_token" "f = policy_key_filter policy p v" "\<not> is_deny_all f"
    and "effective_prefix pre (literal_prefix_hint f) = From q"
  shows "list_filtered_objects ops s kb pre limit cursor f =
    scan_loop LIST_SCAN_MAX_CALLS (\<lambda>n c. op_list ops s kb q n c) (filter_allows f) limit cursor []"
  using assms by (simp add: list_filtered_objects_def is_allow_all_def)

text \<open>
  C7: Filtered listing pages are exact.  For every caller but the service token, a page that starts
  at some position of the scanned listing holds exactly the allowed rows of a stretch starting
  there, at most the limit; its cursor resumes at the end of that stretch, so no row is skipped or
  repeated; an unfinished page says so and a finished one has reached the end.  The narrowed scan
  loses nothing: its allowed rows are the allowed rows under the prefix the caller asked for.
\<close>

theorem filtered_listing_exact:
  assumes "wf_policy policy" "p \<noteq> service_token" "f = policy_key_filter policy p v"
    and "mem_inv etag_of st" "mem_ready st kb" "0 < limit"
    and "effective_prefix pre (literal_prefix_hint f) = From q" "mem_pos st kb q cursor = Some n"
  shows "\<exists>lr m. list_filtered_objects (mem_ops etag_of pd) st kb pre limit cursor f = Inr lr \<and> n \<le> m
    \<and> lr_objects lr = filter (\<lambda>obj. filter_allows f (om_key obj)) (take (m - n) (drop n (mem_matching st kb q)))
    \<and> length (lr_objects lr) \<le> limit
    \<and> (if lr_truncated lr then mem_pos st kb q (lr_next_cursor lr) = Some m
       else length (mem_matching st kb q) \<le> m \<and> lr_next_cursor lr = None)
    \<and> filter (\<lambda>obj. filter_allows f (om_key obj)) (mem_matching st kb q)
        = filter (\<lambda>obj. filter_allows f (om_key obj)) (mem_matching st kb pre)"
proof -
  have wf: "wf_filter f" using assms(1,3) by (simp add: policy_key_filter_wf)
  have rows: "filter (\<lambda>obj. filter_allows f (om_key obj)) (mem_matching st kb q)
      = filter (\<lambda>obj. filter_allows f (om_key obj)) (mem_matching st kb pre)"
    using scan_rows_visible[of "literal_prefix_hint f" "filter_allows f" st kb pre]
      key_filter_hint_all[OF assms(1-3)] assms(7) by (simp add: scan_rows_def)
  show ?thesis
  proof (cases "is_deny_all f")
    case True
    then have none: "\<not> filter_allows f key" for key using key_filter.deny_all_sound[OF wf] by blast
    have "list_filtered_objects (mem_ops etag_of pd) st kb pre limit cursor f = Inr empty_page"
      using True assms(2,3) by (simp add: list_filtered_objects_def is_allow_all_def)
    then show ?thesis using none rows
      by (intro exI[of _ empty_page] exI[of _ "max n (length (mem_matching st kb q))"]) (simp add: empty_page_def)
  next
    case False
    have ready: "mem_listable st kb" using assms(4,5) by (simp add: mem_inv_def mem_listable_def)
    obtain lr where scan: "scan_loop LIST_SCAN_MAX_CALLS (\<lambda>k c. op_list (mem_ops etag_of pd) st kb q k c)
        (filter_allows f) limit cursor [] = Inr lr"
      and exact: "mem_filtered.exact_from st kb q (filter_allows f) n [] lr" "length (lr_objects lr) \<le> limit"
      using mem_filtered.scan_loop_exact[OF ready assms(6,8), of "[]" LIST_SCAN_MAX_CALLS etag_of pd "filter_allows f"]
        assms(6) by auto
    obtain m where "n \<le> m"
      "lr_objects lr = filter (\<lambda>obj. filter_allows f (om_key obj)) (take (m - n) (drop n (mem_matching st kb q)))"
      "if lr_truncated lr then mem_pos st kb q (lr_next_cursor lr) = Some m
       else length (mem_matching st kb q) \<le> m \<and> lr_next_cursor lr = None"
      using exact(1) by (auto simp: mem_filtered.exact_from_def)
    then show ?thesis
      unfolding list_filtered_From[OF assms(2,3) False assms(7)]
      using scan exact(2) rows by (intro exI[of _ lr] exI[of _ m]) simp
  qed
qed

theorem filtered_listing_exact_witness:
  "\<exists>lr. list_filtered_objects (mem_ops (\<lambda>b. b) (\<lambda>_. Inr 0)) (with_kbs [KbSlug ''notes''] 0) (KbSlug ''notes'') None 10 None
      (policy_key_filter [rule_new WAnyone {List}] PAnyone List) = Inr lr \<and> lr_objects lr = []"
proof -
  let ?st = "with_kbs [KbSlug ''notes''] 0" and ?f = "policy_key_filter [rule_new WAnyone {List}] PAnyone List"
  have "mem_ready ?st (KbSlug ''notes'')" by (simp add: mem_ready_def with_kbs_def)
  moreover have "effective_prefix None (literal_prefix_hint ?f) = From None" by code_simp
  moreover have "mem_pos ?st (KbSlug ''notes'') None None = Some 0" by (simp add: mem_pos_def)
  moreover have "mem_matching ?st (KbSlug ''notes'') None = []" by (simp add: mem_matching_def with_kbs_def)
  ultimately show ?thesis
    using filtered_listing_exact[OF wf_policy_demo(1) _ refl mem_inv_with_kbs, of PAnyone "[KbSlug ''notes'']" 0 "KbSlug ''notes''" 10
        None WAnyone "{List}" List None None 0 "\<lambda>b. b" "\<lambda>_. Inr 0"]
    by (auto simp: service_token_def)
qed

text \<open>
  C33: A knowledge base an anonymous caller holds no grant in is indistinguishable from one that is
  not declared: resolving it and asking for any verb on any key answers the same error, body
  included, and it is absent from the list of knowledge bases.
\<close>

theorem anonymous_concealment:
  assumes "map_of (declared_kbs state) slug = Some (KbSlug slug)" "map_of (declared_kbs state') slug = None"
    and "access_policies state slug = Some policy" "wf_policy policy" "\<not> Access.visible_in_listing policy PAnyone"
  shows "res_bind (resolve state slug PAnyone) (\<lambda>a. require a v key)
      = res_bind (resolve state' slug PAnyone) (\<lambda>a. require a v key)
    \<and> res_bind (resolve state slug PAnyone) (\<lambda>a. require_any a v)
      = res_bind (resolve state' slug PAnyone) (\<lambda>a. require_any a v)
    \<and> (\<forall>entries. list_kbs state PAnyone = Inr entries \<longrightarrow> slug \<notin> le_slug ` set entries)"
proof -
  have "\<not> policy_allows policy PAnyone v key" using visible_if_allowed[OF assms(4)] assms(5) by blast
  moreover have "\<not> grants_any policy PAnyone v"
    using assms(5) by (cases v) (auto simp: Access.visible_in_listing_def VERB_ALL_def)
  ultimately show ?thesis
    using assms
    by (auto simp: resolve_def lookup_kb_def require_def require_any_def denial_def list_kbs_def Let_def
        kb_visible_def kb_list_entry_new_def split: if_splits)
qed

theorem anonymous_concealment_witness:
  "res_bind (resolve \<lparr>declared_kbs = [(''hr'', KbSlug ''hr'')], access_policies = [''hr'' \<mapsto> signed_in_full], kb_details_of = Map.empty\<rparr> ''hr'' PAnyone)
       (\<lambda>a. require a Read ''a.md'')
   = Inl (Api_Core (NotFound (''KB '' @ sq @ ''hr'' @ sq @ '' not declared'')))"
proof -
  let ?s = "\<lparr>declared_kbs = [(''hr'', KbSlug ''hr'')], access_policies = [''hr'' \<mapsto> signed_in_full], kb_details_of = Map.empty\<rparr>"
  let ?s' = "\<lparr>declared_kbs = [], access_policies = Map.empty, kb_details_of = Map.empty\<rparr>"
  have "\<not> Access.visible_in_listing signed_in_full PAnyone" by code_simp
  moreover have "wf_policy signed_in_full" by (simp add: signed_in_full_def)
  ultimately show ?thesis
    using anonymous_concealment[of ?s "''hr''" ?s' signed_in_full Read "''a.md''"]
    by (simp add: resolve_def lookup_kb_def kb_not_found_def)
qed

text \<open>
  The rollup is one directory level: its folders are exactly the first segments of keys that
  go deeper below the prefix, its files exactly the keys one segment below it, each with the
  object of that very key.
\<close>

theorem roll_up_exact:
  "folders (roll_up objs pre) = {folder. \<exists>obj\<in>set objs. \<exists>rest. om_key obj = pre @ folder @ ''/'' @ rest \<and> CHR ''/'' \<notin> set folder}
   \<and> dom (files (roll_up objs pre)) = {name. name \<noteq> [] \<and> CHR ''/'' \<notin> set name \<and> pre @ name \<in> om_key ` set objs}
   \<and> ran (files (roll_up objs pre)) \<subseteq> set objs
   \<and> (files (roll_up objs pre) name = Some obj \<longrightarrow> om_key obj = pre @ name)"
  using roll_up_files_key by (auto simp: roll_up_folders roll_up_files_dom ran_def)

theorem roll_up_exact_witness:
  "folders (roll_up [\<lparr>om_key = ''notes/sub/a'', om_size = 1, om_last_modified = None, om_content_type = None, om_etag = None\<rparr>] ''notes/'')
   = {''sub''}"
  using roll_up_exact[of "[\<lparr>om_key = ''notes/sub/a'', om_size = 1, om_last_modified = None, om_content_type = None, om_etag = None\<rparr>]" "''notes/''"]
  by (simp add: roll_up_def roll_up_step_def strip_prefix_def)

text \<open>
  C40: Narrowing drops rows the service token may list.  With a grant scoped to one folder the
  service token is still allowed every key in the internal namespace, but a listing of that
  namespace is answered empty without asking storage, because the hint speaks of the rules only.
\<close>

theorem service_token_listing_gap:
  "\<exists>policy. wf_policy policy
     \<and> filter_allows (policy_key_filter policy service_token List) ''.notedthat/manifest.json''
     \<and> list_filtered_objects ops s kb (Some ''.notedthat/'') limit cursor (policy_key_filter policy service_token List) = Inr empty_page"
proof -
  let ?pat = "\<lparr>source = ''public/**'', alternatives = [[SLiteral ''public'', DoubleStar]]\<rparr>"
  let ?policy = "[rule_under (rule_new WSignedIn {List}) [?pat]]"
  let ?f = "policy_key_filter ?policy service_token List"
  have "pattern_parse ''public/**'' = Inr ?pat" by code_simp
  then have "wf_policy ?policy" by (simp add: wf_policy_def parsed_def rule_under_def rule_new_def)
  moreover have "filter_allows ?f ''.notedthat/manifest.json''" "\<not> is_allow_all ?f" "\<not> is_deny_all ?f"
    "effective_prefix (Some ''.notedthat/'') (literal_prefix_hint ?f) = Disjoint" by code_simp+
  ultimately show ?thesis by (intro exI[of _ ?policy]) (simp add: list_filtered_objects_def)
qed

end
