(* ===== verification/Patch.thy ===== *)
theory Patch
  imports Conditionals Errors
begin

text \<open>
  The byte transformations of in-place rewrites (\<^verbatim>\<open>notedthat-write\<close>: \<^verbatim>\<open>error.rs\<close>, \<^verbatim>\<open>patch.rs\<close>, \<^verbatim>\<open>replace.rs\<close>):
  splicing a byte range, a line range or an append, and replacing an exact substring.  A \<^verbatim>\<open>usize\<close> is 64 bits
  wide, so the conversions between it and \<^verbatim>\<open>u64\<close> never fail.

  Substring search is the \<^verbatim>\<open>memchr\<close> crate's: the parameter \<open>find_iter\<close>, with the hypothesis \<open>leftmost_finder\<close> that it
  reports, from the left, the non-overlapping occurrences.
\<close>

section \<open>Errors of the write path\<close>

datatype write_error =
    WE_Storage storage_error
  | WE_TooLarge u64 u64
  | WE_IndexerBackpressureUpsert
  | WE_IndexerBackpressureTombstone
  | WE_EventPublishFailed write_effect
  | WE_PatchTooLarge u64 u64
  | WE_PatchLineOutOfRange u64 u64 u64 u64
  | WE_PreconditionRequired string
  | WE_PatchInvalidRange string
  | WE_InvalidManifest string
  | WE_ReplaceNoMatch
  | WE_ReplaceAmbiguous u64

section \<open>Patching\<close>

datatype patch_mode =
    PM_Bytes byte_range bytes
  | PM_Lines line_range bytes
  | PM_Append bytes

definition require_strong_if_match :: "conditional_headers \<Rightarrow> (write_error, unit) result" where
  "require_strong_if_match c =
     (case if_match c of
        None \<Rightarrow> Inl (WE_PreconditionRequired ''If-Match is required on PATCH (bytes/lines mode) and replace'')
      | Some etag \<Rightarrow>
          if etag = ''*'' \<or> CHR '','' \<in> set etag
          then Inl (WE_PatchInvalidRange ''If-Match: * and multi-value If-Match not supported on PATCH in v1'')
          else Inr ())"

fun validate_caller_if_match :: "patch_mode \<Rightarrow> conditional_headers \<Rightarrow> (write_error, unit) result" where
  "validate_caller_if_match (PM_Bytes _ _) c = require_strong_if_match c"
| "validate_caller_if_match (PM_Lines _ _) c = require_strong_if_match c"
| "validate_caller_if_match (PM_Append _) c =
     (case if_match c of
        Some etag \<Rightarrow>
          if etag = ''*'' \<or> CHR '','' \<in> set etag
          then Inl (WE_PatchInvalidRange ''If-Match: * and multi-value If-Match not supported on PATCH in v1'')
          else Inr ()
      | None \<Rightarrow> Inr ())"

fun line_range_bounds :: "line_range \<Rightarrow> u64 \<times> u64" where
  "line_range_bounds (LFromStart first lst) = (first, lst)"
| "line_range_bounds (LFromStartOpen first) = (first, - 1)"
| "line_range_bounds (LSuffix len) = (0, len)"
| "line_range_bounds (LInsert before) = (before, saturating_sub before 1)"

definition spliced_len :: "u64 \<Rightarrow> u64 \<Rightarrow> nat \<Rightarrow> string \<Rightarrow> (write_error, u64) result" where
  "spliced_len read_len replaced body_len mode =
     ok_or (WE_PatchInvalidRange (mode @ '' splice length overflows u64''))
       (Option.bind (checked_sub read_len replaced) (\<lambda>n. checked_add n (of_nat body_len)))"

fun splice_plan :: "patch_mode \<Rightarrow> bytes \<Rightarrow> u64 \<Rightarrow> (write_error, (u64 \<times> u64) option \<times> u64) result" where
  "splice_plan (PM_Bytes range' body) bytes read_len =
     res_bind (ok_or (WE_PatchInvalidRange (''byte range unsatisfiable at size '' @ show_nat (length bytes)))
                (to_exclusive_range range' read_len)) (\<lambda>br.
     res_bind (spliced_len read_len (snd br - fst br) (length body) ''byte-range'') (\<lambda>new_len.
     Inr (Some br, new_len)))"
| "splice_plan (PM_Lines range' body) bytes read_len =
     (let idx = line_index_from_bytes bytes; (first, lst) = line_range_bounds range' in
      res_bind (ok_or (WE_PatchLineOutOfRange first lst (total_lines idx) (total_bytes idx))
                 (line_byte_range idx range')) (\<lambda>br.
      res_bind (spliced_len read_len (snd br - fst br) (length body) ''line-range'') (\<lambda>new_len.
      Inr (Some br, new_len))))"
| "splice_plan (PM_Append body) bytes read_len =
     res_bind (ok_or (WE_PatchInvalidRange ''append length overflows u64'')
                (checked_add read_len (of_nat (length body)))) (\<lambda>new_len.
     Inr (None, new_len))"

definition splice_bytes :: "bytes \<Rightarrow> nat \<Rightarrow> nat \<Rightarrow> bytes \<Rightarrow> bytes" where
  "splice_bytes src start finish body = take start src @ body @ drop finish src"

definition contradiction :: write_error where
  "contradiction = WE_PatchInvalidRange ''internal patch mode/range contradiction''"

definition apply_patch :: "patch_mode \<Rightarrow> bytes \<Rightarrow> u64 \<Rightarrow> (write_error, bytes) result" where
  "apply_patch mode src mx =
     res_bind (splice_plan mode src (of_nat (length src))) (\<lambda>(byte_range, new_len).
       if new_len > mx then Inl (WE_PatchTooLarge new_len mx)
       else (case (mode, byte_range) of
           (PM_Bytes _ body, Some (s, e)) \<Rightarrow> Inr (splice_bytes src (unat s) (unat e) body)
         | (PM_Lines _ body, Some (s, e)) \<Rightarrow> Inr (splice_bytes src (unat s) (unat e) body)
         | (PM_Append body, None) \<Rightarrow> Inr (src @ body)
         | _ \<Rightarrow> Inl contradiction))"

section \<open>Replacing\<close>

text \<open>\<^verbatim>\<open>match_bound * len\<close> is a \<^verbatim>\<open>usize\<close> product, which wraps in a release build.\<close>

fun splice_matches :: "bytes \<Rightarrow> nat \<Rightarrow> bytes \<Rightarrow> nat list \<Rightarrow> nat \<Rightarrow> bytes \<Rightarrow> bytes" where
  "splice_matches haystack needle_len replacement [] prev_end acc = acc @ drop prev_end haystack"
| "splice_matches haystack needle_len replacement (m # ms) prev_end acc =
     splice_matches haystack needle_len replacement ms (m + needle_len)
       (acc @ take (m - prev_end) (drop prev_end haystack) @ replacement)"

definition splice_replacement ::
    "bytes \<Rightarrow> bytes \<Rightarrow> bytes \<Rightarrow> nat list \<Rightarrow> nat \<Rightarrow> u64 \<Rightarrow> (write_error, bytes) result" where
  "splice_replacement haystack needle replacement matches match_bound max_patchable_size =
     (let replaced_bytes = of_nat match_bound * of_nat (length needle) :: u64;
          added_bytes = of_nat match_bound * of_nat (length replacement) :: u64 in
      res_bind (ok_or (WE_PatchInvalidRange ''replace: length arithmetic overflow'')
                 (Option.bind (checked_sub (of_nat (length haystack)) replaced_bytes) (\<lambda>n. checked_add n added_bytes)))
        (\<lambda>new_len.
           if new_len > max_patchable_size then Inl (WE_PatchTooLarge new_len max_patchable_size)
           else Inr (splice_matches haystack (length needle) replacement (take match_bound matches) 0 [])))"

definition replace_in ::
    "(bytes \<Rightarrow> bytes \<Rightarrow> nat list) \<Rightarrow> bytes \<Rightarrow> bytes \<Rightarrow> bytes \<Rightarrow> bool \<Rightarrow> u64 \<Rightarrow> (write_error, bytes \<times> u64) result" where
  "replace_in find_iter haystack needle replacement replace_all max_patchable_size =
     (let matches = find_iter haystack needle; count = of_nat (length matches) :: u64 in
      if count = 0 then Inl WE_ReplaceNoMatch
      else if 2 \<le> count \<and> \<not> replace_all then Inl (WE_ReplaceAmbiguous count)
      else
        let match_bound = (if replace_all then length matches else 1) in
        res_bind (splice_replacement haystack needle replacement matches match_bound max_patchable_size)
          (\<lambda>new_bytes. Inr (new_bytes, if replace_all then count else 1)))"

section \<open>Reference meaning\<close>

text \<open>The bytes a patch must produce, on lists: no lengths, no machine arithmetic.\<close>

fun patch_ok :: "patch_mode \<Rightarrow> bytes \<Rightarrow> bool" where
  "patch_ok (PM_Bytes r body) src \<longleftrightarrow> (\<exists>i. byte_selected r (length src) i)"
| "patch_ok (PM_Lines r body) src \<longleftrightarrow> line_range_ok r (length (lines_of src))"
| "patch_ok (PM_Append body) src \<longleftrightarrow> True"

fun patched :: "patch_mode \<Rightarrow> bytes \<Rightarrow> bytes" where
  "patched (PM_Bytes r body) src =
     (let sel = filter (byte_selected r (length src)) [0..<length src] in
      take (hd sel) src @ body @ drop (Suc (last sel)) src)"
| "patched (PM_Lines r body) src =
     (let (lo, hi) = line_bounds r (length (lines_of src)) in
      concat (take lo (lines_of src)) @ body @ concat (drop hi (lines_of src)))"
| "patched (PM_Append body) src = src @ body"

lemma filter_interval:
  assumes "s < e" "e \<le> n" "\<And>i. i < n \<Longrightarrow> P i \<longleftrightarrow> s \<le> i \<and> i < e"
  shows "filter P [0..<n] = [s..<e]"
proof -
  have "[0..<n] = [0..<s] @ [s..<n]" "[s..<n] = [s..<e] @ [e..<n]"
    using assms(1,2) upt_add_eq_append[of 0 s "n - s"] upt_add_eq_append[of s e "n - e"] by simp_all
  moreover have "filter P [0..<s] = []" "filter P [s..<e] = [s..<e]" "filter P [e..<n] = []"
    using assms by (auto simp: filter_empty_conv intro!: filter_True)
  ultimately show ?thesis by simp
qed

lemma take_lines: "i \<le> length (lines_of s) \<Longrightarrow> take (lines_len s i) s = concat (take i (lines_of s))"
  by (metis append_take_drop_id append_eq_conv_conj concat_append concat_lines_of)

lemma drop_lines: "drop (lines_len s i) s = concat (drop i (lines_of s))"
  by (metis append_take_drop_id append_eq_conv_conj concat_append concat_lines_of)

lemma patch_body_len:
  assumes "length src < 2 ^ 63" "length body < 2 ^ 63" "a \<le> b" "b \<le> length src"
  shows "spliced_len (of_nat (length src)) (of_nat b - of_nat a) (length body) mode =
    Inr (of_nat (length (take a src @ body @ drop b src)))"
proof -
  have un: "unat (of_nat a :: u64) = a" "unat (of_nat b :: u64) = b" "unat (of_nat (length src) :: u64) = length src"
    "unat (of_nat (length body) :: u64) = length body"
    using assms by (auto intro!: unat_of_nat_u64)
  have diff: "unat (of_nat b - of_nat a :: u64) = b - a" using assms(3) un by (simp add: unat_sub word_le_nat_alt)
  have sub: "checked_sub (of_nat (length src)) (of_nat b - of_nat a) = Some (of_nat (length src - (b - a)) :: u64)"
    using assms(3,4) un diff
    by (auto simp: checked_sub_def word_le_nat_alt of_nat_diff)
  have "unat (of_nat (length src - (b - a)) :: u64) = length src - (b - a)"
    using assms by (intro unat_of_nat_u64) simp
  then have "checked_add (of_nat (length src - (b - a))) (of_nat (length body)) = Some (of_nat (length src - (b - a) + length body) :: u64)"
    using un assms(1,2) by (simp add: checked_add_def)
  moreover have "length src - (b - a) + length body = length (take a src @ body @ drop b src)" using assms(3,4) by simp
  ultimately show ?thesis unfolding spliced_len_def sub by simp
qed

lemma splice_plan_exact:
  assumes "length src < 2 ^ 63" "case mode of PM_Bytes _ b \<Rightarrow> length b < 2 ^ 63 | PM_Lines _ b \<Rightarrow> length b < 2 ^ 63 | PM_Append b \<Rightarrow> length b < 2 ^ 63"
  shows "if patch_ok mode src then
      (case mode of
         PM_Append b \<Rightarrow> splice_plan mode src (of_nat (length src)) = Inr (None, of_nat (length (patched mode src)))
       | PM_Bytes _ body \<Rightarrow> (\<exists>a b. splice_plan mode src (of_nat (length src)) = Inr (Some (of_nat a, of_nat b), of_nat (length (patched mode src)))
           \<and> a \<le> b \<and> b \<le> length src \<and> patched mode src = take a src @ body @ drop b src)
       | PM_Lines _ body \<Rightarrow> (\<exists>a b. splice_plan mode src (of_nat (length src)) = Inr (Some (of_nat a, of_nat b), of_nat (length (patched mode src)))
           \<and> a \<le> b \<and> b \<le> length src \<and> patched mode src = take a src @ body @ drop b src))
    else \<exists>err. splice_plan mode src (of_nat (length src)) = Inl err"
proof (cases mode)
  case (PM_Append b)
  then show ?thesis using assms by (simp add: checked_add_def unat_of_nat_u64)
next
  case (PM_Bytes r body)
  have un: "unat (of_nat (length src) :: u64) = length src" using assms(1) by (rule unat_of_nat_u64)
  show ?thesis
  proof (cases "to_exclusive_range r (of_nat (length src))")
    case None
    then have "\<not> patch_ok mode src" using to_exclusive_range_None[of r "of_nat (length src)"] None un PM_Bytes by auto
    then show ?thesis using None PM_Bytes by simp
  next
    case (Some se)
    obtain s e where se: "se = (s, e)" by fastforce
    note ex = to_exclusive_range_Some[OF Some[unfolded se]]
    have ok: "patch_ok mode src" using ex un PM_Bytes by (auto intro!: exI[of _ "unat s"])
    have "filter (byte_selected r (length src)) [0..<length src] = [unat s..<unat e]"
      using ex un by (intro filter_interval) auto
    then have p: "patched mode src = take (unat s) src @ body @ drop (unat e) src"
      using ex un PM_Bytes by (simp add: Let_def) 
    have plan: "splice_plan mode src (of_nat (length src)) =
        Inr (Some (of_nat (unat s), of_nat (unat e)), of_nat (length (patched mode src)))"
      using Some se PM_Bytes patch_body_len[OF assms(1), of body "unat s" "unat e" "''byte-range''"] assms(2) ex un p by simp
    have "unat s \<le> unat e" "unat e \<le> length src" using ex un by simp_all
    with plan p show ?thesis unfolding if_P[OF ok] unfolding PM_Bytes patch_mode.case by blast
  qed
next
  case (PM_Lines r body)
  let ?n = "length (lines_of src)"
  show ?thesis
  proof (cases "line_range_ok r ?n")
    case False
    then show ?thesis using PM_Lines assms(1) by (simp add: line_byte_range_eq Let_def split: prod.split)
  next
    case True
    obtain lo hi where b: "line_bounds r ?n = (lo, hi)" by fastforce
    have le: "lo \<le> hi" "hi \<le> ?n" using line_bounds_le[OF True] b by auto
    have len: "lines_len src lo \<le> lines_len src hi" "lines_len src hi \<le> length src"
      using length_concat_take_mono[OF le(1)] length_concat_take_mono[OF le(2), of "lines_of src"] by simp_all
    have p: "patched mode src = take (lines_len src lo) src @ body @ drop (lines_len src hi) src"
      using PM_Lines b le by (simp add: take_lines drop_lines)
    have plan: "splice_plan mode src (of_nat (length src)) =
        Inr (Some (of_nat (lines_len src lo), of_nat (lines_len src hi)), of_nat (length (patched mode src)))"
      using PM_Lines True assms b patch_body_len[OF assms(1) _ len, of body "''line-range''"] p
      by (simp add: line_byte_range_eq Let_def split: prod.split)
    have ok: "patch_ok mode src" using True PM_Lines by simp
    from plan p len show ?thesis unfolding if_P[OF ok] unfolding PM_Lines patch_mode.case by blast
  qed
qed

fun patch_body :: "patch_mode \<Rightarrow> bytes" where
  "patch_body (PM_Bytes _ body) = body"
| "patch_body (PM_Lines _ body) = body"
| "patch_body (PM_Append body) = body"

lemma of_nat_greater_u64: "n < 2 ^ 64 \<Longrightarrow> (mx < (of_nat n :: u64)) = (unat mx < n)"
  by (simp add: word_less_nat_alt unat_of_nat take_bit_nat_eq_self)

lemma apply_patch_eq:
  assumes "length src < 2 ^ 63" "length (patch_body mode) < 2 ^ 63" "patch_ok mode src"
  shows "apply_patch mode src mx =
    (if unat mx < length (patched mode src) then Inl (WE_PatchTooLarge (of_nat (length (patched mode src))) mx)
     else Inr (patched mode src))"
proof -
  have body: "case mode of PM_Bytes _ b \<Rightarrow> length b < 2 ^ 63 | PM_Lines _ b \<Rightarrow> length b < 2 ^ 63 | PM_Append b \<Rightarrow> length b < 2 ^ 63"
    using assms(2) by (cases mode) simp_all
  note plan = splice_plan_exact[OF assms(1) body, unfolded if_P[OF assms(3)]]
  have cut: ?thesis if "splice_plan mode src (of_nat (length src)) = Inr (Some (of_nat a, of_nat b), of_nat (length (patched mode src)))"
    "a \<le> b" "b \<le> length src" "patched mode src = take a src @ patch_body mode @ drop b src" "\<nexists>bd. mode = PM_Append bd" for a b
  proof -
    have "length (patched mode src) < 2 ^ 64" using that(2-4) assms(1,2) by simp
    note gt = of_nat_greater_u64[OF this, of mx]
    have un: "unat (of_nat a :: u64) = a" "unat (of_nat b :: u64) = b"
      using that(2,3) assms(1) by (auto intro!: unat_of_nat_u64)
    have sp: "splice_bytes src a b (patch_body mode) = patched mode src" using that(4) by (simp add: splice_bytes_def)
    show ?thesis using that(5) sp gt
      unfolding apply_patch_def that(1) res_bind.simps prod.case gt
      by (cases mode) (simp_all add: un del: patched.simps)
  qed
  show ?thesis
  proof (cases mode)
    case (PM_Append b)
    then have "length (patched mode src) < 2 ^ 64" using assms(1,2) by simp
    note gt = of_nat_greater_u64[OF this, of mx]
    have "splice_plan mode src (of_nat (length src)) = Inr (None, of_nat (length (patched mode src)))"
      using plan PM_Append by simp
    then show ?thesis using gt PM_Append unfolding apply_patch_def by simp
  next
    case (PM_Bytes r b)
    then obtain x y where "splice_plan mode src (of_nat (length src)) = Inr (Some (of_nat x, of_nat y), of_nat (length (patched mode src)))"
      "x \<le> y" "y \<le> length src" "patched mode src = take x src @ b @ drop y src" using plan by auto
    then show ?thesis using cut[of x y] PM_Bytes by simp
  next
    case (PM_Lines r b)
    then obtain x y where "splice_plan mode src (of_nat (length src)) = Inr (Some (of_nat x, of_nat y), of_nat (length (patched mode src)))"
      "x \<le> y" "y \<le> length src" "patched mode src = take x src @ b @ drop y src" using plan by auto
    then show ?thesis using cut[of x y] PM_Lines by simp
  qed
qed

lemma apply_patch_refused:
  assumes "length src < 2 ^ 63" "length (patch_body mode) < 2 ^ 63" "\<not> patch_ok mode src"
  shows "\<exists>e. apply_patch mode src mx = Inl e"
proof -
  have body: "case mode of PM_Bytes _ b \<Rightarrow> length b < 2 ^ 63 | PM_Lines _ b \<Rightarrow> length b < 2 ^ 63 | PM_Append b \<Rightarrow> length b < 2 ^ 63"
    using assms(2) by (cases mode) simp_all
  from splice_plan_exact[OF assms(1) body] show ?thesis using assms(3) by (auto simp: apply_patch_def)
qed

section \<open>Substrings\<close>

text \<open>The non-overlapping occurrences from the left, from offset \<open>i\<close> on.\<close>

function matches_from :: "bytes \<Rightarrow> bytes \<Rightarrow> nat \<Rightarrow> nat list" where
  "matches_from haystack needle i =
     (if needle = [] \<or> length haystack < i + length needle then []
      else if prefix needle (drop i haystack) then i # matches_from haystack needle (i + length needle)
      else matches_from haystack needle (Suc i))"
  by auto
termination
  by (relation "measure (\<lambda>(haystack, needle, i). length haystack - i)") (auto simp flip: length_greater_0_conv)

declare matches_from.simps [simp del]

definition leftmost_finder :: "(bytes \<Rightarrow> bytes \<Rightarrow> nat list) \<Rightarrow> bool" where
  "leftmost_finder find_iter \<longleftrightarrow>
     (\<forall>haystack needle. needle \<noteq> [] \<longrightarrow> find_iter haystack needle = matches_from haystack needle 0)"

text \<open>Replacement by rewriting from the left.\<close>

function replaced :: "bytes \<Rightarrow> bytes \<Rightarrow> bytes \<Rightarrow> bytes" where
  "replaced needle r s =
     (if needle = [] \<or> length s < length needle then s
      else if prefix needle s then r @ replaced needle r (drop (length needle) s)
      else hd s # replaced needle r (tl s))"
  by auto
termination
  by (relation "measure (\<lambda>(needle, r, s). length s)") (auto simp flip: length_greater_0_conv)

declare replaced.simps [simp del]

lemma replaced_short: "length s < length needle \<Longrightarrow> replaced needle r s = s"
  by (simp add: replaced.simps)

lemma splice_matches_replaced:
  assumes "needle \<noteq> []" "prev \<le> i" "i \<le> length h"
  shows "splice_matches h (length needle) r (matches_from h needle i) prev acc =
    acc @ take (i - prev) (drop prev h) @ replaced needle r (drop i h)"
  using assms
proof (induction h needle i arbitrary: prev acc rule: matches_from.induct)
  case (1 h needle i)
  have split: "drop prev h = take (i - prev) (drop prev h) @ drop i h"
    using 1(4) by (metis append_take_drop_id drop_drop le_add_diff_inverse2)
  show ?case
  proof (cases "length h < i + length needle")
    case True
    then have "matches_from h needle i = []" "replaced needle r (drop i h) = drop i h"
      using 1(3,5) by (auto simp: matches_from.simps[of h needle i] intro!: replaced_short)
    then show ?thesis using split by simp
  next
    case long: False
    show ?thesis
    proof (cases "prefix needle (drop i h)")
      case True
      have "matches_from h needle i = i # matches_from h needle (i + length needle)"
        using long True 1(3) by (simp add: matches_from.simps[of h needle i])
      moreover have "replaced needle r (drop i h) = r @ replaced needle r (drop (i + length needle) h)"
        using long True 1(3) by (simp add: replaced.simps[of needle r "drop i h"] add.commute)
      ultimately show ?thesis using 1(1)[of "i + length needle"] long True 1(3) by simp
    next
      case False
      have i: "i < length h" using long 1(3) by (cases needle) auto
      have "matches_from h needle i = matches_from h needle (Suc i)"
        using long False 1(3) by (simp add: matches_from.simps[of h needle i])
      moreover have "replaced needle r (drop i h) = h ! i # replaced needle r (drop (Suc i) h)"
        using long False 1(3) i
        by (simp add: replaced.simps[of needle r "drop i h"] hd_drop_conv_nth tl_drop drop_Suc)
      moreover have "take (Suc i - prev) (drop prev h) = take (i - prev) (drop prev h) @ [h ! i]"
        using i 1(4) by (simp add: Suc_diff_le take_Suc_conv_app_nth)
      ultimately show ?thesis using 1(2)[of prev acc] long False 1(3,4) i by simp
    qed
  qed
qed

lemma replaced_length:
  assumes "needle \<noteq> []" "i \<le> length h"
  shows "i + length (matches_from h needle i) * length needle \<le> length h
    \<and> i + length (replaced needle r (drop i h)) + length (matches_from h needle i) * length needle
      = length h + length (matches_from h needle i) * length r"
  using assms
proof (induction h needle i rule: matches_from.induct)
  case (1 h needle i)
  show ?case
  proof (cases "length h < i + length needle")
    case True
    then have "matches_from h needle i = []" "replaced needle r (drop i h) = drop i h"
      using 1(3,4) by (auto simp: matches_from.simps[of h needle i] intro!: replaced_short)
    then show ?thesis using 1(4) by simp
  next
    case long: False
    show ?thesis
    proof (cases "prefix needle (drop i h)")
      case True
      have "matches_from h needle i = i # matches_from h needle (i + length needle)"
        using long True 1(3) by (simp add: matches_from.simps[of h needle i])
      moreover have "replaced needle r (drop i h) = r @ replaced needle r (drop (i + length needle) h)"
        using long True 1(3) by (simp add: replaced.simps[of needle r "drop i h"] add.commute)
      ultimately show ?thesis using 1(1) long True 1(3) by simp
    next
      case False
      have i: "i < length h" using long 1(3) by (cases needle) auto
      have "matches_from h needle i = matches_from h needle (Suc i)"
        using long False 1(3) by (simp add: matches_from.simps[of h needle i])
      moreover have "replaced needle r (drop i h) = h ! i # replaced needle r (drop (Suc i) h)"
        using long False 1(3) i
        by (simp add: replaced.simps[of needle r "drop i h"] hd_drop_conv_nth tl_drop drop_Suc)
      ultimately show ?thesis using 1(2) long False 1(3) i by simp
    qed
  qed
qed

lemma matches_Nil_iff:
  assumes "needle \<noteq> []" "i \<le> length h"
  shows "matches_from h needle i = [] \<longleftrightarrow> \<not> sublist needle (drop i h)"
  using assms
proof (induction h needle i rule: matches_from.induct)
  case (1 h needle i)
  show ?case
  proof (cases "length h < i + length needle")
    case True
    then have "\<not> sublist needle (drop i h)" using 1(4) by (auto dest: sublist_length_le)
    then show ?thesis using True by (simp add: matches_from.simps[of h needle i])
  next
    case long: False
    have i: "i < length h" using long 1(3) by (cases needle) auto
    then have cons: "sublist needle (drop i h) \<longleftrightarrow> prefix needle (drop i h) \<or> sublist needle (drop (Suc i) h)"
      by (metis Cons_nth_drop_Suc sublist_Cons_right)
    show ?thesis
    proof (cases "prefix needle (drop i h)")
      case True
      then show ?thesis using long 1(3) cons by (simp add: matches_from.simps[of h needle i])
    next
      case False
      then show ?thesis using long 1(3) cons 1(2) i by (simp add: matches_from.simps[of h needle i])
    qed
  qed
qed

section \<open>Properties\<close>

text \<open>
  C24: A patch produces exactly the bytes it describes.  For an object and a body below \<open>2 ^ 63\<close> bytes, a
  byte patch replaces exactly the selected bytes, a line patch exactly the selected lines (or inserts
  before a line), an append adds at the end, and everything else is kept; a range that selects nothing is
  refused, and a result over the limit is refused with its true length.
\<close>

theorem apply_patch_exact:
  assumes "length src < 2 ^ 63" "length (patch_body mode) < 2 ^ 63"
  shows "if \<not> patch_ok mode src then \<exists>e. apply_patch mode src mx = Inl e
    else if unat mx < length (patched mode src)
      then apply_patch mode src mx = Inl (WE_PatchTooLarge (of_nat (length (patched mode src))) mx)
    else apply_patch mode src mx = Inr (patched mode src)"
  using apply_patch_eq[OF assms, of mx] apply_patch_refused[OF assms, of mx] by simp

theorem apply_patch_exact_witness:
  "apply_patch (PM_Lines (LFromStart 2 2) ''X'') [CHR ''a'', CHR 0x0A, CHR ''b'', CHR 0x0A, CHR ''c''] 100
    = Inr [CHR ''a'', CHR 0x0A, CHR ''X'', CHR ''c'']"
proof -
  let ?s = "[CHR ''a'', CHR 0x0A, CHR ''b'', CHR 0x0A, CHR ''c'']"
  have "lines_of ?s = [[CHR ''a'', CHR 0x0A], [CHR ''b'', CHR 0x0A], [CHR ''c'']]" by code_simp
  then show ?thesis
    using apply_patch_exact[of ?s "PM_Lines (LFromStart 2 2) ''X''" 100] by simp
qed

text \<open>
  Replacing is exact.  With a search that reports the non-overlapping occurrences from the left, a
  replacement is refused when the string does not occur, refused as ambiguous with the true count
  when it occurs more than once and only one was asked for, refused when the result is over the limit,
  and otherwise yields the object with every occurrence rewritten from left to right, and the count.
\<close>

theorem replace_in_exact:
  assumes "leftmost_finder find_iter" "needle \<noteq> []" "length h < 2 ^ 63" "length h * length r < 2 ^ 63"
  shows "let k = length (matches_from h needle 0) in
    replace_in find_iter h needle r replace_all mx =
      (if \<not> sublist needle h then Inl WE_ReplaceNoMatch
       else if 2 \<le> k \<and> \<not> replace_all then Inl (WE_ReplaceAmbiguous (of_nat k))
       else if unat mx < length (replaced needle r h)
         then Inl (WE_PatchTooLarge (of_nat (length (replaced needle r h))) mx)
       else Inr (replaced needle r h, of_nat k))"
proof -
  define ms where "ms = matches_from h needle 0"
  define k where "k = length ms"
  have find: "find_iter h needle = ms" using assms(1,2) by (simp add: leftmost_finder_def ms_def)
  have nil: "ms = [] \<longleftrightarrow> \<not> sublist needle h" using matches_Nil_iff[OF assms(2), of 0 h] by (simp add: ms_def)
  have len: "k * length needle \<le> length h" "length (replaced needle r h) + k * length needle = length h + k * length r"
    using replaced_length[OF assms(2), of 0 h r] by (simp_all add: ms_def k_def)
  have "k * 1 \<le> k * length needle" using assms(2) by (intro mult_le_mono2) (simp add: Suc_leI)
  then have kh: "k \<le> length h" using len(1) by linarith
  then have "k * length r \<le> length h * length r" by simp
  then have kr: "k * length r < 2 ^ 63" using assms(4) by linarith
  have un: "unat (of_nat k :: u64) = k" "unat (of_nat (k * length needle) :: u64) = k * length needle"
    "unat (of_nat (k * length r) :: u64) = k * length r" "unat (of_nat (length h) :: u64) = length h"
    using kh kr len(1) assms(3,4) by (auto intro!: unat_of_nat_u64 simp del: of_nat_mult)
  have new: "length (replaced needle r h) = length h - k * length needle + k * length r" using len by simp
  have sub: "checked_sub (of_nat (length h)) (of_nat (k * length needle)) = Some (of_nat (length h - k * length needle) :: u64)"
    using len(1) un by (simp add: checked_sub_def word_le_nat_alt of_nat_diff del: of_nat_mult)
  have "unat (of_nat (length h - k * length needle) :: u64) = length h - k * length needle"
    using assms(3) by (intro unat_of_nat_u64) simp
  then have add: "checked_add (of_nat (length h - k * length needle)) (of_nat (k * length r)) = Some (of_nat (length (replaced needle r h)) :: u64)"
    using kr un(3) assms(3,4) unfolding checked_add_def new by (simp del: of_nat_mult)
  have gt: "(mx < (of_nat (length (replaced needle r h)) :: u64)) = (unat mx < length (replaced needle r h))"
    using kr assms(3,4) new by (intro of_nat_greater_u64) simp
  have splice: "splice_replacement h needle r ms k mx =
      (if unat mx < length (replaced needle r h) then Inl (WE_PatchTooLarge (of_nat (length (replaced needle r h))) mx)
       else Inr (replaced needle r h))"
  proof -
    have "splice_matches h (length needle) r (take k ms) 0 [] = replaced needle r h"
      using splice_matches_replaced[OF assms(2), of 0 0 h r "[]"] by (simp add: k_def ms_def)
    then show ?thesis
      unfolding splice_replacement_def Let_def of_nat_mult[symmetric] sub bind.simps add ok_or.simps res_bind.simps gt
      by (simp only:)
  qed
  have k0: "(of_nat k = (0 :: u64)) \<longleftrightarrow> ms = []" unfolding u64_eq_0_iff un(1) by (simp add: k_def)
  have k2: "(2 \<le> (of_nat k :: u64)) \<longleftrightarrow> 2 \<le> k" unfolding word_le_nat_alt un(1) by simp
  have one: "(if replace_all then k else 1) = k" if "ms \<noteq> []" "\<not> (2 \<le> k \<and> \<not> replace_all)"
    using that unfolding k_def by (cases ms; cases "tl ms") auto
  show ?thesis
    unfolding Let_def replace_in_def find k_def[symmetric] ms_def[symmetric] k0 k2 nil
    using one splice nil by (auto simp: Let_def)
qed

theorem replace_in_exact_witness:
  "replace_in (\<lambda>h n. matches_from h n 0) ''abab'' ''ab'' ''x'' True 10 = Inr (''xx'', 2)"
proof -
  have "leftmost_finder (\<lambda>h n. matches_from h n 0)" by (simp add: leftmost_finder_def)
  moreover have "matches_from ''abab'' ''ab'' 0 = [0, 2]" "replaced ''ab'' ''x'' ''abab'' = ''xx''" "sublist ''ab'' ''abab''"
    by code_simp+
  ultimately show ?thesis
    using replace_in_exact[of "\<lambda>h n. matches_from h n 0" "''ab''" "''abab''" "''x''" True 10] by simp
qed

end
