(* ===== verification/Manifest.thy ===== *)
theory Manifest
  imports Access Patch Slug
begin

text \<open>
  The knowledge-base manifest (\<^verbatim>\<open>notedthat-core/src/kb.rs\<close>) and the check every write path makes of a body
  about to become one (\<^verbatim>\<open>notedthat-write/src/manifest.rs\<close>).  Reading the JSON document is serde's: the
  parameter \<open>from_slice\<close>, a manifest or the parser's message.
\<close>

section \<open>The manifest\<close>

record manifest_embedding =
  me_model :: string
  me_dimensions :: nat
  me_endpoint_url_hint :: "string option"

record kb_manifest =
  notedthat_version :: string
  manifest_version :: nat
  mf_tenant_slug :: tenant_slug
  mf_kb_slug :: kb_slug
  display_name :: string
  description :: "string option"
  created_at :: int
  qdrant_collection :: "string option"
  embedding :: "manifest_embedding option"
  access :: access_policy

definition CURRENT_VERSION :: nat where
  "CURRENT_VERSION = 1"

definition DISPLAY_NAME_MAX_CHARS :: nat where
  "DISPLAY_NAME_MAX_CHARS = 128"

definition DESCRIPTION_MAX_CHARS :: nat where
  "DESCRIPTION_MAX_CHARS = 500"

definition MANIFEST_KEY :: string where
  "MANIFEST_KEY = ''.notedthat/manifest.json''"

text \<open>\<open>pkg_version\<close> is the crate version the build puts in.\<close>

definition manifest_new_v1 :: "string \<Rightarrow> tenant_slug \<Rightarrow> kb_slug \<Rightarrow> string \<Rightarrow> int \<Rightarrow> kb_manifest" where
  "manifest_new_v1 pkg_version tenant kb name created =
     \<lparr>notedthat_version = pkg_version, manifest_version = CURRENT_VERSION, mf_tenant_slug = tenant,
      mf_kb_slug = kb, display_name = name, description = None, created_at = created,
      qdrant_collection = None, embedding = None, access = signed_in_full\<rparr>"

text \<open>\<^verbatim>\<open>char::is_control\<close>: the code points of general category Cc, on their encodings.\<close>

definition is_control :: "string \<Rightarrow> bool" where
  "is_control c \<longleftrightarrow>
     (case map (of_char :: char \<Rightarrow> nat) c of
        [a] \<Rightarrow> a < 32 \<or> a = 127
      | [a, b] \<Rightarrow> a = 194 \<and> 128 \<le> b \<and> b \<le> 159
      | _ \<Rightarrow> False)"

definition validate_manifest_text :: "string \<Rightarrow> string \<Rightarrow> nat \<Rightarrow> (error, unit) result" where
  "validate_manifest_text field value max_chars =
     (if trim value = [] then Inl (InvalidInput (field @ '' must not be blank''))
      else if list_ex is_control (utf8_chars value) then
        Inl (InvalidInput (field @ '' must be a single line without control characters''))
      else if max_chars < length (utf8_chars value) then
        Inl (InvalidInput (field @ '' exceeds '' @ show_nat max_chars @ '' code points''))
      else Inr ())"

definition validate_display_name :: "string \<Rightarrow> (error, unit) result" where
  "validate_display_name name = validate_manifest_text ''display_name'' name DISPLAY_NAME_MAX_CHARS"

definition validate_description :: "string \<Rightarrow> (error, unit) result" where
  "validate_description d = validate_manifest_text ''description'' d DESCRIPTION_MAX_CHARS"

definition manifest_validate :: "kb_manifest \<Rightarrow> (error, unit) result" where
  "manifest_validate m =
     (if manifest_version m \<noteq> CURRENT_VERSION then
        Inl (InvalidInput (''unsupported manifest_version '' @ show_nat (manifest_version m)
               @ ''; expected '' @ show_nat CURRENT_VERSION))
      else
        res_bind (validate_display_name (display_name m)) (\<lambda>_.
        res_bind (case description m of None \<Rightarrow> Inr () | Some d \<Rightarrow> validate_description d) (\<lambda>_.
        policy_validate (access m))))"

section \<open>The check on writes\<close>

definition MANIFEST_MAX_BYTES :: u64 where
  "MANIFEST_MAX_BYTES = 1048576"

definition is_manifest :: "object_path \<Rightarrow> bool" where
  "is_manifest path \<longleftrightarrow> path_str path = MANIFEST_KEY"

definition manifest_check_size :: "u64 \<Rightarrow> (write_error, unit) result" where
  "manifest_check_size sz =
     (if sz > MANIFEST_MAX_BYTES then
        Inl (WE_InvalidManifest (''manifest is '' @ show_u64 sz @ '' bytes; a manifest is at most ''
               @ show_u64 MANIFEST_MAX_BYTES))
      else Inr ())"

fun error_display :: "error \<Rightarrow> string" where
  "error_display (InvalidInput message) = ''invalid input: '' @ message"
| "error_display (NotFound resource) = ''not found: '' @ resource"
| "error_display (PayloadTooLarge sz limit) =
     ''payload too large: '' @ show_u64 sz @ '' bytes (limit '' @ show_u64 limit @ '')''"
| "error_display (BucketNameTooLong name len) =
     ''bucket name too long: '' @ name @ '' ('' @ show_nat len @ '' chars, max 63)''"
| "error_display (Config message) = ''configuration error: '' @ message"
| "error_display (Storage e) = storage_error_display e"
| "error_display (MalformedRange message) = ''malformed range: '' @ message"

definition validate_manifest_bytes ::
    "(bytes \<Rightarrow> (string, kb_manifest) result) \<Rightarrow> kb_slug \<Rightarrow> bytes \<Rightarrow> (write_error, unit) result" where
  "validate_manifest_bytes from_slice kb bytes =
     (case from_slice bytes of
        Inl e \<Rightarrow> Inl (WE_InvalidManifest (''manifest is not a valid manifest document: '' @ e))
      | Inr manifest \<Rightarrow>
          if mf_kb_slug manifest \<noteq> kb then
            Inl (WE_InvalidManifest (''manifest names knowledge base '' @ sq @ kb_str (mf_kb_slug manifest)
                   @ sq @ '' but was written to '' @ sq @ kb_str kb @ sq))
          else map_err (\<lambda>e. WE_InvalidManifest (error_display e)) (manifest_validate manifest))"

definition check_manifest_bytes ::
    "(bytes \<Rightarrow> (string, kb_manifest) result) \<Rightarrow> kb_slug \<Rightarrow> object_path \<Rightarrow> bytes \<Rightarrow> (write_error, unit) result" where
  "check_manifest_bytes from_slice kb path bytes =
     (if \<not> is_manifest path then Inr ()
      else res_bind (manifest_check_size (of_nat (length bytes))) (\<lambda>_.
        validate_manifest_bytes from_slice kb bytes))"

section \<open>Properties\<close>

lemma utf8_chars_drop: "utf8_chars (concat (drop n (utf8_chars s))) = drop n (utf8_chars s)"
proof (induction s arbitrary: n rule: utf8_chars.induct)
  case (2 x xs)
  show ?case
  proof (cases n)
    case 0
    then show ?thesis by (simp only: drop_0 concat_utf8_chars)
  next
    case (Suc m)
    then show ?thesis using 2[of m] by simp
  qed
qed simp

lemma trim_eq_Nil_iff: "trim s = [] \<longleftrightarrow> (\<forall>c\<in>set (utf8_chars s). is_whitespace c)"
proof -
  let ?cs = "dropWhile is_whitespace (utf8_chars s)"
  have chars: "utf8_chars (trim_start s) = ?cs"
    unfolding trim_start_def dropWhile_eq_drop by (rule utf8_chars_drop)
  have ne: "c \<noteq> []" if "c \<in> set (rev (dropWhile is_whitespace (rev ?cs)))" for c
    using that utf8_chars_not_Nil[of c s] by (auto dest!: set_dropWhileD)
  have "trim s = [] \<longleftrightarrow> dropWhile is_whitespace (rev ?cs) = []"
    unfolding trim_def trim_end_def chars using ne by (auto simp: concat_eq_Nil_conv)
  also have "\<dots> \<longleftrightarrow> (\<forall>c\<in>set ?cs. is_whitespace c)" by (simp add: dropWhile_eq_Nil_conv)
  also have "\<dots> \<longleftrightarrow> ?cs = []" 
  proof (cases "?cs = []")
    case False
    then have "hd ?cs \<in> set ?cs" "\<not> is_whitespace (hd ?cs)" using hd_dropWhile hd_in_set by blast+
    then show ?thesis using False by blast
  qed (simp del: dropWhile_eq_Nil_conv)
  finally show ?thesis by (simp add: dropWhile_eq_Nil_conv)
qed

lemma validate_manifest_text_iff:
  "validate_manifest_text field value n = Inr u \<longleftrightarrow>
     (\<exists>c\<in>set (utf8_chars value). \<not> is_whitespace c) \<and> (\<forall>c\<in>set (utf8_chars value). \<not> is_control c)
     \<and> length (utf8_chars value) \<le> n"
  by (auto simp: validate_manifest_text_def trim_eq_Nil_iff list_ex_iff)

lemma finite_verbs [simp]: "finite (V :: verb set)"
proof -
  have "UNIV = set VERB_ALL" using verb.exhaust by (auto simp: VERB_ALL_def)
  then show ?thesis by (metis List.finite_set rev_finite_subset subset_UNIV)
qed

lemma find_SomeD: "find P xs = Some x \<Longrightarrow> x \<in> set xs \<and> P x"
  by (induction xs) (auto split: if_splits)

lemma validate_rule_iff:
  "validate_rule rule = Inr u \<longleftrightarrow> verbs rule \<noteq> {} \<and> under rule \<noteq> []
     \<and> (rule_who rule = WAnyone \<longrightarrow> (\<forall>v\<in>verbs rule. \<not> is_mutating v))
     \<and> (\<forall>pat\<in>set (under rule). literal_prefix pat \<noteq> Some ''.notedthat'')"
  by (auto simp: validate_rule_def find_None_iff dest: find_SomeD split: option.splits if_splits)

text \<open>
  What may become a manifest is exactly a manifest startup accepts: a body stored under the manifest
  key is at most one mebibyte and parses, names the knowledge base it is written to, has the
  supported version, a display name and description that are not blank, hold no control character and fit their
  limits in code points, and access rules that each name a verb and a scope, never give
  \<open>anyone\<close> a mutating verb and never point into the internal namespace.  Any other key is not checked.
\<close>

theorem manifest_check_exact:
  assumes "length bytes < 2 ^ 64"
  shows "check_manifest_bytes from_slice kb path bytes = Inr () \<longleftrightarrow>
    (path_str path = ''.notedthat/manifest.json'' \<longrightarrow>
      length bytes \<le> 1048576 \<and>
      (\<exists>m. from_slice bytes = Inr m \<and> mf_kb_slug m = kb \<and> manifest_version m = 1
        \<and> (\<forall>(text, n) \<in> {(display_name m, 128)} \<union> {(d, 500) |d. description m = Some d}.
              (\<exists>c\<in>set (utf8_chars text). \<not> is_whitespace c) \<and> (\<forall>c\<in>set (utf8_chars text). \<not> is_control c)
              \<and> length (utf8_chars text) \<le> n)
        \<and> (\<forall>rule\<in>set (access m). verbs rule \<noteq> {} \<and> under rule \<noteq> []
              \<and> (rule_who rule = WAnyone \<longrightarrow> (\<forall>v\<in>verbs rule. \<not> is_mutating v))
              \<and> (\<forall>pat\<in>set (under rule). literal_prefix pat \<noteq> Some ''.notedthat''))))"
proof -
  have sz: "manifest_check_size (of_nat (length bytes)) = Inr u \<longleftrightarrow> length bytes \<le> 1048576" for u
    using assms by (auto simp: manifest_check_size_def MANIFEST_MAX_BYTES_def word_less_nat_alt unat_of_nat take_bit_nat_eq_self)
  have val: "manifest_validate m = Inr u \<longleftrightarrow> manifest_version m = 1
      \<and> (\<forall>(text, n) \<in> {(display_name m, 128)} \<union> {(d, 500) |d. description m = Some d}.
            (\<exists>c\<in>set (utf8_chars text). \<not> is_whitespace c) \<and> (\<forall>c\<in>set (utf8_chars text). \<not> is_control c)
            \<and> length (utf8_chars text) \<le> n)
      \<and> (\<forall>rule\<in>set (access m). validate_rule rule = Inr ())" for m u
    by (auto simp: manifest_validate_def CURRENT_VERSION_def result_simps validate_display_name_def validate_description_def
        validate_manifest_text_iff DISPLAY_NAME_MAX_CHARS_def DESCRIPTION_MAX_CHARS_def policy_validate_def split: option.splits)
  show ?thesis
    unfolding check_manifest_bytes_def is_manifest_def MANIFEST_KEY_def
    by (auto simp: result_simps sz validate_manifest_bytes_def val validate_rule_iff split: sum.splits)
qed

theorem manifest_check_exact_witness:
  "check_manifest_bytes (\<lambda>_. Inr (manifest_new_v1 ''1.0'' tenant_default (KbSlug ''notes'') ''notes'' 0))
     (KbSlug ''notes'') (ObjectPath ''.notedthat/manifest.json'') ''m'' = Inr ()"
proof -
  let ?m = "manifest_new_v1 ''1.0'' tenant_default (KbSlug ''notes'') ''notes'' 0"
  have "utf8_chars ''notes'' = [''n'', ''o'', ''t'', ''e'', ''s'']" by code_simp
  moreover have "under (rule_new WSignedIn (set VERB_ALL)) \<noteq> []"
    "\<forall>pat\<in>set (under (rule_new WSignedIn (set VERB_ALL))). literal_prefix pat \<noteq> Some ''.notedthat''"
    "verbs (rule_new WSignedIn (set VERB_ALL)) \<noteq> {}" "rule_who (rule_new WSignedIn (set VERB_ALL)) \<noteq> WAnyone" by code_simp+
  ultimately show ?thesis
    using manifest_check_exact[of "''m''" "\<lambda>_. Inr ?m" "KbSlug ''notes''" "ObjectPath ''.notedthat/manifest.json''"]
    by (simp add: manifest_new_v1_def CURRENT_VERSION_def signed_in_full_def is_whitespace_def is_control_def del: utf8_chars.simps)
qed

end
