(* ===== verification/Staging.thy ===== *)
theory Staging
  imports Ranges
begin

text \<open>
  Body staging (\<^verbatim>\<open>notedthat-core/src/staging.rs\<close>, \<^verbatim>\<open>staging/config.rs\<close>): a stream of byte chunks is collected
  in memory up to a threshold and in a private file beyond it, with its declared and maximum lengths
  checked on 64-bit counters.

  The disk is a parameter: whether the private file can be created, whether the \<open>n\<close>-th write succeeds,
  and whether the final flush and sync do.
\<close>

section \<open>Data\<close>

datatype 'e stage_error =
    Stage_TooLarge u64 u64
  | Stage_LengthMismatch u64 u64
  | Stage_Read 'e
  | Stage_Write
  | Stage_Config

record 'e disk =
  dk_create :: "'e stage_error option"
  dk_write :: "nat \<Rightarrow> bool"
  dk_sync :: bool

datatype staged_body_storage = Memory string | File string

record staged_body =
  sb_storage :: staged_body_storage
  sb_len :: u64

definition MEMORY_THRESHOLD :: nat where
  "MEMORY_THRESHOLD = 16 * 1024 * 1024"

text \<open>The locals of the staging loop; \<open>sl_writes\<close> counts the writes made to the file so far.\<close>

record stage_locals =
  sl_memory :: string
  sl_file :: "string option"
  sl_len :: u64
  sl_writes :: nat

section \<open>Operations\<close>

definition staged_from_bytes :: "string \<Rightarrow> staged_body" where
  "staged_from_bytes bytes = \<lparr>sb_storage = Memory bytes, sb_len = of_nat (length bytes)\<rparr>"

definition create_private_file :: "'e disk \<Rightarrow> ('e stage_error, string) result" where
  "create_private_file dk = (case dk_create dk of Some e \<Rightarrow> Inl e | None \<Rightarrow> Inr [])"

definition write_file :: "'e disk \<Rightarrow> string \<Rightarrow> stage_locals \<Rightarrow> ('e stage_error, stage_locals) result" where
  "write_file dk bytes st =
     (if dk_write dk (sl_writes st)
      then Inr (st\<lparr>sl_file := map_option (\<lambda>f. f @ bytes) (sl_file st), sl_writes := sl_writes st + 1\<rparr>)
      else Inl Stage_Write)"

text \<open>Move to a file when the next chunk would push the buffer past the threshold.\<close>

definition spill :: "'e disk \<Rightarrow> string \<Rightarrow> stage_locals \<Rightarrow> ('e stage_error, stage_locals) result" where
  "spill dk chunk st =
     (if sl_file st = None \<and> MEMORY_THRESHOLD < length (sl_memory st) + length chunk then
        res_bind (create_private_file dk) (\<lambda>f.
        res_map (\<lambda>st'. st'\<lparr>sl_memory := []\<rparr>) (write_file dk (sl_memory st) (st\<lparr>sl_file := Some f\<rparr>)))
      else Inr st)"

definition stage_chunk :: "'e disk \<Rightarrow> u64 \<Rightarrow> string \<Rightarrow> stage_locals \<Rightarrow> ('e stage_error, stage_locals) result" where
  "stage_chunk dk limit chunk st =
     (case checked_add (sl_len st) (of_nat (length chunk)) of
        None \<Rightarrow> Inl (Stage_TooLarge (- 1) limit)
      | Some len \<Rightarrow>
          if limit < len then Inl (Stage_TooLarge len limit)
          else
            res_bind (spill dk chunk (st\<lparr>sl_len := len\<rparr>)) (\<lambda>st1.
            case sl_file st1 of
              Some _ \<Rightarrow> write_file dk chunk st1
            | None \<Rightarrow> Inr (st1\<lparr>sl_memory := sl_memory st1 @ chunk\<rparr>)))"

fun stage_loop :: "'e disk \<Rightarrow> u64 \<Rightarrow> ('e, string) result list \<Rightarrow> stage_locals \<Rightarrow> ('e stage_error, stage_locals) result" where
  "stage_loop dk limit [] st = Inr st"
| "stage_loop dk limit (Inl e # cs) st = Inl (Stage_Read e)"
| "stage_loop dk limit (Inr chunk # cs) st = res_bind (stage_chunk dk limit chunk st) (stage_loop dk limit cs)"

definition stage_finish :: "'e disk \<Rightarrow> u64 option \<Rightarrow> stage_locals \<Rightarrow> ('e stage_error, staged_body) result" where
  "stage_finish dk expected st =
     (if expected \<noteq> None \<and> the expected \<noteq> sl_len st then Inl (Stage_LengthMismatch (the expected) (sl_len st))
      else case sl_file st of
        Some f \<Rightarrow> if dk_sync dk then Inr \<lparr>sb_storage = File f, sb_len = sl_len st\<rparr> else Inl Stage_Write
      | None \<Rightarrow> Inr \<lparr>sb_storage = Memory (sl_memory st), sb_len = sl_len st\<rparr>)"

definition stage_stream_inner ::
  "'e disk \<Rightarrow> ('e, string) result list \<Rightarrow> u64 option \<Rightarrow> u64 \<Rightarrow> bool \<Rightarrow> ('e stage_error, staged_body) result" where
  "stage_stream_inner dk chunks expected limit force_file =
     (if expected \<noteq> None \<and> limit < the expected then Inl (Stage_TooLarge (the expected) limit)
      else
        res_bind (if force_file then res_map Some (create_private_file dk) else Inr None) (\<lambda>file.
        res_bind (stage_loop dk limit chunks \<lparr>sl_memory = [], sl_file = file, sl_len = 0, sl_writes = 0\<rparr>)
          (stage_finish dk expected)))"

definition stage_stream :: "'e disk \<Rightarrow> ('e, string) result list \<Rightarrow> u64 option \<Rightarrow> u64 \<Rightarrow> ('e stage_error, staged_body) result" where
  "stage_stream dk chunks expected limit = stage_stream_inner dk chunks expected limit False"

definition stage_stream_to_file :: "'e disk \<Rightarrow> ('e, string) result list \<Rightarrow> u64 option \<Rightarrow> u64 \<Rightarrow> ('e stage_error, staged_body) result" where
  "stage_stream_to_file dk chunks expected limit = stage_stream_inner dk chunks expected limit True"

definition staged_bytes :: "staged_body \<Rightarrow> string" where
  "staged_bytes b = (case sb_storage b of Memory m \<Rightarrow> m | File f \<Rightarrow> f)"

definition staged_is_file :: "staged_body \<Rightarrow> bool" where
  "staged_is_file b = (case sb_storage b of Memory _ \<Rightarrow> False | File _ \<Rightarrow> True)"

text \<open>\<^verbatim>\<open>StagedBody::prefix\<close>; a file shorter than the staged length is the end-of-file error, \<open>None\<close>.\<close>

definition staged_prefix :: "staged_body \<Rightarrow> nat \<Rightarrow> string option" where
  "staged_prefix b maximum =
     (case sb_storage b of
        Memory m \<Rightarrow> Some (take (min (length m) maximum) m)
      | File f \<Rightarrow>
          let n = min maximum (unat (sb_len b)) in
          if length f < n then None else Some (take n f))"

section \<open>Exactness\<close>

definition stage_contents :: "stage_locals \<Rightarrow> string" where
  "stage_contents st = (case sl_file st of None \<Rightarrow> sl_memory st | Some f \<Rightarrow> f)"

definition stage_inv :: "bool \<Rightarrow> stage_locals \<Rightarrow> bool" where
  "stage_inv force st \<longleftrightarrow>
     unat (sl_len st) = length (stage_contents st)
     \<and> (sl_file st \<noteq> None \<longleftrightarrow> force \<or> MEMORY_THRESHOLD < length (stage_contents st))"

definition healthy :: "'e disk \<Rightarrow> bool" where
  "healthy dk \<longleftrightarrow> dk_create dk = None \<and> (\<forall>n. dk_write dk n) \<and> dk_sync dk"

lemma spill_ok:
  assumes "spill dk chunk st = Inr st'"
  shows "stage_contents st' = stage_contents st" "sl_len st' = sl_len st"
    "sl_file st' \<noteq> None \<longleftrightarrow> sl_file st \<noteq> None \<or> MEMORY_THRESHOLD < length (stage_contents st) + length chunk"
  using assms
  by (auto simp: spill_def write_file_def create_private_file_def stage_contents_def result_simps split: if_splits option.splits)

lemma stage_chunk_ok:
  assumes "stage_chunk dk limit chunk st = Inr st'" "stage_inv force st" "length chunk < 2 ^ 64"
  shows "stage_inv force st'" "stage_contents st' = stage_contents st @ chunk" "sl_len st' \<le> limit"
proof -
  obtain len st1 where l: "checked_add (sl_len st) (of_nat (length chunk)) = Some len" "len \<le> limit"
    "spill dk chunk (st\<lparr>sl_len := len\<rparr>) = Inr st1"
    "(case sl_file st1 of Some _ \<Rightarrow> write_file dk chunk st1 | None \<Rightarrow> Inr (st1\<lparr>sl_memory := sl_memory st1 @ chunk\<rparr>)) = Inr st'"
    using assms(1) by (auto simp: stage_chunk_def result_simps split: option.splits if_splits)
  have c1: "stage_contents (st\<lparr>sl_len := len\<rparr>) = stage_contents st" by (simp add: stage_contents_def cong: option.case_cong)
  note sp = spill_ok[OF l(3), unfolded c1]
  have un: "unat len = length (stage_contents st) + length chunk"
    using l(1) assms(2,3) by (simp add: checked_add_Some_iff stage_inv_def unat_of_nat take_bit_nat_eq_self)
  have r: "stage_contents st' = stage_contents st @ chunk" "sl_len st' = len" "(sl_file st' \<noteq> None) = (sl_file st1 \<noteq> None)"
    using l(4) sp by (auto simp: stage_contents_def write_file_def split: option.splits if_splits)
  then show "stage_contents st' = stage_contents st @ chunk" "sl_len st' \<le> limit" using l(2) by auto
  show "stage_inv force st'"
    using r sp(3) un assms(2) by (auto simp: stage_inv_def)
qed

lemma stage_loop_ok:
  "stage_loop dk limit cs st = Inr st' \<Longrightarrow> stage_inv force st \<Longrightarrow> sl_len st \<le> limit \<Longrightarrow> (\<forall>c. Inr c \<in> set cs \<longrightarrow> length c < 2 ^ 64) \<Longrightarrow>
     \<exists>bs. cs = map Inr bs \<and> stage_contents st' = stage_contents st @ concat bs \<and> stage_inv force st' \<and> sl_len st' \<le> limit"
proof (induction dk limit cs st rule: stage_loop.induct)
  case (3 dk limit chunk cs st)
  obtain st1 where st1: "stage_chunk dk limit chunk st = Inr st1" "stage_loop dk limit cs st1 = Inr st'"
    using 3(2) by (auto simp: result_simps)
  have len: "length chunk < 2 ^ 64" using 3(5) by simp
  note ok = stage_chunk_ok[OF st1(1) 3(3) len]
  obtain bs where "cs = map Inr bs" "stage_contents st' = stage_contents st1 @ concat bs" "stage_inv force st'" "sl_len st' \<le> limit"
    using 3(1)[OF st1(2) ok(1,3)] 3(5) by auto
  then show ?case using ok(2) by (intro exI[of _ "chunk # bs"]) simp
qed auto

lemma stage_chunk_total:
  assumes "healthy dk" "stage_inv force st" "length (stage_contents st) + length chunk \<le> unat limit"
  shows "\<exists>st'. stage_chunk dk limit chunk st = Inr st'"
proof -
  have l: "length chunk < 2 ^ 64" "length (stage_contents st) + length chunk < 2 ^ 64"
    using assms(3) unat_u64_less[of limit] by simp_all
  have "unat (of_nat (length chunk) :: u64) = length chunk" using l(1) by (simp add: unat_of_nat take_bit_nat_eq_self)
  then have "checked_add (sl_len st) (of_nat (length chunk)) = Some (sl_len st + of_nat (length chunk))"
    "unat (sl_len st + of_nat (length chunk)) = length (stage_contents st) + length chunk"
    using assms(2) l(2) by (simp_all add: checked_add_def stage_inv_def unat_plus_if')
  then show ?thesis
    using assms(1,3)
    by (auto simp: stage_chunk_def spill_def write_file_def create_private_file_def healthy_def word_less_nat_alt
        split: option.splits)
qed

lemma stage_loop_total:
  "healthy dk \<Longrightarrow> stage_inv force st \<Longrightarrow> length (stage_contents st) + length (concat bs) \<le> unat limit \<Longrightarrow>
     \<exists>st'. stage_loop dk limit (map Inr bs) st = Inr st'"
proof (induction bs arbitrary: st)
  case (Cons b bs)
  have le: "length (stage_contents st) + length b \<le> unat limit" and bl: "length b < 2 ^ 64"
    using Cons.prems(3) unat_u64_less[of limit] by simp_all
  obtain st1 where st1: "stage_chunk dk limit b st = Inr st1" using stage_chunk_total[OF Cons.prems(1,2) le] by blast
  note ok = stage_chunk_ok[OF st1 Cons.prems(2) bl]
  have "\<exists>st'. stage_loop dk limit (map Inr bs) st1 = Inr st'"
    using Cons.IH[OF Cons.prems(1) ok(1)] Cons.prems(3) ok(2) by simp
  then show ?case using st1 by simp
qed simp

text \<open>
  C28: A body is staged only as it was received: the bytes of every chunk in order, with their true length,
  within the limit and equal to the declared length; it is in a file exactly when forced to or larger
  than the threshold. On a working disk nothing else is refused.
\<close>

theorem stage_exact:
  assumes chunks: "\<forall>c. Inr c \<in> set chunks \<longrightarrow> length c < 2 ^ 64"
  shows "(stage_stream_inner dk chunks expected limit force = Inr body \<longrightarrow>
      (\<exists>bs. chunks = map Inr bs \<and> staged_bytes body = concat bs \<and> unat (sb_len body) = length (concat bs)
        \<and> sb_len body \<le> limit \<and> (expected \<noteq> None \<longrightarrow> expected = Some (sb_len body))
        \<and> (staged_is_file body \<longleftrightarrow> force \<or> MEMORY_THRESHOLD < length (concat bs))))
    \<and> (healthy dk \<and> chunks = map Inr received \<and> length (concat received) \<le> unat limit
        \<and> (\<forall>n. expected = Some n \<longrightarrow> unat n = length (concat received)) \<longrightarrow>
      (\<exists>b. stage_stream_inner dk chunks expected limit force = Inr b))" (is "(?ok \<longrightarrow> ?sound) \<and> (?fine \<longrightarrow> ?complete)")
proof (intro conjI impI)
  let ?start = "\<lambda>f. \<lparr>sl_memory = [], sl_file = f, sl_len = 0, sl_writes = 0\<rparr>"
  have inv0: "stage_inv force (?start (if force then Some [] else None))"
    "stage_contents (?start (if force then Some [] else None)) = []"
    by (auto simp: stage_inv_def stage_contents_def)
  {
    assume ?ok
    then obtain st where st: "stage_loop dk limit chunks (?start (if force then Some [] else None)) = Inr st"
      "stage_finish dk expected st = Inr body"
      by (auto simp: stage_stream_inner_def create_private_file_def result_simps split: if_splits option.splits)
    obtain bs where bs: "chunks = map Inr bs" "stage_contents st = concat bs" "stage_inv force st" "sl_len st \<le> limit"
      using stage_loop_ok[OF st(1) inv0(1) _ chunks] inv0(2) by auto
    then show ?sound using st(2)
      by (intro exI[of _ bs]) (auto simp: stage_finish_def stage_inv_def stage_contents_def staged_bytes_def staged_is_file_def split: if_splits option.splits)
  }
  assume f: ?fine
  then obtain st where st: "stage_loop dk limit chunks (?start (if force then Some [] else None)) = Inr st"
    using stage_loop_total[of dk force _ received limit] inv0 by fastforce
  then obtain bs where bs: "chunks = map Inr bs" "stage_contents st = concat bs" "stage_inv force st"
    using stage_loop_ok[OF st inv0(1) _ chunks] inv0(2) by auto
  then have "unat (sl_len st) = length (concat received)" using f by (auto simp: stage_inv_def inj_map_eq_map)
  then have "expected = None \<or> the expected = sl_len st"
    using f by (cases expected) (auto intro!: unsigned_word_eqI[where 'a = nat])
  then have "\<exists>b. stage_finish dk expected st = Inr b"
    using f by (auto simp: stage_finish_def healthy_def split: option.splits)
  moreover have "\<not> (expected \<noteq> None \<and> limit < the expected)" using f by (auto simp: word_less_nat_alt)
  ultimately show ?complete using st f
    by (auto simp: stage_stream_inner_def create_private_file_def healthy_def)
qed

theorem stage_exact_witness:
  "stage_stream_inner \<lparr>dk_create = None, dk_write = \<lambda>_. True, dk_sync = True\<rparr> [Inr ''ab'', Inr ''c''] (Some 3) 10 True
     = (Inr \<lparr>sb_storage = File ''abc'', sb_len = 3\<rparr> :: (unit stage_error, staged_body) result)
   \<and> staged_is_file \<lparr>sb_storage = File ''abc'', sb_len = 3\<rparr>"
proof -
  let ?dk = "\<lparr>dk_create = None, dk_write = \<lambda>_. True, dk_sync = True\<rparr> :: unit disk"
  have "(\<exists>b. stage_stream_inner ?dk [Inr ''ab'', Inr ''c''] (Some 3) 10 True = Inr b)"
    using stage_exact[of "[Inr ''ab'', Inr ''c'']" ?dk "Some 3" 10 True _ "[''ab'', ''c'']"] by (auto simp: healthy_def)
  then obtain b where b: "stage_stream_inner ?dk [Inr ''ab'', Inr ''c''] (Some 3) 10 True = Inr b" ..
  have "staged_bytes b = ''abc'' \<and> staged_is_file b \<and> sb_len b = 3"
    using stage_exact[of "[Inr ''ab'', Inr ''c'']" ?dk "Some 3" 10 True b "[]"] b by (auto simp: Cons_eq_map_conv)
  then show ?thesis using b by (cases b; cases "sb_storage b") (auto simp: staged_bytes_def staged_is_file_def)
qed

end
