(* ===== verification/Storage_Trait.thy ===== *)
theory Storage_Trait
  imports Mem_Storage Manifest Staging
begin

text \<open>
  The rest of the storage trait (\<^verbatim>\<open>notedthat-core/src/storage.rs\<close>): provisioning, probing, manifests, streamed
  reads and staged writes, as an extension of the record of object operations, with the in-memory
  backend's implementation of all of it (\<^verbatim>\<open>notedthat-core/src/testing.rs\<close>) and the helpers its fixtures use.

  \<open>from_slice\<close> and \<open>to_vec\<close> stand for serde's reader and writer of manifests.  A helper that panics is \<open>None\<close>.
\<close>

section \<open>The trait\<close>

record object_stream =
  ost_chunks :: "(storage_error, bytes) result list"
  ost_meta :: object_meta
  ost_content_range :: "string option"

record 's storage_trait = "'s storage_ops" +
  op_ensure_bucket :: "'s \<Rightarrow> kb_slug \<Rightarrow> (storage_error, unit) result \<times> 's"
  op_probe :: "'s \<Rightarrow> kb_slug \<Rightarrow> (storage_error, unit) result"
  op_read_manifest :: "'s \<Rightarrow> kb_slug \<Rightarrow> (storage_error, kb_manifest) result"
  op_write_manifest :: "'s \<Rightarrow> kb_slug \<Rightarrow> kb_manifest \<Rightarrow> (storage_error, unit) result \<times> 's"
  op_get_stream :: "'s \<Rightarrow> kb_slug \<Rightarrow> object_path \<Rightarrow> byte_range option \<Rightarrow> conditional_headers
    \<Rightarrow> (storage_error, object_stream) result"
  op_put_staged :: "'s \<Rightarrow> kb_slug \<Rightarrow> object_path \<Rightarrow> staged_body \<Rightarrow> string option \<Rightarrow> conditional_headers
    \<Rightarrow> (storage_error, put_outcome) result \<times> 's"

section \<open>Operations of the in-memory backend\<close>

definition mem_read_manifest :: "(bytes \<Rightarrow> (string, kb_manifest) result) \<Rightarrow> mem_storage \<Rightarrow> kb_slug
    \<Rightarrow> (storage_error, kb_manifest) result" where
  "mem_read_manifest from_slice st kb =
     res_bind (check_reachable st) (\<lambda>_.
     res_bind (require_bucket st kb) (\<lambda>_.
     res_bind (ok_or (SE_NotFound MANIFEST_KEY) (map_of (m_objects st) (kb_str kb, MANIFEST_KEY))) (\<lambda>stored.
     res_bind (map_err (\<lambda>e. SE_BackendUnavailable (''deserializing the manifest: '' @ e)) (from_slice (so_bytes stored))) (\<lambda>manifest.
     res_bind (map_err (\<lambda>e. SE_BackendUnavailable (''manifest validation failed: '' @ error_display e)) (manifest_validate manifest)) (\<lambda>_.
     Inr manifest)))))"

definition mem_write_manifest :: "(bytes \<Rightarrow> string) \<Rightarrow> (kb_manifest \<Rightarrow> (string, bytes) result) \<Rightarrow> mem_storage \<Rightarrow> kb_slug
    \<Rightarrow> kb_manifest \<Rightarrow> (storage_error, unit) result \<times> mem_storage" where
  "mem_write_manifest etag_of to_vec st kb manifest =
     (case res_bind (check_reachable st) (\<lambda>_.
           res_bind (map_err (\<lambda>e. SE_BackendUnavailable (''serializing the manifest: '' @ e)) (to_vec manifest)) (\<lambda>bytes.
           res_bind (require_bucket st kb) (\<lambda>_. Inr bytes))) of
        Inl e \<Rightarrow> (Inl e, st)
      | Inr bytes \<Rightarrow>
          (Inr (), st\<lparr>m_objects := AList.update (kb_str kb, MANIFEST_KEY)
              \<lparr>so_bytes = bytes, so_content_type = Some ''application/json'', so_etag = etag_of bytes, so_last_modified = m_now st\<rparr>
              (m_objects st)\<rparr>))"

definition mem_get_object_stream :: "(string \<Rightarrow> (string, system_time) result) \<Rightarrow> mem_storage \<Rightarrow> kb_slug \<Rightarrow> object_path
    \<Rightarrow> byte_range option \<Rightarrow> conditional_headers \<Rightarrow> (storage_error, object_stream) result" where
  "mem_get_object_stream parse_date st kb path range' c =
     res_bind (check_reachable st) (\<lambda>_.
     res_bind (mem_get_object parse_date st kb path range' c) (\<lambda>read.
     Inr \<lparr>ost_chunks = [Inr (or_bytes read)], ost_meta = or_meta read, ost_content_range = or_content_range read\<rparr>))"

definition mem_put_staged_object :: "(bytes \<Rightarrow> string) \<Rightarrow> mem_storage \<Rightarrow> kb_slug \<Rightarrow> object_path \<Rightarrow> staged_body \<Rightarrow> string option
    \<Rightarrow> conditional_headers \<Rightarrow> (storage_error, put_outcome) result \<times> mem_storage" where
  "mem_put_staged_object etag_of st kb path body content_type c =
     (case check_reachable st of
        Inl e \<Rightarrow> (Inl e, st)
      | Inr _ \<Rightarrow> mem_put_object etag_of st kb path
          (case sb_storage body of Memory bytes \<Rightarrow> bytes | File bytes \<Rightarrow> bytes) content_type c)"

definition mem_trait :: "(bytes \<Rightarrow> string) \<Rightarrow> (string \<Rightarrow> (string, system_time) result)
    \<Rightarrow> (bytes \<Rightarrow> (string, kb_manifest) result) \<Rightarrow> (kb_manifest \<Rightarrow> (string, bytes) result) \<Rightarrow> mem_storage storage_trait" where
  "mem_trait etag_of parse_date from_slice to_vec =
     storage_ops.extend (mem_ops etag_of parse_date)
       \<lparr>op_ensure_bucket = mem_ensure_bucket, op_probe = mem_probe, op_read_manifest = mem_read_manifest from_slice,
        op_write_manifest = mem_write_manifest etag_of to_vec, op_get_stream = mem_get_object_stream parse_date,
        op_put_staged = mem_put_staged_object etag_of\<rparr>"

section \<open>Helpers of fixtures\<close>

definition mem_seed :: "(bytes \<Rightarrow> string) \<Rightarrow> mem_storage \<Rightarrow> string \<Rightarrow> string \<Rightarrow> bytes \<Rightarrow> string option \<Rightarrow> string option
    \<Rightarrow> mem_storage option" where
  "mem_seed etag_of st kb path bytes content_type etag =
     (case (kb_slug_try_new kb, try_from_str path) of
        (Inr kb, Inr path) \<Rightarrow>
          Some (st\<lparr>m_buckets := insert (kb_str kb) (m_buckets st),
                   m_objects := AList.update (obj_key kb path)
                     \<lparr>so_bytes = bytes, so_content_type = content_type,
                      so_etag = (case etag of None \<Rightarrow> etag_of bytes | Some t \<Rightarrow> t), so_last_modified = m_now st\<rparr>
                     (m_objects st)\<rparr>)
      | _ \<Rightarrow> None)"

definition mem_set_last_modified :: "mem_storage \<Rightarrow> string \<Rightarrow> string \<Rightarrow> system_time \<Rightarrow> mem_storage option" where
  "mem_set_last_modified st kb path last_modified =
     (case map_of (m_objects st) (kb, path) of
        None \<Rightarrow> None
      | Some obj \<Rightarrow> Some (st\<lparr>m_objects := AList.update (kb, path) (obj\<lparr>so_last_modified := last_modified\<rparr>) (m_objects st)\<rparr>))"

definition mem_object :: "mem_storage \<Rightarrow> string \<Rightarrow> string \<Rightarrow> object_read option" where
  "mem_object st kb path =
     (case map_of (m_objects st) (kb, path) of
        None \<Rightarrow> None
      | Some stored \<Rightarrow>
          (case try_from_str path of
             Inl _ \<Rightarrow> None
           | Inr path \<Rightarrow>
               Some \<lparr>or_bytes = so_bytes stored, or_meta = mem_object_meta path stored (of_nat (length (so_bytes stored))),
                     or_content_range = None\<rparr>))"

section \<open>Laws\<close>

lemma mem_write_manifest_cases:
  assumes "mem_write_manifest etag_of to_vec st kb m = (res, st')"
  obtains (refused) e where "res = Inl e" "st' = st"
  | (written) bytes where "res = Inr ()" "mem_ready st kb" "to_vec m = Inr bytes"
      "st' = st\<lparr>m_objects := AList.update (kb_str kb, MANIFEST_KEY)
          \<lparr>so_bytes = bytes, so_content_type = Some ''application/json'', so_etag = etag_of bytes, so_last_modified = m_now st\<rparr>
          (m_objects st)\<rparr>"
proof (cases "res_bind (check_reachable st) (\<lambda>_.
           res_bind (map_err (\<lambda>e. SE_BackendUnavailable (''serializing the manifest: '' @ e)) (to_vec m)) (\<lambda>bytes.
           res_bind (require_bucket st kb) (\<lambda>_. Inr bytes)))")
  case (Inl e)
  then show thesis using assms refused[of e] unfolding mem_write_manifest_def by simp
next
  case (Inr bytes)
  then have "mem_ready st kb" "to_vec m = Inr bytes"
    by (auto simp: res_bind_Inr_iff map_err_Inr_iff check_bucket_iff mem_ready_def)
  then show thesis using assms Inr written[of bytes] unfolding mem_write_manifest_def by simp
qed

text \<open>Every operation of the trait that changes the store keeps its invariant.\<close>

lemma mem_trait_inv [inv_intros]:
  assumes "mem_inv etag_of st"
  shows "mem_inv etag_of (snd (mem_ensure_bucket st kb))"
    and "mem_inv etag_of (snd (mem_write_manifest etag_of to_vec st kb m))"
    and "mem_set_last_modified st k p t = Some st' \<Longrightarrow> mem_inv etag_of st'"
    and "mem_seed etag_of st k p b ct None = Some st'' \<Longrightarrow> mem_inv etag_of st''"
proof -
  show "mem_inv etag_of (snd (mem_ensure_bucket st kb))"
    using assms by (simp add: mem_ensure_bucket_def mem_inv_def split: sum.splits)
  obtain res st1 where w: "mem_write_manifest etag_of to_vec st kb m = (res, st1)" by fastforce
  from w show "mem_inv etag_of (snd (mem_write_manifest etag_of to_vec st kb m))"
    by (cases rule: mem_write_manifest_cases) (use w assms in \<open>auto intro: mem_inv_update\<close>)
  show "mem_set_last_modified st k p t = Some st' \<Longrightarrow> mem_inv etag_of st'"
    using assms by (fastforce simp: mem_set_last_modified_def mem_inv_def distinct_update update_conv' split: option.splits if_splits)
  show "mem_seed etag_of st k p b ct None = Some st'' \<Longrightarrow> mem_inv etag_of st''"
    using assms by (fastforce simp: mem_seed_def mem_inv_def distinct_update update_conv' split: sum.splits if_splits)
qed

text \<open>
  A manifest that was written is read back, when serde reads what it wrote and the document is valid; it is an
  object like any other, and no other object changed.
\<close>

lemma mem_manifest_roundtrip:
  assumes "mem_write_manifest etag_of to_vec st kb m = (Inr (), st')"
    and "\<And>bytes. to_vec m = Inr bytes \<Longrightarrow> from_slice bytes = Inr m" "manifest_validate m = Inr ()"
  shows "mem_read_manifest from_slice st' kb = Inr m"
    and "k \<noteq> (kb_str kb, MANIFEST_KEY) \<Longrightarrow> mem_contents st' k = mem_contents st k"
    and "\<exists>bytes obj. to_vec m = Inr bytes \<and> mem_contents st' (kb_str kb, MANIFEST_KEY) = Some obj \<and> so_bytes obj = bytes
      \<and> so_etag obj = etag_of bytes"
  using assms(1)
  by (cases rule: mem_write_manifest_cases; use assms(2,3) in
      \<open>auto simp: mem_read_manifest_def mem_ready_def check_reachable_def require_bucket_def update_conv'\<close>)+

text \<open>A streamed read delivers the bytes of the whole read, and a staged write stores what the plain one would.\<close>

lemma mem_stream_read:
  "mem_get_object_stream parse_date st kb path rg c = Inr s \<longleftrightarrow>
     (\<exists>read. mem_get_object parse_date st kb path rg c = Inr read \<and> ost_meta s = or_meta read
        \<and> ost_chunks s = [Inr (or_bytes read)] \<and> ost_content_range s = or_content_range read)"
  by (auto simp: mem_get_object_stream_def res_bind_Inr_iff mem_get_object_def mem_lookup_def intro: object_stream.equality)

lemma mem_staged_put:
  "mem_put_staged_object etag_of st kb path body ct c = mem_put_object etag_of st kb path (staged_bytes body) ct c"
  by (auto simp: mem_put_staged_object_def mem_put_object_def staged_bytes_def split: sum.splits staged_body_storage.splits)

lemma mem_seeded_object:
  assumes "mem_seed etag_of st kb path b ct etag = Some st'" "mem_object st' kb (path_str p) = Some r" "try_from_str path = Inr p"
  shows "or_bytes r = b"
proof -
  obtain k where "kb_slug_try_new kb = Inr k" using assms(1) by (auto simp: mem_seed_def split: sum.splits)
  then have "kb_str k = kb" by (auto simp: kb_slug_try_new_def res_bind_Inr_iff)
  then show ?thesis using assms \<open>kb_slug_try_new kb = Inr k\<close>
    by (auto simp: mem_seed_def mem_object_def update_conv' split: sum.splits option.splits)
qed

end
