(* ===== verification/Event_Log.thy ===== *)
theory Event_Log
  imports Storage_Api
begin

text \<open>
  Change events (\<^verbatim>\<open>notedthat-core/src/events.rs\<close>) and the in-memory event log
  (\<^verbatim>\<open>notedthat-events/src/memory.rs\<close>): a ring of the last events with ascending ids, and
  subscriptions that replay from the ring and then follow a broadcast channel.

  The channel is tokio's: a parameter \<open>recv\<close> that, given everything sent and a receiver's position,
  yields the entry at that position, reports a lag, or has nothing yet.  What the code relies on is
  the hypothesis \<open>in_order\<close>: an entry received is the one at the receiver's position.  A
  subscriber's life is a step relation interleaved with publishing; the invariant says that what
  is still to come is exactly the log after the subscriber's cursor.
\<close>

section \<open>Events\<close>

type_synonym event_id = nat

datatype event_source = Src_Http | Src_Webdav | Src_Mcp | Src_FsWatch | Src_Reconcile | Src_Indexer

fun event_source_as_str :: "event_source \<Rightarrow> string" where
  "event_source_as_str Src_Http = ''http''"
| "event_source_as_str Src_Webdav = ''webdav''"
| "event_source_as_str Src_Mcp = ''mcp''"
| "event_source_as_str Src_FsWatch = ''fs-watch''"
| "event_source_as_str Src_Reconcile = ''reconcile''"
| "event_source_as_str Src_Indexer = ''indexer''"

datatype object_event_kind =
    Ev_Written (ew_etag: string) (ew_size: u64) (ew_mime: string) (ew_mtime: int)
  | Ev_Deleted
  | Ev_Indexed string string nat
  | Ev_IndexFailed "string option" "string option" "string option"

fun event_name :: "object_event_kind \<Rightarrow> string" where
  "event_name (Ev_Written _ _ _ _) = ''object.written''"
| "event_name Ev_Deleted = ''object.deleted''"
| "event_name (Ev_Indexed _ _ _) = ''object.indexed''"
| "event_name (Ev_IndexFailed _ _ _) = ''object.index_failed''"

fun event_mime :: "object_event_kind \<Rightarrow> string option" where
  "event_mime (Ev_Written _ _ mime _) = Some mime"
| "event_mime (Ev_Indexed _ mime _) = Some mime"
| "event_mime (Ev_IndexFailed _ mime _) = mime"
| "event_mime Ev_Deleted = None"

fun event_etag :: "object_event_kind \<Rightarrow> string option" where
  "event_etag (Ev_Written etag _ _ _) = Some etag"
| "event_etag (Ev_Indexed etag _ _) = Some etag"
| "event_etag (Ev_IndexFailed etag _ _) = etag"
| "event_etag Ev_Deleted = None"

record object_event =
  oe_kb :: kb_slug
  oe_key :: object_path
  oe_kind :: object_event_kind
  oe_source :: event_source
  oe_occurred_at :: string

text \<open>The constructors stamp the event with the time \<open>at\<close>, already rendered.\<close>

definition event_written ::
    "string \<Rightarrow> kb_slug \<Rightarrow> object_path \<Rightarrow> string \<Rightarrow> u64 \<Rightarrow> string \<Rightarrow> int \<Rightarrow> event_source \<Rightarrow> object_event" where
  "event_written at kb key etag sz content_type last_modified src =
     \<lparr>oe_kb = kb, oe_key = key, oe_kind = Ev_Written etag sz content_type last_modified,
      oe_source = src, oe_occurred_at = at\<rparr>"

definition event_deleted :: "string \<Rightarrow> kb_slug \<Rightarrow> object_path \<Rightarrow> event_source \<Rightarrow> object_event" where
  "event_deleted at kb key src =
     \<lparr>oe_kb = kb, oe_key = key, oe_kind = Ev_Deleted, oe_source = src, oe_occurred_at = at\<rparr>"

definition event_indexed :: "string \<Rightarrow> kb_slug \<Rightarrow> object_path \<Rightarrow> string \<Rightarrow> string \<Rightarrow> nat \<Rightarrow> object_event" where
  "event_indexed at kb key etag mime chunks =
     \<lparr>oe_kb = kb, oe_key = key, oe_kind = Ev_Indexed etag mime chunks, oe_source = Src_Indexer, oe_occurred_at = at\<rparr>"

definition event_index_failed ::
    "string \<Rightarrow> kb_slug \<Rightarrow> object_path \<Rightarrow> string option \<Rightarrow> string option \<Rightarrow> string \<Rightarrow> object_event" where
  "event_index_failed at kb key etag mime summary =
     \<lparr>oe_kb = kb, oe_key = key, oe_kind = Ev_IndexFailed etag mime (Some summary),
      oe_source = Src_Indexer, oe_occurred_at = at\<rparr>"

definition event_from_meta :: "string \<Rightarrow> kb_slug \<Rightarrow> object_path \<Rightarrow> object_meta \<Rightarrow> event_source \<Rightarrow> object_event" where
  "event_from_meta at kb key meta src =
     event_written at kb key (case om_etag meta of None \<Rightarrow> [] | Some t \<Rightarrow> t) (om_size meta)
       (case om_content_type meta of None \<Rightarrow> [] | Some t \<Rightarrow> t)
       (case om_last_modified meta of None \<Rightarrow> 0 | Some t \<Rightarrow> t) src"

datatype subscribe_error = Sub_Gone event_id event_id | Sub_Unavailable string

datatype stream_error = Stream_Lagged event_id | Stream_Broker string

section \<open>The ring\<close>

type_synonym entry = "event_id \<times> object_event"

record ring =
  next_id :: nat
  capacity :: nat
  buf :: "entry list"

text \<open>The publisher: the ring, and everything sent on the broadcast channel since it was made.\<close>

record publisher =
  pub_ring :: ring
  pub_sent :: "entry list"

definition publisher_new :: "nat \<Rightarrow> publisher" where
  "publisher_new cap =
     \<lparr>pub_ring = \<lparr>next_id = 1, capacity = max cap 1, buf = []\<rparr>, pub_sent = []\<rparr>"

definition ring_oldest :: "ring \<Rightarrow> event_id option" where
  "ring_oldest r = (case buf r of [] \<Rightarrow> None | e # _ \<Rightarrow> Some (fst e))"

definition ring_after :: "ring \<Rightarrow> event_id \<Rightarrow> entry list" where
  "ring_after r cursor = filter (\<lambda>e. cursor < fst e) (buf r)"

fun pop_excess :: "nat \<Rightarrow> entry list \<Rightarrow> entry list" where
  "pop_excess cap [] = []"
| "pop_excess cap (e # es) = (if cap < length (e # es) then pop_excess cap es else e # es)"

definition publish :: "publisher \<Rightarrow> object_event \<Rightarrow> event_id \<times> publisher" where
  "publish p event =
     (let r = pub_ring p; id = next_id r; entry = (id, event) in
      (id, \<lparr>pub_ring = r\<lparr>next_id := id + 1, buf := pop_excess (capacity r) (buf r @ [entry])\<rparr>,
            pub_sent = pub_sent p @ [entry]\<rparr>))"

section \<open>Subscriptions\<close>

datatype recv_result = Recv_Ok entry | Recv_Lagged | Recv_Closed | Recv_Pending

record subscription =
  sub_kb :: kb_slug
  sub_backlog :: "entry list"
  sub_rx :: nat
  sub_cursor :: event_id

text \<open>\<open>Step_Pending\<close> is an \<open>await\<close> that has not returned yet: the step has not happened.\<close>

datatype sub_step_result = Step_Yield entry | Step_Skip | Step_Lagged | Step_Closed | Step_Pending

definition subscribe :: "publisher \<Rightarrow> kb_slug \<Rightarrow> event_id option \<Rightarrow> (subscribe_error, subscription) result" where
  "subscribe p kb after =
     (let r = pub_ring p;
          rx = length (pub_sent p);
          latest = next_id r - 1;
          sub = (\<lambda>(backlog, cursor). Inr \<lparr>sub_kb = kb, sub_backlog = backlog, sub_rx = rx, sub_cursor = cursor\<rparr>) in
      case after of
        None \<Rightarrow> sub ([], latest)
      | Some requested \<Rightarrow>
          let oldest = (case ring_oldest r of Some i \<Rightarrow> i | None \<Rightarrow> next_id r);
              behind = requested < latest \<and> requested + 1 < oldest in
          if behind \<or> latest < requested then Inl (Sub_Gone requested oldest)
          else if requested < latest then sub (ring_after r requested, requested)
          else sub ([], latest))"

definition deliver :: "subscription \<Rightarrow> entry \<Rightarrow> sub_step_result \<times> subscription" where
  "deliver sub entry =
     (if fst entry \<le> sub_cursor sub then (Step_Skip, sub)
      else let sub' = sub\<lparr>sub_cursor := fst entry\<rparr> in
        if oe_kb (snd entry) = sub_kb sub then (Step_Yield entry, sub') else (Step_Skip, sub'))"

definition sub_step ::
    "(entry list \<Rightarrow> nat \<Rightarrow> recv_result) \<Rightarrow> publisher \<Rightarrow> subscription \<Rightarrow> sub_step_result \<times> subscription" where
  "sub_step recv p sub =
     (case sub_backlog sub of
        entry # rest \<Rightarrow> deliver (sub\<lparr>sub_backlog := rest\<rparr>) entry
      | [] \<Rightarrow>
          (case recv (pub_sent p) (sub_rx sub) of
             Recv_Ok entry \<Rightarrow> deliver (sub\<lparr>sub_rx := sub_rx sub + 1\<rparr>) entry
           | Recv_Pending \<Rightarrow> (Step_Pending, sub)
           | Recv_Closed \<Rightarrow> (Step_Closed, sub)
           | Recv_Lagged \<Rightarrow>
               let r = pub_ring p;
                   sub' = sub\<lparr>sub_rx := length (pub_sent p)\<rparr>;
                   refill = ring_after r (sub_cursor sub);
                   gap = (case ring_oldest r of None \<Rightarrow> False | Some oldest \<Rightarrow> sub_cursor sub + 1 < oldest) in
               if gap then (Step_Lagged, sub') else (Step_Skip, sub'\<lparr>sub_backlog := refill\<rparr>)))"

text \<open>
  The stream \<^verbatim>\<open>subscribe\<close> returns: the unfold's state (none once the stream has ended) and the items
  produced so far.
\<close>

record event_stream =
  es_sub :: "subscription option"
  es_out :: "(stream_error, entry) result list"

definition stream_advance :: "(entry list \<Rightarrow> nat \<Rightarrow> recv_result) \<Rightarrow> publisher \<Rightarrow> event_stream \<Rightarrow> event_stream" where
  "stream_advance recv p s =
     (case es_sub s of
        None \<Rightarrow> s
      | Some sub \<Rightarrow>
          (case sub_step recv p sub of
             (Step_Yield entry, sub') \<Rightarrow> \<lparr>es_sub = Some sub', es_out = es_out s @ [Inr entry]\<rparr>
           | (Step_Skip, sub') \<Rightarrow> s\<lparr>es_sub := Some sub'\<rparr>
           | (Step_Lagged, sub') \<Rightarrow>
               \<lparr>es_sub = None, es_out = es_out s @ [Inl (Stream_Lagged (sub_cursor sub'))]\<rparr>
           | (Step_Closed, _) \<Rightarrow> s\<lparr>es_sub := None\<rparr>
           | (Step_Pending, _) \<Rightarrow> s))"

text \<open>A process publishes and a subscriber's task advances, in any interleaving.\<close>

inductive log_run :: "(entry list \<Rightarrow> nat \<Rightarrow> recv_result) \<Rightarrow> publisher \<times> event_stream \<Rightarrow> publisher \<times> event_stream \<Rightarrow> bool"
  for recv where
  start: "log_run recv st st"
| publishes: "log_run recv st (p, s) \<Longrightarrow> log_run recv st (snd (publish p e), s)"
| advances: "log_run recv st (p, s) \<Longrightarrow> log_run recv st (p, stream_advance recv p s)"

inductive published :: "nat \<Rightarrow> publisher \<Rightarrow> bool" for cap where
  new: "published cap (publisher_new cap)"
| more: "published cap p \<Longrightarrow> published cap (snd (publish p e))"

text \<open>What the code relies on of \<^verbatim>\<open>tokio::sync::broadcast\<close>.\<close>

definition in_order :: "(entry list \<Rightarrow> nat \<Rightarrow> recv_result) \<Rightarrow> bool" where
  "in_order recv \<longleftrightarrow> (\<forall>sent pos.
     (case recv sent pos of
        Recv_Ok e \<Rightarrow> pos < length sent \<and> e = sent ! pos
      | Recv_Lagged \<Rightarrow> pos < length sent
      | Recv_Pending \<Rightarrow> length sent \<le> pos
      | Recv_Closed \<Rightarrow> length sent \<le> pos))"

section \<open>The log as a history\<close>

definition numbered :: "object_event list \<Rightarrow> entry list" where
  "numbered evs = map (\<lambda>i. (Suc i, evs ! i)) [0..<length evs]"

definition pub_inv :: "publisher \<Rightarrow> bool" where
  "pub_inv p \<longleftrightarrow>
     (\<exists>evs. pub_sent p = numbered evs \<and> next_id (pub_ring p) = Suc (length evs))
     \<and> 0 < capacity (pub_ring p)
     \<and> buf (pub_ring p) = drop (length (pub_sent p) - capacity (pub_ring p)) (pub_sent p)"

lemma pop_excess_eq: "pop_excess cap es = drop (length es - cap) es"
  by (induction es) (auto simp: Suc_diff_le)

lemma length_numbered [simp]: "length (numbered evs) = length evs"
  by (simp add: numbered_def)

lemma numbered_snoc: "numbered (evs @ [e]) = numbered evs @ [(Suc (length evs), e)]"
  by (simp add: numbered_def nth_append)

lemma numbered_nth: "i < length evs \<Longrightarrow> numbered evs ! i = (Suc i, evs ! i)"
  by (simp add: numbered_def)

lemma pub_inv_new [inv_intros]: "pub_inv (publisher_new cap)"
  by (auto simp: pub_inv_def publisher_new_def numbered_def)

lemma pub_inv_publish [inv_intros]:
  assumes "pub_inv p"
  shows "pub_inv (snd (publish p e))"
proof -
  obtain evs where evs: "pub_sent p = numbered evs" "next_id (pub_ring p) = Suc (length evs)"
    using assms by (auto simp: pub_inv_def)
  then have "pub_sent (snd (publish p e)) = numbered (evs @ [e])"
    by (simp add: publish_def Let_def numbered_snoc)
  moreover have "buf (pub_ring (snd (publish p e))) =
      drop (Suc (length evs) - capacity (pub_ring p)) (numbered (evs @ [e]))"
  proof -
    let ?c = "capacity (pub_ring p)"
    define xs where "xs = numbered evs @ [(Suc (length evs), e)]"
    have len: "length xs = Suc (length evs)" by (simp add: xs_def)
    have "buf (pub_ring (snd (publish p e))) = pop_excess ?c (drop (length evs - ?c) xs)"
      using assms evs by (simp add: publish_def Let_def pub_inv_def xs_def)
    also have "\<dots> = drop (length evs - ?c + (Suc (length evs) - (length evs - ?c) - ?c)) xs"
      by (simp add: pop_excess_eq add.commute len)
    also have "length evs - ?c + (Suc (length evs) - (length evs - ?c) - ?c) = Suc (length evs) - ?c"
      using assms by (auto simp: pub_inv_def)
    finally show ?thesis by (simp add: numbered_snoc xs_def)
  qed
  moreover have "next_id (pub_ring (snd (publish p e))) = Suc (length (evs @ [e]))"
    "capacity (pub_ring (snd (publish p e))) = capacity (pub_ring p)"
    using evs by (simp_all add: publish_def Let_def)
  ultimately show ?thesis
    using assms unfolding pub_inv_def by (metis length_append_singleton length_numbered)
qed

lemma published_inv: "published cap p \<Longrightarrow> pub_inv p"
  by (induction rule: published.induct) (auto intro: inv_intros)

lemma filter_numbered:
  "filter (\<lambda>e. c < fst e) (drop k (numbered evs)) = drop (max c k) (numbered evs)"
proof (induction evs rule: rev_induct)
  case (snoc e evs)
  then show ?case by (cases "k \<le> length evs"; cases "c \<le> length evs") (auto simp: numbered_snoc)
qed (simp add: numbered_def)

lemma pub_invE:
  assumes "pub_inv p"
  obtains evs where "pub_sent p = numbered evs" "next_id (pub_ring p) = Suc (length (pub_sent p))"
    "0 < capacity (pub_ring p)" "buf (pub_ring p) = drop (length (pub_sent p) - capacity (pub_ring p)) (pub_sent p)"
  using assms by (auto simp: pub_inv_def)

lemma sent_nth: "\<lbrakk>pub_inv p; i < length (pub_sent p)\<rbrakk> \<Longrightarrow> fst (pub_sent p ! i) = Suc i"
  by (auto elim!: pub_invE simp: numbered_nth)

lemma ring_after_eq:
  assumes "pub_inv p"
  shows "ring_after (pub_ring p) c = drop (max c (length (pub_sent p) - capacity (pub_ring p))) (pub_sent p)"
  using assms by (auto elim!: pub_invE simp: ring_after_def filter_numbered)

lemma ring_oldest_eq:
  assumes "pub_inv p"
  shows "ring_oldest (pub_ring p) =
    (if pub_sent p = [] then None else Some (Suc (length (pub_sent p) - capacity (pub_ring p))))"
proof (cases "pub_sent p = []")
  case True
  then show ?thesis using assms by (auto elim!: pub_invE simp: ring_oldest_def)
next
  case False
  let ?k = "length (pub_sent p) - capacity (pub_ring p)"
  have k: "?k < length (pub_sent p)" using assms False
    by (elim pub_invE) (metis diff_less length_greater_0_conv)
  then have "buf (pub_ring p) = pub_sent p ! ?k # drop (Suc ?k) (pub_sent p)"
    using assms by (auto elim!: pub_invE simp: Cons_nth_drop_Suc)
  then show ?thesis using False sent_nth[OF assms k] by (simp add: ring_oldest_def)
qed

lemma refill_without_gap:
  assumes "pub_inv p" "c \<le> length (pub_sent p)"
    and "\<not> (case ring_oldest (pub_ring p) of None \<Rightarrow> False | Some oldest \<Rightarrow> c + 1 < oldest)"
  shows "ring_after (pub_ring p) c = drop c (pub_sent p)"
  using assms by (auto simp: ring_after_eq ring_oldest_eq max_def split: if_splits)

section \<open>A subscriber misses nothing and sees nothing twice\<close>

definition sub_inv :: "publisher \<Rightarrow> subscription \<Rightarrow> bool" where
  "sub_inv p sub \<longleftrightarrow> sub_cursor sub \<le> length (pub_sent p) \<and> sub_rx sub \<le> length (pub_sent p)
     \<and> sub_backlog sub @ drop (sub_rx sub) (pub_sent p) = drop (sub_cursor sub) (pub_sent p)"

lemma sent_publish [simp]: "\<exists>x. pub_sent (snd (publish p e)) = pub_sent p @ [x]"
  by (simp add: publish_def Let_def)

lemma sub_inv_publish [inv_intros]: "sub_inv p sub \<Longrightarrow> sub_inv (snd (publish p e)) sub"
  using sent_publish[of p e] by (auto simp: sub_inv_def)

lemma subscribe_sub_inv:
  assumes "pub_inv p" "subscribe p kb after = Inr sub"
  shows "sub_inv p sub \<and> sub_kb sub = kb
    \<and> sub_cursor sub = (case after of None \<Rightarrow> length (pub_sent p) | Some r \<Rightarrow> r)"
proof -
  have n: "next_id (pub_ring p) = Suc (length (pub_sent p))" using assms(1) by (auto elim: pub_invE)
  show ?thesis
  proof (cases after)
    case None
    then show ?thesis using assms(2) n by (auto simp: subscribe_def sub_inv_def)
  next
    case (Some r)
    show ?thesis
    proof (cases "r < length (pub_sent p)")
      case True
      then have "pub_sent p \<noteq> []" by auto
      then have "ring_after (pub_ring p) r = drop r (pub_sent p)"
        using assms True Some n
        by (intro refill_without_gap) (auto simp: subscribe_def Let_def ring_oldest_eq split: if_splits)
      then show ?thesis using assms(2) n Some True
        by (auto simp: subscribe_def Let_def sub_inv_def split: if_splits)
    next
      case False
      then show ?thesis using assms(2) n Some
        by (auto simp: subscribe_def Let_def sub_inv_def split: if_splits)
    qed
  qed
qed

text \<open>The entry a step takes from the backlog or the channel is the one right after the cursor.\<close>

lemma deliver_next:
  assumes "pub_inv p" "sub_cursor sub < length (pub_sent p)"
  shows "deliver sub (pub_sent p ! sub_cursor sub) =
    (if oe_kb (snd (pub_sent p ! sub_cursor sub)) = sub_kb sub
     then Step_Yield (pub_sent p ! sub_cursor sub) else Step_Skip, sub\<lparr>sub_cursor := Suc (sub_cursor sub)\<rparr>)"
  using sent_nth[OF assms] by (simp add: deliver_def Let_def)

lemma sub_step_cases:
  assumes p: "pub_inv p" and s: "sub_inv p sub" and o: "in_order recv"
  obtains (next_entry) sub' where "sub_cursor sub < length (pub_sent p)"
      "sub_step recv p sub = (if oe_kb (snd (pub_sent p ! sub_cursor sub)) = sub_kb sub
         then Step_Yield (pub_sent p ! sub_cursor sub) else Step_Skip, sub')"
      "sub_cursor sub' = Suc (sub_cursor sub)" "sub_kb sub' = sub_kb sub" "sub_inv p sub'"
      "length (pub_sent p) - sub_rx sub' \<le> length (pub_sent p) - sub_rx sub"
  | (refilled) sub' where "sub_step recv p sub = (Step_Skip, sub')"
      "sub_cursor sub' = sub_cursor sub" "sub_kb sub' = sub_kb sub" "sub_inv p sub'"
      "sub_rx sub < length (pub_sent p)" "sub_rx sub' = length (pub_sent p)"
  | (lagged) sub' where "sub_step recv p sub = (Step_Lagged, sub')" "sub_cursor sub' = sub_cursor sub"
      "sub_cursor sub < length (pub_sent p) - capacity (pub_ring p)"
  | (waiting) r where "sub_step recv p sub = (r, sub)" "r = Step_Pending \<or> r = Step_Closed"
      "sub_cursor sub = length (pub_sent p)"
proof (cases "sub_backlog sub")
  case (Cons e rest)
  have "drop (sub_cursor sub) (pub_sent p) \<noteq> []" using s Cons by (auto simp: sub_inv_def)
  then have c: "sub_cursor sub < length (pub_sent p)" by simp
  then have e: "e = pub_sent p ! sub_cursor sub"
    "rest @ drop (sub_rx sub) (pub_sent p) = drop (Suc (sub_cursor sub)) (pub_sent p)"
    using s Cons by (auto simp: sub_inv_def Cons_nth_drop_Suc[symmetric])
  show thesis
  proof (rule next_entry)
    show "sub_step recv p sub = (if oe_kb (snd (pub_sent p ! sub_cursor sub)) = sub_kb sub
         then Step_Yield (pub_sent p ! sub_cursor sub) else Step_Skip,
         sub\<lparr>sub_backlog := rest, sub_cursor := Suc (sub_cursor sub)\<rparr>)"
      using deliver_next[OF p, of "sub\<lparr>sub_backlog := rest\<rparr>"] c Cons e(1) by (simp add: sub_step_def)
  qed (use c e(2) s in \<open>auto simp: sub_inv_def\<close>)
next
  case Nil
  have o': "case recv (pub_sent p) (sub_rx sub) of
        Recv_Ok e \<Rightarrow> sub_rx sub < length (pub_sent p) \<and> e = pub_sent p ! sub_rx sub
      | Recv_Lagged \<Rightarrow> sub_rx sub < length (pub_sent p)
      | Recv_Pending \<Rightarrow> length (pub_sent p) \<le> sub_rx sub
      | Recv_Closed \<Rightarrow> length (pub_sent p) \<le> sub_rx sub"
    using o by (simp add: in_order_def)
  have "length (drop (sub_rx sub) (pub_sent p)) = length (drop (sub_cursor sub) (pub_sent p))"
    using s Nil by (simp add: sub_inv_def)
  then have eq: "sub_rx sub = sub_cursor sub" using s by (auto simp: sub_inv_def)
  show thesis
  proof (cases "recv (pub_sent p) (sub_rx sub)")
    case (Recv_Ok e)
    show thesis
    proof (rule next_entry)
      show "sub_step recv p sub = (if oe_kb (snd (pub_sent p ! sub_cursor sub)) = sub_kb sub
         then Step_Yield (pub_sent p ! sub_cursor sub) else Step_Skip,
         sub\<lparr>sub_rx := sub_rx sub + 1, sub_cursor := Suc (sub_cursor sub)\<rparr>)"
        using deliver_next[OF p, of "sub\<lparr>sub_rx := sub_rx sub + 1\<rparr>"] Nil Recv_Ok o' eq by (simp add: sub_step_def)
    qed (use o' Recv_Ok eq Nil in \<open>auto simp: sub_inv_def\<close>)
  next
    case Recv_Lagged
    let ?gap = "case ring_oldest (pub_ring p) of None \<Rightarrow> False | Some oldest \<Rightarrow> sub_cursor sub + 1 < oldest"
    show thesis
    proof (cases ?gap)
      case True
      show thesis
        by (rule lagged[of "sub\<lparr>sub_rx := length (pub_sent p)\<rparr>"])
          (use True Nil Recv_Lagged ring_oldest_eq[OF p] in \<open>auto simp: sub_step_def Let_def split: if_splits\<close>)
    next
      case False
      have "ring_after (pub_ring p) (sub_cursor sub) = drop (sub_cursor sub) (pub_sent p)"
        using refill_without_gap[OF p] False s by (simp add: sub_inv_def)
      then show thesis
        by (intro refilled[of "sub\<lparr>sub_rx := length (pub_sent p), sub_backlog := drop (sub_cursor sub) (pub_sent p)\<rparr>"])
          (use False Nil Recv_Lagged o' s in \<open>auto simp: sub_step_def Let_def sub_inv_def\<close>)
    qed
  next
    case Recv_Pending
    show thesis by (rule waiting[of Step_Pending]) (use Nil Recv_Pending o' eq s in \<open>auto simp: sub_step_def sub_inv_def\<close>)
  next
    case Recv_Closed
    show thesis by (rule waiting[of Step_Closed]) (use Nil Recv_Closed o' eq s in \<open>auto simp: sub_step_def sub_inv_def\<close>)
  qed
qed

definition events_for :: "kb_slug \<Rightarrow> nat \<Rightarrow> nat \<Rightarrow> entry list \<Rightarrow> entry list" where
  "events_for kb from to sent = filter (\<lambda>e. oe_kb (snd e) = kb) (drop from (take to sent))"

lemma events_for_Suc:
  assumes "from \<le> to" "to < length sent"
  shows "events_for kb from (Suc to) sent =
    events_for kb from to sent @ (if oe_kb (snd (sent ! to)) = kb then [sent ! to] else [])"
  using assms by (simp add: events_for_def take_Suc_conv_app_nth)

lemma events_for_append [simp]: "to \<le> length sent \<Longrightarrow> events_for kb from to (sent @ xs) = events_for kb from to sent"
  by (simp add: events_for_def)

definition stream_inv :: "kb_slug \<Rightarrow> nat \<Rightarrow> nat \<Rightarrow> publisher \<Rightarrow> event_stream \<Rightarrow> bool" where
  "stream_inv kb from c p s \<longleftrightarrow> pub_inv p \<and> from \<le> c \<and> c \<le> length (pub_sent p) \<and>
     (case es_sub s of
        Some sub \<Rightarrow> es_out s = map Inr (events_for kb from c (pub_sent p))
          \<and> sub_cursor sub = c \<and> sub_kb sub = kb \<and> sub_inv p sub
      | None \<Rightarrow> es_out s = map Inr (events_for kb from c (pub_sent p)) @ [Inl (Stream_Lagged c)]
               \<and> c < length (pub_sent p)
          \<or> es_out s = map Inr (events_for kb from c (pub_sent p)))"

lemma stream_inv_publish:
  assumes "stream_inv kb from c p s"
  shows "stream_inv kb from c (snd (publish p e)) s"
proof -
  obtain x where "pub_sent (snd (publish p e)) = pub_sent p @ [x]" using sent_publish by blast
  then show ?thesis using assms pub_inv_publish[of p e] sub_inv_publish[of p _ e]
    unfolding stream_inv_def by (auto split: option.splits)
qed

lemma stream_inv_advance:
  assumes "stream_inv kb from c p s" "in_order recv"
  shows "\<exists>c'. stream_inv kb from c' p (stream_advance recv p s)"
proof (cases "es_sub s")
  case None
  then show ?thesis using assms(1) by (auto simp: stream_advance_def)
next
  case (Some sub)
  have inv: "pub_inv p" "sub_inv p sub" "sub_cursor sub = c" "sub_kb sub = kb" "from \<le> c" "c \<le> length (pub_sent p)"
    "es_out s = map Inr (events_for kb from c (pub_sent p))"
    using assms(1) Some by (simp_all add: stream_inv_def)
  from inv(1,2) assms(2) show ?thesis
  proof (cases rule: sub_step_cases)
    case (next_entry sub')
    then show ?thesis using inv Some
      by (intro exI[of _ "Suc c"]) (simp add: stream_inv_def stream_advance_def events_for_Suc)
  next
    case (refilled sub')
    then show ?thesis using inv Some by (intro exI[of _ c]) (simp add: stream_inv_def stream_advance_def)
  next
    case (lagged sub')
    then show ?thesis using inv Some by (intro exI[of _ c]) (simp add: stream_inv_def stream_advance_def)
  next
    case (waiting r)
    then show ?thesis using inv Some
      by (intro exI[of _ c]) (auto simp: stream_inv_def stream_advance_def)
  qed
qed

lemma stream_inv_run:
  assumes "log_run recv (p0, s0) (p, s)" "stream_inv kb from c0 p0 s0" "in_order recv"
  shows "\<exists>c. stream_inv kb from c p s"
  using assms(1,2)
proof (induction "(p0, s0)" "(p, s)" arbitrary: p s rule: log_run.induct)
  case (publishes p s e)
  then show ?case using stream_inv_publish by blast
next
  case (advances p s)
  then show ?case using stream_inv_advance assms(3) by blast
qed blast

lemma stream_inv_start:
  assumes "published cap p" "subscribe p kb after = Inr sub"
  shows "stream_inv kb (case after of None \<Rightarrow> length (pub_sent p) | Some r \<Rightarrow> r) (sub_cursor sub) p
    \<lparr>es_sub = Some sub, es_out = []\<rparr>"
  using subscribe_sub_inv[OF published_inv[OF assms(1)] assms(2)] published_inv[OF assms(1)]
  by (auto simp: stream_inv_def events_for_def sub_inv_def split: option.splits)

text \<open>Advancing alone, a live stream reaches the end of the log, or ends with a lag.\<close>

lemma stream_drains:
  assumes "stream_inv kb from c p s" "in_order recv" "es_sub s = Some sub"
  shows "\<exists>n s'. (stream_advance recv p ^^ n) s = s' \<and>
    (es_out s' = map Inr (events_for kb from (length (pub_sent p)) (pub_sent p))
     \<or> es_sub s' = None \<and> (\<exists>c' < length (pub_sent p).
          es_out s' = map Inr (events_for kb from c' (pub_sent p)) @ [Inl (Stream_Lagged c')]))"
    (is "?goal s")
  using assms(1,3)
proof (induction "2 * (length (pub_sent p) - c) + (length (pub_sent p) - sub_rx sub)"
    arbitrary: s c sub rule: less_induct)
  case less
  have inv: "pub_inv p" "sub_inv p sub" "sub_cursor sub = c" "sub_kb sub = kb" "from \<le> c" "c \<le> length (pub_sent p)"
    "es_out s = map Inr (events_for kb from c (pub_sent p))"
    using less.prems by (simp_all add: stream_inv_def)
  let ?s = "stream_advance recv p s"
  have step: "?goal s" if "?goal ?s"
  proof -
    from that obtain n where "?goal ?s" "es_out ((stream_advance recv p ^^ n) ?s) = map Inr (events_for kb from (length (pub_sent p)) (pub_sent p))
     \<or> es_sub ((stream_advance recv p ^^ n) ?s) = None \<and> (\<exists>c' < length (pub_sent p).
          es_out ((stream_advance recv p ^^ n) ?s) = map Inr (events_for kb from c' (pub_sent p)) @ [Inl (Stream_Lagged c')])"
      by blast
    then show ?thesis by (intro exI[of _ "Suc n"]) (simp add: funpow_swap1)
  qed
  from inv(1,2) assms(2) show ?case
  proof (cases rule: sub_step_cases)
    case (next_entry sub')
    then have "es_sub ?s = Some sub'" "stream_inv kb from (Suc c) p ?s" using inv less.prems(2)
      by (simp_all add: stream_inv_def stream_advance_def events_for_Suc)
    then have "?goal ?s" using next_entry inv(3) by (intro less.hyps) auto
    then show ?thesis by (rule step)
  next
    case (refilled sub')
    then have "es_sub ?s = Some sub'" "stream_inv kb from c p ?s" using inv less.prems(2)
      by (simp_all add: stream_inv_def stream_advance_def)
    then have "?goal ?s" using refilled by (intro less.hyps) auto
    then show ?thesis by (rule step)
  next
    case (lagged sub')
    then show ?thesis using inv less.prems(2)
      by (intro exI[of _ "Suc 0"]) (auto simp: stream_advance_def)
  next
    case (waiting r)
    then show ?thesis using inv by (intro exI[of _ 0]) auto
  qed
qed

text \<open>
  C5: A subscription is exact under every interleaving of publishing and reading: what the stream
  has produced is, in order and without repetition, precisely the events of its knowledge base among a
  contiguous stretch of the log that begins right after the requested position (or at the moment of
  subscribing), whether an event came from the replay, from the live channel or from a refill after a
  lag.  An item that is not an event is the last one, reports the lag, and names the exact position
  to resume from.
\<close>

theorem event_stream_exact:
  assumes "published cap p0" "subscribe p0 kb after = Inr sub" "in_order recv"
    "log_run recv (p0, \<lparr>es_sub = Some sub, es_out = []\<rparr>) (p, s)"
  shows "\<exists>c. (case after of None \<Rightarrow> length (pub_sent p0) | Some r \<Rightarrow> r) \<le> c \<and> c \<le> length (pub_sent p)
    \<and> (let got = map Inr (filter (\<lambda>e. oe_kb (snd e) = kb)
                   (drop (case after of None \<Rightarrow> length (pub_sent p0) | Some r \<Rightarrow> r) (take c (pub_sent p))))
       in es_out s = got \<or> es_sub s = None \<and> c < length (pub_sent p) \<and> es_out s = got @ [Inl (Stream_Lagged c)])"
proof -
  obtain c where "stream_inv kb (case after of None \<Rightarrow> length (pub_sent p0) | Some r \<Rightarrow> r) c p s"
    using stream_inv_run[OF assms(4) stream_inv_start[OF assms(1,2)] assms(3)] by blast
  then show ?thesis
    unfolding stream_inv_def events_for_def Let_def by (intro exI[of _ c]) (cases "es_sub s"; auto)
qed

text \<open>
  C25: A reader that keeps reading catches up: from any state of a run, a finite number of advances
  brings the stream either to the end of the log, with every event of its knowledge base since the start
  delivered, or to its end with a lag report that names the position up to which everything was delivered.
\<close>

theorem event_stream_catches_up:
  assumes "published cap p0" "subscribe p0 kb after = Inr sub" "in_order recv"
    "log_run recv (p0, \<lparr>es_sub = Some sub, es_out = []\<rparr>) (p, s)" "es_sub s \<noteq> None"
  shows "\<exists>n. (let s' = (stream_advance recv p ^^ n) s;
                 from = (case after of None \<Rightarrow> length (pub_sent p0) | Some r \<Rightarrow> r);
                 upto = (\<lambda>c. map Inr (filter (\<lambda>e. oe_kb (snd e) = kb) (drop from (take c (pub_sent p))))) in
    es_out s' = upto (length (pub_sent p))
    \<or> es_sub s' = None \<and> (\<exists>c < length (pub_sent p). es_out s' = upto c @ [Inl (Stream_Lagged c)]))"
proof -
  let ?from = "case after of None \<Rightarrow> length (pub_sent p0) | Some r \<Rightarrow> r"
  obtain c where inv: "stream_inv kb ?from c p s"
    using stream_inv_run[OF assms(4) stream_inv_start[OF assms(1,2)] assms(3)] by blast
  obtain sub' where "es_sub s = Some sub'" using assms(5) by blast
  from stream_drains[OF inv assms(3) this] show ?thesis unfolding events_for_def Let_def by blast
qed

lemma lost_events_iff:
  assumes "pub_inv p"
  shows "(\<exists>e \<in> set (pub_sent p). r < fst e \<and> e \<notin> set (buf (pub_ring p)))
    \<longleftrightarrow> r < length (pub_sent p) - capacity (pub_ring p)" (is "?lost \<longleftrightarrow> r < ?k")
proof
  have buf: "buf (pub_ring p) = drop ?k (pub_sent p)" using assms by (auto elim: pub_invE)
  {
    assume ?lost
    then obtain i where i: "i < length (pub_sent p)" "r < fst (pub_sent p ! i)"
      "pub_sent p ! i \<notin> set (drop ?k (pub_sent p))" unfolding buf by (auto simp: in_set_conv_nth)
    have "i < ?k"
    proof (rule ccontr)
      assume "\<not> i < ?k"
      then have "pub_sent p ! i = drop ?k (pub_sent p) ! (i - ?k)" "i - ?k < length (drop ?k (pub_sent p))"
        using i(1) by (auto simp: nth_drop)
      then show False using i(3) nth_mem by metis
    qed
    then show "r < ?k" using i sent_nth[OF assms i(1)] by simp
  next
    assume k: "r < ?k"
    then have i: "?k - 1 < length (pub_sent p)" by simp
    have "pub_sent p ! (?k - 1) \<notin> set (drop ?k (pub_sent p))"
    proof
      assume "pub_sent p ! (?k - 1) \<in> set (drop ?k (pub_sent p))"
      then obtain j where j: "j < length (pub_sent p) - ?k" "pub_sent p ! (?k - 1) = pub_sent p ! (?k + j)"
        by (auto simp: in_set_conv_nth nth_drop)
      then have "Suc (?k - 1) = Suc (?k + j)" using sent_nth[OF assms] i by (metis less_diff_conv add.commute)
      then show False using k by simp
    qed
    then show ?lost unfolding buf
      using sent_nth[OF assms i] k i by (intro bexI[of _ "pub_sent p ! (?k - 1)"]) auto
  }
qed

text \<open>
  Resuming is refused exactly when it would lose events: \<^verbatim>\<open>subscribe\<close> after a requested id answers
  \<^verbatim>\<open>Gone\<close> if and only if that id was never handed out by this log or some event after it has left
  the ring, and otherwise the subscription starts right after it.
\<close>

theorem subscribe_gone_exact:
  assumes "published cap p"
  shows "if length (pub_sent p) < requested
        \<or> (\<exists>e \<in> set (pub_sent p). requested < fst e \<and> e \<notin> set (buf (pub_ring p)))
    then \<exists>oldest. subscribe p kb (Some requested) = Inl (Sub_Gone requested oldest)
    else \<exists>sub. subscribe p kb (Some requested) = Inr sub \<and> sub_cursor sub = requested \<and> sub_kb sub = kb"
proof -
  have inv: "pub_inv p" using published_inv assms .
  have n: "next_id (pub_ring p) = Suc (length (pub_sent p))" "0 < capacity (pub_ring p)"
    using inv by (auto elim: pub_invE)
  show ?thesis
    unfolding lost_events_iff[OF inv] using ring_oldest_eq[OF inv] n
    by (auto simp: subscribe_def Let_def)
qed

section \<open>Witnesses\<close>

text \<open>A channel of two entries: further behind, a receiver has lagged.\<close>

definition recv_two :: "entry list \<Rightarrow> nat \<Rightarrow> recv_result" where
  "recv_two sent pos =
     (if length sent \<le> pos then Recv_Pending
      else if pos + 2 < length sent then Recv_Lagged else Recv_Ok (sent ! pos))"

lemma recv_two_in_order: "in_order recv_two"
  by (simp add: in_order_def recv_two_def)

definition sample_event :: "string \<Rightarrow> object_event" where
  "sample_event kb = event_deleted ''t'' (KbSlug kb) (ObjectPath ''a'') Src_Http"

fun publish_all :: "publisher \<Rightarrow> string list \<Rightarrow> publisher" where
  "publish_all p [] = p"
| "publish_all p (kb # kbs) = publish_all (snd (publish p (sample_event kb))) kbs"

lemma published_all: "published cap p \<Longrightarrow> published cap (publish_all p kbs)"
  by (induction p kbs rule: publish_all.induct) (auto intro: published.more)

lemma run_all: "log_run recv st (p, s) \<Longrightarrow> log_run recv st (publish_all p kbs, s)"
  by (induction p kbs rule: publish_all.induct) (auto intro: log_run.publishes)

text \<open>
  A log of three entries; a subscriber attaches, three more events follow, so the channel has dropped
  one of them and the first advance refills from the ring.
\<close>

definition demo_log :: publisher where
  "demo_log = publish_all (publisher_new 3) [''a'', ''b'', ''a'']"

definition demo_stream :: "subscription \<Rightarrow> event_stream" where
  "demo_stream sub = \<lparr>es_sub = Some sub, es_out = []\<rparr>"

definition demo_sub :: subscription where
  "demo_sub = \<lparr>sub_kb = KbSlug ''a'', sub_backlog = [], sub_rx = 3, sub_cursor = 3\<rparr>"

definition demo_later :: publisher where
  "demo_later = publish_all demo_log [''a'', ''b'', ''a'']"

lemma demo_subscribe: "subscribe demo_log (KbSlug ''a'') None = Inr demo_sub"
  by code_simp

lemma demo_run:
  "log_run recv_two (demo_log, demo_stream demo_sub) (demo_later, (stream_advance recv_two demo_later ^^ n) (demo_stream demo_sub))"
proof (induction n)
  case 0
  show ?case unfolding demo_later_def funpow_0 by (intro run_all log_run.start)
next
  case (Suc n)
  then show ?case using log_run.advances by simp
qed

lemma demo_published: "published 3 demo_log"
  unfolding demo_log_def by (intro published_all published.new)

lemma demo_out: "es_out ((stream_advance recv_two demo_later ^^ 4) (demo_stream demo_sub)) =
   [Inr (4, sample_event ''a''), Inr (6, sample_event ''a'')]"
  by code_simp

theorem event_stream_exact_witness:
  "es_out ((stream_advance recv_two demo_later ^^ 4) (demo_stream demo_sub)) =
     [Inr (4, sample_event ''a''), Inr (6, sample_event ''a'')]
   \<and> (\<exists>c. 3 \<le> c \<and> c \<le> length (pub_sent demo_later) \<and>
       (let got = map Inr (filter (\<lambda>e. oe_kb (snd e) = KbSlug ''a'') (drop 3 (take c (pub_sent demo_later))));
            s = (stream_advance recv_two demo_later ^^ 4) (demo_stream demo_sub)
        in es_out s = got \<or> es_sub s = None \<and> c < length (pub_sent demo_later) \<and> es_out s = got @ [Inl (Stream_Lagged c)]))"
proof
  have len: "length (pub_sent demo_log) = 3" by code_simp
  show "\<exists>c. 3 \<le> c \<and> c \<le> length (pub_sent demo_later) \<and>
       (let got = map Inr (filter (\<lambda>e. oe_kb (snd e) = KbSlug ''a'') (drop 3 (take c (pub_sent demo_later))));
            s = (stream_advance recv_two demo_later ^^ 4) (demo_stream demo_sub)
        in es_out s = got \<or> es_sub s = None \<and> c < length (pub_sent demo_later) \<and> es_out s = got @ [Inl (Stream_Lagged c)])"
    using event_stream_exact[OF demo_published demo_subscribe recv_two_in_order demo_run[unfolded demo_stream_def], of 4]
    unfolding demo_stream_def Let_def len option.case by blast
qed (rule demo_out)

theorem event_stream_catches_up_witness:
  "\<exists>n. (let s' = (stream_advance recv_two demo_later ^^ n) (demo_stream demo_sub);
            upto = (\<lambda>c. map Inr (filter (\<lambda>e. oe_kb (snd e) = KbSlug ''a'') (drop 3 (take c (pub_sent demo_later))))) in
    es_out s' = upto (length (pub_sent demo_later))
    \<or> es_sub s' = None \<and> (\<exists>c < length (pub_sent demo_later). es_out s' = upto c @ [Inl (Stream_Lagged c)]))"
proof -
  have len: "length (pub_sent demo_log) = 3" by code_simp
  have live: "es_sub ((stream_advance recv_two demo_later ^^ 0) (demo_stream demo_sub)) \<noteq> None"
    by (simp add: demo_stream_def)
  show ?thesis
    using event_stream_catches_up[OF demo_published demo_subscribe recv_two_in_order
        demo_run[unfolded demo_stream_def] live[unfolded demo_stream_def]]
    unfolding demo_stream_def Let_def len option.case by simp
qed

theorem subscribe_gone_exact_witness:
  "(\<exists>oldest. subscribe demo_later (KbSlug ''a'') (Some 2) = Inl (Sub_Gone 2 oldest))
   \<and> (\<exists>sub. subscribe demo_later (KbSlug ''a'') (Some 4) = Inr sub \<and> sub_cursor sub = 4 \<and> sub_kb sub = KbSlug ''a'')"
proof -
  have pub: "published 3 demo_later" unfolding demo_later_def by (intro published_all demo_published)
  have lost: "length (pub_sent demo_later) < 2
      \<or> (\<exists>e \<in> set (pub_sent demo_later). 2 < fst e \<and> e \<notin> set (buf (pub_ring demo_later)))"
    by code_simp
  have kept: "\<not> (length (pub_sent demo_later) < 4
      \<or> (\<exists>e \<in> set (pub_sent demo_later). 4 < fst e \<and> e \<notin> set (buf (pub_ring demo_later))))"
    by code_simp
  show ?thesis
    using subscribe_gone_exact[OF pub, of 2 "KbSlug ''a''"] subscribe_gone_exact[OF pub, of 4 "KbSlug ''a''"]
    unfolding if_P[OF lost] if_not_P[OF kept] by blast
qed

end
