(* ===== verification/Index_Queue.thy ===== *)
theory Index_Queue
  imports Event_Log "HOL-Library.Multiset"
begin

text \<open>
  The indexing queue and the worker's scheduler (\<^verbatim>\<open>notedthat-indexer\<close>: \<^verbatim>\<open>event.rs\<close>, \<^verbatim>\<open>queue.rs\<close>,
  \<^verbatim>\<open>worker.rs\<close>, \<^verbatim>\<open>worker/last_seen.rs\<close>): a bounded ingress whose permits travel with the events, one
  FIFO lane per object, and a bounded number of handlers running at once.

  What a handler does with one event is not part of the scheduler; the model only says when it starts
  and when it finishes.  Producers and the worker's loop interleave in a step relation.  The histories
  \<open>w_sent\<close>, \<open>w_started\<close> and \<open>w_finished\<close> record what was accepted, started and finished so far; no operation
  reads them.
\<close>

section \<open>Events\<close>

datatype refresh_origin = Origin_Watch | Origin_Reconcile

fun origin_source :: "refresh_origin \<Rightarrow> event_source" where
  "origin_source Origin_Watch = Src_FsWatch"
| "origin_source Origin_Reconcile = Src_Reconcile"

datatype index_event =
    Upsert kb_slug object_path
  | Refresh kb_slug object_path refresh_origin
  | Tombstone kb_slug object_path

fun event_kb :: "index_event \<Rightarrow> kb_slug" where
  "event_kb (Upsert kb _) = kb"
| "event_kb (Refresh kb _ _) = kb"
| "event_kb (Tombstone kb _) = kb"

fun event_object_key :: "index_event \<Rightarrow> object_path" where
  "event_object_key (Upsert _ key) = key"
| "event_object_key (Refresh _ key _) = key"
| "event_object_key (Tombstone _ key) = key"

fun event_kind_name :: "index_event \<Rightarrow> string" where
  "event_kind_name (Upsert _ _) = ''upsert''"
| "event_kind_name (Refresh _ _ _) = ''refresh''"
| "event_kind_name (Tombstone _ _) = ''tombstone''"

type_synonym lane_key = "kb_slug \<times> object_path"

abbreviation event_key :: "index_event \<Rightarrow> lane_key" where
  "event_key e \<equiv> (event_kb e, event_object_key e)"

section \<open>The bounded ingress\<close>

text \<open>
  \<open>q_permits\<close> are the semaphore's free permits and \<open>q_receiver\<close> says whether the receiving half is still
  there.  The semaphore is never closed.
\<close>

record index_queue =
  q_capacity :: nat
  q_permits :: nat
  q_channel :: "index_event list"
  q_receiver :: bool

datatype try_send_error = Send_Full index_event | Send_Closed index_event

definition INDEX_QUEUE_CAPACITY :: nat where
  "INDEX_QUEUE_CAPACITY = 1024"

definition index_queue_new :: "nat \<Rightarrow> index_queue" where
  "index_queue_new cap = \<lparr>q_capacity = cap, q_permits = cap, q_channel = [], q_receiver = True\<rparr>"

definition queue_try_send :: "index_queue \<Rightarrow> index_event \<Rightarrow> (try_send_error, unit) result \<times> index_queue" where
  "queue_try_send q event =
     (if q_permits q = 0 then (Inl (Send_Full event), q)
      else if \<not> q_receiver q then (Inl (Send_Closed event), q)
      else (Inr (), q\<lparr>q_permits := q_permits q - 1, q_channel := q_channel q @ [event]\<rparr>))"

text \<open>The waiting \<^verbatim>\<open>send\<close>: no value while it waits for a permit.\<close>

definition queue_send :: "index_queue \<Rightarrow> index_event \<Rightarrow> ((index_event, unit) result \<times> index_queue) option" where
  "queue_send q event =
     (if q_permits q = 0 then None
      else if \<not> q_receiver q then Some (Inl event, q)
      else Some (Inr (), q\<lparr>q_permits := q_permits q - 1, q_channel := q_channel q @ [event]\<rparr>))"

definition queue_depth :: "index_queue \<Rightarrow> nat" where
  "queue_depth q = q_capacity q - q_permits q"

definition queue_recv :: "index_queue \<Rightarrow> (index_event \<times> index_queue) option" where
  "queue_recv q = (case q_channel q of [] \<Rightarrow> None | e # es \<Rightarrow> Some (e, q\<lparr>q_channel := es\<rparr>))"

text \<open>Dropping an accepted event returns its permit.\<close>

definition release_permit :: "index_queue \<Rightarrow> index_queue" where
  "release_permit q = q\<lparr>q_permits := q_permits q + 1\<rparr>"

section \<open>Lanes\<close>

record lanes =
  waiting :: "lane_key \<rightharpoonup> index_event list"
  active :: "lane_key set"
  ready :: "lane_key list"

definition lanes_default :: lanes where
  "lanes_default = \<lparr>waiting = Map.empty, active = {}, ready = []\<rparr>"

definition lanes_accept :: "lanes \<Rightarrow> index_event \<Rightarrow> lanes" where
  "lanes_accept l queued =
     (let key = event_key queued;
          lane = (case waiting l key of None \<Rightarrow> [] | Some es \<Rightarrow> es) @ [queued];
          l' = l\<lparr>waiting := (waiting l)(key \<mapsto> lane)\<rparr> in
      if length lane = 1 \<and> key \<notin> active l then l'\<lparr>ready := ready l @ [key]\<rparr> else l')"

datatype 'a start_result = Nothing_Ready | Started lane_key index_event 'a | Start_Panic

definition lanes_start_next :: "lanes \<Rightarrow> lanes start_result" where
  "lanes_start_next l =
     (case ready l of
        [] \<Rightarrow> Nothing_Ready
      | key # rest \<Rightarrow>
          (case waiting l key of
             None \<Rightarrow> Start_Panic
           | Some [] \<Rightarrow> Start_Panic
           | Some (queued # lane) \<Rightarrow>
               Started key queued
                 (l\<lparr>ready := rest,
                    waiting := (waiting l)(key := (if lane = [] then None else Some lane)),
                    active := insert key (active l)\<rparr>)))"

definition lanes_finish :: "lanes \<Rightarrow> lane_key \<Rightarrow> lanes" where
  "lanes_finish l key =
     (let l' = l\<lparr>active := active l - {key}\<rparr> in
      if waiting l key \<noteq> None then l'\<lparr>ready := ready l @ [key]\<rparr> else l')"

definition lanes_is_idle :: "lanes \<Rightarrow> bool" where
  "lanes_is_idle l \<longleftrightarrow> dom (waiting l) = {}"

section \<open>Stamps last seen\<close>

record last_seen =
  stamps :: "lane_key \<rightharpoonup> string option"
  seen_order :: "lane_key list"
  seen_capacity :: nat

definition LAST_SEEN_CAPACITY :: nat where
  "LAST_SEEN_CAPACITY = 4096"

definition last_seen_with_capacity :: "nat \<Rightarrow> last_seen" where
  "last_seen_with_capacity cap = \<lparr>stamps = Map.empty, seen_order = [], seen_capacity = max cap 1\<rparr>"

fun forget_oldest :: "nat \<Rightarrow> lane_key list \<Rightarrow> (lane_key \<rightharpoonup> string option) \<Rightarrow> lane_key list \<times> (lane_key \<rightharpoonup> string option)" where
  "forget_oldest cap [] m = ([], m)"
| "forget_oldest cap (k # ks) m =
     (if cap < length (k # ks) then forget_oldest cap ks (m(k := None)) else (k # ks, m))"

definition last_seen_record :: "last_seen \<Rightarrow> lane_key \<Rightarrow> string option \<Rightarrow> last_seen" where
  "last_seen_record ls key etag =
     (let order = (if stamps ls key = None then seen_order ls @ [key] else seen_order ls);
          (order', stamps') = forget_oldest (seen_capacity ls) order ((stamps ls)(key \<mapsto> etag)) in
      ls\<lparr>stamps := stamps', seen_order := order'\<rparr>)"

definition last_seen_differs :: "last_seen \<Rightarrow> lane_key \<Rightarrow> string option \<Rightarrow> bool" where
  "last_seen_differs ls key etag = (case stamps ls key of None \<Rightarrow> True | Some seen \<Rightarrow> seen \<noteq> etag)"

section \<open>The worker's loop\<close>

record worker =
  w_queue :: index_queue
  w_lanes :: lanes
  w_running :: "(lane_key \<times> index_event) list"
  w_concurrency :: nat
  w_sent :: "index_event list"
  w_started :: "index_event list"
  w_finished :: "index_event list"

text \<open>\<^verbatim>\<open>start_ready\<close>: start waiting files, oldest first, until every slot is taken; no value is a panic.\<close>

function start_ready :: "worker \<Rightarrow> worker option" where
  "start_ready w =
     (if length (w_running w) < w_concurrency w then
        (case lanes_start_next (w_lanes w) of
           Nothing_Ready \<Rightarrow> Some w
         | Start_Panic \<Rightarrow> None
         | Started key queued l \<Rightarrow>
             start_ready (w\<lparr>w_lanes := l, w_running := w_running w @ [(key, queued)],
                            w_started := w_started w @ [queued]\<rparr>))
      else Some w)"
  by auto
termination
  by (relation "measure (\<lambda>w. w_concurrency w - length (w_running w))") auto

declare start_ready.simps [simp del]

definition worker_new :: "nat \<Rightarrow> nat \<Rightarrow> worker" where
  "worker_new cap concurrency =
     \<lparr>w_queue = index_queue_new cap, w_lanes = lanes_default, w_running = [],
      w_concurrency = concurrency, w_sent = [], w_started = [], w_finished = []\<rparr>"

text \<open>The two arms of the loop's \<^verbatim>\<open>select!\<close> that do work, each followed by the next turn's \<^verbatim>\<open>start_ready\<close>.\<close>

definition worker_receive :: "worker \<Rightarrow> worker option" where
  "worker_receive w =
     (case queue_recv (w_queue w) of
        None \<Rightarrow> None
      | Some (queued, q) \<Rightarrow> start_ready (w\<lparr>w_queue := q, w_lanes := lanes_accept (w_lanes w) queued\<rparr>))"

definition worker_complete :: "worker \<Rightarrow> lane_key \<times> index_event \<Rightarrow> worker option" where
  "worker_complete w handler =
     start_ready (w\<lparr>w_running := remove1 handler (w_running w),
                    w_queue := release_permit (w_queue w),
                    w_lanes := lanes_finish (w_lanes w) (fst handler),
                    w_finished := w_finished w @ [snd handler]\<rparr>)"

definition worker_offer :: "worker \<Rightarrow> index_event \<Rightarrow> worker" where
  "worker_offer w event =
     (case queue_try_send (w_queue w) event of
        (Inr _, q) \<Rightarrow> w\<lparr>w_queue := q, w_sent := w_sent w @ [event]\<rparr>
      | (Inl _, q) \<Rightarrow> w\<lparr>w_queue := q\<rparr>)"

inductive worker_turn :: "worker \<Rightarrow> worker \<Rightarrow> bool" where
  receives: "worker_receive w = Some w' \<Longrightarrow> worker_turn w w'"
| completes: "\<lbrakk>handler \<in> set (w_running w); worker_complete w handler = Some w'\<rbrakk> \<Longrightarrow> worker_turn w w'"

inductive worker_reach :: "nat \<Rightarrow> nat \<Rightarrow> worker \<Rightarrow> bool" for cap concurrency where
  boots: "worker_reach cap concurrency (worker_new cap concurrency)"
| offered: "worker_reach cap concurrency w \<Longrightarrow> worker_reach cap concurrency (worker_offer w event)"
| turns: "\<lbrakk>worker_reach cap concurrency w; worker_turn w w'\<rbrakk> \<Longrightarrow> worker_reach cap concurrency w'"

section \<open>Invariant\<close>

abbreviation lane_of :: "lanes \<Rightarrow> lane_key \<Rightarrow> index_event list" where
  "lane_of l k \<equiv> (case waiting l k of None \<Rightarrow> [] | Some es \<Rightarrow> es)"

definition lanes_inv :: "lanes \<Rightarrow> bool" where
  "lanes_inv l \<longleftrightarrow> distinct (ready l)
     \<and> (\<forall>k. k \<in> set (ready l) \<longleftrightarrow> waiting l k \<noteq> None \<and> k \<notin> active l)
     \<and> (\<forall>k. waiting l k \<noteq> Some [])"

lemma lanes_inv_default [inv_intros]: "lanes_inv lanes_default"
  by (simp add: lanes_inv_def lanes_default_def)

lemma lanes_inv_accept [inv_intros]:
  assumes "lanes_inv l"
  shows "lanes_inv (lanes_accept l e)"
proof (cases "waiting l (event_key e)")
  case None
  then show ?thesis using assms by (auto simp: lanes_inv_def lanes_accept_def Let_def)
next
  case (Some es)
  then have "es \<noteq> []" using assms by (auto simp: lanes_inv_def)
  then show ?thesis using assms Some by (auto simp: lanes_inv_def lanes_accept_def Let_def)
qed

lemma lane_of_accept:
  "lane_of (lanes_accept l e) k = lane_of l k @ (if event_key e = k then [e] else [])"
  by (auto simp: lanes_accept_def Let_def)

lemma active_accept [simp]: "active (lanes_accept l e) = active l"
  by (simp add: lanes_accept_def Let_def)

lemma start_next_cases:
  assumes "lanes_inv l"
  obtains (idle) "lanes_start_next l = Nothing_Ready" "ready l = []"
  | (start) key queued l' where "lanes_start_next l = Started key queued l'" "lanes_inv l'"
      "key \<notin> active l" "active l' = insert key (active l)"
      "lane_of l key = queued # lane_of l' key" "\<And>k. k \<noteq> key \<Longrightarrow> lane_of l' k = lane_of l k"
proof (cases "ready l")
  case Nil
  then show thesis by (intro idle) (simp_all add: lanes_start_next_def)
next
  case (Cons key rest)
  then have key: "waiting l key \<noteq> None" "key \<notin> active l" "waiting l key \<noteq> Some []"
    using assms unfolding lanes_inv_def by (metis list.set_intros(1))+
  then obtain queued lane where lane: "waiting l key = Some (queued # lane)"
    by (cases "waiting l key"; simp; case_tac a; simp)
  show thesis
    by (rule start[of key queued "l\<lparr>ready := rest, waiting := (waiting l)(key := (if lane = [] then None else Some lane)),
                    active := insert key (active l)\<rparr>"])
      (use assms Cons key lane in \<open>auto simp: lanes_start_next_def lanes_inv_def\<close>)
qed

lemma lanes_finish_inv:
  assumes "lanes_inv l" "k \<in> active l"
  shows "lanes_inv (lanes_finish l k)"
  using assms by (cases k) (auto simp: lanes_inv_def lanes_finish_def Let_def)

lemma lanes_finish_simps [simp]:
  "waiting (lanes_finish l k) = waiting l" "active (lanes_finish l k) = active l - {k}"
  by (simp_all add: lanes_finish_def Let_def)

abbreviation of_key :: "lane_key \<Rightarrow> index_event list \<Rightarrow> index_event list" where
  "of_key k es \<equiv> filter (\<lambda>e. event_key e = k) es"

abbreviation running_of :: "worker \<Rightarrow> lane_key \<Rightarrow> index_event list" where
  "running_of w k \<equiv> map snd (filter (\<lambda>h. fst h = k) (w_running w))"

text \<open>
  Per object, the accepted events are the finished ones, then the one running, then the lane, then
  what is still in the channel: nothing is lost, duplicated or reordered.
\<close>

definition fifo :: "worker \<Rightarrow> bool" where
  "fifo w \<longleftrightarrow> (\<forall>k. of_key k (w_sent w) =
       of_key k (w_started w) @ lane_of (w_lanes w) k @ of_key k (q_channel (w_queue w))
     \<and> of_key k (w_started w) = of_key k (w_finished w) @ running_of w k)"

definition worker_inv :: "worker \<Rightarrow> bool" where
  "worker_inv w \<longleftrightarrow> lanes_inv (w_lanes w) \<and> active (w_lanes w) = fst ` set (w_running w)
     \<and> distinct (map fst (w_running w)) \<and> (\<forall>h\<in>set (w_running w). event_key (snd h) = fst h)
     \<and> length (w_running w) \<le> w_concurrency w \<and> fifo w
     \<and> q_permits (w_queue w) + length (w_sent w) = q_capacity (w_queue w) + length (w_finished w)
     \<and> q_receiver (w_queue w)"

definition slots_used :: "worker \<Rightarrow> bool" where
  "slots_used w \<longleftrightarrow> length (w_running w) = w_concurrency w \<or> ready (w_lanes w) = []"

lemma fifoD:
  assumes "fifo w"
  shows "of_key k (w_sent w) =
    of_key k (w_finished w) @ running_of w k @ lane_of (w_lanes w) k @ of_key k (q_channel (w_queue w))"
  using assms[unfolded fifo_def, rule_format, of k] by simp

lemma distinct_keys_once: "distinct (map f xs) \<Longrightarrow> length (filter (\<lambda>x. f x = k) xs) \<le> 1"
  by (induction xs) (auto simp: filter_empty_conv image_iff)

lemma lane_events_key:
  assumes "fifo w" "e \<in> set (lane_of (w_lanes w) k)"
  shows "event_key e = k"
proof -
  have "of_key k (w_sent w) = of_key k (w_started w) @ lane_of (w_lanes w) k @ of_key k (q_channel (w_queue w))"
    using assms(1) unfolding fifo_def by blast
  then have "e \<in> set (of_key k (w_sent w))" using assms(2) by simp
  then show ?thesis by simp
qed

lemma start_ready_inv:
  assumes "worker_inv w"
  shows "\<exists>w'. start_ready w = Some w' \<and> worker_inv w' \<and> slots_used w' \<and> w_queue w' = w_queue w
    \<and> w_sent w' = w_sent w \<and> w_finished w' = w_finished w \<and> w_concurrency w' = w_concurrency w"
  using assms
proof (induction w rule: start_ready.induct)
  case (1 w)
  show ?case
  proof (cases "length (w_running w) < w_concurrency w")
    case False
    then show ?thesis using 1(2) by (auto simp: start_ready.simps[of w] slots_used_def worker_inv_def)
  next
    case True
    have "lanes_inv (w_lanes w)" using 1(2) by (simp add: worker_inv_def)
    then show ?thesis
    proof (cases rule: start_next_cases)
      case idle
      then show ?thesis using True 1(2) by (auto simp: start_ready.simps[of w] slots_used_def)
    next
      case (start key queued l')
      let ?w = "w\<lparr>w_lanes := l', w_running := w_running w @ [(key, queued)], w_started := w_started w @ [queued]\<rparr>"
      have fifo: "fifo w" and act: "active (w_lanes w) = fst ` set (w_running w)"
        using 1(2) by (simp_all add: worker_inv_def)
      have q: "event_key queued = key" using lane_events_key[OF fifo, of queued key] start(5) by simp
      have "filter (\<lambda>h. fst h = key) (w_running w) = []" using start(3) act by (force simp: filter_empty_conv)
      then have "fifo ?w"
        unfolding fifo_def
      proof (intro allI, goal_cases)
        case (1 k)
        then show ?case using fifo[unfolded fifo_def, rule_format, of k] q start(5,6)
          by (cases "k = key") simp_all
      qed
      then have "worker_inv ?w"
        using 1(2) start(2-4) q True act unfolding worker_inv_def by auto
      then show ?thesis using 1(1)[OF True start(1)] True start(1) by (simp add: start_ready.simps[of w])
    qed
  qed
qed

lemma worker_inv_new: "worker_inv (worker_new cap n)"
  by (simp add: worker_inv_def worker_new_def fifo_def index_queue_new_def inv_intros)
    (simp add: lanes_default_def)

lemma worker_inv_offer [inv_intros]:
  assumes "worker_inv w"
  shows "worker_inv (worker_offer w e)"
  using assms by (auto simp: worker_inv_def worker_offer_def queue_try_send_def fifo_def)

lemma worker_receive_some:
  assumes "worker_inv w" "q_channel (w_queue w) = e # es"
  shows "\<exists>w'. worker_receive w = Some w' \<and> worker_inv w' \<and> slots_used w' \<and> q_channel (w_queue w') = es
    \<and> q_capacity (w_queue w') = q_capacity (w_queue w)
    \<and> w_sent w' = w_sent w \<and> w_finished w' = w_finished w \<and> w_concurrency w' = w_concurrency w"
proof -
  let ?w = "w\<lparr>w_queue := (w_queue w)\<lparr>q_channel := es\<rparr>, w_lanes := lanes_accept (w_lanes w) e\<rparr>"
  have "fifo ?w" using assms by (auto simp: worker_inv_def fifo_def lane_of_accept)
  then have "worker_inv ?w" using assms by (simp add: worker_inv_def inv_intros)
  from start_ready_inv[OF this] show ?thesis using assms(2) by (auto simp: worker_receive_def queue_recv_def)
qed

lemma worker_complete_some:
  assumes "worker_inv w" "h \<in> set (w_running w)"
  shows "\<exists>w'. worker_complete w h = Some w' \<and> worker_inv w' \<and> slots_used w' \<and> q_channel (w_queue w') = q_channel (w_queue w)
    \<and> q_capacity (w_queue w') = q_capacity (w_queue w)
    \<and> w_sent w' = w_sent w \<and> w_finished w' = w_finished w @ [snd h] \<and> w_concurrency w' = w_concurrency w"
proof -
  let ?w = "w\<lparr>w_running := remove1 h (w_running w), w_queue := release_permit (w_queue w),
              w_lanes := lanes_finish (w_lanes w) (fst h), w_finished := w_finished w @ [snd h]\<rparr>"
  have d: "distinct (map fst (w_running w))" and key: "event_key (snd h) = fst h" and fifo: "fifo w"
    and act: "active (w_lanes w) = fst ` set (w_running w)"
    using assms by (auto simp: worker_inv_def)
  obtain xs ys where run: "w_running w = xs @ h # ys" "h \<notin> set xs" using split_list_first[OF assms(2)] by blast
  have others: "g \<in> set xs \<union> set ys \<Longrightarrow> fst g \<noteq> fst h" for g
    using d unfolding run by (auto simp: image_iff)
  then have only: "filter (\<lambda>g. fst g = fst h) (w_running w) = [h]"
    unfolding run by (simp add: filter_empty_conv)
  have "fifo ?w"
    unfolding fifo_def
  proof (intro allI, goal_cases)
    case (1 k)
    then show ?case using fifo[unfolded fifo_def, rule_format, of k] key only
      by (cases "k = fst h") (simp_all add: release_permit_def filter_remove1)
  qed
  moreover have "active (lanes_finish (w_lanes w) (fst h)) = fst ` set (remove1 h (w_running w))"
    using d act unfolding run(1) by (simp add: remove1_append run(2) image_Un)
  moreover have "distinct (map fst (remove1 h (w_running w)))"
    using d unfolding run by (simp add: remove1_append run(2))
  moreover have "set (remove1 h (w_running w)) \<subseteq> set (w_running w)" by (rule set_remove1_subset)
  ultimately have "worker_inv ?w"
    using assms lanes_finish_inv[of "w_lanes w" "fst h"] act
    unfolding worker_inv_def by (auto simp: release_permit_def length_remove1)
  from start_ready_inv[OF this] show ?thesis unfolding worker_complete_def by (auto simp: release_permit_def)
qed

lemma worker_turn_cases:
  assumes "worker_turn w w'" "worker_inv w"
  obtains (received) e where "q_channel (w_queue w) = e # q_channel (w_queue w')" "worker_inv w'" "slots_used w'"
      "w_sent w' = w_sent w" "w_finished w' = w_finished w"
      "q_capacity (w_queue w') = q_capacity (w_queue w)" "w_concurrency w' = w_concurrency w"
  | (completed) h where "h \<in> set (w_running w)" "q_channel (w_queue w) = q_channel (w_queue w')" "worker_inv w'" "slots_used w'"
      "w_sent w' = w_sent w" "w_finished w' = w_finished w @ [snd h]"
      "q_capacity (w_queue w') = q_capacity (w_queue w)" "w_concurrency w' = w_concurrency w"
  using assms(1)
proof cases
  case receives
  then obtain e es where "q_channel (w_queue w) = e # es"
    by (cases "q_channel (w_queue w)") (auto simp: worker_receive_def queue_recv_def)
  then show thesis using worker_receive_some[OF assms(2)] receives received by force
next
  case (completes h)
  then show thesis using worker_complete_some[OF assms(2), of h] completed[of h] by auto
qed

lemma worker_reach_inv:
  "worker_reach cap n w \<Longrightarrow> worker_inv w \<and> slots_used w \<and> q_capacity (w_queue w) = cap \<and> w_concurrency w = n"
proof (induction rule: worker_reach.induct)
  case boots
  then show ?case using worker_inv_new by (simp add: worker_new_def slots_used_def lanes_default_def index_queue_new_def)
next
  case (offered w e)
  then show ?case using worker_inv_offer[of w e]
    by (auto simp: worker_offer_def slots_used_def queue_try_send_def)
next
  case (turns w w')
  then show ?case by (auto elim!: worker_turn_cases)
qed

text \<open>What is left to do: an event in the channel has to be received and finished, any other accepted one finished.\<close>

definition work_left :: "worker \<Rightarrow> nat" where
  "work_left w = length (q_channel (w_queue w)) + (length (w_sent w) - length (w_finished w))"

lemma mset_by_key:
  assumes "\<And>k. mset (of_key k xs) \<subseteq># mset (of_key k ys)"
  shows "mset xs \<subseteq># mset ys"
proof (rule mset_subset_eqI)
  fix e
  show "count (mset xs) e \<le> count (mset ys) e"
    using mset_subset_eq_count[OF assms[of "event_key e"], of e] by (simp add: count_filter_mset)
qed

lemma running_of_key:
  assumes "worker_inv w"
  shows "of_key k (map snd (w_running w)) = running_of w k"
proof -
  have "filter (\<lambda>h. event_key (snd h) = k) (w_running w) = filter (\<lambda>h. fst h = k) (w_running w)"
    using assms by (auto simp: worker_inv_def intro!: filter_cong)
  then show ?thesis by (simp add: filter_map o_def)
qed

lemma accepted_work:
  assumes "worker_inv w"
  shows "mset (w_finished w) + mset (map snd (w_running w)) + mset (q_channel (w_queue w)) \<subseteq># mset (w_sent w)"
proof -
  have "mset (of_key k (w_finished w @ map snd (w_running w) @ q_channel (w_queue w))) \<subseteq># mset (of_key k (w_sent w))" for k
  proof -
    have "fifo w" using assms by (simp add: worker_inv_def)
    from fifoD[OF this, of k] show ?thesis using running_of_key[OF assms, of k] by (simp add: add.assoc)
  qed
  from mset_by_key[OF this] show ?thesis by (simp add: add.assoc)
qed

lemma accepted_length:
  assumes "worker_inv w"
  shows "length (w_finished w) + length (w_running w) + length (q_channel (w_queue w)) \<le> length (w_sent w)"
  using size_mset_mono[OF accepted_work[OF assms]] by simp

lemma worker_turn_work:
  assumes "worker_turn w w'" "worker_inv w"
  shows "work_left w = Suc (work_left w')"
  using assms
proof (cases rule: worker_turn_cases)
  case (received e)
  then show ?thesis by (simp add: work_left_def)
next
  case (completed h)
  then show ?thesis using accepted_length[of w'] by (simp add: work_left_def)
qed

lemma worker_turn_enabled:
  assumes "worker_inv w" "slots_used w" "0 < w_concurrency w" "work_left w \<noteq> 0"
  shows "\<exists>w'. worker_turn w w'"
proof (cases "q_channel (w_queue w) = [] \<and> w_running w = []")
  case True
  then have "ready (w_lanes w) = []" "active (w_lanes w) = {}"
    using assms(1-3) by (auto simp: slots_used_def worker_inv_def)
  then have "waiting (w_lanes w) k = None" for k
    using assms(1) by (cases k) (auto simp: worker_inv_def lanes_inv_def)
  then have "of_key k (w_sent w) = of_key k (w_finished w)" for k
    using assms(1) True fifoD[of w k] by (simp add: worker_inv_def)
  then have "mset (of_key k (w_sent w)) \<subseteq># mset (of_key k (w_finished w))" for k
    by (metis subset_mset.order_refl)
  then have "mset (w_sent w) \<subseteq># mset (w_finished w)" by (rule mset_by_key)
  from size_mset_mono[OF this] show ?thesis using True assms(4) by (simp add: work_left_def)
next
  case False
  then show ?thesis
    using worker_receive_some[OF assms(1)] worker_complete_some[OF assms(1)]
    by (metis list.set_intros(1) neq_Nil_conv worker_turn.intros)
qed

lemma work_done:
  assumes "worker_inv w" "work_left w = 0"
  shows "mset (w_finished w) = mset (w_sent w)" "queue_depth (w_queue w) = 0"
proof -
  have len: "length (w_finished w) = length (w_sent w)"
    using assms(2) accepted_length[OF assms(1)] by (simp add: work_left_def)
  have "mset (w_finished w) \<subseteq># mset (w_sent w)"
    using accepted_work[OF assms(1)] by (meson mset_subset_eq_add_left subset_mset.order_trans)
  then show "mset (w_finished w) = mset (w_sent w)" using len
    by (metis mset_subset_size size_mset subset_mset.le_imp_less_or_eq less_irrefl)
  show "queue_depth (w_queue w) = 0" using assms(1) len by (simp add: worker_inv_def queue_depth_def)
qed

section \<open>Properties\<close>

text \<open>
  C6: Indexing is serial and in order per object.  In every reachable state of producers and worker,
  the events accepted for an object are those finished, then at most one running, then those waiting
  in its lane, then those still in the channel, in the order they were accepted: none is lost,
  repeated or overtaken.  At most \<open>index_concurrency\<close> handlers run, each for a different object, and a
  handler starts events in the order they were accepted.
\<close>

theorem index_events_in_order:
  assumes "worker_reach cap n w"
  shows "of_key k (w_sent w) = of_key k (w_finished w) @ running_of w k @ lane_of (w_lanes w) k @ of_key k (q_channel (w_queue w))
    \<and> of_key k (w_started w) = of_key k (w_finished w) @ running_of w k
    \<and> length (running_of w k) \<le> 1 \<and> length (w_running w) \<le> n"
proof -
  have inv: "worker_inv w" "w_concurrency w = n" using worker_reach_inv[OF assms] by auto
  have "fifo w" "distinct (map fst (w_running w))" "length (w_running w) \<le> n"
    using inv by (simp_all add: worker_inv_def)
  then show ?thesis
    using fifoD[of w k] distinct_keys_once[of fst "w_running w" k] \<open>fifo w\<close>[unfolded fifo_def, rule_format, of k] by simp
qed

text \<open>
  C32: The pending bound covers everything accepted and unfinished.  In every reachable state the depth
  the queue reports is the number of accepted events not yet finished, whether in the channel, in a
  lane or running; it never exceeds the capacity, and an offer is refused as full exactly when it is
  reached.
\<close>

theorem index_queue_bounded:
  assumes "worker_reach cap n w"
  shows "queue_depth (w_queue w) = length (w_sent w) - length (w_finished w)
    \<and> length (w_sent w) \<le> length (w_finished w) + cap
    \<and> length (q_channel (w_queue w)) + length (w_running w) \<le> queue_depth (w_queue w)
    \<and> (fst (queue_try_send (w_queue w) e) = Inl (Send_Full e) \<longleftrightarrow> queue_depth (w_queue w) = cap)"
  using worker_reach_inv[OF assms] accepted_length[of w]
  by (auto simp: worker_inv_def queue_depth_def queue_try_send_def)

text \<open>
  C13: The worker is work-conserving and drains: a file that is ready never waits while a slot is
  free, and once offers stop, every sequence of turns is finite, is never stuck before the end
  (neither of the scheduler's \<^verbatim>\<open>expect\<close>s can fire), and ends with every accepted event finished and
  the queue empty.
\<close>

theorem index_worker_drains:
  assumes "worker_reach cap n w" "0 < n"
  shows "(length (w_running w) < n \<longrightarrow> ready (w_lanes w) = [])
    \<and> (\<forall>w' m. (worker_turn ^^ m) w w' \<longrightarrow> m \<le> work_left w
        \<and> (if m = work_left w then mset (w_finished w') = mset (w_sent w) \<and> queue_depth (w_queue w') = 0
           else \<exists>w''. worker_turn w' w''))"
proof -
  have inv: "worker_inv w" "slots_used w" "w_concurrency w = n" using worker_reach_inv[OF assms(1)] by auto
  have run: "worker_inv w' \<and> slots_used w' \<and> w_concurrency w' = n \<and> w_sent w' = w_sent w \<and> work_left w = m + work_left w'"
    if "(worker_turn ^^ m) w w'" for m w'
    using that
  proof (induction m arbitrary: w')
    case 0
    then show ?case using inv by simp
  next
    case (Suc m)
    then obtain w1 where w1: "(worker_turn ^^ m) w w1" "worker_turn w1 w'" by auto
    with Suc.IH[OF w1(1)] worker_turn_work[OF w1(2)] show ?case by (auto elim!: worker_turn_cases[OF w1(2)])
  qed
  show ?thesis
  proof (intro conjI allI impI)
    assume "length (w_running w) < n"
    then show "ready (w_lanes w) = []" using inv by (simp add: slots_used_def)
  next
    fix w' m assume m: "(worker_turn ^^ m) w w'"
    show "m \<le> work_left w" using run[OF m] by simp
    show "if m = work_left w then mset (w_finished w') = mset (w_sent w) \<and> queue_depth (w_queue w') = 0
           else \<exists>w''. worker_turn w' w''"
      using run[OF m] work_done[of w'] worker_turn_enabled[of w'] assms(2) by auto
  qed
qed

section \<open>Stamps\<close>

fun last_stamp :: "(lane_key \<times> string option) list \<Rightarrow> lane_key \<Rightarrow> string option option" where
  "last_stamp [] k = None"
| "last_stamp (r # rs) k = (case last_stamp rs k of Some s \<Rightarrow> Some s | None \<Rightarrow> if fst r = k then Some (snd r) else None)"

definition seen_inv :: "last_seen \<Rightarrow> bool" where
  "seen_inv ls \<longleftrightarrow> distinct (seen_order ls) \<and> dom (stamps ls) = set (seen_order ls)
     \<and> length (seen_order ls) \<le> seen_capacity ls \<and> 0 < seen_capacity ls"

lemma forget_oldest_eq:
  "distinct ks \<Longrightarrow> forget_oldest cap ks m =
    (drop (length ks - cap) ks, \<lambda>k. if k \<in> set (take (length ks - cap) ks) then None else m k)"
  by (induction cap ks m rule: forget_oldest.induct) (auto simp: Suc_diff_le fun_eq_iff)

lemma last_stamp_snoc: "last_stamp (rs @ [r]) k = (if fst r = k then Some (snd r) else last_stamp rs k)"
  by (induction rs) (auto split: option.splits)

lemma seen_inv_record [inv_intros]:
  assumes "seen_inv ls"
  shows "seen_inv (last_seen_record ls key etag)"
    and "stamps (last_seen_record ls key etag) k = Some s \<Longrightarrow> if k = key then s = etag else stamps ls k = Some s"
    and "length (seen_order ls) < seen_capacity ls \<or> key \<in> dom (stamps ls) \<Longrightarrow>
      stamps (last_seen_record ls key etag) = (stamps ls)(key \<mapsto> etag)"
proof -
  define order where "order = (if stamps ls key = None then seen_order ls @ [key] else seen_order ls)"
  have d: "distinct order" and dom: "set order = insert key (dom (stamps ls))" and len: "length order \<le> Suc (seen_capacity ls)"
    using assms by (auto simp: order_def seen_inv_def domIff)
  define n where "n = length order - seen_capacity ls"
  have rec: "last_seen_record ls key etag = ls\<lparr>stamps := (\<lambda>k. if k \<in> set (take n order) then None else ((stamps ls)(key \<mapsto> etag)) k),
      seen_order := drop n order\<rparr>"
    unfolding last_seen_record_def Let_def order_def[symmetric] forget_oldest_eq[OF d] n_def by simp
  have split: "set order = set (take n order) \<union> set (drop n order)" "set (take n order) \<inter> set (drop n order) = {}"
    using d by (auto simp: set_append[symmetric] set_take_disj_set_drop_if_distinct simp del: set_append)
  show "seen_inv (last_seen_record ls key etag)"
    using assms len split dom d unfolding seen_inv_def rec by (auto simp: dom_def n_def split: if_splits)
  show "stamps (last_seen_record ls key etag) k = Some s \<Longrightarrow> if k = key then s = etag else stamps ls k = Some s"
    unfolding rec by (auto split: if_splits)
  assume "length (seen_order ls) < seen_capacity ls \<or> key \<in> dom (stamps ls)"
  then have "n = 0" using assms by (auto simp: n_def order_def seen_inv_def domIff)
  then show "stamps (last_seen_record ls key etag) = (stamps ls)(key \<mapsto> etag)" unfolding rec by (simp add: fun_eq_iff)
qed

definition record_all :: "nat \<Rightarrow> (lane_key \<times> string option) list \<Rightarrow> last_seen" where
  "record_all cap rs = foldl (\<lambda>ls r. last_seen_record ls (fst r) (snd r)) (last_seen_with_capacity cap) rs"

lemma record_all_inv:
  "seen_inv (record_all cap rs) \<and> seen_capacity (record_all cap rs) = max cap 1
    \<and> (\<forall>k s. stamps (record_all cap rs) k = Some s \<longrightarrow> last_stamp rs k = Some s)"
proof (induction rs rule: rev_induct)
  case Nil
  then show ?case by (simp add: record_all_def seen_inv_def last_seen_with_capacity_def)
next
  case (snoc r rs)
  have cap: "seen_capacity (last_seen_record ls k e) = seen_capacity ls" for ls k e
    by (simp add: last_seen_record_def Let_def split: prod.split)
  have run: "record_all cap (rs @ [r]) = last_seen_record (record_all cap rs) (fst r) (snd r)"
    by (simp add: record_all_def)
  have inv: "seen_inv (record_all cap rs)" using snoc by blast
  have "last_stamp (rs @ [r]) k = Some s" if "stamps (record_all cap (rs @ [r])) k = Some s" for k s
    using seen_inv_record(2)[OF inv that[unfolded run]] snoc unfolding last_stamp_snoc by (metis (full_types))
  then show ?case using snoc seen_inv_record(1)[OF inv] cap unfolding run by metis
qed

text \<open>
  Quieting echoes never hides news.  After any sequence of recorded stamps, at most the configured
  number of keys is remembered, and a stamp is taken for an echo only if it is the very last one
  recorded for that key; forgetting a key can only cause a repeated announcement.
\<close>

theorem last_seen_never_hides_news:
  "card (dom (stamps (record_all cap rs))) \<le> max cap 1
   \<and> (last_seen_differs (record_all cap rs) key etag \<or> last_stamp rs key = Some etag)"
proof -
  have inv: "seen_inv (record_all cap rs)" "seen_capacity (record_all cap rs) = max cap 1"
    "\<And>k s. stamps (record_all cap rs) k = Some s \<Longrightarrow> last_stamp rs k = Some s"
    using record_all_inv[of cap rs] by auto
  have "card (dom (stamps (record_all cap rs))) = length (seen_order (record_all cap rs))"
    using inv(1) by (auto simp: seen_inv_def distinct_card)
  then show ?thesis using inv by (auto simp: seen_inv_def last_seen_differs_def split: option.splits)
qed

section \<open>Witnesses\<close>

text \<open>Two events for one object and one for another, two slots: the second event of the first object waits.\<close>

definition demo_events :: "index_event list" where
  "demo_events = [Upsert (KbSlug ''kb'') (ObjectPath ''a''), Tombstone (KbSlug ''kb'') (ObjectPath ''a''),
     Upsert (KbSlug ''kb'') (ObjectPath ''b'')]"

definition demo_worker :: "worker option" where
  "demo_worker = Option.bind (worker_receive (foldl worker_offer (worker_new 3 2) demo_events)) (\<lambda>w.
     Option.bind (worker_receive w) worker_receive)"

lemma offers_reach: "worker_reach cap n w \<Longrightarrow> worker_reach cap n (foldl worker_offer w es)"
  by (induction es arbitrary: w) (auto intro: worker_reach.offered)

lemma demo_worker_reach: "demo_worker = Some w \<Longrightarrow> worker_reach 3 2 w"
  unfolding demo_worker_def
  by (auto simp: bind_eq_Some_conv intro!: worker_reach.turns[OF worker_reach.turns[OF worker_reach.turns[OF offers_reach[OF worker_reach.boots]]]]
      worker_turn.receives)

lemma demo_worker_some: "map_option w_running demo_worker =
    Some [((KbSlug ''kb'', ObjectPath ''a''), Upsert (KbSlug ''kb'') (ObjectPath ''a'')),
          ((KbSlug ''kb'', ObjectPath ''b''), Upsert (KbSlug ''kb'') (ObjectPath ''b''))]"
  by code_simp

lemma demo_worker_eval:
  "map_option (\<lambda>w. (length (w_sent w), work_left w, of_key (KbSlug ''kb'', ObjectPath ''a'') (w_sent w))) demo_worker
     = Some (3, 3, take 2 demo_events)"
  by code_simp

lemma demo_workerE:
  obtains w where "demo_worker = Some w" "worker_reach 3 2 w" "length (w_sent w) = 3" "work_left w = 3"
    "of_key (KbSlug ''kb'', ObjectPath ''a'') (w_sent w) = take 2 demo_events"
proof (cases demo_worker)
  case None
  then show thesis using demo_worker_eval by simp
next
  case (Some w)
  show thesis
    by (rule that[OF Some demo_worker_reach[OF Some]]) (use demo_worker_eval[unfolded Some option.map] in auto)
qed

theorem index_events_in_order_witness:
  "\<exists>w. demo_worker = Some w \<and> take 2 demo_events =
     of_key (KbSlug ''kb'', ObjectPath ''a'') (w_finished w) @ running_of w (KbSlug ''kb'', ObjectPath ''a'')
     @ lane_of (w_lanes w) (KbSlug ''kb'', ObjectPath ''a'') @ of_key (KbSlug ''kb'', ObjectPath ''a'') (q_channel (w_queue w))"
proof (rule demo_workerE)
  fix w assume w: "demo_worker = Some w" "worker_reach 3 2 w"
    and sent: "of_key (KbSlug ''kb'', ObjectPath ''a'') (w_sent w) = take 2 demo_events"
  show ?thesis
    using index_events_in_order[OF w(2), of "(KbSlug ''kb'', ObjectPath ''a'')"]
    by (intro exI[of _ w] conjI w(1)) (simp only: sent)
qed

theorem index_queue_bounded_witness:
  "\<exists>w. demo_worker = Some w \<and> length (w_sent w) = 3 \<and> length (w_sent w) \<le> length (w_finished w) + 3
     \<and> length (q_channel (w_queue w)) + length (w_running w) \<le> queue_depth (w_queue w)"
proof (rule demo_workerE)
  fix w assume w: "demo_worker = Some w" "worker_reach 3 2 w" "length (w_sent w) = 3"
  show ?thesis using index_queue_bounded[OF w(2), of "Upsert (KbSlug ''kb'') (ObjectPath ''c'')"] w
    by (intro exI[of _ w]) linarith
qed

theorem index_worker_drains_witness:
  "\<exists>w. demo_worker = Some w \<and> work_left w = 3
     \<and> (\<forall>w' m. (worker_turn ^^ m) w w' \<longrightarrow> m \<le> 3
        \<and> (if m = 3 then mset (w_finished w') = mset (w_sent w) \<and> queue_depth (w_queue w') = 0
           else \<exists>w''. worker_turn w' w''))"
proof (rule demo_workerE)
  fix w assume w: "demo_worker = Some w" "worker_reach 3 2 w" "work_left w = 3"
  show ?thesis using index_worker_drains[OF w(2)] w by (intro exI[of _ w]) simp
qed

end
