(* ===== verification/Utf8.thy ===== *)
theory Utf8
  imports Prelude
begin

text \<open>
  UTF-8 validation as the Rust standard library does it (\<^verbatim>\<open>core::str::from_utf8\<close>): the first bad position
  of a byte sequence, told apart into a broken encoding (\<^verbatim>\<open>error_len\<close> is \<^verbatim>\<open>Some\<close>) and one that merely ends
  too early (\<^verbatim>\<open>None\<close>), the distinction every streaming reader of the indexer relies on.  The lemmas
  relate it to \<open>utf8_chars\<close>, the code points of a valid string.
\<close>

section \<open>The validator\<close>

text \<open>The encoding at the front of a byte sequence: complete with its width, broken, or cut short.\<close>

datatype front_check = Scalar nat | Broken nat | Cut_Short

definition in_range :: "nat \<Rightarrow> nat \<Rightarrow> char \<Rightarrow> bool" where
  "in_range lo hi c \<longleftrightarrow> lo \<le> (of_char c :: nat) \<and> (of_char c :: nat) \<le> hi"

definition second_of_three :: "char \<Rightarrow> char \<Rightarrow> bool" where
  "second_of_three a b \<longleftrightarrow>
     (if in_range 0xE0 0xE0 a then in_range 0xA0 0xBF b
      else if in_range 0xED 0xED a then in_range 0x80 0x9F b
      else in_range 0x80 0xBF b)"

definition second_of_four :: "char \<Rightarrow> char \<Rightarrow> bool" where
  "second_of_four a b \<longleftrightarrow>
     (if in_range 0xF0 0xF0 a then in_range 0x90 0xBF b
      else if in_range 0xF4 0xF4 a then in_range 0x80 0x8F b
      else in_range 0x80 0xBF b)"

text \<open>The bytes that must follow an accepted second byte, all continuation bytes.\<close>

fun tail_bytes :: "nat \<Rightarrow> nat \<Rightarrow> string \<Rightarrow> front_check" where
  "tail_bytes 0 n s = Scalar n"
| "tail_bytes (Suc k) n [] = Cut_Short"
| "tail_bytes (Suc k) n (c # s) = (if is_continuation c then tail_bytes k (Suc n) s else Broken n)"

fun utf8_front :: "string \<Rightarrow> front_check" where
  "utf8_front [] = Cut_Short"
| "utf8_front (a # s) =
     (if in_range 0 0x7F a then Scalar 1
      else if in_range 0xC2 0xDF a then tail_bytes 1 1 s
      else if in_range 0xE0 0xEF a then
        (case s of [] \<Rightarrow> Cut_Short
         | b # s' \<Rightarrow> if second_of_three a b then tail_bytes 1 2 s' else Broken 1)
      else if in_range 0xF0 0xF4 a then
        (case s of [] \<Rightarrow> Cut_Short
         | b # s' \<Rightarrow> if second_of_four a b then tail_bytes 2 2 s' else Broken 1)
      else Broken 1)"

text \<open>\<^verbatim>\<open>Utf8Error\<close> carries \<^verbatim>\<open>valid_up_to\<close> and \<^verbatim>\<open>error_len\<close>.\<close>

datatype utf8_check = Utf8_Ok | Utf8_Error nat "nat option"

fun shift_check :: "nat \<Rightarrow> utf8_check \<Rightarrow> utf8_check" where
  "shift_check n Utf8_Ok = Utf8_Ok"
| "shift_check n (Utf8_Error v e) = Utf8_Error (n + v) e"

lemma tail_bytes_Scalar: "tail_bytes k n s = Scalar m \<Longrightarrow> m = n + k \<and> k \<le> length s \<and> (\<forall>c\<in>set (take k s). is_continuation c)"
  by (induction k n s rule: tail_bytes.induct) (auto split: if_splits)

lemma second_continuation:
  "second_of_three a b \<Longrightarrow> is_continuation b" "second_of_four a b \<Longrightarrow> is_continuation b"
  by (auto simp: second_of_three_def second_of_four_def in_range_def is_continuation_def split: if_splits)

lemma utf8_front_Scalar:
  assumes "utf8_front s = Scalar n"
  shows "1 \<le> n \<and> n \<le> 4 \<and> n \<le> length s \<and> \<not> is_continuation (hd s) \<and> (\<forall>c\<in>set (take (n - 1) (tl s)). is_continuation c)"
  using assms
  by (cases s rule: utf8_front.cases)
    (auto split: if_splits list.splits dest!: tail_bytes_Scalar
      simp: in_range_def is_continuation_def take_Cons' second_continuation[unfolded is_continuation_def]
        dest: second_continuation)

function (sequential) from_utf8 :: "string \<Rightarrow> utf8_check" where
  "from_utf8 [] = Utf8_Ok"
| "from_utf8 s =
     (case utf8_front s of
        Scalar n \<Rightarrow> shift_check n (from_utf8 (drop n s))
      | Broken e \<Rightarrow> Utf8_Error 0 (Some e)
      | Cut_Short \<Rightarrow> Utf8_Error 0 None)"
  by pat_completeness auto
termination
  by (relation "measure length") (auto simp del: utf8_front.simps dest: utf8_front_Scalar)

definition valid_utf8 :: "string \<Rightarrow> bool" where
  "valid_utf8 s \<longleftrightarrow> from_utf8 s = Utf8_Ok"

text \<open>The longest part of a string that a validator can vouch for: all of it when it is valid.\<close>

definition valid_up_to :: "string \<Rightarrow> nat" where
  "valid_up_to s = (case from_utf8 s of Utf8_Ok \<Rightarrow> length s | Utf8_Error v e \<Rightarrow> v)"

section \<open>Code points\<close>

lemma utf8_chars_append_start:
  assumes "b \<noteq> []" "\<not> is_continuation (hd b)"
  shows "utf8_chars (a @ b) = utf8_chars a @ utf8_chars b"
proof (induction a rule: utf8_chars.induct)
  case 1
  then show ?case by simp
next
  case (2 x xs)
  obtain y ys where b: "b = y # ys" "\<not> is_continuation y" using assms by (cases b) auto
  show ?case
  proof (cases "\<forall>c\<in>set xs. is_continuation c")
    case True
    then show ?thesis using b by (simp add: takeWhile_append2 dropWhile_append2 takeWhile_eq_all_conv[THEN iffD2] dropWhile_eq_Nil_conv[THEN iffD2])
  next
    case False
    then obtain c where "c \<in> set xs" "\<not> is_continuation c" by auto
    then show ?thesis using 2 by (simp add: takeWhile_append1 dropWhile_append1)
  qed
qed

lemma utf8_chars_all_continuation: "\<forall>c\<in>set xs. is_continuation c \<Longrightarrow> utf8_chars (x # xs) = [x # xs]"
  by (simp add: takeWhile_eq_all_conv[THEN iffD2] dropWhile_eq_Nil_conv[THEN iffD2])

lemma utf8_chars_take: "utf8_chars (concat (take n (utf8_chars s))) = take n (utf8_chars s)"
proof (induction s arbitrary: n rule: utf8_chars.induct)
  case 1
  then show ?case by simp
next
  case (2 x xs)
  let ?g = "x # takeWhile is_continuation xs" and ?rest = "dropWhile is_continuation xs"
  have g: "utf8_chars ?g = [?g]" by (intro utf8_chars_all_continuation) (auto dest: set_takeWhileD)
  show ?case
  proof (cases n)
    case (Suc m)
    have rhs: "take n (utf8_chars (x # xs)) = ?g # take m (utf8_chars ?rest)" using Suc by simp
    show ?thesis
    proof (cases "concat (take m (utf8_chars ?rest))")
      case Nil
      then have empty: "take m (utf8_chars ?rest) = []" using 2[of m] by (metis utf8_chars.simps(1))
      show ?thesis unfolding rhs empty concat.simps append_Nil2 g ..
    next
      case (Cons y ys)
      then have "\<exists>zs. ?rest = y # zs"
        by (cases ?rest; cases m) auto
      then have "\<not> is_continuation y" by (metis hd_dropWhile list.discI list.sel(1))
      then have "utf8_chars (?g @ concat (take m (utf8_chars ?rest))) = utf8_chars ?g @ utf8_chars (concat (take m (utf8_chars ?rest)))"
        using Cons by (intro utf8_chars_append_start) simp_all
      then show ?thesis unfolding rhs concat.simps using g 2[of m] by simp
    qed
  qed simp
qed


section \<open>Validity\<close>

text \<open>One encoded code point.\<close>

definition scalar :: "string \<Rightarrow> bool" where
  "scalar c \<longleftrightarrow> c \<noteq> [] \<and> utf8_front c = Scalar (length c)"

lemma tail_bytes_append:
  "tail_bytes k n s = Scalar m \<Longrightarrow> tail_bytes k n (s @ t) = Scalar m"
  "tail_bytes k n s = Broken m \<Longrightarrow> tail_bytes k n (s @ t) = Broken m"
  by (induction k n s rule: tail_bytes.induct) (auto split: if_splits)

lemma tail_bytes_take: "tail_bytes k n s = Scalar m \<Longrightarrow> k \<le> j \<Longrightarrow> tail_bytes k n (take j s) = Scalar m"
  by (induction k n s arbitrary: j rule: tail_bytes.induct) (auto split: if_splits simp: take_Cons split: nat.splits)

lemma utf8_front_append:
  "utf8_front s = Scalar m \<Longrightarrow> utf8_front (s @ t) = Scalar m"
  "utf8_front s = Broken m \<Longrightarrow> utf8_front (s @ t) = Broken m"
  by (cases s; auto split: if_splits list.splits simp: tail_bytes_append)+

lemma utf8_front_take: "utf8_front s = Scalar n \<Longrightarrow> utf8_front (take n s) = Scalar n"
  by (cases s)
    (auto split: if_splits list.splits dest: tail_bytes_Scalar intro!: tail_bytes_take simp: take_Cons' Cons_eq_append_conv)

lemma scalar_of_front: "utf8_front s = Scalar n \<Longrightarrow> scalar (take n s) \<and> length (take n s) = n"
  using utf8_front_take[of s n] utf8_front_Scalar[of s n] by (auto simp: scalar_def min_def)

lemma scalarD:
  assumes "scalar c"
  shows "c \<noteq> []" "length c \<le> 4" "\<not> is_continuation (hd c)" "\<forall>x\<in>set (tl c). is_continuation x" "utf8_chars c = [c]"
proof -
  have f: "utf8_front c = Scalar (length c)" and n: "c \<noteq> []" using assms by (auto simp: scalar_def)
  from utf8_front_Scalar[OF f] n
  show "c \<noteq> []" "length c \<le> 4" "\<not> is_continuation (hd c)" "\<forall>x\<in>set (tl c). is_continuation x"
    by (cases c; auto)+
  then show "utf8_chars c = [c]" using utf8_chars_all_continuation[of "tl c" "hd c"] by simp
qed

lemma valid_Nil [simp]: "valid_utf8 []"
  by (simp add: valid_utf8_def)

lemma from_utf8_scalar: "scalar c \<Longrightarrow> from_utf8 (c @ s) = shift_check (length c) (from_utf8 s)"
  using utf8_front_append(1)[of c "length c" s]
  by (cases c) (auto simp: scalar_def simp del: utf8_front.simps)

lemma shift_check_Ok [simp]: "shift_check n r = Utf8_Ok \<longleftrightarrow> r = Utf8_Ok"
  by (cases r) auto

lemma valid_scalar_append: "scalar c \<Longrightarrow> valid_utf8 (c @ s) \<longleftrightarrow> valid_utf8 s"
  by (simp add: valid_utf8_def from_utf8_scalar)

lemma valid_cases:
  assumes "valid_utf8 s" "s \<noteq> []"
  obtains c t where "s = c @ t" "scalar c" "valid_utf8 t"
proof -
  obtain n where n: "utf8_front s = Scalar n"
    using assms by (cases s; cases "utf8_front s") (auto simp: valid_utf8_def simp del: utf8_front.simps)
  have "scalar (take n s)" using scalar_of_front[OF n] by blast
  then show ?thesis using that[of "take n s" "drop n s"] assms valid_scalar_append[of "take n s" "drop n s"] by simp
qed

lemma valid_hd: "valid_utf8 s \<Longrightarrow> s \<noteq> [] \<Longrightarrow> \<not> is_continuation (hd s)"
  by (metis valid_cases scalarD(1,3) hd_append2)

lemma utf8_chars_scalar:
  assumes "scalar c" "valid_utf8 s"
  shows "utf8_chars (c @ s) = c # utf8_chars s"
  using utf8_chars_append_start[of s c] valid_hd[of s] assms scalarD(5)[OF assms(1)] by (cases "s = []") auto

lemma valid_induct [consumes 1, case_names Nil Scalar]:
  assumes "valid_utf8 s" "P []" "\<And>c t. scalar c \<Longrightarrow> valid_utf8 t \<Longrightarrow> P t \<Longrightarrow> P (c @ t)"
  shows "P s"
  using assms(1)
proof (induction "length s" arbitrary: s rule: less_induct)
  case less
  show ?case
  proof (cases "s = []")
    case False
    obtain c t where s: "s = c @ t" "scalar c" "valid_utf8 t" by (rule valid_cases[OF less.prems False])
    then show ?thesis using less.hyps[of t] scalarD(1)[of c] assms(3) by simp
  qed (simp add: assms(2))
qed

lemma valid_iff_scalars: "valid_utf8 s \<longleftrightarrow> (\<forall>c\<in>set (utf8_chars s). scalar c)"
proof
  show "valid_utf8 s \<Longrightarrow> \<forall>c\<in>set (utf8_chars s). scalar c"
    by (induction rule: valid_induct) (auto simp: utf8_chars_scalar)
next
  have "\<forall>c\<in>set cs. scalar c \<Longrightarrow> valid_utf8 (concat cs)" for cs
    by (induction cs) (auto simp: valid_scalar_append)
  from this[of "utf8_chars s"] show "\<forall>c\<in>set (utf8_chars s). scalar c \<Longrightarrow> valid_utf8 s" by simp
qed

lemma valid_concat: "\<forall>c\<in>set cs. scalar c \<Longrightarrow> valid_utf8 (concat cs) \<and> utf8_chars (concat cs) = cs"
  by (induction cs) (auto simp: valid_scalar_append utf8_chars_scalar)

lemma from_utf8_append: "valid_utf8 a \<Longrightarrow> from_utf8 (a @ b) = shift_check (length a) (from_utf8 b)"
proof (induction rule: valid_induct)
  case Nil
  then show ?case by (cases "from_utf8 b") auto
next
  case (Scalar c t)
  then show ?case by (cases "from_utf8 b") (auto simp: from_utf8_scalar)
qed

lemma valid_append: "valid_utf8 a \<Longrightarrow> valid_utf8 (a @ b) \<longleftrightarrow> valid_utf8 b"
  by (simp add: valid_utf8_def[of "a @ b"] valid_utf8_def[of b] from_utf8_append)

lemma utf8_chars_append:
  assumes "valid_utf8 b"
  shows "utf8_chars (a @ b) = utf8_chars a @ utf8_chars b"
  using utf8_chars_append_start[of b a] valid_hd[OF assms] by (cases "b = []") auto

lemma length_utf8_chars_le: "length (utf8_chars s) \<le> length s"
  by (induction s rule: utf8_chars.induct) (auto intro: order_trans length_dropWhile_le)

lemma valid_length_le: "valid_utf8 s \<Longrightarrow> length s \<le> 4 * length (utf8_chars s)"
  by (induction rule: valid_induct) (auto simp: utf8_chars_scalar dest: scalarD(2))

text \<open>What a check reports about a sequence that is not valid.\<close>

lemma from_utf8_Error:
  "from_utf8 s = Utf8_Error v e \<Longrightarrow>
     v < length s \<and> valid_utf8 (take v s)
     \<and> (case e of None \<Rightarrow> utf8_front (drop v s) = Cut_Short | Some k \<Rightarrow> utf8_front (drop v s) = Broken k)"
proof (induction s arbitrary: v rule: from_utf8.induct)
  case (2 x xs)
  show ?case
  proof (cases "utf8_front (x # xs)")
    case (Scalar n)
    let ?s = "x # xs"
    obtain w where w: "from_utf8 (drop n ?s) = Utf8_Error w e" "v = n + w"
      using 2(2) Scalar by (cases "from_utf8 (drop n ?s)") (auto simp del: utf8_front.simps)
    have sc: "scalar (take n ?s)" "length (take n ?s) = n" "n \<le> length ?s"
      using scalar_of_front[OF Scalar] utf8_front_Scalar[OF Scalar] by auto
    have "take v ?s = take n ?s @ take w (drop n ?s)" using w(2) by (simp add: take_add)
    then show ?thesis using 2(1)[OF Scalar w(1)] w sc valid_scalar_append[OF sc(1)]
      by (auto simp: add.commute split: option.splits simp del: utf8_front.simps take_Suc_Cons drop_Suc_Cons)
  qed (use 2(2) in \<open>auto simp del: utf8_front.simps\<close>)
qed simp

lemma from_utf8_broken_append:
  assumes "from_utf8 s = Utf8_Error v (Some e)"
  shows "from_utf8 (s @ t) = Utf8_Error v (Some e)"
proof -
  have d: "v < length s" "valid_utf8 (take v s)" "utf8_front (drop v s) = Broken e"
    using from_utf8_Error[OF assms] by auto
  have "from_utf8 (take v s @ drop v s @ t) = shift_check v (from_utf8 (drop v s @ t))"
    using from_utf8_append[OF d(2)] d(1) by simp
  moreover have "from_utf8 (drop v s @ t) = Utf8_Error 0 (Some e)"
    using utf8_front_append(2)[OF d(3), of t] d(1)
    by (cases "drop v s") (auto simp del: utf8_front.simps)
  ultimately show ?thesis by (simp flip: append_assoc)
qed

text \<open>A prefix of a valid string is valid up to a last code point cut short, of at most three bytes.\<close>

lemma tail_bytes_Cut: "tail_bytes k n s = Cut_Short \<Longrightarrow> length s < k"
  by (induction k n s rule: tail_bytes.induct) (auto split: if_splits)

lemma utf8_front_Cut: "utf8_front s = Cut_Short \<Longrightarrow> length s \<le> 3"
  by (cases s) (auto split: if_splits list.splits dest!: tail_bytes_Cut)

lemma from_utf8_cut:
  assumes "from_utf8 s = Utf8_Error v None"
  shows "v < length s" "length s \<le> v + 3" "valid_utf8 (take v s)"
  using from_utf8_Error[OF assms] utf8_front_Cut[of "drop v s"] by auto

lemma prefix_of_valid:
  assumes "valid_utf8 (s @ t)"
  shows "from_utf8 s = Utf8_Ok \<or> (\<exists>v. from_utf8 s = Utf8_Error v None)"
  using assms from_utf8_broken_append[of s _ _ t]
  by (cases "from_utf8 s") (auto simp: valid_utf8_def, metis not_None_eq utf8_check.distinct(1))

lemma valid_up_to_prefix:
  assumes "valid_utf8 (s @ t)"
  shows "valid_up_to s \<le> length s" "length s \<le> valid_up_to s + 3" "valid_utf8 (take (valid_up_to s) s)"
  using prefix_of_valid[OF assms] from_utf8_cut[of s]
  by (auto simp: valid_up_to_def valid_utf8_def split: utf8_check.splits)

text \<open>Cutting a valid string at a valid prefix leaves a valid rest.\<close>

lemma valid_drop: "valid_utf8 s \<Longrightarrow> valid_utf8 (take n s) \<Longrightarrow> valid_utf8 (drop n s)"
  using valid_append[of "take n s" "drop n s"] by simp

lemma valid_take_chars:
  "valid_utf8 s \<Longrightarrow> valid_utf8 (concat (take n (utf8_chars s))) \<and> utf8_chars (concat (take n (utf8_chars s))) = take n (utf8_chars s)"
  using valid_concat[of "take n (utf8_chars s)"] valid_iff_scalars[of s] by (meson in_set_takeD)

lemma valid_drop_chars:
  "valid_utf8 s \<Longrightarrow> valid_utf8 (concat (drop n (utf8_chars s))) \<and> utf8_chars (concat (drop n (utf8_chars s))) = drop n (utf8_chars s)"
  using valid_concat[of "drop n (utf8_chars s)"] valid_iff_scalars[of s] by (meson in_set_dropD)

lemma take_chars_bytes: "take (length (concat (take n (utf8_chars s)))) s = concat (take n (utf8_chars s))"
  and drop_chars_bytes: "drop (length (concat (take n (utf8_chars s)))) s = concat (drop n (utf8_chars s))"
proof -
  have "s = concat (take n (utf8_chars s)) @ concat (drop n (utf8_chars s))"
    by (metis append_take_drop_id concat_append concat_utf8_chars)
  then show "take (length (concat (take n (utf8_chars s)))) s = concat (take n (utf8_chars s))"
    and "drop (length (concat (take n (utf8_chars s)))) s = concat (drop n (utf8_chars s))"
    by (metis append_eq_conv_conj)+
qed

lemma valid_take_add: "valid_utf8 (take i s) \<Longrightarrow> valid_utf8 (take n (drop i s)) \<Longrightarrow> valid_utf8 (take (i + n) s)"
  by (simp add: take_add valid_append)

lemma scalar_ascii: "in_range 0 0x7F c \<Longrightarrow> scalar [c]"
  by (simp add: scalar_def)

lemma valid_ascii: "\<forall>c\<in>set s. in_range 0 0x7F c \<Longrightarrow> valid_utf8 s"
  using valid_scalar_append[OF scalar_ascii] by (induction s) auto

text \<open>Right after an ASCII byte is a boundary between code points.\<close>

lemma scalar_with_ascii:
  assumes "scalar c" "i < length c" "in_range 0 0x7F (c ! i)"
  shows "i = 0 \<and> length c = 1"
proof -
  have "\<not> is_continuation (c ! i)" using assms(3) by (simp add: in_range_def is_continuation_def)
  then have "i = 0" using scalarD(4)[OF assms(1)] assms(2) by (cases c; cases i) auto
  then show ?thesis using assms by (cases c) (auto simp: scalar_def)
qed

lemma valid_after_ascii: "valid_utf8 s \<Longrightarrow> i < length s \<Longrightarrow> in_range 0 0x7F (s ! i) \<Longrightarrow> valid_utf8 (take (Suc i) s)"
proof (induction arbitrary: i rule: valid_induct)
  case (Scalar c t)
  show ?case
  proof (cases "i < length c")
    case True
    then have "i = 0 \<and> length c = 1" using Scalar by (intro scalar_with_ascii) (auto simp: nth_append)
    then show ?thesis using Scalar(1) valid_scalar_append[of c "[]"] by simp
  next
    case False
    then have "valid_utf8 (take (Suc (i - length c)) t)" using Scalar by (intro Scalar.IH) (auto simp: nth_append)
    then show ?thesis using False Scalar(1) by (simp add: valid_scalar_append Suc_diff_le)
  qed
qed simp

lemma valid_before_ascii: "valid_utf8 s \<Longrightarrow> i < length s \<Longrightarrow> in_range 0 0x7F (s ! i) \<Longrightarrow> valid_utf8 (take i s)"
proof (induction arbitrary: i rule: valid_induct)
  case (Scalar c t)
  show ?case
  proof (cases "i < length c")
    case True
    then have "i = 0" using Scalar scalar_with_ascii[of c i] by (auto simp: nth_append)
    then show ?thesis by simp
  next
    case False
    then have "valid_utf8 (take (i - length c) t)" using Scalar by (intro Scalar.IH) (auto simp: nth_append)
    then show ?thesis using False Scalar(1) by (simp add: valid_scalar_append)
  qed
qed simp

lemma valid_around_ascii:
  assumes "in_range 0 0x7F c"
  shows "valid_utf8 (a @ c # b) \<longleftrightarrow> valid_utf8 a \<and> valid_utf8 b"
proof
  assume v: "valid_utf8 (a @ c # b)"
  have "valid_utf8 (take (length a) (a @ c # b))" using assms by (intro valid_before_ascii[OF v]) auto
  then have "valid_utf8 a" by simp
  then show "valid_utf8 a \<and> valid_utf8 b"
    using v valid_append[of a "c # b"] valid_scalar_append[OF scalar_ascii[OF assms], of b] by simp
next
  assume "valid_utf8 a \<and> valid_utf8 b"
  then show "valid_utf8 (a @ c # b)"
    using valid_append[of a "c # b"] valid_scalar_append[OF scalar_ascii[OF assms], of b] by simp
qed

lemma valid_split_on: "in_range 0 0x7F c \<Longrightarrow> valid_utf8 s \<Longrightarrow> seg \<in> set (split_on c s) \<Longrightarrow> valid_utf8 seg"
proof (induction s arbitrary: seg rule: length_induct)
  case (1 s)
  show ?case
  proof (cases "c \<in> set s")
    case False
    then show ?thesis using 1(3,4) by (simp add: split_on_no_sep)
  next
    case True
    then obtain a b where ab: "s = a @ c # b" by (metis split_list)
    then have "valid_utf8 a" "valid_utf8 b" using 1(2,3) valid_around_ascii by blast+
    then show ?thesis using 1(1)[rule_format, of a] 1(1)[rule_format, of b] 1(2,4) ab by (auto simp: split_on_append_sep)
  qed
qed

text \<open>Blank strings: what trims to nothing holds only white space.\<close>

lemma concat_scalars_Nil: "\<forall>c\<in>set cs. scalar c \<Longrightarrow> concat cs = [] \<longleftrightarrow> cs = []"
  by (cases cs) (auto dest: scalarD(1))

lemma all_dropWhile: "(\<forall>x\<in>set (dropWhile P xs). P x) \<longleftrightarrow> (\<forall>x\<in>set xs. P x)"
  by (induction xs) auto

lemma trim_Nil_iff:
  assumes "valid_utf8 s"
  shows "trim s = [] \<longleftrightarrow> (\<forall>c\<in>set (utf8_chars s). is_whitespace c)"
proof -
  have sc: "\<forall>c\<in>set (utf8_chars s). scalar c" using assms valid_iff_scalars by blast
  let ?d = "dropWhile is_whitespace (utf8_chars s)"
  have dsc: "\<forall>c\<in>set ?d. scalar c" using sc by (meson set_dropWhileD)
  have u: "utf8_chars (trim_start s) = ?d" unfolding trim_start_def using valid_concat[OF dsc] by simp
  have "trim s = [] \<longleftrightarrow> rev (dropWhile is_whitespace (rev ?d)) = []"
    unfolding trim_def trim_end_def u by (rule concat_scalars_Nil) (use dsc in \<open>auto dest: set_dropWhileD\<close>)
  also have "\<dots> \<longleftrightarrow> (\<forall>c\<in>set ?d. is_whitespace c)" by simp
  also have "\<dots> \<longleftrightarrow> (\<forall>c\<in>set (utf8_chars s). is_whitespace c)" by (rule all_dropWhile)
  finally show ?thesis .
qed

text \<open>A slash is text, and so are pieces of text with slashes between.\<close>

lemma valid_slash: "valid_utf8 (CHR ''/'' # s) \<longleftrightarrow> valid_utf8 s"
  using valid_append[OF valid_ascii[of "''/''"], of s] by (simp add: in_range_def)

lemma valid_join: "list_all valid_utf8 segs \<Longrightarrow> valid_utf8 (join ''/'' segs)"
  by (induction segs rule: induct_list012) (simp_all add: valid_append valid_slash)

end
