(* ===== verification/Index_Health.thy ===== *)
theory Index_Health
  imports Utf8
begin

text \<open>
  Index health (\<^verbatim>\<open>notedthat-indexer/src/health.rs\<close>): the record producers and the worker stamp and the one
  state derived from it.  Every stamp takes the wall clock in seconds as \<open>now\<close>.  The two counters are 64-bit.

  The properties read the derived state off the history of stamps: \<open>health_op\<close> is one call, and a
  history is run from a fresh record.
\<close>

section \<open>Records\<close>

definition BACKPRESSURE_WINDOW :: int where
  "BACKPRESSURE_WINDOW = 30"

definition FAILURE_SUMMARY_MAX_CHARS :: nat where
  "FAILURE_SUMMARY_MAX_CHARS = 200"

datatype index_state = St_Failed | St_Stale | St_Backpressured | St_Indexing | St_Healthy

fun index_state_as_str :: "index_state \<Rightarrow> string" where
  "index_state_as_str St_Failed = ''failed''"
| "index_state_as_str St_Stale = ''stale''"
| "index_state_as_str St_Backpressured = ''backpressured''"
| "index_state_as_str St_Indexing = ''indexing''"
| "index_state_as_str St_Healthy = ''healthy''"

record index_failure =
  if_at :: int
  if_object_key :: string
  if_summary :: string

record reconcile_summary =
  rs_at :: int
  rs_scope :: "string option"
  rs_objects_on_disk :: nat
  rs_unchanged :: nat
  rs_changed :: nat
  rs_orphaned :: nat

record kb_record =
  kr_enqueued :: u64
  kr_completed :: u64
  kr_last_outcome_failed :: bool
  kr_last_indexed_at :: "int option"
  kr_last_failure :: "index_failure option"
  kr_last_backpressure_at :: "int option"
  kr_stale_since :: "int option"
  kr_last_reconcile :: "reconcile_summary option"

definition kb_record_default :: kb_record where
  "kb_record_default =
     \<lparr>kr_enqueued = 0, kr_completed = 0, kr_last_outcome_failed = False, kr_last_indexed_at = None,
      kr_last_failure = None, kr_last_backpressure_at = None, kr_stale_since = None, kr_last_reconcile = None\<rparr>"

record index_health =
  ih_kbs :: "string \<rightharpoonup> kb_record"
  ih_worker_alive :: bool

record kb_health_snapshot =
  hs_state :: index_state
  hs_pending :: nat
  hs_worker_alive :: bool
  hs_last_indexed_at :: "int option"
  hs_last_failure :: "index_failure option"
  hs_last_backpressure_at :: "int option"
  hs_stale_since :: "int option"
  hs_last_reconcile :: "reconcile_summary option"

definition index_health_new :: index_health where
  "index_health_new = \<lparr>ih_kbs = Map.empty, ih_worker_alive = True\<rparr>"

section \<open>Stamps\<close>

definition health_record :: "index_health \<Rightarrow> string \<Rightarrow> (kb_record \<Rightarrow> kb_record) \<Rightarrow> index_health" where
  "health_record h kb update =
     h\<lparr>ih_kbs := (ih_kbs h)(kb \<mapsto>
        update (case ih_kbs h kb of None \<Rightarrow> kb_record_default | Some r \<Rightarrow> r))\<rparr>"

definition health_enqueued :: "index_health \<Rightarrow> string \<Rightarrow> index_health" where
  "health_enqueued h kb = health_record h kb (\<lambda>r. r\<lparr>kr_enqueued := kr_enqueued r + 1\<rparr>)"

definition health_succeeded :: "index_health \<Rightarrow> string \<Rightarrow> int \<Rightarrow> index_health" where
  "health_succeeded h kb now = health_record h kb
     (\<lambda>r. r\<lparr>kr_completed := kr_completed r + 1, kr_last_indexed_at := Some now, kr_last_outcome_failed := False\<rparr>)"

text \<open>\<^verbatim>\<open>str::lines().next()\<close>: up to the first line feed, without one carriage return before it.\<close>

definition first_line :: "string \<Rightarrow> string" where
  "first_line s =
     (let line = takeWhile (\<lambda>c. c \<noteq> CHR 0x0A) s in
      if length line < length s \<and> suffix [CHR 0x0D] line then butlast line else line)"

definition bound_summary :: "string \<Rightarrow> string" where
  "bound_summary summary =
     (let line = trim (first_line summary);
          bounded = concat (take FAILURE_SUMMARY_MAX_CHARS (utf8_chars line)) in
      if FAILURE_SUMMARY_MAX_CHARS < length (utf8_chars line)
      then bounded @ [CHR 0xE2, CHR 0x80, CHR 0xA6] else bounded)"

definition health_failed :: "index_health \<Rightarrow> string \<Rightarrow> string \<Rightarrow> string \<Rightarrow> int \<Rightarrow> index_health" where
  "health_failed h kb object_key summary now =
     (let summary' = bound_summary summary in
      health_record h kb
        (\<lambda>r. r\<lparr>kr_completed := kr_completed r + 1,
               kr_last_failure := Some \<lparr>if_at = now, if_object_key = object_key, if_summary = summary'\<rparr>,
               kr_last_outcome_failed := True\<rparr>))"

definition health_backpressured :: "index_health \<Rightarrow> string \<Rightarrow> int \<Rightarrow> index_health" where
  "health_backpressured h kb now = health_record h kb (\<lambda>r. r\<lparr>kr_last_backpressure_at := Some now\<rparr>)"

definition health_mark_stale :: "index_health \<Rightarrow> string \<Rightarrow> int \<Rightarrow> index_health" where
  "health_mark_stale h kb now = health_record h kb
     (\<lambda>r. r\<lparr>kr_stale_since := Some (case kr_stale_since r of None \<Rightarrow> now | Some t \<Rightarrow> t)\<rparr>)"

definition health_reconciled :: "index_health \<Rightarrow> string \<Rightarrow> reconcile_summary \<Rightarrow> index_health" where
  "health_reconciled h kb summary = health_record h kb
     (\<lambda>r. r\<lparr>kr_last_reconcile := Some summary, kr_stale_since := None\<rparr>)"

definition health_worker_stopped :: "index_health \<Rightarrow> index_health" where
  "health_worker_stopped h = h\<lparr>ih_worker_alive := False\<rparr>"

section \<open>The derived state\<close>

definition i64_saturating_sub :: "int \<Rightarrow> int \<Rightarrow> int" where
  "i64_saturating_sub a b = max (- (2 ^ 63)) (min (2 ^ 63 - 1) (a - b))"

definition kr_pending :: "kb_record \<Rightarrow> nat" where
  "kr_pending r = unat (saturating_sub (kr_enqueued r) (kr_completed r))"

definition derive_state :: "kb_record \<Rightarrow> bool \<Rightarrow> int \<Rightarrow> index_state" where
  "derive_state r worker_alive now =
     (if \<not> worker_alive then St_Failed
      else if kr_last_outcome_failed r then St_Failed
      else if kr_stale_since r \<noteq> None then St_Stale
      else if (case kr_last_backpressure_at r of None \<Rightarrow> False
               | Some at \<Rightarrow> i64_saturating_sub now at \<le> BACKPRESSURE_WINDOW) then St_Backpressured
      else if 0 < kr_pending r then St_Indexing
      else St_Healthy)"

definition health_snapshot :: "index_health \<Rightarrow> string \<Rightarrow> int \<Rightarrow> kb_health_snapshot" where
  "health_snapshot h kb now =
     (let r = (case ih_kbs h kb of None \<Rightarrow> kb_record_default | Some r \<Rightarrow> r) in
      \<lparr>hs_state = derive_state r (ih_worker_alive h) now, hs_pending = kr_pending r,
       hs_worker_alive = ih_worker_alive h, hs_last_indexed_at = kr_last_indexed_at r,
       hs_last_failure = kr_last_failure r, hs_last_backpressure_at = kr_last_backpressure_at r,
       hs_stale_since = kr_stale_since r, hs_last_reconcile = kr_last_reconcile r\<rparr>)"

section \<open>Histories\<close>

datatype health_op =
    Op_Enqueued string
  | Op_Succeeded string int
  | Op_Failed string string string int
  | Op_Backpressured string int
  | Op_MarkStale string int
  | Op_Reconciled string reconcile_summary
  | Op_WorkerStopped

fun health_apply :: "index_health \<Rightarrow> health_op \<Rightarrow> index_health" where
  "health_apply h (Op_Enqueued kb) = health_enqueued h kb"
| "health_apply h (Op_Succeeded kb now) = health_succeeded h kb now"
| "health_apply h (Op_Failed kb key summary now) = health_failed h kb key summary now"
| "health_apply h (Op_Backpressured kb now) = health_backpressured h kb now"
| "health_apply h (Op_MarkStale kb now) = health_mark_stale h kb now"
| "health_apply h (Op_Reconciled kb summary) = health_reconciled h kb summary"
| "health_apply h Op_WorkerStopped = health_worker_stopped h"

definition health_run :: "health_op list \<Rightarrow> index_health" where
  "health_run ops = foldl health_apply index_health_new ops"

text \<open>What the history says of one knowledge base.\<close>

fun counts_enqueued :: "string \<Rightarrow> health_op \<Rightarrow> bool" where
  "counts_enqueued kb (Op_Enqueued k) = (k = kb)"
| "counts_enqueued kb _ = False"

fun counts_completed :: "string \<Rightarrow> health_op \<Rightarrow> bool" where
  "counts_completed kb (Op_Succeeded k _) = (k = kb)"
| "counts_completed kb (Op_Failed k _ _ _) = (k = kb)"
| "counts_completed kb _ = False"

fun is_failure :: "health_op \<Rightarrow> bool" where
  "is_failure (Op_Failed _ _ _ _) = True"
| "is_failure _ = False"

fun observes :: "string \<Rightarrow> health_op \<Rightarrow> bool" where
  "observes kb (Op_MarkStale k _) = (k = kb)"
| "observes kb (Op_Reconciled k _) = (k = kb)"
| "observes kb _ = False"

fun is_stale_mark :: "health_op \<Rightarrow> bool" where
  "is_stale_mark (Op_MarkStale _ _) = True"
| "is_stale_mark _ = False"

fun refused_at :: "string \<Rightarrow> health_op \<Rightarrow> int option" where
  "refused_at kb (Op_Backpressured k now) = (if k = kb then Some now else None)"
| "refused_at kb _ = None"

definition last_is :: "(health_op \<Rightarrow> bool) \<Rightarrow> (health_op \<Rightarrow> bool) \<Rightarrow> health_op list \<Rightarrow> bool" where
  "last_is among good ops \<longleftrightarrow> filter among ops \<noteq> [] \<and> good (last (filter among ops))"

definition last_refusal :: "string \<Rightarrow> health_op list \<Rightarrow> int option" where
  "last_refusal kb ops = (case List.map_filter (refused_at kb) (rev ops) of [] \<Rightarrow> None | t # _ \<Rightarrow> Some t)"

definition kb_record_of :: "index_health \<Rightarrow> string \<Rightarrow> kb_record" where
  "kb_record_of h kb = (case ih_kbs h kb of None \<Rightarrow> kb_record_default | Some r \<Rightarrow> r)"

lemma kb_record_of_record [simp]:
  "kb_record_of (health_record h k f) kb = (if kb = k then f (kb_record_of h k) else kb_record_of h kb)"
  "ih_worker_alive (health_record h k f) = ih_worker_alive h"
  by (simp_all add: kb_record_of_def health_record_def)

lemmas health_defs = health_enqueued_def health_succeeded_def health_failed_def health_backpressured_def
  health_mark_stale_def health_reconciled_def health_worker_stopped_def

lemma last_is_snoc [simp]:
  "last_is among good (ops @ [x]) = (if among x then good x else last_is among good ops)"
  by (simp add: last_is_def)

lemma last_refusal_snoc [simp]:
  "last_refusal kb (ops @ [x]) = (case refused_at kb x of Some t \<Rightarrow> Some t | None \<Rightarrow> last_refusal kb ops)"
  by (simp add: last_refusal_def map_filter_simps split: option.split)

lemma kb_record_of_stopped [simp]: "kb_record_of (h\<lparr>ih_worker_alive := b\<rparr>) kb = kb_record_of h kb"
  by (simp add: kb_record_of_def)

lemma health_run_record:
  "let r = kb_record_of (health_run ops) kb in
     kr_enqueued r = of_nat (length (filter (counts_enqueued kb) ops))
     \<and> kr_completed r = of_nat (length (filter (counts_completed kb) ops))
     \<and> kr_last_outcome_failed r = last_is (counts_completed kb) is_failure ops
     \<and> (kr_stale_since r \<noteq> None) = last_is (observes kb) is_stale_mark ops
     \<and> kr_last_backpressure_at r = last_refusal kb ops
     \<and> ih_worker_alive (health_run ops) = (Op_WorkerStopped \<notin> set ops)"
proof (induction ops rule: rev_induct)
  case Nil
  then show ?case
    by (simp add: health_run_def index_health_new_def kb_record_of_def kb_record_default_def last_is_def
        last_refusal_def map_filter_simps)
next
  case (snoc x ops)
  have step: "health_run (ops @ [x]) = health_apply (health_run ops) x" by (simp add: health_run_def)
  show ?case using snoc unfolding step Let_def by (cases x) (auto simp: health_defs Let_def)
qed

lemma saturating_window: "i64_saturating_sub now at \<le> 30 \<longleftrightarrow> now - at \<le> 30"
  by (auto simp: i64_saturating_sub_def)

lemma pending_of_nat:
  assumes "e < 2 ^ 64" "c < 2 ^ 64"
  shows "unat (saturating_sub (of_nat e) (of_nat c)) = e - c"
  using assms by (simp add: unat_of_nat take_bit_nat_eq_self)

section \<open>Properties\<close>

text \<open>
  C31: The health view says what the history says.  After any sequence of stamps on any knowledge bases,
  in whatever order the producers' and the worker's arrive, the pending count is the excess of
  enqueued over completed events and zero when a completion overtook its enqueue, and the reported
  state is the most severe one that holds: failed when the worker stopped or the last completed event
  failed; stale when the last word on observation is a stale mark; backpressured within thirty seconds of the
  last refusal; indexing while events are pending; healthy otherwise.  Other knowledge bases do not matter.
  An event is pending until it is completed: one the worker has taken and is still handling is counted, although the comments
  on the field call the count that of the events ``not yet taken by the worker''.
\<close>

theorem index_health_exact:
  assumes "length ops < 2 ^ 64"
  shows "let pending = length (filter (counts_enqueued kb) ops) - length (filter (counts_completed kb) ops);
             snap = health_snapshot (health_run ops) kb now in
    hs_pending snap = pending
    \<and> hs_state snap =
       (if Op_WorkerStopped \<in> set ops \<or> last_is (counts_completed kb) is_failure ops then St_Failed
        else if last_is (observes kb) is_stale_mark ops then St_Stale
        else if (\<exists>at. last_refusal kb ops = Some at \<and> now - at \<le> 30) then St_Backpressured
        else if 0 < pending then St_Indexing else St_Healthy)"
proof -
  let ?r = "kb_record_of (health_run ops) kb"
  have le: "length (filter P ops) < 2 ^ 64" for P using assms length_filter_le[of P ops] by linarith
  have snap: "hs_pending (health_snapshot (health_run ops) kb now) = kr_pending ?r"
    "hs_state (health_snapshot (health_run ops) kb now) = derive_state ?r (ih_worker_alive (health_run ops)) now"
    by (simp_all add: health_snapshot_def Let_def kb_record_of_def)
  have pending: "kr_pending ?r = length (filter (counts_enqueued kb) ops) - length (filter (counts_completed kb) ops)"
    using health_run_record[of ops kb] pending_of_nat[OF le le] by (simp add: kr_pending_def Let_def)
  show ?thesis
    unfolding Let_def snap pending derive_state_def BACKPRESSURE_WINDOW_def saturating_window
    using health_run_record[of ops kb] by (auto simp: Let_def pending split: option.splits)
qed

theorem index_health_exact_witness:
  "hs_pending (health_snapshot (health_run [Op_Succeeded ''kb'' 5, Op_Enqueued ''kb'', Op_Enqueued ''kb'']) ''kb'' 9) = 1
   \<and> hs_state (health_snapshot (health_run [Op_Succeeded ''kb'' 5, Op_Enqueued ''kb'', Op_Enqueued ''kb'']) ''kb'' 9) = St_Indexing"
  using index_health_exact[of "[Op_Succeeded ''kb'' 5, Op_Enqueued ''kb'', Op_Enqueued ''kb'']" "''kb''" 9]
  by (simp add: last_is_def last_refusal_def map_filter_simps Let_def)

text \<open>The summary kept of a failure is one line of bounded length.\<close>

lemma bound_summary_chars: "length (utf8_chars (bound_summary s)) \<le> FAILURE_SUMMARY_MAX_CHARS + 1"
proof -
  have "utf8_chars (a @ [CHR 0xE2, CHR 0x80, CHR 0xA6]) = utf8_chars a @ [[CHR 0xE2, CHR 0x80, CHR 0xA6]]" for a
    using utf8_chars_append_start[of "[CHR 0xE2, CHR 0x80, CHR 0xA6]" a] by (simp add: is_continuation_def)
  then show ?thesis by (simp add: bound_summary_def Let_def utf8_chars_take)
qed

end
