(* ===== verification/Write_Path.thy ===== *)
theory Write_Path
  imports Mem_Storage Event_Log Index_Queue Index_Health Manifest
begin

text \<open>
  The shared write path (\<^verbatim>\<open>notedthat-write\<close>: \<^verbatim>\<open>commit.rs\<close>, \<^verbatim>\<open>patch.rs\<close>, \<^verbatim>\<open>replace.rs\<close>, \<^verbatim>\<open>mime.rs\<close>, \<^verbatim>\<open>sinks.rs\<close>): every surface ends in
  \<open>commit\<close>, \<open>commit_copy\<close>, \<open>commit_delete\<close>, \<open>patch\<close> or \<open>replace\<close>.

  The functions are asynchronous, so other tasks run at every await.  \<open>be_env\<close> is what they did: an
  arbitrary change of the shared world before each storage call and each publication.  \<open>wd_trace\<close> records, for the
  properties only, the storage calls of this task that answered success, each with the store it was applied to, and its
  publications and offers.  A storage call that answers an error leaves no trace; what it did to the store itself
  is \<open>store_effect\<close>'s matter.
\<close>

section \<open>World\<close>

datatype offered = Offered_Queued | Offered_Full | Offered_Closed

datatype 's write_action =
    Act_Put 's kb_slug object_path bytes
  | Act_Copy 's kb_slug object_path object_path
  | Act_Delete 's kb_slug object_path
  | Act_Publish object_event bool
  | Act_Offer index_event offered

record ('s, 'p) world =
  wd_store :: 's
  wd_events :: 'p
  wd_queue :: index_queue
  wd_health :: index_health
  wd_now :: int
  wd_tick :: nat
  wd_trace :: "'s write_action list"

record ('s, 'p) backend =
  be_ops :: "'s storage_ops"
  be_publish :: "'p \<Rightarrow> object_event \<Rightarrow> (string, event_id) result \<times> 'p"
  be_env :: "nat \<Rightarrow> ('s, 'p) world \<Rightarrow> ('s, 'p) world"
  be_from_slice :: "bytes \<Rightarrow> (string, kb_manifest) result"
  be_rfc3339 :: "int \<Rightarrow> string"

record write_sinks =
  ws_events :: bool
  ws_index_health :: bool
  ws_source :: event_source

type_synonym ('s, 'p, 'e, 'a) action = "('s, 'p) world \<Rightarrow> ('e, 'a) result \<times> ('s, 'p) world"

definition interfere :: "('s, 'p) backend \<Rightarrow> ('s, 'p) world \<Rightarrow> ('s, 'p) world" where
  "interfere be w = (be_env be (wd_tick w) w)\<lparr>wd_tick := Suc (wd_tick w), wd_trace := wd_trace w\<rparr>"

definition emit :: "'s write_action \<Rightarrow> ('s, 'p) world \<Rightarrow> ('s, 'p) world" where
  "emit a w = w\<lparr>wd_trace := wd_trace w @ [a]\<rparr>"

section \<open>Storage calls\<close>

definition st_head :: "('s, 'p) backend \<Rightarrow> kb_slug \<Rightarrow> object_path \<Rightarrow> conditional_headers \<Rightarrow> ('s, 'p, storage_error, object_meta) action" where
  "st_head be kb path c w =
     (let w' = interfere be w in (op_head (be_ops be) (wd_store w') kb path c, w'))"

definition st_get :: "('s, 'p) backend \<Rightarrow> kb_slug \<Rightarrow> object_path \<Rightarrow> conditional_headers \<Rightarrow> ('s, 'p, storage_error, object_read) action" where
  "st_get be kb path c w =
     (let w' = interfere be w in (op_get (be_ops be) (wd_store w') kb path None c, w'))"

definition st_put :: "('s, 'p) backend \<Rightarrow> kb_slug \<Rightarrow> object_path \<Rightarrow> bytes \<Rightarrow> string option \<Rightarrow> conditional_headers
    \<Rightarrow> ('s, 'p, storage_error, put_outcome) action" where
  "st_put be kb path b ct c w =
     (let w' = interfere be w; (res, s) = op_put (be_ops be) (wd_store w') kb path b ct c in
      (res, (if is_ok res then emit (Act_Put (wd_store w') kb path b) else id) (w'\<lparr>wd_store := s\<rparr>)))"

definition st_copy :: "('s, 'p) backend \<Rightarrow> kb_slug \<Rightarrow> object_path \<Rightarrow> object_path \<Rightarrow> copy_object_options
    \<Rightarrow> ('s, 'p, storage_error, put_outcome) action" where
  "st_copy be kb src dst options w =
     (let w' = interfere be w; (res, s) = op_copy (be_ops be) (wd_store w') kb src dst options in
      (res, (if is_ok res then emit (Act_Copy (wd_store w') kb src dst) else id) (w'\<lparr>wd_store := s\<rparr>)))"

definition st_delete :: "('s, 'p) backend \<Rightarrow> kb_slug \<Rightarrow> object_path \<Rightarrow> conditional_headers
    \<Rightarrow> ('s, 'p, storage_error, delete_outcome) action" where
  "st_delete be kb path c w =
     (let w' = interfere be w; (res, s) = op_delete (be_ops be) (wd_store w') kb path c in
      (res, (if is_ok res then emit (Act_Delete (wd_store w') kb path) else id) (w'\<lparr>wd_store := s\<rparr>)))"

section \<open>Announcing\<close>

definition MAX_UPLOAD_BYTES :: u64 where
  "MAX_UPLOAD_BYTES = 5 * 1024 * 1024 * 1024"

definition check_size :: "u64 \<Rightarrow> u64 \<Rightarrow> (write_error, unit) result" where
  "check_size sz limit = (if sz > limit then Inl (WE_TooLarge sz limit) else Inr ())"

definition sniff_content_type :: "string option \<Rightarrow> object_path \<Rightarrow> string" where
  "sniff_content_type caller path =
     (case caller of
        Some ct \<Rightarrow> if ct \<noteq> ''application/octet-stream'' then ct else
          (if map ascii_lower (last (split_on CHR ''.'' (path_str path))) \<in> {''md'', ''markdown''}
           then ''text/markdown'' else ''application/octet-stream'')
      | None \<Rightarrow>
          (if map ascii_lower (last (split_on CHR ''.'' (path_str path))) \<in> {''md'', ''markdown''}
           then ''text/markdown'' else ''application/octet-stream''))"

definition offer_to_index :: "write_sinks \<Rightarrow> index_event \<Rightarrow> ('s, 'p) world \<Rightarrow> offered \<times> ('s, 'p) world" where
  "offer_to_index sinks event w =
     (let kb = kb_str (event_kb event);
          (res, q) = queue_try_send (wd_queue w) event;
          off = (case res of Inr _ \<Rightarrow> Offered_Queued
                     | Inl (Send_Full _) \<Rightarrow> Offered_Full
                     | Inl (Send_Closed _) \<Rightarrow> Offered_Closed);
          health = (if ws_index_health sinks then
                      (case off of
                         Offered_Queued \<Rightarrow> health_enqueued (wd_health w) kb
                       | Offered_Full \<Rightarrow> health_backpressured (wd_health w) kb (wd_now w)
                       | Offered_Closed \<Rightarrow> health_worker_stopped (wd_health w))
                    else wd_health w) in
      (off, emit (Act_Offer event off) (w\<lparr>wd_queue := q, wd_health := health\<rparr>)))"

text \<open>The guard armed before the publication: dropped while still armed, it makes the offer itself.\<close>

definition enqueue_on_drop :: "write_sinks \<Rightarrow> index_event option \<Rightarrow> ('s, 'p) world \<Rightarrow> ('s, 'p) world" where
  "enqueue_on_drop sinks event w =
     (case event of None \<Rightarrow> w | Some e \<Rightarrow> snd (offer_to_index sinks e w))"

definition publish_change :: "('s, 'p) backend \<Rightarrow> object_event \<Rightarrow> write_effect \<Rightarrow> ('s, 'p, write_error, unit) action" where
  "publish_change be event after w =
     (let w' = interfere be w; (res, p) = be_publish be (wd_events w') event in
      ((case res of Inr _ \<Rightarrow> Inr () | Inl _ \<Rightarrow> Inl (WE_EventPublishFailed after)),
       emit (Act_Publish event (is_ok res)) (w'\<lparr>wd_events := p\<rparr>)))"

definition after_write :: "('s, 'p) backend \<Rightarrow> write_sinks \<Rightarrow> kb_slug \<Rightarrow> object_path \<Rightarrow> put_outcome \<Rightarrow> u64 \<Rightarrow> string
    \<Rightarrow> ('s, 'p, write_error, unit) action" where
  "after_write be sinks kb path outcome sz mime w =
     (let (pub_ok, w1) =
            (if ws_events sinks then
               publish_change be
                 (event_written (be_rfc3339 be (wd_now w)) kb path
                    (case po_etag outcome of None \<Rightarrow> [] | Some t \<Rightarrow> t) sz mime (wd_now w) (ws_source sinks))
                 Effect_Stored w
             else (Inr (), w));
          (off, w2) = offer_to_index sinks (Upsert kb path) w1 in
      case off of
        Offered_Full \<Rightarrow> (Inl WE_IndexerBackpressureUpsert, w2)
      | _ \<Rightarrow> (pub_ok, w2))"

section \<open>Writing, copying, deleting\<close>

definition commit :: "('s, 'p) backend \<Rightarrow> write_sinks \<Rightarrow> kb_slug \<Rightarrow> object_path \<Rightarrow> bytes \<Rightarrow> string option \<Rightarrow> conditional_headers
    \<Rightarrow> ('s, 'p, write_error, put_outcome) action" where
  "commit be sinks kb path body caller_content_type c w =
     (let sz = of_nat (length body) in
      case res_bind (check_size sz MAX_UPLOAD_BYTES) (\<lambda>_. check_manifest_bytes (be_from_slice be) kb path body) of
        Inl e \<Rightarrow> (Inl e, w)
      | Inr _ \<Rightarrow>
          let mime = sniff_content_type caller_content_type path in
          case st_put be kb path body (Some mime) c w of
            (Inl e, w1) \<Rightarrow> (Inl (WE_Storage e), w1)
          | (Inr outcome, w1) \<Rightarrow>
              (case after_write be sinks kb path outcome sz mime w1 of
                 (Inl e, w2) \<Rightarrow> (Inl e, w2)
               | (Inr _, w2) \<Rightarrow> (Inr outcome, w2)))"

definition check_copied_manifest :: "('s, 'p) backend \<Rightarrow> kb_slug \<Rightarrow> object_path \<Rightarrow> object_path \<Rightarrow> ('s, 'p, write_error, unit) action" where
  "check_copied_manifest be kb src dst w =
     (if \<not> is_manifest dst then (Inr (), w)
      else case st_head be kb src no_conditions w of
        (Inl e, w1) \<Rightarrow> (Inl (WE_Storage e), w1)
      | (Inr meta, w1) \<Rightarrow>
          if om_size meta > MANIFEST_MAX_BYTES then
            (Inl (WE_InvalidManifest (''manifest is '' @ show_u64 (om_size meta) @ '' bytes; a manifest is at most ''
                    @ show_u64 MANIFEST_MAX_BYTES)), w1)
          else case st_get be kb src no_conditions w1 of
            (Inl e, w2) \<Rightarrow> (Inl (WE_Storage e), w2)
          | (Inr read, w2) \<Rightarrow> (check_manifest_bytes (be_from_slice be) kb dst (or_bytes read), w2))"

text \<open>The size and type the event of a copy carries; the extra HEAD is paid only when there is a log.\<close>

definition copy_stamp :: "('s, 'p) backend \<Rightarrow> write_sinks \<Rightarrow> kb_slug \<Rightarrow> object_path \<Rightarrow> copy_object_options
    \<Rightarrow> ('s, 'p) world \<Rightarrow> (u64 \<times> string option) \<times> ('s, 'p) world" where
  "copy_stamp be sinks kb dst options w =
     (if ws_events sinks then
        (case st_head be kb dst no_conditions w of
           (Inr meta, w') \<Rightarrow>
             ((om_size meta, case om_content_type meta of Some t \<Rightarrow> Some t | None \<Rightarrow> copy_content_type options), w')
         | (Inl _, w') \<Rightarrow> ((0, copy_content_type options), w'))
      else ((0, copy_content_type options), w))"

definition commit_copy :: "('s, 'p) backend \<Rightarrow> write_sinks \<Rightarrow> kb_slug \<Rightarrow> object_path \<Rightarrow> object_path \<Rightarrow> copy_object_options
    \<Rightarrow> ('s, 'p, write_error, put_outcome) action" where
  "commit_copy be sinks kb src dst options w =
     (case check_copied_manifest be kb src dst w of
        (Inl e, w1) \<Rightarrow> (Inl e, w1)
      | (Inr _, w1) \<Rightarrow>
          (case st_copy be kb src dst options w1 of
             (Inl e, w2) \<Rightarrow> (Inl (WE_Storage e), w2)
           | (Inr outcome, w2) \<Rightarrow>
               let ((sz, mime), w3) = copy_stamp be sinks kb dst options w2 in
               (case after_write be sinks kb dst outcome sz (case mime of None \<Rightarrow> [] | Some t \<Rightarrow> t) w3 of
                  (Inl e, w4) \<Rightarrow> (Inl e, w4)
                | (Inr _, w4) \<Rightarrow> (Inr outcome, w4))))"

definition commit_delete :: "('s, 'p) backend \<Rightarrow> write_sinks \<Rightarrow> kb_slug \<Rightarrow> object_path \<Rightarrow> conditional_headers
    \<Rightarrow> ('s, 'p, write_error, unit) action" where
  "commit_delete be sinks kb path c w =
     (let (deleted, w1) = st_delete be kb path c w in
      case (case deleted of Inr _ \<Rightarrow> None | Inl (SE_NotFound _) \<Rightarrow> None | Inl e \<Rightarrow> Some e) of
        Some e \<Rightarrow> (Inl (WE_Storage e), w1)
      | None \<Rightarrow>
          let (pub_ok, w2) =
                (if ws_events sinks
                 then publish_change be (event_deleted (be_rfc3339 be (wd_now w1)) kb path (ws_source sinks)) Effect_Deleted w1
                 else (Inr (), w1));
              (off, w3) = offer_to_index sinks (Tombstone kb path) w2 in
          case off of
            Offered_Full \<Rightarrow> (Inl WE_IndexerBackpressureTombstone, w3)
          | _ \<Rightarrow> (pub_ok, w3))"

section \<open>Rewriting in place\<close>

record cas_rewrite_target =
  cas_kb :: kb_slug
  cas_path :: object_path
  cas_caller_if_match :: "string option"
  cas_max_size :: u64
  cas_caller_content_type :: "string option"

definition only_if_match :: "string \<Rightarrow> conditional_headers" where
  "only_if_match etag = no_conditions\<lparr>if_match := Some etag\<rparr>"

definition head_anchor :: "('s, 'p) backend \<Rightarrow> cas_rewrite_target \<Rightarrow> ('s, 'p, write_error, string) action" where
  "head_anchor be t w =
     (case st_head be (cas_kb t) (cas_path t) no_conditions w of
        (Inl e, w1) \<Rightarrow> (Inl (WE_Storage e), w1)
      | (Inr meta, w1) \<Rightarrow>
          if (case cas_caller_if_match t of None \<Rightarrow> False | Some caller_etag \<Rightarrow> om_etag meta \<noteq> Some caller_etag)
          then (Inl (WE_Storage SE_PreconditionFailed), w1)
          else if om_size meta > cas_max_size t then (Inl (WE_PatchTooLarge (om_size meta) (cas_max_size t)), w1)
          else (ok_or (WE_PatchInvalidRange ''backend did not return ETag on HEAD'') (om_etag meta), w1))"

text \<open>The attempts of the loop; the number is how many more may follow this one.\<close>

fun cas_attempts :: "nat \<Rightarrow> ('s, 'p) backend \<Rightarrow> write_sinks \<Rightarrow> cas_rewrite_target
    \<Rightarrow> (bytes \<Rightarrow> (write_error, bytes \<times> 'x) result) \<Rightarrow> ('s, 'p, write_error, put_outcome \<times> 'x) action" where
  "cas_attempts left be sinks t edit w =
     (case head_anchor be t w of
        (Inl e, w1) \<Rightarrow> (Inl e, w1)
      | (Inr head_etag, w1) \<Rightarrow>
          (case st_get be (cas_kb t) (cas_path t) (only_if_match head_etag) w1 of
             (Inl e, w2) \<Rightarrow>
               (case left of
                  Suc m \<Rightarrow> if e = SE_PreconditionFailed then cas_attempts m be sinks t edit w2 else (Inl (WE_Storage e), w2)
                | 0 \<Rightarrow> (Inl (WE_Storage e), w2))
           | (Inr read, w2) \<Rightarrow>
               (case res_bind (edit (or_bytes read)) (\<lambda>(new_bytes, extra).
                     res_bind (check_manifest_bytes (be_from_slice be) (cas_kb t) (cas_path t) new_bytes) (\<lambda>_.
                     Inr (new_bytes, extra))) of
                  Inl e \<Rightarrow> (Inl e, w2)
                | Inr (new_bytes, extra) \<Rightarrow>
                    let content_type = (case cas_caller_content_type t of Some ct \<Rightarrow> ct | None \<Rightarrow>
                          (case om_content_type (or_meta read) of Some ct \<Rightarrow> ct | None \<Rightarrow> ''application/octet-stream''));
                        new_size = of_nat (length new_bytes) in
                    (case st_put be (cas_kb t) (cas_path t) new_bytes (Some content_type) (only_if_match head_etag) w2 of
                       (Inl e, w3) \<Rightarrow>
                         (case left of
                            Suc m \<Rightarrow> if e = SE_PreconditionFailed then cas_attempts m be sinks t edit w3 else (Inl (WE_Storage e), w3)
                          | 0 \<Rightarrow> (Inl (WE_Storage e), w3))
                     | (Inr outcome, w3) \<Rightarrow>
                         (case after_write be sinks (cas_kb t) (cas_path t) outcome new_size content_type w3 of
                            (Inl e, w4) \<Rightarrow> (Inl e, w4)
                          | (Inr _, w4) \<Rightarrow> (Inr (outcome, extra), w4))))))"

declare cas_attempts.simps [simp del]

definition cas_rewrite :: "('s, 'p) backend \<Rightarrow> write_sinks \<Rightarrow> cas_rewrite_target
    \<Rightarrow> (bytes \<Rightarrow> (write_error, bytes \<times> 'x) result) \<Rightarrow> ('s, 'p, write_error, put_outcome \<times> 'x) action" where
  "cas_rewrite be sinks t edit =
     cas_attempts ((if cas_caller_if_match t = None then 3 else 1) - 1) be sinks t edit"

record patch_request =
  pq_kb :: kb_slug
  pq_path :: object_path
  pq_mode :: patch_mode
  pq_conditionals :: conditional_headers
  pq_max_patchable_size :: u64
  pq_content_type :: "string option"

definition patch :: "('s, 'p) backend \<Rightarrow> write_sinks \<Rightarrow> patch_request \<Rightarrow> ('s, 'p, write_error, put_outcome) action" where
  "patch be sinks q w =
     (case validate_caller_if_match (pq_mode q) (pq_conditionals q) of
        Inl e \<Rightarrow> (Inl e, w)
      | Inr _ \<Rightarrow>
          (case cas_rewrite be sinks
                  \<lparr>cas_kb = pq_kb q, cas_path = pq_path q, cas_caller_if_match = if_match (pq_conditionals q),
                   cas_max_size = pq_max_patchable_size q, cas_caller_content_type = pq_content_type q\<rparr>
                  (\<lambda>src. res_map (\<lambda>b. (b, ())) (apply_patch (pq_mode q) src (pq_max_patchable_size q))) w of
             (Inl e, w') \<Rightarrow> (Inl e, w')
           | (Inr (outcome, _), w') \<Rightarrow> (Inr outcome, w')))"

record replace_request =
  rq_kb :: kb_slug
  rq_path :: object_path
  rq_old_string :: string
  rq_new_string :: string
  rq_replace_all :: bool
  rq_conditionals :: conditional_headers
  rq_max_patchable_size :: u64
  rq_content_type :: "string option"

record replace_outcome =
  ro_put_outcome :: put_outcome
  ro_match_count :: u64

definition replace :: "(bytes \<Rightarrow> bytes \<Rightarrow> nat list) \<Rightarrow> ('s, 'p) backend \<Rightarrow> write_sinks \<Rightarrow> replace_request
    \<Rightarrow> ('s, 'p, write_error, replace_outcome) action" where
  "replace find_iter be sinks q w =
     (if rq_old_string q = [] then
        (Inl (WE_PatchInvalidRange ''old_string must be non-empty (would match every byte position)''), w)
      else case require_strong_if_match (rq_conditionals q) of
        Inl e \<Rightarrow> (Inl e, w)
      | Inr _ \<Rightarrow>
          (case cas_rewrite be sinks
                  \<lparr>cas_kb = rq_kb q, cas_path = rq_path q, cas_caller_if_match = if_match (rq_conditionals q),
                   cas_max_size = rq_max_patchable_size q, cas_caller_content_type = rq_content_type q\<rparr>
                  (\<lambda>src. replace_in find_iter src (rq_old_string q) (rq_new_string q) (rq_replace_all q) (rq_max_patchable_size q)) w of
             (Inl e, w') \<Rightarrow> (Inl e, w')
           | (Inr (outcome, match_count), w') \<Rightarrow> (Inr \<lparr>ro_put_outcome = outcome, ro_match_count = match_count\<rparr>, w')))"

section \<open>What a write tells the world\<close>

text \<open>Interference leaves the trace of this task alone.\<close>

lemma trace_interfere [simp]: "wd_trace (interfere be w) = wd_trace w"
  by (simp add: interfere_def)

lemma trace_emit [simp]: "wd_trace (emit a w) = wd_trace w @ [a]"
  by (simp add: emit_def)

lemma tick_interfere [simp]: "wd_tick (interfere be w) = Suc (wd_tick w)"
  by (simp add: interfere_def)

lemma tick_emit [simp]: "wd_tick (emit a w) = wd_tick w"
  by (simp add: emit_def)

lemma store_emit [simp]: "wd_store (emit a w) = wd_store w"
  by (simp add: emit_def)

lemma st_read_trace:
  "st_head be kb path c w = (r, w') \<Longrightarrow> wd_trace w' = wd_trace w"
  "st_get be kb path c w = (r', w') \<Longrightarrow> wd_trace w' = wd_trace w"
  by (auto simp: st_head_def st_get_def Let_def)

lemma st_put_cases:
  assumes "st_put be kb path b ct c w = (res, w')"
  shows "wd_trace w' = wd_trace w @ (if is_ok res then [Act_Put (wd_store (interfere be w)) kb path b] else [])
    \<and> op_put (be_ops be) (wd_store (interfere be w)) kb path b ct c = (res, wd_store w')
    \<and> wd_tick w' = Suc (wd_tick w)"
  using assms by (auto simp: st_put_def Let_def split: prod.splits if_splits)

lemma st_copy_trace:
  assumes "st_copy be kb src dst opts w = (res, w')"
  shows "wd_trace w' = wd_trace w @ (if is_ok res then [Act_Copy (wd_store (interfere be w)) kb src dst] else [])"
  using assms by (auto simp: st_copy_def Let_def split: prod.splits if_splits)

lemma st_delete_trace:
  assumes "st_delete be kb path c w = (res, w')"
  shows "wd_trace w' = wd_trace w @ (if is_ok res then [Act_Delete (wd_store (interfere be w)) kb path] else [])"
  using assms by (auto simp: st_delete_def Let_def split: prod.splits if_splits)

definition announcements :: "write_sinks \<Rightarrow> (object_event \<Rightarrow> bool) \<Rightarrow> index_event \<Rightarrow> 's write_action list \<Rightarrow> bool \<Rightarrow> offered \<Rightarrow> bool" where
  "announcements sinks about event acts pub_ok off \<longleftrightarrow>
     (if ws_events sinks then \<exists>ev. about ev \<and> acts = [Act_Publish ev pub_ok, Act_Offer event off]
      else pub_ok \<and> acts = [Act_Offer event off])"

definition about_write :: "kb_slug \<Rightarrow> object_path \<Rightarrow> put_outcome \<Rightarrow> write_sinks \<Rightarrow> object_event \<Rightarrow> bool" where
  "about_write kb path out sinks ev \<longleftrightarrow> oe_kb ev = kb \<and> oe_key ev = path \<and> oe_source ev = ws_source sinks
     \<and> (\<exists>sz mime t. oe_kind ev = Ev_Written (case po_etag out of None \<Rightarrow> [] | Some e \<Rightarrow> e) sz mime t)"

definition about_delete :: "kb_slug \<Rightarrow> object_path \<Rightarrow> write_sinks \<Rightarrow> object_event \<Rightarrow> bool" where
  "about_delete kb path sinks ev \<longleftrightarrow> oe_kb ev = kb \<and> oe_key ev = path \<and> oe_source ev = ws_source sinks
     \<and> oe_kind ev = Ev_Deleted"

lemma offer_trace:
  assumes "offer_to_index sinks e w = (off, w')"
  shows "wd_trace w' = wd_trace w @ [Act_Offer e off]"
  using assms by (auto simp: offer_to_index_def Let_def split: prod.splits)

lemma publish_trace:
  assumes "publish_change be ev after w = (res, w')"
  shows "wd_trace w' = wd_trace w @ [Act_Publish ev (res = Inr ())] \<and> (res = Inr () \<or> res = Inl (WE_EventPublishFailed after))"
  using assms by (auto simp: publish_change_def Let_def split: prod.splits sum.splits)

lemma after_write_trace:
  assumes "after_write be sinks kb path out sz mime w = (res, w')"
  shows "\<exists>acts pub_ok off. wd_trace w' = wd_trace w @ acts
    \<and> announcements sinks (about_write kb path out sinks) (Upsert kb path) acts pub_ok off
    \<and> res = (if off = Offered_Full then Inl WE_IndexerBackpressureUpsert
             else if pub_ok then Inr () else Inl (WE_EventPublishFailed Effect_Stored))"
proof (cases "ws_events sinks")
  case True
  define ev where "ev = event_written (be_rfc3339 be (wd_now w)) kb path
      (case po_etag out of None \<Rightarrow> [] | Some t \<Rightarrow> t) sz mime (wd_now w) (ws_source sinks)"
  obtain p w1 where p: "publish_change be ev Effect_Stored w = (p, w1)" by fastforce
  obtain off w2 where off: "offer_to_index sinks (Upsert kb path) w1 = (off, w2)" by fastforce
  have "res = (case off of Offered_Full \<Rightarrow> Inl WE_IndexerBackpressureUpsert | _ \<Rightarrow> p)" "w' = w2"
    using assms True p off unfolding after_write_def ev_def[symmetric] by (auto split: offered.splits)
  moreover have "about_write kb path out sinks ev" by (simp add: about_write_def ev_def event_written_def)
  ultimately show ?thesis
    using publish_trace[OF p] offer_trace[OF off] True
    by (intro exI[of _ "[Act_Publish ev (p = Inr ()), Act_Offer (Upsert kb path) off]"] exI[of _ "p = Inr ()"] exI[of _ off])
      (auto simp: announcements_def split: offered.splits)
next
  case False
  obtain off w2 where off: "offer_to_index sinks (Upsert kb path) w = (off, w2)" by fastforce
  have "res = (case off of Offered_Full \<Rightarrow> Inl WE_IndexerBackpressureUpsert | _ \<Rightarrow> Inr ())" "w' = w2"
    using assms False off unfolding after_write_def by (auto split: offered.splits)
  then show ?thesis using offer_trace[OF off] False
    by (intro exI[of _ "[Act_Offer (Upsert kb path) off]"] exI[of _ True] exI[of _ off])
      (auto simp: announcements_def split: offered.splits)
qed

text \<open>
  The shape every write ends in: refused before storage changed, with nothing done, or the one storage
  action, then the announcements, and an answer that follows from them.
\<close>

definition write_shape :: "('a \<Rightarrow> object_event \<Rightarrow> bool) \<Rightarrow> index_event \<Rightarrow> write_sinks \<Rightarrow> write_error \<Rightarrow> write_effect
    \<Rightarrow> ('s write_action \<Rightarrow> bool) \<Rightarrow> ('a \<Rightarrow> bool) \<Rightarrow> (write_error, 'a) result \<Rightarrow> 's write_action list \<Rightarrow> bool" where
  "write_shape about event sinks full effect storage ok res acts \<longleftrightarrow>
     (acts = [] \<and> (\<exists>e. res = Inl e \<and> e \<noteq> full \<and> e \<noteq> WE_EventPublishFailed effect))
     \<or> (\<exists>a rest out pub_ok off. acts = a # rest \<and> storage a \<and> ok out
         \<and> announcements sinks (about out) event rest pub_ok off
         \<and> res = (if off = Offered_Full then Inl full
                  else if pub_ok then Inr out else Inl (WE_EventPublishFailed effect)))"

abbreviation stored_shape :: "kb_slug \<Rightarrow> object_path \<Rightarrow> write_sinks \<Rightarrow> ('a \<Rightarrow> put_outcome)
    \<Rightarrow> ('s write_action \<Rightarrow> bool) \<Rightarrow> ('a \<Rightarrow> bool) \<Rightarrow> (write_error, 'a) result \<Rightarrow> 's write_action list \<Rightarrow> bool" where
  "stored_shape kb path sinks outcome \<equiv> write_shape (\<lambda>a. about_write kb path (outcome a) sinks) (Upsert kb path) sinks
     WE_IndexerBackpressureUpsert Effect_Stored"

lemma announce_shape:
  assumes "after_write be sinks kb path (outcome a) sz mime w1 = (r, w2)" "wd_trace w1 = wd_trace w @ [act]" "storage act" "ok a"
  shows "\<exists>acts. wd_trace w2 = wd_trace w @ acts \<and> stored_shape kb path sinks outcome storage ok (res_map (\<lambda>_. a) r) acts"
proof -
  obtain acts p off where "wd_trace w2 = wd_trace w1 @ acts"
    "announcements sinks (about_write kb path (outcome a) sinks) (Upsert kb path) acts p off"
    "r = (if off = Offered_Full then Inl WE_IndexerBackpressureUpsert
             else if p then Inr () else Inl (WE_EventPublishFailed Effect_Stored))"
    using after_write_trace[OF assms(1)] by blast
  then show ?thesis using assms(2-4) unfolding write_shape_def
    by (intro exI[of _ "act # acts"] conjI disjI2 exI[of _ act] exI[of _ acts] exI[of _ a] exI[of _ p] exI[of _ off]) auto
qed

lemma refused_shape:
  assumes "e \<noteq> full" "e \<noteq> WE_EventPublishFailed effect"
  shows "write_shape about event sinks full effect storage ok (Inl e) []"
  using assms by (simp add: write_shape_def)

lemma check_manifest_error: "check_manifest_bytes f kb path b = Inl e \<Longrightarrow> \<exists>m. e = WE_InvalidManifest m"
  by (auto simp: check_manifest_bytes_def manifest_check_size_def validate_manifest_bytes_def
      split: if_splits sum.splits elim!: map_err.elims)

lemma commit_shape:
  assumes "commit be sinks kb path body ct c w = (res, w')"
  shows "\<exists>acts. wd_trace w' = wd_trace w @ acts
    \<and> stored_shape kb path sinks id (\<lambda>a. \<exists>s. a = Act_Put s kb path body) (\<lambda>_. True) res acts"
proof (cases "res_bind (check_size (of_nat (length body)) MAX_UPLOAD_BYTES) (\<lambda>_. check_manifest_bytes (be_from_slice be) kb path body)")
  case (Inl e)
  then have "res = Inl e" "w' = w" using assms by (simp_all add: commit_def)
  moreover have "e \<noteq> WE_IndexerBackpressureUpsert" "e \<noteq> WE_EventPublishFailed Effect_Stored"
    using Inl by (auto simp: res_bind_Inl_iff check_size_def dest!: check_manifest_error split: if_splits)
  ultimately show ?thesis by (intro exI[of _ "[]"]) (auto intro: refused_shape)
next
  case (Inr u)
  let ?mime = "sniff_content_type ct path"
  obtain r w1 where put: "st_put be kb path body (Some ?mime) c w = (r, w1)" by fastforce
  show ?thesis
  proof (cases r)
    case (Inl e)
    then have "res = Inl (WE_Storage e)" "w' = w1" using assms Inr put by (simp_all add: commit_def Let_def)
    then show ?thesis using st_put_cases[OF put] Inl by (intro exI[of _ "[]"]) (auto intro: refused_shape)
  next
    case (Inr out)
    obtain r2 w2 where aw: "after_write be sinks kb path (id out) (of_nat (length body)) ?mime w1 = (r2, w2)" by fastforce
    have "res = res_map (\<lambda>_. out) r2" "w' = w2"
      using assms \<open>_ = Inr u\<close> put Inr aw by (cases r2; simp add: commit_def Let_def)+
    moreover have "wd_trace w1 = wd_trace w @ [Act_Put (wd_store (interfere be w)) kb path body]"
      using st_put_cases[OF put] Inr by simp
    note announce_shape[where outcome = id and ok = "\<lambda>_. True" and storage = "\<lambda>a. \<exists>s. a = Act_Put s kb path body", OF aw this]
    ultimately show ?thesis by simp
  qed
qed

lemma check_copied_trace:
  assumes "check_copied_manifest be kb src dst w = (r, w')"
  shows "wd_trace w' = wd_trace w \<and> (\<forall>e. r = Inl e \<longrightarrow> e \<noteq> WE_IndexerBackpressureUpsert \<and> e \<noteq> WE_EventPublishFailed Effect_Stored)"
  using assms unfolding check_copied_manifest_def
  by (auto dest!: check_manifest_error st_read_trace split: if_splits prod.splits sum.splits)

lemma commit_copy_shape:
  assumes "commit_copy be sinks kb src dst options w = (res, w')"
  shows "\<exists>acts. wd_trace w' = wd_trace w @ acts
    \<and> stored_shape kb dst sinks id (\<lambda>a. \<exists>s. a = Act_Copy s kb src dst) (\<lambda>_. True) res acts"
proof -
  obtain r1 w1 where c: "check_copied_manifest be kb src dst w = (r1, w1)" by fastforce
  note tr1 = check_copied_trace[OF c]
  show ?thesis
  proof (cases r1)
    case (Inl e)
    then have "res = Inl e" "w' = w1" using assms c by (simp_all add: commit_copy_def)
    then show ?thesis using tr1 Inl by (intro exI[of _ "[]"]) (auto intro: refused_shape)
  next
    case (Inr u)
    obtain r2 w2 where cp: "st_copy be kb src dst options w1 = (r2, w2)" by fastforce
    show ?thesis
    proof (cases r2)
      case (Inl e)
      then have "res = Inl (WE_Storage e)" "w' = w2" using assms c Inr cp by (simp_all add: commit_copy_def)
      then show ?thesis using tr1 st_copy_trace[OF cp] Inl by (intro exI[of _ "[]"]) (auto intro: refused_shape)
    next
      case (Inr out)
      obtain sz mime w3 where st: "copy_stamp be sinks kb dst options w2 = ((sz, mime), w3)" by (metis surj_pair)
      then have tr3: "wd_trace w3 = wd_trace w2"
        unfolding copy_stamp_def by (auto dest: st_read_trace split: if_splits prod.splits sum.splits)
      obtain r4 w4 where aw: "after_write be sinks kb dst (id out) sz (case mime of None \<Rightarrow> [] | Some t \<Rightarrow> t) w3 = (r4, w4)"
        by fastforce
      have "res = res_map (\<lambda>_. out) r4" "w' = w4"
        using assms c \<open>r1 = Inr u\<close> cp Inr aw st by (cases r4; simp add: commit_copy_def)+
      moreover have "wd_trace w3 = wd_trace w @ [Act_Copy (wd_store (interfere be w1)) kb src dst]"
        using st_copy_trace[OF cp] Inr tr1 tr3 by simp
      note announce_shape[where outcome = id and ok = "\<lambda>_. True" and storage = "\<lambda>a. \<exists>s. a = Act_Copy s kb src dst", OF aw this]
      ultimately show ?thesis by simp
    qed
  qed
qed

text \<open>A delete of a missing key is announced as well: nothing was deleted, and the announcements are the retry.\<close>

lemma commit_delete_trace:
  assumes "commit_delete be sinks kb path c w = (res, w')"
  shows "\<exists>acts. wd_trace w' = wd_trace w @ acts \<and>
    ((acts = [] \<and> (\<exists>e. res = Inl (WE_Storage e) \<and> (\<nexists>k. e = SE_NotFound k)))
     \<or> (\<exists>pre rest pub_ok off. acts = pre @ rest \<and> (pre = [] \<or> (\<exists>s. pre = [Act_Delete s kb path]))
         \<and> announcements sinks (about_delete kb path sinks) (Tombstone kb path) rest pub_ok off
         \<and> res = (if off = Offered_Full then Inl WE_IndexerBackpressureTombstone
                  else if pub_ok then Inr () else Inl (WE_EventPublishFailed Effect_Deleted))))"
proof -
  obtain d w1 where del: "st_delete be kb path c w = (d, w1)" by fastforce
  note tr = st_delete_trace[OF del]
  define err where "err = (case d of Inr _ \<Rightarrow> None | Inl (SE_NotFound _) \<Rightarrow> None | Inl e \<Rightarrow> Some e)"
  show ?thesis
  proof (cases err)
    case (Some e)
    then have "d = Inl e" "\<nexists>k. e = SE_NotFound k" by (auto simp: err_def split: sum.splits storage_error.splits)
    moreover have "res = Inl (WE_Storage e)" "w' = w1"
      using assms del Some unfolding commit_delete_def by (simp_all add: err_def)
    ultimately show ?thesis using tr by (intro exI[of _ "[]"]) auto
  next
    case None
    define pre where "pre = (if is_ok d then [Act_Delete (wd_store (interfere be w)) kb path] else [])"
    obtain p w2 where p: "(if ws_events sinks
                 then publish_change be (event_deleted (be_rfc3339 be (wd_now w1)) kb path (ws_source sinks)) Effect_Deleted w1
                 else (Inr (), w1)) = (p, w2)" by fastforce
    obtain off w3 where off: "offer_to_index sinks (Tombstone kb path) w2 = (off, w3)" by fastforce
    have res: "res = (case off of Offered_Full \<Rightarrow> Inl WE_IndexerBackpressureTombstone | _ \<Rightarrow> p)" "w' = w3"
      using assms del None p off unfolding commit_delete_def by (auto simp: err_def split: offered.splits)
    have about: "about_delete kb path sinks (event_deleted t kb path (ws_source sinks))" for t
      by (simp add: about_delete_def event_deleted_def)
    obtain rest where rest: "wd_trace w3 = wd_trace w1 @ rest"
      "announcements sinks (about_delete kb path sinks) (Tombstone kb path) rest (p = Inr ()) off"
      "p = Inr () \<or> p = Inl (WE_EventPublishFailed Effect_Deleted)"
    proof (cases "ws_events sinks")
      case True
      then show thesis using p publish_trace[of be _ Effect_Deleted w1 p w2] offer_trace[OF off] about
        by (intro that[of "[Act_Publish (event_deleted (be_rfc3339 be (wd_now w1)) kb path (ws_source sinks)) (p = Inr ()), Act_Offer (Tombstone kb path) off]"])
          (auto simp: announcements_def)
    next
      case False
      then show thesis using p offer_trace[OF off]
        by (intro that[of "[Act_Offer (Tombstone kb path) off]"]) (auto simp: announcements_def)
    qed
    have "wd_trace w' = wd_trace w @ pre @ rest" using tr rest(1) res(2) by (simp add: pre_def)
    moreover have "pre = [] \<or> (\<exists>s. pre = [Act_Delete s kb path])" by (simp add: pre_def)
    moreover have "res = (if off = Offered_Full then Inl WE_IndexerBackpressureTombstone
                  else if p = Inr () then Inr () else Inl (WE_EventPublishFailed Effect_Deleted))"
      using res(1) rest(3) by (auto split: offered.splits)
    ultimately show ?thesis using rest(2) by blast
  qed
qed

section \<open>Rewriting in place loses no update\<close>

definition before_storage :: "write_error \<Rightarrow> bool" where
  "before_storage e \<longleftrightarrow> e \<noteq> WE_IndexerBackpressureUpsert \<and> e \<noteq> WE_EventPublishFailed Effect_Stored"

definition edit_errors :: "(bytes \<Rightarrow> (write_error, 'a) result) \<Rightarrow> bool" where
  "edit_errors edit \<longleftrightarrow> (\<forall>src e. edit src = Inl e \<longrightarrow> before_storage e)"

definition env_keeps :: "('s \<Rightarrow> bool) \<Rightarrow> ('s, 'p) backend \<Rightarrow> bool" where
  "env_keeps P be \<longleftrightarrow> (\<forall>n w. P (wd_store w) \<longrightarrow> P (wd_store (be_env be n w)))"

lemma env_keepsD: "env_keeps P be \<Longrightarrow> P (wd_store w) \<Longrightarrow> P (wd_store (interfere be w))"
  by (simp add: env_keeps_def interfere_def)

text \<open>One store follows from another by what other tasks do alone: every predicate they keep is kept.\<close>

definition only_others :: "('s, 'p) backend \<Rightarrow> 's \<Rightarrow> 's \<Rightarrow> bool" where
  "only_others be s s' \<longleftrightarrow> (\<forall>P. env_keeps P be \<longrightarrow> P s \<longrightarrow> P s')"

lemma only_others_refl [simp]: "only_others be s s"
  by (simp add: only_others_def)

lemma only_others_interfere: "only_others be s (wd_store w) \<Longrightarrow> only_others be s (wd_store (interfere be w))"
  using env_keepsD unfolding only_others_def by blast

lemma only_others_trans: "only_others be s s' \<Longrightarrow> only_others be s' s'' \<Longrightarrow> only_others be s s''"
  unfolding only_others_def by blast

lemma only_othersD: "only_others be s s' \<Longrightarrow> env_keeps P be \<Longrightarrow> P s \<Longrightarrow> P s'"
  unfolding only_others_def by blast

lemma head_anchor_cases:
  assumes "head_anchor be t w = (r, w')"
  shows "wd_trace w' = wd_trace w \<and> w' = interfere be w
    \<and> (case r of Inl e \<Rightarrow> before_storage e
       | Inr etag \<Rightarrow> \<exists>meta. op_head (be_ops be) (wd_store w') (cas_kb t) (cas_path t) no_conditions = Inr meta
           \<and> om_etag meta = Some etag \<and> (\<forall>c. cas_caller_if_match t = Some c \<longrightarrow> c = etag) \<and> om_size meta \<le> cas_max_size t)"
  using assms
  by (auto simp: head_anchor_def st_head_def Let_def before_storage_def not_less
      split: sum.splits if_splits option.splits elim!: ok_or.elims)

lemma cas_attempts_cases:
  assumes "cas_attempts left be sinks t edit w = (res, w')" "edit_errors edit"
  obtains (refused) e where "res = Inl e" "before_storage e" "wd_trace w' = wd_trace w" "wd_tick w' \<le> wd_tick w + 3"
      "(\<And>s kb path b ct c e s'. op_put (be_ops be) s kb path b ct c = (Inl e, s') \<Longrightarrow> s' = s)
        \<Longrightarrow> only_others be (wd_store w) (wd_store w')"
  | (retry) m w1 where "left = Suc m" "cas_attempts m be sinks t edit w1 = (res, w')" "wd_trace w1 = wd_trace w"
      "(\<And>s kb path b ct c e s'. op_put (be_ops be) s kb path b ct c = (Inl e, s') \<Longrightarrow> s' = s)
        \<Longrightarrow> only_others be (wd_store w) (wd_store w1)" "wd_tick w1 \<le> wd_tick w + 3"
  | (stored) etag w1 read w2 new x ct out w3 r where
      "head_anchor be t w = (Inr etag, w1)"
      "st_get be (cas_kb t) (cas_path t) (only_if_match etag) w1 = (Inr read, w2)"
      "edit (or_bytes read) = Inr (new, x)"
      "check_manifest_bytes (be_from_slice be) (cas_kb t) (cas_path t) new = Inr ()"
      "st_put be (cas_kb t) (cas_path t) new (Some ct) (only_if_match etag) w2 = (Inr out, w3)"
      "after_write be sinks (cas_kb t) (cas_path t) out (of_nat (length new)) ct w3 = (r, w')"
      "res = res_map (\<lambda>_. (out, x)) r"
proof -
  note run = assms(1)[unfolded cas_attempts.simps[of left]]
  obtain r1 w1 where h: "head_anchor be t w = (r1, w1)" by fastforce
  note h' = head_anchor_cases[OF h]
  show thesis
  proof (cases r1)
    case (Inl e)
    then show thesis using run h h' by (intro refused[of e]) (auto intro: only_others_interfere)
  next
    case etag: (Inr etag)
    obtain r2 w2 where g: "st_get be (cas_kb t) (cas_path t) (only_if_match etag) w1 = (r2, w2)" by fastforce
    have g': "wd_trace w2 = wd_trace w1" "w2 = interfere be w1"
      using g by (auto dest: st_read_trace) (auto simp: st_get_def Let_def)
    show thesis
    proof (cases r2)
      case (Inl e)
      show thesis
      proof (cases "\<exists>m. left = Suc m \<and> e = SE_PreconditionFailed")
        case True
        then obtain m where m: "left = Suc m" "e = SE_PreconditionFailed" by blast
        show thesis
        proof (rule retry[of m w2])
          show "cas_attempts m be sinks t edit w2 = (res, w')" using run h etag g Inl m by simp
        qed (use m h' g' in \<open>auto intro!: only_others_interfere\<close>)
      next
        case False
        then have "res = Inl (WE_Storage e)" "w' = w2"
          using run h etag g Inl by (auto split: nat.splits if_splits)
        then show thesis using h' g' by (intro refused[of "WE_Storage e"]) (auto simp: before_storage_def intro!: only_others_interfere)
      qed
    next
      case read: (Inr read)
      define plan where "plan = res_bind (edit (or_bytes read)) (\<lambda>(new_bytes, extra).
                     res_bind (check_manifest_bytes (be_from_slice be) (cas_kb t) (cas_path t) new_bytes) (\<lambda>_.
                     Inr (new_bytes, extra)))"
      show thesis
      proof (cases plan)
        case (Inl e)
        then have "before_storage e"
          using assms(2) by (auto simp: plan_def res_bind_Inl_iff edit_errors_def before_storage_def dest!: check_manifest_error)
        moreover have "res = Inl e" "w' = w2"
          using run h etag g read Inl by (simp_all add: plan_def[symmetric])
        ultimately show thesis using h' g' by (intro refused[of e]) (auto intro!: only_others_interfere)
      next
        case (Inr nx)
        obtain new x where nx: "nx = (new, x)" by fastforce
        have plan: "edit (or_bytes read) = Inr (new, x)" "check_manifest_bytes (be_from_slice be) (cas_kb t) (cas_path t) new = Inr ()"
          using Inr nx by (auto simp: plan_def result_simps)
        define ct where "ct = (case cas_caller_content_type t of Some ct \<Rightarrow> ct | None \<Rightarrow>
                          (case om_content_type (or_meta read) of Some ct \<Rightarrow> ct | None \<Rightarrow> ''application/octet-stream''))"
        obtain r3 w3 where p: "st_put be (cas_kb t) (cas_path t) new (Some ct) (only_if_match etag) w2 = (r3, w3)" by fastforce
        note p' = st_put_cases[OF p]
        show thesis
        proof (cases r3)
          case (Inl e)
          have keep: "only_others be (wd_store w) (wd_store w3)"
            if "\<And>s kb path b ct c e s'. op_put (be_ops be) s kb path b ct c = (Inl e, s') \<Longrightarrow> s' = s"
          proof -
            have "wd_store w3 = wd_store (interfere be w2)" using that p' Inl by blast
            then show ?thesis using h' g' by (auto intro!: only_others_interfere)
          qed
          show thesis
          proof (cases "\<exists>m. left = Suc m \<and> e = SE_PreconditionFailed")
            case True
            then obtain m where m: "left = Suc m" "e = SE_PreconditionFailed" by blast
            have again: "cas_attempts m be sinks t edit w3 = (res, w')" "wd_trace w3 = wd_trace w"
              using run h etag g read plan p Inl m h' g' p' by (simp_all add: ct_def[symmetric] Let_def)
            show thesis by (rule retry[OF m(1) again keep]) (use h' g' p' in auto)
          next
            case False
            then have r: "res = Inl (WE_Storage e)" "w' = w3"
              using run h etag g read plan p Inl
              by (auto simp: ct_def[symmetric] Let_def split: nat.splits if_splits)
            show thesis
              by (rule refused[of "WE_Storage e", OF r(1) _ _ _ keep[folded r(2)]]) (use h' g' p' Inl r in \<open>auto simp: before_storage_def\<close>)
          qed
        next
          case out: (Inr out)
          obtain r4 w4 where a: "after_write be sinks (cas_kb t) (cas_path t) out (of_nat (length new)) ct w3 = (r4, w4)" by fastforce
          have "res = res_map (\<lambda>_. (out, x)) r4" "w' = w4"
            using run h etag g read plan p out a
            by (cases r4; simp add: ct_def[symmetric] Let_def)+
          then show thesis using stored h etag g read plan p out a by blast
        qed
      qed
    qed
  qed
qed

lemma cas_attempts_shape:
  assumes "cas_attempts left be sinks t edit w = (res, w')" "edit_errors edit"
  shows "\<exists>acts. wd_trace w' = wd_trace w @ acts
    \<and> stored_shape (cas_kb t) (cas_path t) sinks fst (\<lambda>a. \<exists>s b. a = Act_Put s (cas_kb t) (cas_path t) b) (\<lambda>_. True) res acts"
  using assms
proof (induction left arbitrary: w rule: less_induct)
  case (less left)
  from less.prems show ?case
  proof (cases rule: cas_attempts_cases)
    case (refused e)
    then show ?thesis by (intro exI[of _ "[]"]) (auto simp: before_storage_def intro: refused_shape)
  next
    case (retry m w1)
    then show ?thesis using less.IH[of m w1] less.prems(2) by simp
  next
    case (stored etag w1 read w2 new x ct out w3 r)
    have "wd_trace w3 = wd_trace w @ [Act_Put (wd_store (interfere be w2)) (cas_kb t) (cas_path t) new]"
      using head_anchor_cases[OF stored(1)] st_read_trace(2)[OF stored(2)] st_put_cases[OF stored(5)] by simp
    from announce_shape[where outcome = fst and a = "(out, x)" and ok = "\<lambda>_. True"
        and storage = "\<lambda>a. \<exists>s b. a = Act_Put s (cas_kb t) (cas_path t) b", OF _ this] show ?thesis
      using stored(6,7) by simp
  qed
qed

context object_store
begin

text \<open>
  Against a store that meets its contract, with tags that identify contents, a rewrite that was stored
  replaced exactly the bytes its edit was computed from, whatever other tasks did in between.
\<close>

lemma cas_attempts_no_lost_update:
  assumes "cas_attempts left be sinks t edit w = (Inr (out, x), w')" "edit_errors edit"
    and be: "be_ops be = ops" "env_keeps inv be" "inv (wd_store w)"
    and tags: "inj etag_of" "\<And>b. plain_tag (etag_of b)"
  shows "\<exists>s new obj acts. wd_trace w' = wd_trace w @ Act_Put s (cas_kb t) (cas_path t) new # acts
    \<and> contents s (obj_key (cas_kb t) (cas_path t)) = Some obj \<and> edit (so_bytes obj) = Inr (new, x)
    \<and> (\<forall>c. cas_caller_if_match t = Some c \<longrightarrow> c = so_etag obj)
    \<and> po_etag out = Some (etag_of new) \<and> \<not> po_created out"
  using assms(1,5)
proof (induction left arbitrary: w rule: less_induct)
  case (less left)
  from less.prems(1) assms(2) show ?case
  proof (cases rule: cas_attempts_cases)
    case (refused e)
    then show ?thesis by simp
  next
    case (retry m w1)
    have "inv (wd_store w1)" using only_othersD[OF retry(4) be(2) less.prems(2)] put_err unfolding be(1) by blast
    then show ?thesis using less.IH[of m w1] retry(1-3) by simp
  next
    case (stored etag w1 read w2 new x' ct out' w3 r)
    note h = head_anchor_cases[OF stored(1)]
    have i1: "inv (wd_store w1)" "inv (wd_store (interfere be w1))" "inv (wd_store (interfere be w2))"
      using h less.prems(2) be(2) stored(2) by (auto simp: st_get_def Let_def intro!: env_keepsD)
    have plain: "plain_tag etag"
    proof -
      obtain meta where meta: "op_head ops (wd_store w1) (cas_kb t) (cas_path t) no_conditions = Inr meta" "om_etag meta = Some etag"
        using h unfolding be(1) by auto
      from head_ok[OF meta(1)] show ?thesis using etag_inv[OF i1(1)] tags(2) meta(2) by auto
    qed
    have "etag = etag_of (or_bytes read)"
      using stored(2) get_if_match_seen[of "wd_store (interfere be w1)"] i1(2) plain
      unfolding be(1)[symmetric] by (auto simp: st_get_def Let_def only_if_match_def)
    moreover have put: "op_put ops (wd_store (interfere be w2)) (cas_kb t) (cas_path t) new (Some ct) (no_conditions\<lparr>if_match := Some etag\<rparr>)
        = (Inr out', wd_store w3)"
      using st_put_cases[OF stored(5)] unfolding be(1) only_if_match_def by simp
    ultimately obtain obj where obj: "contents (wd_store (interfere be w2)) (obj_key (cas_kb t) (cas_path t)) = Some obj"
      "so_bytes obj = or_bytes read"
      using cas_put_replaces_seen[OF put i1(3) _ plain tags(1)] by blast
    have res: "out' = out" "x' = x" using stored(7) by (cases r; simp)+
    obtain acts where "wd_trace w' = wd_trace w3 @ acts" using after_write_trace[OF stored(6)] by blast
    then have "wd_trace w' = wd_trace w @ Act_Put (wd_store (interfere be w2)) (cas_kb t) (cas_path t) new # acts"
      using h st_read_trace(2)[OF stored(2)] st_put_cases[OF stored(5)] by simp
    moreover have "so_etag obj = etag" using etag_inv[OF i1(3) obj(1)] obj(2) \<open>etag = _\<close> by simp
    ultimately show ?thesis
      using obj stored(3) res h put_ok[OF i1(3) put] by auto
  qed
qed

end

section \<open>What a write does to storage\<close>

text \<open>The steps of a write that only read, publish or offer leave the store to the other tasks.\<close>

lemma announce_others:
  shows "after_write be sinks kb path out sz mime w = (r, w') \<Longrightarrow> only_others be (wd_store w) (wd_store w')"
    and "check_copied_manifest be kb src dst w = (r2, w2) \<Longrightarrow> only_others be (wd_store w) (wd_store w2)"
    and "copy_stamp be sinks kb dst opts w = (r3, w3) \<Longrightarrow> only_others be (wd_store w) (wd_store w3)"
    and "st_head be kb path c w = (r4, w4) \<Longrightarrow> only_others be (wd_store w) (wd_store w4)"
proof -
  note k = only_others_interfere
  have hd: "st_head be kb path c x = (y, x') \<Longrightarrow> only_others be s (wd_store x) \<Longrightarrow> only_others be s (wd_store x')" for s kb path c x y x'
    using k by (auto simp: st_head_def Let_def)
  have gt: "st_get be kb path c x = (y, x') \<Longrightarrow> only_others be s (wd_store x) \<Longrightarrow> only_others be s (wd_store x')" for s kb path c x y x'
    using k by (auto simp: st_get_def Let_def)
  have off: "offer_to_index sinks e x = (y, x') \<Longrightarrow> wd_store x' = wd_store x" for e x y x'
    by (auto simp: offer_to_index_def Let_def split: prod.splits)
  have pub: "publish_change be ev af x = (y, x') \<Longrightarrow> only_others be (wd_store x) (wd_store x')" for ev af x y x'
    using k[OF only_others_refl, of be x] by (auto simp: publish_change_def Let_def split: prod.splits)
  show "after_write be sinks kb path out sz mime w = (r, w') \<Longrightarrow> only_others be (wd_store w) (wd_store w')"
    unfolding after_write_def by (auto dest!: off dest: pub split: prod.splits if_splits offered.splits)
  show "check_copied_manifest be kb src dst w = (r2, w2) \<Longrightarrow> only_others be (wd_store w) (wd_store w2)"
    using hd gt only_others_refl unfolding check_copied_manifest_def by (fastforce split: if_splits prod.splits sum.splits)
  show "copy_stamp be sinks kb dst opts w = (r3, w3) \<Longrightarrow> only_others be (wd_store w) (wd_store w3)"
    unfolding copy_stamp_def by (auto dest: hd[OF _ only_others_refl] split: if_splits prod.splits sum.splits)
  show "st_head be kb path c w = (r4, w4) \<Longrightarrow> only_others be (wd_store w) (wd_store w4)" by (rule hd[OF _ only_others_refl])
qed

text \<open>The bytes a storage action leaves at its key.\<close>

fun act_stored :: "('s \<Rightarrow> (string \<times> string) \<rightharpoonup> stored_object) \<Rightarrow> 's write_action \<Rightarrow> bytes option" where
  "act_stored contents (Act_Put s kb path b) = Some b"
| "act_stored contents (Act_Copy s kb src dst) = map_option so_bytes (contents s (obj_key kb src))"
| "act_stored contents _ = None"

text \<open>
  Whatever other tasks do, at a key they leave alone the store is as before, up to the one action the
  write made at its own key.
\<close>

definition store_effect :: "('s \<Rightarrow> (string \<times> string) \<rightharpoonup> stored_object) \<Rightarrow> ('s, 'p) backend \<Rightarrow> string \<times> string
    \<Rightarrow> ('s, 'p) world \<Rightarrow> ('s, 'p) world \<Rightarrow> 's write_action list \<Rightarrow> bool" where
  "store_effect contents be key w w' acts \<longleftrightarrow>
     (\<forall>k. (\<forall>v. env_keeps (\<lambda>s. contents s k = v) be) \<longrightarrow>
        (if acts = [] \<or> k \<noteq> key then contents (wd_store w') k = contents (wd_store w) k
         else \<exists>obj. contents (wd_store w') k = Some obj \<and> act_stored contents (hd acts) = Some (so_bytes obj)))"

lemma only_others_value:
  assumes "\<forall>v. env_keeps (\<lambda>s. contents s k = v) be" "only_others be s s'"
  shows "contents s' k = contents s k"
  using only_othersD[where P = "\<lambda>x. contents x k = contents s k", OF assms(2)] assms(1) by simp

lemma refused_effect: "only_others be (wd_store w) (wd_store w') \<Longrightarrow> store_effect contents be key w w' []"
  by (auto simp: store_effect_def dest: only_others_value)

text \<open>The one storage call of a write, and the announcements after it.\<close>

lemma stored_effect:
  assumes "only_others be (wd_store w) s" "contents (wd_store w1) = (contents s)(key \<mapsto> obj)"
    and "act_stored contents a = Some (so_bytes obj)" "only_others be (wd_store w1) (wd_store w')"
  shows "store_effect contents be key w w' (a # acts)"
  unfolding store_effect_def
proof (intro allI impI)
  fix k
  assume env: "\<forall>v. env_keeps (\<lambda>s. contents s k = v) be"
  show "if a # acts = [] \<or> k \<noteq> key then contents (wd_store w') k = contents (wd_store w) k
      else \<exists>obj. contents (wd_store w') k = Some obj \<and> act_stored contents (hd (a # acts)) = Some (so_bytes obj)"
    using only_others_value[where contents = contents and k = k, OF env assms(1)] only_others_value[where contents = contents and k = k, OF env assms(4)] assms(2,3) by (cases "k = key") auto
qed

lemma store_effect_before:
  assumes "only_others be (wd_store w) (wd_store w1)" "store_effect contents be key w1 w' acts"
  shows "store_effect contents be key w w' acts"
  unfolding store_effect_def
proof (intro allI impI)
  fix k
  assume env: "\<forall>v. env_keeps (\<lambda>s. contents s k = v) be"
  have "if acts = [] \<or> k \<noteq> key then contents (wd_store w') k = contents (wd_store w1) k
      else \<exists>obj. contents (wd_store w') k = Some obj \<and> act_stored contents (hd acts) = Some (so_bytes obj)"
    using assms(2) env unfolding store_effect_def by blast
  then show "if acts = [] \<or> k \<noteq> key then contents (wd_store w') k = contents (wd_store w) k
      else \<exists>obj. contents (wd_store w') k = Some obj \<and> act_stored contents (hd acts) = Some (so_bytes obj)"
    unfolding only_others_value[where contents = contents and k = k, OF env assms(1)] .
qed

context object_store
begin

lemma commit_effect:
  assumes run: "commit be sinks kb path body ct c w = (res, w')" "wd_trace w' = wd_trace w @ acts"
    and be: "be_ops be = ops" "env_keeps inv be" "inv (wd_store w)"
  shows "store_effect contents be (obj_key kb path) w w' acts"
proof (cases "res_bind (check_size (of_nat (length body)) MAX_UPLOAD_BYTES) (\<lambda>_. check_manifest_bytes (be_from_slice be) kb path body)")
  case (Inl e)
  then show ?thesis using run by (simp add: commit_def store_effect_def)
next
  case (Inr u)
  let ?mime = "sniff_content_type ct path"
  obtain r w1 where put: "st_put be kb path body (Some ?mime) c w = (r, w1)" by fastforce
  note p = st_put_cases[OF put]
  have env: "only_others be (wd_store w) (wd_store (interfere be w))" by (simp add: only_others_interfere)
  have inv: "inv (wd_store (interfere be w))" by (rule env_keepsD[OF be(2,3)])
  show ?thesis
  proof (cases r)
    case (Inl e)
    then have "w' = w1" "acts = []" using run Inr put p by (simp_all add: commit_def Let_def)
    moreover have "wd_store w1 = wd_store (interfere be w)" using put_err p Inl unfolding be(1) by blast
    ultimately show ?thesis using refused_effect env by metis
  next
    case (Inr out)
    obtain r2 w2 where aw: "after_write be sinks kb path out (of_nat (length body)) ?mime w1 = (r2, w2)" by fastforce
    have w': "w' = w2" using run \<open>_ = Inr u\<close> put Inr aw by (cases r2) (simp_all add: commit_def Let_def)
    obtain more where "wd_trace w2 = wd_trace w1 @ more" using after_write_trace[OF aw] by blast
    then have acts: "acts = Act_Put (wd_store (interfere be w)) kb path body # more" using run(2) w' p Inr by simp
    obtain t where "contents (wd_store w1) = (contents (wd_store (interfere be w)))(obj_key kb path \<mapsto>
        \<lparr>so_bytes = body, so_content_type = Some ?mime, so_etag = etag_of body, so_last_modified = t\<rparr>)" "inv (wd_store w1)"
      using put_ok[OF inv] p Inr unfolding be(1) by blast
    from stored_effect[OF env this(1) _ announce_others(1)[OF aw]] show ?thesis unfolding acts w' by simp
  qed
qed

lemma commit_copy_effect:
  assumes run: "commit_copy be sinks kb src dst options w = (res, w')" "wd_trace w' = wd_trace w @ acts"
    and be: "be_ops be = ops" "env_keeps inv be" "inv (wd_store w)"
  shows "store_effect contents be (obj_key kb dst) w w' acts"
proof -
  obtain r1 w1 where c: "check_copied_manifest be kb src dst w = (r1, w1)" by fastforce
  note keep1 = announce_others(2)[OF c]
  note tr1 = check_copied_trace[OF c]
  show ?thesis
  proof (cases r1)
    case (Inl e)
    then have "w' = w1" "acts = []" using run c tr1 by (simp_all add: commit_copy_def)
    then show ?thesis using refused_effect[OF keep1] by metis
  next
    case (Inr u)
    obtain r2 w2 where cp: "st_copy be kb src dst options w1 = (r2, w2)" by fastforce
    have op: "op_copy ops (wd_store (interfere be w1)) kb src dst options = (r2, wd_store w2)"
      using cp be(1) by (auto simp: st_copy_def Let_def split: prod.splits if_splits)
    note env = only_others_interfere[OF keep1]
    have inv: "inv (wd_store (interfere be w1))" by (rule only_othersD[OF env be(2,3)])
    show ?thesis
    proof (cases r2)
      case (Inl e)
      then have "w' = w2" "acts = []" using run c Inr cp tr1 st_copy_trace[OF cp] by (simp_all add: commit_copy_def)
      moreover have "wd_store w2 = wd_store (interfere be w1)" using copy_err op Inl by blast
      ultimately show ?thesis using refused_effect env by metis
    next
      case out: (Inr out)
      obtain sz mime w3 where st: "copy_stamp be sinks kb dst options w2 = ((sz, mime), w3)" by (metis surj_pair)
      then have tr3: "wd_trace w3 = wd_trace w2"
        unfolding copy_stamp_def by (auto dest: st_read_trace split: if_splits prod.splits sum.splits)
      obtain r4 w4 where aw: "after_write be sinks kb dst out sz (case mime of None \<Rightarrow> [] | Some t \<Rightarrow> t) w3 = (r4, w4)" by fastforce
      have w': "w' = w4" using run(1) c Inr cp out st aw by (cases r4) (simp_all add: commit_copy_def)
      obtain more where "wd_trace w4 = wd_trace w3 @ more" using after_write_trace[OF aw] by blast
      then have acts: "acts = Act_Copy (wd_store (interfere be w1)) kb src dst # more"
        using run(2) w' tr1 tr3 st_copy_trace[OF cp] out by simp
      obtain obj t ct where obj: "contents (wd_store (interfere be w1)) (obj_key kb src) = Some obj"
        "contents (wd_store w2) = (contents (wd_store (interfere be w1)))(obj_key kb dst \<mapsto>
             \<lparr>so_bytes = so_bytes obj, so_content_type = ct, so_etag = so_etag obj, so_last_modified = t\<rparr>)" "inv (wd_store w2)"
        using copy_ok[OF inv] op out by blast
      show ?thesis unfolding acts w'
        by (rule stored_effect[OF env obj(2) _ only_others_trans[OF announce_others(3)[OF st] announce_others(1)[OF aw]]]) (simp add: obj(1))
    qed
  qed
qed

lemma cas_attempts_effect:
  assumes "cas_attempts left be sinks t edit w = (res, w')" "edit_errors edit" "wd_trace w' = wd_trace w @ acts"
    and be: "be_ops be = ops" "env_keeps inv be" "inv (wd_store w)"
  shows "store_effect contents be (obj_key (cas_kb t) (cas_path t)) w w' acts"
  using assms(1,3,6)
proof (induction left arbitrary: w rule: less_induct)
  case (less left)
  have err: "op_put (be_ops be) s kb path b ct c = (Inl e, s') \<Longrightarrow> s' = s" for s kb path b ct c e s'
    using put_err unfolding be(1) by blast
  from less.prems(1) assms(2) show ?case
  proof (cases rule: cas_attempts_cases)
    case (refused e)
    then have "acts = []" using less.prems(2) by simp
    then show ?thesis using refused_effect[OF refused(5)] err by metis
  next
    case (retry m w1)
    have others: "only_others be (wd_store w) (wd_store w1)" using retry(4) err by blast
    have "inv (wd_store w1)" by (rule only_othersD[OF others be(2) less.prems(3)])
    then have "store_effect contents be (obj_key (cas_kb t) (cas_path t)) w1 w' acts"
      using less.IH[of m w1] retry(1-3) less.prems(2) by simp
    then show ?thesis using store_effect_before[OF others] by blast
  next
    case (stored etag w1 read w2 new x ct out w3 r)
    have w2: "w2 = interfere be (interfere be w)"
      using head_anchor_cases[OF stored(1)] stored(2) by (simp add: st_get_def Let_def)
    have env: "only_others be (wd_store w) (wd_store (interfere be w2))"
      by (simp add: w2 only_others_interfere)
    have inv: "inv (wd_store (interfere be w2))" by (rule only_othersD[OF env be(2) less.prems(3)])
    note p = st_put_cases[OF stored(5)]
    obtain rest where "wd_trace w' = wd_trace w3 @ rest" using after_write_trace[OF stored(6)] by blast
    then have acts: "acts = Act_Put (wd_store (interfere be w2)) (cas_kb t) (cas_path t) new # rest"
      using less.prems(2) p head_anchor_cases[OF stored(1)] st_read_trace(2)[OF stored(2)] by simp
    obtain tm where upd: "contents (wd_store w3) = (contents (wd_store (interfere be w2)))(obj_key (cas_kb t) (cas_path t) \<mapsto>
        \<lparr>so_bytes = new, so_content_type = Some ct, so_etag = etag_of new, so_last_modified = tm\<rparr>)" "inv (wd_store w3)"
      using put_ok[OF inv] p unfolding be(1) by blast
    show ?thesis unfolding acts
      by (rule stored_effect[OF env upd(1) _ announce_others(1)[OF stored(6)]]) simp
  qed
qed

end

lemma apply_patch_errors: "edit_errors (\<lambda>src. res_map (\<lambda>b. (b, ())) (apply_patch mode src mx))"
  unfolding edit_errors_def
proof (intro allI impI)
  fix src e assume "res_map (\<lambda>b. (b, ())) (apply_patch mode src mx) = Inl e"
  then have e: "apply_patch mode src mx = Inl e" by (cases "apply_patch mode src mx") auto
  have plan: "splice_plan mode src n = Inl e \<Longrightarrow> before_storage e" for n
    by (cases mode) (auto simp: res_bind_Inl_iff spliced_len_def before_storage_def Let_def split: prod.splits elim!: ok_or.elims)
  show "before_storage e"
    using e plan
    by (auto simp: apply_patch_def res_bind_Inl_iff before_storage_def contradiction_def
        split: if_splits prod.splits patch_mode.splits option.splits)
qed

lemma replace_in_errors: "edit_errors (\<lambda>src. replace_in find_iter src old new all mx)"
  by (auto simp: edit_errors_def before_storage_def replace_in_def Let_def res_bind_Inl_iff splice_replacement_def
      split: if_splits elim!: ok_or.elims)

lemma after_write_tick:
  assumes "after_write be sinks kb path out sz mime w = (r, w')"
  shows "wd_tick w' \<le> Suc (wd_tick w)"
proof -
  have off: "wd_tick (snd (offer_to_index sinks e v)) = wd_tick v" for e v
    by (auto simp: offer_to_index_def Let_def split: prod.splits)
  have pub: "wd_tick (snd (publish_change be ev eff v)) = Suc (wd_tick v)" for ev eff v
    by (auto simp: publish_change_def Let_def split: prod.splits)
  have "wd_tick w' = wd_tick (snd (if ws_events sinks then
               publish_change be
                 (event_written (be_rfc3339 be (wd_now w)) kb path
                    (case po_etag out of None \<Rightarrow> [] | Some t \<Rightarrow> t) sz mime (wd_now w) (ws_source sinks))
                 Effect_Stored w
             else (Inr (), w)))"
    using assms unfolding after_write_def
    by (auto simp: Let_def split: prod.splits offered.splits) (metis off snd_conv)+
  then show ?thesis using pub by simp
qed

lemma cas_attempts_calls:
  assumes "cas_attempts left be sinks t edit w = (res, w')"
    and "edit_errors edit"
  shows "wd_tick w' \<le> wd_tick w + 3 * Suc left + 1"
  using assms
proof (induction left arbitrary: w rule: less_induct)
  case (less left)
  from less.prems show ?case
  proof (cases rule: cas_attempts_cases)
    case (retry m w1)
    then show ?thesis using less.IH[of m w1] less.prems(2) by simp
  next
    case (stored etag w1 read w2 new x ct out w3 r)
    have "wd_tick w3 = wd_tick w + 3"
      using head_anchor_cases[OF stored(1)] stored(2) st_put_cases[OF stored(5)] by (auto simp: st_get_def Let_def)
    then show ?thesis using after_write_tick[OF stored(6)] by simp
  qed simp
qed

lemma patch_stored:
  assumes "patch be sinks q w = (Inr out, w')"
  shows "cas_rewrite be sinks
      \<lparr>cas_kb = pq_kb q, cas_path = pq_path q, cas_caller_if_match = if_match (pq_conditionals q),
       cas_max_size = pq_max_patchable_size q, cas_caller_content_type = pq_content_type q\<rparr>
      (\<lambda>src. res_map (\<lambda>b. (b, ())) (apply_patch (pq_mode q) src (pq_max_patchable_size q))) w = (Inr (out, ()), w')"
  using assms by (auto simp: patch_def split: sum.splits prod.splits)

lemma replace_stored:
  assumes "replace find_iter be sinks q w = (Inr out, w')"
  shows "cas_rewrite be sinks
      \<lparr>cas_kb = rq_kb q, cas_path = rq_path q, cas_caller_if_match = if_match (rq_conditionals q),
       cas_max_size = rq_max_patchable_size q, cas_caller_content_type = rq_content_type q\<rparr>
      (\<lambda>src. replace_in find_iter src (rq_old_string q) (rq_new_string q) (rq_replace_all q) (rq_max_patchable_size q)) w
    = (Inr (ro_put_outcome out, ro_match_count out), w')"
  using assms by (auto simp: replace_def split: sum.splits prod.splits if_splits)

section \<open>Properties\<close>

text \<open>
  C3: No update is lost.  Whatever other tasks do to the store between the calls, a patch or a replacement
  that answers success replaced, in one conditional put, exactly the object its new bytes were computed from: the bytes
  put are the patch (or replacement) of the bytes that were there, the tag the caller named, if any, was
  the tag of that object, and the tag returned is that of the new bytes.  Tags are assumed to identify
  contents and to be quoted strings, and other tasks to keep the store well formed.
\<close>

theorem rewrite_loses_no_update:
  assumes "be_ops be = mem_ops etag_of pd" "env_keeps (mem_inv etag_of) be" "mem_inv etag_of (wd_store w)"
    and "inj etag_of" "\<And>b. plain_tag (etag_of b)"
  shows "(patch be sinks q w = (Inr out, w') \<longrightarrow>
      (\<exists>s new obj acts. wd_trace w' = wd_trace w @ Act_Put s (pq_kb q) (pq_path q) new # acts
        \<and> mem_contents s (obj_key (pq_kb q) (pq_path q)) = Some obj
        \<and> apply_patch (pq_mode q) (so_bytes obj) (pq_max_patchable_size q) = Inr new
        \<and> (\<forall>c. if_match (pq_conditionals q) = Some c \<longrightarrow> c = so_etag obj) \<and> po_etag out = Some (etag_of new)))
    \<and> (replace find_iter be sinks rq w = (Inr rout, w') \<longrightarrow>
      (\<exists>s new obj acts. wd_trace w' = wd_trace w @ Act_Put s (rq_kb rq) (rq_path rq) new # acts
        \<and> mem_contents s (obj_key (rq_kb rq) (rq_path rq)) = Some obj
        \<and> replace_in find_iter (so_bytes obj) (rq_old_string rq) (rq_new_string rq) (rq_replace_all rq) (rq_max_patchable_size rq)
            = Inr (new, ro_match_count rout)
        \<and> (\<forall>c. if_match (rq_conditionals rq) = Some c \<longrightarrow> c = so_etag obj) \<and> po_etag (ro_put_outcome rout) = Some (etag_of new)))"
proof (intro conjI impI)
  assume "patch be sinks q w = (Inr out, w')"
  from mem_store.cas_attempts_no_lost_update[OF patch_stored[OF this, unfolded cas_rewrite_def] apply_patch_errors assms]
  show "\<exists>s new obj acts. wd_trace w' = wd_trace w @ Act_Put s (pq_kb q) (pq_path q) new # acts
        \<and> mem_contents s (obj_key (pq_kb q) (pq_path q)) = Some obj
        \<and> apply_patch (pq_mode q) (so_bytes obj) (pq_max_patchable_size q) = Inr new
        \<and> (\<forall>c. if_match (pq_conditionals q) = Some c \<longrightarrow> c = so_etag obj) \<and> po_etag out = Some (etag_of new)"
    by (fastforce simp: res_map_Inr_iff)
next
  assume "replace find_iter be sinks rq w = (Inr rout, w')"
  from mem_store.cas_attempts_no_lost_update[OF replace_stored[OF this, unfolded cas_rewrite_def] replace_in_errors assms]
  show "\<exists>s new obj acts. wd_trace w' = wd_trace w @ Act_Put s (rq_kb rq) (rq_path rq) new # acts
        \<and> mem_contents s (obj_key (rq_kb rq) (rq_path rq)) = Some obj
        \<and> replace_in find_iter (so_bytes obj) (rq_old_string rq) (rq_new_string rq) (rq_replace_all rq) (rq_max_patchable_size rq)
            = Inr (new, ro_match_count rout)
        \<and> (\<forall>c. if_match (rq_conditionals rq) = Some c \<longrightarrow> c = so_etag obj) \<and> po_etag (ro_put_outcome rout) = Some (etag_of new)"
    by fastforce
qed

lemma write_shape_map:
  assumes "write_shape (\<lambda>a. about (f a)) ev sinks full eff storage (\<lambda>_. True) res acts"
  shows "write_shape about ev sinks full eff storage (\<lambda>_. True) (res_map f res) acts"
  using assms unfolding write_shape_def
proof (elim disjE exE conjE)
  fix a rest out pub_ok off
  assume "acts = a # rest" "storage a" "announcements sinks (about (f out)) ev rest pub_ok off"
    "res = (if off = Offered_Full then Inl full else if pub_ok then Inr out else Inl (WE_EventPublishFailed eff))"
  then show "(acts = [] \<and> (\<exists>e. res_map f res = Inl e \<and> e \<noteq> full \<and> e \<noteq> WE_EventPublishFailed eff)) \<or>
    (\<exists>a rest out pub_ok off. acts = a # rest \<and> storage a \<and> True \<and> announcements sinks (about out) ev rest pub_ok off
       \<and> res_map f res = (if off = Offered_Full then Inl full else if pub_ok then Inr out else Inl (WE_EventPublishFailed eff)))"
    by (intro disjI2 exI[of _ a] exI[of _ rest] exI[of _ "f out"] exI[of _ pub_ok] exI[of _ off]) auto
qed auto

lemma patch_shape:
  assumes "patch be sinks q w = (res, w')"
  shows "\<exists>acts. wd_trace w' = wd_trace w @ acts
    \<and> stored_shape (pq_kb q) (pq_path q) sinks id (\<lambda>a. \<exists>s b. a = Act_Put s (pq_kb q) (pq_path q) b) (\<lambda>_. True) res acts"
proof (cases "validate_caller_if_match (pq_mode q) (pq_conditionals q)")
  case (Inl e)
  then have "res = Inl e" "w' = w" using assms by (simp_all add: patch_def)
  moreover have "before_storage e" using Inl
    by (cases "pq_mode q") (auto simp: require_strong_if_match_def before_storage_def split: option.splits if_splits)
  ultimately show ?thesis by (intro exI[of _ "[]"]) (auto simp: before_storage_def intro: refused_shape)
next
  case (Inr u)
  let ?t = "\<lparr>cas_kb = pq_kb q, cas_path = pq_path q, cas_caller_if_match = if_match (pq_conditionals q),
       cas_max_size = pq_max_patchable_size q, cas_caller_content_type = pq_content_type q\<rparr>"
  let ?edit = "\<lambda>src. res_map (\<lambda>b. (b, ())) (apply_patch (pq_mode q) src (pq_max_patchable_size q))"
  obtain r w1 where cas: "cas_rewrite be sinks ?t ?edit w = (r, w1)" by fastforce
  then have "res = res_map fst r" "w' = w1" using assms Inr by (cases r; auto simp: patch_def split: prod.splits)+
  moreover obtain acts where "wd_trace w1 = wd_trace w @ acts"
    "stored_shape (pq_kb q) (pq_path q) sinks fst (\<lambda>a. \<exists>s b. a = Act_Put s (pq_kb q) (pq_path q) b) (\<lambda>_. True) r acts"
    using cas_attempts_shape[OF cas[unfolded cas_rewrite_def] apply_patch_errors] by auto
  ultimately show ?thesis using write_shape_map[where f = fst and about = "\<lambda>o'. about_write (pq_kb q) (pq_path q) o' sinks"] by auto
qed

lemma patch_effect:
  assumes run: "patch be sinks q w = (res, w')" "wd_trace w' = wd_trace w @ acts"
    and be: "be_ops be = mem_ops etag_of pd" "env_keeps (mem_inv etag_of) be" "mem_inv etag_of (wd_store w)"
  shows "store_effect mem_contents be (obj_key (pq_kb q) (pq_path q)) w w' acts"
proof (cases "validate_caller_if_match (pq_mode q) (pq_conditionals q)")
  case (Inl e)
  then show ?thesis using run by (auto simp: patch_def intro!: refused_effect)
next
  case (Inr u)
  let ?t = "\<lparr>cas_kb = pq_kb q, cas_path = pq_path q, cas_caller_if_match = if_match (pq_conditionals q),
       cas_max_size = pq_max_patchable_size q, cas_caller_content_type = pq_content_type q\<rparr>"
  let ?edit = "\<lambda>src. res_map (\<lambda>b. (b, ())) (apply_patch (pq_mode q) src (pq_max_patchable_size q))"
  obtain r w1 where cas: "cas_rewrite be sinks ?t ?edit w = (r, w1)" by fastforce
  then have "w' = w1" using run(1) Inr by (cases r; auto simp: patch_def split: prod.splits)
  then show ?thesis
    using mem_store.cas_attempts_effect[OF cas[unfolded cas_rewrite_def] apply_patch_errors _ be] run(2) by simp
qed

text \<open>
  C4: A write is announced exactly when it happened, publication before indexing.  A put, a copy or a patch
  either is refused, no storage call of it having succeeded and nothing announced, or one storage call of it succeeds,
  then the event of that version is published (when a log is configured), then the object is offered to the index
  queue; the answer is backpressure when the queue was full, otherwise the publication's failure if it failed, otherwise
  success.  So neither failure hides that the bytes are stored, and the offer is made whether or not the publication
  succeeded.  On the in-memory storage, under any interference, a refused write leaves every key that other tasks leave alone
  as it was; a write that is not refused leaves its bytes (a copy, the bytes of the source when it was copied) at its
  key if other tasks leave that key alone, and changes no other.  The filesystem backend gives no such guarantee for a
  refusal: it can store an object and then answer an error, see C37.
\<close>

theorem write_outcomes_exact:
  fixes mbe :: "(mem_storage, 'p) backend" and mw :: "(mem_storage, 'p) world"
  assumes "be_ops mbe = mem_ops etag_of pd" "env_keeps (mem_inv etag_of) mbe" "mem_inv etag_of (wd_store mw)"
  shows "(commit be sinks kb path body ct c w = (res, w') \<longrightarrow>
      (\<exists>acts. wd_trace w' = wd_trace w @ acts
        \<and> write_shape (\<lambda>out. about_write kb path out sinks) (Upsert kb path) sinks WE_IndexerBackpressureUpsert Effect_Stored
            (\<lambda>a. \<exists>s. a = Act_Put s kb path body) (\<lambda>_. True) res acts))
   \<and> (commit_copy be sinks kb src path options w = (res, w') \<longrightarrow>
      (\<exists>acts. wd_trace w' = wd_trace w @ acts
        \<and> write_shape (\<lambda>out. about_write kb path out sinks) (Upsert kb path) sinks WE_IndexerBackpressureUpsert Effect_Stored
            (\<lambda>a. \<exists>s. a = Act_Copy s kb src path) (\<lambda>_. True) res acts))
   \<and> (patch be sinks q w = (res, w') \<longrightarrow>
      (\<exists>acts. wd_trace w' = wd_trace w @ acts
        \<and> write_shape (\<lambda>out. about_write (pq_kb q) (pq_path q) out sinks) (Upsert (pq_kb q) (pq_path q)) sinks
            WE_IndexerBackpressureUpsert Effect_Stored (\<lambda>a. \<exists>s b. a = Act_Put s (pq_kb q) (pq_path q) b) (\<lambda>_. True) res acts))
   \<and> (\<forall>acts r mw'. wd_trace mw' = wd_trace mw @ acts \<longrightarrow>
        (commit mbe sinks kb path body ct c mw = (r, mw') \<longrightarrow> store_effect mem_contents mbe (obj_key kb path) mw mw' acts)
      \<and> (commit_copy mbe sinks kb src path options mw = (r, mw') \<longrightarrow> store_effect mem_contents mbe (obj_key kb path) mw mw' acts)
      \<and> (patch mbe sinks q mw = (r, mw') \<longrightarrow> store_effect mem_contents mbe (obj_key (pq_kb q) (pq_path q)) mw mw' acts))"
  using commit_shape[of be sinks kb path body ct c w res w'] commit_copy_shape[of be sinks kb src path options w res w']
    patch_shape[of be sinks q w res w'] mem_store.commit_effect[OF _ _ assms, of sinks kb path body ct c]
    mem_store.commit_copy_effect[OF _ _ assms, of sinks kb src path options] patch_effect[OF _ _ assms, of sinks q] by auto

text \<open>
  A delete is idempotent and announced like a write.  It is refused, with nothing changed or announced, exactly on a
  storage error other than a missing object; otherwise the key is gone or was missing, a deletion event is published
  and then a tombstone offered, and the answer follows as for writes.
\<close>

theorem delete_outcomes_exact:
  "commit_delete be sinks kb path c w = (res, w') \<longrightarrow>
   (\<exists>acts. wd_trace w' = wd_trace w @ acts \<and>
    ((acts = [] \<and> (\<exists>e. res = Inl (WE_Storage e) \<and> (\<nexists>k. e = SE_NotFound k)))
     \<or> (\<exists>pre rest pub_ok off. acts = pre @ rest \<and> (pre = [] \<or> (\<exists>s. pre = [Act_Delete s kb path]))
         \<and> announcements sinks (about_delete kb path sinks) (Tombstone kb path) rest pub_ok off
         \<and> res = (if off = Offered_Full then Inl WE_IndexerBackpressureTombstone
                  else if pub_ok then Inr () else Inl (WE_EventPublishFailed Effect_Deleted)))))"
  by (rule impI) (rule commit_delete_trace)

text \<open>
  A patch gives up after at most three attempts, one when the caller named a version: it makes at most
  nine, or three, storage calls and one publication, under any interference.
\<close>

theorem patch_attempts_bounded:
  "wd_tick (snd (patch be sinks q w)) \<le> wd_tick w + (if if_match (pq_conditionals q) = None then 10 else 4)"
proof (cases "validate_caller_if_match (pq_mode q) (pq_conditionals q)")
  case (Inr u)
  let ?t = "\<lparr>cas_kb = pq_kb q, cas_path = pq_path q, cas_caller_if_match = if_match (pq_conditionals q),
       cas_max_size = pq_max_patchable_size q, cas_caller_content_type = pq_content_type q\<rparr>"
  let ?edit = "\<lambda>src. res_map (\<lambda>b. (b, ())) (apply_patch (pq_mode q) src (pq_max_patchable_size q))"
  obtain r w1 where cas: "cas_rewrite be sinks ?t ?edit w = (r, w1)" by fastforce
  then have "snd (patch be sinks q w) = w1" using Inr by (cases r) (auto simp: patch_def split: prod.splits)
  then show ?thesis using cas_attempts_calls[OF cas[unfolded cas_rewrite_def] apply_patch_errors] by (auto split: if_splits)
qed (simp add: patch_def)

section \<open>Witnesses\<close>

text \<open>A tag function that identifies contents: two letters per byte, in quotes.\<close>

definition nibble :: "nat \<Rightarrow> char" where
  "nibble n = char_of (97 + n)"

definition letters :: "char \<Rightarrow> string" where
  "letters c = [nibble (of_char c div 16), nibble (of_char c mod 16)]"

definition demo_tag :: "bytes \<Rightarrow> string" where
  "demo_tag b = dq @ concat (map letters b) @ dq"

lemma of_char_less: "(of_char (c :: char) :: nat) < 256"
  by (metis of_char_mod_256 mod_less_divisor zero_less_numeral)

lemma of_char_nibble: "n < 16 \<Longrightarrow> (of_char (nibble n) :: nat) = 97 + n"
  by (simp add: nibble_def)

lemma letters_inj: "letters c = letters d \<Longrightarrow> c = d"
proof -
  assume "letters c = letters d"
  then have "nibble (of_char c div 16) = nibble (of_char d div 16)" "nibble (of_char c mod 16) = nibble (of_char d mod 16)"
    by (simp_all add: letters_def)
  moreover have "of_char x div (16 :: nat) < 16" for x :: char using of_char_less[of x] by linarith
  ultimately have "(of_char c :: nat) div 16 = of_char d div 16" "(of_char c :: nat) mod 16 = of_char d mod 16"
    by (metis of_char_nibble add_left_cancel) (metis of_char_nibble add_left_cancel mod_less_divisor zero_less_numeral \<open>nibble (of_char c mod 16) = _\<close>)
  then have "(of_char c :: nat) = of_char d" by (metis div_mult_mod_eq)
  then show ?thesis by simp
qed

lemma demo_tag_inj: "inj demo_tag"
proof (rule injI)
  fix a b assume "demo_tag a = demo_tag b"
  then have "concat (map letters a) = concat (map letters b)" by (simp add: demo_tag_def)
  then show "a = b"
  proof (induction a arbitrary: b)
    case Nil
    then show ?case by (cases b) (simp_all add: letters_def)
  next
    case (Cons x a)
    then obtain y b' where "b = y # b'" by (cases b) (auto simp: letters_def)
    then show ?case using Cons letters_inj[of x y] by (auto simp: letters_def)
  qed
qed

lemma demo_tag_plain: "plain_tag (demo_tag b)"
proof -
  have "97 \<le> (of_char x :: nat) \<and> (of_char x :: nat) < 113" if "x \<in> set (letters c)" for x c
  proof -
    have "of_char c div (16 :: nat) < 16" using of_char_less[of c] by linarith
    then show ?thesis using that by (auto simp: letters_def of_char_nibble)
  qed
  then have "x \<noteq> CHR '','' \<and> \<not> is_continuation x \<and> \<not> is_whitespace [x]" if "x \<in> set (letters c)" for x c
    using that by (force simp: is_continuation_def is_whitespace_def)
  then show ?thesis unfolding plain_tag_def demo_tag_def
    by (auto simp: is_continuation_def is_whitespace_def)
qed

definition demo_store :: mem_storage where
  "demo_store = \<lparr>m_objects = [((''notes'', ''a.md''), \<lparr>so_bytes = ''ab'', so_content_type = None, so_etag = demo_tag ''ab'', so_last_modified = 0\<rparr>)],
     m_buckets = {''notes''}, m_unreachable = False, m_now = 0\<rparr>"

definition demo_backend :: "(mem_storage, nat) backend" where
  "demo_backend = \<lparr>be_ops = mem_ops demo_tag (\<lambda>_. Inr 0), be_publish = (\<lambda>p _. (Inr p, Suc p)), be_env = (\<lambda>_ w. w),
     be_from_slice = (\<lambda>_. Inl []), be_rfc3339 = (\<lambda>_. ''t'')\<rparr>"

definition demo_world :: "(mem_storage, nat) world" where
  "demo_world = \<lparr>wd_store = demo_store, wd_events = 0, wd_queue = index_queue_new 4, wd_health = index_health_new,
     wd_now = 0, wd_tick = 0, wd_trace = []\<rparr>"

definition demo_sinks :: write_sinks where
  "demo_sinks = \<lparr>ws_events = True, ws_index_health = True, ws_source = Src_Http\<rparr>"

definition demo_patch :: patch_request where
  "demo_patch = \<lparr>pq_kb = KbSlug ''notes'', pq_path = ObjectPath ''a.md'', pq_mode = PM_Append ''c'',
     pq_conditionals = no_conditions, pq_max_patchable_size = 100, pq_content_type = None\<rparr>"

lemma demo_inv: "mem_inv demo_tag demo_store"
  by (simp add: mem_inv_def demo_store_def)

lemma demo_env: "env_keeps P demo_backend"
  by (simp add: env_keeps_def demo_backend_def)

lemma demo_backend_sel [simp]:
  "be_ops demo_backend = mem_ops demo_tag (\<lambda>_. Inr 0)" "be_publish demo_backend p ev = (Inr p, Suc p)"
  by (simp_all add: demo_backend_def)

lemmas demo_eval = demo_world_def demo_store_def mem_ops_def mem_lookup_def check_reachable_def
  require_bucket_def stored_state_def mem_object_meta_def

lemma demo_interfere: "interfere demo_backend w = w\<lparr>wd_tick := Suc (wd_tick w)\<rparr>"
  by (simp add: interfere_def demo_backend_def)

lemma demo_read_tag: "evaluate_read_preconditions pd \<lparr>os_etag = demo_tag b, os_last_modified = t\<rparr> (only_if_match (demo_tag b)) = Inr ()"
  by (simp add: evaluate_read_preconditions_def for_read_def only_if_match_def no_conditions_def demo_tag_plain)

lemma demo_write_tag: "evaluate_write_preconditions (Some \<lparr>os_etag = demo_tag b, os_last_modified = t\<rparr>) (only_if_match (demo_tag b)) = Inr ()"
  by (simp add: evaluate_write_Inr_iff only_if_match_def no_conditions_def demo_tag_plain)

lemma demo_patch_runs: "\<exists>out w'. patch demo_backend demo_sinks demo_patch demo_world = (Inr out, w')"
proof -
  define t where "t = \<lparr>cas_kb = KbSlug ''notes'', cas_path = ObjectPath ''a.md'', cas_caller_if_match = None,
       cas_max_size = 100, cas_caller_content_type = None\<rparr>"
  define w1 where "w1 = demo_world\<lparr>wd_tick := 1\<rparr>"
  have h: "head_anchor demo_backend t demo_world = (Inr (demo_tag ''ab''), w1)"
    by (simp add: head_anchor_def st_head_def demo_interfere Let_def t_def w1_def demo_eval mem_head_object_def)
  have g: "\<exists>m. st_get demo_backend (cas_kb t) (cas_path t) (only_if_match (demo_tag ''ab'')) w1
      = (Inr \<lparr>or_bytes = ''ab'', or_meta = m, or_content_range = None\<rparr>, w1\<lparr>wd_tick := 2\<rparr>)"
    by (simp add: st_get_def demo_interfere Let_def t_def w1_def demo_eval mem_get_object_def demo_read_tag resolve_range_def)
  then obtain m where g: "st_get demo_backend (cas_kb t) (cas_path t) (only_if_match (demo_tag ''ab'')) w1
      = (Inr \<lparr>or_bytes = ''ab'', or_meta = m, or_content_range = None\<rparr>, w1\<lparr>wd_tick := 2\<rparr>)" by blast
  have a: "apply_patch (PM_Append ''c'') ''ab'' 100 = Inr ''abc''"
    using apply_patch_eq[of "''ab''" "PM_Append ''c''" 100] by simp
  have man: "check_manifest_bytes f (cas_kb t) (cas_path t) b = Inr ()" for f b
    by (simp add: check_manifest_bytes_def is_manifest_def t_def MANIFEST_KEY_def)
  have p: "\<exists>out s tr. st_put demo_backend (cas_kb t) (cas_path t) ''abc'' (Some ct) (only_if_match (demo_tag ''ab'')) (w1\<lparr>wd_tick := 2\<rparr>)
      = (Inr out, demo_world\<lparr>wd_tick := 3, wd_store := s, wd_trace := tr\<rparr>)" for ct
    by (simp add: st_put_def demo_interfere Let_def t_def w1_def demo_eval mem_put_object_def demo_write_tag emit_def)
  have aw: "\<exists>w4. after_write demo_backend demo_sinks (cas_kb t) (cas_path t) out sz ct (demo_world\<lparr>wd_tick := 3, wd_store := s, wd_trace := tr\<rparr>)
      = (Inr (), w4)" for out sz ct s tr
    by (simp add: after_write_def demo_sinks_def publish_change_def demo_interfere offer_to_index_def Let_def
        demo_world_def index_queue_new_def queue_try_send_def emit_def)
  let ?ct = "case om_content_type m of Some ct \<Rightarrow> ct | None \<Rightarrow> ''application/octet-stream''"
  let ?edit = "\<lambda>src. res_map (\<lambda>b. (b, ())) (apply_patch (PM_Append ''c'') src 100)"
  obtain out s tr where put: "st_put demo_backend (cas_kb t) (cas_path t) ''abc'' (Some ?ct) (only_if_match (demo_tag ''ab'')) (w1\<lparr>wd_tick := 2\<rparr>)
      = (Inr out, demo_world\<lparr>wd_tick := 3, wd_store := s, wd_trace := tr\<rparr>)" using p by blast
  obtain w4 where after: "after_write demo_backend demo_sinks (cas_kb t) (cas_path t) out (of_nat (length ''abc'')) ?ct
      (demo_world\<lparr>wd_tick := 3, wd_store := s, wd_trace := tr\<rparr>) = (Inr (), w4)" using aw by blast
  have sel: "cas_caller_if_match t = None" "cas_caller_content_type t = None" by (simp_all add: t_def)
  have "cas_attempts 2 demo_backend demo_sinks t ?edit demo_world = (Inr (out, ()), w4)"
    unfolding cas_attempts.simps[of 2] h prod.case sum.case g
    using put after by (simp add: a man sel Let_def)
  then have "cas_rewrite demo_backend demo_sinks t ?edit demo_world = (Inr (out, ()), w4)"
    by (simp add: cas_rewrite_def sel)
  then show ?thesis by (simp add: patch_def demo_patch_def no_conditions_def t_def)
qed

theorem rewrite_loses_no_update_witness:
  "\<exists>out w' s new obj acts. patch demo_backend demo_sinks demo_patch demo_world = (Inr out, w')
     \<and> wd_trace w' = wd_trace demo_world @ Act_Put s (KbSlug ''notes'') (ObjectPath ''a.md'') new # acts
     \<and> mem_contents s (''notes'', ''a.md'') = Some obj
     \<and> apply_patch (PM_Append ''c'') (so_bytes obj) 100 = Inr new"
proof -
  obtain out w' where run: "patch demo_backend demo_sinks demo_patch demo_world = (Inr out, w')"
    using demo_patch_runs by blast
  have "be_ops demo_backend = mem_ops demo_tag (\<lambda>_. Inr 0)" "mem_inv demo_tag (wd_store demo_world)"
    using demo_inv by (simp_all add: demo_world_def)
  from rewrite_loses_no_update[OF this(1) demo_env this(2) demo_tag_inj demo_tag_plain, of demo_sinks demo_patch out w'] run
  show ?thesis by (simp add: demo_patch_def) blast
qed

theorem write_outcomes_exact_witness:
  "\<exists>out w' acts. patch demo_backend demo_sinks demo_patch demo_world = (Inr out, w')
     \<and> wd_trace w' = wd_trace demo_world @ acts
     \<and> write_shape (\<lambda>out. about_write (KbSlug ''notes'') (ObjectPath ''a.md'') out demo_sinks) (Upsert (KbSlug ''notes'') (ObjectPath ''a.md''))
         demo_sinks WE_IndexerBackpressureUpsert Effect_Stored
         (\<lambda>a. \<exists>s b. a = Act_Put s (KbSlug ''notes'') (ObjectPath ''a.md'') b) (\<lambda>_. True) (Inr out) acts
     \<and> (\<exists>obj. mem_contents (wd_store w') (''notes'', ''a.md'') = Some obj \<and> act_stored mem_contents (hd acts) = Some (so_bytes obj))"
proof -
  obtain out w' where run: "patch demo_backend demo_sinks demo_patch demo_world = (Inr out, w')"
    using demo_patch_runs by blast
  have sel: "pq_kb demo_patch = KbSlug ''notes''" "pq_path demo_patch = ObjectPath ''a.md''" by (simp_all add: demo_patch_def)
  have be: "be_ops demo_backend = mem_ops demo_tag (\<lambda>_. Inr 0)" "mem_inv demo_tag (wd_store demo_world)"
    using demo_inv by (simp_all add: demo_world_def)
  note here = write_outcomes_exact[OF be(1) demo_env be(2), of demo_backend demo_sinks "KbSlug ''notes''" "ObjectPath ''a.md''" "[]"
      None no_conditions demo_world "Inr out" w' "ObjectPath ''b''"
      "\<lparr>source_if_match = None, destination_if_none_match = None, copy_content_type = None\<rparr>" demo_patch, unfolded sel]
  obtain acts where acts: "wd_trace w' = wd_trace demo_world @ acts"
    "write_shape (\<lambda>out. about_write (KbSlug ''notes'') (ObjectPath ''a.md'') out demo_sinks) (Upsert (KbSlug ''notes'') (ObjectPath ''a.md''))
         demo_sinks WE_IndexerBackpressureUpsert Effect_Stored
         (\<lambda>a. \<exists>s b. a = Act_Put s (KbSlug ''notes'') (ObjectPath ''a.md'') b) (\<lambda>_. True) (Inr out) acts"
    using here run by blast
  moreover have "store_effect mem_contents demo_backend (obj_key (KbSlug ''notes'') (ObjectPath ''a.md'')) demo_world w' acts"
    using here run acts(1) by blast
  moreover have "acts \<noteq> []" using acts(2) by (auto simp: write_shape_def)
  ultimately show ?thesis using run by (auto simp: store_effect_def demo_env)
qed

theorem delete_outcomes_exact_witness:
  "\<exists>acts. wd_trace (snd (commit_delete demo_backend demo_sinks (KbSlug ''notes'') (ObjectPath ''a.md'') no_conditions demo_world))
     = wd_trace demo_world @ acts"
  using delete_outcomes_exact[of demo_backend demo_sinks "KbSlug ''notes''" "ObjectPath ''a.md''" no_conditions demo_world
      "fst (commit_delete demo_backend demo_sinks (KbSlug ''notes'') (ObjectPath ''a.md'') no_conditions demo_world)"
      "snd (commit_delete demo_backend demo_sinks (KbSlug ''notes'') (ObjectPath ''a.md'') no_conditions demo_world)"]
  by auto

end
