(* ===== verification/Heading_Scan.thy ===== *)
theory Heading_Scan
  imports Utf8
begin

text \<open>
  The heading scanner of the Markdown chunker (\<^verbatim>\<open>notedthat-indexer/src/chunker/streaming/scan.rs\<close>,
  \<^verbatim>\<open>scan/syntax.rs\<close>, \<^verbatim>\<open>scan/html.rs\<close>): a byte-at-a-time reader that keeps one bounded line and one bounded
  paragraph, skips fenced code and HTML blocks, and hands candidate lines to the Markdown parser.

  The parser itself, \<^verbatim>\<open>pulldown_cmark\<close>, is a parameter \<open>cmark\<close>: the events of a text with the byte offset
  each starts at.  The scanned file is the list of its bytes; the 8 KiB read buffer is not visible in
  the result and is left out.
\<close>

section \<open>Line syntax (scan/syntax.rs)\<close>

datatype md_event =
    Start_Heading nat
  | Text_Event string
  | Code_Event string
  | End_Heading
  | Other_Event

type_synonym markdown_parser = "string \<Rightarrow> (md_event \<times> nat) list"

record fence =
  fc_marker :: char
  fc_count :: nat
  fc_quote_depth :: nat
  fc_list_indent :: "nat option"

abbreviation newline :: char where "newline \<equiv> CHR 0x0A"
abbreviation carriage_return :: char where "carriage_return \<equiv> CHR 0x0D"
abbreviation tab :: char where "tab \<equiv> CHR 0x09"
abbreviation backtick :: char where "backtick \<equiv> CHR 0x60"

definition heading_depth :: "nat \<Rightarrow> nat" where
  "heading_depth level = (if level = 1 then 1 else if level = 2 then 2 else 3)"

definition depth_from_count :: "nat \<Rightarrow> nat" where
  "depth_from_count n = (if n = 1 then 1 else if n = 2 then 2 else 3)"

definition char_count :: "string \<Rightarrow> nat" where
  "char_count s = length (utf8_chars s)"

definition take_chars :: "nat \<Rightarrow> string \<Rightarrow> string" where
  "take_chars n s = concat (take n (utf8_chars s))"

fun heading_events :: "nat \<Rightarrow> (nat \<times> nat \<times> string) option \<Rightarrow> (md_event \<times> nat) list \<Rightarrow> (nat \<times> nat \<times> string) option" where
  "heading_events cap active [] = None"
| "heading_events cap active ((event, start) # events) =
     (case event of
        Start_Heading level \<Rightarrow> heading_events cap (Some (start, heading_depth level, [])) events
      | Text_Event text \<Rightarrow>
          heading_events cap
            (map_option (\<lambda>(s, d, label). (s, d, label @ take_chars (cap - char_count label) text)) active) events
      | Code_Event text \<Rightarrow>
          heading_events cap
            (map_option (\<lambda>(s, d, label). (s, d, label @ take_chars (cap - char_count label) text)) active) events
      | End_Heading \<Rightarrow> active
      | Other_Event \<Rightarrow> heading_events cap active events)"

definition parse_heading :: "markdown_parser \<Rightarrow> string \<Rightarrow> nat \<Rightarrow> (nat \<times> nat \<times> string) option" where
  "parse_heading cmark markdown label_char_cap = heading_events label_char_cap None (cmark markdown)"

definition markdown_indent :: "string \<Rightarrow> string" where
  "markdown_indent line =
     (let spaces = length (takeWhile (\<lambda>c. c = CHR '' '') line) in
      if spaces \<le> 3 then drop spaces line else line)"

definition is_blank_byte :: "char \<Rightarrow> bool" where
  "is_blank_byte c \<longleftrightarrow> c = CHR '' '' \<or> c = tab"

definition is_list_marker :: "string \<Rightarrow> bool" where
  "is_list_marker v \<longleftrightarrow>
     v = ''-'' \<or> v = ''+'' \<or> v = ''*''
     \<or> (v \<noteq> [] \<and> (last v = CHR ''.'' \<or> last v = CHR '')'') \<and> butlast v \<noteq> [] \<and> list_all is_digit (butlast v))"

text \<open>The end of the list marker a line starts with, if it starts with one.\<close>

definition marker_end :: "string \<Rightarrow> nat option" where
  "marker_end trimmed =
     (let n = length (takeWhile (\<lambda>c. \<not> is_blank_byte c) trimmed) in
      if n < length trimmed \<and> is_list_marker (take n trimmed) then Some n else None)"

definition after_quote :: "string \<Rightarrow> string" where
  "after_quote rest = (case strip_prefix '' '' rest of Some r \<Rightarrow> r | None \<Rightarrow> rest)"

lemma length_markdown_indent: "length (markdown_indent line) \<le> length line"
  by (simp add: markdown_indent_def Let_def)

lemma length_after_quote: "length (after_quote rest) \<le> length rest"
  by (auto simp: after_quote_def str_simps split: option.splits)

lemma after_quote_shorter:
  "strip_prefix ''>'' (markdown_indent line) = Some rest \<Longrightarrow> length (after_quote rest) < length line"
  using length_after_quote[of rest] length_markdown_indent[of line] by (auto simp: str_simps)

lemma marker_end_pos: "marker_end t = Some n \<Longrightarrow> 0 < n \<and> n < length t"
  by (auto simp: marker_end_def Let_def is_list_marker_def split: if_splits)

lemma after_marker_shorter:
  "marker_end (markdown_indent line) = Some n \<Longrightarrow>
     length (dropWhile is_blank_byte (drop n (markdown_indent line))) < length line"
  using marker_end_pos[of "markdown_indent line" n] length_markdown_indent[of line]
    length_dropWhile_le[of is_blank_byte "drop n (markdown_indent line)"] by (simp, linarith)

function container_content :: "string \<Rightarrow> string" where
  "container_content line =
     (let trimmed = markdown_indent line in
      case strip_prefix ''>'' trimmed of
        Some rest \<Rightarrow> container_content (after_quote rest)
      | None \<Rightarrow>
          (case marker_end trimmed of
             Some n \<Rightarrow> container_content (dropWhile is_blank_byte (drop n trimmed))
           | None \<Rightarrow> trimmed))"
  by pat_completeness auto
termination
  by (relation "measure length") (auto simp: after_quote_shorter after_marker_shorter)

function quote_depth :: "string \<Rightarrow> nat" where
  "quote_depth line =
     (case strip_prefix ''>'' (markdown_indent line) of
        Some rest \<Rightarrow> Suc (quote_depth (after_quote rest))
      | None \<Rightarrow> 0)"
  by pat_completeness auto
termination
  by (relation "measure length") (auto simp: after_quote_shorter)

function list_fence_indent :: "string \<Rightarrow> nat option" where
  "list_fence_indent line =
     (let trimmed = markdown_indent line in
      case strip_prefix ''>'' trimmed of
        Some rest \<Rightarrow> list_fence_indent (after_quote rest)
      | None \<Rightarrow>
          map_option (\<lambda>n. n + length (takeWhile is_blank_byte (drop n trimmed))) (marker_end trimmed))"
  by pat_completeness auto
termination
  by (relation "measure length") (auto simp: after_quote_shorter)

function list_continuation_indent :: "string \<Rightarrow> nat option" where
  "list_continuation_indent line =
     (case strip_prefix ''>'' (markdown_indent line) of
        Some rest \<Rightarrow> list_continuation_indent (after_quote rest)
      | None \<Rightarrow> Some (length (takeWhile (\<lambda>c. c = CHR '' '') line)))"
  by pat_completeness auto
termination
  by (relation "measure length") (auto simp: after_quote_shorter)

declare container_content.simps [simp del] quote_depth.simps [simp del]
  list_fence_indent.simps [simp del] list_continuation_indent.simps [simp del]

fun opens_fence :: "string \<Rightarrow> nat \<Rightarrow> nat option \<Rightarrow> fence option" where
  "opens_fence [] depth indent = None"
| "opens_fence (marker # content) depth indent =
     (if marker \<noteq> backtick \<and> marker \<noteq> CHR ''~'' then None
      else
        let n = length (takeWhile (\<lambda>c. c = marker) (marker # content)) in
        if marker = backtick \<and> backtick \<in> set (drop n (marker # content)) then None
        else if 3 \<le> n then
          Some \<lparr>fc_marker = marker, fc_count = n, fc_quote_depth = depth, fc_list_indent = indent\<rparr>
        else None)"

definition fence_continues :: "fence \<Rightarrow> string \<Rightarrow> bool" where
  "fence_continues f line \<longleftrightarrow>
     (case fc_list_indent f of
        None \<Rightarrow> True
      | Some indent \<Rightarrow> (case list_continuation_indent line of Some actual \<Rightarrow> indent \<le> actual | None \<Rightarrow> False))"

definition closes_fence :: "string \<Rightarrow> fence \<Rightarrow> bool" where
  "closes_fence content f \<longleftrightarrow>
     (let trimmed = trim content; n = length (takeWhile (\<lambda>c. c = fc_marker f) trimmed) in
      fc_count f \<le> n \<and> trim (drop n trimmed) = [])"

definition is_setext_underline :: "string \<Rightarrow> bool" where
  "is_setext_underline content \<longleftrightarrow>
     (case trim content of
        [] \<Rightarrow> False
      | marker # rest \<Rightarrow> (marker = CHR ''='' \<or> marker = CHR ''-'') \<and> (\<forall>c\<in>set rest. c = marker))"

definition is_ascii_whitespace :: "char \<Rightarrow> bool" where
  "is_ascii_whitespace c \<longleftrightarrow> c \<in> {CHR '' '', tab, newline, CHR 0x0C, carriage_return}"

definition parse_giant_atx :: "string \<Rightarrow> nat \<Rightarrow> (nat \<times> string) option" where
  "parse_giant_atx content label_char_cap =
     (let n = length (takeWhile (\<lambda>c. c = CHR ''#'') content) in
      if \<not> (1 \<le> n \<and> n \<le> 6) \<or> \<not> (n < length content \<and> is_ascii_whitespace (content ! n)) then None
      else Some (depth_from_count n, take_chars label_char_cap (trim_start (drop n content))))"

section \<open>HTML blocks (scan/html.rs)\<close>

datatype html_marker = Comment | ProcessingInstruction | Cdata | Declaration | Script | Pre | Style | Textarea

datatype html_end = End_Marker html_marker | End_Blank_Line

fun marker_index :: "html_marker \<Rightarrow> nat" where
  "marker_index Comment = 0"
| "marker_index ProcessingInstruction = 1"
| "marker_index Cdata = 2"
| "marker_index Declaration = 3"
| "marker_index Script = 4"
| "marker_index Pre = 5"
| "marker_index Style = 6"
| "marker_index Textarea = 7"

definition HTML_MARKERS :: "string list" where
  "HTML_MARKERS = [''-->'', ''?>'', '']]>'', ''>'', ''</script>'', ''</pre>'', ''</style>'', ''</textarea>'']"

definition to_ascii_lowercase :: "string \<Rightarrow> string" where
  "to_ascii_lowercase s = map ascii_lower s"

definition starts_html_tag :: "string \<Rightarrow> string \<Rightarrow> bool" where
  "starts_html_tag lower tag =
     (case strip_prefix tag lower of
        None \<Rightarrow> False
      | Some [] \<Rightarrow> True
      | Some (c # _) \<Rightarrow> c \<in> {CHR '' '', CHR 0x09, CHR 0x0D, CHR 0x0A, CHR ''/'', CHR ''>''})"

definition is_ascii_alphanumeric :: "char \<Rightarrow> bool" where
  "is_ascii_alphanumeric c \<longleftrightarrow> in_range 48 57 c \<or> in_range 65 90 c \<or> in_range 97 122 c"

definition block_tags :: "string list" where
  "block_tags =
     [''address'', ''article'', ''aside'', ''base'', ''basefont'', ''blockquote'', ''body'', ''caption'',
      ''center'', ''col'', ''colgroup'', ''dd'', ''details'', ''dialog'', ''dir'', ''div'', ''dl'', ''dt'',
      ''fieldset'', ''figcaption'', ''figure'', ''footer'', ''form'', ''frame'', ''frameset'', ''h1'', ''h2'',
      ''h3'', ''h4'', ''h5'', ''h6'', ''head'', ''header'', ''hr'', ''html'', ''iframe'', ''legend'', ''li'',
      ''link'', ''main'', ''menu'', ''menuitem'', ''nav'', ''noframes'', ''ol'', ''optgroup'', ''option'', ''p'',
      ''param'', ''search'', ''section'', ''summary'', ''table'', ''tbody'', ''td'', ''tfoot'', ''th'',
      ''thead'', ''title'', ''tr'', ''track'', ''ul'']"

definition is_block_html_tag :: "string \<Rightarrow> bool" where
  "is_block_html_tag lower =
     ((case strip_prefix ''<'' lower of
         None \<Rightarrow> []
       | Some v \<Rightarrow>
           takeWhile is_ascii_alphanumeric (case strip_prefix ''/'' v of Some w \<Rightarrow> w | None \<Rightarrow> v))
      \<in> set block_tags)"

definition opens_html :: "string \<Rightarrow> html_end option" where
  "opens_html content =
     (let lower = to_ascii_lowercase content in
      if prefix ''<!--'' lower then Some (End_Marker Comment)
      else if prefix ''<?'' lower then Some (End_Marker ProcessingInstruction)
      else if prefix ''<![cdata['' lower then Some (End_Marker Cdata)
      else if prefix ''<!'' lower then Some (End_Marker Declaration)
      else if starts_html_tag lower ''<script'' then Some (End_Marker Script)
      else if starts_html_tag lower ''<pre'' then Some (End_Marker Pre)
      else if starts_html_tag lower ''<style'' then Some (End_Marker Style)
      else if starts_html_tag lower ''<textarea'' then Some (End_Marker Textarea)
      else if is_block_html_tag lower then Some End_Blank_Line
      else None)"

fun html_continues :: "html_end \<Rightarrow> string \<Rightarrow> bool list \<Rightarrow> bool" where
  "html_continues (End_Marker m) content seen = (\<not> seen ! marker_index m)"
| "html_continues End_Blank_Line content seen = (trim content \<noteq> [])"

section \<open>The scanner (scan.rs)\<close>

definition LINE_CAPTURE_BYTES :: nat where
  "LINE_CAPTURE_BYTES = 16 * 1024"

record heading =
  hd_start :: nat
  hd_depth :: nat
  hd_label :: string

record captured_paragraph =
  cp_start :: nat
  cp_bytes :: string
  cp_overflowed :: bool

record heading_scanner =
  hs_position :: nat
  hs_line_start :: nat
  hs_line :: string
  hs_line_tail :: string
  hs_marker_seen :: "bool list"
  hs_line_overflowed :: bool
  hs_paragraph :: "captured_paragraph option"
  hs_fence :: "fence option"
  hs_html :: "html_end option"
  hs_html_quote_depth :: nat
  hs_label_char_cap :: nat
  hs_eof :: bool

definition no_markers :: "bool list" where
  "no_markers = replicate (length HTML_MARKERS) False"

definition heading_scanner_new :: "nat \<Rightarrow> heading_scanner" where
  "heading_scanner_new cap =
     \<lparr>hs_position = 0, hs_line_start = 0, hs_line = [], hs_line_tail = [], hs_marker_seen = no_markers,
      hs_line_overflowed = False, hs_paragraph = None, hs_fence = None, hs_html = None,
      hs_html_quote_depth = 0, hs_label_char_cap = cap, hs_eof = False\<rparr>"

definition captured_utf8 :: "string \<Rightarrow> string" where
  "captured_utf8 bytes =
     (case from_utf8 bytes of
        Utf8_Ok \<Rightarrow> bytes
      | Utf8_Error v None \<Rightarrow> take v bytes
      | Utf8_Error v (Some e) \<Rightarrow> [])"

definition record_html_markers :: "string \<Rightarrow> bool list \<Rightarrow> bool list" where
  "record_html_markers line_tail seen =
     map2 (\<lambda>marker s. s \<or> (length marker \<le> length line_tail
        \<and> eq_ignore_ascii_case (drop (length line_tail - length marker) line_tail) marker)) HTML_MARKERS seen"

definition feed_byte :: "heading_scanner \<Rightarrow> char \<Rightarrow> heading_scanner" where
  "feed_byte s b =
     (let line_tail = (if length (hs_line_tail s) = 64 then tl (hs_line_tail s) else hs_line_tail s) @ [b] in
      s\<lparr>hs_position := hs_position s + 1,
        hs_line := (if length (hs_line s) < LINE_CAPTURE_BYTES then hs_line s @ [b] else hs_line s),
        hs_line_overflowed := (if length (hs_line s) < LINE_CAPTURE_BYTES then hs_line_overflowed s else True),
        hs_line_tail := line_tail,
        hs_marker_seen := record_html_markers line_tail (hs_marker_seen s)\<rparr>)"

text \<open>The tail of \<^verbatim>\<open>finish_line\<close>: the line opens or extends the paragraph a later underline may turn into a heading.\<close>

definition extend_paragraph :: "string \<Rightarrow> captured_paragraph \<Rightarrow> heading_scanner \<Rightarrow> heading_scanner" where
  "extend_paragraph content current s =
     (if trim content = [] then s\<lparr>hs_paragraph := None\<rparr>
      else case hs_paragraph s of
        Some p \<Rightarrow>
          (let remaining = LINE_CAPTURE_BYTES - length (cp_bytes p);
               copied = min remaining (length (cp_bytes current)) in
           s\<lparr>hs_paragraph := Some (p\<lparr>cp_bytes := cp_bytes p @ take copied (cp_bytes current),
              cp_overflowed := cp_overflowed p \<or> cp_overflowed current \<or> copied < length (cp_bytes current)\<rparr>)\<rparr>)
      | None \<Rightarrow> s\<lparr>hs_paragraph := Some current\<rparr>)"

text \<open>A line that is not inside a fence or an HTML block and opens neither.\<close>

definition atx_heading :: "markdown_parser \<Rightarrow> nat \<Rightarrow> string \<Rightarrow> string \<Rightarrow> captured_paragraph \<Rightarrow> heading option" where
  "atx_heading cmark cap line content current =
     (if \<not> cp_overflowed current then
        map_option (\<lambda>(offset, depth, label). \<lparr>hd_start = cp_start current + offset, hd_depth = depth, hd_label = label\<rparr>)
          (parse_heading cmark line cap)
      else
        map_option (\<lambda>(depth, label).
            \<lparr>hd_start = cp_start current + (length line - length content), hd_depth = depth, hd_label = label\<rparr>)
          (parse_giant_atx content cap))"

definition setext_span :: "captured_paragraph \<Rightarrow> captured_paragraph \<Rightarrow> string" where
  "setext_span p current =
     (let span = take (length (captured_utf8 (cp_bytes p))) (cp_bytes p);
          span' = (if suffix [newline] span then span else span @ [newline]) in
      captured_utf8 (span' @ cp_bytes current))"

definition setext_heading :: "markdown_parser \<Rightarrow> nat \<Rightarrow> captured_paragraph \<Rightarrow> captured_paragraph \<Rightarrow> heading option" where
  "setext_heading cmark cap p current =
     map_option (\<lambda>(offset, depth, label). \<lparr>hd_start = cp_start p + offset, hd_depth = depth, hd_label = label\<rparr>)
       (parse_heading cmark (setext_span p current) cap)"

definition plain_line :: "markdown_parser \<Rightarrow> string \<Rightarrow> string \<Rightarrow> captured_paragraph \<Rightarrow> heading_scanner \<Rightarrow> heading option \<times> heading_scanner" where
  "plain_line cmark line content current s =
     (case atx_heading cmark (hs_label_char_cap s) line content current of
        Some h \<Rightarrow> (Some h, s\<lparr>hs_paragraph := None\<rparr>)
      | None \<Rightarrow>
          (if is_setext_underline content then
             (case hs_paragraph s of
                Some p \<Rightarrow>
                  (case setext_heading cmark (hs_label_char_cap s) p current of
                     Some h \<Rightarrow> (Some h, s\<lparr>hs_paragraph := None\<rparr>)
                   | None \<Rightarrow> (None, extend_paragraph content current (s\<lparr>hs_paragraph := None\<rparr>)))
              | None \<Rightarrow> (None, extend_paragraph content current s))
           else (None, extend_paragraph content current s)))"

definition open_blocks :: "markdown_parser \<Rightarrow> string \<Rightarrow> string \<Rightarrow> nat \<Rightarrow> bool list \<Rightarrow> captured_paragraph \<Rightarrow> heading_scanner \<Rightarrow> heading option \<times> heading_scanner" where
  "open_blocks cmark line content depth seen current s =
     (case opens_fence content depth (list_fence_indent line) of
        Some f \<Rightarrow> (None, s\<lparr>hs_fence := Some f, hs_paragraph := None\<rparr>)
      | None \<Rightarrow>
          (case opens_html content of
             Some h \<Rightarrow>
               (None, (if html_continues h content seen then s\<lparr>hs_html := Some h, hs_html_quote_depth := depth\<rparr> else s)
                        \<lparr>hs_paragraph := None\<rparr>)
           | None \<Rightarrow> plain_line cmark line content current s))"

definition in_fence :: "markdown_parser \<Rightarrow> string \<Rightarrow> string \<Rightarrow> nat \<Rightarrow> bool list \<Rightarrow> captured_paragraph \<Rightarrow> heading_scanner \<Rightarrow> heading option \<times> heading_scanner" where
  "in_fence cmark line content depth seen current s =
     (let taken = s\<lparr>hs_fence := None\<rparr> in
      case hs_fence s of
        Some f \<Rightarrow>
          (if fc_quote_depth f \<le> depth then
             (None, (if \<not> closes_fence content f \<and> fence_continues f line then s else taken)\<lparr>hs_paragraph := None\<rparr>)
           else open_blocks cmark line content depth seen current taken)
      | None \<Rightarrow> open_blocks cmark line content depth seen current taken)"

definition finish_line :: "markdown_parser \<Rightarrow> heading_scanner \<Rightarrow> heading option \<times> heading_scanner" where
  "finish_line cmark s0 =
     (let current = \<lparr>cp_start = hs_line_start s0, cp_bytes = hs_line s0, cp_overflowed = hs_line_overflowed s0\<rparr>;
          line = captured_utf8 (cp_bytes current);
          content = container_content line;
          depth = quote_depth line;
          seen = hs_marker_seen s0;
          s = s0\<lparr>hs_line := [], hs_line_overflowed := False, hs_line_tail := [], hs_marker_seen := no_markers\<rparr>;
          taken = s\<lparr>hs_html := None\<rparr> in
      case hs_html s of
        Some h \<Rightarrow>
          (if hs_html_quote_depth s \<le> depth then
             (None, (if html_continues h content seen then s else taken)\<lparr>hs_paragraph := None\<rparr>)
           else in_fence cmark line content depth seen current taken)
      | None \<Rightarrow> in_fence cmark line content depth seen current taken)"

fun scan_bytes :: "markdown_parser \<Rightarrow> heading_scanner \<Rightarrow> string \<Rightarrow> heading option \<times> heading_scanner" where
  "scan_bytes cmark s [] =
     (let s' = s\<lparr>hs_eof := True\<rparr> in
      if hs_line_start s' < hs_position s' then finish_line cmark s' else (None, s'))"
| "scan_bytes cmark s (b # bs) =
     (let s1 = feed_byte s b in
      if b = newline then
        (let (heading, s2) = finish_line cmark s1;
             s3 = s2\<lparr>hs_line_start := hs_position s2\<rparr> in
         if heading \<noteq> None then (heading, s3) else scan_bytes cmark s3 bs)
      else scan_bytes cmark s1 bs)"

definition next_heading :: "markdown_parser \<Rightarrow> string \<Rightarrow> heading_scanner \<Rightarrow> heading option \<times> heading_scanner" where
  "next_heading cmark doc s =
     (if hs_eof s then (None, s) else scan_bytes cmark s (drop (hs_position s) doc))"

section \<open>What the scanner guarantees\<close>

text \<open>
  What the program relies on of the Markdown parser: event offsets are boundaries of the text, and a
  heading never starts inside a last line that is only a setext underline (its text comes before).
\<close>

definition cmark_offsets :: "markdown_parser \<Rightarrow> bool" where
  "cmark_offsets cmark \<longleftrightarrow>
     (\<forall>md event offset. valid_utf8 md \<longrightarrow> (event, offset) \<in> set (cmark md) \<longrightarrow>
        offset \<le> length md \<and> valid_utf8 (take offset md))"

definition cmark_underlines :: "markdown_parser \<Rightarrow> bool" where
  "cmark_underlines cmark \<longleftrightarrow>
     (\<forall>text line level offset.
        newline \<notin> set (butlast line) \<longrightarrow> is_setext_underline (container_content line) \<longrightarrow>
        (Start_Heading level, offset) \<in> set (cmark (text @ newline # line)) \<longrightarrow> offset \<le> length text)"

definition slice :: "string \<Rightarrow> nat \<Rightarrow> nat \<Rightarrow> string" where
  "slice doc i j = take (j - i) (drop i doc)"

lemma heading_events_start:
  "heading_events cap active events = Some (offset, depth, label) \<Longrightarrow>
     (\<exists>level. (Start_Heading level, offset) \<in> set events) \<or> (\<exists>d l. active = Some (offset, d, l))"
proof (induction events arbitrary: active)
  case (Cons e events)
  obtain ev st where e: "e = (ev, st)" by (cases e)
  show ?case
  proof (cases ev)
    case (Start_Heading level)
    then show ?thesis using Cons.prems Cons.IH[of "Some (st, heading_depth level, [])"] by (auto simp: e)
  next
    case (Text_Event t)
    then show ?thesis using Cons.prems Cons.IH by (cases active) (fastforce simp: e)+
  next
    case (Code_Event t)
    then show ?thesis using Cons.prems Cons.IH by (cases active) (fastforce simp: e)+
  next
    case End_Heading
    then show ?thesis using Cons.prems by (auto simp: e)
  next
    case Other_Event
    then show ?thesis using Cons.prems Cons.IH[of active] by (auto simp: e)
  qed
qed simp

lemma parse_heading_start:
  "parse_heading cmark md cap = Some (offset, depth, label) \<Longrightarrow> \<exists>level. (Start_Heading level, offset) \<in> set (cmark md)"
  using heading_events_start[of cap None "cmark md"] by (auto simp: parse_heading_def)

lemma captured_utf8_prefix: "captured_utf8 b = take (length (captured_utf8 b)) b"
  by (auto simp: captured_utf8_def split: utf8_check.splits option.splits dest: from_utf8_cut(1))

lemma captured_utf8_valid: "valid_utf8 (captured_utf8 b)"
  by (auto simp: captured_utf8_def valid_utf8_def[of b] split: utf8_check.splits option.splits dest: from_utf8_cut(3))

lemma captured_utf8_append: "valid_utf8 a \<Longrightarrow> (\<And>v e. from_utf8 b \<noteq> Utf8_Error v (Some e)) \<Longrightarrow> captured_utf8 (a @ b) = a @ captured_utf8 b"
  by (auto simp: captured_utf8_def from_utf8_append split: utf8_check.splits option.splits)

definition ascii :: "string \<Rightarrow> bool" where
  "ascii s \<longleftrightarrow> (\<forall>c\<in>set s. in_range 0 0x7F c)"

lemma ascii_append [simp]: "ascii (a @ b) \<longleftrightarrow> ascii a \<and> ascii b"
  by (auto simp: ascii_def)

lemma markdown_indent_strips: "\<exists>a. line = a @ markdown_indent line \<and> ascii a"
proof -
  have "ascii (takeWhile (\<lambda>c. c = CHR '' '') line)" by (auto simp: ascii_def in_range_def dest: set_takeWhileD)
  moreover have "drop (length (takeWhile (\<lambda>c. c = CHR '' '') line)) line = dropWhile (\<lambda>c. c = CHR '' '') line"
    by (simp add: dropWhile_eq_drop)
  ultimately show ?thesis
    by (cases "length (takeWhile (\<lambda>c. c = CHR '' '') line) \<le> 3")
      (auto simp: markdown_indent_def Let_def intro!: exI[of _ "takeWhile (\<lambda>c. c = CHR '' '') line"],
       auto simp: ascii_def intro!: exI[of _ "[]"])
qed

lemma list_marker_ascii: "is_list_marker v \<Longrightarrow> ascii v"
proof (cases "v = ''-'' \<or> v = ''+'' \<or> v = ''*''")
  case True
  then show ?thesis by (auto simp: ascii_def in_range_def)
next
  case False
  assume "is_list_marker v"
  then have "v \<noteq> []" and v: "last v = CHR ''.'' \<or> last v = CHR '')''" "\<forall>c\<in>set (butlast v). is_digit c"
    using False by (auto simp: is_list_marker_def list_all_iff)
  have "ascii (butlast v @ [last v])"
    using v unfolding ascii_append by (auto simp: ascii_def in_range_def is_digit_def)
  then show ?thesis using \<open>v \<noteq> []\<close> by simp
qed

lemma container_content_strips: "\<exists>a. line = a @ container_content line \<and> ascii a"
proof (induction line rule: container_content.induct)
  case (1 line)
  let ?t = "markdown_indent line"
  obtain a where a: "line = a @ ?t" "ascii a" using markdown_indent_strips by blast
  have go: "\<exists>b. line = b @ container_content line \<and> ascii b"
    if "container_content line = container_content r" "?t = m @ r" "ascii m" and ex: "\<exists>c. r = c @ container_content r \<and> ascii c" for m r
  proof -
    obtain c where "r = c @ container_content r" "ascii c" using ex by blast
    then show ?thesis using a that(1,2,3) by (intro exI[of _ "a @ m @ c"]) (metis append_assoc ascii_append)
  qed
  show ?case
  proof (cases "strip_prefix ''>'' ?t")
    case (Some rest)
    then have t: "?t = CHR ''>'' # rest" by (simp add: str_simps)
    have cc: "container_content line = container_content (after_quote rest)"
      using Some by (subst container_content.simps) (simp add: Let_def)
    have "\<exists>m. ?t = m @ after_quote rest \<and> ascii m"
      using t by (auto simp: after_quote_def str_simps ascii_def in_range_def split: option.splits
        intro: exI[of _ "''> ''"] exI[of _ "''>''"])
    then obtain m where "?t = m @ after_quote rest" "ascii m" by blast
    then show ?thesis using go cc 1(2)[OF refl Some] by blast
  next
    case None
    show ?thesis
    proof (cases "marker_end ?t")
      case (Some n)
      let ?r = "dropWhile is_blank_byte (drop n ?t)"
      have cc: "container_content line = container_content ?r"
        using None Some by (subst container_content.simps) (simp add: Let_def)
      have "ascii (take n ?t)" using Some by (auto simp: marker_end_def Let_def intro: list_marker_ascii split: if_splits)
      moreover have "ascii (takeWhile is_blank_byte (drop n ?t))"
        by (auto simp: ascii_def in_range_def dest!: set_takeWhileD) (auto simp: is_blank_byte_def)
      moreover have "?t = (take n ?t @ takeWhile is_blank_byte (drop n ?t)) @ ?r" by simp
      ultimately show ?thesis using go cc 1(1)[OF refl None Some] by (metis ascii_append)
    next
      case None': None
      then have "container_content line = ?t" using None by (subst container_content.simps) (simp add: Let_def)
      then show ?thesis using a by metis
    qed
  qed
qed

text \<open>
  The state between two lines and inside a line.  \<open>lo\<close> is where the last heading started: nothing found
  later starts before it.  A captured paragraph is the first \<open>LINE_CAPTURE_BYTES\<close> bytes from its start.
\<close>

definition paragraph_ok :: "string \<Rightarrow> nat \<Rightarrow> nat \<Rightarrow> captured_paragraph option \<Rightarrow> bool" where
  "paragraph_ok doc lo hi p =
     (case p of None \<Rightarrow> True
      | Some q \<Rightarrow> lo \<le> cp_start q \<and> cp_start q \<le> hi \<and> valid_utf8 (take (cp_start q) doc)
          \<and> cp_bytes q = take LINE_CAPTURE_BYTES (slice doc (cp_start q) hi))"

definition scan_inv :: "string \<Rightarrow> nat \<Rightarrow> heading_scanner \<Rightarrow> bool" where
  "scan_inv doc lo s \<longleftrightarrow>
     hs_position s \<le> length doc \<and> hs_line_start s \<le> hs_position s \<and> lo \<le> hs_line_start s
     \<and> valid_utf8 (take (hs_line_start s) doc)
     \<and> hs_line s = take LINE_CAPTURE_BYTES (slice doc (hs_line_start s) (hs_position s))
     \<and> (hs_line_overflowed s \<longleftrightarrow> LINE_CAPTURE_BYTES < hs_position s - hs_line_start s)
     \<and> paragraph_ok doc lo (hs_line_start s) (hs_paragraph s)"

definition heading_ok :: "string \<Rightarrow> nat \<Rightarrow> nat \<Rightarrow> heading option \<Rightarrow> bool" where
  "heading_ok doc lo hi h =
     (case h of None \<Rightarrow> True
      | Some g \<Rightarrow> lo \<le> hd_start g \<and> hd_start g \<le> hi \<and> valid_utf8 (take (hd_start g) doc))"

text \<open>What handling one line leaves behind.\<close>

definition line_done :: "string \<Rightarrow> nat \<Rightarrow> heading_scanner \<Rightarrow> heading option \<times> heading_scanner \<Rightarrow> bool" where
  "line_done doc lo s r =
     (case r of (h, s') \<Rightarrow>
        hs_position s' = hs_position s \<and> hs_line_start s' = hs_line_start s \<and> hs_eof s' = hs_eof s
        \<and> hs_line s' = [] \<and> \<not> hs_line_overflowed s'
        \<and> heading_ok doc lo (hs_position s) h
        \<and> (if h = None then paragraph_ok doc lo (hs_position s) (hs_paragraph s') else hs_paragraph s' = None))"

lemma slice_full [simp]: "slice doc i i = []"
  by (simp add: slice_def)

lemma length_slice: "j \<le> length doc \<Longrightarrow> length (slice doc i j) = j - i"
  by (simp add: slice_def)

lemma slice_append: "i \<le> j \<Longrightarrow> j \<le> k \<Longrightarrow> slice doc i j @ slice doc j k = slice doc i k"
proof -
  assume h: "i \<le> j" "j \<le> k"
  have "take (j - i) (drop i doc) @ take (k - j) (drop (j - i) (drop i doc)) = take ((j - i) + (k - j)) (drop i doc)"
    by (rule take_add[symmetric])
  then show ?thesis using h by (simp add: slice_def)
qed

lemma boundary_in_slice:
  assumes "valid_utf8 (take i doc)" "valid_utf8 (take n (slice doc i j))" "n \<le> j - i"
  shows "valid_utf8 (take (i + n) doc)"
  using valid_take_add[OF assms(1), of n] assms(2,3) by (simp add: slice_def min_def)

lemma prefix_slice_not_broken:
  assumes "valid_utf8 doc" "valid_utf8 (take i doc)"
  shows "from_utf8 (take n (slice doc i j)) \<noteq> Utf8_Error v (Some e)"
proof -
  have "valid_utf8 (drop i doc)" using valid_drop[OF assms] .
  then have "valid_utf8 (take (min n (j - i)) (drop i doc) @ drop (min n (j - i)) (drop i doc))" unfolding append_take_drop_id .
  from prefix_of_valid[OF this] show ?thesis by (auto simp: slice_def)
qed

text \<open>Headings found on a line of their own.\<close>

lemma atx_heading_ok:
  assumes cm: "cmark_offsets cmark" and inv: "scan_inv doc lo s"
    and line: "line = captured_utf8 (hs_line s)"
    and h: "atx_heading cmark cap line (container_content line)
       \<lparr>cp_start = hs_line_start s, cp_bytes = hs_line s, cp_overflowed = hs_line_overflowed s\<rparr> = Some g"
  shows "heading_ok doc lo (hs_position s) (Some g)"
proof -
  have l: "line = take (length line) (hs_line s)" "valid_utf8 line"
    using captured_utf8_prefix[of "hs_line s"] captured_utf8_valid[of "hs_line s"] by (simp_all add: line)
  have len: "length line \<le> hs_position s - hs_line_start s" 
    using l(1) inv length_slice[of "hs_position s" doc "hs_line_start s"]
    by (metis length_take min.bounded_iff nat_le_linear scan_inv_def take_all_iff)
  have "\<exists>n. hd_start g = hs_line_start s + n \<and> n \<le> length line \<and> valid_utf8 (take n line)"
  proof (cases "hs_line_overflowed s")
    case False
    then obtain o' d t where p: "parse_heading cmark line cap = Some (o', d, t)" "hd_start g = hs_line_start s + o'"
      using h by (auto simp: atx_heading_def)
    then show ?thesis using parse_heading_start[OF p(1)] cm l(2) unfolding cmark_offsets_def by blast
  next
    case True
    then have g: "hd_start g = hs_line_start s + (length line - length (container_content line))"
      using h by (auto simp: atx_heading_def)
    obtain a where a: "line = a @ container_content line" "ascii a" using container_content_strips by blast
    then have "take (length line - length (container_content line)) line = a"
      by (metis append_eq_conv_conj diff_add_inverse2 length_append)
    then show ?thesis using a(2) g valid_ascii[of a] by (auto simp: ascii_def)
  qed
  then obtain n where n: "hd_start g = hs_line_start s + n" "n \<le> length line" "valid_utf8 (take n line)" by blast
  have "take n line = take n (slice doc (hs_line_start s) (hs_position s))"
  proof -
    have "take n line = take n (hs_line s)" using l(1) n(2) by (metis min.absorb1 take_take)
    also have "\<dots> = take (min n LINE_CAPTURE_BYTES) (slice doc (hs_line_start s) (hs_position s))"
      using inv by (simp add: scan_inv_def)
    also have "min n LINE_CAPTURE_BYTES = n"
      using n(2) l(1) inv by (metis length_take min.absorb1 min.bounded_iff scan_inv_def)
    finally show ?thesis .
  qed
  then have "valid_utf8 (take (hd_start g) doc)"
    using boundary_in_slice[of "hs_line_start s" doc n "hs_position s"] n len inv by (simp add: scan_inv_def)
  then show ?thesis using n(1,2) len inv by (auto simp: heading_ok_def scan_inv_def)
qed

text \<open>Headings found by an underline below the paragraph.\<close>

lemma set_butlast_take: "set (butlast (take n xs)) \<subseteq> set (butlast xs)"
proof (cases "n \<le> length xs")
  case True
  then show ?thesis by (simp add: butlast_take butlast_conv_take set_take_subset_set_take)
qed simp

lemma setext_heading_ok:
  assumes doc: "valid_utf8 doc" and co: "cmark_offsets cmark" and cu: "cmark_underlines cmark"
    and inv: "scan_inv doc lo s" and p: "hs_paragraph s = Some p"
    and nl: "newline \<notin> set (butlast (hs_line s))"
    and ul: "is_setext_underline (container_content (captured_utf8 (hs_line s)))"
    and h: "setext_heading cmark cap p
       \<lparr>cp_start = hs_line_start s, cp_bytes = hs_line s, cp_overflowed = hs_line_overflowed s\<rparr> = Some g"
  shows "heading_ok doc lo (hs_position s) (Some g)"
proof -
  let ?line = "captured_utf8 (hs_line s)" and ?span = "captured_utf8 (cp_bytes p)"
  have pi: "lo \<le> cp_start p" "cp_start p \<le> hs_line_start s" "valid_utf8 (take (cp_start p) doc)"
    "cp_bytes p = take LINE_CAPTURE_BYTES (slice doc (cp_start p) (hs_line_start s))"
    using inv p by (auto simp: scan_inv_def paragraph_ok_def)
  have li: "hs_line s = take LINE_CAPTURE_BYTES (slice doc (hs_line_start s) (hs_position s))"
    "valid_utf8 (take (hs_line_start s) doc)" "hs_position s \<le> length doc" "hs_line_start s \<le> hs_position s"
    using inv by (auto simp: scan_inv_def)
  define base where "base = (if suffix [newline] ?span then butlast ?span else ?span)"
  have sp: "(if suffix [newline] ?span then ?span else ?span @ [newline]) = base @ [newline]"
    using append_butlast_last_id[of ?span] by (auto simp: base_def suffix_def)
  have spv: "valid_utf8 ?span" and spt: "take (length ?span) (cp_bytes p) = ?span"
    by (rule captured_utf8_valid, rule captured_utf8_prefix[symmetric])
  have nlv: "valid_utf8 [newline]" by (rule valid_ascii) (simp add: in_range_def)
  have bv: "valid_utf8 (base @ [newline])"
    using spv nlv unfolding sp[symmetric] by (simp add: valid_append)
  have nb: "from_utf8 (hs_line s) \<noteq> Utf8_Error v (Some e)" for v e
    unfolding li(1) by (rule prefix_slice_not_broken[OF doc li(2)])
  have span: "setext_span p \<lparr>cp_start = hs_line_start s, cp_bytes = hs_line s, cp_overflowed = hs_line_overflowed s\<rparr> = base @ newline # ?line"
    using captured_utf8_append[OF bv nb] by (simp add: setext_span_def Let_def spt sp)
  obtain o' d t where ph: "parse_heading cmark (base @ newline # ?line) cap = Some (o', d, t)" "hd_start g = cp_start p + o'"
    using h by (auto simp: setext_heading_def span)
  have "newline \<notin> set (butlast ?line)"
    using nl captured_utf8_prefix[of "hs_line s"]
      set_butlast_take[of "length ?line" "hs_line s"] by auto
  then have "o' \<le> length base"
    using parse_heading_start[OF ph(1)] cu ul unfolding cmark_underlines_def by blast
  have bp: "base = take (length base) ?span" by (simp add: base_def butlast_conv_take)
  have whole: "valid_utf8 (base @ newline # ?line)"
    using valid_append[OF bv, of ?line] captured_utf8_valid[of "hs_line s"] by simp
  have "valid_utf8 (take o' (base @ newline # ?line))"
    using parse_heading_start[OF ph(1)] co whole unfolding cmark_offsets_def by blast
  then have "valid_utf8 (take o' base)" using \<open>o' \<le> length base\<close> by simp
  have lb: "length base \<le> length ?span \<and> length ?span \<le> length (cp_bytes p)"
    by (simp add: base_def) (metis spt length_take min.cobounded1)
  have "take o' base = take o' (cp_bytes p)"
    using bp spt \<open>o' \<le> length base\<close> lb by (metis min.absorb1 order_trans take_take)
  moreover have "take o' (cp_bytes p) = take o' (slice doc (cp_start p) (hs_line_start s))"
    using pi(4) \<open>o' \<le> length base\<close> lb by (metis length_take min.absorb1 min.bounded_iff order_trans take_take)
  moreover have "length (cp_bytes p) \<le> hs_line_start s - cp_start p"
    using pi(4) li(3,4) length_slice[of "hs_line_start s" doc "cp_start p"] by (metis length_take min.cobounded1 order_trans)
  ultimately have "o' \<le> hs_line_start s - cp_start p" "valid_utf8 (take o' (slice doc (cp_start p) (hs_line_start s)))"
    using \<open>valid_utf8 (take o' base)\<close> \<open>o' \<le> length base\<close> lb by simp_all
  then show ?thesis
    using boundary_in_slice[OF pi(3)] ph(2) pi(1,2) li(4) by (auto simp: heading_ok_def)
qed

section \<open>One line\<close>

text \<open>The line just read is complete: it ends at a boundary, and only its last byte may be a newline.\<close>

definition at_line_end :: "string \<Rightarrow> heading_scanner \<Rightarrow> bool" where
  "at_line_end doc s \<longleftrightarrow> valid_utf8 (take (hs_position s) doc) \<and> newline \<notin> set (butlast (hs_line s))"

abbreviation current_line :: "heading_scanner \<Rightarrow> captured_paragraph" where
  "current_line s \<equiv> \<lparr>cp_start = hs_line_start s, cp_bytes = hs_line s, cp_overflowed = hs_line_overflowed s\<rparr>"

text \<open>States that agree on everything but the block context and carry a good paragraph.\<close>

definition mid_line :: "string \<Rightarrow> nat \<Rightarrow> heading_scanner \<Rightarrow> heading_scanner \<Rightarrow> bool" where
  "mid_line doc lo s t \<longleftrightarrow>
     hs_position t = hs_position s \<and> hs_line_start t = hs_line_start s \<and> hs_eof t = hs_eof s
     \<and> hs_line t = [] \<and> \<not> hs_line_overflowed t
     \<and> (hs_paragraph t = hs_paragraph s \<or> hs_paragraph t = None)"

lemma line_done_None: "mid_line doc lo s t \<Longrightarrow> hs_paragraph t = None \<Longrightarrow> line_done doc lo s (None, t)"
  by (simp add: line_done_def mid_line_def heading_ok_def paragraph_ok_def)

lemma take_capture:
  "take c xs @ take (min (c - length (take c xs)) (length (take c ys))) (take c ys) = take c (xs @ ys)"
proof -
  have "take (min (c - length (take c xs)) (length (take c ys))) (take c ys) = take (c - length xs) ys"
    by (cases "length xs \<le> c"; cases "length ys \<le> c") (auto simp: min_def)
  then show ?thesis by simp
qed

lemma extend_paragraph_ok:
  assumes inv: "scan_inv doc lo s" and t: "mid_line doc lo s t"
  shows "line_done doc lo s (None, extend_paragraph content (current_line s) t)"
proof -
  have li: "hs_line s = take LINE_CAPTURE_BYTES (slice doc (hs_line_start s) (hs_position s))"
    "hs_line_start s \<le> hs_position s" "lo \<le> hs_line_start s" "valid_utf8 (take (hs_line_start s) doc)"
    using inv by (auto simp: scan_inv_def)
  consider (blank) "trim content = []" | (fresh) "trim content \<noteq> []" "hs_paragraph t = None"
    | (more) p where "trim content \<noteq> []" "hs_paragraph t = Some p" by (cases "hs_paragraph t") auto
  then show ?thesis
  proof cases
    case blank
    then show ?thesis using t by (simp add: extend_paragraph_def line_done_def mid_line_def heading_ok_def paragraph_ok_def)
  next
    case fresh
    then have "extend_paragraph content (current_line s) t = t\<lparr>hs_paragraph := Some (current_line s)\<rparr>"
      by (simp add: extend_paragraph_def)
    then show ?thesis using t li by (simp add: line_done_def mid_line_def heading_ok_def paragraph_ok_def)
  next
    case more
    then have "hs_paragraph s = Some p" using t by (auto simp: mid_line_def)
    then have pi: "lo \<le> cp_start p" "cp_start p \<le> hs_line_start s" "valid_utf8 (take (cp_start p) doc)"
      "cp_bytes p = take LINE_CAPTURE_BYTES (slice doc (cp_start p) (hs_line_start s))"
      using inv by (auto simp: scan_inv_def paragraph_ok_def)
    have "cp_bytes p @ take (min (LINE_CAPTURE_BYTES - length (cp_bytes p)) (length (hs_line s))) (hs_line s)
        = take LINE_CAPTURE_BYTES (slice doc (cp_start p) (hs_position s))"
      unfolding pi(4) li(1) take_capture slice_append[OF pi(2) li(2)] ..
    moreover obtain b where "extend_paragraph content (current_line s) t =
      t\<lparr>hs_paragraph := Some (p\<lparr>cp_bytes := cp_bytes p @ take (min (LINE_CAPTURE_BYTES - length (cp_bytes p)) (length (hs_line s))) (hs_line s),
        cp_overflowed := b\<rparr>)\<rparr>"
      using more by (simp add: extend_paragraph_def Let_def)
    ultimately show ?thesis using t pi li(2) by (simp add: line_done_def mid_line_def heading_ok_def paragraph_ok_def)
  qed
qed

lemma plain_line_ok:
  assumes doc: "valid_utf8 doc" and co: "cmark_offsets cmark" and cu: "cmark_underlines cmark"
    and inv: "scan_inv doc lo s" and e: "at_line_end doc s" and t: "mid_line doc lo s t"
    and line: "line = captured_utf8 (hs_line s)"
  shows "line_done doc lo s (plain_line cmark line (container_content line) (current_line s) t)"
proof -
  have found: "line_done doc lo s (Some g, t\<lparr>hs_paragraph := None\<rparr>)" if "heading_ok doc lo (hs_position s) (Some g)" for g
    using t that by (simp add: line_done_def mid_line_def)
  have t0: "mid_line doc lo s (t\<lparr>hs_paragraph := None\<rparr>)" using t by (simp add: mid_line_def)
  show ?thesis
  proof (cases "atx_heading cmark (hs_label_char_cap t) line (container_content line) (current_line s)")
    case (Some g)
    then show ?thesis using found[OF atx_heading_ok[OF co inv line Some]] by (simp add: plain_line_def)
  next
    case None
    show ?thesis
    proof (cases "is_setext_underline (container_content line) \<and> hs_paragraph t \<noteq> None")
      case False
      then show ?thesis using None extend_paragraph_ok[OF inv t] by (auto simp: plain_line_def)
    next
      case True
      then obtain p where p: "hs_paragraph t = Some p" "hs_paragraph s = Some p" using t by (auto simp: mid_line_def)
      show ?thesis
      proof (cases "setext_heading cmark (hs_label_char_cap t) p (current_line s)")
        case None': None
        then show ?thesis using None True p(1) extend_paragraph_ok[OF inv t0] by (simp add: plain_line_def)
      next
        case (Some g)
        have "heading_ok doc lo (hs_position s) (Some g)"
          using setext_heading_ok[OF doc co cu inv p(2) _ _ Some] e True by (simp add: at_line_end_def line)
        then show ?thesis using None True p(1) Some found by (simp add: plain_line_def)
      qed
    qed
  qed
qed

lemma finish_line_ok:
  assumes doc: "valid_utf8 doc" and co: "cmark_offsets cmark" and cu: "cmark_underlines cmark"
    and inv: "scan_inv doc lo s" and e: "at_line_end doc s"
  shows "line_done doc lo s (finish_line cmark s)"
proof -
  let ?line = "captured_utf8 (hs_line s)"
  have blocks: "line_done doc lo s (open_blocks cmark ?line (container_content ?line) d seen (current_line s) t)"
    if "mid_line doc lo s t" for d seen t
    using plain_line_ok[OF doc co cu inv e that refl] that
    by (auto simp: open_blocks_def mid_line_def intro!: line_done_None split: option.splits)
  have fence: "line_done doc lo s (in_fence cmark ?line (container_content ?line) d seen (current_line s) t)"
    if "mid_line doc lo s t" for d seen t
    using that by (auto simp: in_fence_def Let_def mid_line_def intro!: line_done_None blocks split: option.splits)
  let ?t = "s\<lparr>hs_line := [], hs_line_overflowed := False, hs_line_tail := [], hs_marker_seen := no_markers\<rparr>"
  have "mid_line doc lo s ?t" "mid_line doc lo s (?t\<lparr>hs_html := None\<rparr>)" by (simp_all add: mid_line_def)
  then show ?thesis
    by (auto simp: finish_line_def Let_def mid_line_def intro!: line_done_None fence split: option.splits)
qed

section \<open>The whole scan\<close>

definition scan_state :: "string \<Rightarrow> nat \<Rightarrow> heading_scanner \<Rightarrow> bool" where
  "scan_state doc lo s \<longleftrightarrow>
     (if hs_eof s then hs_position s = length doc
      else scan_inv doc lo s \<and> newline \<notin> set (slice doc (hs_line_start s) (hs_position s)))"

lemma slice_snoc: "i \<le> j \<Longrightarrow> drop j doc = b # bs \<Longrightarrow> slice doc i (Suc j) = slice doc i j @ [b]"
  using slice_append[of i j "Suc j" doc] by (simp add: slice_def)

lemma take_snoc_capture: "take c (xs @ [b]) = (if length (take c xs) < c then take c xs @ [b] else take c xs)"
  by (auto simp: min_def)

lemma feed_byte_ok:
  assumes inv: "scan_inv doc lo s" and d: "drop (hs_position s) doc = b # bs"
  shows "scan_inv doc lo (feed_byte s b)" "drop (hs_position (feed_byte s b)) doc = bs"
    "hs_eof (feed_byte s b) = hs_eof s" "hs_position (feed_byte s b) = Suc (hs_position s)"
    "hs_line_start (feed_byte s b) = hs_line_start s"
    "slice doc (hs_line_start s) (Suc (hs_position s)) = slice doc (hs_line_start s) (hs_position s) @ [b]"
proof -
  have l: "hs_position s < length doc" using d by (metis drop_eq_Nil2 leI list.discI)
  have li: "hs_line_start s \<le> hs_position s" using inv by (simp add: scan_inv_def)
  show sl: "slice doc (hs_line_start s) (Suc (hs_position s)) = slice doc (hs_line_start s) (hs_position s) @ [b]"
    by (rule slice_snoc[OF li d])
  have len: "length (slice doc (hs_line_start s) (hs_position s)) = hs_position s - hs_line_start s"
    using l by (simp add: length_slice)
  show "scan_inv doc lo (feed_byte s b)"
    using inv l by (auto simp: scan_inv_def feed_byte_def Let_def sl take_snoc_capture len)
  show "drop (hs_position (feed_byte s b)) doc = bs"
    using d by (simp add: feed_byte_def Let_def drop_Suc tl_drop flip: drop_Suc) (metis drop_Suc list.sel(3) tl_drop)
qed (simp_all add: feed_byte_def Let_def)

lemma after_newline:
  assumes doc: "valid_utf8 doc" and d: "drop p doc = newline # bs"
  shows "valid_utf8 (take (Suc p) doc)"
proof -
  have "p < length doc" using d by (metis drop_eq_Nil2 leI list.discI)
  moreover have "doc ! p = newline" using d by (metis calculation hd_drop_conv_nth list.sel(1))
  ultimately show ?thesis using valid_after_ascii[OF doc, of p] by (simp add: in_range_def)
qed

definition scan_result :: "string \<Rightarrow> nat \<Rightarrow> heading_scanner \<Rightarrow> heading option \<times> heading_scanner \<Rightarrow> bool" where
  "scan_result doc lo s r =
     (case r of (h, s') \<Rightarrow>
        heading_ok doc lo (hs_position s') h \<and> hs_position s' \<le> length doc \<and> hs_position s \<le> hs_position s'
        \<and> (hs_eof s' \<or> hs_position s < hs_position s')
        \<and> (case h of None \<Rightarrow> hs_eof s' \<and> hs_position s' = length doc
           | Some g \<Rightarrow> scan_state doc (hd_start g) s'))"

lemma scan_result_mono: "scan_result doc lo s' r \<Longrightarrow> hs_position s \<le> hs_position s' \<Longrightarrow> scan_result doc lo s r"
  by (auto simp: scan_result_def)

lemma scan_bytes_ok:
  assumes doc: "valid_utf8 doc" and co: "cmark_offsets cmark" and cu: "cmark_underlines cmark"
  shows "scan_inv doc lo s \<Longrightarrow> newline \<notin> set (slice doc (hs_line_start s) (hs_position s)) \<Longrightarrow> \<not> hs_eof s \<Longrightarrow>
     bs = drop (hs_position s) doc \<Longrightarrow> scan_result doc lo s (scan_bytes cmark s bs)"
proof (induction bs arbitrary: s)
  case Nil
  then have pos: "hs_position s = length doc" by (auto simp: scan_inv_def)
  let ?e = "s\<lparr>hs_eof := True\<rparr>"
  have "scan_inv doc lo ?e" using Nil.prems(1) by (simp add: scan_inv_def)
  moreover have "at_line_end doc ?e"
    using Nil.prems(1,2) pos doc by (auto simp: at_line_end_def scan_inv_def dest!: in_set_butlastD in_set_takeD)
  ultimately have "line_done doc lo ?e (finish_line cmark ?e)" by (rule finish_line_ok[OF doc co cu])
  then show ?case using pos Nil.prems(1)
    by (auto simp: scan_result_def line_done_def scan_state_def heading_ok_def Let_def split: option.splits prod.splits)
next
  case (Cons b bs)
  let ?s1 = "feed_byte s b"
  note f = feed_byte_ok[OF Cons.prems(1) Cons.prems(4)[symmetric]]
  have bs: "bs = drop (Suc (hs_position s)) doc" using f(2,4) by simp
  show ?case
  proof (cases "b = newline")
    case False
    have "scan_result doc lo ?s1 (scan_bytes cmark ?s1 bs)"
      by (rule Cons.IH) (use Cons.prems(2,3) False bs in \<open>simp_all add: f(1,3-6)\<close>)
    then have "scan_result doc lo s (scan_bytes cmark ?s1 bs)" by (rule scan_result_mono) (simp add: f)
    then show ?thesis using False by (simp add: Let_def)
  next
    case True
    have "at_line_end doc ?s1"
      unfolding at_line_end_def
    proof
      show "valid_utf8 (take (hs_position ?s1) doc)"
        using after_newline[OF doc] Cons.prems(4) True f(4) by metis
      have "set (butlast (hs_line ?s1)) \<subseteq> set (butlast (slice doc (hs_line_start s) (Suc (hs_position s))))"
        using f(1) set_butlast_take by (simp add: scan_inv_def f(4,5))
      then show "newline \<notin> set (butlast (hs_line ?s1))" using Cons.prems(2) by (auto simp: f(6))
    qed
    then have ld: "line_done doc lo ?s1 (finish_line cmark ?s1)" and vp: "valid_utf8 (take (Suc (hs_position s)) doc)"
      using finish_line_ok[OF doc co cu f(1)] by (simp_all add: at_line_end_def f(4))
    obtain h s2 where fl: "finish_line cmark ?s1 = (h, s2)" by fastforce
    let ?s3 = "s2\<lparr>hs_line_start := hs_position s2\<rparr>"
    have s2: "hs_position s2 = Suc (hs_position s)" "hs_line s2 = []" "\<not> hs_line_overflowed s2" "\<not> hs_eof s2"
      "heading_ok doc lo (Suc (hs_position s)) h"
      using ld Cons.prems(3) by (auto simp: line_done_def fl f)
    have le: "Suc (hs_position s) \<le> length doc" "lo \<le> Suc (hs_position s)"
      using f(1) by (auto simp: scan_inv_def f)
    show ?thesis
    proof (cases h)
      case None
      then have inv3: "scan_inv doc lo ?s3"
        using ld vp s2 le by (auto simp: line_done_def fl f scan_inv_def)
      have "scan_result doc lo ?s3 (scan_bytes cmark ?s3 bs)"
        by (rule Cons.IH) (use inv3 bs s2 in simp_all)
      then have "scan_result doc lo s (scan_bytes cmark ?s3 bs)" by (rule scan_result_mono) (simp add: s2)
      then show ?thesis using True None fl by (simp add: Let_def)
    next
      case (Some g)
      then have "scan_inv doc (hd_start g) ?s3"
        using ld vp s2 le by (auto simp: line_done_def fl f scan_inv_def paragraph_ok_def heading_ok_def)
      then show ?thesis using True Some fl s2 le by (simp add: Let_def scan_result_def scan_state_def)
    qed
  qed
qed

lemma next_heading_ok:
  assumes "valid_utf8 doc" "cmark_offsets cmark" "cmark_underlines cmark" "scan_state doc lo s" "\<not> hs_eof s"
  shows "scan_result doc lo s (next_heading cmark doc s)"
  using scan_bytes_ok[OF assms(1-3), of lo s] assms(4,5) by (simp add: next_heading_def scan_state_def)

lemma next_heading_eof: "hs_eof s \<Longrightarrow> next_heading cmark doc s = (None, s)"
  by (simp add: next_heading_def)

lemma scan_state_new: "scan_state doc 0 (heading_scanner_new cap)"
  by (simp add: scan_state_def scan_inv_def heading_scanner_new_def paragraph_ok_def)

end
