(* ===== verification/Chunker.thy ===== *)
theory Chunker
  imports Heading_Scan
begin

text \<open>
  The Markdown chunker (\<^verbatim>\<open>notedthat-indexer/src/chunker.rs\<close>, \<^verbatim>\<open>chunker/streaming.rs\<close>): an iterator that cuts
  a file into sections at its headings, splits long sections, and merges short and blank pieces into
  their neighbours, reading a bounded window at a time.

  The reader is the list of the file's bytes; a read past its end is the error the code's
  \<^verbatim>\<open>read_exact\<close> reports.  The merging loop is a partial function (nothing in its text bounds it); the
  results below include that it returns.
\<close>

section \<open>Data\<close>

definition SOFT_CHAR_CAP :: nat where
  "SOFT_CHAR_CAP = 3000"

definition HEADING_LABEL_CHAR_CAP :: nat where
  "HEADING_LABEL_CHAR_CAP = 3000"

record chunk =
  ck_text :: string
  ck_byte_start :: nat
  ck_byte_end :: nat
  ck_heading_path :: "string list"

record boundary =
  bd_start :: nat
  bd_heading_path :: "string list"

record md_section =
  se_cursor :: nat
  se_end :: nat
  se_boundaries :: "boundary list"
  se_lookahead :: string

record chunk_iter =
  ci_scanner :: heading_scanner
  ci_section :: "md_section option"
  ci_next_heading :: "heading option"
  ci_heading_path :: "string list"
  ci_held :: "chunk option"
  ci_max_chars :: nat
  ci_min_chars :: nat
  ci_max_read_bytes :: nat
  ci_base :: nat
  ci_started :: bool
  ci_finished :: bool

datatype chunk_error =
    Zero_Bound
  | Bound_Too_Large
  | Unexpected_Eof
  | Not_Utf8 nat
  | Invalid_Text
  | Empty_Section_State
  | Offset_Overflow

definition section_new :: "nat \<Rightarrow> nat \<Rightarrow> string list \<Rightarrow> md_section" where
  "section_new start stop path =
     \<lparr>se_cursor = start, se_end = stop, se_boundaries = [\<lparr>bd_start = start, bd_heading_path = path\<rparr>], se_lookahead = []\<rparr>"

text \<open>\<^verbatim>\<open>Section::heading_path\<close>: the path of the merged section the cursor is in, dropping those already passed.\<close>

definition section_heading_path :: "md_section \<Rightarrow> string list \<times> md_section" where
  "section_heading_path se =
     (let passed = length (takeWhile (\<lambda>b. bd_start b \<le> se_cursor se) (tl (se_boundaries se)));
          rest = drop passed (se_boundaries se) in
      (bd_heading_path (hd rest), se\<lparr>se_boundaries := rest\<rparr>))"

definition stream_chunks :: "nat \<Rightarrow> nat \<Rightarrow> (chunk_error, chunk_iter) result" where
  "stream_chunks max_chars base =
     (if max_chars = 0 then Inl Zero_Bound
      else if 2 ^ 64 \<le> max_chars * 4 then Inl Bound_Too_Large
      else Inr \<lparr>ci_scanner = heading_scanner_new HEADING_LABEL_CHAR_CAP, ci_section = None,
        ci_next_heading = None, ci_heading_path = [], ci_held = None, ci_max_chars = max_chars,
        ci_min_chars = max_chars div 4, ci_max_read_bytes = max_chars * 4, ci_base = base,
        ci_started = False, ci_finished = False\<rparr>)"

definition with_min_chars :: "chunk_iter \<Rightarrow> nat \<Rightarrow> chunk_iter" where
  "with_min_chars it n = it\<lparr>ci_min_chars := min n (ci_max_chars it div 4)\<rparr>"

section \<open>Reading\<close>

definition fill :: "string \<Rightarrow> md_section \<Rightarrow> nat \<Rightarrow> (chunk_error, md_section) result" where
  "fill doc se max_bytes =
     (let buffered_end = se_cursor se + length (se_lookahead se);
          unread = se_end se - buffered_end;
          room = max_bytes - length (se_lookahead se);
          request = min unread room in
      if 0 < request then
        (if length doc < buffered_end + request then Inl Unexpected_Eof
         else Inr (se\<lparr>se_lookahead := se_lookahead se @ take request (drop buffered_end doc)\<rparr>))
      else Inr se)"

definition short_span :: "string \<Rightarrow> md_section \<Rightarrow> nat \<Rightarrow> (chunk_error, bool option \<times> md_section) result" where
  "short_span doc se min_chars =
     (let remaining = se_end se - se_cursor se in
      if min (min_chars * 4) (2 ^ 64 - 1) \<le> remaining then Inr (None, se)
      else res_bind (fill doc se remaining) (\<lambda>se'.
        Inr (if valid_utf8 (se_lookahead se') \<and> char_count (se_lookahead se') < min_chars
             then Some (trim (se_lookahead se') = []) else None, se')))"

definition absolute_offset :: "nat \<Rightarrow> nat \<Rightarrow> (chunk_error, nat) result" where
  "absolute_offset base local = (if base + local < 2 ^ 64 then Inr (base + local) else Inl Offset_Overflow)"

section \<open>Where a piece ends\<close>

text \<open>The loop of \<^verbatim>\<open>split_byte\<close> over the characters of the text, with the code's locals as arguments.\<close>

fun split_loop :: "nat \<Rightarrow> nat \<Rightarrow> bool \<Rightarrow> nat \<Rightarrow> string list \<Rightarrow> nat \<Rightarrow> nat \<Rightarrow> bool \<Rightarrow> bool \<Rightarrow> nat option \<Rightarrow> nat option \<Rightarrow> nat" where
  "split_loop limit preference_start complete hard [] pos n seen_line_end line_blank whitespace paragraph =
     (case paragraph of Some p \<Rightarrow> p | None \<Rightarrow> (case whitespace of Some w \<Rightarrow> w | None \<Rightarrow> hard))"
| "split_loop limit preference_start complete hard (c # cs) pos n seen_line_end line_blank whitespace paragraph =
     (let n' = n + 1;
          stop = pos + length c;
          cr_pending = (c = [carriage_return] \<and> (case cs of next # _ \<Rightarrow> next = [newline] | [] \<Rightarrow> \<not> complete));
          line_end = (c = [newline] \<or> (c = [carriage_return] \<and> \<not> cr_pending));
          breaks = (preference_start \<le> n' \<and> is_whitespace c \<and> \<not> cr_pending);
          whitespace' = (if breaks then Some stop else whitespace);
          paragraph' = (if breaks \<and> line_end \<and> seen_line_end \<and> line_blank then Some stop else paragraph);
          seen' = (if line_end then True else seen_line_end);
          blank' = (if line_end then True else if \<not> is_whitespace c then False else line_blank) in
      if n' = limit then
        (case paragraph' of Some p \<Rightarrow> p
         | None \<Rightarrow> (case whitespace' of Some w \<Rightarrow> w
           | None \<Rightarrow> if cr_pending \<and> 0 < pos then pos else stop))
      else split_loop limit preference_start complete hard cs stop n' seen' blank' whitespace' paragraph')"

definition split_byte :: "string \<Rightarrow> nat \<Rightarrow> nat \<Rightarrow> bool \<Rightarrow> nat" where
  "split_byte text max_chars min_tail complete =
     (let total = char_count text in
      if complete \<and> total \<le> max_chars then length text
      else
        split_loop (if complete then min max_chars (total - min_tail) else max_chars)
          (max_chars * 3 div 4) complete (length text) (utf8_chars text) 0 0 False True None None)"

section \<open>The iterator\<close>

definition enter :: "chunk_iter \<Rightarrow> heading \<Rightarrow> nat \<times> chunk_iter" where
  "enter it h =
     (let keep = hd_depth h - 1 in
      (hd_start h,
       it\<lparr>ci_heading_path := take (min keep (length (ci_heading_path it))) (ci_heading_path it) @ [hd_label h]\<rparr>))"

definition scan_section_end :: "markdown_parser \<Rightarrow> string \<Rightarrow> chunk_iter \<Rightarrow> nat \<times> chunk_iter" where
  "scan_section_end cmark doc it =
     (let (h, sc) = next_heading cmark doc (ci_scanner it);
          it' = it\<lparr>ci_scanner := sc, ci_next_heading := h\<rparr> in
      (case h of None \<Rightarrow> hs_position sc | Some g \<Rightarrow> hd_start g, it'))"

text \<open>Progress of the scanner, for the loops that scan section after section.\<close>

definition scan_left :: "string \<Rightarrow> heading_scanner \<Rightarrow> nat" where
  "scan_left doc s = (if hs_eof s then 0 else Suc (length doc - hs_position s))"

definition sections_left :: "string \<Rightarrow> chunk_iter \<Rightarrow> nat" where
  "sections_left doc it =
     2 * scan_left doc (ci_scanner it) + (if ci_next_heading it = None then 0 else 1) + (if ci_started it then 0 else 1)"

lemma extend_paragraph_frame [simp]:
  "hs_position (extend_paragraph c p s) = hs_position s" "hs_eof (extend_paragraph c p s) = hs_eof s"
  by (auto simp: extend_paragraph_def Let_def split: option.splits)

lemma finish_line_frame:
  assumes "finish_line cmark s = (h, s')"
  shows "hs_position s' = hs_position s \<and> hs_eof s' = hs_eof s"
proof -
  have plain: "plain_line cmark line c p t = (h, s') \<Longrightarrow> hs_position s' = hs_position t \<and> hs_eof s' = hs_eof t" for line c p t
    by (auto simp: plain_line_def split: option.splits if_splits)
  have blocks: "open_blocks cmark line c d seen p t = (h, s') \<Longrightarrow> hs_position s' = hs_position t \<and> hs_eof s' = hs_eof t" for line c d seen p t
    by (auto simp: open_blocks_def split: option.splits if_splits dest: plain)
  have fence: "in_fence cmark line c d seen p t = (h, s') \<Longrightarrow> hs_position s' = hs_position t \<and> hs_eof s' = hs_eof t" for line c d seen p t
    by (auto simp: in_fence_def Let_def split: option.splits if_splits dest: blocks)
  show ?thesis using assms by (auto simp: finish_line_def Let_def split: option.splits if_splits dest: fence)
qed

lemma scan_bytes_progress:
  "scan_bytes cmark s bs = (h, s') \<Longrightarrow>
     hs_eof s' \<or> (hs_position s < hs_position s' \<and> hs_position s' \<le> hs_position s + length bs)"
proof (induction bs arbitrary: s)
  case Nil
  then show ?case by (auto simp: Let_def dest: finish_line_frame split: if_splits)
next
  case (Cons b bs)
  have p: "hs_position (feed_byte s b) = Suc (hs_position s)" by (simp add: feed_byte_def Let_def)
  show ?case
  proof (cases "b = newline")
    case True
    obtain g s2 where fl: "finish_line cmark (feed_byte s b) = (g, s2)" by fastforce
    have "hs_position s2 = Suc (hs_position s)" using finish_line_frame[OF fl] p by simp
    then show ?thesis using Cons.prems Cons.IH[of "s2\<lparr>hs_line_start := hs_position s2\<rparr>"] True fl
      by (auto simp: Let_def split: if_splits)
  next
    case False
    then show ?thesis using Cons.prems Cons.IH[of "feed_byte s b"] p by (auto simp: Let_def)
  qed
qed

lemma next_heading_progress:
  assumes "next_heading cmark doc s = (h, s')"
  shows "if hs_eof s then h = None \<and> s' = s else scan_left doc s' < scan_left doc s"
  using assms scan_bytes_progress[of cmark s "drop (hs_position s) doc" h s']
  by (auto simp: next_heading_def scan_left_def split: if_splits)

lemma scan_section_end_progress:
  assumes "scan_section_end cmark doc it = (e, it')"
  shows "ci_started it' = ci_started it"
    "2 * scan_left doc (ci_scanner it') + (if ci_next_heading it' = None then 0 else 1) \<le> 2 * scan_left doc (ci_scanner it)"
  using assms next_heading_progress[of cmark doc "ci_scanner it"]
  by (auto simp: scan_section_end_def Let_def split: prod.splits if_splits)

lemma enter_frame [simp]:
  "ci_started (snd (enter it h)) = ci_started it" "ci_scanner (snd (enter it h)) = ci_scanner it"
  "ci_next_heading (snd (enter it h)) = ci_next_heading it" "fst (enter it h) = hd_start h"
  by (simp_all add: enter_def Let_def)

text \<open>Where the next section starts, and the state that has left the previous one.\<close>

definition begin_section :: "chunk_iter \<Rightarrow> (nat \<times> chunk_iter) option" where
  "begin_section it =
     (if ci_started it then
        (case ci_next_heading it of
           None \<Rightarrow> None
         | Some h \<Rightarrow> Some (enter (it\<lparr>ci_next_heading := None\<rparr>) h))
      else Some (0, it\<lparr>ci_started := True\<rparr>))"

lemma begin_section_progress:
  assumes "begin_section it = Some (start, it1)"
  shows "2 * scan_left doc (ci_scanner it1) < sections_left doc it" "ci_started it1"
proof -
  have "ci_scanner it1 = ci_scanner it \<and> ci_started it1 \<and> (ci_next_heading it \<noteq> None \<or> \<not> ci_started it)"
  proof (cases "ci_started it")
    case True
    then obtain h where "ci_next_heading it = Some h" "enter (it\<lparr>ci_next_heading := None\<rparr>) h = (start, it1)"
      using assms by (auto simp: begin_section_def split: option.splits)
    then show ?thesis using True enter_frame[of "it\<lparr>ci_next_heading := None\<rparr>" h] by simp
  next
    case False
    then show ?thesis using assms by (auto simp: begin_section_def)
  qed
  then show "2 * scan_left doc (ci_scanner it1) < sections_left doc it" "ci_started it1"
    by (auto simp: sections_left_def)
qed

lemma section_loop_progress:
  assumes "begin_section it = Some (start, it1)" "scan_section_end cmark doc it1 = (e, it2)"
  shows "sections_left doc it2 < sections_left doc it"
  using begin_section_progress(1)[of it start it1 doc] begin_section_progress(2)[of it start it1] assms(1) scan_section_end_progress[of cmark doc it1 e it2] assms(2)
  by (simp add: sections_left_def)

function (sequential) prepare_section :: "markdown_parser \<Rightarrow> string \<Rightarrow> chunk_iter \<Rightarrow> bool \<times> chunk_iter" where
  "prepare_section cmark doc it =
     (case begin_section it of
        None \<Rightarrow> (False, it\<lparr>ci_finished := True\<rparr>)
      | Some (start, it1) \<Rightarrow>
          (case scan_section_end cmark doc it1 of (stop, it2) \<Rightarrow>
             if start < stop then
               (True, it2\<lparr>ci_section := Some (section_new start stop (ci_heading_path it2))\<rparr>)
             else prepare_section cmark doc it2))"
  by pat_completeness auto
termination
  by (relation "measure (\<lambda>(_, doc, it). sections_left doc it)") (auto intro: section_loop_progress[OF _ sym])

text \<open>\<^verbatim>\<open>absorb_short_span\<close>: one turn of its loop extends the section over the next heading's section.\<close>

definition extend_section :: "markdown_parser \<Rightarrow> string \<Rightarrow> chunk_iter \<Rightarrow> heading \<Rightarrow> md_section \<Rightarrow> bool \<Rightarrow> chunk_iter" where
  "extend_section cmark doc it h se blank =
     (let (start, it1) = enter (it\<lparr>ci_next_heading := None\<rparr>) h;
          (stop, it2) = scan_section_end cmark doc it1;
          path = ci_heading_path it2;
          boundaries =
            (if blank then [\<lparr>bd_start = se_cursor se, bd_heading_path = path\<rparr>]
             else se_boundaries se @ [\<lparr>bd_start = start, bd_heading_path = path\<rparr>]) in
      it2\<lparr>ci_section := Some (se\<lparr>se_end := stop, se_boundaries := boundaries\<rparr>)\<rparr>)"

lemma extend_section_progress:
  assumes "ci_next_heading it = Some h"
  shows "sections_left doc (extend_section cmark doc it h se blank) < sections_left doc it"
proof -
  obtain start it1 where e: "enter (it\<lparr>ci_next_heading := None\<rparr>) h = (start, it1)" by fastforce
  obtain stop it2 where s: "scan_section_end cmark doc it1 = (stop, it2)" by fastforce
  have it1: "ci_started it1 = ci_started it" "ci_scanner it1 = ci_scanner it"
    using enter_frame[of "it\<lparr>ci_next_heading := None\<rparr>" h] e by simp_all
  have "sections_left doc it2 < sections_left doc it"
    using scan_section_end_progress[OF s] it1 assms by (simp add: sections_left_def)
  then show ?thesis by (simp add: extend_section_def e s sections_left_def Let_def)
qed

function (sequential) absorb_short_span :: "markdown_parser \<Rightarrow> string \<Rightarrow> chunk_iter \<Rightarrow> (chunk_error, chunk_iter) result" where
  "absorb_short_span cmark doc it =
     (case ci_next_heading it of
        None \<Rightarrow> Inr it
      | Some h \<Rightarrow>
          (case ci_section it of
             None \<Rightarrow> Inr it
           | Some se \<Rightarrow>
               (case short_span doc se (ci_min_chars it) of
                  Inl e \<Rightarrow> Inl e
                | Inr (None, se') \<Rightarrow> Inr (it\<lparr>ci_section := Some se'\<rparr>)
                | Inr (Some blank, se') \<Rightarrow>
                    absorb_short_span cmark doc (extend_section cmark doc it h se' blank))))"
  by pat_completeness auto

termination
  by (relation "measure (\<lambda>(_, doc, it). sections_left doc it)") (auto simp: extend_section_progress)

declare prepare_section.simps [simp del] absorb_short_span.simps [simp del]

text \<open>The cut of the current section, once its window is filled; first how much of the window is text.\<close>

definition window_text_len :: "md_section \<Rightarrow> (chunk_error, nat) result" where
  "window_text_len se =
     (case from_utf8 (se_lookahead se) of
        Utf8_Ok \<Rightarrow> Inr (length (se_lookahead se))
      | Utf8_Error v None \<Rightarrow> Inr v
      | Utf8_Error v (Some e) \<Rightarrow> Inl (Not_Utf8 (se_cursor se + v)))"

definition cut_section :: "chunk_iter \<Rightarrow> md_section \<Rightarrow> (chunk_error, chunk \<times> chunk_iter) result" where
  "cut_section it se =
     (let ahead = se_lookahead se in
      res_bind
        (window_text_len se) (\<lambda>valid_len.
      if valid_len = 0 \<and> ahead \<noteq> [] then Inl (Not_Utf8 (se_cursor se))
      else
        let body = take valid_len ahead;
            remaining = se_end se - se_cursor se;
            split = split_byte body (ci_max_chars it) (ci_min_chars it) (remaining = valid_len) in
        if \<not> valid_utf8 (take split ahead) then Inl Invalid_Text
        else
          let (path, se1) = section_heading_path se;
              local_start = se_cursor se1;
              local_end = local_start + split;
              se2 = se1\<lparr>se_cursor := local_end, se_lookahead := drop split ahead\<rparr> in
          res_bind (absolute_offset (ci_base it) local_start) (\<lambda>byte_start.
          res_bind (absolute_offset (ci_base it) local_end) (\<lambda>byte_end.
          Inr (\<lparr>ck_text = take split ahead, ck_byte_start = byte_start, ck_byte_end = byte_end, ck_heading_path = path\<rparr>,
               it\<lparr>ci_section := Some se2\<rparr>)))))"

definition next_chunk :: "markdown_parser \<Rightarrow> string \<Rightarrow> chunk_iter \<Rightarrow> (chunk_error, chunk option \<times> chunk_iter) result" where
  "next_chunk cmark doc it =
     (if ci_finished it then Inr (None, it)
      else
        let (ready, it1) =
          (case ci_section it of
             None \<Rightarrow> prepare_section cmark doc it
           | Some se \<Rightarrow> if se_cursor se = se_end se then prepare_section cmark doc it else (True, it)) in
        if \<not> ready then Inr (None, it1)
        else
          res_bind (absorb_short_span cmark doc it1) (\<lambda>it2.
          case ci_section it2 of
            None \<Rightarrow> Inl Empty_Section_State
          | Some se \<Rightarrow>
              res_bind (fill doc se (ci_max_read_bytes it2)) (\<lambda>se'.
              res_map (\<lambda>(c, it3). (Some c, it3)) (cut_section it2 se'))))"

definition mergeable :: "nat \<Rightarrow> nat \<Rightarrow> chunk \<Rightarrow> chunk \<Rightarrow> bool" where
  "mergeable max_chars min_chars held next \<longleftrightarrow>
     0 < min_chars
     \<and> (trim (ck_text held) = [] \<or> char_count (ck_text next) < min_chars \<or> trim (ck_text next) = [])
     \<and> char_count (ck_text held) + char_count (ck_text next) \<le> max_chars"

definition join_chunks :: "chunk \<Rightarrow> chunk \<Rightarrow> chunk" where
  "join_chunks held next =
     held\<lparr>ck_heading_path := (if trim (ck_text held) = [] then ck_heading_path next else ck_heading_path held),
          ck_text := ck_text held @ ck_text next,
          ck_byte_end := ck_byte_end next\<rparr>"

definition is_dropped :: "chunk_iter \<Rightarrow> chunk \<Rightarrow> bool" where
  "is_dropped it c \<longleftrightarrow> 0 < ci_min_chars it \<and> trim (ck_text c) = []"

text \<open>
  The merging loop.  An error carries the state it left the iterator in; the fields the failed
  \<open>next_chunk\<close> may have changed are not read again, because the iterator is then finished.
\<close>

partial_function (option) next_merged ::
  "markdown_parser \<Rightarrow> string \<Rightarrow> chunk_iter \<Rightarrow> ((chunk_error \<times> chunk_iter) + (chunk option \<times> chunk_iter)) option" where
  "next_merged cmark doc it =
     (case next_chunk cmark doc it of
        Inl e \<Rightarrow> Some (Inl (e, it))
      | Inr (next, it0) \<Rightarrow>
          (let it1 = it0\<lparr>ci_held := None\<rparr> in
           case (ci_held it0, next) of
             (None, None) \<Rightarrow> Some (Inr (None, it1))
           | (Some held, None) \<Rightarrow>
               if is_dropped it1 held then next_merged cmark doc it1 else Some (Inr (Some held, it1))
           | (None, Some n) \<Rightarrow> next_merged cmark doc (it1\<lparr>ci_held := Some n\<rparr>)
           | (Some held, Some n) \<Rightarrow>
               if mergeable (ci_max_chars it1) (ci_min_chars it1) held n
               then next_merged cmark doc (it1\<lparr>ci_held := Some (join_chunks held n)\<rparr>)
               else
                 let it2 = it1\<lparr>ci_held := Some n\<rparr> in
                 if is_dropped it2 held then next_merged cmark doc it2 else Some (Inr (Some held, it2))))"

text \<open>\<^verbatim>\<open>Iterator::next\<close>.\<close>

definition chunk_next :: "markdown_parser \<Rightarrow> string \<Rightarrow> chunk_iter \<Rightarrow> ((chunk_error, chunk) result option \<times> chunk_iter) option" where
  "chunk_next cmark doc it =
     (case next_merged cmark doc it of
        None \<Rightarrow> None
      | Some (Inr (Some c, it')) \<Rightarrow> Some (Some (Inr c), it')
      | Some (Inr (None, it')) \<Rightarrow> Some (None, it')
      | Some (Inl (e, it')) \<Rightarrow> Some (Some (Inl e), it'\<lparr>ci_finished := True\<rparr>))"

section \<open>Cutting\<close>

text \<open>A cut after the first \<open>k\<close> characters, in the preferred region, at the bound (or one before it), or at the end.\<close>

definition cut_ok :: "string list \<Rightarrow> nat \<Rightarrow> nat \<Rightarrow> nat \<Rightarrow> bool" where
  "cut_ok cs preference_start limit r \<longleftrightarrow>
     (\<exists>k. r = length (concat (take k cs)) \<and> 1 \<le> k \<and> k \<le> limit \<and> k \<le> length cs
        \<and> (preference_start \<le> k \<or> limit - 1 \<le> k \<or> k = length cs))"

definition cut_option_ok :: "string list \<Rightarrow> nat \<Rightarrow> nat \<Rightarrow> nat option \<Rightarrow> bool" where
  "cut_option_ok cs preference_start limit r = (case r of None \<Rightarrow> True | Some w \<Rightarrow> cut_ok cs preference_start limit w)"

lemma split_loop_ok:
  assumes "all \<noteq> []" "1 \<le> limit"
  shows "n \<le> length all \<Longrightarrow> cs = drop n all \<Longrightarrow> pos = length (concat (take n all)) \<Longrightarrow> n < limit \<Longrightarrow>
    cut_option_ok all pref limit whitespace \<Longrightarrow> cut_option_ok all pref limit para \<Longrightarrow>
    cut_ok all pref limit (split_loop limit pref complete (length (concat all)) cs pos n seen blank whitespace para)"
proof (induction cs arbitrary: n pos seen blank whitespace para)
  case Nil
  then have "n = length all" by simp
  moreover have "cut_ok all pref limit (length (concat all))"
    using Nil.prems assms calculation unfolding cut_ok_def by (intro exI[of _ "length all"]) (auto simp: Suc_le_eq)
  ultimately show ?case using Nil.prems(5,6) by (auto simp: cut_option_ok_def split: option.splits)
next
  case (Cons c cs)
  have n: "n < length all" using Cons.prems(2) by (metis drop_eq_Nil2 list.discI not_le)
  then have c: "c = all ! n" "cs = drop (Suc n) all"
    using Cons.prems(2) by (simp_all add: Cons_nth_drop_Suc[symmetric])
  have stop: "pos + length c = length (concat (take (Suc n) all))"
    using Cons.prems(3) n c by (simp add: take_Suc_conv_app_nth)
  have here: "cut_ok all pref limit (pos + length c)" if "pref \<le> Suc n \<or> Suc n = limit"
    unfolding cut_ok_def using that n Cons.prems(4) stop by (intro exI[of _ "Suc n"]) auto
  have before: "cut_ok all pref limit pos" if "0 < pos" "Suc n = limit"
  proof -
    have "1 \<le> n" using that(1) Cons.prems(3) by (cases n) auto
    then show ?thesis unfolding cut_ok_def using that n Cons.prems(3) by (intro exI[of _ n]) auto
  qed
  define cr where "cr = (c = [carriage_return] \<and> (case cs of next # _ \<Rightarrow> next = [newline] | [] \<Rightarrow> \<not> complete))"
  define le where "le = (c = [newline] \<or> (c = [carriage_return] \<and> \<not> cr))"
  define br where "br = (pref \<le> n + 1 \<and> is_whitespace c \<and> \<not> cr)"
  define ws where "ws = (if br then Some (pos + length c) else whitespace)"
  define pa where "pa = (if br \<and> le \<and> seen \<and> blank then Some (pos + length c) else para)"
  have w: "cut_option_ok all pref limit ws" "cut_option_ok all pref limit pa"
    using Cons.prems(5,6) here by (auto simp: ws_def pa_def br_def cut_option_ok_def)
  show ?case
  proof (cases "n + 1 = limit")
    case True
    then have "split_loop limit pref complete (length (concat all)) (c # cs) pos n seen blank whitespace para
      = (case pa of Some p \<Rightarrow> p | None \<Rightarrow> (case ws of Some w \<Rightarrow> w | None \<Rightarrow> if cr \<and> 0 < pos then pos else pos + length c))"
      unfolding split_loop.simps Let_def cr_def[symmetric] le_def[symmetric] br_def[symmetric] ws_def[symmetric] pa_def[symmetric] by simp
    then show ?thesis using w True here before by (auto simp: cut_option_ok_def split: option.splits)
  next
    case False
    have "cut_ok all pref limit (split_loop limit pref complete (length (concat all)) cs (pos + length c) (n + 1) s b ws pa)" for s b
      using Cons.IH[of "n + 1" "pos + length c" ws pa s b] n c(2) stop w False Cons.prems(4) by simp
    then show ?thesis using False
      unfolding split_loop.simps Let_def cr_def[symmetric] le_def[symmetric] br_def[symmetric] ws_def[symmetric] pa_def[symmetric] by simp
  qed
qed

lemma split_byte_ok:
  assumes "body \<noteq> []" "1 \<le> max_chars" "min_tail \<le> max_chars div 4"
    and "\<not> complete \<Longrightarrow> max_chars \<le> char_count body"
  obtains k where "split_byte body max_chars min_tail complete = length (concat (take k (utf8_chars body)))"
    "1 \<le> k" "k \<le> max_chars" "k \<le> char_count body"
    "min_tail \<le> k \<or> (complete \<and> k = char_count body)"
proof -
  let ?cs = "utf8_chars body"
  have ne: "?cs \<noteq> []" using assms(1) by (cases body) auto
  show ?thesis
  proof (cases "complete \<and> char_count body \<le> max_chars")
    case True
    have "1 \<le> char_count body" using ne by (simp add: char_count_def Suc_le_eq)
    then show ?thesis using True that[of "char_count body"] by (simp add: split_byte_def char_count_def)
  next
    case False
    define limit where "limit = (if complete then min max_chars (char_count body - min_tail) else max_chars)"
    have lim: "1 \<le> limit" "limit \<le> max_chars" "limit \<le> char_count body" "min_tail \<le> limit - 1"
      using False assms(2,3,4) by (auto simp: limit_def)
    have "cut_ok ?cs (max_chars * 3 div 4) limit
      (split_loop limit (max_chars * 3 div 4) complete (length (concat ?cs)) ?cs 0 0 False True None None)"
      by (rule split_loop_ok[OF ne lim(1)]) (use lim(1) in \<open>simp_all add: cut_option_ok_def\<close>)
    then obtain k where k: "split_byte body max_chars min_tail complete = length (concat (take k ?cs))"
      "1 \<le> k" "k \<le> limit" "k \<le> length ?cs" "max_chars * 3 div 4 \<le> k \<or> limit - 1 \<le> k \<or> k = length ?cs"
      using False by (auto simp: split_byte_def cut_ok_def limit_def Let_def)
    have "min_tail \<le> k"
      using k(5) lim assms(3) by (auto simp: char_count_def)
    then show ?thesis using that[of k] k lim by (simp add: char_count_def)
  qed
qed

section \<open>The state of the iterator\<close>

text \<open>\<open>c\<close> is how far the file has been handed out; the section under the cursor ends where the next heading starts.\<close>

definition bounds_ok :: "string \<Rightarrow> chunk_iter \<Rightarrow> bool" where
  "bounds_ok doc it \<longleftrightarrow>
     1 \<le> ci_max_chars it \<and> ci_min_chars it \<le> ci_max_chars it div 4 \<and> ci_max_read_bytes it = ci_max_chars it * 4
     \<and> ci_max_chars it * 4 < 2 ^ 64 \<and> ci_base it + length doc < 2 ^ 64"

definition ahead_ok :: "string \<Rightarrow> nat \<Rightarrow> chunk_iter \<Rightarrow> bool" where
  "ahead_ok doc e it \<longleftrightarrow>
     ci_started it \<and> e \<le> length doc \<and> valid_utf8 (take e doc)
     \<and> (case ci_next_heading it of
          None \<Rightarrow> e = length doc
        | Some h \<Rightarrow> hd_start h = e \<and> scan_state doc e (ci_scanner it))"

definition unstarted_ok :: "string \<Rightarrow> chunk_iter \<Rightarrow> bool" where
  "unstarted_ok doc it \<longleftrightarrow> \<not> ci_started it \<and> ci_next_heading it = None \<and> scan_state doc 0 (ci_scanner it)"

definition section_ok :: "string \<Rightarrow> nat \<Rightarrow> md_section \<Rightarrow> bool" where
  "section_ok doc c se \<longleftrightarrow>
     se_cursor se = c \<and> c \<le> se_end se \<and> se_end se \<le> length doc
     \<and> valid_utf8 (take c doc) \<and> valid_utf8 (take (se_end se) doc)
     \<and> se_lookahead se = take (length (se_lookahead se)) (slice doc c (se_end se))"

definition iter_ok :: "string \<Rightarrow> nat \<Rightarrow> chunk_iter \<Rightarrow> bool" where
  "iter_ok doc c it \<longleftrightarrow>
     bounds_ok doc it \<and> \<not> ci_finished it
     \<and> (case ci_section it of
          None \<Rightarrow> c = 0 \<and> unstarted_ok doc it
        | Some se \<Rightarrow> section_ok doc c se \<and> ahead_ok doc (se_end se) it)"

definition same_config :: "chunk_iter \<Rightarrow> chunk_iter \<Rightarrow> bool" where
  "same_config it it' \<longleftrightarrow>
     ci_max_chars it' = ci_max_chars it \<and> ci_min_chars it' = ci_min_chars it
     \<and> ci_max_read_bytes it' = ci_max_read_bytes it \<and> ci_base it' = ci_base it \<and> ci_held it' = ci_held it"

lemma same_config_refl [simp]: "same_config it it"
  by (simp add: same_config_def)

lemma same_config_trans [trans]: "same_config a b \<Longrightarrow> same_config b c \<Longrightarrow> same_config a c"
  by (simp add: same_config_def)

lemma same_config_bounds: "same_config it it' \<Longrightarrow> bounds_ok doc it' = bounds_ok doc it"
  by (simp add: same_config_def bounds_ok_def)

lemma ahead_ok_frame [simp]:
  "ahead_ok doc e (it\<lparr>ci_section := x\<rparr>) = ahead_ok doc e it" "ahead_ok doc e (it\<lparr>ci_held := y\<rparr>) = ahead_ok doc e it"
  by (simp_all add: ahead_ok_def cong: option.case_cong)

lemma section_new_simps [simp]:
  "se_cursor (section_new a b p) = a" "se_end (section_new a b p) = b" "se_lookahead (section_new a b p) = []"
  by (simp_all add: section_new_def)

lemma valid_slice: "valid_utf8 (take i doc) \<Longrightarrow> valid_utf8 (take j doc) \<Longrightarrow> i \<le> j \<Longrightarrow> valid_utf8 (slice doc i j)"
  using valid_append[of "take i doc" "slice doc i j"] take_add[of i "j - i" doc] by (simp add: slice_def)

lemma scan_section_end_ok:
  assumes "valid_utf8 doc" "cmark_offsets cmark" "cmark_underlines cmark"
    and "scan_state doc lo (ci_scanner it)" "lo \<le> length doc" "ci_started it"
    and r: "scan_section_end cmark doc it = (e, it')"
  shows "lo \<le> e" "ahead_ok doc e it'" "same_config it it'" "ci_finished it' = ci_finished it" "ci_section it' = ci_section it"
proof -
  obtain h sc where n: "next_heading cmark doc (ci_scanner it) = (h, sc)" by fastforce
  have it': "it' = it\<lparr>ci_scanner := sc, ci_next_heading := h\<rparr>" and e: "e = (case h of None \<Rightarrow> hs_position sc | Some g \<Rightarrow> hd_start g)"
    using r by (auto simp: scan_section_end_def n)
  have "lo \<le> e \<and> ahead_ok doc e it'"
  proof (cases "hs_eof (ci_scanner it)")
    case True
    then have "h = None" "sc = ci_scanner it" using n by (simp_all add: next_heading_eof)
    then show ?thesis using True assms(1,4,5,6) e by (simp add: it' ahead_ok_def scan_state_def)
  next
    case False
    have "scan_result doc lo (ci_scanner it) (h, sc)" using next_heading_ok[OF assms(1-4) False] n by simp
    then show ?thesis using assms(1,5,6) e
      by (cases h) (auto simp: it' ahead_ok_def scan_result_def heading_ok_def)
  qed
  then show "lo \<le> e" "ahead_ok doc e it'" by auto
qed (use r in \<open>auto simp: scan_section_end_def same_config_def Let_def split: prod.splits\<close>)

lemma enter_config: "enter it h = (start, it1) \<Longrightarrow>
    start = hd_start h \<and> same_config it it1 \<and> ci_started it1 = ci_started it \<and> ci_scanner it1 = ci_scanner it
    \<and> ci_finished it1 = ci_finished it \<and> ci_section it1 = ci_section it"
  by (auto simp: enter_def Let_def same_config_def)

lemma begin_section_ok:
  assumes "begin_section it = Some (start, it1)"
    and "(unstarted_ok doc it \<and> e = 0) \<or> ahead_ok doc e it"
  shows "start = e" "scan_state doc e (ci_scanner it1)" "ci_started it1" "same_config it it1"
    "ci_finished it1 = ci_finished it"
proof -
  have "start = e \<and> scan_state doc e (ci_scanner it1) \<and> ci_started it1 \<and> same_config it it1 \<and> ci_finished it1 = ci_finished it"
  proof (cases "ci_started it")
    case True
    then obtain h where h: "ci_next_heading it = Some h" "enter (it\<lparr>ci_next_heading := None\<rparr>) h = (start, it1)"
      using assms(1) by (auto simp: begin_section_def split: option.splits)
    then show ?thesis using True assms(2) enter_config[OF h(2)]
      by (auto simp: unstarted_ok_def ahead_ok_def same_config_def)
  next
    case False
    then show ?thesis using assms by (auto simp: begin_section_def unstarted_ok_def ahead_ok_def same_config_def)
  qed
  then show "start = e" "scan_state doc e (ci_scanner it1)" "ci_started it1" "same_config it it1"
    "ci_finished it1 = ci_finished it" by auto
qed

definition section_ready :: "string \<Rightarrow> nat \<Rightarrow> chunk_iter \<Rightarrow> bool" where
  "section_ready doc c it \<longleftrightarrow>
     \<not> ci_finished it \<and> (\<exists>se. ci_section it = Some se \<and> section_ok doc c se \<and> c < se_end se \<and> ahead_ok doc (se_end se) it)"

lemma prepare_section_ok:
  "valid_utf8 doc \<Longrightarrow> cmark_offsets cmark \<Longrightarrow> cmark_underlines cmark \<Longrightarrow>
    (unstarted_ok doc it \<and> e = 0) \<or> ahead_ok doc e it \<Longrightarrow> \<not> ci_finished it \<Longrightarrow> prepare_section cmark doc it = (ready, it') \<Longrightarrow>
    same_config it it' \<and> (if ready then section_ready doc e it' else e = length doc \<and> ci_finished it')"
proof (induction cmark doc it arbitrary: it' rule: prepare_section.induct)
  case (1 cmark doc it)
  note cm = 1(2,3,4)
  show ?case
  proof (cases "begin_section it")
    case None
    then have "ci_started it" "ci_next_heading it = None" by (auto simp: begin_section_def split: if_splits option.splits)
    then have "e = length doc" using 1(5) by (auto simp: unstarted_ok_def ahead_ok_def)
    then show ?thesis using 1(7) None by (subst (asm) prepare_section.simps) (auto simp: same_config_def)
  next
    case (Some p)
    obtain start it1 where b: "begin_section it = Some (start, it1)" using Some by (cases p) auto
    note bo = begin_section_ok[OF b 1(5)]
    obtain stop it2 where s: "scan_section_end cmark doc it1 = (stop, it2)" by fastforce
    have el: "e \<le> length doc" "valid_utf8 (take e doc)" using 1(5) by (auto simp: ahead_ok_def)
    note so = scan_section_end_ok[OF cm bo(2) el(1) bo(3) s]
    have cfg: "same_config it it2" using same_config_trans[OF bo(4) so(3)] .
    show ?thesis
    proof (cases "start < stop")
      case True
      let ?r = "it2\<lparr>ci_section := Some (section_new start stop (ci_heading_path it2))\<rparr>"
      have "prepare_section cmark doc it = (True, ?r)"
        using True by (subst prepare_section.simps) (simp add: b s)
      moreover have "section_ready doc e ?r"
        using True bo(1,5) so 1(6) el so(2)[unfolded ahead_ok_def]
        by (simp add: section_ready_def section_ok_def)
      ultimately show ?thesis using 1(7) cfg by (simp add: same_config_def)
    next
      case False
      have p: "prepare_section cmark doc it2 = (ready, it')"
        using False 1(7) by (subst (asm) prepare_section.simps) (simp add: b s)
      have "ahead_ok doc e it2" using so(1,2) bo(1) False by simp
      then have "same_config it2 it' \<and> (if ready then section_ready doc e it' else e = length doc \<and> ci_finished it')"
        using 1(1)[OF b refl s[symmetric] False cm _ _ p] so(4) bo(5) 1(6) by simp
      then show ?thesis using same_config_trans[OF cfg] by auto
    qed
  qed
qed

section \<open>Filling and absorbing\<close>

lemma fill_ok:
  assumes "section_ok doc c se"
  obtains se' where "fill doc se m = Inr se'" "section_ok doc c se'" "se_end se' = se_end se"
    "min (se_end se - c) m \<le> length (se_lookahead se')"
proof -
  let ?l = "length (se_lookahead se)"
  have s: "se_cursor se = c" "c \<le> se_end se" "se_end se \<le> length doc"
    "se_lookahead se = take ?l (slice doc c (se_end se))"
    using assms by (auto simp: section_ok_def)
  have l: "?l \<le> se_end se - c" using s(4) length_slice[OF s(3), of c] by (metis length_take min.cobounded1)
  define req where "req = min (se_end se - (c + ?l)) (m - ?l)"
  show ?thesis
  proof (cases "0 < req")
    case True
    have in_doc: "c + ?l + req \<le> length doc" using True s(2,3) l by (auto simp: req_def)
    have t: "take req (drop (c + ?l) doc) = take req (drop ?l (slice doc c (se_end se)))"
      using l by (auto simp: req_def slice_def drop_take min_def add.commute)
    let ?se = "se\<lparr>se_lookahead := se_lookahead se @ take req (drop (c + ?l) doc)\<rparr>"
    have len: "length (se_lookahead ?se) = ?l + req" using in_doc by simp
    have "se_lookahead ?se = take (?l + req) (slice doc c (se_end se))"
      using s(4) t by (simp add: take_add)
    then have "section_ok doc c ?se" using assms len by (simp add: section_ok_def)
    moreover have "fill doc se m = Inr ?se"
      using True in_doc s(1) by (simp add: fill_def Let_def req_def)
    moreover have "min (se_end se - c) m \<le> ?l + req" using l unfolding req_def by linarith
    ultimately show ?thesis using that[of ?se] len by simp
  next
    case False
    then have "fill doc se m = Inr se" using s(1) by (auto simp: fill_def Let_def req_def)
    then show ?thesis using that[of se] assms False l by (auto simp: req_def)
  qed
qed

lemma lookahead_whole:
  assumes "section_ok doc c se" "se_end se - c \<le> length (se_lookahead se)"
  shows "se_lookahead se = slice doc c (se_end se)"
  using assms length_slice[of "se_end se" doc c] by (metis section_ok_def take_all)

lemma short_span_ok:
  assumes b: "bounds_ok doc it" and s: "section_ok doc c se"
  obtains r se' where "short_span doc se (ci_min_chars it) = Inr (r, se')" "section_ok doc c se'" "se_end se' = se_end se"
    "r = None \<Longrightarrow> ci_min_chars it \<le> char_count (slice doc c (se_end se))"
proof -
  let ?m = "ci_min_chars it" and ?text = "slice doc c (se_end se)"
  have sv: "valid_utf8 ?text" using s by (intro valid_slice) (auto simp: section_ok_def)
  have len: "length ?text = se_end se - c" using s by (simp add: section_ok_def length_slice)
  have lim: "min (?m * 4) (2 ^ 64 - 1) = ?m * 4" using b by (auto simp: bounds_ok_def)
  have cur: "se_cursor se = c" using s by (simp add: section_ok_def)
  show ?thesis
  proof (cases "?m * 4 \<le> se_end se - c")
    case True
    have "?m \<le> char_count ?text" using valid_length_le[OF sv] True len by (simp add: char_count_def)
    then show ?thesis using that[of None se] s True lim cur by (simp add: short_span_def)
  next
    case False
    obtain se' where f: "fill doc se (se_end se - c) = Inr se'" "section_ok doc c se'" "se_end se' = se_end se"
      "min (se_end se - c) (se_end se - c) \<le> length (se_lookahead se')" using fill_ok[OF s, of "se_end se - c"] by blast
    have "se_lookahead se' = ?text" using lookahead_whole[OF f(2)] f(3,4) by simp
    then have "short_span doc se ?m = Inr (if char_count ?text < ?m then Some (trim ?text = []) else None, se')"
      using False lim cur f(1) sv by (simp add: short_span_def)
    then show ?thesis using that[OF _ f(2,3)] by (auto split: if_splits)
  qed
qed

lemma extend_section_ok:
  assumes cm: "valid_utf8 doc" "cmark_offsets cmark" "cmark_underlines cmark"
    and a: "ahead_ok doc (se_end se) it" "ci_next_heading it = Some h" "section_ok doc c se" "c < se_end se" "\<not> ci_finished it"
  shows "section_ready doc c (extend_section cmark doc it h se blank)" "same_config it (extend_section cmark doc it h se blank)"
proof -
  obtain start it1 where e: "enter (it\<lparr>ci_next_heading := None\<rparr>) h = (start, it1)" by fastforce
  obtain stop it2 where s: "scan_section_end cmark doc it1 = (stop, it2)" by fastforce
  have b: "begin_section it = Some (start, it1)" using a(1,2) e by (simp add: begin_section_def ahead_ok_def)
  note bo = begin_section_ok[OF b disjI2[OF a(1)]]
  have el: "se_end se \<le> length doc" using a(1) by (simp add: ahead_ok_def)
  note so = scan_section_end_ok[OF cm bo(2) el bo(3) s]
  let ?r = "extend_section cmark doc it h se blank"
  obtain bs where r: "?r = it2\<lparr>ci_section := Some (se\<lparr>se_end := stop, se_boundaries := bs\<rparr>)\<rparr>"
    by (simp add: extend_section_def e s Let_def)
  show "same_config it ?r" using same_config_trans[OF bo(4) so(3)] by (simp add: r same_config_def)
  let ?l = "length (se_lookahead se)"
  have c: "c \<le> se_end se" "se_lookahead se = take ?l (slice doc c (se_end se))" using a(3) by (auto simp: section_ok_def)
  have "se_lookahead se = take ?l (slice doc c stop)"
  proof -
    have "take ?l (slice doc c (se_end se)) = take (min ?l (se_end se - c)) (drop c doc)" by (simp add: slice_def)
    moreover have "?l \<le> se_end se - c" using c(2) length_slice[OF el, of c] by (metis length_take min.cobounded1)
    ultimately show ?thesis using c(2) so(1) by (simp add: slice_def min_def)
  qed
  then have "section_ok doc c (se\<lparr>se_end := stop, se_boundaries := bs\<rparr>)"
    using a(3) so(1,2) c(1) by (simp add: section_ok_def ahead_ok_def)
  then show "section_ready doc c ?r"
    using so a(4,5) bo(5) by (simp add: r section_ready_def)
qed

lemma absorb_ok:
  "valid_utf8 doc \<Longrightarrow> cmark_offsets cmark \<Longrightarrow> cmark_underlines cmark \<Longrightarrow> section_ready doc c it \<Longrightarrow> bounds_ok doc it \<Longrightarrow>
    \<exists>it'. absorb_short_span cmark doc it = Inr it' \<and> section_ready doc c it' \<and> same_config it it'
      \<and> (\<forall>se. ci_section it' = Some se \<longrightarrow> se_end se = length doc \<or> ci_min_chars it \<le> char_count (slice doc c (se_end se)))"
proof (induction cmark doc it rule: absorb_short_span.induct)
  case (1 cmark doc it)
  note cm = 1(2,3,4)
  obtain se where se: "ci_section it = Some se" "section_ok doc c se" "c < se_end se" "ahead_ok doc (se_end se) it" "\<not> ci_finished it"
    using 1(5) by (auto simp: section_ready_def)
  show ?case
  proof (cases "ci_next_heading it")
    case None
    then have "absorb_short_span cmark doc it = Inr it" by (subst absorb_short_span.simps) simp
    then show ?thesis using 1(5) se None by (auto simp: ahead_ok_def)
  next
    case (Some h)
    obtain r se' where sp: "short_span doc se (ci_min_chars it) = Inr (r, se')" "section_ok doc c se'" "se_end se' = se_end se"
      "r = None \<Longrightarrow> ci_min_chars it \<le> char_count (slice doc c (se_end se))"
      using short_span_ok[OF 1(6) se(2)] by blast
    show ?thesis
    proof (cases r)
      case None
      have "absorb_short_span cmark doc it = Inr (it\<lparr>ci_section := Some se'\<rparr>)"
        using Some se(1) sp(1) None by (subst absorb_short_span.simps) simp
      moreover have "section_ready doc c (it\<lparr>ci_section := Some se'\<rparr>)"
        using sp(2,3) se by (simp add: section_ready_def)
      ultimately show ?thesis using sp(3,4) None by (simp add: same_config_def)
    next
      case blank: (Some blank)
      let ?it = "extend_section cmark doc it h se' blank"
      have st: "absorb_short_span cmark doc it = absorb_short_span cmark doc ?it"
        using Some se(1) sp(1) blank by (subst absorb_short_span.simps) simp
      have ah: "ahead_ok doc (se_end se') it" "c < se_end se'" using se sp(3) by simp_all
      note ex = extend_section_ok[OF cm ah(1) Some sp(2) ah(2) se(5)]
      obtain it' where it': "absorb_short_span cmark doc ?it = Inr it'" "section_ready doc c it'" "same_config ?it it'"
        "\<forall>se. ci_section it' = Some se \<longrightarrow> se_end se = length doc \<or> ci_min_chars ?it \<le> char_count (slice doc c (se_end se))"
        using 1(1)[OF Some se(1) sp(1) refl blank cm ex(1)] same_config_bounds[OF ex(2)] 1(6) by blast
      show ?thesis using st it' same_config_trans[OF ex(2) it'(3)] ex(2) by (auto simp: same_config_def)
    qed
  qed
qed

section \<open>One piece\<close>

text \<open>The piece of the file from \<open>c\<close> to \<open>c'\<close>, as a chunk.\<close>

definition piece_at :: "string \<Rightarrow> nat \<Rightarrow> nat \<Rightarrow> nat \<Rightarrow> chunk \<Rightarrow> bool" where
  "piece_at doc base c c' ck \<longleftrightarrow>
     c < c' \<and> c' \<le> length doc \<and> ck_text ck = slice doc c c' \<and> ck_byte_start ck = base + c \<and> ck_byte_end ck = base + c'
     \<and> valid_utf8 (take c doc) \<and> valid_utf8 (take c' doc)"

lemma section_heading_path_frame:
  "section_heading_path se = (p, se') \<Longrightarrow>
     se_cursor se' = se_cursor se \<and> se_end se' = se_end se \<and> se_lookahead se' = se_lookahead se"
  by (auto simp: section_heading_path_def Let_def)

text \<open>How much of a filled window is text: all of it when the section ends in it, else enough for a full piece.\<close>

lemma window_ok:
  assumes s: "section_ok doc c se" "c < se_end se" and doc: "valid_utf8 doc"
    and f: "min (se_end se - c) (m * 4) \<le> length (se_lookahead se)" "1 \<le> m"
  obtains n where
    "window_text_len se = Inr n"
    "0 < n" "n \<le> length (se_lookahead se)" "n \<le> se_end se - c" "valid_utf8 (take n (se_lookahead se))"
    "n \<noteq> se_end se - c \<Longrightarrow> m \<le> char_count (take n (se_lookahead se))"
    "take n (se_lookahead se) = slice doc c (c + n)"
proof -
  let ?a = "se_lookahead se" and ?sl = "slice doc c (se_end se)"
  have sv: "valid_utf8 ?sl" using s(1) by (intro valid_slice) (auto simp: section_ok_def)
  have len: "length ?sl = se_end se - c" using s(1) by (simp add: section_ok_def length_slice)
  have a: "?a = take (length ?a) ?sl" using s(1) by (simp add: section_ok_def)
  then have al: "length ?a \<le> se_end se - c" using len by (metis length_take min.cobounded1)
  have pre: "valid_utf8 (?a @ drop (length ?a) ?sl)" using sv a by (metis append_take_drop_id)
  define n where "n = valid_up_to ?a"
  note vu = valid_up_to_prefix[OF pre, folded n_def]
  have case_n: "window_text_len se = Inr n"
    using prefix_of_valid[OF pre] by (auto simp: n_def valid_up_to_def window_text_len_def)
  have full: "n = se_end se - c" if "length ?a = se_end se - c"
  proof -
    have "valid_utf8 ?a" using a that len sv by (metis take_all order_refl)
    then show ?thesis using that by (simp add: n_def valid_up_to_def valid_utf8_def)
  qed
  have big: "m * 4 \<le> length ?a" if "n \<noteq> se_end se - c" using full that f(1) al by (auto simp: min_def split: if_splits)
  have "0 < n" using big vu(2) s(2) f(2) by (cases "n = se_end se - c") auto
  moreover have "m \<le> char_count (take n ?a)" if "n \<noteq> se_end se - c"
    using valid_length_le[OF vu(3)] big[OF that] vu(1,2) by (simp add: char_count_def)
  moreover have "take n ?a = slice doc c (c + n)"
  proof -
    have "take n ?a = take n ?sl" using a vu(1) by (metis min.absorb1 take_take)
    then show ?thesis using vu(1) al by (simp add: slice_def min_def)
  qed
  ultimately show ?thesis using that[of n] case_n vu(1,3) al by simp
qed

lemma cut_section_ok:
  assumes s: "section_ok doc c se" "c < se_end se" and doc: "valid_utf8 doc" and b: "bounds_ok doc it"
    and f: "min (se_end se - c) (ci_max_chars it * 4) \<le> length (se_lookahead se)"
  obtains ck c' se' where "cut_section it se = Inr (ck, it\<lparr>ci_section := Some se'\<rparr>)"
    "piece_at doc (ci_base it) c c' ck" "section_ok doc c' se'" "se_end se' = se_end se"
    "char_count (ck_text ck) \<le> ci_max_chars it"
    "ci_min_chars it \<le> char_count (ck_text ck) \<or> c' = se_end se"
proof -
  let ?a = "se_lookahead se" and ?max = "ci_max_chars it" and ?min = "ci_min_chars it"
  have bd: "1 \<le> ?max" "?min \<le> ?max div 4" "ci_base it + length doc < 2 ^ 64" using b by (auto simp: bounds_ok_def)
  obtain n where n: "window_text_len se = Inr n"
    "0 < n" "n \<le> length ?a" "n \<le> se_end se - c" "valid_utf8 (take n ?a)"
    "n \<noteq> se_end se - c \<Longrightarrow> ?max \<le> char_count (take n ?a)" "take n ?a = slice doc c (c + n)"
    using window_ok[OF s doc f bd(1)] by blast
  let ?body = "take n ?a" and ?done = "se_end se - c = n"
  have ne: "?body \<noteq> []" using n(2,3) by auto
  obtain k where k: "split_byte ?body ?max ?min ?done = length (concat (take k (utf8_chars ?body)))"
    "1 \<le> k" "k \<le> ?max" "k \<le> char_count ?body" "?min \<le> k \<or> (?done \<and> k = char_count ?body)"
    using split_byte_ok[OF ne bd(1,2), of ?done] n(6) by blast
  define sp where "sp = length (concat (take k (utf8_chars ?body)))"
  have t: "take sp ?body = concat (take k (utf8_chars ?body))" unfolding sp_def by (rule take_chars_bytes)
  have spn: "sp \<le> n" using t n(3) by (metis length_take min.bounded_iff nat_le_linear sp_def take_all_iff)
  have ta: "take sp ?a = concat (take k (utf8_chars ?body))" using t spn by simp
  have tv: "valid_utf8 (take sp ?a)" and tc: "utf8_chars (take sp ?a) = take k (utf8_chars ?body)"
    using valid_take_chars[OF n(5), of k] by (simp_all add: ta)
  have chars: "char_count (take sp ?a) = k" using k(4) by (simp add: char_count_def tc)
  have "sp \<noteq> 0" using k(2) chars by (cases sp) (auto simp: char_count_def)
  have slice: "take sp ?a = slice doc c (c + sp)"
    using t spn n(7) ta by (simp add: slice_def min_def)
  obtain p se1 where hp: "section_heading_path se = (p, se1)" by fastforce
  note fr = section_heading_path_frame[OF hp]
  have sc: "se_cursor se = c" "se_end se \<le> length doc" "valid_utf8 (take c doc)" using s(1) by (auto simp: section_ok_def)
  have in_doc: "c + sp \<le> se_end se" using spn n(4) s(2) by simp
  let ?se = "se1\<lparr>se_cursor := c + sp, se_lookahead := drop sp ?a\<rparr>"
  let ?ck = "\<lparr>ck_text = take sp ?a, ck_byte_start = ci_base it + c, ck_byte_end = ci_base it + (c + sp), ck_heading_path = p\<rparr>"
  have cut: "cut_section it se = Inr (?ck, it\<lparr>ci_section := Some ?se\<rparr>)"
    using n(2) k(1) tv bd(3) in_doc sc
    by (simp add: cut_section_def Let_def n(1) hp fr absolute_offset_def sp_def[symmetric])
  have vc': "valid_utf8 (take (c + sp) doc)" using valid_take_add[OF sc(3), of sp] tv slice by (simp add: slice_def)
  have "piece_at doc (ci_base it) c (c + sp) ?ck"
    using \<open>sp \<noteq> 0\<close> in_doc sc slice vc' by (simp add: piece_at_def)
  moreover have "section_ok doc (c + sp) ?se"
  proof -
    have "?a = take (length ?a) (slice doc c (se_end se))" using s(1) by (simp add: section_ok_def)
    then have "drop sp ?a = take (length ?a - sp) (drop sp (slice doc c (se_end se)))" by (metis drop_take)
    then have rest: "take (length ?a - sp) (slice doc (c + sp) (se_end se)) = drop sp ?a"
      by (simp add: slice_def drop_take add.commute)
    show ?thesis using s(1) in_doc vc' fr by (simp add: section_ok_def rest)
  qed
  moreover have "?min \<le> char_count (ck_text ?ck) \<or> c + sp = se_end se"
  proof (cases "?min \<le> k")
    case False
    then have "?done" "k = char_count ?body" using k(5) by auto
    then have "sp = n" using ta n(3) by (simp add: sp_def char_count_def)
    then have "c + sp = se_end se" using \<open>?done\<close> s(2) by linarith
    then show ?thesis by blast
  qed (simp add: chars)
  ultimately show ?thesis using that[OF cut] k(3) chars fr by simp
qed

lemma next_chunk_ok:
  assumes cm: "valid_utf8 doc" "cmark_offsets cmark" "cmark_underlines cmark" and it: "iter_ok doc c it"
  shows "(c = length doc \<and> (\<exists>it'. next_chunk cmark doc it = Inr (None, it') \<and> same_config it it' \<and> ci_finished it'))
    \<or> (\<exists>ck c' it'. next_chunk cmark doc it = Inr (Some ck, it') \<and> same_config it it' \<and> iter_ok doc c' it'
         \<and> piece_at doc (ci_base it) c c' ck \<and> char_count (ck_text ck) \<le> ci_max_chars it
         \<and> (ci_min_chars it \<le> char_count (ck_text ck) \<or> c' = length doc))"
proof -
  have b: "bounds_ok doc it" "\<not> ci_finished it" using it by (auto simp: iter_ok_def)
  obtain ready it1 where r: "(case ci_section it of None \<Rightarrow> prepare_section cmark doc it
           | Some se \<Rightarrow> if se_cursor se = se_end se then prepare_section cmark doc it else (True, it)) = (ready, it1)" by fastforce
  have p: "same_config it it1 \<and> (if ready then section_ready doc c it1 else c = length doc \<and> ci_finished it1)"
  proof (cases "ci_section it")
    case None
    then have "prepare_section cmark doc it = (ready, it1)" "unstarted_ok doc it \<and> c = 0" using r it by (auto simp: iter_ok_def)
    then show ?thesis using prepare_section_ok[OF cm _ b(2)] by blast
  next
    case (Some se)
    then have so: "section_ok doc c se" "ahead_ok doc (se_end se) it" using it by (auto simp: iter_ok_def)
    show ?thesis
    proof (cases "se_cursor se = se_end se")
      case True
      then have "prepare_section cmark doc it = (ready, it1)" "ahead_ok doc c it" using r Some so by (auto simp: section_ok_def)
      then show ?thesis using prepare_section_ok[OF cm _ b(2)] by blast
    next
      case False
      then have "ready" "it1 = it" "c < se_end se" using r Some so(1) by (auto simp: section_ok_def)
      then show ?thesis using Some so b(2) by (auto simp: section_ready_def)
    qed
  qed
  show ?thesis
  proof (cases ready)
    case False
    then have "next_chunk cmark doc it = Inr (None, it1)" using b(2) by (simp add: next_chunk_def r)
    then show ?thesis using p False by auto
  next
    case True
    then have p1: "same_config it it1" "section_ready doc c it1" using p by auto
    obtain it2 where ab: "absorb_short_span cmark doc it1 = Inr it2" "section_ready doc c it2" "same_config it1 it2"
      "\<forall>se. ci_section it2 = Some se \<longrightarrow> se_end se = length doc \<or> ci_min_chars it1 \<le> char_count (slice doc c (se_end se))"
      using absorb_ok[OF cm p1(2)] b(1) same_config_bounds[OF p1(1)] by blast
    have c2: "same_config it it2" using same_config_trans[OF p1(1) ab(3)] .
    obtain se where se: "ci_section it2 = Some se" "section_ok doc c se" "c < se_end se" "ahead_ok doc (se_end se) it2" "\<not> ci_finished it2"
      using ab(2) by (auto simp: section_ready_def)
    obtain se' where fi: "fill doc se (ci_max_read_bytes it2) = Inr se'" "section_ok doc c se'" "se_end se' = se_end se"
      "min (se_end se - c) (ci_max_read_bytes it2) \<le> length (se_lookahead se')" using fill_ok[OF se(2)] by blast
    have b2: "bounds_ok doc it2" "ci_max_read_bytes it2 = ci_max_chars it2 * 4"
      using b(1) same_config_bounds[OF c2] by (auto simp: bounds_ok_def)
    obtain ck c' se'' where cut: "cut_section it2 se' = Inr (ck, it2\<lparr>ci_section := Some se''\<rparr>)"
      "piece_at doc (ci_base it2) c c' ck" "section_ok doc c' se''" "se_end se'' = se_end se'"
      "char_count (ck_text ck) \<le> ci_max_chars it2" "ci_min_chars it2 \<le> char_count (ck_text ck) \<or> c' = se_end se'"
      using cut_section_ok[OF fi(2) _ cm(1) b2(1)] se(3) fi(3,4) b2(2) by metis
    have nc: "next_chunk cmark doc it = Inr (Some ck, it2\<lparr>ci_section := Some se''\<rparr>)"
      using b(2) True r ab(1) se(1) fi(1) cut(1) by (simp add: next_chunk_def)
    have "iter_ok doc c' (it2\<lparr>ci_section := Some se''\<rparr>)"
      using cut(3,4) fi(3) se(4,5) b2(1) by (simp add: iter_ok_def bounds_ok_def)
    moreover have "ci_min_chars it \<le> char_count (ck_text ck) \<or> c' = length doc"
    proof (cases "c' = se_end se")
      case True
      then show ?thesis using ab(4) se(1) cut(2) p1(1) by (auto simp: piece_at_def same_config_def)
    qed (use cut(6) fi(3) c2 in \<open>auto simp: same_config_def\<close>)
    ultimately show ?thesis using nc cut(2,5) c2 by (auto simp: same_config_def)
  qed
qed

section \<open>The held chunk does not influence the pieces\<close>

abbreviation holding :: "chunk option \<Rightarrow> chunk_iter \<Rightarrow> chunk_iter" where
  "holding h it \<equiv> it\<lparr>ci_held := h\<rparr>"

lemma scan_section_end_held: "scan_section_end cmark doc (holding h it) = map_prod id (holding h) (scan_section_end cmark doc it)"
  by (auto simp: scan_section_end_def Let_def split: prod.splits)

lemma begin_section_held: "begin_section (holding h it) = map_option (map_prod id (holding h)) (begin_section it)"
  by (auto simp: begin_section_def enter_def Let_def split: option.splits)

lemma prepare_section_held: "prepare_section cmark doc (holding h it) = map_prod id (holding h) (prepare_section cmark doc it)"
proof (induction cmark doc it rule: prepare_section.induct)
  case (1 cmark doc it)
  show ?case
  proof (cases "begin_section it")
    case None
    then show ?thesis by (simp add: prepare_section.simps[of cmark doc it] prepare_section.simps[of cmark doc "holding h it"] begin_section_held)
  next
    case (Some p)
    obtain start it1 where p: "p = (start, it1)" by fastforce
    obtain stop it2 where s: "scan_section_end cmark doc it1 = (stop, it2)" by fastforce
    have "\<not> start < stop \<Longrightarrow> prepare_section cmark doc (holding h it2) = map_prod id (holding h) (prepare_section cmark doc it2)"
      by (rule 1[OF Some p[symmetric] s[symmetric]])
    then show ?thesis using Some p s
      by (simp add: prepare_section.simps[of cmark doc it] prepare_section.simps[of cmark doc "holding h it"] begin_section_held scan_section_end_held id_def)
  qed
qed

lemma extend_section_held: "extend_section cmark doc (holding h it) g se b = holding h (extend_section cmark doc it g se b)"
proof -
  obtain start it1 where e: "enter (it\<lparr>ci_next_heading := None\<rparr>) g = (start, it1)" by fastforce
  then have "enter ((holding h it)\<lparr>ci_next_heading := None\<rparr>) g = (start, holding h it1)" by (auto simp: enter_def Let_def)
  moreover obtain stop it2 where "scan_section_end cmark doc it1 = (stop, it2)" by fastforce
  ultimately show ?thesis using e by (simp add: extend_section_def scan_section_end_held Let_def)
qed

lemma absorb_held: "absorb_short_span cmark doc (holding h it) = res_map (holding h) (absorb_short_span cmark doc it)"
proof (induction cmark doc it rule: absorb_short_span.induct)
  case (1 cmark doc it)
  show ?case
    by (subst (1 2) absorb_short_span.simps) (use 1 in \<open>auto simp: extend_section_held split: option.splits sum.splits prod.splits\<close>)
qed

lemma cut_section_held: "cut_section (holding h it) se = res_map (map_prod id (holding h)) (cut_section it se)"
  by (cases "window_text_len se"; cases "section_heading_path se")
    (auto simp: cut_section_def Let_def absolute_offset_def)

lemma next_chunk_held: "next_chunk cmark doc (holding h it) = res_map (map_prod id (holding h)) (next_chunk cmark doc it)"
proof (cases "ci_finished it")
  case True
  then show ?thesis by (simp add: next_chunk_def)
next
  case False
  obtain ready it1 where r: "(case ci_section it of None \<Rightarrow> prepare_section cmark doc it
           | Some se \<Rightarrow> if se_cursor se = se_end se then prepare_section cmark doc it else (True, it)) = (ready, it1)" by fastforce
  then have r': "(case ci_section (holding h it) of None \<Rightarrow> prepare_section cmark doc (holding h it)
           | Some se \<Rightarrow> if se_cursor se = se_end se then prepare_section cmark doc (holding h it) else (True, holding h it)) = (ready, holding h it1)"
    by (auto simp: prepare_section_held split: option.splits if_splits)
  show ?thesis
  proof (cases "absorb_short_span cmark doc it1")
    case (Inl e)
    then show ?thesis unfolding next_chunk_def r r' using False by (simp add: absorb_held)
  next
    case (Inr it2)
    have cut: "res_map (\<lambda>(c, it3). (Some c, it3)) (cut_section (holding h it2) se)
        = res_map (map_prod id (holding h)) (res_map (\<lambda>(c, it3). (Some c, it3)) (cut_section it2 se))" for se
      by (cases "cut_section it2 se") (auto simp: cut_section_held)
    show ?thesis unfolding next_chunk_def r r' using False Inr
      by (cases "ci_section it2"; cases "fill doc (the (ci_section it2)) (ci_max_read_bytes it2)")
        (simp_all add: absorb_held cut)
  qed
qed

section \<open>Merging\<close>

text \<open>
  The chunks an iterator hands out until it ends, leaving it finished: a derivation exists only when the
  iteration ends without an error.
\<close>

inductive yields :: "markdown_parser \<Rightarrow> string \<Rightarrow> chunk_iter \<Rightarrow> chunk list \<Rightarrow> bool" for cmark doc where
  yields_end: "chunk_next cmark doc it = Some (None, it') \<Longrightarrow> ci_finished it' \<Longrightarrow> ci_held it' = None \<Longrightarrow> yields cmark doc it []"
| yields_more: "chunk_next cmark doc it = Some (Some (Inr c), it') \<Longrightarrow> yields cmark doc it' cs \<Longrightarrow> yields cmark doc it (c # cs)"

text \<open>The same merging as a function of the list of pieces.\<close>

fun merge_pieces :: "nat \<Rightarrow> nat \<Rightarrow> chunk option \<Rightarrow> chunk list \<Rightarrow> chunk list" where
  "merge_pieces mx mn None [] = []"
| "merge_pieces mx mn (Some h) [] = (if 0 < mn \<and> trim (ck_text h) = [] then [] else [h])"
| "merge_pieces mx mn None (p # ps) = merge_pieces mx mn (Some p) ps"
| "merge_pieces mx mn (Some h) (p # ps) =
     (if mergeable mx mn h p then merge_pieces mx mn (Some (join_chunks h p)) ps
      else (if 0 < mn \<and> trim (ck_text h) = [] then [] else [h]) @ merge_pieces mx mn (Some p) ps)"

text \<open>Pieces that lie end to end from \<open>c\<close> to the end of the file.\<close>

fun tiles :: "string \<Rightarrow> nat \<Rightarrow> nat \<Rightarrow> nat \<Rightarrow> nat \<Rightarrow> chunk list \<Rightarrow> bool" where
  "tiles doc base mx mn c [] \<longleftrightarrow> c = length doc"
| "tiles doc base mx mn c (p # ps) \<longleftrightarrow>
     (\<exists>c'. piece_at doc base c c' p \<and> char_count (ck_text p) \<le> mx \<and> (mn \<le> char_count (ck_text p) \<or> c' = length doc)
        \<and> tiles doc base mx mn c' ps)"

lemma yields_next_merged:
  assumes "next_merged cmark doc it = next_merged cmark doc it2"
  shows "yields cmark doc it cs \<longleftrightarrow> yields cmark doc it2 cs"
  using assms by (subst (1 2) yields.simps) (simp add: chunk_next_def)

lemma yields_finished: "ci_finished it \<Longrightarrow> ci_held it = None \<Longrightarrow> yields cmark doc it []"
  by (intro yields_end[where it' = "holding None it"]) (simp_all add: chunk_next_def next_merged.simps[of cmark doc it] next_chunk_def)

lemma yields_emit:
  assumes "next_merged cmark doc it = (if is_dropped it2 h then next_merged cmark doc it2 else Some (Inr (Some h, it2)))"
    and "yields cmark doc it2 cs"
  shows "yields cmark doc it ((if 0 < ci_min_chars it2 \<and> trim (ck_text h) = [] then [] else [h]) @ cs)"
proof (cases "is_dropped it2 h")
  case True
  then show ?thesis using assms yields_next_merged[of cmark doc it it2] by (simp add: is_dropped_def)
next
  case False
  then have "chunk_next cmark doc it = Some (Some (Inr h), it2)" using assms(1) by (simp add: chunk_next_def)
  then show ?thesis using False assms(2) by (auto simp: is_dropped_def intro: yields_more)
qed

lemma yields_merge_pieces:
  assumes cm: "valid_utf8 doc" "cmark_offsets cmark" "cmark_underlines cmark"
  shows "iter_ok doc c it \<Longrightarrow>
    \<exists>ps. tiles doc (ci_base it) (ci_max_chars it) (ci_min_chars it) c ps
      \<and> (\<forall>h. yields cmark doc (holding h it) (merge_pieces (ci_max_chars it) (ci_min_chars it) h ps))"
proof (induction "length doc - c" arbitrary: c it rule: less_induct)
  case less
  let ?mx = "ci_max_chars it" and ?mn = "ci_min_chars it"
  consider (ended) it' where "c = length doc" "next_chunk cmark doc it = Inr (None, it')" "same_config it it'" "ci_finished it'"
    | (more) ck c' it' where "next_chunk cmark doc it = Inr (Some ck, it')" "same_config it it'" "iter_ok doc c' it'"
      "piece_at doc (ci_base it) c c' ck" "char_count (ck_text ck) \<le> ?mx" "?mn \<le> char_count (ck_text ck) \<or> c' = length doc"
    using next_chunk_ok[OF cm less.prems] by blast
  then show ?case
  proof cases
    case e: ended
    have n: "next_chunk cmark doc (holding h it) = Inr (None, holding h it')" for h by (simp add: next_chunk_held e(2))
    have "yields cmark doc (holding h it) (merge_pieces ?mx ?mn h [])" for h
    proof (cases h)
      case None
      have "chunk_next cmark doc (holding h it) = Some (None, holding None it')"
        using None by (simp add: chunk_next_def next_merged.simps[of cmark doc "holding None it"] n)
      then show ?thesis using None e(4) by (simp add: yields_end)
    next
      case (Some g)
      have "next_merged cmark doc (holding h it) =
          (if is_dropped (holding None it') g then next_merged cmark doc (holding None it') else Some (Inr (Some g, holding None it')))"
        using Some by (simp add: next_merged.simps[of cmark doc "holding (Some g) it"] n)
      from yields_emit[OF this yields_finished] show ?thesis using Some e(3,4) by (simp add: same_config_def)
    qed
    then show ?thesis using e(1) by (intro exI[of _ "[]"]) simp
  next
    case m: more
    have n: "next_chunk cmark doc (holding h it) = Inr (Some ck, holding h it')" for h by (simp add: next_chunk_held m(1))
    have cfg: "ci_base it' = ci_base it" "ci_max_chars it' = ?mx" "ci_min_chars it' = ?mn" using m(2) by (auto simp: same_config_def)
    obtain ps where ps: "tiles doc (ci_base it) ?mx ?mn c' ps" "\<And>h. yields cmark doc (holding h it') (merge_pieces ?mx ?mn h ps)"
    proof -
      have "length doc - c' < length doc - c" using m(4) by (auto simp: piece_at_def)
      from less.hyps[OF this m(3)] show thesis using cfg that by auto
    qed
    have "yields cmark doc (holding h it) (merge_pieces ?mx ?mn h (ck # ps))" for h
    proof (cases h)
      case None
      then have "next_merged cmark doc (holding h it) = next_merged cmark doc (holding (Some ck) it')"
        by (simp add: next_merged.simps[of cmark doc "holding None it"] n)
      from yields_next_merged[OF this] show ?thesis using None ps(2)[of "Some ck"] by simp
    next
      case (Some g)
      show ?thesis
      proof (cases "mergeable ?mx ?mn g ck")
        case True
        then have "next_merged cmark doc (holding h it) = next_merged cmark doc (holding (Some (join_chunks g ck)) it')"
          using Some by (simp add: next_merged.simps[of cmark doc "holding (Some g) it"] n cfg)
        from yields_next_merged[OF this] show ?thesis using Some True ps(2)[of "Some (join_chunks g ck)"] by simp
      next
        case False
        then have "next_merged cmark doc (holding h it) = (if is_dropped (holding (Some ck) it') g
            then next_merged cmark doc (holding (Some ck) it') else Some (Inr (Some g, holding (Some ck) it')))"
          using Some by (simp add: next_merged.simps[of cmark doc "holding (Some g) it"] n cfg Let_def)
        from yields_emit[OF this ps(2)] show ?thesis using Some False cfg by simp
      qed
    qed
    then show ?thesis using m(4,5,6) ps(1) by (intro exI[of _ "ck # ps"]) auto
  qed
qed

section \<open>What the chunks are\<close>

text \<open>
  \<open>chunked\<close> is the contract of the chunker's documentation: from \<open>c\<close> on, the chunks are slices of the
  file with their true offsets, in order and without overlap; between them, before and after there is
  only white space (nothing at all when merging is off); no chunk is longer than \<open>mx\<close> characters, none is
  blank, and only the last may be shorter than \<open>mn\<close>.
\<close>

fun chunked :: "string \<Rightarrow> nat \<Rightarrow> nat \<Rightarrow> nat \<Rightarrow> nat \<Rightarrow> chunk list \<Rightarrow> bool" where
  "chunked doc base mx mn c [] \<longleftrightarrow> trim (slice doc c (length doc)) = [] \<and> (mn = 0 \<longrightarrow> c = length doc)"
| "chunked doc base mx mn c (k # ks) \<longleftrightarrow>
     (\<exists>a b. c \<le> a \<and> trim (slice doc c a) = [] \<and> (mn = 0 \<longrightarrow> a = c)
        \<and> piece_at doc base a b k \<and> char_count (ck_text k) \<le> mx
        \<and> (0 < mn \<longrightarrow> trim (ck_text k) \<noteq> []) \<and> (ks \<noteq> [] \<longrightarrow> mn \<le> char_count (ck_text k))
        \<and> chunked doc base mx mn b ks)"

lemma blank_append: "valid_utf8 a \<Longrightarrow> valid_utf8 b \<Longrightarrow> trim (a @ b) = [] \<longleftrightarrow> trim a = [] \<and> trim b = []"
  using valid_append[of a b] by (auto simp: trim_Nil_iff utf8_chars_append)

lemma char_count_append: "valid_utf8 b \<Longrightarrow> char_count (a @ b) = char_count a + char_count b"
  by (simp add: char_count_def utf8_chars_append)

lemma blank_slice:
  assumes "valid_utf8 (take g doc)" "valid_utf8 (take a doc)" "valid_utf8 (take c doc)" "g \<le> a" "a \<le> c"
    and "trim (slice doc g a) = []" "trim (slice doc a c) = []"
  shows "trim (slice doc g c) = []"
  using blank_append[of "slice doc g a" "slice doc a c"] valid_slice[OF assms(1,2,4)] valid_slice[OF assms(2,3,5)]
    slice_append[OF assms(4,5), of doc] assms(6,7) by simp

lemma join_piece:
  assumes "piece_at doc base a c h" "piece_at doc base c c' p"
  shows "piece_at doc base a c' (join_chunks h p)" "char_count (ck_text (join_chunks h p)) = char_count (ck_text h) + char_count (ck_text p)"
proof -
  have t: "ck_text (join_chunks h p) = ck_text h @ ck_text p" "ck_byte_start (join_chunks h p) = ck_byte_start h"
    "ck_byte_end (join_chunks h p) = ck_byte_end p" by (simp_all add: join_chunks_def)
  then show "piece_at doc base a c' (join_chunks h p)"
    using assms slice_append[of a c c' doc] by (auto simp: piece_at_def)
  have "valid_utf8 (ck_text p)" using assms(2) valid_slice[of c doc c'] by (auto simp: piece_at_def)
  then show "char_count (ck_text (join_chunks h p)) = char_count (ck_text h) + char_count (ck_text p)"
    by (simp add: t(1) char_count_append)
qed

lemma chunked_emit:
  assumes h: "piece_at doc base a c h" "char_count (ck_text h) \<le> mx" "ks \<noteq> [] \<Longrightarrow> mn \<le> char_count (ck_text h)"
    and g: "g \<le> a" "trim (slice doc g a) = []" "mn = 0 \<Longrightarrow> a = g" "valid_utf8 (take g doc)"
    and rest: "\<And>g'. g' \<le> c \<Longrightarrow> trim (slice doc g' c) = [] \<Longrightarrow> (mn = 0 \<Longrightarrow> c = g') \<Longrightarrow> valid_utf8 (take g' doc) \<Longrightarrow> chunked doc base mx mn g' ks"
  shows "chunked doc base mx mn g ((if 0 < mn \<and> trim (ck_text h) = [] then [] else [h]) @ ks)"
proof (cases "0 < mn \<and> trim (ck_text h) = []")
  case True
  have "trim (slice doc g c) = []"
    by (rule blank_slice[of g doc a c]) (use h(1) g True in \<open>auto simp: piece_at_def\<close>)
  then show ?thesis using rest[of g] True g h(1) by (simp add: piece_at_def)
next
  case False
  have "chunked doc base mx mn c ks" using rest[of c] h(1) by (simp add: piece_at_def trim_def trim_start_def trim_end_def)
  then show ?thesis using False h g by auto
qed

lemma merge_chunked:
  "piece_at doc base a c h \<Longrightarrow> char_count (ck_text h) \<le> mx \<Longrightarrow> mn \<le> char_count (ck_text h) \<or> c = length doc \<Longrightarrow>
   g \<le> a \<Longrightarrow> trim (slice doc g a) = [] \<Longrightarrow> (mn = 0 \<longrightarrow> a = g) \<Longrightarrow> valid_utf8 (take g doc) \<Longrightarrow>
   tiles doc base mx mn c ps \<Longrightarrow> chunked doc base mx mn g (merge_pieces mx mn (Some h) ps)"
proof (induction ps arbitrary: a c h g)
  case Nil
  have "chunked doc base mx mn g ((if 0 < mn \<and> trim (ck_text h) = [] then [] else [h]) @ [])"
    by (rule chunked_emit[OF Nil(1,2) _ Nil(4,5) _ Nil(7)]) (use Nil in auto)
  then show ?case by simp
next
  case (Cons p ps)
  obtain c' where p: "piece_at doc base c c' p" "char_count (ck_text p) \<le> mx" "mn \<le> char_count (ck_text p) \<or> c' = length doc"
    "tiles doc base mx mn c' ps" using Cons.prems(8) by auto
  have long: "mn \<le> char_count (ck_text h)" using Cons.prems(3) p(1) by (auto simp: piece_at_def)
  show ?case
  proof (cases "mergeable mx mn h p")
    case True
    note j = join_piece[OF Cons.prems(1) p(1)]
    have "chunked doc base mx mn g (merge_pieces mx mn (Some (join_chunks h p)) ps)"
      by (rule Cons.IH[OF j(1) _ _ Cons.prems(4,5,6,7) p(4)]) (use True long j(2) in \<open>auto simp: mergeable_def\<close>)
    then show ?thesis using True by simp
  next
    case False
    have "chunked doc base mx mn g ((if 0 < mn \<and> trim (ck_text h) = [] then [] else [h]) @ merge_pieces mx mn (Some p) ps)"
      by (rule chunked_emit[OF Cons.prems(1,2) _ Cons.prems(4,5) _ Cons.prems(7)])
        (use Cons.prems(6) long Cons.IH[OF p(1,2,3) _ _ _ _ p(4)] in auto)
    then show ?thesis using False by simp
  qed
qed

lemma holding_None: "ci_held it = None \<Longrightarrow> holding None it = it"
  by (cases it) simp

lemma iter_ok_new:
  assumes "stream_chunks mx base = Inr it" "base + length doc < 2 ^ 64"
  shows "iter_ok doc 0 (with_min_chars it n)"
  using assms scan_state_new
  by (auto simp: stream_chunks_def with_min_chars_def iter_ok_def bounds_ok_def unstarted_ok_def split: if_splits)

text \<open>
  C8: On every file of valid UTF-8, for every Markdown parser with sound offsets, the chunk iterator ends
  without an error, and the chunks it hands out are the file cut as documented: slices at their true
  offsets, in order, covering all but white space, none longer than the bound, none blank, only the last
  shorter than the minimum.
\<close>

theorem chunks_cover_file:
  assumes "valid_utf8 doc" "cmark_offsets cmark" "cmark_underlines cmark"
    and "stream_chunks mx base = Inr it" "base + length doc < 2 ^ 64"
  shows "\<exists>cs. yields cmark doc (with_min_chars it n) cs \<and> chunked doc base mx (min n (mx div 4)) 0 cs"
proof -
  let ?it = "with_min_chars it n" and ?mn = "min n (mx div 4)"
  have cfg: "ci_base ?it = base" "ci_max_chars ?it = mx" "ci_min_chars ?it = ?mn" "ci_held ?it = None"
    using assms(4) by (auto simp: stream_chunks_def with_min_chars_def split: if_splits)
  obtain ps where ps: "tiles doc base mx ?mn 0 ps" "\<And>h. yields cmark doc (holding h ?it) (merge_pieces mx ?mn h ps)"
    using yields_merge_pieces[OF assms(1-3) iter_ok_new[OF assms(4,5), of n]] cfg by auto
  have "yields cmark doc ?it (merge_pieces mx ?mn None ps)" using ps(2)[of None] holding_None[OF cfg(4)] by simp
  moreover have "chunked doc base mx ?mn 0 (merge_pieces mx ?mn None ps)"
  proof (cases ps)
    case Nil
    then show ?thesis using ps(1) by (simp add: trim_def trim_start_def trim_end_def)
  next
    case (Cons p qs)
    then obtain c' where "piece_at doc base 0 c' p" "char_count (ck_text p) \<le> mx" "?mn \<le> char_count (ck_text p) \<or> c' = length doc"
      "tiles doc base mx ?mn c' qs" using ps(1) by auto
    then show ?thesis using Cons merge_chunked[of doc base 0 c' p mx ?mn 0 qs] by (simp add: trim_def trim_start_def trim_end_def)
  qed
  ultimately show ?thesis by blast
qed

definition atx_only :: markdown_parser where
  "atx_only md = (if prefix ''# '' md then [(Start_Heading 1, 0), (End_Heading, 0)] else [])"

lemma atx_only_ok: "cmark_offsets atx_only" "cmark_underlines atx_only"
  by (auto simp: cmark_offsets_def cmark_underlines_def atx_only_def split: if_splits)

theorem chunks_cover_file_witness:
  "\<exists>it cs. stream_chunks 8 5 = Inr it
     \<and> yields atx_only ''# a  bb # c'' (with_min_chars it 2) cs \<and> chunked ''# a  bb # c'' 5 8 2 0 cs"
proof -
  obtain it where it: "stream_chunks 8 5 = Inr it" by (simp add: stream_chunks_def)
  have "valid_utf8 ''# a  bb # c''" by code_simp
  from chunks_cover_file[OF this atx_only_ok it, of 2] it show ?thesis by auto
qed

end
