(* ===== verification/Index_Snapshot.thy ===== *)
theory Index_Snapshot
  imports Chunker Staging
begin

text \<open>
  The snapshot the indexer reads of an object (\<^verbatim>\<open>notedthat-indexer/src/worker/snapshot.rs\<close>, \<^verbatim>\<open>okf.rs\<close>,
  \<^verbatim>\<open>notedthat-core/src/search/concept.rs\<close>): the observer that validates UTF-8 and hashes while the body is
  being staged, the front-matter prefix that carries OKF metadata, and the reader that hides it.

  SHA-256 (\<open>sha\<close>, printed in hexadecimal) and the YAML parser (\<open>yaml\<close>) are parameters.
\<close>

section \<open>The observer\<close>

record snapshot_facts =
  sf_content_hash :: string
  sf_prefix :: string

record snapshot_observer =
  ob_hashed :: string
  ob_prefix :: string
  ob_incomplete :: string
  ob_prefix_limit :: nat

definition observer_new :: "nat \<Rightarrow> snapshot_observer" where
  "observer_new limit = \<lparr>ob_hashed = [], ob_prefix = [], ob_incomplete = [], ob_prefix_limit = limit\<rparr>"

datatype observe_error = Invalid_Data | Ends_Inside_Scalar

definition observe :: "snapshot_observer \<Rightarrow> string \<Rightarrow> (observe_error, snapshot_observer) result" where
  "observe ob bytes =
     (let remaining = ob_prefix_limit ob - length (ob_prefix ob);
          ob1 = ob\<lparr>ob_hashed := ob_hashed ob @ bytes,
                   ob_prefix := ob_prefix ob @ take (min (length bytes) remaining) bytes\<rparr>;
          validation = ob_incomplete ob @ bytes in
      case from_utf8 validation of
        Utf8_Ok \<Rightarrow> Inr (ob1\<lparr>ob_incomplete := []\<rparr>)
      | Utf8_Error v (Some _) \<Rightarrow> Inl Invalid_Data
      | Utf8_Error v None \<Rightarrow> Inr (ob1\<lparr>ob_incomplete := drop v validation\<rparr>))"

text \<open>The loop that drops a code point cut short at the prefix limit, byte by byte.\<close>

function (sequential) pop_incomplete :: "string \<Rightarrow> string" where
  "pop_incomplete s = (case from_utf8 s of Utf8_Error v None \<Rightarrow> pop_incomplete (butlast s) | _ \<Rightarrow> s)"
  by pat_completeness auto
termination
  by (relation "measure length") (auto dest: from_utf8_cut(1))

declare pop_incomplete.simps [simp del]

definition observer_finish :: "(string \<Rightarrow> string) \<Rightarrow> snapshot_observer \<Rightarrow> (observe_error, snapshot_facts) result" where
  "observer_finish sha ob =
     (if ob_incomplete ob \<noteq> [] then Inl Ends_Inside_Scalar
      else
        let head = pop_incomplete (ob_prefix ob) in
        if valid_utf8 head then Inr \<lparr>sf_content_hash = sha (ob_hashed ob), sf_prefix = head\<rparr>
        else Inl Invalid_Data)"

fun observe_all :: "snapshot_observer \<Rightarrow> string list \<Rightarrow> (observe_error, snapshot_observer) result" where
  "observe_all ob [] = Inr ob"
| "observe_all ob (c # cs) = res_bind (observe ob c) (\<lambda>ob'. observe_all ob' cs)"

section \<open>OKF front matter\<close>

datatype yaml_value = YString string | YSequence "yaml_value list" | YMapping "(string \<times> yaml_value) list" | YOther

record concept_metadata =
  cm_concept_id :: string
  cm_concept_type :: string
  cm_title :: "string option"
  cm_description :: "string option"
  cm_resource :: "string option"
  cm_tags :: "string list"

fun yaml_get :: "yaml_value \<Rightarrow> string \<Rightarrow> yaml_value option" where
  "yaml_get (YMapping m) k = map_of m k"
| "yaml_get _ k = None"

fun yaml_str :: "yaml_value \<Rightarrow> string option" where
  "yaml_str (YString s) = Some s"
| "yaml_str _ = None"

fun yaml_strings :: "yaml_value \<Rightarrow> string list" where
  "yaml_strings (YSequence vs) = List.map_filter yaml_str vs"
| "yaml_strings _ = []"

definition is_eol :: "char \<Rightarrow> bool" where
  "is_eol c \<longleftrightarrow> c = carriage_return \<or> c = newline"

definition is_fence_line :: "string \<Rightarrow> bool" where
  "is_fence_line line \<longleftrightarrow> rev (dropWhile is_eol (rev line)) = ''---''"

definition optional_string :: "yaml_value \<Rightarrow> string \<Rightarrow> string option" where
  "optional_string v key = Option.bind (yaml_get v key) yaml_str"

definition concept_of :: "string \<Rightarrow> yaml_value \<Rightarrow> concept_metadata option" where
  "concept_of concept_id v =
     Option.bind (Option.bind (yaml_get v ''type'') yaml_str) (\<lambda>concept_type.
     if trim concept_type = [] then None
     else Some \<lparr>cm_concept_id = concept_id, cm_concept_type = concept_type,
       cm_title = optional_string v ''title'', cm_description = optional_string v ''description'',
       cm_resource = optional_string v ''resource'',
       cm_tags = (case yaml_get v ''tags'' of Some t \<Rightarrow> yaml_strings t | None \<Rightarrow> [])\<rparr>)"

text \<open>The search for the closing line; \<open>seen\<close> is the front matter read so far (\<^verbatim>\<open>prefix[opening.len()..closing_start]\<close>).\<close>

fun closing_loop :: "(string \<Rightarrow> yaml_value option) \<Rightarrow> string \<Rightarrow> nat \<Rightarrow> string \<Rightarrow> string list \<Rightarrow> (concept_metadata \<times> nat) option" where
  "closing_loop yaml cid closing_start seen [] = None"
| "closing_loop yaml cid closing_start seen (line # lines) =
     (if is_fence_line line then
        Option.bind (yaml seen) (\<lambda>v. map_option (\<lambda>m. (m, closing_start + length line)) (concept_of cid v))
      else closing_loop yaml cid (closing_start + length line) (seen @ line) lines)"

definition concept_prefix :: "(string \<Rightarrow> yaml_value option) \<Rightarrow> string \<Rightarrow> string \<Rightarrow> (concept_metadata \<times> nat) option" where
  "concept_prefix yaml path head =
     Option.bind (strip_suffix ''.md'' path) (\<lambda>cid.
     if last (split_on CHR ''/'' path) = ''index.md'' \<or> last (split_on CHR ''/'' path) = ''log.md'' then None
     else case lines_of head of
       [] \<Rightarrow> None
     | opening # lines \<Rightarrow>
         if is_fence_line opening then closing_loop yaml cid (length opening) [] lines else None)"

section \<open>The body reader\<close>

datatype seek_from = Seek_Start u64 | Seek_Current int | Seek_End int

datatype seek_error = Seek_Overflow | Seek_Precedes_Body

record body_reader =
  br_file :: string
  br_position :: u64
  br_base :: u64

definition body_reader_new :: "string \<Rightarrow> u64 \<Rightarrow> body_reader" where
  "body_reader_new file base = \<lparr>br_file = file, br_position = base, br_base = base\<rparr>"

definition checked_add_signed :: "u64 \<Rightarrow> int \<Rightarrow> u64 option" where
  "checked_add_signed p d = (if 0 \<le> uint p + d \<and> uint p + d < 2 ^ 64 then Some (word_of_int (uint p + d)) else None)"

definition seek_target :: "body_reader \<Rightarrow> seek_from \<Rightarrow> u64 option" where
  "seek_target r pos =
     (case pos of
        Seek_Start offset \<Rightarrow> checked_add (br_base r) offset
      | Seek_Current offset \<Rightarrow> checked_add_signed (br_position r) offset
      | Seek_End offset \<Rightarrow> checked_add_signed (of_nat (length (br_file r))) offset)"

definition body_seek :: "body_reader \<Rightarrow> seek_from \<Rightarrow> (seek_error, u64 \<times> body_reader) result" where
  "body_seek r pos =
     (case seek_target r pos of
        None \<Rightarrow> Inl Seek_Overflow
      | Some absolute \<Rightarrow>
          (case checked_sub absolute (br_base r) of
             None \<Rightarrow> Inl Seek_Precedes_Body
           | Some logical \<Rightarrow> Inr (logical, r\<lparr>br_position := absolute\<rparr>)))"

definition body_read :: "body_reader \<Rightarrow> nat \<Rightarrow> string \<times> body_reader" where
  "body_read r n =
     (let got = take n (drop (unat (br_position r)) (br_file r)) in
      (got, r\<lparr>br_position := br_position r + of_nat (length got)\<rparr>))"

section \<open>The observer is a validator of the whole body\<close>

definition observed :: "nat \<Rightarrow> string \<Rightarrow> snapshot_observer \<Rightarrow> bool" where
  "observed limit s ob \<longleftrightarrow>
     ob_hashed ob = s \<and> ob_prefix ob = take limit s \<and> ob_prefix_limit ob = limit
     \<and> (\<exists>a. s = a @ ob_incomplete ob \<and> valid_utf8 a)
     \<and> (ob_incomplete ob = [] \<or> utf8_front (ob_incomplete ob) = Cut_Short)"

lemma take_limit_append: "take n s @ take (min (length b) (n - length (take n s))) b = take n (s @ b)"
  by (cases "length s \<le> n") (auto simp: min_def)

lemma observe_step:
  assumes "observed limit s ob"
  shows "case from_utf8 (s @ b) of
     Utf8_Error v (Some e) \<Rightarrow> observe ob b = Inl Invalid_Data
   | _ \<Rightarrow> \<exists>ob'. observe ob b = Inr ob' \<and> observed limit (s @ b) ob'"
proof -
  let ?inc = "ob_incomplete ob"
  obtain a where o: "ob_hashed ob = s" "ob_prefix ob = take limit s" "ob_prefix_limit ob = limit"
    "s = a @ ?inc" "valid_utf8 a" using assms by (auto simp: observed_def)
  have sb: "s @ b = a @ (?inc @ b)" by (subst o(4)) simp
  have fu: "from_utf8 (s @ b) = shift_check (length a) (from_utf8 (?inc @ b))"
    unfolding sb by (rule from_utf8_append[OF o(5)])
  define ob1 where "ob1 = ob\<lparr>ob_hashed := s @ b, ob_prefix := take limit (s @ b)\<rparr>"
  have ob: "observe ob b = (case from_utf8 (?inc @ b) of Utf8_Ok \<Rightarrow> Inr (ob1\<lparr>ob_incomplete := []\<rparr>)
      | Utf8_Error v (Some _) \<Rightarrow> Inl Invalid_Data | Utf8_Error v None \<Rightarrow> Inr (ob1\<lparr>ob_incomplete := drop v (?inc @ b)\<rparr>))"
    unfolding observe_def Let_def o(1,2,3) take_limit_append ob1_def ..
  have fin: "observed limit (s @ b) (ob1\<lparr>ob_incomplete := i\<rparr>)"
    if "s @ b = w @ i" "valid_utf8 w" "i = [] \<or> utf8_front i = Cut_Short" for i w
    using that o(3) by (auto simp: observed_def ob1_def)
  show ?thesis
  proof (cases "from_utf8 (?inc @ b)")
    case Utf8_Ok
    then have "valid_utf8 (s @ b)" using fu by (simp add: valid_utf8_def)
    then show ?thesis using Utf8_Ok fu ob fin[of "s @ b" "[]"] by simp
  next
    case (Utf8_Error v e)
    show ?thesis
    proof (cases e)
      case (Some k)
      then show ?thesis using Utf8_Error fu ob by simp
    next
      case None
      have c: "valid_utf8 (take v (?inc @ b))" "utf8_front (drop v (?inc @ b)) = Cut_Short"
        using from_utf8_Error[of "?inc @ b" v None] Utf8_Error None by auto
      have "s @ b = (a @ take v (?inc @ b)) @ drop v (?inc @ b)" unfolding sb by (simp only: append_assoc append_take_drop_id)
      from fin[OF this] c o(5) have "observed limit (s @ b) (ob1\<lparr>ob_incomplete := drop v (?inc @ b)\<rparr>)"
        by (simp only: valid_append simp_thms)
      then show ?thesis using Utf8_Error None fu ob by (simp del: drop_append)
    qed
  qed
qed

lemma observed_new: "observed limit [] (observer_new limit)"
  by (simp add: observed_def observer_new_def)

lemma observe_all_ok:
  "observed limit s ob \<Longrightarrow> observe_all ob cs = Inr ob' \<Longrightarrow> observed limit (s @ concat cs) ob'"
proof (induction cs arbitrary: s ob)
  case (Cons c cs)
  then obtain ob1 where ob1: "observe ob c = Inr ob1" "observe_all ob1 cs = Inr ob'" by (auto simp: result_simps)
  have "observed limit (s @ c) ob1" using observe_step[OF Cons.prems(1), of c] ob1(1) by (auto split: utf8_check.splits option.splits)
  from Cons.IH[OF this ob1(2)] show ?case by simp
qed simp

lemma observe_all_err:
  "observed limit s ob \<Longrightarrow> observe_all ob cs = Inl e \<Longrightarrow> \<not> valid_utf8 (s @ concat cs)"
proof (induction cs arbitrary: s ob)
  case (Cons c cs)
  show ?case
  proof (cases "observe ob c")
    case (Inl e')
    then obtain v k where "from_utf8 (s @ c) = Utf8_Error v (Some k)"
      using observe_step[OF Cons.prems(1), of c] by (auto split: utf8_check.splits option.splits)
    from from_utf8_broken_append[OF this, of "concat cs"] show ?thesis by (simp add: valid_utf8_def)
  next
    case (Inr ob1)
    have "observed limit (s @ c) ob1" using observe_step[OF Cons.prems(1), of c] Inr by (auto split: utf8_check.splits option.splits)
    from Cons.IH[OF this] show ?thesis using Cons.prems(2) Inr by simp
  qed
qed simp

lemma observed_incomplete:
  assumes "observed limit s ob"
  shows "ob_incomplete ob = [] \<longleftrightarrow> valid_utf8 s"
proof -
  obtain a where a: "s = a @ ob_incomplete ob" "valid_utf8 a" "ob_incomplete ob = [] \<or> utf8_front (ob_incomplete ob) = Cut_Short"
    using assms by (auto simp: observed_def)
  have "utf8_front i = Cut_Short \<Longrightarrow> i \<noteq> [] \<Longrightarrow> \<not> valid_utf8 i" for i
    by (cases i) (auto simp: valid_utf8_def simp del: utf8_front.simps)
  then show ?thesis using a valid_append[OF a(2), of "ob_incomplete ob"] by auto
qed

text \<open>Popping bytes off a cut prefix ends at its longest valid part.\<close>

lemma pop_incomplete_prefix:
  assumes "valid_utf8 (s @ t)"
  shows "pop_incomplete s = take (valid_up_to s) s"
  using assms
proof (induction s arbitrary: t rule: rev_induct)
  case Nil
  then show ?case by (simp add: pop_incomplete.simps)
next
  case (snoc x s)
  show ?case
  proof (cases "valid_utf8 (s @ [x])")
    case True
    then show ?thesis by (subst pop_incomplete.simps) (simp add: valid_utf8_def valid_up_to_def)
  next
    case False
    then obtain v where v: "from_utf8 (s @ [x]) = Utf8_Error v None"
      using prefix_of_valid[of "s @ [x]" t] snoc.prems by (auto simp: valid_utf8_def)
    then have p: "pop_incomplete (s @ [x]) = pop_incomplete s" by (subst pop_incomplete.simps) simp
    have ih: "pop_incomplete s = take (valid_up_to s) s" using snoc.IH[of "x # t"] snoc.prems by simp
    have cut: "v \<le> length s" "valid_utf8 (take v s)" "utf8_front (drop v s @ [x]) = Cut_Short"
      using from_utf8_Error[OF v] by auto
    have "valid_up_to s = v"
    proof (cases "drop v s = []")
      case True
      then have "v = length s" "valid_utf8 s" using cut by auto
      then show ?thesis by (simp add: valid_up_to_def valid_utf8_def)
    next
      case False
      then have "utf8_front (drop v s) = Cut_Short"
        using cut(3) utf8_front_append[of "drop v s" _ "[x]"] by (cases "utf8_front (drop v s)") auto
      then have "from_utf8 (drop v s) = Utf8_Error 0 None" using False by (cases "drop v s") (auto simp del: utf8_front.simps)
      then have "from_utf8 (take v s @ drop v s) = Utf8_Error v None"
        using from_utf8_append[OF cut(2), of "drop v s"] cut(1) by simp
      then show ?thesis by (simp add: valid_up_to_def)
    qed
    then show ?thesis using p ih v cut(1) by (simp add: valid_up_to_def)
  qed
qed

text \<open>
  C29: However the body is cut into chunks on its way to the staging file, the observer accepts it exactly
  when the whole body is valid UTF-8, and then reports the hash of all of it and the longest valid part
  of its first \<open>limit\<close> bytes.
\<close>

theorem snapshot_observer_exact:
  "res_bind (observe_all (observer_new limit) chunks) (observer_finish sha) =
     (if valid_utf8 (concat chunks)
      then Inr \<lparr>sf_content_hash = sha (concat chunks),
                sf_prefix = take (valid_up_to (take limit (concat chunks))) (concat chunks)\<rparr>
      else Inl (case observe_all (observer_new limit) chunks of Inl e \<Rightarrow> e | Inr _ \<Rightarrow> Ends_Inside_Scalar))"
proof (cases "observe_all (observer_new limit) chunks")
  case (Inl e)
  then show ?thesis using observe_all_err[OF observed_new Inl] by simp
next
  case (Inr ob)
  let ?s = "concat chunks"
  have o: "observed limit ?s ob" using observe_all_ok[OF observed_new Inr] by simp
  show ?thesis
  proof (cases "valid_utf8 ?s")
    case False
    then show ?thesis using Inr observed_incomplete[OF o] by (simp add: observer_finish_def)
  next
    case True
    have v: "valid_utf8 (take limit ?s @ drop limit ?s)" using True by simp
    note vu = valid_up_to_prefix[OF v]
    have vl: "min (valid_up_to (take limit ?s)) limit = valid_up_to (take limit ?s)" using vu(1) by simp
    have "pop_incomplete (take limit ?s) = take (valid_up_to (take limit ?s)) ?s"
      using pop_incomplete_prefix[OF v] by (simp only: take_take vl)
    moreover have "valid_utf8 (take (valid_up_to (take limit ?s)) ?s)" using vu(3) by (simp only: take_take vl)
    ultimately show ?thesis using Inr True o observed_incomplete[OF o]
      by (simp add: observer_finish_def observed_def)
  qed
qed

section \<open>The body\<close>

text \<open>The front matter ends after a whole number of lines of the prefix, so the body starts at a character boundary.\<close>

lemma closing_loop_bound:
  "closing_loop yaml cid n seen ls = Some (m, k) \<Longrightarrow> \<exists>j\<le>length ls. k = n + length (concat (take j ls)) \<and> 0 < j"
proof (induction yaml cid n seen ls rule: closing_loop.induct)
  case (2 yaml cid n seen line ls)
  show ?case
  proof (cases "is_fence_line line")
    case True
    then show ?thesis using 2(2) by (intro exI[of _ 1]) (auto simp: bind_eq_Some_conv)
  next
    case False
    then obtain j where "j \<le> length ls" "k = n + length line + length (concat (take j ls))" "0 < j"
      using 2(1)[OF False] 2(2) by auto
    then show ?thesis by (intro exI[of _ "Suc j"]) simp
  qed
qed simp

lemma take_lines_end:
  "concat (take j (lines_of s)) = [] \<or> concat (take j (lines_of s)) = s \<or> last (concat (take j (lines_of s))) = newline"
proof (induction s arbitrary: j)
  case (Cons c cs)
  show ?case
  proof (cases j)
    case (Suc i)
    show ?thesis
    proof (cases "c = newline")
      case True
      then show ?thesis using Suc Cons.IH[of i] by auto
    next
      case False
      show ?thesis
      proof (cases "lines_of cs")
        case Nil
        then show ?thesis using False Suc by simp
      next
        case (Cons l ls)
        have "concat (take j (lines_of (c # cs))) = c # concat (take j (lines_of cs))" using False Suc Cons by simp
        moreover have "concat (take j (lines_of cs)) \<noteq> []"
        proof -
          have "l \<noteq> []" using lines_of_not_Nil[of l cs] Cons by simp
          then show ?thesis using Suc Cons by simp
        qed
        ultimately show ?thesis using Cons.IH[of j] by auto
      qed
    qed
  qed simp
qed simp

lemma valid_lines_prefix:
  assumes "valid_utf8 s"
  shows "valid_utf8 (concat (take j (lines_of s)))"
proof -
  let ?t = "concat (take j (lines_of s))"
  have t: "?t = take (length ?t) s"
    by (metis append_eq_conv_conj append_take_drop_id concat_append concat_lines_of)
  show ?thesis
  proof (cases "?t = [] \<or> ?t = s")
    case False
    then have nl: "last ?t = newline" "?t \<noteq> []" using take_lines_end[of j s] by auto
    have le: "length ?t \<le> length s" "0 < length ?t" using t nl(2) by (metis length_take min.cobounded1, simp)
    then have "length ?t - 1 < length s" by linarith
    moreover have "s ! (length ?t - 1) = newline"
      using nl t le(2) by (metis One_nat_def diff_Suc_less last_conv_nth nth_take)
    ultimately have "valid_utf8 (take (Suc (length ?t - 1)) s)"
      by (intro valid_after_ascii[OF assms]) (simp_all add: in_range_def)
    then show ?thesis using nl(2) t by (metis Suc_diff_1 length_greater_0_conv)
  next
    case True
    then show ?thesis using assms by (elim disjE) (simp_all only: valid_Nil)
  qed
qed

lemma concept_prefix_boundary:
  assumes "concept_prefix yaml path head = Some (m, k)" "valid_utf8 head"
  shows "k \<le> length head" "valid_utf8 (take k head)"
proof -
  obtain cid first ls where l: "lines_of head = first # ls" "closing_loop yaml cid (length first) [] ls = Some (m, k)"
    using assms(1) by (auto simp: concept_prefix_def bind_eq_Some_conv split: if_splits list.splits)
  obtain j where j: "j \<le> length ls" "k = length first + length (concat (take j ls))" using closing_loop_bound[OF l(2)] by auto
  then have k: "k = length (concat (take (Suc j) (lines_of head)))" by (simp add: l(1))
  have t: "take k head = concat (take (Suc j) (lines_of head))"
    unfolding k by (metis append_eq_conv_conj append_take_drop_id concat_append concat_lines_of)
  then show "valid_utf8 (take k head)" using valid_lines_prefix[OF assms(2)] by simp
  have "length (take k head) = k" using t k by simp
  then show "k \<le> length head" by simp
qed

text \<open>What a reader positioned by a seek from the start reads: the file without its first \<open>base\<close> bytes.\<close>

lemma body_reader_hides_prefix:
  assumes "body_seek r (Seek_Start offset) = Inr (p, r')"
  shows "p = offset" "fst (body_read r' n) = take n (drop (unat offset) (drop (unat (br_base r)) (br_file r)))"
proof -
  obtain absolute where a: "checked_add (br_base r) offset = Some absolute" "checked_sub absolute (br_base r) = Some p"
    "r' = r\<lparr>br_position := absolute\<rparr>"
    using assms by (auto simp: body_seek_def seek_target_def split: option.splits)
  have u: "unat absolute = unat (br_base r) + unat offset" using a(1) by (simp add: checked_add_Some_iff)
  then show "p = offset" using a(2) by (auto simp: checked_sub_Some_iff intro!: unsigned_word_eqI[where 'a = nat])
  show "fst (body_read r' n) = take n (drop (unat offset) (drop (unat (br_base r)) (br_file r)))"
    using u by (simp add: body_read_def Let_def a(3) add.commute)
qed

end
