(* ===== verification/Vector_Store.thy ===== *)
theory Vector_Store
  imports Index_Snapshot Storage_Api
begin

text \<open>
  The vector-store interface (\<^verbatim>\<open>notedthat-indexer/src/vector_store.rs\<close>), the points the indexer writes
  (\<^verbatim>\<open>worker/points.rs\<close>, \<^verbatim>\<open>mime.rs\<close>) and the in-memory store (\<^verbatim>\<open>testing.rs\<close>, \<^verbatim>\<open>InMemoryVectorStore\<close>), which
  the repository pins to the production store with a conformance suite.

  The contract \<open>chunk_index\<close> describes a store as a partial map from (object key, chunk index) to the
  payload stored there.  A store keyed by the 64-bit hash \<open>point_id\<close> meets it as long as no two chunks in
  use collide: \<open>K\<close> is a set of (key, index) pairs on which the hash is injective.  The ranking half of
  \<^verbatim>\<open>hybrid_search\<close> is floating-point arithmetic and is left out; the filter it applies is included.
  Embedding components have the type variable \<open>'f\<close>.
\<close>

section \<open>Values\<close>

datatype payload_value =
    PString string
  | PInteger int
  | PList "payload_value list"
  | PStruct "(string \<times> payload_value) list"

type_synonym payload = "(string \<times> payload_value) list"

datatype 'f vector_value = Dense "'f list" | Document string

record 'f point_struct =
  pt_id :: "u64 option"
  pt_vectors :: "(string \<times> 'f vector_value) list"
  pt_payload :: payload

datatype point_selector =
    Sel_Object string
  | Sel_Chunks_From string nat

record indexed_object =
  io_object_key :: string
  io_etag :: string

datatype vector_store_error = CollectionNotFound string | Vs_Backend string

fun vector_store_error_display :: "vector_store_error \<Rightarrow> string" where
  "vector_store_error_display (CollectionNotFound kb) = ''no collection for knowledge base '' @ sq @ kb @ sq"
| "vector_store_error_display (Vs_Backend message) = ''vector store backend error: '' @ message"

fun as_string :: "payload_value \<Rightarrow> string option" where
  "as_string (PString s) = Some s"
| "as_string _ = None"

fun as_integer :: "payload_value \<Rightarrow> int option" where
  "as_integer (PInteger n) = Some n"
| "as_integer _ = None"

fun as_string_list :: "payload_value \<Rightarrow> string list" where
  "as_string_list (PList vs) = List.map_filter as_string vs"
| "as_string_list _ = []"

abbreviation payload_str :: "payload \<Rightarrow> string \<Rightarrow> string option" where
  "payload_str pl field \<equiv> Option.bind (map_of pl field) as_string"

abbreviation payload_int :: "payload \<Rightarrow> string \<Rightarrow> int option" where
  "payload_int pl field \<equiv> Option.bind (map_of pl field) as_integer"

text \<open>\<^verbatim>\<open>merge_chunk_etag\<close>, on the object-to-tag map kept as an association list in key order.\<close>

definition etag_or_empty :: "string option \<Rightarrow> string" where
  "etag_or_empty e = (case e of None \<Rightarrow> [] | Some t \<Rightarrow> t)"

fun merge_chunk_etag :: "(string \<times> string) list \<Rightarrow> string \<Rightarrow> string option \<Rightarrow> (string \<times> string) list" where
  "merge_chunk_etag [] key etag = [(key, etag_or_empty etag)]"
| "merge_chunk_etag ((k, t) # by_key) key etag =
     (if key = k then (k, if t \<noteq> etag_or_empty etag then [] else t) # by_key
      else if lexordp (\<lambda>a b. (of_char a :: nat) < of_char b) key k then (key, etag_or_empty etag) # (k, t) # by_key
      else (k, t) # merge_chunk_etag by_key key etag)"

section \<open>Points\<close>

text \<open>\<^verbatim>\<open>crate::mime::essence\<close>.\<close>

definition essence :: "string \<Rightarrow> string" where
  "essence mime = to_ascii_lowercase (trim (hd (split_on CHR '';'' mime)))"

definition fnv_offset :: u64 where
  "fnv_offset = 0xcbf29ce484222325"

definition fnv_prime :: u64 where
  "fnv_prime = 0x00000100000001b3"

definition point_id :: "string \<Rightarrow> nat \<Rightarrow> u64" where
  "point_id object_key chunk_index =
     foldl (\<lambda>hash b. xor hash (of_nat (of_char b)) * fnv_prime) fnv_offset
       (object_key @ ''/'' @ show_nat chunk_index)"

text \<open>\<^verbatim>\<open>i64::try_from(n).unwrap_or(i64::MAX)\<close>.\<close>

definition i64_or_max :: "nat \<Rightarrow> int" where
  "i64_or_max n = (if n < 2 ^ 63 then int n else 2 ^ 63 - 1)"

text \<open>\<^verbatim>\<open>serde_json::json!(metadata)\<close>: absent optional fields and empty tags are not serialised.\<close>

definition optional_field :: "string \<Rightarrow> string option \<Rightarrow> payload" where
  "optional_field name v = (case v of None \<Rightarrow> [] | Some s \<Rightarrow> [(name, PString s)])"

definition okf_payload :: "concept_metadata \<Rightarrow> payload_value" where
  "okf_payload m =
     PStruct ([(''concept_id'', PString (cm_concept_id m)), (''type'', PString (cm_concept_type m))]
       @ optional_field ''title'' (cm_title m) @ optional_field ''description'' (cm_description m)
       @ optional_field ''resource'' (cm_resource m)
       @ (if cm_tags m = [] then [] else [(''tags'', PList (map PString (cm_tags m)))]))"

definition chunk_payload ::
  "object_path \<Rightarrow> object_meta \<Rightarrow> string \<Rightarrow> concept_metadata option \<Rightarrow> nat \<Rightarrow> chunk \<Rightarrow> payload" where
  "chunk_payload object_key meta content_hash metadata chunk_index c =
     [(''object_key'', PString (path_str object_key)),
      (''chunk_index'', PInteger (i64_or_max chunk_index)),
      (''byte_start'', PInteger (i64_or_max (ck_byte_start c))),
      (''byte_end'', PInteger (i64_or_max (ck_byte_end c))),
      (''etag'', PString (etag_or_empty (om_etag meta))),
      (''mime'', PString (essence (etag_or_empty (om_content_type meta)))),
      (''mtime'', PInteger (case om_last_modified meta of None \<Rightarrow> 0 | Some t \<Rightarrow> t)),
      (''heading_path'', PList (map PString (ck_heading_path c))),
      (''tags'', PList (map PString (case metadata of None \<Rightarrow> [] | Some m \<Rightarrow> cm_tags m)))]
     @ (case metadata of None \<Rightarrow> [] | Some m \<Rightarrow> [(''okf'', okf_payload m)])
     @ [(''content_hash'', PString content_hash), (''text'', PString (ck_text c))]"

definition chunk_point ::
  "object_path \<Rightarrow> object_meta \<Rightarrow> string \<Rightarrow> concept_metadata option \<Rightarrow> nat \<times> chunk \<Rightarrow> 'f list \<Rightarrow> 'f point_struct" where
  "chunk_point object_key meta content_hash metadata = (\<lambda>(chunk_index, c) embedding.
     \<lparr>pt_id = Some (point_id (path_str object_key) chunk_index),
      pt_vectors = [(''dense'', Dense embedding), (''sparse_bm25'', Document (ck_text c))],
      pt_payload = chunk_payload object_key meta content_hash metadata chunk_index c\<rparr>)"

datatype points_error = Embedding_Count_Mismatch nat nat

definition build_points ::
  "(nat \<times> chunk) list \<Rightarrow> 'f list list \<Rightarrow> object_path \<Rightarrow> object_meta \<Rightarrow> string \<Rightarrow> concept_metadata option
     \<Rightarrow> (points_error, 'f point_struct list) result" where
  "build_points chunks embeddings object_key meta content_hash metadata =
     (if length chunks \<noteq> length embeddings then Inl (Embedding_Count_Mismatch (length chunks) (length embeddings))
      else Inr (map2 (chunk_point object_key meta content_hash metadata) chunks embeddings))"

section \<open>The interface\<close>

record ('v, 'f) vector_ops =
  vo_upsert :: "'v \<Rightarrow> kb_slug \<Rightarrow> 'f point_struct list \<Rightarrow> (vector_store_error, unit) result \<times> 'v"
  vo_delete :: "'v \<Rightarrow> kb_slug \<Rightarrow> point_selector \<Rightarrow> (vector_store_error, unit) result \<times> 'v"
  vo_indexed_etag :: "'v \<Rightarrow> kb_slug \<Rightarrow> string \<Rightarrow> (vector_store_error, string option) result"
  vo_indexed_objects :: "'v \<Rightarrow> kb_slug \<Rightarrow> string option \<Rightarrow> (vector_store_error, indexed_object list) result"

type_synonym chunk_map = "string \<times> nat \<rightharpoonup> payload"

text \<open>The chunk a payload says it is.\<close>

definition payload_key :: "payload \<Rightarrow> (string \<times> nat) option" where
  "payload_key pl =
     Option.bind (payload_str pl ''object_key'') (\<lambda>k.
       Option.bind (payload_int pl ''chunk_index'') (\<lambda>i. if 0 \<le> i then Some (k, nat i) else None))"

text \<open>A point under its own id: what \<^verbatim>\<open>build_points\<close> makes.\<close>

definition addressed :: "(string \<times> nat) set \<Rightarrow> 'f point_struct \<Rightarrow> bool" where
  "addressed K p \<longleftrightarrow>
     (\<exists>k i. payload_key (pt_payload p) = Some (k, i) \<and> (k, i) \<in> K \<and> pt_id p = Some (point_id k i))"

definition put_point :: "chunk_map \<Rightarrow> 'f point_struct \<Rightarrow> chunk_map" where
  "put_point m p = m(the (payload_key (pt_payload p)) \<mapsto> pt_payload p)"

definition without :: "point_selector \<Rightarrow> chunk_map \<Rightarrow> chunk_map" where
  "without sel m = (\<lambda>(k, i).
     case sel of
       Sel_Object key \<Rightarrow> if k = key then None else m (k, i)
     | Sel_Chunks_From key n \<Rightarrow> if k = key \<and> n \<le> i then None else m (k, i))"

text \<open>The tag all of an object's chunks carry, if they have one and agree.\<close>

definition agreed_etag :: "chunk_map \<Rightarrow> string \<Rightarrow> string option \<Rightarrow> bool" where
  "agreed_etag m key r \<longleftrightarrow>
     (\<forall>t. r = Some t \<longleftrightarrow>
        (\<exists>i pl. m (key, i) = Some pl) \<and> (\<forall>i pl. m (key, i) = Some pl \<longrightarrow> payload_str pl ''etag'' = Some t))"

locale chunk_index =
  fixes ops :: "('v, 'f) vector_ops"
    and K :: "(string \<times> nat) set"
    and ready :: "'v \<Rightarrow> bool"
    and chunks :: "'v \<Rightarrow> kb_slug \<Rightarrow> chunk_map"
  assumes upsert_law: "vo_upsert ops v kb pts = (r, v') \<Longrightarrow> ready v \<Longrightarrow> (\<And>p. p \<in> set pts \<Longrightarrow> addressed K p) \<Longrightarrow>
      ready v' \<and> (\<exists>n\<le>length pts. chunks v' kb = foldl put_point (chunks v kb) (take n pts) \<and> (r = Inr () \<longrightarrow> n = length pts))"
    and upsert_frame: "vo_upsert ops v kb pts = (r, v') \<Longrightarrow> kb_str kb' \<noteq> kb_str kb \<Longrightarrow> chunks v' kb' = chunks v kb'"
    and delete_law: "vo_delete ops v kb sel = (r, v') \<Longrightarrow> ready v \<Longrightarrow>
      ready v' \<and> chunks v' kb = (if r = Inr () then without sel (chunks v kb) else chunks v kb)"
    and delete_frame: "vo_delete ops v kb sel = (r, v') \<Longrightarrow> kb_str kb' \<noteq> kb_str kb \<Longrightarrow> chunks v' kb' = chunks v kb'"
    and etag_law: "vo_indexed_etag ops v kb key = Inr t \<Longrightarrow> ready v \<Longrightarrow> agreed_etag (chunks v kb) key t"

section \<open>The in-memory store\<close>

record 'f stored_point =
  sp_dense :: "'f list"
  sp_text :: string
  sp_vector_names :: "string set"
  sp_payload :: payload

record 'f collection =
  co_dense_dim :: u64
  co_payload_indexes :: "string set"
  co_points :: "(u64 \<times> 'f stored_point) list"

record 'f mem_vectors =
  mv_collections :: "string \<rightharpoonup> 'f collection"
  mv_unreachable :: bool

definition collection_default :: "'f collection" where
  "collection_default = \<lparr>co_dense_dim = 0, co_payload_indexes = {}, co_points = []\<rparr>"

definition mem_vectors_new :: "'f mem_vectors" where
  "mem_vectors_new = \<lparr>mv_collections = Map.empty, mv_unreachable = False\<rparr>"

definition mv_set_reachable :: "'f mem_vectors \<Rightarrow> bool \<Rightarrow> 'f mem_vectors" where
  "mv_set_reachable v reachable = v\<lparr>mv_unreachable := \<not> reachable\<rparr>"

definition mv_check_reachable :: "'f mem_vectors \<Rightarrow> (vector_store_error, unit) result" where
  "mv_check_reachable v =
     (if mv_unreachable v then Inl (Vs_Backend ''in-memory vector store marked unreachable'') else Inr ())"

definition mv_collection :: "'f mem_vectors \<Rightarrow> kb_slug \<Rightarrow> (vector_store_error, 'f collection) result" where
  "mv_collection v kb =
     res_bind (mv_check_reachable v) (\<lambda>_. ok_or (CollectionNotFound (kb_str kb)) (mv_collections v (kb_str kb)))"

definition mv_collection_exists :: "'f mem_vectors \<Rightarrow> kb_slug \<Rightarrow> (vector_store_error, bool) result" where
  "mv_collection_exists v kb = res_map (\<lambda>_. mv_collections v (kb_str kb) \<noteq> None) (mv_check_reachable v)"

definition mv_set_collection :: "'f mem_vectors \<Rightarrow> kb_slug \<Rightarrow> 'f collection \<Rightarrow> 'f mem_vectors" where
  "mv_set_collection v kb c = v\<lparr>mv_collections := (mv_collections v)(kb_str kb \<mapsto> c)\<rparr>"

definition mv_create_collection :: "'f mem_vectors \<Rightarrow> kb_slug \<Rightarrow> u64 \<Rightarrow> (vector_store_error, unit) result \<times> 'f mem_vectors" where
  "mv_create_collection v kb dense_dim =
     (case mv_check_reachable v of
        Inl e \<Rightarrow> (Inl e, v)
      | Inr _ \<Rightarrow>
          (let c = (case mv_collections v (kb_str kb) of None \<Rightarrow> collection_default | Some c \<Rightarrow> c) in
           (Inr (), mv_set_collection v kb (c\<lparr>co_dense_dim := dense_dim\<rparr>))))"

definition mv_create_payload_index :: "'f mem_vectors \<Rightarrow> kb_slug \<Rightarrow> string \<Rightarrow> (vector_store_error, unit) result \<times> 'f mem_vectors" where
  "mv_create_payload_index v kb field =
     (case mv_collection v kb of
        Inl e \<Rightarrow> (Inl e, v)
      | Inr c \<Rightarrow> (Inr (), mv_set_collection v kb (c\<lparr>co_payload_indexes := insert field (co_payload_indexes c)\<rparr>)))"

text \<open>Insertion into the ordered map of points.\<close>

fun insert_point :: "u64 \<Rightarrow> 'f stored_point \<Rightarrow> (u64 \<times> 'f stored_point) list \<Rightarrow> (u64 \<times> 'f stored_point) list" where
  "insert_point n p [] = [(n, p)]"
| "insert_point n p ((m, q) # ps) =
     (if n = m then (n, p) # ps else if n < m then (n, p) # (m, q) # ps else (m, q) # insert_point n p ps)"

text \<open>The vectors of a point, in the order the map yields them.\<close>

definition stored_of :: "'f point_struct \<Rightarrow> 'f stored_point" where
  "stored_of p =
     foldl (\<lambda>sp (name, value).
        let sp' = sp\<lparr>sp_vector_names := insert name (sp_vector_names sp)\<rparr> in
        case value of
          Dense d \<Rightarrow> if name = ''dense'' then sp'\<lparr>sp_dense := d\<rparr> else sp'
        | Document t \<Rightarrow> sp'\<lparr>sp_text := t\<rparr>)
       \<lparr>sp_dense = [], sp_text = [], sp_vector_names = {}, sp_payload = pt_payload p\<rparr> (pt_vectors p)"

fun store_points :: "'f collection \<Rightarrow> 'f point_struct list \<Rightarrow> (vector_store_error, unit) result \<times> 'f collection" where
  "store_points c [] = (Inr (), c)"
| "store_points c (p # ps) =
     (case pt_id p of
        None \<Rightarrow> (Inl (Vs_Backend ''in-memory store requires numeric point ids''), c)
      | Some n \<Rightarrow>
          (let sp = stored_of p; width = (of_nat (length (sp_dense sp)) :: u64) in
           if ''dense'' \<in> sp_vector_names sp \<and> width \<noteq> co_dense_dim c
           then (Inl (Vs_Backend (''dense vector width '' @ show_u64 width @ '' does not match collection width '' @ show_u64 (co_dense_dim c))), c)
           else store_points (c\<lparr>co_points := insert_point n sp (co_points c)\<rparr>) ps))"

definition mv_upsert_points :: "'f mem_vectors \<Rightarrow> kb_slug \<Rightarrow> 'f point_struct list \<Rightarrow> (vector_store_error, unit) result \<times> 'f mem_vectors" where
  "mv_upsert_points v kb points =
     (case mv_collection v kb of
        Inl e \<Rightarrow> (Inl e, v)
      | Inr c \<Rightarrow> (case store_points c points of (r, c') \<Rightarrow> (r, mv_set_collection v kb c')))"

definition retained :: "point_selector \<Rightarrow> payload \<Rightarrow> bool" where
  "retained sel pl =
     (let key = payload_str pl ''object_key'' in
      case sel of
        Sel_Object object_key \<Rightarrow> key \<noteq> Some object_key
      | Sel_Chunks_From object_key from_index \<Rightarrow>
          if key \<noteq> Some object_key then True
          else (case payload_int pl ''chunk_index'' of None \<Rightarrow> True | Some i \<Rightarrow> i < int from_index))"

definition mv_delete_points :: "'f mem_vectors \<Rightarrow> kb_slug \<Rightarrow> point_selector \<Rightarrow> (vector_store_error, unit) result \<times> 'f mem_vectors" where
  "mv_delete_points v kb sel =
     (case mv_collection v kb of
        Inl e \<Rightarrow> (Inl e, v)
      | Inr c \<Rightarrow>
          (Inr (), mv_set_collection v kb
             (c\<lparr>co_points := filter (\<lambda>(_, p). retained sel (sp_payload p)) (co_points c)\<rparr>)))"

definition object_etags :: "'f collection \<Rightarrow> string \<Rightarrow> string option list" where
  "object_etags c object_key =
     map (\<lambda>(_, p). payload_str (sp_payload p) ''etag'')
       (filter (\<lambda>(_, p). payload_str (sp_payload p) ''object_key'' = Some object_key) (co_points c))"

definition mv_indexed_etag :: "'f mem_vectors \<Rightarrow> kb_slug \<Rightarrow> string \<Rightarrow> (vector_store_error, string option) result" where
  "mv_indexed_etag v kb object_key =
     res_map (\<lambda>c. case object_etags c object_key of
         Some etag # etags \<Rightarrow> if list_all (\<lambda>other. other = Some etag) etags then Some etag else None
       | _ \<Rightarrow> None) (mv_collection v kb)"

definition merge_point :: "string option \<Rightarrow> (string \<times> string) list \<Rightarrow> u64 \<times> 'f stored_point \<Rightarrow> (string \<times> string) list" where
  "merge_point key_prefix by_key = (\<lambda>(_, p).
     case payload_str (sp_payload p) ''object_key'' of
       None \<Rightarrow> by_key
     | Some object_key \<Rightarrow>
         if key_prefix \<noteq> None \<and> \<not> prefix (the key_prefix) object_key then by_key
         else merge_chunk_etag by_key object_key (payload_str (sp_payload p) ''etag''))"

definition mv_indexed_objects :: "'f mem_vectors \<Rightarrow> kb_slug \<Rightarrow> string option \<Rightarrow> (vector_store_error, indexed_object list) result" where
  "mv_indexed_objects v kb key_prefix =
     res_map (\<lambda>c. map (\<lambda>(k, t). \<lparr>io_object_key = k, io_etag = t\<rparr>) (foldl (merge_point key_prefix) [] (co_points c)))
       (mv_collection v kb)"

definition mv_point_count :: "'f mem_vectors \<Rightarrow> kb_slug \<Rightarrow> nat option" where
  "mv_point_count v kb = map_option (\<lambda>c. length (co_points c)) (mv_collections v (kb_str kb))"

definition mv_payload_values :: "'f mem_vectors \<Rightarrow> kb_slug \<Rightarrow> string \<Rightarrow> payload_value list" where
  "mv_payload_values v kb field =
     (case mv_collections v (kb_str kb) of
        None \<Rightarrow> []
      | Some c \<Rightarrow> List.map_filter (\<lambda>(_, p). map_of (sp_payload p) field) (co_points c))"

definition mem_vector_ops :: "('f mem_vectors, 'f) vector_ops" where
  "mem_vector_ops = \<lparr>vo_upsert = mv_upsert_points, vo_delete = mv_delete_points,
     vo_indexed_etag = mv_indexed_etag, vo_indexed_objects = mv_indexed_objects\<rparr>"

section \<open>The in-memory store meets the contract\<close>

definition points_ok :: "(string \<times> nat) set \<Rightarrow> 'f collection \<Rightarrow> bool" where
  "points_ok K c \<longleftrightarrow>
     key_sorted fst (co_points c)
     \<and> (\<forall>n p. (n, p) \<in> set (co_points c) \<longrightarrow>
          (\<exists>k i. payload_key (sp_payload p) = Some (k, i) \<and> (k, i) \<in> K \<and> n = point_id k i))"

definition mem_ready :: "(string \<times> nat) set \<Rightarrow> 'f mem_vectors \<Rightarrow> bool" where
  "mem_ready K v \<longleftrightarrow>
     inj_on (\<lambda>(k, i). point_id k i) K \<and> (\<forall>kb c. mv_collections v kb = Some c \<longrightarrow> points_ok K c)"

definition chunk_at :: "'f collection \<Rightarrow> chunk_map" where
  "chunk_at c = (\<lambda>(k, i).
     case map_of (co_points c) (point_id k i) of
       None \<Rightarrow> None
     | Some p \<Rightarrow> if payload_key (sp_payload p) = Some (k, i) then Some (sp_payload p) else None)"

definition mem_chunks :: "'f mem_vectors \<Rightarrow> kb_slug \<Rightarrow> chunk_map" where
  "mem_chunks v kb = (case mv_collections v (kb_str kb) of None \<Rightarrow> Map.empty | Some c \<Rightarrow> chunk_at c)"

lemma payload_key_Some_iff:
  "payload_key pl = Some (k, i) \<longleftrightarrow> payload_str pl ''object_key'' = Some k \<and> payload_int pl ''chunk_index'' = Some (int i)"
  unfolding payload_key_def bind_eq_Some_conv by (auto split: if_splits) (metis int_nat_eq of_nat_0_le_iff nat_int)+

lemma map_of_insert_point: "map_of (insert_point n p ps) = (map_of ps)(n \<mapsto> p)"
  by (induction n p ps rule: insert_point.induct) auto

lemma set_insert_point: "set (insert_point n p ps) \<subseteq> insert (n, p) (set ps)"
  by (induction n p ps rule: insert_point.induct) auto

lemma key_sorted_insert_point: "key_sorted fst ps \<Longrightarrow> key_sorted fst (insert_point n p ps)"
proof (induction n p ps rule: insert_point.induct)
  case (2 n p m q ps)
  have tail: "\<forall>y\<in>set ps. m < fst y" "key_sorted fst ps" using 2(2) by simp_all
  consider "n = m" | "n < m" | "m < n" using linorder_less_linear by blast
  then show ?case
  proof cases
    case 1
    then show ?thesis using tail by simp
  next
    case 2
    then show ?thesis using tail by (auto intro: less_trans)
  next
    case 3
    then have "key_sorted fst (insert_point n p ps)" using 2(1)[OF _ _ tail(2)] by auto
    moreover have "\<forall>y\<in>set (insert_point n p ps). m < fst y"
      using set_insert_point[of n p ps] tail(1) 3 by auto
    ultimately show ?thesis using less_imp_not_less[OF 3] less_imp_neq[OF 3] by auto
  qed
qed simp

lemma points_ok_map_of:
  "points_ok K c \<Longrightarrow> map_of (co_points c) n = Some p \<longleftrightarrow> (n, p) \<in> set (co_points c)"
  using key_sorted_distinct[of fst "co_points c"] by (simp add: points_ok_def)

lemma sp_payload_stored_of: "sp_payload (stored_of p) = pt_payload p"
proof -
  have "sp_payload (foldl (\<lambda>sp (name, value). let sp' = sp\<lparr>sp_vector_names := insert name (sp_vector_names sp)\<rparr> in
        case value of Dense d \<Rightarrow> if name = ''dense'' then sp'\<lparr>sp_dense := d\<rparr> else sp'
        | Document t \<Rightarrow> sp'\<lparr>sp_text := t\<rparr>) sp vs) = sp_payload sp" for sp :: "'a stored_point" and vs
    by (induction vs arbitrary: sp) (auto simp: Let_def split: vector_value.splits)
  then show ?thesis by (simp add: stored_of_def)
qed

lemma chunk_at_insert:
  assumes inj: "inj_on (\<lambda>(k, i). point_id k i) K" and ok: "points_ok K c"
    and p: "payload_key (sp_payload p) = Some (k, i)" "(k, i) \<in> K"
  shows "points_ok K (c\<lparr>co_points := insert_point (point_id k i) p (co_points c)\<rparr>)"
    and "chunk_at (c\<lparr>co_points := insert_point (point_id k i) p (co_points c)\<rparr>) = (chunk_at c)((k, i) \<mapsto> sp_payload p)"
proof -
  let ?c = "c\<lparr>co_points := insert_point (point_id k i) p (co_points c)\<rparr>"
  show okc: "points_ok K ?c"
    using ok p set_insert_point[of "point_id k i" p "co_points c"]
    by (fastforce simp: points_ok_def key_sorted_insert_point)
  show "chunk_at ?c = (chunk_at c)((k, i) \<mapsto> sp_payload p)"
  proof
    fix x :: "string \<times> nat"
    obtain k' i' where x: "x = (k', i')" by fastforce
    show "chunk_at ?c x = ((chunk_at c)((k, i) \<mapsto> sp_payload p)) x"
    proof (cases "(k', i') = (k, i)")
      case True
      then show ?thesis using p x by (simp add: chunk_at_def map_of_insert_point)
    next
      case False
      have "chunk_at c (k', i') = None" if "point_id k' i' = point_id k i"
      proof (rule ccontr)
        assume "chunk_at c (k', i') \<noteq> None"
        then obtain q where "map_of (co_points c) (point_id k' i') = Some q" "payload_key (sp_payload q) = Some (k', i')"
          by (auto simp: chunk_at_def split: option.splits if_splits)
        then have "(k', i') \<in> K" using ok unfolding points_ok_map_of[OF ok] points_ok_def by fastforce
        then show False using inj_onD[OF inj, of "(k', i')" "(k, i)"] that p(2) False by simp
      qed
      then show ?thesis using False p(1) x by (auto simp: chunk_at_def map_of_insert_point)
    qed
  qed
qed

lemma store_points_ok:
  assumes inj: "inj_on (\<lambda>(k, i). point_id k i) K"
  shows "store_points c ps = (r, c') \<Longrightarrow> points_ok K c \<Longrightarrow> (\<And>p. p \<in> set ps \<Longrightarrow> addressed K p) \<Longrightarrow>
    points_ok K c' \<and> (\<exists>n\<le>length ps. chunk_at c' = foldl put_point (chunk_at c) (take n ps) \<and> (r = Inr () \<longrightarrow> n = length ps))"
proof (induction c ps rule: store_points.induct)
  case (2 c p ps)
  obtain k i where p: "payload_key (pt_payload p) = Some (k, i)" "(k, i) \<in> K" "pt_id p = Some (point_id k i)"
    using 2(4)[of p] by (auto simp: addressed_def)
  let ?sp = "stored_of p" and ?c = "c\<lparr>co_points := insert_point (point_id k i) (stored_of p) (co_points c)\<rparr>"
  let ?bad = "''dense'' \<in> sp_vector_names ?sp \<and> (of_nat (length (sp_dense ?sp)) :: u64) \<noteq> co_dense_dim c"
  show ?case
  proof (cases ?bad)
    case True
    then have "c' = c" "r \<noteq> Inr ()" using 2(2) p(3) by (auto simp: Let_def)
    then show ?thesis using 2(3) by (intro conjI exI[of _ 0]) auto
  next
    case False
    have k: "payload_key (sp_payload ?sp) = Some (k, i)" using p(1) by (simp add: sp_payload_stored_of)
    note ins = chunk_at_insert[OF inj 2(3) k p(2)]
    have st: "store_points ?c ps = (r, c')" using 2(2) p(3) False by (auto simp: Let_def)
    obtain n where n: "points_ok K c'" "n \<le> length ps" "chunk_at c' = foldl put_point (chunk_at ?c) (take n ps)" "r = Inr () \<longrightarrow> n = length ps"
      using 2(1)[OF p(3) refl refl False st ins(1)] 2(4) by auto
    have "chunk_at ?c = put_point (chunk_at c) p" using ins(2) p(1) by (simp add: put_point_def sp_payload_stored_of)
    then show ?thesis using n by (intro conjI exI[of _ "Suc n"]) simp_all
  qed
qed (auto intro: exI[of _ 0])

lemma chunk_at_filter:
  assumes ok: "points_ok K c"
  shows "points_ok K (c\<lparr>co_points := filter (\<lambda>(_, p). retained sel (sp_payload p)) (co_points c)\<rparr>)"
    and "chunk_at (c\<lparr>co_points := filter (\<lambda>(_, p). retained sel (sp_payload p)) (co_points c)\<rparr>) = without sel (chunk_at c)"
proof -
  let ?c = "c\<lparr>co_points := filter (\<lambda>(_, p). retained sel (sp_payload p)) (co_points c)\<rparr>"
  show okc: "points_ok K ?c" using ok by (auto simp: points_ok_def sorted_wrt_map sorted_wrt_filter)
  show "chunk_at ?c = without sel (chunk_at c)"
  proof
    fix x :: "string \<times> nat"
    obtain k i where x: "x = (k, i)" by fastforce
    have keep: "payload_key pl = Some (k, i) \<Longrightarrow> retained sel pl \<longleftrightarrow>
        (case sel of Sel_Object key \<Rightarrow> k \<noteq> key | Sel_Chunks_From key n \<Rightarrow> \<not> (k = key \<and> n \<le> i))" for pl
      by (auto simp: payload_key_Some_iff retained_def Let_def split: point_selector.splits)
    have "map_of (co_points ?c) (point_id k i) =
        (case map_of (co_points c) (point_id k i) of Some p \<Rightarrow> if retained sel (sp_payload p) then Some p else None | None \<Rightarrow> None)"
    proof (cases "map_of (co_points c) (point_id k i)")
      case None
      then have "map_of (co_points ?c) (point_id k i) = None" by (auto simp: map_of_eq_None_iff)
      then show ?thesis using None by simp
    next
      case (Some p)
      then have "\<forall>q. (point_id k i, q) \<in> set (co_points c) \<longleftrightarrow> q = p" unfolding points_ok_map_of[OF ok, symmetric] by auto
      then show ?thesis using Some points_ok_map_of[OF okc, of "point_id k i"]
        by (cases "map_of (co_points ?c) (point_id k i)") (auto simp: map_of_eq_None_iff)
    qed
    then show "chunk_at ?c x = without sel (chunk_at c) x"
      using keep x by (auto simp: chunk_at_def without_def split: option.splits point_selector.splits)
  qed
qed

lemma mem_chunks_set:
  "mem_chunks (mv_set_collection v kb c) kb' = (if kb_str kb' = kb_str kb then chunk_at c else mem_chunks v kb')"
  by (simp add: mem_chunks_def mv_set_collection_def)

lemma mem_ready_set: "mem_ready K v \<Longrightarrow> points_ok K c \<Longrightarrow> mem_ready K (mv_set_collection v kb c)"
  by (auto simp: mem_ready_def mv_set_collection_def)

lemma mv_collection_ok:
  "mv_collection v kb = Inr c \<Longrightarrow> mem_ready K v \<Longrightarrow> points_ok K c \<and> mem_chunks v kb = chunk_at c"
  by (auto simp: mv_collection_def mv_check_reachable_def mem_ready_def mem_chunks_def result_simps split: if_splits)

lemma object_etags_agreed:
  assumes ok: "points_ok K c"
  shows "agreed_etag (chunk_at c) key
    (case object_etags c key of Some etag # etags \<Rightarrow> if list_all (\<lambda>other. other = Some etag) etags then Some etag else None | _ \<Rightarrow> None)"
proof -
  have at: "chunk_at c (key, i) = Some pl \<longleftrightarrow> (\<exists>n p. (n, p) \<in> set (co_points c) \<and> payload_key (sp_payload p) = Some (key, i) \<and> sp_payload p = pl)" for i pl
  proof
    assume "chunk_at c (key, i) = Some pl"
    then show "\<exists>n p. (n, p) \<in> set (co_points c) \<and> payload_key (sp_payload p) = Some (key, i) \<and> sp_payload p = pl"
      by (auto simp: chunk_at_def points_ok_map_of[OF ok] split: option.splits if_splits)
  next
    assume "\<exists>n p. (n, p) \<in> set (co_points c) \<and> payload_key (sp_payload p) = Some (key, i) \<and> sp_payload p = pl"
    then obtain n p where p: "(n, p) \<in> set (co_points c)" "payload_key (sp_payload p) = Some (key, i)" "sp_payload p = pl" by blast
    then have "n = point_id key i" using ok unfolding points_ok_def by fastforce
    then have "map_of (co_points c) (point_id key i) = Some p" using p(1) points_ok_map_of[OF ok] by blast
    then show "chunk_at c (key, i) = Some pl" using p by (simp add: chunk_at_def)
  qed
  have keyed: "(n, p) \<in> set (co_points c) \<Longrightarrow> payload_str (sp_payload p) ''object_key'' = Some key \<longleftrightarrow> (\<exists>i. payload_key (sp_payload p) = Some (key, i))" for n p
    using ok unfolding points_ok_def payload_key_Some_iff by fastforce
  have etags: "e \<in> set (object_etags c key) \<longleftrightarrow> (\<exists>i pl. chunk_at c (key, i) = Some pl \<and> payload_str pl ''etag'' = e)" for e
    unfolding object_etags_def at using keyed by (auto, blast)
  then have "(\<exists>i pl. chunk_at c (key, i) = Some pl) \<longleftrightarrow> object_etags c key \<noteq> []"
    by (metis length_pos_if_in_set list.set_sel(1) list.size(3) less_irrefl)
  moreover have "(\<forall>i pl. chunk_at c (key, i) = Some pl \<longrightarrow> payload_str pl ''etag'' = Some t) \<longleftrightarrow> (\<forall>e\<in>set (object_etags c key). e = Some t)" for t
    unfolding Ball_def etags by auto
  ultimately show ?thesis
    unfolding agreed_etag_def by (auto split: list.splits option.splits simp: list_all_iff)
qed

interpretation mem_index: chunk_index mem_vector_ops K "mem_ready K" mem_chunks
proof
  show "mem_ready K v' \<and> (\<exists>n\<le>length pts. mem_chunks v' kb = foldl put_point (mem_chunks v kb) (take n pts) \<and> (r = Inr () \<longrightarrow> n = length pts))"
    if u: "vo_upsert mem_vector_ops v kb pts = (r, v')" and r: "mem_ready K v" and a: "\<And>p. p \<in> set pts \<Longrightarrow> addressed K p" for v kb pts r v'
  proof (cases "mv_collection v kb")
    case (Inl e)
    then show ?thesis using u r by (auto simp: mem_vector_ops_def mv_upsert_points_def intro: exI[of _ 0])
  next
    case (Inr c)
    obtain c' where c': "store_points c pts = (r, c')" "v' = mv_set_collection v kb c'"
      using u Inr by (auto simp: mem_vector_ops_def mv_upsert_points_def split: prod.splits)
    note ok = mv_collection_ok[OF Inr r]
    have "inj_on (\<lambda>(k, i). point_id k i) K" using r by (simp add: mem_ready_def)
    from store_points_ok[OF this c'(1)] ok a show ?thesis
      by (auto simp: c'(2) mem_chunks_set intro: mem_ready_set[OF r])
  qed
  show "mem_chunks v' kb' = mem_chunks v kb'"
    if "vo_upsert mem_vector_ops v kb pts = (r, v')" "kb_str kb' \<noteq> kb_str kb" for v kb pts r v' kb'
    using that by (auto simp: mem_vector_ops_def mv_upsert_points_def mem_chunks_set split: sum.splits prod.splits)
  show "mem_ready K v' \<and> mem_chunks v' kb = (if r = Inr () then without sel (mem_chunks v kb) else mem_chunks v kb)"
    if u: "vo_delete mem_vector_ops v kb sel = (r, v')" and r: "mem_ready K v" for v kb sel r v'
  proof (cases "mv_collection v kb")
    case (Inl e)
    then show ?thesis using u r by (auto simp: mem_vector_ops_def mv_delete_points_def)
  next
    case (Inr c)
    have v': "r = Inr ()" "v' = mv_set_collection v kb (c\<lparr>co_points := filter (\<lambda>(_, p). retained sel (sp_payload p)) (co_points c)\<rparr>)"
      using u Inr by (auto simp: mem_vector_ops_def mv_delete_points_def)
    note ok = mv_collection_ok[OF Inr r]
    show ?thesis using chunk_at_filter[of K c sel] ok v' mem_ready_set[OF r] by (simp add: mem_chunks_set)
  qed
  show "mem_chunks v' kb' = mem_chunks v kb'"
    if "vo_delete mem_vector_ops v kb sel = (r, v')" "kb_str kb' \<noteq> kb_str kb" for v kb sel r v' kb'
    using that by (auto simp: mem_vector_ops_def mv_delete_points_def mem_chunks_set split: sum.splits)
  show "agreed_etag (mem_chunks v kb) key t"
    if e: "vo_indexed_etag mem_vector_ops v kb key = Inr t" and r: "mem_ready K v" for v kb key t
  proof -
    obtain c where c: "mv_collection v kb = Inr c" using e by (cases "mv_collection v kb") (auto simp: mem_vector_ops_def mv_indexed_etag_def)
    note ok = mv_collection_ok[OF c r]
    show ?thesis using object_etags_agreed[of K c key] ok e c by (simp add: mem_vector_ops_def mv_indexed_etag_def)
  qed
qed

end
