(* ===== verification/Index_Pipeline.thy ===== *)
theory Index_Pipeline
  imports Vector_Store Index_Queue Index_Health
begin

text \<open>
  What the indexing worker does with one event (\<^verbatim>\<open>notedthat-indexer/src/worker.rs\<close>, \<^verbatim>\<open>worker/pipeline.rs\<close>,
  \<^verbatim>\<open>worker/chunks.rs\<close>): re-read the object, announce what the log has not said, decide whether it is
  indexable and changed, stage a snapshot, cut it into chunks, embed and store them batch by batch,
  drop the chunks of a longer earlier version, and record and publish the outcome.

  Time passes inside a handler.  The object is read twice: \<open>s1\<close> is the storage when HEAD is answered and
  \<open>s2\<close> when the body is.  Other handlers share the vector store: \<open>ie_env\<close> is what they do to it before
  each of this handler's calls.  The embedder answers each call with its own result.  The loop over
  batches is a partial function; it is shown to return.  The text an error is reported with
  (\<open>ie_message\<close>) is not interpreted.
\<close>

section \<open>Values\<close>

datatype skip = Skip_Never | Skip_IfUnchanged

datatype told = Told_Nothing event_source | Told_Written | Told_Deleted

datatype pipeline_outcome =
    Indexed string string nat
  | Skipped
  | Tombstoned

datatype pipeline_error =
    Head_Failed storage_error
  | Delete_Failed vector_store_error
  | Zero_Input_Limit
  | No_Etag
  | Get_Failed storage_error
  | Etag_Differs
  | Staging_Failed "storage_error stage_error"
  | Inspection_Failed observe_error
  | Cursor_Failed chunk_error
  | Chunk_Read_Failed chunk_error
  | Chunk_Index_Overflow
  | Chunk_Too_Large nat nat nat
  | Embed_Failed string
  | Embed_Count nat nat
  | Points_Failed points_error
  | Upsert_Failed vector_store_error
  | Count_Out_Of_Range
  | Cleanup_Failed vector_store_error

record pipeline_failure =
  pf_error :: pipeline_error
  pf_etag :: "string option"
  pf_mime :: "string option"
  pf_after_head :: bool

definition before_head :: "pipeline_error \<Rightarrow> pipeline_failure" where
  "before_head e = \<lparr>pf_error = e, pf_etag = None, pf_mime = None, pf_after_head = False\<rparr>"

definition FRONTMATTER_PREFIX_LIMIT :: nat where
  "FRONTMATTER_PREFIX_LIMIT = 16 * 1024 * 1024"

definition MAX_UTF8_BYTES_PER_SCALAR :: nat where
  "MAX_UTF8_BYTES_PER_SCALAR = 4"

record ('s, 'v, 'f) indexer_env =
  ie_storage :: "'s storage_ops"
  ie_store :: "('v, 'f) vector_ops"
  ie_env :: "'v \<Rightarrow> 'v"
  ie_embed :: "nat \<Rightarrow> string list \<Rightarrow> (string, 'f list list) result"
  ie_max_input_tokens :: nat
  ie_batch_size :: nat
  ie_disk :: "storage_error disk"
  ie_stream :: "bytes \<Rightarrow> (storage_error, bytes) result list"
  ie_sha :: "string \<Rightarrow> string"
  ie_yaml :: "string \<Rightarrow> yaml_value option"
  ie_cmark :: markdown_parser
  ie_events :: bool
  ie_publish_ok :: "object_event \<Rightarrow> bool"
  ie_at :: string
  ie_now :: int
  ie_message :: "pipeline_error \<Rightarrow> string"

text \<open>What handlers share: the vector store, the last-seen stamps, the health record, and the log of published events.\<close>

record 'v indexer_state =
  ix_store :: 'v
  ix_seen :: last_seen
  ix_log :: "object_event list"
  ix_health :: index_health

section \<open>Content types\<close>

definition is_indexable :: "string \<Rightarrow> bool" where
  "is_indexable mime \<longleftrightarrow> essence mime = ''text/markdown'' \<or> essence mime = ''text/plain''"

definition content_type_from_key :: "string \<Rightarrow> string option" where
  "content_type_from_key key =
     (if CHR ''.'' \<notin> set key then None
      else
        let extension = to_ascii_lowercase (last (split_on CHR ''.'' key)) in
        if extension = ''md'' \<or> extension = ''markdown'' then Some ''text/markdown''
        else if extension = ''txt'' then Some ''text/plain''
        else None)"

definition resolved_mime :: "object_meta \<Rightarrow> object_path \<Rightarrow> string" where
  "resolved_mime head object_key =
     (case om_content_type head of
        Some declared \<Rightarrow>
          if essence declared \<noteq> [] then trim declared
          else etag_or_empty (content_type_from_key (path_str object_key))
      | None \<Rightarrow> etag_or_empty (content_type_from_key (path_str object_key)))"

section \<open>The log\<close>

definition ix_publish :: "('s, 'v, 'f) indexer_env \<Rightarrow> object_event \<Rightarrow> 'v indexer_state \<Rightarrow> 'v indexer_state" where
  "ix_publish env event ix =
     (if ie_events env \<and> ie_publish_ok env event then ix\<lparr>ix_log := ix_log ix @ [event]\<rparr> else ix)"

definition remember :: "('s, 'v, 'f) indexer_env \<Rightarrow> kb_slug \<Rightarrow> object_path \<Rightarrow> string option \<Rightarrow> 'v indexer_state \<Rightarrow> 'v indexer_state" where
  "remember env kb key etag ix =
     (if \<not> ie_events env then ix else ix\<lparr>ix_seen := last_seen_record (ix_seen ix) (kb, key) etag\<rparr>)"

definition is_news :: "kb_slug \<Rightarrow> object_path \<Rightarrow> string option \<Rightarrow> 'v indexer_state \<Rightarrow> bool" where
  "is_news kb key etag ix = last_seen_differs (ix_seen ix) (kb, key) etag"

definition announce :: "('s, 'v, 'f) indexer_env \<Rightarrow> object_event \<Rightarrow> 'v indexer_state \<Rightarrow> 'v indexer_state" where
  "announce env event ix =
     (if \<not> ie_events env then ix
      else
        let etag = event_etag (oe_kind event) in
        if \<not> is_news (oe_kb event) (oe_key event) etag ix then ix
        else ix_publish env event (remember env (oe_kb event) (oe_key event) etag ix))"

section \<open>Chunks in batches\<close>

record chunk_cursor =
  cc_chunks :: chunk_iter
  cc_next_index :: nat

fun take_chunk_batch ::
  "markdown_parser \<Rightarrow> string \<Rightarrow> chunk_cursor \<Rightarrow> nat \<Rightarrow> (nat \<times> chunk) list
     \<Rightarrow> (pipeline_error, chunk_cursor \<times> (nat \<times> chunk) list) result option" where
  "take_chunk_batch cmark doc cur 0 batch = Some (Inr (cur, batch))"
| "take_chunk_batch cmark doc cur (Suc n) batch =
     (case chunk_next cmark doc (cc_chunks cur) of
        None \<Rightarrow> None
      | Some (None, it) \<Rightarrow> Some (Inr (cur\<lparr>cc_chunks := it\<rparr>, batch))
      | Some (Some (Inl e), it) \<Rightarrow> Some (Inl (Chunk_Read_Failed e))
      | Some (Some (Inr c), it) \<Rightarrow>
          if 2 ^ 64 \<le> cc_next_index cur + 1 then Some (Inl Chunk_Index_Overflow)
          else take_chunk_batch cmark doc \<lparr>cc_chunks = it, cc_next_index = cc_next_index cur + 1\<rparr> n
                 (batch @ [(cc_next_index cur, c)]))"

definition validate_chunk_byte_bound :: "(nat \<times> chunk) list \<Rightarrow> nat \<Rightarrow> (pipeline_error, unit) result" where
  "validate_chunk_byte_bound batch maximum =
     (case find (\<lambda>(_, c). maximum < length (ck_text c)) batch of
        Some (index, c) \<Rightarrow> Inl (Chunk_Too_Large index (length (ck_text c)) maximum)
      | None \<Rightarrow> Inr ())"

definition open_chunk_cursor :: "nat \<Rightarrow> nat \<Rightarrow> (pipeline_error, chunk_cursor) result" where
  "open_chunk_cursor body_start max_chars =
     res_map (\<lambda>it. \<lparr>cc_chunks = it, cc_next_index = 0\<rparr>) (map_err Cursor_Failed (stream_chunks max_chars body_start))"

section \<open>The snapshot\<close>

record prepared_snapshot =
  ps_body :: bytes
  ps_etag :: string
  ps_meta :: object_meta
  ps_facts :: snapshot_facts
  ps_metadata :: "concept_metadata option"
  ps_body_start :: nat

text \<open>The body stream with the observer attached: an inspection error becomes an error of the stream.\<close>

fun observed_chunks :: "snapshot_observer \<Rightarrow> (storage_error, bytes) result list \<Rightarrow> (storage_error, bytes) result list \<times> snapshot_observer" where
  "observed_chunks ob [] = ([], ob)"
| "observed_chunks ob (Inl e # cs) = ([Inl e], ob)"
| "observed_chunks ob (Inr bytes # cs) =
     (case observe ob bytes of
        Inl _ \<Rightarrow> ([Inl (SE_Other ''index snapshot'')], ob)
      | Inr ob' \<Rightarrow> (case observed_chunks ob' cs of (out, ob'') \<Rightarrow> (Inr bytes # out, ob'')))"

definition front_matter :: "('s, 'v, 'f) indexer_env \<Rightarrow> object_path \<Rightarrow> snapshot_facts \<Rightarrow> concept_metadata option \<times> nat" where
  "front_matter env key facts =
     (case concept_prefix (ie_yaml env) (path_str key) (sf_prefix facts) of
        None \<Rightarrow> (None, 0) | Some (m, n) \<Rightarrow> (Some m, n))"

definition stage_snapshot ::
  "('s, 'v, 'f) indexer_env \<Rightarrow> 's \<Rightarrow> kb_slug \<Rightarrow> object_path \<Rightarrow> object_meta \<Rightarrow> (pipeline_error, prepared_snapshot) result" where
  "stage_snapshot env s2 kb key head =
     res_bind (ok_or No_Etag (om_etag head)) (\<lambda>head_etag.
     res_bind (map_err Get_Failed (op_get (ie_storage env) s2 kb key None (no_conditions\<lparr>if_match := Some head_etag\<rparr>))) (\<lambda>object_read.
     if om_etag (or_meta object_read) \<noteq> Some head_etag then Inl Etag_Differs
     else
       let (out, observer) = observed_chunks (observer_new FRONTMATTER_PREFIX_LIMIT) (ie_stream env (or_bytes object_read)) in
       res_bind (map_err Staging_Failed (stage_stream_to_file (ie_disk env) out (Some (om_size head)) (- 1))) (\<lambda>staged.
       res_bind (map_err Inspection_Failed (observer_finish (ie_sha env) observer)) (\<lambda>facts.
       Inr \<lparr>ps_body = staged_bytes staged, ps_etag = head_etag, ps_meta = or_meta object_read, ps_facts = facts,
            ps_metadata = fst (front_matter env key facts), ps_body_start = snd (front_matter env key facts)\<rparr>))))"

section \<open>Storing\<close>

partial_function (option) upsert_batches ::
  "('s, 'v, 'f) indexer_env \<Rightarrow> kb_slug \<Rightarrow> object_path \<Rightarrow> prepared_snapshot \<Rightarrow> chunk_cursor \<Rightarrow> 'v
     \<Rightarrow> ((pipeline_error, nat) result \<times> 'v) option" where
  "upsert_batches env kb key snap cur v =
     (case take_chunk_batch (ie_cmark env) (drop (ps_body_start snap) (ps_body snap)) cur (max (ie_batch_size env) 1) [] of
        None \<Rightarrow> None
      | Some (Inl e) \<Rightarrow> Some (Inl e, v)
      | Some (Inr (cur', batch)) \<Rightarrow>
          if batch = [] then Some (Inr (cc_next_index cur'), v)
          else
            case validate_chunk_byte_bound batch (ie_max_input_tokens env) of
              Inl e \<Rightarrow> Some (Inl e, v)
            | Inr _ \<Rightarrow>
                (let texts = map (\<lambda>(_, c). ck_text c) batch in
                 case ie_embed env (cc_next_index cur) texts of
                   Inl e \<Rightarrow> Some (Inl (Embed_Failed e), v)
                 | Inr embeddings \<Rightarrow>
                     if length embeddings \<noteq> length texts then Some (Inl (Embed_Count (length embeddings) (length texts)), v)
                     else
                       case build_points batch embeddings key (ps_meta snap) (sf_content_hash (ps_facts snap)) (ps_metadata snap) of
                         Inl e \<Rightarrow> Some (Inl (Points_Failed e), v)
                       | Inr points \<Rightarrow>
                           (case vo_upsert (ie_store env) (ie_env env v) kb points of
                              (Inl e, v') \<Rightarrow> Some (Inl (Upsert_Failed e), v')
                            | (Inr _, v') \<Rightarrow> upsert_batches env kb key snap cur' v')))"

definition cleanup_obsolete ::
  "('s, 'v, 'f) indexer_env \<Rightarrow> kb_slug \<Rightarrow> object_path \<Rightarrow> nat \<Rightarrow> 'v \<Rightarrow> (pipeline_error, unit) result \<times> 'v" where
  "cleanup_obsolete env kb key from_index v =
     apfst (map_err Cleanup_Failed) (vo_delete (ie_store env) (ie_env env v) kb (Sel_Chunks_From (path_str key) from_index))"

definition handle_tombstone ::
  "('s, 'v, 'f) indexer_env \<Rightarrow> kb_slug \<Rightarrow> object_path \<Rightarrow> 'v \<Rightarrow> (pipeline_error, unit) result \<times> 'v" where
  "handle_tombstone env kb key v =
     apfst (map_err Delete_Failed) (vo_delete (ie_store env) (ie_env env v) kb (Sel_Object (path_str key)))"

definition already_indexed :: "('s, 'v, 'f) indexer_env \<Rightarrow> kb_slug \<Rightarrow> object_path \<Rightarrow> object_meta \<Rightarrow> 'v \<Rightarrow> bool" where
  "already_indexed env kb key head v =
     (case om_etag head of
        None \<Rightarrow> False
      | Some head_etag \<Rightarrow>
          (case vo_indexed_etag (ie_store env) v kb (path_str key) of
             Inr indexed \<Rightarrow> indexed = Some head_etag
           | Inl _ \<Rightarrow> False))"

definition tombstoned :: "(pipeline_error, unit) result \<times> 'v \<Rightarrow> ((pipeline_error, pipeline_outcome) result \<times> 'v) option" where
  "tombstoned r = Some (apfst (res_map (\<lambda>_. Tombstoned)) r)"

text \<open>What follows the staging: cut, store, and drop what a longer version left.\<close>

definition index_snapshot ::
  "('s, 'v, 'f) indexer_env \<Rightarrow> kb_slug \<Rightarrow> object_path \<Rightarrow> prepared_snapshot \<Rightarrow> string \<Rightarrow> 'v
     \<Rightarrow> ((pipeline_error, pipeline_outcome) result \<times> 'v) option" where
  "index_snapshot env kb key snap mime v =
     (let max_chars = min SOFT_CHAR_CAP (max (ie_max_input_tokens env div MAX_UTF8_BYTES_PER_SCALAR) 1) in
      case open_chunk_cursor (ps_body_start snap) max_chars of
        Inl e \<Rightarrow> Some (Inl e, v)
      | Inr cursor \<Rightarrow>
          (case upsert_batches env kb key snap cursor v of
             None \<Rightarrow> None
           | Some (Inl e, v1) \<Rightarrow> Some (Inl e, v1)
           | Some (Inr new_count, v1) \<Rightarrow>
               if new_count = 0 then tombstoned (handle_tombstone env kb key v1)
               else if 2 ^ 32 \<le> new_count then Some (Inl Count_Out_Of_Range, v1)
               else
                 Some (case cleanup_obsolete env kb key new_count v1 of (r, v2) \<Rightarrow>
                   (res_map (\<lambda>_. Indexed (ps_etag snap) mime new_count) r, v2))))"

definition index_head ::
  "('s, 'v, 'f) indexer_env \<Rightarrow> 's \<Rightarrow> kb_slug \<Rightarrow> object_path \<Rightarrow> object_meta \<Rightarrow> string \<Rightarrow> skip \<Rightarrow> 'v
     \<Rightarrow> ((pipeline_error, pipeline_outcome) result \<times> 'v) option" where
  "index_head env s2 kb key head mime skip v =
     (if \<not> is_indexable mime then tombstoned (handle_tombstone env kb key v)
      else if om_size head = 0 then tombstoned (handle_tombstone env kb key v)
      else
        let v1 = (if skip = Skip_IfUnchanged then ie_env env v else v) in
        if skip = Skip_IfUnchanged \<and> already_indexed env kb key head v1 then Some (Inr Skipped, v1)
        else if ie_max_input_tokens env = 0 then Some (Inl Zero_Input_Limit, v1)
        else
          case stage_snapshot env s2 kb key head of
            Inl e \<Rightarrow> Some (Inl e, v1)
          | Inr snap \<Rightarrow> index_snapshot env kb key (snap\<lparr>ps_meta := (ps_meta snap)\<lparr>om_content_type := Some mime\<rparr>\<rparr>) mime v1)"

section \<open>One event\<close>

definition tombstone_outcome ::
  "('s, 'v, 'f) indexer_env \<Rightarrow> kb_slug \<Rightarrow> object_path \<Rightarrow> 'v indexer_state
     \<Rightarrow> ((pipeline_failure, pipeline_outcome) result \<times> 'v indexer_state) option" where
  "tombstone_outcome env kb key ix =
     (case handle_tombstone env kb key (ix_store ix) of (r, v) \<Rightarrow>
        Some (map_err before_head (res_map (\<lambda>_. Tombstoned) r), ix\<lparr>ix_store := v\<rparr>))"

definition handle_upsert ::
  "('s, 'v, 'f) indexer_env \<Rightarrow> 's \<Rightarrow> 's \<Rightarrow> kb_slug \<Rightarrow> object_path \<Rightarrow> skip \<Rightarrow> told \<Rightarrow> 'v indexer_state
     \<Rightarrow> ((pipeline_failure, pipeline_outcome) result \<times> 'v indexer_state) option" where
  "handle_upsert env s1 s2 kb key skip told ix =
     (if is_reserved key then tombstone_outcome env kb key ix
      else
        case op_head (ie_storage env) s1 kb key no_conditions of
          Inl (SE_NotFound m) \<Rightarrow>
            (let ix1 = (case told of
                 Told_Nothing src \<Rightarrow> announce env (event_deleted (ie_at env) kb key src) ix
               | Told_Deleted \<Rightarrow> remember env kb key None ix
               | Told_Written \<Rightarrow> ix) in
             tombstone_outcome env kb key ix1)
        | Inl e \<Rightarrow>
            if told = Told_Deleted \<and> (case e of SE_BackendUnavailable _ \<Rightarrow> True | SE_Other _ \<Rightarrow> True | _ \<Rightarrow> False)
            then tombstone_outcome env kb key ix
            else Some (Inl (before_head (Head_Failed e)), ix)
        | Inr head \<Rightarrow>
            (let ix1 = (case told of
                 Told_Nothing src \<Rightarrow> announce env (event_from_meta (ie_at env) kb key head src) ix
               | Told_Written \<Rightarrow> remember env kb key (om_etag head) ix
               | Told_Deleted \<Rightarrow> ix);
                 mime = resolved_mime head key in
             map_option (\<lambda>(r, v).
                 (map_err (\<lambda>e. \<lparr>pf_error = e, pf_etag = om_etag head,
                                 pf_mime = (if mime \<noteq> [] then Some mime else None), pf_after_head = True\<rparr>) r,
                  ix1\<lparr>ix_store := v\<rparr>))
               (index_head env s2 kb key head mime skip (ix_store ix1))))"

fun is_tombstone :: "index_event \<Rightarrow> bool" where
  "is_tombstone (Tombstone _ _) = True"
| "is_tombstone _ = False"

text \<open>The one outcome of a handler: its health record first, then the event that reports it.\<close>

definition record_outcome ::
  "('s, 'v, 'f) indexer_env \<Rightarrow> index_event \<Rightarrow> (pipeline_failure, pipeline_outcome) result \<Rightarrow> 'v indexer_state \<Rightarrow> 'v indexer_state" where
  "record_outcome env event r ix =
     (let kb = event_kb event; key = event_object_key event in
      case r of
        Inr outcome \<Rightarrow>
          (let ix1 = ix\<lparr>ix_health := health_succeeded (ix_health ix) (kb_str kb) (ie_now env)\<rparr> in
           case outcome of
             Indexed etag mime n \<Rightarrow> ix_publish env (event_indexed (ie_at env) kb key etag mime n) ix1
           | _ \<Rightarrow> ix1)
      | Inl failure \<Rightarrow>
          (let message = ie_message env (pf_error failure);
               ix1 = ix\<lparr>ix_health := health_failed (ix_health ix) (kb_str kb) (path_str key) message (ie_now env)\<rparr> in
           if \<not> is_tombstone event \<or> pf_after_head failure
           then ix_publish env (event_index_failed (ie_at env) kb key (pf_etag failure) (pf_mime failure) (bound_summary message)) ix1
           else ix1))"

definition handle_event ::
  "('s, 'v, 'f) indexer_env \<Rightarrow> 's \<Rightarrow> 's \<Rightarrow> index_event \<Rightarrow> 'v indexer_state
     \<Rightarrow> ((pipeline_failure, pipeline_outcome) result \<times> 'v indexer_state) option" where
  "handle_event env s1 s2 event ix =
     map_option (\<lambda>(r, ix1). (r, record_outcome env event r ix1))
       (case event of
          Upsert k p \<Rightarrow> handle_upsert env s1 s2 k p Skip_Never Told_Written ix
        | Refresh k p origin \<Rightarrow> handle_upsert env s1 s2 k p Skip_IfUnchanged (Told_Nothing (origin_source origin)) ix
        | Tombstone k p \<Rightarrow> handle_upsert env s1 s2 k p Skip_IfUnchanged Told_Deleted ix)"

section \<open>Batches of chunks\<close>

lemma yields_finished_again: "ci_finished it \<Longrightarrow> ci_held it = None \<Longrightarrow> yields cmark doc it cs \<longleftrightarrow> cs = []"
  by (subst yields.simps) (auto simp: chunk_next_def next_merged.simps[of cmark doc it] next_chunk_def)

lemma take_chunk_batch_yields:
  "yields cmark doc (cc_chunks cur) cs \<Longrightarrow> cc_next_index cur + length cs < 2 ^ 64 \<Longrightarrow>
     \<exists>cur'. take_chunk_batch cmark doc cur n acc = Some (Inr (cur', acc @ enumerate (cc_next_index cur) (take n cs)))
       \<and> cc_next_index cur' = cc_next_index cur + min n (length cs) \<and> yields cmark doc (cc_chunks cur') (drop n cs)"
proof (induction n arbitrary: cur acc cs)
  case (Suc n)
  show ?case using Suc.prems(1)
  proof (cases rule: yields.cases)
    case (yields_end it')
    then show ?thesis using yields_finished_again[of it' cmark doc] by auto
  next
    case (yields_more c it' cs')
    let ?cur = "\<lparr>cc_chunks = it', cc_next_index = cc_next_index cur + 1\<rparr>"
    have idx: "\<not> 2 ^ 64 \<le> cc_next_index cur + 1" using Suc.prems(2) yields_more(1) by simp
    obtain cur' where "take_chunk_batch cmark doc ?cur n (acc @ [(cc_next_index cur, c)]) =
          Some (Inr (cur', (acc @ [(cc_next_index cur, c)]) @ enumerate (cc_next_index cur + 1) (take n cs')))"
        "cc_next_index cur' = cc_next_index cur + 1 + min n (length cs')" "yields cmark doc (cc_chunks cur') (drop n cs')"
      using Suc.IH[of ?cur cs' "acc @ [(cc_next_index cur, c)]"] yields_more Suc.prems(2) by auto
    then show ?thesis using yields_more(1,2) idx by auto
  qed
qed simp

section \<open>Points of one object\<close>

text \<open>The chunks of one version of an object, as the index should hold them.\<close>

definition version_at :: "object_path \<Rightarrow> object_meta \<Rightarrow> string \<Rightarrow> concept_metadata option \<Rightarrow> chunk list \<Rightarrow> nat \<Rightarrow> payload option" where
  "version_at key meta hash md cs = (\<lambda>i. if i < length cs then Some (chunk_payload key meta hash md i (cs ! i)) else None)"

text \<open>The first \<open>n\<close> chunks of a version over what was there before.\<close>

definition overlaid :: "nat \<Rightarrow> (nat \<Rightarrow> payload option) \<Rightarrow> (nat \<Rightarrow> payload option) \<Rightarrow> nat \<Rightarrow> payload option" where
  "overlaid n new old = (\<lambda>i. if i < n then new i else old i)"

lemma payload_fields:
  "i < 2 ^ 63 \<Longrightarrow> payload_key (chunk_payload key meta hash md i c) = Some (path_str key, i)"
  "payload_str (chunk_payload key meta hash md i c) ''etag'' = Some (etag_or_empty (om_etag meta))"
  by (auto simp: payload_key_Some_iff chunk_payload_def i64_or_max_def split: option.splits)

lemma build_points_nth:
  assumes "build_points (enumerate j cs) es key meta hash md = Inr pts"
  shows "length pts = length cs" "\<And>x. x < length cs \<Longrightarrow> pt_payload (pts ! x) = chunk_payload key meta hash md (j + x) (cs ! x)"
    "\<And>x. x < length cs \<Longrightarrow> pt_id (pts ! x) = Some (point_id (path_str key) (j + x))"
  using assms
  by (auto simp: build_points_def chunk_point_def nth_enumerate_eq split: if_splits prod.splits)

lemma foldl_put_points:
  "(\<forall>x<length pts. payload_key (pt_payload (pts ! x)) = Some (k, j + x)) \<Longrightarrow>
     foldl put_point m pts = (\<lambda>(k', i). if k' = k \<and> j \<le> i \<and> i < j + length pts then Some (pt_payload (pts ! (i - j))) else m (k', i))"
proof (induction pts rule: rev_induct)
  case (snoc p pts)
  have ih: "foldl put_point m pts = (\<lambda>(k', i). if k' = k \<and> j \<le> i \<and> i < j + length pts then Some (pt_payload (pts ! (i - j))) else m (k', i))"
    using snoc.prems by (intro snoc.IH) (auto simp: nth_append dest: less_SucI)
  have p: "payload_key (pt_payload p) = Some (k, j + length pts)" using snoc.prems[rule_format, of "length pts"] by simp
  show ?case
  proof
    fix y :: "string \<times> nat"
    obtain k' i where y: "y = (k', i)" by fastforce
    show "foldl put_point m (pts @ [p]) y =
      (case y of (k', i) \<Rightarrow> if k' = k \<and> j \<le> i \<and> i < j + length (pts @ [p]) then Some (pt_payload ((pts @ [p]) ! (i - j))) else m (k', i))"
      using y by (cases "i = j + length pts") (auto simp: ih put_point_def p nth_append)
  qed
qed (auto simp: fun_eq_iff)

section \<open>What a snapshot is\<close>

definition stream_faithful :: "('s, 'v, 'f) indexer_env \<Rightarrow> bool" where
  "stream_faithful env \<longleftrightarrow>
     (\<forall>b cs. ie_stream env b = map Inr cs \<longrightarrow> concat cs = b) \<and> (\<forall>b c. Inr c \<in> set (ie_stream env b) \<longrightarrow> length c < 2 ^ 64)"

lemma observed_chunks_subset: "observed_chunks ob cs = (out, ob') \<Longrightarrow> Inr c \<in> set out \<Longrightarrow> Inr c \<in> set cs"
  by (induction ob cs arbitrary: out rule: observed_chunks.induct) (fastforce split: sum.splits prod.splits)+

definition facts_of :: "('s, 'v, 'f) indexer_env \<Rightarrow> bytes \<Rightarrow> snapshot_facts" where
  "facts_of env body = \<lparr>sf_content_hash = ie_sha env body,
     sf_prefix = take (valid_up_to (take FRONTMATTER_PREFIX_LIMIT body)) body\<rparr>"

lemma front_matter_boundary:
  assumes fm: "front_matter env key facts = (m, n)" and valid: "valid_utf8 body"
    and facts: "sf_prefix facts = take (valid_up_to (take limit body)) body"
  shows "n \<le> length body" "valid_utf8 (take n body)"
proof -
  have v: "valid_utf8 (take limit body @ drop limit body)" using valid by simp
  note up = valid_up_to_prefix[OF v]
  have pre: "sf_prefix facts = take (valid_up_to (take limit body)) (take limit body)"
    unfolding facts take_take using up(1) by (simp add: min.absorb1)
  have "n \<le> length body \<and> valid_utf8 (take n body)"
  proof (cases "concept_prefix (ie_yaml env) (path_str key) (sf_prefix facts)")
    case None
    then show ?thesis using fm by (auto simp: front_matter_def)
  next
    case (Some a)
    then have "concept_prefix (ie_yaml env) (path_str key) (sf_prefix facts) = Some (fst a, n)"
      using fm by (cases a) (auto simp: front_matter_def)
    from concept_prefix_boundary[OF this] pre up(3) have "n \<le> length (sf_prefix facts)" "valid_utf8 (take n (sf_prefix facts))" by simp_all
    then show ?thesis by (simp add: facts min.absorb1)
  qed
  then show "n \<le> length body" "valid_utf8 (take n body)" by simp_all
qed

lemma observed_chunks_all:
  "observed_chunks ob cs = (map Inr bs, ob') \<Longrightarrow> cs = map Inr bs \<and> observe_all ob bs = Inr ob'"
proof (induction ob cs arbitrary: bs rule: observed_chunks.induct)
  case (3 ob b cs)
  then show ?case by (auto split: sum.splits prod.splits simp: Cons_eq_map_conv)
qed (auto simp: Cons_eq_map_conv)

text \<open>
  A staged snapshot is the object HEAD described: its bytes as storage served them under the same tag, all
  valid UTF-8, with the hash of exactly these bytes; its body starts at a character boundary.
\<close>

lemma stage_snapshot_ok:
  assumes st: "stage_snapshot env s2 kb key head = Inr snap" and f: "stream_faithful env"
  obtains r where "op_get (ie_storage env) s2 kb key None (no_conditions\<lparr>if_match := om_etag head\<rparr>) = Inr r"
    "om_etag head = Some (ps_etag snap)" "om_etag (or_meta r) = Some (ps_etag snap)" "ps_body snap = or_bytes r"
    "ps_meta snap = or_meta r" "valid_utf8 (ps_body snap)" "ps_facts snap = facts_of env (ps_body snap)"
    "front_matter env key (ps_facts snap) = (ps_metadata snap, ps_body_start snap)"
    "unat (om_size head) = length (ps_body snap)"
    "ps_body_start snap \<le> length (ps_body snap)" "valid_utf8 (take (ps_body_start snap) (ps_body snap))"
proof -
  obtain t r where t: "om_etag head = Some t" "op_get (ie_storage env) s2 kb key None (no_conditions\<lparr>if_match := Some t\<rparr>) = Inr r"
    "om_etag (or_meta r) = Some t"
    using st by (auto simp: stage_snapshot_def result_simps split: if_splits)
  obtain out ob where ob: "observed_chunks (observer_new FRONTMATTER_PREFIX_LIMIT) (ie_stream env (or_bytes r)) = (out, ob)" by fastforce
  obtain staged facts where sf: "stage_stream_to_file (ie_disk env) out (Some (om_size head)) (- 1) = Inr staged"
    "observer_finish (ie_sha env) ob = Inr facts"
    "snap = \<lparr>ps_body = staged_bytes staged, ps_etag = t, ps_meta = or_meta r, ps_facts = facts,
       ps_metadata = fst (front_matter env key facts), ps_body_start = snd (front_matter env key facts)\<rparr>"
    using st t ob by (auto simp: stage_snapshot_def result_simps)
  have out: "\<forall>c. Inr c \<in> set out \<longrightarrow> length c < 2 ^ 64"
    using observed_chunks_subset[OF ob] f unfolding stream_faithful_def by blast
  obtain bs where bs: "out = map Inr bs" "staged_bytes staged = concat bs" "unat (sb_len staged) = length (concat bs)" "om_size head = sb_len staged"
    using stage_exact[of out "ie_disk env" "Some (om_size head)" "- 1" True staged "[]"] sf(1) out
    unfolding stage_stream_to_file_def by auto
  have oc: "ie_stream env (or_bytes r) = map Inr bs" "observe_all (observer_new FRONTMATTER_PREFIX_LIMIT) bs = Inr ob"
    using observed_chunks_all ob bs(1) by auto
  have body: "concat bs = or_bytes r" using f oc(1) by (simp add: stream_faithful_def)
  have fin: "valid_utf8 (or_bytes r)" "facts = \<lparr>sf_content_hash = ie_sha env (or_bytes r),
      sf_prefix = take (valid_up_to (take FRONTMATTER_PREFIX_LIMIT (or_bytes r))) (or_bytes r)\<rparr>"
    using snapshot_observer_exact[of FRONTMATTER_PREFIX_LIMIT bs "ie_sha env"] oc(2) sf(2) body by (auto split: if_splits)
  obtain m n where fm: "front_matter env key facts = (m, n)" by fastforce
  note b = front_matter_boundary[OF fm fin(1), of FRONTMATTER_PREFIX_LIMIT]
  show ?thesis
    by (rule that[of r]) (use t sf(3) bs body fin fm b in \<open>auto simp: facts_of_def\<close>)
qed

section \<open>What the index should hold\<close>

definition max_chunk_chars :: "('s, 'v, 'f) indexer_env \<Rightarrow> nat" where
  "max_chunk_chars env = min SOFT_CHAR_CAP (max (ie_max_input_tokens env div MAX_UTF8_BYTES_PER_SCALAR) 1)"

text \<open>
  \<open>m\<close> is what the index holds of an object of which HEAD said \<open>head\<close>: the chunks of the body served under
  HEAD's tag, cut after its front matter, each with the hash, tag and front matter of that body.
\<close>

definition indexes_version ::
  "('s, 'v, 'f) indexer_env \<Rightarrow> 's \<Rightarrow> kb_slug \<Rightarrow> object_path \<Rightarrow> object_meta \<Rightarrow> string \<Rightarrow> (nat \<Rightarrow> payload option) \<Rightarrow> nat \<Rightarrow> bool" where
  "indexes_version env s2 kb key head mime m n \<longleftrightarrow>
     (\<exists>r cs md k. op_get (ie_storage env) s2 kb key None (no_conditions\<lparr>if_match := om_etag head\<rparr>) = Inr r
        \<and> om_etag head \<noteq> None \<and> om_etag (or_meta r) = om_etag head
        \<and> valid_utf8 (or_bytes r) \<and> unat (om_size head) = length (or_bytes r)
        \<and> front_matter env key (facts_of env (or_bytes r)) = (md, k) \<and> k \<le> length (or_bytes r)
        \<and> chunked (drop k (or_bytes r)) k (max_chunk_chars env) (max_chunk_chars env div 4) 0 cs \<and> length cs = n
        \<and> m = version_at key ((or_meta r)\<lparr>om_content_type := Some mime\<rparr>) (ie_sha env (or_bytes r)) md cs)"

text \<open>Room for the object: chunk ids are told apart, and indices fit a payload's integer.\<close>

definition chunk_room :: "('s, 'v, 'f) indexer_env \<Rightarrow> 's \<Rightarrow> kb_slug \<Rightarrow> object_path \<Rightarrow> (string \<times> nat) set \<Rightarrow> bool" where
  "chunk_room env s2 kb key K \<longleftrightarrow>
     (\<forall>conds r. op_get (ie_storage env) s2 kb key None conds = Inr r \<longrightarrow>
        length (or_bytes r) < 2 ^ 63 \<and> (\<forall>i<length (or_bytes r). (path_str key, i) \<in> K))"

lemma chunked_length: "chunked doc base mx mn c cs \<Longrightarrow> c \<le> length doc \<Longrightarrow> length cs \<le> length doc - c"
proof (induction cs arbitrary: c)
  case (Cons k ks)
  then obtain a b where b: "c \<le> a" "piece_at doc base a b k" "chunked doc base mx mn b ks" by auto
  then have "length ks \<le> length doc - b" by (intro Cons.IH) (auto simp: piece_at_def)
  then show ?case using b(1,2) by (auto simp: piece_at_def)
qed simp

lemma max_chunk_chars_bounds: "0 < max_chunk_chars env" "max_chunk_chars env * 4 < 2 ^ 64"
  by (auto simp: max_chunk_chars_def SOFT_CHAR_CAP_def)

lemma staged_chunks:
  assumes st: "stage_snapshot env s2 kb key head = Inr snap0" and f: "stream_faithful env"
    and cm: "cmark_offsets (ie_cmark env)" "cmark_underlines (ie_cmark env)" and room: "chunk_room env s2 kb key K"
    and snap: "snap = snap0\<lparr>ps_meta := (ps_meta snap0)\<lparr>om_content_type := Some mime\<rparr>\<rparr>"
  obtains cur cs where "open_chunk_cursor (ps_body_start snap) (max_chunk_chars env) = Inr cur" "cc_next_index cur = 0"
    "yields (ie_cmark env) (drop (ps_body_start snap) (ps_body snap)) (cc_chunks cur) cs"
    "\<And>i. i < length cs \<Longrightarrow> (path_str key, i) \<in> K" "length cs < 2 ^ 63" "om_etag head = Some (ps_etag snap)"
    "indexes_version env s2 kb key head mime
       (version_at key (ps_meta snap) (sf_content_hash (ps_facts snap)) (ps_metadata snap) cs) (length cs)"
proof -
  obtain r where r: "op_get (ie_storage env) s2 kb key None (no_conditions\<lparr>if_match := om_etag head\<rparr>) = Inr r"
    "om_etag head = Some (ps_etag snap0)" "om_etag (or_meta r) = Some (ps_etag snap0)" "ps_body snap0 = or_bytes r"
    "ps_meta snap0 = or_meta r" "valid_utf8 (ps_body snap0)" "ps_facts snap0 = facts_of env (ps_body snap0)"
    "front_matter env key (ps_facts snap0) = (ps_metadata snap0, ps_body_start snap0)"
    "unat (om_size head) = length (ps_body snap0)"
    "ps_body_start snap0 \<le> length (ps_body snap0)" "valid_utf8 (take (ps_body_start snap0) (ps_body snap0))"
    using stage_snapshot_ok[OF st f] by blast
  let ?k = "ps_body_start snap0" and ?body = "ps_body snap0" and ?mx = "max_chunk_chars env"
  have rm: "length ?body < 2 ^ 63" "\<And>i. i < length ?body \<Longrightarrow> (path_str key, i) \<in> K"
    using room r(1,4) by (auto simp: chunk_room_def)
  obtain it where it: "stream_chunks ?mx ?k = Inr it" "ci_min_chars it = ?mx div 4" "ci_max_chars it = ?mx"
    using max_chunk_chars_bounds[of env] by (auto simp: stream_chunks_def)
  have same: "with_min_chars it (?mx div 4) = it" using it(2,3) by (simp add: with_min_chars_def)
  have "?k + length (drop ?k ?body) < 2 ^ 64" using rm(1) r(10) by simp
  from chunks_cover_file[OF valid_drop[OF r(6,11)] cm it(1) this, of "?mx div 4"]
  obtain cs where cs: "yields (ie_cmark env) (drop ?k ?body) it cs" "chunked (drop ?k ?body) ?k ?mx (?mx div 4) 0 cs"
    using same by auto
  have len: "length cs \<le> length ?body" using chunked_length[OF cs(2)] by simp
  have cur: "open_chunk_cursor ?k ?mx = Inr \<lparr>cc_chunks = it, cc_next_index = 0\<rparr>"
    using it(1) by (simp add: open_chunk_cursor_def result_simps)
  have iv: "indexes_version env s2 kb key head mime (version_at key (ps_meta snap) (sf_content_hash (ps_facts snap)) (ps_metadata snap) cs) (length cs)"
    unfolding indexes_version_def
    by (rule exI[of _ r], rule exI[of _ cs], rule exI[of _ "ps_metadata snap0"], rule exI[of _ ?k])
      (use r cs(2) in \<open>auto simp: snap facts_of_def\<close>)
  show thesis
    by (rule that[of "\<lparr>cc_chunks = it, cc_next_index = 0\<rparr>" cs]) (use cur cs(1) rm len r(2) iv in \<open>auto simp: snap\<close>)
qed

section \<open>One round of the batch loop\<close>

definition store_batch ::
  "('s, 'v, 'f) indexer_env \<Rightarrow> kb_slug \<Rightarrow> object_path \<Rightarrow> prepared_snapshot \<Rightarrow> chunk_cursor \<Rightarrow> 'v \<Rightarrow> 'f point_struct list
     \<Rightarrow> ((pipeline_error, nat) result \<times> 'v) option" where
  "store_batch env kb key snap cur v points =
     (case vo_upsert (ie_store env) (ie_env env v) kb points of
        (Inl e, v') \<Rightarrow> Some (Inl (Upsert_Failed e), v')
      | (Inr _, v') \<Rightarrow> upsert_batches env kb key snap cur v')"

text \<open>A round ends the loop without touching the store, or stores the batch's points and goes on.\<close>

lemma upsert_batches_round:
  assumes take: "take_chunk_batch (ie_cmark env) (drop (ps_body_start snap) (ps_body snap)) cur (max (ie_batch_size env) 1) []
      = Some (Inr (cur', batch))" and ne: "batch \<noteq> []"
  obtains (stop) e where "upsert_batches env kb key snap cur v = Some (Inl e, v)"
    | (store) es pts where "build_points batch es key (ps_meta snap) (sf_content_hash (ps_facts snap)) (ps_metadata snap) = Inr pts"
        "upsert_batches env kb key snap cur v = store_batch env kb key snap cur' v pts"
proof -
  let ?u = "upsert_batches env kb key snap cur v" and ?texts = "map (\<lambda>(_, c). ck_text c) batch"
  note unf = upsert_batches.simps[of env kb key snap cur v] take
  consider (bound) e where "validate_chunk_byte_bound batch (ie_max_input_tokens env) = Inl e"
    | (embed) u e where "validate_chunk_byte_bound batch (ie_max_input_tokens env) = Inr u" "ie_embed env (cc_next_index cur) ?texts = Inl e"
    | (number) u es where "validate_chunk_byte_bound batch (ie_max_input_tokens env) = Inr u"
        "ie_embed env (cc_next_index cur) ?texts = Inr es" "length es \<noteq> length ?texts"
    | (points) u es where "validate_chunk_byte_bound batch (ie_max_input_tokens env) = Inr u"
        "ie_embed env (cc_next_index cur) ?texts = Inr es" "length es = length ?texts"
    by (meson old.sum.exhaust)
  then show thesis
  proof cases
    case bound
    then show thesis by (intro stop[of e]) (simp add: unf ne del: One_nat_def)
  next
    case embed
    then show thesis by (intro stop[of "Embed_Failed e"]) (simp add: unf ne del: One_nat_def)
  next
    case number
    then show thesis by (intro stop) (simp add: unf ne del: One_nat_def)
  next
    case points
    then obtain pts where "build_points batch es key (ps_meta snap) (sf_content_hash (ps_facts snap)) (ps_metadata snap) = Inr pts"
      by (simp add: build_points_def)
    then show thesis using points by (intro store[of es pts]) (simp_all add: unf ne store_batch_def del: One_nat_def)
  qed
qed

section \<open>What an outcome says of the index\<close>

definition all_tagged :: "(nat \<Rightarrow> payload option) \<Rightarrow> string \<Rightarrow> bool" where
  "all_tagged m t \<longleftrightarrow> (\<exists>i pl. m i = Some pl) \<and> (\<forall>i pl. m i = Some pl \<longrightarrow> payload_str pl ''etag'' = Some t)"

text \<open>\<open>old\<close> and \<open>new\<close> are the object's chunks before and after.\<close>

definition index_result ::
  "('s, 'v, 'f) indexer_env \<Rightarrow> 's \<Rightarrow> kb_slug \<Rightarrow> object_path \<Rightarrow> object_meta \<Rightarrow> string \<Rightarrow> skip
     \<Rightarrow> (nat \<Rightarrow> payload option) \<Rightarrow> (nat \<Rightarrow> payload option) \<Rightarrow> (pipeline_error, pipeline_outcome) result \<Rightarrow> bool" where
  "index_result env s2 kb key head mime skip old new r \<longleftrightarrow>
     (case r of
        Inr (Indexed t m n) \<Rightarrow>
          m = mime \<and> is_indexable mime \<and> om_etag head = Some t \<and> 0 < n \<and> n < 2 ^ 32 \<and> indexes_version env s2 kb key head mime new n
      | Inr Skipped \<Rightarrow> skip = Skip_IfUnchanged \<and> new = old \<and> (\<exists>t. om_etag head = Some t \<and> all_tagged new t)
      | Inr Tombstoned \<Rightarrow>
          new = Map.empty \<and> (\<not> is_indexable mime \<or> om_size head = 0 \<or> (\<exists>ver. indexes_version env s2 kb key head mime ver 0))
      | Inl e \<Rightarrow> new = old \<or> (\<exists>ver total n. indexes_version env s2 kb key head mime ver total \<and> n \<le> total \<and> new = overlaid n ver old))"

fun event_skip :: "index_event \<Rightarrow> skip" where
  "event_skip (Upsert _ _) = Skip_Never"
| "event_skip _ = Skip_IfUnchanged"

text \<open>
  What the result of an event says.  A key storage does not answer for is left alone, except that a
  reserved key, a key known to be gone, and a deleted key storage cannot be asked about lose their chunks.
\<close>

definition event_result ::
  "('s, 'v, 'f) indexer_env \<Rightarrow> 's \<Rightarrow> 's \<Rightarrow> index_event \<Rightarrow> (nat \<Rightarrow> payload option) \<Rightarrow> (nat \<Rightarrow> payload option)
     \<Rightarrow> (pipeline_failure, pipeline_outcome) result \<Rightarrow> bool" where
  "event_result env s1 s2 event old new r \<longleftrightarrow>
     (let kb = event_kb event; key = event_object_key event;
          removed = (case r of Inr outcome \<Rightarrow> outcome = Tombstoned \<and> new = Map.empty | Inl f \<Rightarrow> \<not> pf_after_head f \<and> new = old) in
      if is_reserved key then removed
      else case op_head (ie_storage env) s1 kb key no_conditions of
        Inr head \<Rightarrow>
          index_result env s2 kb key head (resolved_mime head key) (event_skip event) old new (map_err pf_error r)
          \<and> (\<forall>f. r = Inl f \<longrightarrow> pf_after_head f \<and> pf_etag f = om_etag head)
      | Inl (SE_NotFound m) \<Rightarrow> removed
      | Inl e \<Rightarrow>
          if is_tombstone event \<and> (\<exists>m. e = SE_BackendUnavailable m \<or> e = SE_Other m) then removed
          else r = Inl (before_head (Head_Failed e)) \<and> new = old)"

text \<open>What a detected change adds to the log, when it is news.\<close>

definition announcement :: "('s, 'v, 'f) indexer_env \<Rightarrow> 's \<Rightarrow> index_event \<Rightarrow> 'v indexer_state \<Rightarrow> object_event list" where
  "announcement env s1 event ix =
     (case event of
        Refresh kb key origin \<Rightarrow>
          if is_reserved key then []
          else
            filter (\<lambda>ev. is_news kb key (event_etag (oe_kind ev)) ix)
              (case op_head (ie_storage env) s1 kb key no_conditions of
                 Inr head \<Rightarrow> [event_from_meta (ie_at env) kb key head (origin_source origin)]
               | Inl (SE_NotFound m) \<Rightarrow> [event_deleted (ie_at env) kb key (origin_source origin)]
               | Inl e \<Rightarrow> [])
      | _ \<Rightarrow> [])"

definition outcome_events :: "('s, 'v, 'f) indexer_env \<Rightarrow> index_event \<Rightarrow> (pipeline_failure, pipeline_outcome) result \<Rightarrow> object_event list" where
  "outcome_events env event r =
     (case r of
        Inr (Indexed etag mime n) \<Rightarrow> [event_indexed (ie_at env) (event_kb event) (event_object_key event) etag mime n]
      | Inr _ \<Rightarrow> []
      | Inl f \<Rightarrow>
          if \<not> is_tombstone event \<or> pf_after_head f
          then [event_index_failed (ie_at env) (event_kb event) (event_object_key event) (pf_etag f) (pf_mime f)
                  (bound_summary (ie_message env (pf_error f)))]
          else [])"

section \<open>The handler against any store that meets the contract\<close>

context chunk_index
begin

text \<open>One batch, stored after other handlers have had their turn.\<close>

lemma upsert_batch_object:
  assumes store: "ie_store env = ops"
    and keeps: "\<And>v. ready v \<Longrightarrow> ready (ie_env env v) \<and> (\<forall>i. chunks (ie_env env v) kb (path_str key, i) = chunks v kb (path_str key, i))"
    and room: "\<And>i. i < j + length cs \<Longrightarrow> (path_str key, i) \<in> K" "j + length cs < 2 ^ 63"
    and pts: "build_points (enumerate j cs) es key meta hash md = Inr pts"
    and up: "vo_upsert (ie_store env) (ie_env env v) kb pts = (r, v')" and rd: "ready v"
  shows "ready v' \<and> (\<exists>n\<le>length cs. (r = Inr () \<longrightarrow> n = length cs) \<and>
    (\<forall>i. chunks v' kb (path_str key, i) = (if j \<le> i \<and> i < j + n then Some (chunk_payload key meta hash md i (cs ! (i - j))) else chunks v kb (path_str key, i))))"
proof -
  note bp = build_points_nth[OF pts]
  have key: "\<forall>x<length pts. payload_key (pt_payload (pts ! x)) = Some (path_str key, j + x)"
    using bp room(2) by (auto intro!: payload_fields(1))
  have "addressed K p" if p: "p \<in> set pts" for p
  proof -
    obtain x where x: "x < length pts" "p = pts ! x" using p by (auto simp: in_set_conv_nth)
    then show ?thesis using key bp(1,3) room(1)[of "j + x"] by (auto simp: addressed_def)
  qed
  from upsert_law[OF up[unfolded store] conjunct1[OF keeps[OF rd]] this]
  obtain n where n: "ready v'" "n \<le> length pts" "chunks v' kb = foldl put_point (chunks (ie_env env v) kb) (take n pts)" "r = Inr () \<longrightarrow> n = length pts"
    by blast
  have "foldl put_point (chunks (ie_env env v) kb) (take n pts) = (\<lambda>(k', i).
      if k' = path_str key \<and> j \<le> i \<and> i < j + length (take n pts) then Some (pt_payload (take n pts ! (i - j))) else chunks (ie_env env v) kb (k', i))"
    using key by (intro foldl_put_points) simp
  then have "chunks v' kb (path_str key, i) = (if j \<le> i \<and> i < j + n then Some (chunk_payload key meta hash md i (cs ! (i - j))) else chunks v kb (path_str key, i))" for i
    using n(2,3) bp(1) bp(2)[of "i - j"] keeps[OF rd] by auto
  then show ?thesis using n(1,2,4) bp(1) by auto
qed

lemma upsert_batches_object:
  assumes store: "ie_store env = ops"
    and keeps: "\<And>v. ready v \<Longrightarrow> ready (ie_env env v) \<and> (\<forall>i. chunks (ie_env env v) kb (path_str key, i) = chunks v kb (path_str key, i))"
  shows "yields (ie_cmark env) (drop (ps_body_start snap) (ps_body snap)) (cc_chunks cur) cs \<Longrightarrow> cc_next_index cur = j \<Longrightarrow> ready v \<Longrightarrow>
    (\<And>i. i < j + length cs \<Longrightarrow> (path_str key, i) \<in> K) \<Longrightarrow> j + length cs < 2 ^ 63 \<Longrightarrow>
    \<exists>r v' n. upsert_batches env kb key snap cur v = Some (r, v') \<and> ready v' \<and> n \<le> length cs
      \<and> (\<forall>i. chunks v' kb (path_str key, i) = (if j \<le> i \<and> i < j + n
            then Some (chunk_payload key (ps_meta snap) (sf_content_hash (ps_facts snap)) (ps_metadata snap) i (cs ! (i - j)))
            else chunks v kb (path_str key, i)))
      \<and> (\<forall>c. r = Inr c \<longrightarrow> n = length cs \<and> c = j + length cs)"
proof (induction "length cs" arbitrary: cs cur v j rule: less_induct)
  case less
  note One_nat_def [simp del]
  let ?b = "max (ie_batch_size env) 1" and ?pay = "chunk_payload key (ps_meta snap) (sf_content_hash (ps_facts snap)) (ps_metadata snap)"
  let ?u = "upsert_batches env kb key snap cur v"
  have "cc_next_index cur + length cs < 2 ^ 64" using less.prems(2,5) by simp
  from take_chunk_batch_yields[OF less.prems(1) this, of ?b "[]"]
  obtain cur' where cur': "take_chunk_batch (ie_cmark env) (drop (ps_body_start snap) (ps_body snap)) cur ?b [] = Some (Inr (cur', enumerate j (take ?b cs)))"
    "cc_next_index cur' = j + min ?b (length cs)" "yields (ie_cmark env) (drop (ps_body_start snap) (ps_body snap)) (cc_chunks cur') (drop ?b cs)"
    using less.prems(2) by auto
  show ?case
  proof (cases "cs = []")
    case True
    then show ?thesis using cur'(1,2) less.prems(3) by (auto simp: upsert_batches.simps[of env kb key snap cur v])
  next
    case False
    then have ne: "enumerate j (take ?b cs) \<noteq> []" by (cases cs) (auto simp: enumerate_eq_zip)
    show ?thesis
    proof (cases rule: upsert_batches_round[OF cur'(1) ne, of kb key v])
      case (1 e)
      then show ?thesis using less.prems(3) by (intro exI[of _ "Inl e"] exI[of _ v] exI[of _ 0]) auto
    next
      case (2 es pts)
      obtain r v1 where up: "vo_upsert (ie_store env) (ie_env env v) kb pts = (r, v1)" by fastforce
      have room: "\<And>i. i < j + length (take ?b cs) \<Longrightarrow> (path_str key, i) \<in> K" "j + length (take ?b cs) < 2 ^ 63"
        using less.prems(4,5) by auto
      obtain n where n: "ready v1" "n \<le> length (take ?b cs)" "r = Inr () \<longrightarrow> n = length (take ?b cs)"
        "\<And>i. chunks v1 kb (path_str key, i) = (if j \<le> i \<and> i < j + n then Some (?pay i (take ?b cs ! (i - j))) else chunks v kb (path_str key, i))"
        using upsert_batch_object[OF store keeps room 2(1) up less.prems(3)] by blast
      show ?thesis
      proof (cases r)
        case (Inl e)
        then have "?u = Some (Inl (Upsert_Failed e), v1)" using up 2(2) by (simp add: store_batch_def)
        then show ?thesis using n(1,2,4) by (intro exI[of _ "Inl (Upsert_Failed e)"] exI[of _ v1] exI[of _ n]) auto
      next
        case (Inr u)
        have rec: "?u = upsert_batches env kb key snap cur' v1" using up Inr 2(2) by (simp add: store_batch_def)
        have n1: "n = min ?b (length cs)" using n(3) Inr by simp
        have eq: "j + n + length (drop ?b cs) = j + length cs" unfolding n1 length_drop by linarith
        have sh: "length (drop ?b cs) < length cs" using False by (cases cs) auto
        have h: "cc_next_index cur' = j + n" "\<And>i. i < j + n + length (drop ?b cs) \<Longrightarrow> (path_str key, i) \<in> K" "j + n + length (drop ?b cs) < 2 ^ 63"
          using cur'(2) n1 less.prems(4,5) unfolding eq by auto
        from less.hyps[OF sh cur'(3) h(1) n(1) h(2,3)]
        obtain r' v' n' where ih: "upsert_batches env kb key snap cur' v1 = Some (r', v')" "ready v'" "n' \<le> length (drop ?b cs)"
          "\<And>i. chunks v' kb (path_str key, i) = (if j + n \<le> i \<and> i < j + n + n' then Some (?pay i (drop ?b cs ! (i - (j + n)))) else chunks v1 kb (path_str key, i))"
          "\<And>c. r' = Inr c \<Longrightarrow> n' = length (drop ?b cs) \<and> c = j + length cs"
          unfolding eq by blast
        have "chunks v' kb (path_str key, i) = (if j \<le> i \<and> i < j + (n + n') then Some (?pay i (cs ! (i - j))) else chunks v kb (path_str key, i))" for i
          using ih(3,4) n(4)[of i] n1 by (auto simp: min_def split: if_splits)
        moreover have "n + n' \<le> length cs" "\<And>c. r' = Inr c \<Longrightarrow> n + n' = length cs \<and> c = j + length cs"
          using ih(3,5) n1 by (auto simp: min_def split: if_splits)
        ultimately show ?thesis using rec ih(1,2) by (intro exI[of _ r'] exI[of _ v'] exI[of _ "n + n'"]) auto
      qed
    qed
  qed
qed

abbreviation object_at :: "'v \<Rightarrow> kb_slug \<Rightarrow> object_path \<Rightarrow> nat \<Rightarrow> payload option" where
  "object_at v kb key \<equiv> (\<lambda>i. chunks v kb (path_str key, i))"

lemma tombstone_object:
  assumes "ie_store env = ops"
    and "\<And>v. ready v \<Longrightarrow> ready (ie_env env v) \<and> (\<forall>i. chunks (ie_env env v) kb (path_str key, i) = chunks v kb (path_str key, i))"
    and "ready v" "handle_tombstone env kb key v = (r, v')"
  shows "ready v' \<and> object_at v' kb key = (case r of Inr _ \<Rightarrow> Map.empty | Inl _ \<Rightarrow> object_at v kb key)"
proof -
  obtain r0 where d: "vo_delete ops (ie_env env v) kb (Sel_Object (path_str key)) = (r0, v')" "r = map_err Delete_Failed r0"
    using assms(1,4) by (cases "vo_delete ops (ie_env env v) kb (Sel_Object (path_str key))") (auto simp: handle_tombstone_def)
  from delete_law[OF d(1)] assms(2)[OF assms(3)] d(2) show ?thesis
    by (cases r0) (auto simp: without_def result_simps fun_eq_iff)
qed

lemma cleanup_object:
  assumes "ie_store env = ops"
    and "\<And>v. ready v \<Longrightarrow> ready (ie_env env v) \<and> (\<forall>i. chunks (ie_env env v) kb (path_str key, i) = chunks v kb (path_str key, i))"
    and "ready v" "cleanup_obsolete env kb key n v = (r, v')"
  shows "ready v' \<and> object_at v' kb key = (case r of Inr _ \<Rightarrow> overlaid n (object_at v kb key) Map.empty | Inl _ \<Rightarrow> object_at v kb key)"
proof -
  obtain r0 where d: "vo_delete ops (ie_env env v) kb (Sel_Chunks_From (path_str key) n) = (r0, v')" "r = map_err Cleanup_Failed r0"
    using assms(1,4) by (cases "vo_delete ops (ie_env env v) kb (Sel_Chunks_From (path_str key) n)") (auto simp: cleanup_obsolete_def)
  from delete_law[OF d(1)] assms(2)[OF assms(3)] d(2) show ?thesis
    by (cases r0) (auto simp: without_def overlaid_def result_simps fun_eq_iff)
qed

lemma index_snapshot_object:
  assumes store: "ie_store env = ops"
    and keeps: "\<And>v. ready v \<Longrightarrow> ready (ie_env env v) \<and> (\<forall>i. chunks (ie_env env v) kb (path_str key, i) = chunks v kb (path_str key, i))"
    and rd: "ready v" and ix: "is_indexable mime"
    and cur: "open_chunk_cursor (ps_body_start snap) (max_chunk_chars env) = Inr cur" "cc_next_index cur = 0"
    and ys: "yields (ie_cmark env) (drop (ps_body_start snap) (ps_body snap)) (cc_chunks cur) cs"
    and room: "\<And>i. i < length cs \<Longrightarrow> (path_str key, i) \<in> K" "length cs < 2 ^ 63" and tag: "om_etag head = Some (ps_etag snap)"
    and iv: "indexes_version env s2 kb key head mime
       (version_at key (ps_meta snap) (sf_content_hash (ps_facts snap)) (ps_metadata snap) cs) (length cs)" (is "indexes_version _ _ _ _ _ _ ?ver _")
  obtains r v' where "index_snapshot env kb key snap mime v = Some (r, v')" "ready v'"
    "index_result env s2 kb key head mime skip (object_at v kb key) (object_at v' kb key) r"
proof -
  have room': "\<And>i. i < 0 + length cs \<Longrightarrow> (path_str key, i) \<in> K" "0 + length cs < 2 ^ 63" using room by simp_all
  from upsert_batches_object[OF store keeps ys cur(2) rd room']
  obtain r v1 n where u: "upsert_batches env kb key snap cur v = Some (r, v1)" "ready v1" "n \<le> length cs" "\<And>c. r = Inr c \<Longrightarrow> n = length cs \<and> c = length cs"
    "\<And>i. chunks v1 kb (path_str key, i) = (if i < n then Some (chunk_payload key (ps_meta snap) (sf_content_hash (ps_facts snap)) (ps_metadata snap) i (cs ! i)) else chunks v kb (path_str key, i))"
    by auto
  have unf: "index_snapshot env kb key snap mime v = (case r of Inl e \<Rightarrow> Some (Inl e, v1) | Inr c \<Rightarrow>
      if c = 0 then tombstoned (handle_tombstone env kb key v1) else if 2 ^ 32 \<le> c then Some (Inl Count_Out_Of_Range, v1)
      else Some (apfst (res_map (\<lambda>_. Indexed (ps_etag snap) mime c)) (cleanup_obsolete env kb key c v1)))"
    unfolding index_snapshot_def Let_def max_chunk_chars_def[symmetric] cur(1) sum.case u(1) option.case prod.case
    by (simp add: apfst_def map_prod_def split: sum.split)
  have ov: "object_at v1 kb key = overlaid n ?ver (object_at v kb key)"
    using u(3,5) by (auto simp: overlaid_def version_at_def)
  have stop: "index_result env s2 kb key head mime skip (object_at v kb key) (object_at w kb key) (Inl e)"
    if "object_at w kb key = object_at v1 kb key" for e w
    unfolding index_result_def using that ov iv u(3) by auto
  consider (err) e where "r = Inl e" | (none) "r = Inr 0" "cs = []" | (many) "r = Inr (length cs)" "2 ^ 32 \<le> length cs"
    | (ok) "r = Inr (length cs)" "length cs < 2 ^ 32" "cs \<noteq> []"
    using u(4) by (cases r) force+
  then show thesis
  proof cases
    case err
    then show thesis using u(1,2) stop by (intro that[of "Inl e" v1]) (simp_all add: unf)
  next
    case none
    obtain t v2 where t: "handle_tombstone env kb key v1 = (t, v2)" by fastforce
    note to = tombstone_object[OF store keeps u(2) t]
    show thesis using none u(1) t to stop iv
      by (intro that[of "res_map (\<lambda>_. Tombstoned) t" v2])
        (cases t; auto simp: unf tombstoned_def result_simps index_result_def)+
  next
    case many
    then show thesis using u(1,2) stop by (intro that[of "Inl Count_Out_Of_Range" v1]) (auto simp: unf)
  next
    case ok
    obtain t v2 where t: "cleanup_obsolete env kb key (length cs) v1 = (t, v2)" by fastforce
    note to = cleanup_object[OF store keeps u(2) t]
    have new: "overlaid (length cs) (object_at v1 kb key) Map.empty = ?ver"
      using u(4)[OF ok(1)] by (auto simp: ov overlaid_def version_at_def fun_eq_iff)
    have "index_result env s2 kb key head mime skip (object_at v kb key) (object_at v2 kb key) (res_map (\<lambda>_. Indexed (ps_etag snap) mime (length cs)) t)"
    proof (cases t)
      case (Inl e)
      then show ?thesis using to stop by (simp add: result_simps)
    next
      case (Inr x)
      then show ?thesis using to ok(2,3) new iv ix tag by (simp add: index_result_def result_simps)
    qed
    then show thesis using ok u(1) t to by (intro that) (auto simp: unf)
  qed
qed

lemma skipped_object:
  assumes "ie_store env = ops" "ready v" "already_indexed env kb key head v"
  shows "\<exists>t. om_etag head = Some t \<and> all_tagged (object_at v kb key) t"
proof -
  obtain t where t: "om_etag head = Some t" "vo_indexed_etag ops v kb (path_str key) = Inr (Some t)"
    using assms(1,3) by (auto simp: already_indexed_def split: option.splits sum.splits)
  show ?thesis using etag_law[OF t(2) assms(2)] t(1) by (auto simp: agreed_etag_def all_tagged_def)
qed

lemma index_head_object:
  assumes store: "ie_store env = ops"
    and keeps: "\<And>v. ready v \<Longrightarrow> ready (ie_env env v) \<and> (\<forall>i. chunks (ie_env env v) kb (path_str key, i) = chunks v kb (path_str key, i))"
    and rd: "ready v" and f: "stream_faithful env"
    and cm: "cmark_offsets (ie_cmark env)" "cmark_underlines (ie_cmark env)" and room: "chunk_room env s2 kb key K"
  obtains r v' where "index_head env s2 kb key head mime skip v = Some (r, v')" "ready v'"
    "index_result env s2 kb key head mime skip (object_at v kb key) (object_at v' kb key) r"
proof -
  let ?v1 = "if skip = Skip_IfUnchanged then ie_env env v else v"
  have v1: "ready ?v1" "object_at ?v1 kb key = object_at v kb key" using keeps[OF rd] rd by (auto simp: fun_eq_iff)
  note unf = index_head_def Let_def
  consider (gone) "\<not> is_indexable mime \<or> om_size head = 0"
    | (skipped) "is_indexable mime" "om_size head \<noteq> 0" "skip = Skip_IfUnchanged" "already_indexed env kb key head ?v1"
    | (zero) "is_indexable mime" "om_size head \<noteq> 0" "\<not> (skip = Skip_IfUnchanged \<and> already_indexed env kb key head ?v1)" "ie_max_input_tokens env = 0"
    | (stop) e where "is_indexable mime" "om_size head \<noteq> 0" "\<not> (skip = Skip_IfUnchanged \<and> already_indexed env kb key head ?v1)"
        "ie_max_input_tokens env \<noteq> 0" "stage_snapshot env s2 kb key head = Inl e"
    | (go) snap where "is_indexable mime" "stage_snapshot env s2 kb key head = Inr snap" "om_size head \<noteq> 0"
        "\<not> (skip = Skip_IfUnchanged \<and> already_indexed env kb key head ?v1)" "ie_max_input_tokens env \<noteq> 0"
    by (cases "stage_snapshot env s2 kb key head") blast+
  then show thesis
  proof cases
    case gone
    obtain t v2 where t: "handle_tombstone env kb key v = (t, v2)" by fastforce
    note to = tombstone_object[OF store keeps rd t]
    have "index_head env s2 kb key head mime skip v = tombstoned (handle_tombstone env kb key v)" using gone by (auto simp: unf)
    then show thesis using gone t to
      by (intro that[of "res_map (\<lambda>_. Tombstoned) t" v2]) (cases t; auto simp: tombstoned_def result_simps index_result_def)+
  next
    case skipped
    have "index_head env s2 kb key head mime skip v = Some (Inr Skipped, ?v1)" using skipped by (simp add: unf)
    then show thesis using that[of "Inr Skipped" ?v1] v1 skipped_object[OF store v1(1) skipped(4)] skipped(3)
      by (simp add: index_result_def)
  next
    case zero
    then have "index_head env s2 kb key head mime skip v = Some (Inl Zero_Input_Limit, ?v1)" by (simp add: unf)
    then show thesis using that v1 by (simp add: index_result_def)
  next
    case stop
    then have "index_head env s2 kb key head mime skip v = Some (Inl e, ?v1)" by (simp add: unf)
    then show thesis using that v1 by (simp add: index_result_def)
  next
    case go
    then have eq: "index_head env s2 kb key head mime skip v =
         index_snapshot env kb key (snap\<lparr>ps_meta := (ps_meta snap)\<lparr>om_content_type := Some mime\<rparr>\<rparr>) mime ?v1" by (simp add: unf)
    obtain cur cs where c: "open_chunk_cursor (ps_body_start (snap\<lparr>ps_meta := (ps_meta snap)\<lparr>om_content_type := Some mime\<rparr>\<rparr>)) (max_chunk_chars env) = Inr cur"
      "cc_next_index cur = 0" "yields (ie_cmark env) (drop (ps_body_start (snap\<lparr>ps_meta := (ps_meta snap)\<lparr>om_content_type := Some mime\<rparr>\<rparr>))
         (ps_body (snap\<lparr>ps_meta := (ps_meta snap)\<lparr>om_content_type := Some mime\<rparr>\<rparr>))) (cc_chunks cur) cs"
      "\<And>i. i < length cs \<Longrightarrow> (path_str key, i) \<in> K" "length cs < 2 ^ 63"
      "om_etag head = Some (ps_etag (snap\<lparr>ps_meta := (ps_meta snap)\<lparr>om_content_type := Some mime\<rparr>\<rparr>))"
      "indexes_version env s2 kb key head mime (version_at key (ps_meta (snap\<lparr>ps_meta := (ps_meta snap)\<lparr>om_content_type := Some mime\<rparr>\<rparr>))
         (sf_content_hash (ps_facts (snap\<lparr>ps_meta := (ps_meta snap)\<lparr>om_content_type := Some mime\<rparr>\<rparr>)))
         (ps_metadata (snap\<lparr>ps_meta := (ps_meta snap)\<lparr>om_content_type := Some mime\<rparr>\<rparr>)) cs) (length cs)"
      using staged_chunks[OF go(2) f cm room refl, of mime] by blast
    from index_snapshot_object[OF store keeps v1(1) go(1) c] show thesis
      using that eq v1(2) by metis
  qed
qed

lemma tombstone_outcome_object:
  assumes store: "ie_store env = ops"
    and keeps: "\<And>v. ready v \<Longrightarrow> ready (ie_env env v) \<and> (\<forall>i. chunks (ie_env env v) kb (path_str key, i) = chunks v kb (path_str key, i))"
    and rd: "ready (ix_store ix)"
  obtains r ix' where "tombstone_outcome env kb key ix = Some (r, ix')" "ready (ix_store ix')"
    "case r of Inr outcome \<Rightarrow> outcome = Tombstoned \<and> object_at (ix_store ix') kb key = Map.empty
       | Inl f \<Rightarrow> \<not> pf_after_head f \<and> object_at (ix_store ix') kb key = object_at (ix_store ix) kb key"
proof -
  obtain t v where t: "handle_tombstone env kb key (ix_store ix) = (t, v)" by fastforce
  show thesis using tombstone_object[OF store keeps rd t] t
    by (intro that[of "map_err before_head (res_map (\<lambda>_. Tombstoned) t)" "ix\<lparr>ix_store := v\<rparr>"])
      (cases t; auto simp: tombstone_outcome_def result_simps before_head_def)+
qed

end

lemma announce_store [simp]:
  "ix_store (announce env ev ix) = ix_store ix" "ix_store (remember env kb key etag ix) = ix_store ix" "ix_store (ix_publish env ev ix) = ix_store ix"
  by (auto simp: announce_def remember_def ix_publish_def Let_def)

lemma record_outcome_store [simp]: "ix_store (record_outcome env event r ix) = ix_store ix"
  by (auto simp: record_outcome_def Let_def split: sum.splits pipeline_outcome.splits)

fun event_told :: "index_event \<Rightarrow> told" where
  "event_told (Upsert _ _) = Told_Written"
| "event_told (Refresh _ _ origin) = Told_Nothing (origin_source origin)"
| "event_told (Tombstone _ _) = Told_Deleted"

lemma handle_event_upsert:
  "handle_event env s1 s2 event ix = map_option (\<lambda>(r, ix1). (r, record_outcome env event r ix1))
     (handle_upsert env s1 s2 (event_kb event) (event_object_key event) (event_skip event) (event_told event) ix)"
  by (cases event) (simp_all add: handle_event_def)

lemma is_tombstone_told: "is_tombstone event \<longleftrightarrow> event_told event = Told_Deleted"
  by (cases event) auto

text \<open>What an event leaves in the log and the health record: at most one announcement and one outcome.\<close>

definition published_of :: "('s, 'v, 'f) indexer_env \<Rightarrow> object_event list \<Rightarrow> object_event list" where
  "published_of env evs = (if ie_events env then filter (ie_publish_ok env) evs else [])"

lemma published_of_append: "published_of env (xs @ ys) = published_of env xs @ published_of env ys"
  by (simp add: published_of_def)

lemma record_outcome_log:
  "ix_log (record_outcome env event r ix) = ix_log ix @ published_of env (outcome_events env event r)"
  by (auto simp: record_outcome_def outcome_events_def published_of_def ix_publish_def Let_def split: sum.splits pipeline_outcome.splits)

lemma event_subject [simp]:
  "oe_kb (event_from_meta at kb key meta src) = kb" "oe_key (event_from_meta at kb key meta src) = key"
  "oe_kb (event_deleted at kb key src) = kb" "oe_key (event_deleted at kb key src) = key"
  by (simp_all add: event_from_meta_def event_written_def event_deleted_def)

lemma announce_log: "ix_log (announce env ev ix) = ix_log ix @ published_of env (filter (\<lambda>ev. is_news (oe_kb ev) (oe_key ev) (event_etag (oe_kind ev)) ix) [ev])"
  by (auto simp: announce_def published_of_def remember_def ix_publish_def is_news_def Let_def)

lemma remember_log [simp]: "ix_log (remember env kb key etag ix) = ix_log ix"
  by (simp add: remember_def)

lemma tombstone_outcome_log: "tombstone_outcome env kb key ix = Some (r, ix') \<Longrightarrow> ix_log ix' = ix_log ix \<and> ix_health ix' = ix_health ix"
  by (auto simp: tombstone_outcome_def split: prod.splits)

lemma ix_health_side [simp]:
  "ix_health (announce env ev ix) = ix_health ix" "ix_health (remember env kb key etag ix) = ix_health ix"
  by (auto simp: announce_def remember_def ix_publish_def Let_def)

lemma handle_upsert_log:
  assumes "handle_upsert env s1 s2 (event_kb event) (event_object_key event) (event_skip event) (event_told event) ix = Some (r, ix')"
  shows "ix_log ix' = ix_log ix @ published_of env (announcement env s1 event ix) \<and> ix_health ix' = ix_health ix"
  using assms
  by (cases event)
    (auto simp: handle_upsert_def announcement_def Let_def announce_log published_of_def
      split: if_splits sum.splits storage_error.splits dest!: tombstone_outcome_log)

text \<open>
  C27: Every handler of an event reports exactly once.  The log gains, in this order, the detected change when it
  is news and the outcome, and nothing else; the health record is stamped with the same outcome.
\<close>

theorem one_outcome_per_event:
  assumes "handle_event env s1 s2 event ix = Some (r, ix')"
  shows "ix_log ix' = ix_log ix @ published_of env (announcement env s1 event ix @ outcome_events env event r)
    \<and> ix_health ix' = (case r of
        Inr _ \<Rightarrow> health_succeeded (ix_health ix) (kb_str (event_kb event)) (ie_now env)
      | Inl f \<Rightarrow> health_failed (ix_health ix) (kb_str (event_kb event)) (path_str (event_object_key event)) (ie_message env (pf_error f)) (ie_now env))"
proof -
  obtain ix1 where u: "handle_upsert env s1 s2 (event_kb event) (event_object_key event) (event_skip event) (event_told event) ix = Some (r, ix1)"
    "ix' = record_outcome env event r ix1"
    using assms by (auto simp: handle_event_upsert)
  have "ix_health ix' = (case r of
        Inr _ \<Rightarrow> health_succeeded (ix_health ix1) (kb_str (event_kb event)) (ie_now env)
      | Inl f \<Rightarrow> health_failed (ix_health ix1) (kb_str (event_kb event)) (path_str (event_object_key event)) (ie_message env (pf_error f)) (ie_now env))"
    by (auto simp: u(2) record_outcome_def ix_publish_def Let_def split: sum.splits pipeline_outcome.splits)
  then show ?thesis using handle_upsert_log[OF u(1)] by (cases r) (auto simp: u(2) record_outcome_log published_of_append)
qed

context chunk_index
begin

lemma handle_event_object:
  assumes store: "ie_store env = ops"
    and keeps: "\<And>v. ready v \<Longrightarrow> ready (ie_env env v)
      \<and> (\<forall>i. chunks (ie_env env v) (event_kb event) (path_str (event_object_key event), i) = chunks v (event_kb event) (path_str (event_object_key event), i))"
    and rd: "ready (ix_store ix)" and f: "stream_faithful env"
    and cm: "cmark_offsets (ie_cmark env)" "cmark_underlines (ie_cmark env)"
    and room: "chunk_room env s2 (event_kb event) (event_object_key event) K"
  shows "\<exists>r ix'. handle_event env s1 s2 event ix = Some (r, ix') \<and> ready (ix_store ix')
    \<and> event_result env s1 s2 event (object_at (ix_store ix) (event_kb event) (event_object_key event))
        (object_at (ix_store ix') (event_kb event) (event_object_key event)) r"
proof -
  let ?kb = "event_kb event" and ?key = "event_object_key event"
  let ?u = "handle_upsert env s1 s2 ?kb ?key (event_skip event) (event_told event)"
  note unf = handle_event_upsert event_result_def handle_upsert_def Let_def is_tombstone_told
  have gone: ?thesis if g: "?u ix = tombstone_outcome env ?kb ?key jx" "ix_store jx = ix_store ix"
    "is_reserved ?key \<or> (\<exists>m. op_head (ie_storage env) s1 ?kb ?key no_conditions = Inl (SE_NotFound m))
      \<or> (event_told event = Told_Deleted \<and> (\<exists>m. op_head (ie_storage env) s1 ?kb ?key no_conditions = Inl (SE_BackendUnavailable m)
         \<or> op_head (ie_storage env) s1 ?kb ?key no_conditions = Inl (SE_Other m)))" for jx
  proof -
    have rj: "ready (ix_store jx)" using rd g(2) by simp
    obtain r jx' where t: "tombstone_outcome env ?kb ?key jx = Some (r, jx')" "ready (ix_store jx')"
      "case r of Inr outcome \<Rightarrow> outcome = Tombstoned \<and> object_at (ix_store jx') ?kb ?key = Map.empty
         | Inl f \<Rightarrow> \<not> pf_after_head f \<and> object_at (ix_store jx') ?kb ?key = object_at (ix_store jx) ?kb ?key"
      by (rule tombstone_outcome_object[OF store keeps rj])
    show ?thesis using g(1,3) t(1,2) t(3)[unfolded g(2)]
      by (intro exI[of _ r] exI[of _ "record_outcome env event r jx'"])
        (auto simp: handle_event_upsert event_result_def Let_def is_tombstone_told)
  qed
  have live: ?thesis if "op_head (ie_storage env) s1 ?kb ?key no_conditions = Inr head" "\<not> is_reserved ?key" for head
  proof -
    obtain r v' where h: "index_head env s2 ?kb ?key head (resolved_mime head ?key) (event_skip event) (ix_store ix) = Some (r, v')" "ready v'"
      "index_result env s2 ?kb ?key head (resolved_mime head ?key) (event_skip event) (object_at (ix_store ix) ?kb ?key) (object_at v' ?kb ?key) r"
      using index_head_object[OF store keeps rd f cm room] by blast
    show ?thesis using that h by (cases r) (auto simp: unf split: told.splits)
  qed
  show ?thesis
  proof (cases "is_reserved ?key")
    case True
    then show ?thesis by (intro gone[of ix]) (simp_all add: handle_upsert_def)
  next
    case False
    show ?thesis
    proof (cases "op_head (ie_storage env) s1 ?kb ?key no_conditions")
      case (Inr head)
      then show ?thesis using live False by blast
    next
      case (Inl e)
      note op = this
      consider (nf) m where "e = SE_NotFound m"
        | (word) "event_told event = Told_Deleted" "\<exists>m. e = SE_BackendUnavailable m \<or> e = SE_Other m"
        | (fail) "\<not> (\<exists>m. e = SE_NotFound m)" "\<not> (event_told event = Told_Deleted \<and> (\<exists>m. e = SE_BackendUnavailable m \<or> e = SE_Other m))"
        by blast
      then show ?thesis
      proof cases
        case nf
        then show ?thesis using op False
          by (intro gone[of "case event_told event of Told_Nothing src \<Rightarrow> announce env (event_deleted (ie_at env) ?kb ?key src) ix
              | Told_Deleted \<Rightarrow> remember env ?kb ?key None ix | Told_Written \<Rightarrow> ix"])
            (auto simp: handle_upsert_def Let_def split: told.splits)
      next
        case word
        then show ?thesis using op False by (intro gone[of ix]) (auto simp: handle_upsert_def)
      next
        case fail
        have "?u ix = Some (Inl (before_head (Head_Failed e)), ix)" using op False fail by (cases e) (auto simp: handle_upsert_def)
        then show ?thesis using op False fail rd
          by (cases e) (auto simp: handle_event_upsert event_result_def Let_def is_tombstone_told)
      qed
    qed
  qed
qed

end

text \<open>
  C9: The indexing worker is exact on one object.  Handling an event returns, whatever storage, the embedder and
  the store answer.  When it reports \<^verbatim>\<open>Indexed\<close>, the store holds for the object exactly the chunks of the
  body served under the tag HEAD gave, cut as the chunker cuts, with that tag and the hash and front matter of
  that body.  When it reports \<^verbatim>\<open>Tombstoned\<close>, the store holds no chunk of it; when it reports \<^verbatim>\<open>Skipped\<close>,
  nothing changed and every chunk carries HEAD's tag; when it fails, the object's chunks are as before
  except that the first few may already be those of the new version.  Other handlers may work on
  other objects all the while.
\<close>

theorem index_outcome_exact:
  assumes "ie_store env = mem_vector_ops" "mem_ready K (ix_store ix)" "stream_faithful env"
    and "\<And>v. mem_ready K v \<Longrightarrow> mem_ready K (ie_env env v)
      \<and> (\<forall>i. mem_chunks (ie_env env v) (event_kb event) (path_str (event_object_key event), i) = mem_chunks v (event_kb event) (path_str (event_object_key event), i))"
    and "cmark_offsets (ie_cmark env)" "cmark_underlines (ie_cmark env)"
    and "chunk_room env s2 (event_kb event) (event_object_key event) K"
  shows "\<exists>r ix'. handle_event env s1 s2 event ix = Some (r, ix') \<and> mem_ready K (ix_store ix')
    \<and> event_result env s1 s2 event (\<lambda>i. mem_chunks (ix_store ix) (event_kb event) (path_str (event_object_key event), i))
        (\<lambda>i. mem_chunks (ix_store ix') (event_kb event) (path_str (event_object_key event), i)) r"
  using assms by (intro mem_index.handle_event_object) auto

lemma version_tagged:
  "indexes_version env s2 kb key head mime ver m \<Longrightarrow> om_etag head = Some t \<Longrightarrow> ver i = Some pl \<Longrightarrow> payload_str pl ''etag'' = Some t"
  by (auto simp: indexes_version_def version_at_def payload_fields(2) etag_or_empty_def split: if_splits)

text \<open>
  C36: An index that was cut short is taken for complete.  When an object that had no chunks is indexed and the
  handler fails after storing some of them, all that is stored carries the new tag, so from then on
  every refresh of the unchanged object is skipped, whatever chunks are missing.  The comment on
  \<^verbatim>\<open>already_indexed\<close> says such an object answers not indexed.
\<close>

theorem half_indexed_is_skipped:
  assumes store: "ie_store env = mem_vector_ops" and alone: "ie_env env = (\<lambda>v. v)" and rd: "mem_ready K v" and f: "stream_faithful env"
    and cm: "cmark_offsets (ie_cmark env)" "cmark_underlines (ie_cmark env)" and room: "chunk_room env s2 kb key K"
    and doc: "is_indexable mime" "om_size head \<noteq> 0"
    and fresh: "\<forall>i. mem_chunks v kb (path_str key, i) = None"
    and run: "index_head env s2 kb key head mime Skip_Never v = Some (Inl e, v1)"
    and some: "mem_chunks v1 kb (path_str key, i) = Some pl"
    and answers: "mv_indexed_etag v1 kb (path_str key) = Inr answer"
  shows "index_head env s2 kb key head mime Skip_IfUnchanged v1 = Some (Inr Skipped, v1)"
proof -
  have keeps: "\<And>v. mem_ready K v \<Longrightarrow> mem_ready K (ie_env env v) \<and> (\<forall>i. mem_chunks (ie_env env v) kb (path_str key, i) = mem_chunks v kb (path_str key, i))"
    by (simp add: alone)
  let ?new = "\<lambda>i. mem_chunks v1 kb (path_str key, i)"
  have r1: "mem_ready K v1" "index_result env s2 kb key head mime Skip_Never (\<lambda>i. mem_chunks v kb (path_str key, i)) ?new (Inl e)"
    using mem_index.index_head_object[OF store keeps rd f cm room, where skip = Skip_Never and mime = mime and head = head] run by auto
  have "?new \<noteq> (\<lambda>i. mem_chunks v kb (path_str key, i))" using fresh some by (metis option.distinct(1))
  then obtain ver all n where iv: "indexes_version env s2 kb key head mime ver all" "?new = overlaid n ver (\<lambda>_. None)"
    using r1(2) fresh by (auto simp: index_result_def)
  obtain t where t: "om_etag head = Some t" using iv(1) by (auto simp: indexes_version_def)
  have "payload_str q ''etag'' = Some t" if "?new j = Some q" for j q
    using that version_tagged[OF iv(1) t] fun_cong[OF iv(2), of j] by (auto simp: overlaid_def split: if_splits)
  then have "answer = Some t"
    using mem_index.etag_law[of v1 kb "path_str key" answer K] answers r1(1) some by (auto simp: agreed_etag_def mem_vector_ops_def)
  then show ?thesis using answers t doc by (simp add: index_head_def already_indexed_def store alone mem_vector_ops_def)
qed

section \<open>A store, a document and an embedder that fails\<close>

definition demo_head :: object_meta where
  "demo_head = \<lparr>om_key = ''a.md'', om_size = 2, om_last_modified = None, om_content_type = Some ''text/markdown'', om_etag = Some ''t1''\<rparr>"

text \<open>A storage that holds one object and cannot be written.\<close>

definition demo_storage :: "unit storage_ops" where
  "demo_storage =
     \<lparr>op_head = \<lambda>_ _ _ _. Inr demo_head,
      op_get = \<lambda>_ _ _ _ _. Inr \<lparr>or_bytes = ''ab'', or_meta = demo_head, or_content_range = None\<rparr>,
      op_put = \<lambda>s _ _ _ _ _. (Inl (SE_Other ''read only''), s), op_copy = \<lambda>s _ _ _ _. (Inl (SE_Other ''read only''), s),
      op_delete = \<lambda>s _ _ _. (Inl (SE_Other ''read only''), s), op_list = \<lambda>_ _ _ _ _. Inl (SE_Other ''read only'')\<rparr>"

definition demo_indexer :: "(unit, nat mem_vectors, nat) indexer_env" where
  "demo_indexer =
     \<lparr>ie_storage = demo_storage, ie_store = mem_vector_ops, ie_env = \<lambda>v. v,
      ie_embed = \<lambda>i texts. if i = 0 then Inr (map (\<lambda>_. [7]) texts) else Inl ''down'',
      ie_max_input_tokens = 4, ie_batch_size = 1,
      ie_disk = \<lparr>dk_create = None, dk_write = \<lambda>_. True, dk_sync = True\<rparr>, ie_stream = map (\<lambda>c. Inr [c]),
      ie_sha = id, ie_yaml = \<lambda>_. None, ie_cmark = atx_only, ie_events = True, ie_publish_ok = \<lambda>_. True,
      ie_at = ''now'', ie_now = 0, ie_message = \<lambda>_. ''failed''\<rparr>"

lemma demo_fields [simp]:
  "ie_storage demo_indexer = demo_storage" "ie_store demo_indexer = mem_vector_ops" "ie_env demo_indexer = (\<lambda>v. v)"
  "ie_max_input_tokens demo_indexer = 4" "ie_batch_size demo_indexer = 1" "ie_stream demo_indexer = map (\<lambda>c. Inr [c])"
  "ie_cmark demo_indexer = atx_only" "ie_sha demo_indexer = id" "ie_yaml demo_indexer = (\<lambda>_. None)"
  "ie_disk demo_indexer = \<lparr>dk_create = None, dk_write = \<lambda>_. True, dk_sync = True\<rparr>"
  "ie_embed demo_indexer = (\<lambda>i texts. if i = 0 then Inr (map (\<lambda>_. [7]) texts) else Inl ''down'')"
  by (simp_all add: demo_indexer_def)

abbreviation demo_key :: object_path where "demo_key \<equiv> ObjectPath ''a.md''"
abbreviation demo_kb :: kb_slug where "demo_kb \<equiv> KbSlug ''notes''"
abbreviation demo_ids :: "(string \<times> nat) set" where "demo_ids \<equiv> {(''a.md'', 0), (''a.md'', 1)}"

lemma demo_ids_distinct: "point_id ''a.md'' 0 \<noteq> point_id ''a.md'' 1"
  by (simp add: point_id_def fnv_offset_def fnv_prime_def show_nat.simps digit_char_def)

lemma demo_stream: "stream_faithful demo_indexer"
proof -
  have "concat cs = b" if "map (\<lambda>c. Inr [c]) b = map Inr cs" for b :: string and cs
    using that by (induction b arbitrary: cs) (auto simp: Cons_eq_map_conv map_eq_Cons_conv)
  then show ?thesis by (auto simp: stream_faithful_def)
qed

lemma demo_room: "chunk_room demo_indexer s kb demo_key demo_ids"
  by (auto simp: chunk_room_def demo_storage_def less_Suc_eq)

definition demo_vectors :: "nat mem_vectors" where
  "demo_vectors = snd (mv_create_collection mem_vectors_new demo_kb 1)"

lemma demo_ready: "mem_ready demo_ids demo_vectors"
  using demo_ids_distinct
  by (auto simp: mem_ready_def demo_vectors_def mv_create_collection_def mem_vectors_new_def mv_check_reachable_def mv_set_collection_def
      collection_default_def points_ok_def)

lemma demo_fresh: "mem_chunks demo_vectors kb x = None"
  by (auto simp: mem_chunks_def demo_vectors_def mv_create_collection_def mem_vectors_new_def mv_check_reachable_def mv_set_collection_def
      collection_default_def chunk_at_def split: prod.splits)

lemma demo_observed:
  "observed_chunks (observer_new FRONTMATTER_PREFIX_LIMIT) [Inr ''a'', Inr ''b''] =
     ([Inr ''a'', Inr ''b''], (observer_new FRONTMATTER_PREFIX_LIMIT)\<lparr>ob_prefix := ''ab'', ob_hashed := ''ab''\<rparr>)"
proof -
  have "from_utf8 ''a'' = Utf8_Ok" "from_utf8 ''b'' = Utf8_Ok" by code_simp+
  then show ?thesis by (simp add: observer_new_def observe_def FRONTMATTER_PREFIX_LIMIT_def del: from_utf8.simps)
qed

lemma demo_staged:
  "stage_snapshot demo_indexer () demo_kb demo_key demo_head =
     Inr \<lparr>ps_body = ''ab'', ps_etag = ''t1'', ps_meta = demo_head, ps_facts = \<lparr>sf_content_hash = ''ab'', sf_prefix = ''ab''\<rparr>,
        ps_metadata = None, ps_body_start = 0\<rparr>"
proof -
  have "valid_utf8 ''ab''" by code_simp
  then have "observer_finish id ((observer_new FRONTMATTER_PREFIX_LIMIT)\<lparr>ob_prefix := ''ab'', ob_hashed := ''ab''\<rparr>) = Inr \<lparr>sf_content_hash = ''ab'', sf_prefix = ''ab''\<rparr>"
    by (simp add: observer_finish_def observer_new_def pop_incomplete.simps valid_utf8_def Let_def del: from_utf8.simps)
  moreover have "front_matter demo_indexer demo_key \<lparr>sf_content_hash = ''ab'', sf_prefix = ''ab''\<rparr> = (None, 0)"
  proof -
    have "\<not> is_fence_line ''ab''" by code_simp
    then show ?thesis by (cases "strip_suffix ''.md'' ''a.md''") (simp_all add: front_matter_def concept_prefix_def)
  qed
  moreover have "stage_stream_to_file \<lparr>dk_create = None, dk_write = \<lambda>_. True, dk_sync = True\<rparr> [Inr ''a'', Inr ''b''] (Some 2) (- 1)
      = (Inr \<lparr>sb_storage = File ''ab'', sb_len = 2\<rparr> :: (storage_error stage_error, staged_body) result)"
    by (simp add: stage_stream_to_file_def stage_stream_inner_def create_private_file_def stage_chunk_def checked_add_def spill_def
        write_file_def stage_finish_def result_simps)
  ultimately show ?thesis
    by (simp add: stage_snapshot_def demo_storage_def demo_head_def result_simps demo_observed staged_bytes_def del: observed_chunks.simps)
qed

lemma demo_chunks:
  obtains it c0 c1 where "stream_chunks 1 0 = Inr it" "yields atx_only ''ab'' it [c0, c1]" "ck_text c0 = ''a''" "ck_text c1 = ''b''"
proof -
  obtain it where it: "stream_chunks 1 0 = Inr it" "with_min_chars it 0 = it" by (simp add: stream_chunks_def with_min_chars_def)
  have v: "valid_utf8 ''ab''" and n: "char_count ''ab'' = 2" by code_simp+
  obtain cs where cs: "yields atx_only ''ab'' it cs" "chunked ''ab'' 0 1 0 0 cs"
    using chunks_cover_file[OF v atx_only_ok it(1), of 0] it(2) by auto
  have one: "b = Suc a" if "piece_at ''ab'' 0 a b k" "char_count (ck_text k) \<le> 1" for a b k
  proof -
    have "\<not> (a = 0 \<and> b = 2)"
    proof
      assume "a = 0 \<and> b = 2"
      then have "ck_text k = ''ab''" using that(1) by (simp add: piece_at_def slice_def)
      then show False using that(2) n by simp
    qed
    moreover have "a < b" "b \<le> 2" using that(1) by (simp_all add: piece_at_def)
    ultimately show ?thesis by presburger
  qed
  obtain c0 cs' where c0: "cs = c0 # cs'" using cs(2) by (cases cs) auto
  have "piece_at ''ab'' 0 0 1 c0" "chunked ''ab'' 0 1 0 1 cs'" using cs(2) one by (auto simp: c0)
  moreover obtain c1 cs'' where c1: "cs' = c1 # cs''" using calculation(2) by (cases cs') auto
  moreover have "piece_at ''ab'' 0 1 2 c1" "chunked ''ab'' 0 1 0 2 cs''" using calculation(2) one[of 1] by (auto simp: c1 numeral_2_eq_2)
  moreover have "cs'' = []" using calculation(5) by (cases cs'') (auto simp: piece_at_def)
  ultimately show thesis using that[of it c0 c1] it(1) cs(1) c0 by (auto simp: piece_at_def slice_def)
qed

abbreviation demo_mime :: string where "demo_mime \<equiv> ''text/markdown''"

definition demo_payload :: "chunk \<Rightarrow> payload" where
  "demo_payload c = chunk_payload demo_key (demo_head\<lparr>om_content_type := Some demo_mime\<rparr>) ''ab'' None 0 c"

definition demo_half :: "chunk \<Rightarrow> nat mem_vectors" where
  "demo_half c = mv_set_collection demo_vectors demo_kb (collection_default\<lparr>co_dense_dim := 1,
     co_points := [(point_id ''a.md'' 0, \<lparr>sp_dense = [7], sp_text = ''a'', sp_vector_names = {''dense'', ''sparse_bm25''}, sp_payload = demo_payload c\<rparr>)]\<rparr>)"

lemma demo_half_run:
  obtains c where "index_head demo_indexer () demo_kb demo_key demo_head demo_mime Skip_Never demo_vectors = Some (Inl (Embed_Failed ''down''), demo_half c)"
proof -
  obtain it c0 c1 where c: "stream_chunks 1 0 = Inr it" "yields atx_only ''ab'' it [c0, c1]" "ck_text c0 = ''a''" "ck_text c1 = ''b''"
    by (rule demo_chunks)
  let ?snap = "\<lparr>ps_body = ''ab'', ps_etag = ''t1'', ps_meta = demo_head\<lparr>om_content_type := Some demo_mime\<rparr>,
      ps_facts = \<lparr>sf_content_hash = ''ab'', sf_prefix = ''ab''\<rparr>, ps_metadata = None, ps_body_start = 0\<rparr>"
  let ?cur = "\<lparr>cc_chunks = it, cc_next_index = 0\<rparr>"
  obtain cur1 where t1: "take_chunk_batch atx_only ''ab'' ?cur 1 [] = Some (Inr (cur1, [(0, c0)]))" "cc_next_index cur1 = 1" "yields atx_only ''ab'' (cc_chunks cur1) [c1]"
    using take_chunk_batch_yields[of atx_only "''ab''" ?cur "[c0, c1]" 1 "[]"] c(2) by auto
  obtain cur2 where t2: "take_chunk_batch atx_only ''ab'' cur1 1 [] = Some (Inr (cur2, [(1, c1)]))"
    using take_chunk_batch_yields[of atx_only "''ab''" cur1 "[c1]" 1 "[]"] t1(2,3) by auto
  have up: "mv_upsert_points demo_vectors demo_kb [chunk_point demo_key (demo_head\<lparr>om_content_type := Some demo_mime\<rparr>) ''ab'' None (0, c0) [7]] = (Inr (), demo_half c0)"
    by (simp add: mv_upsert_points_def mv_collection_def demo_vectors_def mv_create_collection_def mem_vectors_new_def mv_check_reachable_def
        mv_set_collection_def collection_default_def chunk_point_def stored_of_def demo_half_def demo_payload_def Let_def c(3) result_simps insert_commute)
  have u1: "upsert_batches demo_indexer demo_kb demo_key ?snap cur1 (demo_half c0) = Some (Inl (Embed_Failed ''down''), demo_half c0)"
    using t2 t1(2) c(4) by (simp add: upsert_batches.simps[of demo_indexer demo_kb demo_key ?snap cur1] validate_chunk_byte_bound_def del: take_chunk_batch.simps One_nat_def)
  have u0: "upsert_batches demo_indexer demo_kb demo_key ?snap ?cur demo_vectors = Some (Inl (Embed_Failed ''down''), demo_half c0)"
    using t1(1) c(3) u1 up by (simp add: upsert_batches.simps[of demo_indexer demo_kb demo_key ?snap ?cur] validate_chunk_byte_bound_def build_points_def
        mem_vector_ops_def del: take_chunk_batch.simps One_nat_def)
  have ix: "is_indexable demo_mime" by code_simp
  have "index_head demo_indexer () demo_kb demo_key demo_head demo_mime Skip_Never demo_vectors = Some (Inl (Embed_Failed ''down''), demo_half c0)"
    using ix demo_staged u0 c(1)
    by (simp add: index_head_def demo_head_def index_snapshot_def open_chunk_cursor_def SOFT_CHAR_CAP_def MAX_UTF8_BYTES_PER_SCALAR_def result_simps)
  then show thesis by (rule that)
qed

lemma demo_half_chunks:
  "mem_chunks (demo_half c) demo_kb (''a.md'', 0) = Some (demo_payload c)" "mem_chunks (demo_half c) demo_kb (''a.md'', 1) = None"
  "mv_indexed_etag (demo_half c) demo_kb ''a.md'' = Inr (Some ''t1'')"
  using demo_ids_distinct
  by (simp_all add: demo_half_def demo_payload_def mem_chunks_def chunk_at_def payload_key_Some_iff chunk_payload_def mv_set_collection_def
    i64_or_max_def mv_indexed_etag_def mv_collection_def mv_check_reachable_def demo_vectors_def mem_vectors_new_def mv_create_collection_def
    object_etags_def demo_head_def etag_or_empty_def result_simps)

theorem half_indexed_is_skipped_witness:
  "\<exists>v1. index_head demo_indexer () demo_kb demo_key demo_head demo_mime Skip_Never demo_vectors = Some (Inl (Embed_Failed ''down''), v1)
     \<and> mem_chunks v1 demo_kb (''a.md'', 1) = None
     \<and> index_head demo_indexer () demo_kb demo_key demo_head demo_mime Skip_IfUnchanged v1 = Some (Inr Skipped, v1)"
proof -
  obtain c where run: "index_head demo_indexer () demo_kb demo_key demo_head demo_mime Skip_Never demo_vectors = Some (Inl (Embed_Failed ''down''), demo_half c)"
    by (rule demo_half_run)
  have d: "is_indexable demo_mime" by code_simp
  have sz: "om_size demo_head \<noteq> 0" by (simp add: demo_head_def)
  have "index_head demo_indexer () demo_kb demo_key demo_head demo_mime Skip_IfUnchanged (demo_half c) = Some (Inr Skipped, demo_half c)"
    by (rule half_indexed_is_skipped[OF _ _ demo_ready demo_stream _ _ demo_room d sz _ run])
      (use demo_fresh demo_half_chunks[of c] atx_only_ok in auto)
  then show ?thesis using run demo_half_chunks(2) by blast
qed

theorem index_outcome_exact_witness:
  "\<exists>ix r ix'. ix_store ix = demo_vectors \<and> handle_event demo_indexer () () (Upsert demo_kb demo_key) ix = Some (r, ix') \<and> mem_ready demo_ids (ix_store ix')
    \<and> event_result demo_indexer () () (Upsert demo_kb demo_key) (\<lambda>i. mem_chunks demo_vectors demo_kb (''a.md'', i)) (\<lambda>i. mem_chunks (ix_store ix') demo_kb (''a.md'', i)) r"
proof -
  obtain ix :: "nat mem_vectors indexer_state" where ix: "ix_store ix = demo_vectors" by (metis indexer_state.select_convs(1))
  show ?thesis using ix demo_ready demo_stream atx_only_ok demo_room
      index_outcome_exact[of demo_indexer demo_ids ix "Upsert demo_kb demo_key" "()" "()"] by auto
qed

theorem one_outcome_per_event_witness:
  "\<exists>ix r ix'. ix_log ix = [] \<and> handle_event demo_indexer () () (Upsert demo_kb demo_key) ix = Some (r, ix')
    \<and> ix_log ix' = published_of demo_indexer (outcome_events demo_indexer (Upsert demo_kb demo_key) r)"
proof -
  obtain ix :: "nat mem_vectors indexer_state" where ix: "ix_store ix = demo_vectors" "ix_log ix = []" by (metis indexer_state.select_convs(1,3))
  obtain r ix' where h: "handle_event demo_indexer () () (Upsert demo_kb demo_key) ix = Some (r, ix')"
    using mem_index.handle_event_object[of demo_indexer demo_ids "Upsert demo_kb demo_key" ix "()" "()"] ix demo_ready demo_stream atx_only_ok demo_room by auto
  show ?thesis using one_outcome_per_event[OF h] h ix(2) by (auto simp: announcement_def)
qed

end
