(* ===== verification/Fs_Tree.thy ===== *)
theory Fs_Tree
  imports Storage_Api "HOL-Library.AList"
begin

text \<open>
  The part of \<^verbatim>\<open>std::fs\<close> the filesystem backend uses: a tree of directories and files below the storage
  root, with the POSIX results of the calls that depend on the tree alone.  Failures the tree does not
  determine (permissions, a full disk) are not represented.  A path is the list of its plain names
  below the root.  A name is a byte string.  No code of the repository.
\<close>

section \<open>The tree\<close>

text \<open>\<open>fi_modified\<close> counts nanoseconds since the epoch.  A \<open>Special\<close> is a symbolic link, a FIFO, a socket or a device.\<close>

record fs_file =
  fi_bytes :: bytes
  fi_modified :: int
  fi_ino :: nat

datatype fs_node =
    Dir "(string \<times> fs_node) list"
  | Reg fs_file
  | Special

type_synonym fs_path = "string list"

datatype io_kind =
    Io_NotFound
  | Io_NotADirectory
  | Io_IsADirectory
  | Io_AlreadyExists
  | Io_DirectoryNotEmpty

fun is_dir_node :: "fs_node \<Rightarrow> bool" where
  "is_dir_node (Dir _) = True"
| "is_dir_node _ = False"

fun walk_to :: "fs_node \<Rightarrow> fs_path \<Rightarrow> (io_kind, fs_node) result" where
  "walk_to n [] = Inr n"
| "walk_to (Dir es) (s # p) = (case map_of es s of None \<Rightarrow> Inl Io_NotFound | Some n \<Rightarrow> walk_to n p)"
| "walk_to (Reg _) (s # p) = Inl Io_NotADirectory"
| "walk_to Special (s # p) = Inl Io_NotADirectory"

definition node_at :: "fs_node \<Rightarrow> fs_path \<Rightarrow> fs_node option" where
  "node_at t p = (case walk_to t p of Inl _ \<Rightarrow> None | Inr n \<Rightarrow> Some n)"

definition is_dir_at :: "fs_node \<Rightarrow> fs_path \<Rightarrow> bool" where
  "is_dir_at t p \<longleftrightarrow> (\<exists>es. node_at t p = Some (Dir es))"

text \<open>Put a node at a path whose parent is a directory; take one away.\<close>

fun set_at :: "fs_node \<Rightarrow> fs_path \<Rightarrow> fs_node \<Rightarrow> fs_node" where
  "set_at _ [] m = m"
| "set_at (Dir es) (s # p) m =
     (case map_of es s of
        None \<Rightarrow> if p = [] then Dir (es @ [(s, m)]) else Dir es
      | Some n \<Rightarrow> Dir (AList.update s (set_at n p m) es))"
| "set_at n (s # p) m = n"

fun remove_at :: "fs_node \<Rightarrow> fs_path \<Rightarrow> fs_node" where
  "remove_at n [] = n"
| "remove_at (Dir es) (s # p) =
     (if p = [] then Dir (AList.delete s es)
      else case map_of es s of None \<Rightarrow> Dir es | Some n \<Rightarrow> Dir (AList.update s (remove_at n p) es))"
| "remove_at n (s # p) = n"

section \<open>Calls\<close>

definition parent_entries :: "fs_node \<Rightarrow> fs_path \<Rightarrow> (io_kind, (string \<times> fs_node) list) result" where
  "parent_entries t p =
     (case walk_to t (butlast p) of
        Inl e \<Rightarrow> Inl e
      | Inr (Dir es) \<Rightarrow> Inr es
      | Inr _ \<Rightarrow> Inl Io_NotADirectory)"

definition fs_mkdir :: "fs_node \<Rightarrow> fs_path \<Rightarrow> (io_kind, fs_node) result" where
  "fs_mkdir t p =
     (if p = [] then Inl Io_AlreadyExists
      else res_bind (parent_entries t p) (\<lambda>es.
        if map_of es (last p) = None then Inr (set_at t p (Dir [])) else Inl Io_AlreadyExists))"

text \<open>\<^verbatim>\<open>DirBuilder::create\<close> with \<^verbatim>\<open>recursive(true)\<close>.\<close>

function fs_create_dir_all :: "fs_node \<Rightarrow> fs_path \<Rightarrow> (io_kind, unit) result \<times> fs_node" where
  "fs_create_dir_all t p =
     (let again = (\<lambda>t1. case fs_mkdir t1 p of
          Inr t2 \<Rightarrow> (Inr (), t2)
        | Inl e \<Rightarrow> (if is_dir_at t1 p then Inr () else Inl e, t1)) in
      case fs_mkdir t p of
        Inr t1 \<Rightarrow> (Inr (), t1)
      | Inl Io_NotFound \<Rightarrow>
          if p = [] then (Inl Io_NotFound, t)
          else (case fs_create_dir_all t (butlast p) of
                  (Inl e, t1) \<Rightarrow> (Inl e, t1)
                | (Inr _, t1) \<Rightarrow> again t1)
      | Inl e \<Rightarrow> (if is_dir_at t p then Inr () else Inl e, t))"
  by pat_completeness auto
termination
  by (relation "measure (length \<circ> snd)") auto

declare fs_create_dir_all.simps [simp del]

text \<open>Rename a finished temporary file of the same directory over \<open>p\<close>.\<close>

definition fs_rename_over :: "fs_node \<Rightarrow> fs_path \<Rightarrow> fs_file \<Rightarrow> (io_kind, fs_node) result" where
  "fs_rename_over t p f =
     (if p = [] then Inl Io_IsADirectory
      else res_bind (parent_entries t p) (\<lambda>es.
        if (case map_of es (last p) of None \<Rightarrow> False | Some n \<Rightarrow> is_dir_node n) then Inl Io_IsADirectory
        else Inr (set_at t p (Reg f))))"

definition fs_remove_file :: "fs_node \<Rightarrow> fs_path \<Rightarrow> (io_kind, fs_node) result" where
  "fs_remove_file t p =
     res_bind (walk_to t p) (\<lambda>n. if is_dir_node n then Inl Io_IsADirectory else Inr (remove_at t p))"

definition fs_remove_dir :: "fs_node \<Rightarrow> fs_path \<Rightarrow> (io_kind, fs_node) result" where
  "fs_remove_dir t p =
     (if p = [] then Inl Io_DirectoryNotEmpty
      else res_bind (walk_to t p) (\<lambda>n.
        if n = Dir [] then Inr (remove_at t p)
        else if is_dir_node n then Inl Io_DirectoryNotEmpty
        else Inl Io_NotADirectory))"

definition fs_read :: "fs_node \<Rightarrow> fs_path \<Rightarrow> (io_kind, bytes) result" where
  "fs_read t p =
     res_bind (walk_to t p) (\<lambda>n.
       case n of Reg f \<Rightarrow> Inr (fi_bytes f) | Dir _ \<Rightarrow> Inl Io_IsADirectory | Special \<Rightarrow> Inl Io_NotFound)"

section \<open>Reading back\<close>

lemma walk_to_append: "walk_to t (p @ q) = res_bind (walk_to t p) (\<lambda>n. walk_to n q)"
  by (induction t p rule: walk_to.induct) (auto split: option.splits)

lemma node_at_Some_iff: "node_at t p = Some n \<longleftrightarrow> walk_to t p = Inr n"
  by (simp add: node_at_def split: sum.splits)

lemma node_at_Nil [simp]: "node_at t [] = Some t"
  by (simp add: node_at_def)

lemma node_at_Dir: "node_at (Dir es) (s # p) = (case map_of es s of None \<Rightarrow> None | Some n \<Rightarrow> node_at n p)"
  by (simp add: node_at_def split: option.splits)

lemma node_at_leaf [simp]: "node_at (Reg f) (s # p) = None" "node_at Special (s # p) = None"
  by (simp_all add: node_at_def)

lemma node_at_append: "node_at t (p @ q) = (case node_at t p of None \<Rightarrow> None | Some n \<Rightarrow> node_at n q)"
  by (simp add: node_at_def walk_to_append split: sum.splits)

text \<open>What there is at a path, without what is below it: the calls are described by their effect on this map.\<close>

datatype fs_entry = E_Dir | E_Reg fs_file | E_Special

fun node_entry :: "fs_node \<Rightarrow> fs_entry" where
  "node_entry (Dir _) = E_Dir"
| "node_entry (Reg f) = E_Reg f"
| "node_entry Special = E_Special"

definition entry_at :: "fs_node \<Rightarrow> fs_path \<Rightarrow> fs_entry option" where
  "entry_at t p = map_option node_entry (node_at t p)"

lemma entry_at_Nil [simp]: "entry_at t [] = Some (node_entry t)"
  by (simp add: entry_at_def)

lemma entry_at_Dir: "entry_at (Dir es) (s # p) = (case map_of es s of None \<Rightarrow> None | Some n \<Rightarrow> entry_at n p)"
  by (simp add: entry_at_def node_at_Dir split: option.splits)

lemma entry_at_leaf [simp]: "entry_at (Reg f) (s # p) = None" "entry_at Special (s # p) = None"
  by (simp_all add: entry_at_def)

lemma is_dir_at_entry: "is_dir_at t p \<longleftrightarrow> entry_at t p = Some E_Dir"
proof -
  have "node_entry n = E_Dir \<longleftrightarrow> (\<exists>es. n = Dir es)" for n by (cases n) auto
  then show ?thesis by (auto simp: is_dir_at_def entry_at_def)
qed

lemma walk_to_entry: "walk_to t p = Inr n \<Longrightarrow> entry_at t p = Some (node_entry n)"
  by (simp add: entry_at_def node_at_def)

lemma is_dir_node_iff: "is_dir_node n \<longleftrightarrow> (\<exists>es. n = Dir es)"
  by (cases n) auto

lemma walk_to_dir: "is_dir_at t p \<longleftrightarrow> (\<exists>es. walk_to t p = Inr (Dir es))"
  by (auto simp: is_dir_at_def node_at_Some_iff)

lemma walk_to_NotFound: "walk_to t p = Inl e \<Longrightarrow> entry_at t p = None"
  by (simp add: entry_at_def node_at_def)

text \<open>Nothing is below anything but a directory, and every entry is below directories.\<close>

lemma entry_at_below: "entry_at t (p @ s # q) \<noteq> None \<Longrightarrow> entry_at t p = Some E_Dir"
proof (induction t p rule: walk_to.induct)
  case (1 n)
  then show ?case by (cases n) auto
qed (auto simp: entry_at_Dir split: option.splits)

lemma entry_at_set_at:
  "is_dir_at t (butlast p) \<Longrightarrow> p \<noteq> [] \<Longrightarrow> \<not> is_dir_at t p \<Longrightarrow>
     entry_at (set_at t p m) q = (if prefix p q then entry_at m (drop (length p) q) else entry_at t q)"
proof (induction t p m arbitrary: q rule: set_at.induct)
  case (2 es s p m)
  show ?case
  proof (cases q)
    case Nil
    then show ?thesis by (auto split: option.splits)
  next
    case (Cons s' q')
    show ?thesis
    proof (cases "p = []")
      case True
      show ?thesis
      proof (cases "map_of es s")
        case None
        then show ?thesis using Cons True by (auto simp: entry_at_Dir map_of_append map_add_def split: option.splits)
      next
        case (Some n)
        then show ?thesis using Cons True by (auto simp: entry_at_Dir update_conv' split: option.splits)
      qed
    next
      case False
      then obtain n where n: "map_of es s = Some n" "is_dir_at n (butlast p)" "\<not> is_dir_at n p"
        using 2(2,4) by (auto simp: is_dir_at_entry entry_at_Dir split: option.splits)
      then show ?thesis using 2(1)[OF n(1) n(2) False n(3)] Cons by (auto simp: entry_at_Dir update_conv')
    qed
  qed
qed (auto simp: is_dir_at_def split: if_splits)

lemma entry_at_remove_at:
  "p \<noteq> [] \<Longrightarrow> entry_at (remove_at t p) q = (if prefix p q then None else entry_at t q)"
proof (induction t p arbitrary: q rule: remove_at.induct)
  case (2 es s p)
  show ?case
  proof (cases q)
    case Nil
    then show ?thesis by (auto split: option.splits)
  next
    case (Cons s' q')
    show ?thesis
    proof (cases "p = []")
      case True
      then show ?thesis using Cons by (auto simp: entry_at_Dir delete_conv' split: option.splits)
    next
      case False
      then show ?thesis using 2(1) Cons by (auto simp: entry_at_Dir update_conv' split: option.splits)
    qed
  qed
qed (auto simp: prefix_def)

section \<open>What the calls do\<close>

lemma parent_entries_Inr_iff: "parent_entries t p = Inr es \<longleftrightarrow> walk_to t (butlast p) = Inr (Dir es)"
  by (auto simp: parent_entries_def split: sum.splits fs_node.splits)

lemma parent_entries_last:
  "p \<noteq> [] \<Longrightarrow> parent_entries t p = Inr es \<Longrightarrow> node_at t p = map_of es (last p)"
proof -
  assume p: "p \<noteq> []" and "parent_entries t p = Inr es"
  then have "node_at t (butlast p @ [last p]) = map_of es (last p)"
    by (simp add: node_at_append node_at_Some_iff[THEN iffD2] parent_entries_Inr_iff node_at_Dir split: option.splits del: append_butlast_last_id)
  then show ?thesis using p by simp
qed

text \<open>A node put where there was no directory: the entries change at its path alone.\<close>

lemma entry_at_set_leaf:
  assumes "is_dir_at t (butlast p)" "p \<noteq> []" "\<not> is_dir_at t p" "\<And>s q. entry_at m (s # q) = None"
  shows "entry_at (set_at t p m) = (entry_at t)(p \<mapsto> node_entry m)"
proof
  fix q
  have "entry_at t (p @ s # r) = None" for s r using entry_at_below[of t p s r] assms(3) by (cases "entry_at t (p @ s # r)") (auto simp: is_dir_at_entry)
  then show "entry_at (set_at t p m) q = ((entry_at t)(p \<mapsto> node_entry m)) q"
    using entry_at_set_at[OF assms(1-3), of m q] assms(4)
    by (cases "prefix p q"; cases "drop (length p) q") (auto simp: prefix_def)
qed

lemma fs_mkdir_Inr:
  assumes "fs_mkdir t p = Inr t'"
  shows "entry_at t' = (entry_at t)(p \<mapsto> E_Dir)" "entry_at t p = None" "is_dir_at t (butlast p)" "p \<noteq> []"
proof -
  obtain es where es: "parent_entries t p = Inr es" "map_of es (last p) = None" "t' = set_at t p (Dir [])" and p: "p \<noteq> []"
    using assms by (auto simp: fs_mkdir_def res_bind_Inr_iff split: if_splits)
  have d: "is_dir_at t (butlast p)" using es(1) by (auto simp: walk_to_dir parent_entries_Inr_iff)
  have none: "entry_at t p = None" using parent_entries_last[OF p es(1)] es(2) by (simp add: entry_at_def)
  then show "entry_at t' = (entry_at t)(p \<mapsto> E_Dir)"
    using entry_at_set_leaf[OF d p, of "Dir []"] by (simp add: es(3) is_dir_at_entry entry_at_Dir)
  show "entry_at t p = None" "is_dir_at t (butlast p)" "p \<noteq> []" using none d p by simp_all
qed

lemma fs_rename_over_Inr:
  assumes "fs_rename_over t p f = Inr t'"
  shows "entry_at t' = (entry_at t)(p \<mapsto> E_Reg f)" "\<not> is_dir_at t p" "is_dir_at t (butlast p)" "p \<noteq> []"
proof -
  obtain es where es: "parent_entries t p = Inr es" "\<nexists>ds. map_of es (last p) = Some (Dir ds)" "t' = set_at t p (Reg f)" and p: "p \<noteq> []"
    using assms by (auto simp: fs_rename_over_def res_bind_Inr_iff is_dir_node_iff split: if_splits option.splits)
  have d: "is_dir_at t (butlast p)" using es(1) by (auto simp: walk_to_dir parent_entries_Inr_iff)
  have nd: "\<not> is_dir_at t p" using parent_entries_last[OF p es(1)] es(2) by (simp add: is_dir_at_def)
  then show "entry_at t' = (entry_at t)(p \<mapsto> E_Reg f)"
    using entry_at_set_leaf[OF d p, of "Reg f"] by (simp add: es(3))
  show "\<not> is_dir_at t p" "is_dir_at t (butlast p)" "p \<noteq> []" using nd d p by simp_all
qed

lemma fs_remove_file_Inr:
  assumes "fs_remove_file t p = Inr t'" "is_dir_node t"
  shows "entry_at t' = (entry_at t)(p := None)" "entry_at t p \<noteq> None" "\<not> is_dir_at t p" "p \<noteq> []"
proof -
  obtain n where n: "walk_to t p = Inr n" "\<not> is_dir_node n" "t' = remove_at t p"
    using assms(1) by (auto simp: fs_remove_file_def res_bind_Inr_iff split: if_splits)
  have p: "p \<noteq> []" using n(1,2) assms(2) by auto
  have nd: "\<not> is_dir_at t p" using n(1,2) by (auto simp: walk_to_dir)
  have "entry_at t (p @ s # r) = None" for s r using entry_at_below[of t p s r] nd by (cases "entry_at t (p @ s # r)") (auto simp: is_dir_at_entry)
  then have "entry_at t' q = ((entry_at t)(p := None)) q" for q
    using entry_at_remove_at[OF p, of t q] n(3) by (cases "drop (length p) q") (auto simp: prefix_def)
  then show "entry_at t' = (entry_at t)(p := None)" by auto
  show "entry_at t p \<noteq> None" "\<not> is_dir_at t p" "p \<noteq> []" using walk_to_entry[OF n(1)] nd p by simp_all
qed

lemma fs_remove_dir_Inr:
  assumes "fs_remove_dir t p = Inr t'"
  shows "entry_at t' = (entry_at t)(p := None)" "is_dir_at t p" "p \<noteq> []"
proof -
  have n: "walk_to t p = Inr (Dir [])" "t' = remove_at t p" and p: "p \<noteq> []"
    using assms by (auto simp: fs_remove_dir_def res_bind_Inr_iff split: if_splits)
  have "entry_at t (p @ s # r) = None" for s r
    using n(1) by (simp add: entry_at_def node_at_append node_at_Some_iff[THEN iffD2] node_at_Dir)
  then have "entry_at t' q = ((entry_at t)(p := None)) q" for q
    using entry_at_remove_at[OF p, of t q] n(2) by (cases "drop (length p) q") (auto simp: prefix_def)
  then show "entry_at t' = (entry_at t)(p := None)" by auto
  show "is_dir_at t p" "p \<noteq> []" using n(1) p by (auto simp: walk_to_dir)
qed

text \<open>Directories added, nothing else touched.\<close>

definition grown :: "fs_node \<Rightarrow> fs_node \<Rightarrow> fs_path \<Rightarrow> bool" where
  "grown t t' p \<longleftrightarrow> (\<forall>q. entry_at t' q = entry_at t q \<or> (entry_at t q = None \<and> entry_at t' q = Some E_Dir \<and> prefix q p))"

lemma grown_refl [simp]: "grown t t p"
  by (simp add: grown_def)

lemma grown_trans: "grown t t1 q \<Longrightarrow> grown t1 t2 p \<Longrightarrow> prefix q p \<Longrightarrow> grown t t2 p"
  unfolding grown_def by (metis option.distinct(1) prefix_order.trans)

lemma grown_file: "grown t t' p \<Longrightarrow> entry_at t' q = Some (E_Reg f) \<longleftrightarrow> entry_at t q = Some (E_Reg f)"
  unfolding grown_def by (metis fs_entry.distinct(1) option.distinct(1) option.inject)

lemma grown_mkdir: "fs_mkdir t p = Inr t' \<Longrightarrow> grown t t' p"
  using fs_mkdir_Inr[of t p t'] by (auto simp: grown_def)

lemma fs_create_dir_all_grown:
  "fs_create_dir_all t p = (r, t') \<Longrightarrow> grown t t' p \<and> (r = Inr () \<longrightarrow> is_dir_at t' p)"
proof (induction t p arbitrary: r t' rule: fs_create_dir_all.induct)
  case (1 t p)
  have again: "grown t1 t2 p \<and> (x = Inr () \<longrightarrow> is_dir_at t2 p)"
    if "(case fs_mkdir t1 p of Inr t2 \<Rightarrow> (Inr (), t2) | Inl e \<Rightarrow> (if is_dir_at t1 p then Inr () else Inl e, t1)) = (x, t2)" for t1 t2 x
    using that grown_mkdir[of t1 p t2] fs_mkdir_Inr(1)[of t1 p t2] by (auto simp: is_dir_at_entry split: sum.splits if_splits)
  show ?case
  proof (cases "fs_mkdir t p = Inl Io_NotFound \<and> p \<noteq> []")
    case False
    then show ?thesis using 1(2) again[of t r t']
      by (auto simp: fs_create_dir_all.simps[of t p] Let_def split: sum.splits io_kind.splits if_splits)
  next
    case True
    obtain r1 t1 where up: "fs_create_dir_all t (butlast p) = (r1, t1)" by fastforce
    have ih: "grown t t1 (butlast p) \<and> (r1 = Inr () \<longrightarrow> is_dir_at t1 (butlast p))"
      using 1(1)[OF refl, of Io_NotFound] up True by auto
    have pre: "prefix (butlast p) p" by (rule prefixeq_butlast)
    show ?thesis
    proof (cases r1)
      case (Inl e)
      then show ?thesis using 1(2) True up ih grown_trans[OF _ grown_refl pre] by (auto simp: fs_create_dir_all.simps[of t p] Let_def)
    next
      case (Inr u)
      then have "(case fs_mkdir t1 p of Inr t2 \<Rightarrow> (Inr (), t2) | Inl e \<Rightarrow> (if is_dir_at t1 p then Inr () else Inl e, t1)) = (r, t')"
        using 1(2) True up by (simp add: fs_create_dir_all.simps[of t p] Let_def)
      from again[OF this] ih grown_trans[OF _ _ pre] show ?thesis by blast
    qed
  qed
qed

end
