(* ===== verification/Fs_Layout.thy ===== *)
theory Fs_Layout
  imports Fs_Tree Utf8
begin

text \<open>
  Where the filesystem backend puts things (\<^verbatim>\<open>notedthat-storage-fs/src/layout.rs\<close>, \<^verbatim>\<open>errors.rs\<close>).  A path is
  relative to the storage root.  An object is the file its key names below the directory of its
  knowledge base; the record kept beside it lies in a shadow tree next to those directories.
\<close>

section \<open>Names\<close>

definition META_DIR :: string where
  "META_DIR = ''.notedthat-meta''"

definition LOCK_FILE :: string where
  "LOCK_FILE = ''.notedthat.lock''"

definition SIDECAR_SUFFIX :: string where
  "SIDECAR_SUFFIX = ''.ntmeta''"

definition TEMP_PREFIX :: string where
  "TEMP_PREFIX = ''.notedthat-tmp-''"

definition MAX_SEGMENT_BYTES :: nat where
  "MAX_SEGMENT_BYTES = 255 - length SIDECAR_SUFFIX"

definition fs_bucket_dir :: "string \<Rightarrow> fs_path" where
  "fs_bucket_dir bucket = [bucket]"

definition fs_meta_bucket_dir :: "string \<Rightarrow> fs_path" where
  "fs_meta_bucket_dir bucket = [META_DIR, bucket]"

definition fs_bucket_name :: "tenant_slug \<Rightarrow> kb_slug \<Rightarrow> string" where
  "fs_bucket_name tenant kb = derive_bucket_name tenant kb"

text \<open>\<^verbatim>\<open>Path::components\<close> of a relative Unix path.\<close>

datatype component = Comp_RootDir | Comp_CurDir | Comp_ParentDir | Comp_Normal string

definition components :: "string \<Rightarrow> component list" where
  "components s =
     (let parts = split_on CHR ''/'' s;
          body = (\<lambda>ps. map (\<lambda>p. if p = ''..'' then Comp_ParentDir else Comp_Normal p) (filter (\<lambda>p. p \<noteq> [] \<and> p \<noteq> ''.'') ps)) in
      if prefix ''/'' s then Comp_RootDir # body parts
      else if hd parts = ''.'' then Comp_CurDir # body (tl parts)
      else body parts)"

definition unsupported_key :: "string \<Rightarrow> storage_error" where
  "unsupported_key message = SE_Other message"

definition validate_segment :: "string \<Rightarrow> string \<Rightarrow> (storage_error, unit) result" where
  "validate_segment seg key =
     (if MAX_SEGMENT_BYTES < length seg then
        Inl (unsupported_key (''path segment '' @ sq @ seg @ sq @ '' of key '' @ sq @ key @ sq @ '' is '' @ show_nat (length seg)
          @ '' bytes, over the '' @ show_nat MAX_SEGMENT_BYTES @ ''-byte filesystem limit''))
      else if prefix TEMP_PREFIX seg then
        Inl (unsupported_key (''key '' @ sq @ key @ sq @ '' uses the reserved '' @ sq @ TEMP_PREFIX @ sq @ '' prefix''))
      else if components seg = [Comp_Normal seg] then Inr ()
      else Inl (unsupported_key (''path segment '' @ sq @ seg @ sq @ '' of key '' @ sq @ key @ sq @ '' is not a plain filename'')))"

fun push_segments :: "fs_path \<Rightarrow> string \<Rightarrow> string list \<Rightarrow> (storage_error, fs_path) result" where
  "push_segments path key [] = Inr path"
| "push_segments path key (seg # segs) = res_bind (validate_segment seg key) (\<lambda>_. push_segments (path @ [seg]) key segs)"

definition push_key :: "fs_path \<Rightarrow> string \<Rightarrow> (storage_error, fs_path) result" where
  "push_key base key = push_segments base key (split_on CHR ''/'' key)"

definition fs_object_path :: "string \<Rightarrow> string \<Rightarrow> (storage_error, fs_path) result" where
  "fs_object_path bucket key = push_key (fs_bucket_dir bucket) key"

definition sidecar_path :: "string \<Rightarrow> string \<Rightarrow> (storage_error, fs_path) result" where
  "sidecar_path bucket key =
     res_map (\<lambda>path. butlast path @ [last path @ SIDECAR_SUFFIX]) (push_key (fs_meta_bucket_dir bucket) key)"

text \<open>\<^verbatim>\<open>OsStr::to_str\<close>.\<close>

definition to_str :: "string \<Rightarrow> string option" where
  "to_str name = (if valid_utf8 name then Some name else None)"

definition key_from_path :: "fs_path \<Rightarrow> fs_path \<Rightarrow> string option" where
  "key_from_path bucket_dir path =
     (if \<not> prefix bucket_dir path then None
      else
        let relative = drop (length bucket_dir) path in
        if list_all valid_utf8 relative \<and> relative \<noteq> [] then Some (join ''/'' relative) else None)"

section \<open>Errors\<close>

fun io_message :: "io_kind \<Rightarrow> string" where
  "io_message Io_NotFound = ''No such file or directory (os error 2)''"
| "io_message Io_NotADirectory = ''Not a directory (os error 20)''"
| "io_message Io_IsADirectory = ''Is a directory (os error 21)''"
| "io_message Io_AlreadyExists = ''File exists (os error 17)''"
| "io_message Io_DirectoryNotEmpty = ''Directory not empty (os error 39)''"

definition err_backend :: "io_kind \<Rightarrow> storage_error" where
  "err_backend e = SE_BackendUnavailable (io_message e)"

definition err_backend_at :: "string \<Rightarrow> io_kind \<Rightarrow> storage_error" where
  "err_backend_at ctx e = SE_BackendUnavailable (ctx @ '': '' @ io_message e)"

definition err_other :: "io_kind \<Rightarrow> storage_error" where
  "err_other e = SE_Other (io_message e)"

fun err_bucket :: "string \<Rightarrow> io_kind \<Rightarrow> storage_error" where
  "err_bucket bucket Io_NotFound = SE_BucketNotFound bucket"
| "err_bucket bucket e = err_backend_at (''stat '' @ bucket) e"

definition collides :: "string \<Rightarrow> io_kind \<Rightarrow> storage_error" where
  "collides key e = unsupported_key (''key '' @ sq @ key @ sq @ '' collides with a directory in the storage tree ''
     @ ''(S3 allows an object and a prefix to share a name; a filesystem cannot): '' @ io_message e)"

fun err_object :: "string \<Rightarrow> io_kind \<Rightarrow> storage_error" where
  "err_object key Io_NotFound = SE_NotFound key"
| "err_object key Io_NotADirectory = collides key Io_NotADirectory"
| "err_object key Io_IsADirectory = collides key Io_IsADirectory"
| "err_object key e = err_other e"

section \<open>Keys and paths\<close>

definition plain_segment :: "string \<Rightarrow> bool" where
  "plain_segment seg \<longleftrightarrow>
     length seg \<le> MAX_SEGMENT_BYTES \<and> \<not> prefix TEMP_PREFIX seg \<and> seg \<noteq> [] \<and> seg \<noteq> ''.'' \<and> seg \<noteq> ''..''"

lemma components_plain: "CHR ''/'' \<notin> set seg \<Longrightarrow> components seg = [Comp_Normal seg] \<longleftrightarrow> seg \<noteq> [] \<and> seg \<noteq> ''.'' \<and> seg \<noteq> ''..''"
  by (auto simp: components_def split_on_no_sep prefix_def Let_def)

lemma validate_segment_Inr_iff: "CHR ''/'' \<notin> set seg \<Longrightarrow> validate_segment seg key = Inr () \<longleftrightarrow> plain_segment seg"
  by (auto simp: validate_segment_def plain_segment_def components_plain)

lemma push_segments_Inr_iff:
  "(\<forall>seg\<in>set segs. CHR ''/'' \<notin> set seg) \<Longrightarrow>
     push_segments base key segs = Inr path \<longleftrightarrow> path = base @ segs \<and> list_all plain_segment segs"
  by (induction segs arbitrary: base) (auto simp: res_bind_Inr_iff validate_segment_Inr_iff)

lemma push_key_Inr_iff:
  "push_key base key = Inr path \<longleftrightarrow> path = base @ split_on CHR ''/'' key \<and> list_all plain_segment (split_on CHR ''/'' key)"
  unfolding push_key_def by (rule push_segments_Inr_iff) (auto dest: split_on_segment_no_sep)

lemma fs_object_path_Inr_iff:
  "fs_object_path bucket key = Inr path \<longleftrightarrow> path = bucket # split_on CHR ''/'' key \<and> list_all plain_segment (split_on CHR ''/'' key)"
  by (auto simp: fs_object_path_def push_key_Inr_iff fs_bucket_dir_def)

lemma sidecar_path_Inr_iff:
  "sidecar_path bucket key = Inr path \<longleftrightarrow>
     path = META_DIR # bucket # butlast (split_on CHR ''/'' key) @ [last (split_on CHR ''/'' key) @ SIDECAR_SUFFIX]
     \<and> list_all plain_segment (split_on CHR ''/'' key)"
  by (auto simp: sidecar_path_def push_key_Inr_iff fs_meta_bucket_dir_def res_map_Inr_iff)

lemma sidecar_path_ok: "fs_object_path bucket key = Inr path \<Longrightarrow> \<exists>q. sidecar_path bucket key = Inr q"
  by (simp add: fs_object_path_Inr_iff sidecar_path_Inr_iff)

lemma key_from_object_path:
  assumes "fs_object_path bucket key = Inr path" "valid_utf8 key"
  shows "key_from_path (fs_bucket_dir bucket) path = Some key"
  using assms valid_split_on[of "CHR ''/''" key]
  by (auto simp: key_from_path_def fs_object_path_Inr_iff fs_bucket_dir_def in_range_def list_all_iff join_split_on)

lemma fs_object_path_inj:
  "fs_object_path b key = Inr p \<Longrightarrow> fs_object_path b' key' = Inr p \<Longrightarrow> b = b' \<and> key = key'"
  by (auto simp: fs_object_path_Inr_iff dest: split_on_inj)

lemma sidecar_path_inj:
  assumes "sidecar_path b key = Inr p" "sidecar_path b' key' = Inr p"
  shows "b = b' \<and> key = key'"
proof -
  let ?s = "split_on CHR ''/'' key" and ?s' = "split_on CHR ''/'' key'"
  have "butlast ?s = butlast ?s'" "last ?s = last ?s'" "b = b'" using assms by (auto simp: sidecar_path_Inr_iff)
  then have "?s = ?s'" by (metis append_butlast_last_id split_on_not_Nil)
  then show ?thesis using \<open>b = b'\<close> by (auto dest: split_on_inj)
qed

text \<open>A bucket directory is never the shadow tree or the lock.\<close>

lemma bucket_name_not_reserved: "fs_bucket_name t kb \<noteq> META_DIR" "fs_bucket_name t kb \<noteq> LOCK_FILE"
  by (simp_all add: fs_bucket_name_def derive_bucket_name_def BUCKET_NAME_PREFIX_def META_DIR_def LOCK_FILE_def)

section \<open>Properties\<close>

text \<open>
  C35: The layout keeps objects apart.  An accepted key names one file below the directory of its knowledge
  base and is recovered from that file's path; two objects never share a file, nor two records; and no
  object's file is the record of an object or the lock of the root.
\<close>

theorem fs_layout_exact:
  assumes "fs_object_path (fs_bucket_name t kb) key = Inr p" "valid_utf8 key"
  shows "prefix (fs_bucket_dir (fs_bucket_name t kb)) p \<and> key_from_path (fs_bucket_dir (fs_bucket_name t kb)) p = Some key
    \<and> (\<forall>b' key'. fs_object_path b' key' = Inr p \<longrightarrow> b' = fs_bucket_name t kb \<and> key' = key)
    \<and> (\<exists>q. sidecar_path (fs_bucket_name t kb) key = Inr q
          \<and> (\<forall>b' key'. sidecar_path b' key' = Inr q \<longrightarrow> b' = fs_bucket_name t kb \<and> key' = key))
    \<and> (\<forall>b' key'. sidecar_path b' key' \<noteq> Inr p) \<and> p \<noteq> [LOCK_FILE]"
proof -
  obtain q where q: "sidecar_path (fs_bucket_name t kb) key = Inr q" using sidecar_path_ok[OF assms(1)] by blast
  have "sidecar_path b' key' \<noteq> Inr p" for b' key'
    using assms(1) bucket_name_not_reserved(1)[of t kb] by (auto simp: fs_object_path_Inr_iff sidecar_path_Inr_iff)
  moreover have "p \<noteq> [LOCK_FILE]" "prefix (fs_bucket_dir (fs_bucket_name t kb)) p"
    using assms(1) by (auto simp: fs_object_path_Inr_iff fs_bucket_dir_def)
  ultimately show ?thesis
    using key_from_object_path[OF assms] fs_object_path_inj[OF _ assms(1)] sidecar_path_inj[OF _ q] q by blast
qed

theorem fs_layout_exact_witness:
  "key_from_path [''nt-default-notes''] [''nt-default-notes'', ''a'', ''b.md''] = Some ''a/b.md''"
proof -
  have name: "fs_bucket_name (TenantSlug ''default'') (KbSlug ''notes'') = ''nt-default-notes''"
    by (simp add: fs_bucket_name_def derive_bucket_name_def BUCKET_NAME_PREFIX_def)
  have path: "fs_object_path (fs_bucket_name (TenantSlug ''default'') (KbSlug ''notes'')) ''a/b.md'' = Inr [''nt-default-notes'', ''a'', ''b.md'']"
    by (simp add: name fs_object_path_Inr_iff plain_segment_def MAX_SEGMENT_BYTES_def SIDECAR_SUFFIX_def TEMP_PREFIX_def)
  have valid: "valid_utf8 ''a/b.md''" by code_simp
  show ?thesis using fs_layout_exact[OF path valid] unfolding name fs_bucket_dir_def by blast
qed

end
