(* ===== verification/Fs_Listing.thy ===== *)
theory Fs_Listing
  imports Fs_Layout
begin

text \<open>
  Listing a bucket directory in key order (\<^verbatim>\<open>notedthat-storage-fs/src/listing.rs\<close>, and \<^verbatim>\<open>list_objects\<close> of
  \<^verbatim>\<open>storage.rs\<close>).  The walk keeps a stack of directory levels, each read when it is entered.  The tree
  does not change during one listing.  \<^verbatim>\<open>serde_json\<close> and base64 make a cursor opaque; they are the codec
  parameter, of which a listing needs that decoding undoes encoding.
\<close>

section \<open>The walk\<close>

record found =
  fo_key :: string
  fo_size :: u64
  fo_last_modified :: "int option"

record walk_entry =
  we_path :: fs_path
  we_key :: string
  we_is_dir :: bool

type_synonym ordered_walk = "walk_entry list list"

definition level_entry :: "fs_path \<Rightarrow> fs_path \<Rightarrow> string \<times> fs_node \<Rightarrow> (string \<times> walk_entry) option" where
  "level_entry bucket_dir dir = (\<lambda>(name, node).
     if node = Special then None
     else case to_str name of
       None \<Rightarrow> None
     | Some name \<Rightarrow>
         if prefix TEMP_PREFIX name then None
         else map_option (\<lambda>key.
                (if is_dir_node node then name @ ''/'' else name,
                 \<lparr>we_path = dir @ [name], we_key = key, we_is_dir = is_dir_node node\<rparr>))
              (key_from_path bucket_dir (dir @ [name])))"

text \<open>\<^verbatim>\<open>sort_by\<close> with the operands swapped: descending and stable.\<close>

definition read_level :: "fs_node \<Rightarrow> fs_path \<Rightarrow> fs_path \<Rightarrow> walk_entry list" where
  "read_level t bucket_dir dir =
     (case walk_to t dir of
        Inr (Dir entries) \<Rightarrow>
          map snd (rev (sort_key fst (rev (List.map_filter (level_entry bucket_dir dir) entries))))
      | _ \<Rightarrow> [])"

definition walk_new :: "fs_node \<Rightarrow> fs_path \<Rightarrow> ordered_walk" where
  "walk_new t bucket_dir = [read_level t bucket_dir bucket_dir]"

definition subtree_may_match :: "string \<Rightarrow> string option \<Rightarrow> string option \<Rightarrow> bool" where
  "subtree_may_match dir_key after pre =
     (let stem = dir_key @ ''/'' in
      if (case pre of None \<Rightarrow> False | Some p \<Rightarrow> \<not> prefix p stem \<and> \<not> prefix stem p) then False
      else if (case after of None \<Rightarrow> False | Some a \<Rightarrow> stem \<le> a \<and> \<not> prefix stem a) then False
      else True)"

definition key_matches :: "string option \<Rightarrow> string option \<Rightarrow> string \<Rightarrow> bool" where
  "key_matches after pre key \<longleftrightarrow>
     (case after of None \<Rightarrow> True | Some a \<Rightarrow> \<not> key \<le> a) \<and> (case pre of None \<Rightarrow> True | Some p \<Rightarrow> prefix p key)"

text \<open>How much a walk has left, to show that looking for the next match ends.\<close>

fun node_weight :: "fs_node \<Rightarrow> nat" where
  "node_weight (Dir es) = 2 + length es * Suc (Suc (foldr max (map (\<lambda>(_, n). node_weight n) es) 0))"
| "node_weight _ = 0"

definition path_weight :: "fs_node \<Rightarrow> fs_path \<Rightarrow> nat" where
  "path_weight t p = (case node_at t p of None \<Rightarrow> 0 | Some n \<Rightarrow> node_weight n)"

definition level_weight :: "fs_node \<Rightarrow> walk_entry list \<Rightarrow> nat" where
  "level_weight t level = Suc (sum_list (map (\<lambda>e. Suc (Suc (path_weight t (we_path e)))) level))"

definition walk_weight :: "fs_node \<Rightarrow> ordered_walk \<Rightarrow> nat" where
  "walk_weight t stack = sum_list (map (level_weight t) stack)"

lemma foldr_max_ge: "x \<in> set xs \<Longrightarrow> x \<le> foldr max xs (0 :: nat)"
  by (induction xs) auto

lemma node_weight_child: "map_of es s = Some n \<Longrightarrow> node_weight n \<le> foldr max (map (\<lambda>(_, n). node_weight n) es) 0"
  by (force intro!: foldr_max_ge dest!: map_of_SomeD)

lemma level_entry_path: "level_entry b dir x = Some (k, e) \<Longrightarrow> we_path e = dir @ [fst x]"
  by (auto simp: level_entry_def to_str_def split: prod.splits if_splits)

lemma length_map_filter: "length (List.map_filter f xs) \<le> length xs"
  by (simp add: List.map_filter_def)

lemma map_filter_mem: "y \<in> set (List.map_filter f xs) \<longleftrightarrow> (\<exists>x\<in>set xs. f x = Some y)"
  by (force simp: List.map_filter_def)

lemma read_level_weight:
  assumes "node_at t dir = Some (Dir es)"
  shows "level_weight t (read_level t b dir) < node_weight (Dir es)"
proof -
  let ?f = "level_entry b dir" and ?m = "Suc (Suc (foldr max (map (\<lambda>(_, n). node_weight n) es) 0))"
  let ?L = "rev (sort_key fst (rev (List.map_filter ?f es)))"
  have bound: "Suc (Suc (path_weight t (we_path e))) \<le> ?m" if mem: "(k, e) \<in> set ?L" for k e
  proof -
    obtain x where x: "x \<in> set es" "?f x = Some (k, e)" using mem by (auto simp: map_filter_mem)
    have "path_weight t (we_path e) = (case map_of es (fst x) of None \<Rightarrow> 0 | Some n \<Rightarrow> node_weight n)"
      using assms by (simp add: level_entry_path[OF x(2)] path_weight_def node_at_append node_at_Dir split: option.splits)
    then show ?thesis using node_weight_child[of es "fst x"] by (auto split: option.splits)
  qed
  have "sum_list (map (\<lambda>e. Suc (Suc (path_weight t (we_path e)))) (map snd ?L)) \<le> length ?L * ?m"
    using bound sum_list_mono[of ?L "\<lambda>x. Suc (Suc (path_weight t (we_path (snd x))))" "\<lambda>_. ?m"]
    by (force simp: sum_list_triv o_def)
  also have "\<dots> \<le> length es * ?m" using length_map_filter[of ?f es] by (intro mult_le_mono1) simp
  finally show ?thesis using assms by (simp add: read_level_def level_weight_def node_at_Some_iff)
qed

lemma sum_list_butlast: "xs \<noteq> [] \<Longrightarrow> sum_list (map f xs) = sum_list (map f (butlast xs)) + f (last xs)" for f :: "'a \<Rightarrow> nat"
  by (cases xs rule: rev_cases) auto

function next_match :: "fs_node \<Rightarrow> fs_path \<Rightarrow> string option \<Rightarrow> string option \<Rightarrow> ordered_walk \<Rightarrow> found option \<times> ordered_walk" where
  "next_match t bucket_dir after pre stack =
     (case stack of
        [] \<Rightarrow> (None, [])
      | level # stack' \<Rightarrow>
          if level = [] then next_match t bucket_dir after pre stack'
          else
            let entry = last level; stack1 = butlast level # stack' in
            if we_is_dir entry then
              if subtree_may_match (we_key entry) after pre
              then next_match t bucket_dir after pre (read_level t bucket_dir (we_path entry) # stack1)
              else next_match t bucket_dir after pre stack1
            else if \<not> key_matches after pre (we_key entry) then next_match t bucket_dir after pre stack1
            else
              case node_at t (we_path entry) of
                None \<Rightarrow> next_match t bucket_dir after pre stack1
              | Some node \<Rightarrow>
                  (Some \<lparr>fo_key = we_key entry,
                         fo_size = (case node of Reg f \<Rightarrow> of_nat (length (fi_bytes f)) | _ \<Rightarrow> 0),
                         fo_last_modified = (case node of Reg f \<Rightarrow> Some (unix_seconds_i64 (fi_modified f)) | _ \<Rightarrow> None)\<rparr>,
                   stack1))"
  by pat_completeness auto

termination
proof (relation "measure (\<lambda>(t, _, _, _, stack). walk_weight t stack)", goal_cases)
  case (3 t b after pre stack level stack' entry stack1)
  have e: "level_weight t level = level_weight t (butlast level) + Suc (Suc (path_weight t (we_path entry)))"
    using 3 by (simp add: level_weight_def sum_list_butlast)
  show ?case
  proof (cases "\<exists>es. node_at t (we_path entry) = Some (Dir es)")
    case True
    then obtain es where es: "node_at t (we_path entry) = Some (Dir es)" by blast
    then show ?thesis using read_level_weight[OF es, of b] 3 e by (simp add: walk_weight_def path_weight_def)
  next
    case False
    then have "read_level t b (we_path entry) = []"
      by (auto simp: read_level_def node_at_Some_iff split: sum.splits fs_node.splits)
    then show ?thesis using 3 e by (simp add: walk_weight_def level_weight_def)
  qed
qed (auto simp: walk_weight_def level_weight_def sum_list_butlast)

declare next_match.simps [simp del]

section \<open>The walk as a list\<close>

text \<open>What the kernel guarantees of a tree: names in a directory are distinct, not empty and without a slash.\<close>

fun tree_ok :: "fs_node \<Rightarrow> bool" where
  "tree_ok (Dir es) \<longleftrightarrow> distinct (map fst es) \<and> (\<forall>x\<in>set es. fst x \<noteq> [] \<and> CHR ''/'' \<notin> set (fst x) \<and> tree_ok (snd x))"
| "tree_ok _ \<longleftrightarrow> True"

lemma tree_ok_node: "tree_ok t \<Longrightarrow> node_at t p = Some n \<Longrightarrow> tree_ok n"
  by (induction t p rule: walk_to.induct) (auto simp: node_at_Dir split: option.splits dest!: map_of_SomeD)

lemma node_names: "tree_ok t \<Longrightarrow> node_at t p = Some n \<Longrightarrow> list_all (\<lambda>s. CHR ''/'' \<notin> set s) p"
proof (induction t p rule: walk_to.induct)
  case (2 es s p)
  then obtain m where m: "map_of es s = Some m" "node_at m p = Some n" by (auto simp: node_at_Dir split: option.splits)
  have "(s, m) \<in> set es" using m(1) by (rule map_of_SomeD)
  then show ?case using 2(1)[OF m(1)] 2(2) m(2) by auto
qed auto

text \<open>All files the walk would still come to, in its order.\<close>

function flat :: "fs_node \<Rightarrow> fs_path \<Rightarrow> ordered_walk \<Rightarrow> walk_entry list" where
  "flat t b stack =
     (case stack of
        [] \<Rightarrow> []
      | level # stack' \<Rightarrow>
          if level = [] then flat t b stack'
          else
            let entry = last level; stack1 = butlast level # stack' in
            if we_is_dir entry then flat t b (read_level t b (we_path entry) # stack1)
            else if node_at t (we_path entry) = None then flat t b stack1
            else entry # flat t b stack1)"
  by pat_completeness auto
termination
proof (relation "measure (\<lambda>(t, _, stack). walk_weight t stack)", goal_cases)
  case (3 t b stack level stack' entry stack1)
  show ?case
  proof (cases "\<exists>es. node_at t (we_path entry) = Some (Dir es)")
    case True
    then obtain es where es: "node_at t (we_path entry) = Some (Dir es)" by blast
    then show ?thesis using read_level_weight[OF es, of b] 3 by (simp add: walk_weight_def path_weight_def level_weight_def sum_list_butlast)
  next
    case False
    then have "read_level t b (we_path entry) = []"
      by (auto simp: read_level_def node_at_Some_iff split: sum.splits fs_node.splits)
    then show ?thesis using 3 by (simp add: walk_weight_def level_weight_def sum_list_butlast)
  qed
qed (auto simp: walk_weight_def level_weight_def sum_list_butlast)

declare flat.simps [simp del]

lemma flat_Nil [simp]: "flat t b [] = []"
  by (simp add: flat.simps)

lemma flat_empty_level [simp]: "flat t b ([] # stack) = flat t b stack"
  by (simp add: flat.simps[of t b "[] # stack"])

lemma flat_snoc:
  "flat t b ((level @ [e]) # stack) =
     (if we_is_dir e then flat t b (read_level t b (we_path e) # level # stack)
      else if node_at t (we_path e) = None then flat t b (level # stack)
      else e # flat t b (level # stack))"
  by (simp add: flat.simps[of t b "(level @ [e]) # stack"] Let_def)

lemma flat_append: "flat t b (s1 @ s2) = flat t b s1 @ flat t b s2"
proof (induction t b s1 rule: flat.induct)
  case (1 t b s1)
  show ?case
  proof (cases s1)
    case (Cons level s1')
    show ?thesis
    proof (cases level rule: rev_cases)
      case Nil
      then show ?thesis using 1(1)[OF Cons] Cons by simp
    next
      case (snoc l e)
      then show ?thesis using 1(2-)[OF Cons] Cons by (auto simp: flat_snoc)
    qed
  qed simp
qed

lemma flat_level: "flat t b (level # stack) = flat t b [level] @ flat t b stack"
  using flat_append[of t b "[level]" stack] by simp

text \<open>What the walk finds below an entry.\<close>

definition visible_name :: "string \<Rightarrow> bool" where
  "visible_name name \<longleftrightarrow> valid_utf8 name \<and> \<not> prefix TEMP_PREFIX name"

definition file_entry :: "fs_node \<Rightarrow> fs_path \<Rightarrow> walk_entry \<Rightarrow> bool" where
  "file_entry t b e \<longleftrightarrow>
     \<not> we_is_dir e \<and> (\<exists>f. node_at t (we_path e) = Some (Reg f)) \<and> key_from_path b (we_path e) = Some (we_key e)"

definition below :: "fs_node \<Rightarrow> fs_path \<Rightarrow> fs_path \<Rightarrow> walk_entry set" where
  "below t b dir = {e. file_entry t b e \<and> (\<exists>p. we_path e = dir @ p \<and> p \<noteq> [] \<and> list_all visible_name p)}"

definition under :: "fs_node \<Rightarrow> fs_path \<Rightarrow> walk_entry \<Rightarrow> walk_entry set" where
  "under t b e = (if we_is_dir e then below t b (we_path e) else if node_at t (we_path e) = None then {} else {e})"

lemma level_entry_Some_iff:
  "level_entry b dir (name, n) = Some (k, e) \<longleftrightarrow>
     n \<noteq> Special \<and> visible_name name \<and> we_path e = dir @ [name] \<and> key_from_path b (we_path e) = Some (we_key e)
     \<and> we_is_dir e = is_dir_node n \<and> k = (if is_dir_node n then name @ ''/'' else name)"
  by (cases e) (auto simp: level_entry_def to_str_def visible_name_def)

lemma read_level_Dir:
  "node_at t dir = Some (Dir es) \<Longrightarrow>
     read_level t b dir = map snd (rev (sort_key fst (rev (List.map_filter (level_entry b dir) es))))"
  by (simp add: read_level_def node_at_Some_iff)

lemma read_level_other: "\<nexists>es. node_at t dir = Some (Dir es) \<Longrightarrow> read_level t b dir = []"
  by (auto simp: read_level_def node_at_Some_iff split: sum.splits fs_node.splits)

lemma child_iff:
  assumes "tree_ok t" "node_at t dir = Some (Dir es)"
  shows "(name, n) \<in> set es \<longleftrightarrow> node_at t (dir @ [name]) = Some n"
proof -
  have "distinct (map fst es)" using tree_ok_node[OF assms] by simp
  then have "(name, n) \<in> set es \<longleftrightarrow> map_of es name = Some n" by (simp add: map_of_eq_Some_iff)
  then show ?thesis using assms(2) by (simp add: node_at_append node_at_Dir split: option.splits)
qed

lemma read_level_mem:
  assumes "tree_ok t"
  shows "e \<in> set (read_level t b dir) \<longleftrightarrow>
    (\<exists>name n. node_at t (dir @ [name]) = Some n \<and> n \<noteq> Special \<and> visible_name name \<and> we_path e = dir @ [name]
       \<and> key_from_path b (we_path e) = Some (we_key e) \<and> we_is_dir e = is_dir_node n)"
proof (cases "\<exists>es. node_at t dir = Some (Dir es)")
  case True
  then obtain es where es: "node_at t dir = Some (Dir es)" by blast
  have "e \<in> set (read_level t b dir) \<longleftrightarrow> (\<exists>k name n. (name, n) \<in> set es \<and> level_entry b dir (name, n) = Some (k, e))"
    by (force simp: read_level_Dir[OF es] map_filter_mem)
  then show ?thesis by (auto simp: level_entry_Some_iff child_iff[OF assms es])
next
  case False
  then have "node_at t (dir @ [name]) = None" for name
    by (cases "node_at t dir") (auto simp: node_at_append is_dir_node_iff elim: fs_node.exhaust split: option.splits, metis fs_node.exhaust node_at_leaf)
  then show ?thesis by (simp add: read_level_other[OF False])
qed

lemma key_from_path_Some_iff:
  "key_from_path b (b @ p) = Some key \<longleftrightarrow> p \<noteq> [] \<and> list_all valid_utf8 p \<and> key = join ''/'' p"
  by (auto simp: key_from_path_def)

lemma below_children:
  assumes "tree_ok t" and pre: "prefix b dir"
  shows "below t b dir = (\<Union>x\<in>set (read_level t b dir). under t b x)"
proof (intro equalityI subsetI)
  fix e
  assume "e \<in> below t b dir"
  then obtain name p f where e: "file_entry t b e" "we_path e = dir @ name # p" "list_all visible_name (name # p)" "node_at t (we_path e) = Some (Reg f)"
    by (auto simp: below_def file_entry_def neq_Nil_conv)
  have "node_at t ((dir @ [name]) @ p) = Some (Reg f)" using e(2,4) by simp
  then obtain n where n: "node_at t (dir @ [name]) = Some n" "node_at n p = Some (Reg f)"
    unfolding node_at_append[of t "dir @ [name]" p] by (auto split: option.splits)
  show "e \<in> (\<Union>x\<in>set (read_level t b dir). under t b x)"
  proof (cases p)
    case Nil
    then have "e \<in> set (read_level t b dir)" using n e by (auto simp: read_level_mem[OF assms(1)] file_entry_def)
    moreover have "e \<in> under t b e" using e by (simp add: under_def file_entry_def)
    ultimately show ?thesis by blast
  next
    case (Cons a q)
    then obtain es where d: "n = Dir es" using n(2) by (cases n) auto
    obtain r where r: "dir = b @ r" using pre by (auto simp: prefix_def)
    then obtain key where key: "key_from_path b (dir @ [name]) = Some key"
      using e(1,2) key_from_path_Some_iff[of b "r @ name # p"] key_from_path_Some_iff[of b "r @ [name]"] by (auto simp: file_entry_def)
    let ?x = "\<lparr>we_path = dir @ [name], we_key = key, we_is_dir = True\<rparr>"
    have "?x \<in> set (read_level t b dir)" using n(1) d e(3) key by (simp add: read_level_mem[OF assms(1)])
    moreover have "e \<in> under t b ?x" using e Cons by (simp add: under_def below_def)
    ultimately show ?thesis by blast
  qed
next
  fix e
  assume "e \<in> (\<Union>x\<in>set (read_level t b dir). under t b x)"
  then obtain x where x: "x \<in> set (read_level t b dir)" "e \<in> under t b x" by blast
  then show "e \<in> below t b dir"
    by (auto simp: read_level_mem[OF assms(1)] under_def below_def file_entry_def is_dir_node_iff split: if_splits) (metis fs_node.exhaust)
qed

definition stack_below :: "fs_path \<Rightarrow> ordered_walk \<Rightarrow> bool" where
  "stack_below b stack \<longleftrightarrow> (\<forall>level\<in>set stack. \<forall>e\<in>set level. prefix b (we_path e))"

lemma read_level_below: "tree_ok t \<Longrightarrow> e \<in> set (read_level t b dir) \<Longrightarrow> prefix b (we_path e)"
  by (auto simp: read_level_mem key_from_path_def split: if_splits)

lemma stack_below_step:
  "tree_ok t \<Longrightarrow> stack_below b ((level @ [e]) # stack) \<Longrightarrow>
     stack_below b (level # stack) \<and> stack_below b (read_level t b (we_path e) # level # stack) \<and> prefix b (we_path e)"
  by (auto simp: stack_below_def read_level_below)

lemma set_flat:
  "tree_ok t \<Longrightarrow> stack_below b stack \<Longrightarrow> set (flat t b stack) = (\<Union>level\<in>set stack. \<Union>e\<in>set level. under t b e)"
proof (induction t b stack rule: flat.induct)
  case (1 t b stack)
  show ?case
  proof (cases stack)
    case (Cons level stack')
    show ?thesis
    proof (cases level rule: rev_cases)
      case Nil
      then show ?thesis using 1(1)[OF Cons] 1(5,6) Cons by (simp add: stack_below_def)
    next
      case (snoc l e)
      have sb: "stack_below b (l # stack')" "stack_below b (read_level t b (we_path e) # l # stack')" "prefix b (we_path e)"
        using stack_below_step[of t b l e stack'] 1(5,6) Cons snoc by auto
      have un: "(\<Union>level\<in>set stack. \<Union>e\<in>set level. under t b e) = under t b e \<union> (\<Union>level\<in>set (l # stack'). \<Union>e\<in>set level. under t b e)"
        using Cons snoc by auto
      show ?thesis
      proof (cases "we_is_dir e")
        case True
        then have "set (flat t b (read_level t b (we_path e) # l # stack')) =
            below t b (we_path e) \<union> (\<Union>level\<in>set (l # stack'). \<Union>e\<in>set level. under t b e)"
          using 1(2)[OF Cons _ refl refl] 1(5) sb snoc below_children[OF 1(5) sb(3)] by simp
        moreover have "under t b e = below t b (we_path e)" using True by (simp add: under_def)
        ultimately show ?thesis using True unfolding un Cons snoc by (simp add: flat_snoc Un_assoc)
      next
        case False
        have "set (flat t b (l # stack')) = (\<Union>level\<in>set (l # stack'). \<Union>e\<in>set level. under t b e)"
          using 1(3)[OF Cons _ refl refl] 1(4)[OF Cons _ refl refl] 1(5) sb(1) snoc False by (cases "node_at t (we_path e) = None") simp_all
        then show ?thesis using False unfolding un Cons snoc by (simp add: flat_snoc under_def)
      qed
    qed
  qed simp
qed

section \<open>Order\<close>

lemma lex_extend: "(x :: string) < y \<Longrightarrow> \<not> prefix x y \<Longrightarrow> x @ u < y @ v"
proof (induction x arbitrary: y)
  case (Cons a x)
  then obtain b y' where "y = b # y'" by (cases y) auto
  then show ?case using Cons by (auto simp: Cons_less_Cons)
qed auto

lemma lex_prefix: "x \<noteq> [] \<Longrightarrow> (a :: string) < a @ x"
  by (induction a) (cases x, auto simp: Cons_less_Cons)

lemma lex_same: "(a :: string) @ x < a @ y \<longleftrightarrow> x < y"
  by (induction a) (auto simp: Cons_less_Cons)

text \<open>Every key found below a directory entry extends the entry's key by a slash.\<close>

lemma below_key:
  assumes "x \<in> below t b (we_path e)" "key_from_path b (we_path e) = Some (we_key e)"
  shows "\<exists>r. we_key x = we_key e @ ''/'' @ r"
proof -
  obtain r where r: "we_path e = b @ r" using assms(2) by (auto simp: key_from_path_def prefix_def split: if_splits)
  obtain p where p: "we_path x = we_path e @ p" "p \<noteq> []" "key_from_path b (we_path x) = Some (we_key x)"
    using assms(1) by (auto simp: below_def file_entry_def)
  have "r \<noteq> []" "we_key e = join ''/'' r" "we_key x = join ''/'' (r @ p)"
    using assms(2) p(1,3) key_from_path_Some_iff[of b r] key_from_path_Some_iff[of b "r @ p"] by (auto simp: r)
  then show ?thesis using join_append[of r p "''/''"] p(2) by simp
qed

text \<open>The key of a child is what its directory contributes and its name.\<close>

definition key_base :: "fs_path \<Rightarrow> string" where
  "key_base r = (if r = [] then [] else join ''/'' r @ ''/'')"

lemma child_key: "key_from_path b (b @ r @ [name]) = Some key \<Longrightarrow> key = key_base r @ name"
  using key_from_path_Some_iff[of b "r @ [name]"] join_append[of r "[name]" "''/''"] by (auto simp: key_base_def)

lemma level_key:
  assumes x: "level_entry b (b @ r) (name, n) = Some (k, e)" and in_x: "x \<in> under t b e"
  shows "\<exists>u. we_key x = key_base r @ k @ u \<and> (is_dir_node n \<or> u = [])"
proof -
  have e: "we_path e = b @ r @ [name]" "key_from_path b (we_path e) = Some (we_key e)" "we_is_dir e = is_dir_node n"
    "k = (if is_dir_node n then name @ ''/'' else name)"
    using x unfolding level_entry_Some_iff by auto
  have ke: "we_key e = key_base r @ name" using child_key[of b r name] e(1,2) by simp
  show ?thesis
  proof (cases "is_dir_node n")
    case True
    then show ?thesis using below_key[of x t b e] in_x e ke by (auto simp: under_def)
  next
    case False
    then show ?thesis using in_x e ke by (auto simp: under_def split: if_splits)
  qed
qed

text \<open>Names compared with a slash after those of directories order everything below them.\<close>

lemma sort_keys_order:
  assumes "k1 < k2" "k1 = (if d1 then n1 @ ''/'' else n1)" "k2 = (if d2 then n2 @ ''/'' else n2)"
    and "CHR ''/'' \<notin> set n1" "CHR ''/'' \<notin> set n2" "d1 \<or> u = []"
  shows "k1 @ u < k2 @ v"
proof (cases "prefix k1 k2")
  case False
  then show ?thesis using lex_extend assms(1) by blast
next
  case True
  then obtain z where z1: "k2 = k1 @ z" by (auto simp: prefix_def)
  then have z: "k2 = k1 @ z" "z \<noteq> []" using assms(1) by auto
  have "\<not> d1"
  proof
    assume d: "d1"
    show False
    proof (cases d2)
      case True
      then have "n1 @ ''/'' @ z = n2 @ ''/''" using d z(1) assms(2,3) by simp
      then have "n1 @ ''/'' @ butlast z = n2" using z(2) by (metis append_assoc butlast_append butlast_snoc append_is_Nil_conv)
      then show False using assms(5) by auto
    next
      case False
      then show False using d z(1) assms(2,3,5) by auto
    qed
  qed
  then show ?thesis using assms(6) z lex_prefix[of "z @ v" k1] by simp
qed

definition before :: "fs_node \<Rightarrow> fs_path \<Rightarrow> walk_entry \<Rightarrow> walk_entry \<Rightarrow> bool" where
  "before t b x y \<longleftrightarrow> (\<forall>e\<in>under t b x. \<forall>e'\<in>under t b y. we_key e < we_key e')"

lemma level_entry_name:
  "level_entry b dir x = Some p \<Longrightarrow> CHR ''/'' \<notin> set (fst x) \<Longrightarrow> takeWhile (\<lambda>c. c \<noteq> CHR ''/'') (fst p) = fst x"
  by (cases x; cases p) (auto simp: level_entry_Some_iff takeWhile_eq_all_conv takeWhile_append)

lemma level_keys_distinct:
  assumes "distinct (map fst es)" "\<forall>x\<in>set es. CHR ''/'' \<notin> set (fst x)"
  shows "distinct (map fst (List.map_filter (level_entry b dir) es))"
proof -
  have "distinct (map (takeWhile (\<lambda>c. c \<noteq> CHR ''/'')) (map fst (List.map_filter (level_entry b dir) es)))"
    using assms
  proof (induction es)
    case (Cons x es)
    have "takeWhile (\<lambda>c. c \<noteq> CHR ''/'') (fst q) \<in> fst ` set es" if q: "q \<in> set (List.map_filter (level_entry b dir) es)" for q
    proof -
      obtain y where y: "y \<in> set es" "level_entry b dir y = Some q" using q by (auto simp: map_filter_mem)
      then show ?thesis using level_entry_name[OF y(2)] Cons.prems(2) by simp
    qed
    then have new: "fst x \<notin> (\<lambda>q. takeWhile (\<lambda>c. c \<noteq> CHR ''/'') (fst q)) ` set (List.map_filter (level_entry b dir) es)"
      using Cons.prems(1) by auto
    have IH: "distinct (map (takeWhile (\<lambda>c. c \<noteq> CHR ''/'')) (map fst (List.map_filter (level_entry b dir) es)))"
      using Cons by simp
    show ?case
    proof (cases "level_entry b dir x")
      case (Some p)
      then show ?thesis using IH new level_entry_name[OF Some] Cons.prems(2) by (simp add: List.map_filter_simps image_image)
    qed (use IH in \<open>simp add: List.map_filter_simps\<close>)
  qed (simp add: List.map_filter_simps)
  then show ?thesis by (rule distinct_map[THEN iffD1, THEN conjunct1])
qed

lemma read_level_ordered:
  assumes ok: "tree_ok t" and pre: "prefix b dir"
  shows "sorted_wrt (before t b) (rev (read_level t b dir))"
proof (cases "\<exists>es. node_at t dir = Some (Dir es)")
  case False
  then show ?thesis by (simp add: read_level_other)
next
  case True
  then obtain es where es: "node_at t dir = Some (Dir es)" by blast
  obtain r where r: "dir = b @ r" using pre by (auto simp: prefix_def)
  have names: "CHR ''/'' \<notin> set (fst x)" if "x \<in> set es" for x using tree_ok_node[OF ok es] that by auto
  let ?L = "List.map_filter (level_entry b dir) es"
  have mem: "\<exists>name n. (name, n) \<in> set es \<and> level_entry b dir (name, n) = Some p" if "p \<in> set ?L" for p
    using that by (force simp: map_filter_mem)
  have "distinct (map fst ?L)" using tree_ok_node[OF ok es] names by (intro level_keys_distinct) auto
  then have "key_sorted fst (sort_key fst (rev ?L))" by (intro sort_key_key_sorted) (simp add: rev_map[symmetric])
  then have "sorted_wrt (\<lambda>p q. before t b (snd p) (snd q)) (sort_key fst (rev ?L))"
  proof (rule sorted_wrt_mono_rel[rotated])
    fix p q
    assume "p \<in> set (sort_key fst (rev ?L))" "q \<in> set (sort_key fst (rev ?L))" and lt: "fst p < fst q"
    then obtain n1 m1 n2 m2 where p: "(n1, m1) \<in> set es" "level_entry b dir (n1, m1) = Some p"
      and q: "(n2, m2) \<in> set es" "level_entry b dir (n2, m2) = Some q"
      using mem[of p] mem[of q] by auto
    show "before t b (snd p) (snd q)"
      unfolding before_def
    proof (intro ballI)
      fix e e'
      assume e: "e \<in> under t b (snd p)" "e' \<in> under t b (snd q)"
      obtain u v where uv: "we_key e = key_base r @ fst p @ u" "is_dir_node m1 \<or> u = []" "we_key e' = key_base r @ fst q @ v"
        using level_key[of b r n1 m1 "fst p" "snd p" e t] level_key[of b r n2 m2 "fst q" "snd q" e' t] p(2) q(2) e by (auto simp: r)
      have "fst p @ u < fst q @ v"
        using sort_keys_order[OF lt, of "is_dir_node m1" n1 "is_dir_node m2" n2 u v] p q names[OF p(1)] names[OF q(1)] uv(2)
          level_entry_Some_iff[of b dir n1 m1 "fst p" "snd p"] level_entry_Some_iff[of b dir n2 m2 "fst q" "snd q"] by simp
      then show "we_key e < we_key e'" by (simp add: uv lex_same)
    qed
  qed
  then show ?thesis by (simp add: read_level_Dir[OF es] rev_map sorted_wrt_map)
qed

lemma under_child:
  "tree_ok t \<Longrightarrow> prefix b (we_path e) \<Longrightarrow> we_is_dir e \<Longrightarrow> x \<in> set (read_level t b (we_path e)) \<Longrightarrow> under t b x \<subseteq> under t b e"
  using below_children[of t b "we_path e"] by (auto simp: under_def[of t b e])

lemma before_child:
  "tree_ok t \<Longrightarrow> prefix b (we_path e) \<Longrightarrow> we_is_dir e \<Longrightarrow> x \<in> set (read_level t b (we_path e)) \<Longrightarrow> before t b e y \<Longrightarrow> before t b x y"
  using under_child[of t b e x] by (auto simp: before_def)

lemma flat_sorted:
  "tree_ok t \<Longrightarrow> stack_below b stack \<Longrightarrow> sorted_wrt (before t b) (concat (map rev stack)) \<Longrightarrow> key_sorted we_key (flat t b stack)"
proof (induction t b stack rule: flat.induct)
  case (1 t b stack)
  show ?case
  proof (cases stack)
    case (Cons level stack')
    show ?thesis
    proof (cases level rule: rev_cases)
      case Nil
      then show ?thesis using 1(1)[OF Cons] 1(5-) Cons by (simp add: stack_below_def)
    next
      case (snoc l e)
      let ?rest = "concat (map rev (l # stack'))"
      have sb: "stack_below b (l # stack')" "stack_below b (read_level t b (we_path e) # l # stack')" "prefix b (we_path e)"
        using stack_below_step[of t b l e stack'] 1(5,6) Cons snoc by auto
      have so: "\<forall>y\<in>set ?rest. before t b e y" "sorted_wrt (before t b) ?rest"
        using 1(7) unfolding Cons snoc by auto
      show ?thesis
      proof (cases "we_is_dir e")
        case True
        have "sorted_wrt (before t b) (concat (map rev (read_level t b (we_path e) # l # stack')))"
          using so read_level_ordered[OF 1(5) sb(3)] before_child[OF 1(5) sb(3) True] by (auto simp: sorted_wrt_append)
        then show ?thesis using 1(2)[OF Cons _ refl refl] 1(5) sb(2) snoc True unfolding Cons by (simp add: flat_snoc)
      next
        case False
        have tail: "key_sorted we_key (flat t b (l # stack'))"
          using 1(3)[OF Cons _ refl refl] 1(4)[OF Cons _ refl refl] 1(5) sb(1) so(2) snoc False by (cases "node_at t (we_path e) = None") simp_all
        have "we_key e < we_key x" if x: "x \<in> set (flat t b (l # stack'))" and n: "node_at t (we_path e) \<noteq> None" for x
        proof -
          obtain y where "y \<in> set ?rest" "x \<in> under t b y" using x unfolding set_flat[OF 1(5) sb(1)] by auto
          then show ?thesis using so(1) False n by (auto simp: before_def under_def)
        qed
        then show ?thesis using tail False unfolding Cons snoc by (auto simp: flat_snoc)
      qed
    qed
  qed simp
qed

section \<open>The next match\<close>

lemma pruned_subtree:
  assumes "\<not> subtree_may_match k after pre"
  shows "\<not> key_matches after pre (k @ ''/'' @ r)"
proof -
  let ?stem = "k @ ''/''"
  consider p where "pre = Some p" "\<not> prefix p ?stem" "\<not> prefix ?stem p"
    | a where "after = Some a" "?stem \<le> a" "\<not> prefix ?stem a"
    using assms by (auto simp: subtree_may_match_def Let_def split: option.splits if_splits)
  then show ?thesis
  proof cases
    case (1 p)
    then have "\<not> prefix p (?stem @ r)" using prefix_same_cases[of p "?stem @ r" ?stem] by auto
    then show ?thesis using 1(1) by (simp add: key_matches_def)
  next
    case (2 a)
    then have "?stem < a" by (metis order_le_less prefix_order.order_refl)
    then have "?stem @ r < a @ []" using lex_extend 2(3) by blast
    then show ?thesis using 2(1) by (simp add: key_matches_def less_imp_le)
  qed
qed

definition found_of :: "fs_node \<Rightarrow> walk_entry \<Rightarrow> found" where
  "found_of t e =
     \<lparr>fo_key = we_key e,
      fo_size = (case node_at t (we_path e) of Some (Reg f) \<Rightarrow> of_nat (length (fi_bytes f)) | _ \<Rightarrow> 0),
      fo_last_modified = (case node_at t (we_path e) of Some (Reg f) \<Rightarrow> Some (unix_seconds_i64 (fi_modified f)) | _ \<Rightarrow> None)\<rparr>"

definition stack_ok :: "fs_path \<Rightarrow> ordered_walk \<Rightarrow> bool" where
  "stack_ok b stack \<longleftrightarrow> (\<forall>level\<in>set stack. \<forall>e\<in>set level. key_from_path b (we_path e) = Some (we_key e))"

lemma read_level_key: "tree_ok t \<Longrightarrow> e \<in> set (read_level t b dir) \<Longrightarrow> key_from_path b (we_path e) = Some (we_key e)"
  by (auto simp: read_level_mem)

lemma stack_ok_below: "stack_ok b stack \<Longrightarrow> stack_below b stack"
  by (fastforce simp: stack_ok_def stack_below_def key_from_path_def split: if_splits)

lemma stack_ok_step:
  "tree_ok t \<Longrightarrow> stack_ok b ((level @ [e]) # stack) \<Longrightarrow>
     stack_ok b (level # stack) \<and> stack_ok b (read_level t b (we_path e) # level # stack) \<and> key_from_path b (we_path e) = Some (we_key e)"
  by (auto simp: stack_ok_def read_level_key)

lemma walk_weight_snoc:
  "walk_weight t (level # stack) < walk_weight t ((level @ [e]) # stack)"
  "we_is_dir e \<Longrightarrow> walk_weight t (read_level t b (we_path e) # level # stack) < walk_weight t ((level @ [e]) # stack)"
proof -
  have w: "level_weight t (level @ [e]) = level_weight t level + Suc (Suc (path_weight t (we_path e)))"
    by (simp add: level_weight_def)
  then show "walk_weight t (level # stack) < walk_weight t ((level @ [e]) # stack)" by (simp add: walk_weight_def)
  show "walk_weight t (read_level t b (we_path e) # level # stack) < walk_weight t ((level @ [e]) # stack)"
  proof (cases "\<exists>es. node_at t (we_path e) = Some (Dir es)")
    case True
    then obtain es where es: "node_at t (we_path e) = Some (Dir es)" by blast
    show ?thesis using read_level_weight[OF es, of b] w es by (simp add: walk_weight_def path_weight_def)
  next
    case False
    then show ?thesis using w by (simp add: read_level_other walk_weight_def level_weight_def)
  qed
qed

text \<open>The files among what is left that match, and the walk that pruning does not disturb.\<close>

abbreviation matches_of :: "fs_node \<Rightarrow> fs_path \<Rightarrow> string option \<Rightarrow> string option \<Rightarrow> ordered_walk \<Rightarrow> walk_entry list" where
  "matches_of t b after pre stack \<equiv> filter (\<lambda>e. key_matches after pre (we_key e)) (flat t b stack)"

lemma next_match_snoc:
  "next_match t b after pre ((level @ [e]) # stack) =
     (if we_is_dir e then
        if subtree_may_match (we_key e) after pre then next_match t b after pre (read_level t b (we_path e) # level # stack)
        else next_match t b after pre (level # stack)
      else if \<not> key_matches after pre (we_key e) \<or> node_at t (we_path e) = None then next_match t b after pre (level # stack)
      else (Some (found_of t e), level # stack))"
  by (subst next_match.simps) (simp add: Let_def found_of_def split: option.splits)

lemma next_match_empty [simp]:
  "next_match t b after pre [] = (None, [])"
  "next_match t b after pre ([] # stack) = next_match t b after pre stack"
  by (subst next_match.simps, simp)+

lemma next_match_weight: "next_match t b after pre stack = (Some f, stack') \<Longrightarrow> walk_weight t stack' < walk_weight t stack"
proof (induction t b after pre stack rule: next_match.induct)
  case (1 t b after pre stack)
  show ?case
  proof (cases stack)
    case Nil
    then show ?thesis using 1(6) by simp
  next
    case (Cons level rest)
    show ?thesis
    proof (cases level rule: rev_cases)
      case Nil
      then show ?thesis using 1(1)[OF Cons] 1(6) Cons by (simp add: walk_weight_def level_weight_def)
    next
      case (snoc l e)
      note less = walk_weight_snoc(1)[of t l rest e] walk_weight_snoc(2)[of e t b l rest]
      have nx: "next_match t b after pre ((l @ [e]) # rest) = (Some f, stack')" using 1(6) Cons snoc by simp
      show ?thesis
      proof (cases "we_is_dir e")
        case True
        then show ?thesis
          using nx 1(2)[OF Cons _ refl refl] 1(3)[OF Cons _ refl refl] less less_trans[OF _ less(1)] less_trans[OF _ less(2)] snoc
          unfolding Cons snoc next_match_snoc by (simp split: if_splits)
      next
        case False
        then show ?thesis
          using nx 1(4)[OF Cons _ refl refl] 1(5)[OF Cons _ refl refl] less(1) less_trans[OF _ less(1)] snoc
          unfolding Cons snoc next_match_snoc by (cases "key_matches after pre (we_key e)") (auto split: if_splits)
      qed
    qed
  qed
qed

lemma pruned_matches:
  assumes "tree_ok t" "stack_ok b ((l @ [e]) # stack)" "we_is_dir e" "\<not> subtree_may_match (we_key e) after pre"
  shows "matches_of t b after pre (read_level t b (we_path e) # l # stack) = matches_of t b after pre (l # stack)"
proof -
  have ok: "stack_ok b (l # stack)" "stack_ok b (read_level t b (we_path e) # l # stack)" "key_from_path b (we_path e) = Some (we_key e)"
    using stack_ok_step[OF assms(1,2)] by auto
  have sb: "stack_below b [read_level t b (we_path e)]" using stack_ok_below[OF ok(2)] by (simp add: stack_below_def)
  have pre: "prefix b (we_path e)" using ok(3) by (simp add: key_from_path_def split: if_splits)
  have in_below: "set (flat t b [read_level t b (we_path e)]) = below t b (we_path e)"
    by (simp add: set_flat[OF assms(1) sb] below_children[OF assms(1) pre])
  have "\<not> key_matches after pre (we_key x)" if x: "x \<in> set (flat t b [read_level t b (we_path e)])" for x
  proof -
    have "x \<in> below t b (we_path e)" using x in_below by simp
    then obtain r where "we_key x = we_key e @ ''/'' @ r" using below_key[OF _ ok(3)] by blast
    then show ?thesis using pruned_subtree[OF assms(4)] by simp
  qed
  then have "matches_of t b after pre [read_level t b (we_path e)] = []" by (simp add: filter_empty_conv)
  then show ?thesis by (simp add: flat_level[of t b "read_level t b (we_path e)" "l # stack"])
qed

lemma next_match_matches:
  "tree_ok t \<Longrightarrow> stack_ok b stack \<Longrightarrow> next_match t b after pre stack = (r, stack') \<Longrightarrow>
     (case matches_of t b after pre stack of
        [] \<Rightarrow> r = None
      | e # es \<Rightarrow> r = Some (found_of t e) \<and> matches_of t b after pre stack' = es \<and> stack_ok b stack')"
proof (induction t b after pre stack rule: next_match.induct)
  case (1 t b after pre stack)
  show ?case
  proof (cases stack)
    case Nil
    then show ?thesis using 1(8) by simp
  next
    case (Cons level rest)
    show ?thesis
    proof (cases level rule: rev_cases)
      case Nil
      then show ?thesis using 1(1)[OF Cons] 1(6-) Cons by (simp add: stack_ok_def)
    next
      case (snoc l e)
      have ok: "stack_ok b (l # rest)" "stack_ok b (read_level t b (we_path e) # l # rest)"
        using stack_ok_step[OF 1(6)] 1(7) Cons snoc by auto
      let ?m = "\<lambda>st r st'. (case matches_of t b after pre st of [] \<Rightarrow> r = None
        | x # xs \<Rightarrow> r = Some (found_of t x) \<and> matches_of t b after pre st' = xs \<and> stack_ok b st')"
      have down: "?m (read_level t b (we_path e) # l # rest) r stack'"
        if "we_is_dir e" "subtree_may_match (we_key e) after pre" "next_match t b after pre (read_level t b (we_path e) # l # rest) = (r, stack')"
        using 1(2)[OF Cons _ refl refl] 1(6) ok(2) that snoc by simp
      have skip: "?m (l # rest) r stack'" if "next_match t b after pre (l # rest) = (r, stack')"
        "we_is_dir e \<and> \<not> subtree_may_match (we_key e) after pre \<or> \<not> we_is_dir e \<and> (\<not> key_matches after pre (we_key e) \<or> node_at t (we_path e) = None)"
        using 1(3)[OF Cons _ refl refl] 1(4)[OF Cons _ refl refl] 1(5)[OF Cons _ refl refl] 1(6) ok(1) that snoc by auto
      have nx: "next_match t b after pre ((l @ [e]) # rest) = (r, stack')" using 1(8) Cons snoc by simp
      show ?thesis
      proof (cases "we_is_dir e")
        case True
        then show ?thesis using nx down skip pruned_matches[OF 1(6), of b l e rest after pre] 1(7)
          unfolding Cons snoc next_match_snoc flat_snoc by (cases "subtree_may_match (we_key e) after pre") simp_all
      next
        case False
        then show ?thesis using nx skip ok(1)
          unfolding Cons snoc next_match_snoc flat_snoc
          by (cases "\<not> key_matches after pre (we_key e) \<or> node_at t (we_path e) = None") auto
      qed
    qed
  qed
qed

section \<open>Pages\<close>

record cursor =
  cu_v :: nat
  cu_after :: string
  cu_prefix :: "string option"

definition encode_cursor :: "(cursor \<Rightarrow> string) \<Rightarrow> string \<Rightarrow> string option \<Rightarrow> string" where
  "encode_cursor enc after pre = enc \<lparr>cu_v = 1, cu_after = after, cu_prefix = pre\<rparr>"

definition decode_cursor :: "(string \<Rightarrow> cursor option) \<Rightarrow> string \<Rightarrow> string option \<Rightarrow> (storage_error, string) result" where
  "decode_cursor dec token pre =
     (case dec token of
        None \<Rightarrow> Inl (SE_BackendUnavailable ''invalid or expired cursor'')
      | Some c \<Rightarrow>
          if cu_v c \<noteq> 1 \<or> cu_prefix c \<noteq> pre then Inl (SE_BackendUnavailable ''invalid or expired cursor'')
          else Inr (cu_after c))"

definition fs_require_bucket :: "fs_node \<Rightarrow> string \<Rightarrow> (storage_error, fs_path) result" where
  "fs_require_bucket t bucket =
     (case walk_to t (fs_bucket_dir bucket) of
        Inr n \<Rightarrow> if is_dir_node n then Inr (fs_bucket_dir bucket) else Inl (SE_BucketNotFound bucket)
      | Inl e \<Rightarrow> Inl (err_bucket bucket e))"

definition MAX_LIST_LIMIT :: nat where
  "MAX_LIST_LIMIT = 1000"

definition listed_meta :: "found \<Rightarrow> object_meta" where
  "listed_meta f = \<lparr>om_key = fo_key f, om_size = fo_size f, om_last_modified = fo_last_modified f,
     om_content_type = None, om_etag = None\<rparr>"

text \<open>The loop of \<^verbatim>\<open>list_objects\<close>.  The page never exceeds 1000 objects, so its length is a \<^verbatim>\<open>u32\<close>.\<close>

function list_loop :: "fs_node \<Rightarrow> fs_path \<Rightarrow> string option \<Rightarrow> string option \<Rightarrow> nat \<Rightarrow> object_meta list \<Rightarrow> ordered_walk
    \<Rightarrow> object_meta list \<times> bool" where
  "list_loop t b after pre capped objects walk =
     (case next_match t b after pre walk of
        (None, _) \<Rightarrow> (objects, False)
      | (Some f, walk') \<Rightarrow>
          if capped \<le> length objects then (objects, True)
          else list_loop t b after pre capped (objects @ [listed_meta f]) walk')"
  by pat_completeness auto
termination
  by (relation "measure (\<lambda>(_, _, _, _, capped, objects, _). capped - length objects)") auto

declare list_loop.simps [simp del]

definition fs_list_objects :: "(cursor \<Rightarrow> string) \<Rightarrow> (string \<Rightarrow> cursor option) \<Rightarrow> fs_node \<Rightarrow> string \<Rightarrow> string option \<Rightarrow> nat \<Rightarrow> string option
    \<Rightarrow> (storage_error, list_response) result" where
  "fs_list_objects enc dec t bucket pre limit cursor =
     res_bind (case cursor of None \<Rightarrow> Inr None | Some token \<Rightarrow> res_map Some (decode_cursor dec token pre)) (\<lambda>after.
     res_bind (fs_require_bucket t bucket) (\<lambda>dir.
       let (objects, truncated) = list_loop t dir after pre (min limit MAX_LIST_LIMIT) [] (walk_new t dir);
           next = if truncated \<and> objects \<noteq> [] then Some (encode_cursor enc (om_key (last objects)) pre) else None in
       Inr \<lparr>lr_objects = objects, lr_truncated = (next \<noteq> None), lr_next_cursor = next\<rparr>))"

lemma list_loop_exact:
  "tree_ok t \<Longrightarrow> stack_ok b walk \<Longrightarrow> length objects \<le> capped \<Longrightarrow>
     list_loop t b after pre capped objects walk =
       (objects @ map (listed_meta \<circ> found_of t) (take (capped - length objects) (matches_of t b after pre walk)),
        capped - length objects < length (matches_of t b after pre walk))"
proof (induction t b after pre capped objects walk rule: list_loop.induct)
  case (1 t b after pre capped objects walk)
  obtain r walk' where nx: "next_match t b after pre walk = (r, walk')" by fastforce
  note m = next_match_matches[OF 1(2,3) nx]
  show ?case
  proof (cases "matches_of t b after pre walk")
    case Nil
    then show ?thesis using m nx by (simp add: list_loop.simps[of t b after pre capped objects walk])
  next
    case (Cons e es)
    then have r: "r = Some (found_of t e)" "matches_of t b after pre walk' = es" "stack_ok b walk'" using m by auto
    show ?thesis
    proof (cases "capped \<le> length objects")
      case True
      then show ?thesis using Cons nx r(1) by (simp add: list_loop.simps[of t b after pre capped objects walk])
    next
      case False
      then have "capped - length objects = Suc (capped - Suc (length objects))" by simp
      then show ?thesis
        using 1(1)[OF nx[symmetric] r(1) False 1(2) r(3)] False nx r(1) Cons unfolding r(2)
        by (simp add: list_loop.simps[of t b after pre capped objects walk])
    qed
  qed
qed

text \<open>Everything a listing has to give.\<close>

definition fs_matching :: "fs_node \<Rightarrow> string \<Rightarrow> string option \<Rightarrow> object_meta list" where
  "fs_matching t bucket pre =
     map (listed_meta \<circ> found_of t) (matches_of t (fs_bucket_dir bucket) None pre (walk_new t (fs_bucket_dir bucket)))"

definition fs_pos :: "(string \<Rightarrow> cursor option) \<Rightarrow> fs_node \<Rightarrow> string \<Rightarrow> string option \<Rightarrow> string option \<Rightarrow> nat option" where
  "fs_pos dec t bucket pre cursor =
     (case cursor of
        None \<Rightarrow> Some 0
      | Some token \<Rightarrow>
          (case decode_cursor dec token pre of
             Inl _ \<Rightarrow> None
           | Inr after \<Rightarrow> Some (length (filter (\<lambda>m. om_key m \<le> after) (fs_matching t bucket pre)))))"

lemma om_key_listed [simp]: "om_key (listed_meta (found_of t e)) = we_key e"
  by (simp add: listed_meta_def found_of_def)

lemma walk_new_ok: "tree_ok t \<Longrightarrow> stack_ok b (walk_new t b)"
  by (simp add: walk_new_def stack_ok_def read_level_key)

lemma walk_new_sorted: "tree_ok t \<Longrightarrow> key_sorted we_key (flat t b (walk_new t b))"
  using read_level_ordered[of t b b] stack_ok_below[OF walk_new_ok]
  by (intro flat_sorted) (auto simp: walk_new_def)

lemma fs_matching_sorted: "tree_ok t \<Longrightarrow> key_sorted om_key (fs_matching t bucket pre)"
  using walk_new_sorted[of t "fs_bucket_dir bucket"]
  by (simp add: fs_matching_def sorted_wrt_map sorted_wrt_filter)

lemma key_matches_after: "key_matches (Some a) pre k \<longleftrightarrow> a < k \<and> key_matches None pre k"
  by (auto simp: key_matches_def)

lemma matches_after:
  assumes "tree_ok t"
  shows "map (listed_meta \<circ> found_of t) (matches_of t (fs_bucket_dir bucket) (Some a) pre (walk_new t (fs_bucket_dir bucket)))
    = drop (length (filter (\<lambda>m. om_key m \<le> a) (fs_matching t bucket pre))) (fs_matching t bucket pre)"
proof -
  have "map (listed_meta \<circ> found_of t) (matches_of t (fs_bucket_dir bucket) (Some a) pre (walk_new t (fs_bucket_dir bucket)))
      = filter (\<lambda>m. a < om_key m) (fs_matching t bucket pre)"
    by (simp add: fs_matching_def filter_map o_def key_matches_after conj_commute)
  then show ?thesis using key_sorted_filter_gt[OF fs_matching_sorted[OF assms]] by simp
qed

lemma fs_require_bucket_Inr_iff:
  "fs_require_bucket t bucket = Inr d \<longleftrightarrow> is_dir_at t (fs_bucket_dir bucket) \<and> d = fs_bucket_dir bucket"
  by (auto simp: fs_require_bucket_def walk_to_dir is_dir_node_iff split: sum.splits)

lemma fs_list_page:
  assumes ok: "tree_ok t" "is_dir_at t (fs_bucket_dir bucket)" and codec: "\<And>c. dec (enc c) = Some c"
    and pos: "fs_pos dec t bucket pre cursor = Some n" and "0 < limit"
  shows "\<exists>lr. fs_list_objects enc dec t bucket pre limit cursor = Inr lr
    \<and> lr_objects lr = take (min limit 1000) (drop n (fs_matching t bucket pre))
    \<and> (if n + min limit 1000 < length (fs_matching t bucket pre)
       then lr_truncated lr \<and> (\<exists>c. lr_next_cursor lr = Some c \<and> fs_pos dec t bucket pre (Some c) = Some (n + min limit 1000))
       else \<not> lr_truncated lr \<and> lr_next_cursor lr = None)"
proof -
  define L where "L = fs_matching t bucket pre"
  define lim where "lim = min limit 1000"
  let ?dir = "fs_bucket_dir bucket"
  have lim: "0 < lim" using assms(5) by (simp add: lim_def)
  obtain after where after: "(case cursor of None \<Rightarrow> Inr None | Some token \<Rightarrow> res_map Some (decode_cursor dec token pre)) = Inr after"
    and rest: "map (listed_meta \<circ> found_of t) (matches_of t ?dir after pre (walk_new t ?dir)) = drop n L"
  proof (cases cursor)
    case None
    then show ?thesis using pos that[of None] by (simp add: fs_pos_def L_def fs_matching_def)
  next
    case (Some token)
    then obtain a where a: "decode_cursor dec token pre = Inr a" "n = length (filter (\<lambda>m. om_key m \<le> a) L)"
      using pos by (auto simp: fs_pos_def L_def split: sum.splits)
    then show ?thesis using Some that[of "Some a"] matches_after[OF ok(1)] by (simp add: L_def)
  qed
  define page where "page = take lim (drop n L)"
  define nc where "nc = (if lim < length (drop n L) \<and> page \<noteq> [] then Some (encode_cursor enc (om_key (last page)) pre) else None)"
  have loop: "list_loop t ?dir after pre lim [] (walk_new t ?dir) = (page, lim < length (drop n L))"
    using list_loop_exact[OF ok(1) walk_new_ok[OF ok(1)], of "[]" lim ?dir after pre] rest
    by (simp add: page_def take_map rest[symmetric])
  have list: "fs_list_objects enc dec t bucket pre limit cursor = Inr \<lparr>lr_objects = page, lr_truncated = (nc \<noteq> None), lr_next_cursor = nc\<rparr>"
    using loop ok(2) by (simp add: fs_list_objects_def after fs_require_bucket_Inr_iff[THEN iffD2] MAX_LIST_LIMIT_def lim_def[symmetric] nc_def)
  have "\<exists>c. nc = Some c \<and> fs_pos dec t bucket pre (Some c) = Some (n + lim)" if more: "n + lim < length L"
  proof -
    have "lim < length (drop n L)" using more by simp
    moreover from this have "page \<noteq> []" using lim by (auto simp: page_def)
    moreover have "length (filter (\<lambda>m. om_key m \<le> om_key (last page)) L) = n + lim"
      using key_sorted_page_end[OF fs_matching_sorted[OF ok(1)] lim] more by (simp add: page_def L_def)
    ultimately show ?thesis
      by (simp add: nc_def fs_pos_def decode_cursor_def encode_cursor_def codec L_def)
  qed
  moreover have "nc = None" if "\<not> n + lim < length L" using that by (simp add: nc_def)
  ultimately show ?thesis
    unfolding list L_def[symmetric] lim_def[symmetric] by (auto simp: page_def)
qed

text \<open>What is listed: the files whose names are all visible.\<close>

lemma set_walk_new: "tree_ok t \<Longrightarrow> set (flat t b (walk_new t b)) = below t b b"
  using set_flat[OF _ stack_ok_below[OF walk_new_ok]] below_children[of t b b] by (simp add: walk_new_def)

lemma plain_visible: "valid_utf8 seg \<Longrightarrow> plain_segment seg \<Longrightarrow> visible_name seg"
  by (simp add: visible_name_def plain_segment_def)

lemma listed_iff:
  assumes ok: "tree_ok t" and path: "fs_object_path bucket key = Inr p" "valid_utf8 key"
  shows "key \<in> om_key ` set (fs_matching t bucket pre) \<longleftrightarrow> (\<exists>f. node_at t p = Some (Reg f)) \<and> key_matches None pre key"
proof -
  let ?b = "fs_bucket_dir bucket" and ?segs = "split_on CHR ''/'' key"
  have p: "p = ?b @ ?segs" "list_all plain_segment ?segs" using path(1) by (auto simp: fs_object_path_Inr_iff fs_bucket_dir_def)
  have key: "key_from_path ?b p = Some key" by (rule key_from_object_path[OF path])
  have vis: "list_all visible_name ?segs"
    using p(2) valid_split_on[of "CHR ''/''" key] path(2) plain_visible by (auto simp: list_all_iff in_range_def)
  have "key \<in> om_key ` set (fs_matching t bucket pre) \<longleftrightarrow> (\<exists>e\<in>below t ?b ?b. we_key e = key) \<and> key_matches None pre key"
    unfolding fs_matching_def by (auto simp: set_walk_new[OF ok] image_iff)
  also have "(\<exists>e\<in>below t ?b ?b. we_key e = key) \<longleftrightarrow> (\<exists>f. node_at t p = Some (Reg f))"
  proof
    assume "\<exists>e\<in>below t ?b ?b. we_key e = key"
    then obtain e :: walk_entry and q f where e: "we_path e = ?b @ q" "q \<noteq> []" "node_at t (we_path e) = Some (Reg f)" "key_from_path ?b (we_path e) = Some key"
      by (auto simp: below_def file_entry_def)
    have "list_all (\<lambda>s. CHR ''/'' \<notin> set s) q" using node_names[OF ok] e(1,3) by (metis list_all_append)
    then have "q = ?segs" using e(2,4) key_from_path_Some_iff[of ?b q] split_on_join[of q "CHR ''/''"] unfolding e(1) by (auto simp: list_all_iff)
    then show "\<exists>f. node_at t p = Some (Reg f)" using e p(1) by simp
  next
    assume "\<exists>f. node_at t p = Some (Reg f)"
    then have "\<lparr>we_path = p, we_key = key, we_is_dir = False\<rparr> \<in> below t ?b ?b"
      using key vis p(1) by (auto simp: below_def file_entry_def)
    then show "\<exists>e\<in>below t ?b ?b. we_key e = key" by force
  qed
  finally show ?thesis .
qed

section \<open>Properties\<close>

text \<open>
  C17: A listing of the tree is complete, ordered and resumable.  The objects there are to list are in strict
  key order, and an accepted key is among them exactly when a regular file is at its path and the prefix
  matches.  Every page, from the start or from a cursor an earlier page gave, is the next part of that
  list, at most 1000 objects long, and says whether more follows.
\<close>

theorem fs_listing_exact:
  assumes "tree_ok t" "is_dir_at t (fs_bucket_dir bucket)" "\<And>c. dec (enc c) = Some c"
  shows "key_sorted om_key (fs_matching t bucket pre)
    \<and> (\<forall>key p. fs_object_path bucket key = Inr p \<and> valid_utf8 key \<longrightarrow>
         (key \<in> om_key ` set (fs_matching t bucket pre) \<longleftrightarrow> (\<exists>f. node_at t p = Some (Reg f)) \<and> key_matches None pre key))
    \<and> fs_pos dec t bucket pre None = Some 0
    \<and> (\<forall>cursor n limit. fs_pos dec t bucket pre cursor = Some n \<and> 0 < limit \<longrightarrow>
         (\<exists>lr. fs_list_objects enc dec t bucket pre limit cursor = Inr lr
            \<and> lr_objects lr = take (min limit 1000) (drop n (fs_matching t bucket pre))
            \<and> (if n + min limit 1000 < length (fs_matching t bucket pre)
               then lr_truncated lr \<and> (\<exists>c. lr_next_cursor lr = Some c \<and> fs_pos dec t bucket pre (Some c) = Some (n + min limit 1000))
               else \<not> lr_truncated lr \<and> lr_next_cursor lr = None)))"
proof (intro conjI allI impI)
  show "fs_pos dec t bucket pre None = Some 0" by (simp add: fs_pos_def)
qed (use fs_matching_sorted[OF assms(1)] listed_iff[OF assms(1)] fs_list_page[OF assms] in blast)+

text \<open>A codec: the fields as strings, each after its length in unary.\<close>

fun pack :: "string list \<Rightarrow> string" where
  "pack [] = []"
| "pack (s # ss) = replicate (length s) CHR ''l'' @ CHR '':'' # s @ pack ss"

fun unpack :: "nat \<Rightarrow> string \<Rightarrow> string list" where
  "unpack 0 s = []"
| "unpack (Suc k) s =
     (let n = length (takeWhile (\<lambda>c. c = CHR ''l'') s); r = drop (Suc n) s in take n r # unpack k (drop n r))"

lemma unary_split:
  "c \<noteq> d \<Longrightarrow> length (takeWhile (\<lambda>x. x = c) (replicate n c @ d # ys)) = n"
  "drop (Suc n) (replicate n c @ d # ys) = ys"
  by (induction n) auto

lemma unpack_pack: "unpack (length ss) (pack ss) = ss"
proof (induction ss)
  case (Cons s ss)
  have n: "length (takeWhile (\<lambda>c. c = CHR ''l'') (pack (s # ss))) = length s" by (simp add: unary_split)
  have "drop (Suc (length s)) (pack (s # ss)) = s @ pack ss" by (simp only: pack.simps unary_split)
  then show ?case using Cons n by (simp add: Let_def del: pack.simps drop_drop)
qed simp

lemma unpack_packed: "n = length ss \<Longrightarrow> unpack n (pack ss) = ss"
  by (simp only: unpack_pack)

declare pack.simps [simp del] unpack.simps [simp del]

definition pack_option :: "string option \<Rightarrow> string" where
  "pack_option x = (case x of None \<Rightarrow> [] | Some s \<Rightarrow> CHR ''s'' # s)"

definition unpack_option :: "string \<Rightarrow> string option" where
  "unpack_option s = (if s = [] then None else Some (tl s))"

lemma unpack_pack_option [simp]: "unpack_option (pack_option x) = x"
  by (simp add: unpack_option_def pack_option_def split: option.splits)

definition pack_cursor :: "cursor \<Rightarrow> string" where
  "pack_cursor c = pack [replicate (cu_v c) CHR ''v'', cu_after c, pack_option (cu_prefix c)]"

definition unpack_cursor :: "string \<Rightarrow> cursor option" where
  "unpack_cursor s =
     (case unpack 3 s of
        [v, after, pre] \<Rightarrow> Some \<lparr>cu_v = length v, cu_after = after, cu_prefix = unpack_option pre\<rparr>
      | _ \<Rightarrow> None)"

lemma cursor_round_trip: "unpack_cursor (pack_cursor c) = Some c"
proof -
  have "unpack 3 (pack_cursor c) = [replicate (cu_v c) CHR ''v'', cu_after c, pack_option (cu_prefix c)]"
    unfolding pack_cursor_def by (rule unpack_packed) simp
  then show ?thesis by (simp add: unpack_cursor_def)
qed

definition sample_tree :: fs_node where
  "sample_tree =
     Dir [(''kb'', Dir [(''a'', Dir [(''z'', Reg \<lparr>fi_bytes = ''1'', fi_modified = 0, fi_ino = 1\<rparr>)]),
                        (''a-b'', Reg \<lparr>fi_bytes = ''22'', fi_modified = 0, fi_ino = 2\<rparr>)])]"

theorem fs_listing_exact_witness:
  "''a/z'' \<in> om_key ` set (fs_matching sample_tree ''kb'' None)
   \<and> (\<exists>lr. fs_list_objects pack_cursor unpack_cursor sample_tree ''kb'' None 1 None = Inr lr
        \<and> lr_objects lr = take 1 (fs_matching sample_tree ''kb'' None))"
proof -
  have t: "tree_ok sample_tree" "is_dir_at sample_tree (fs_bucket_dir ''kb'')"
    by (simp_all add: sample_tree_def is_dir_at_def fs_bucket_dir_def node_at_Dir)
  note exact = fs_listing_exact[OF t cursor_round_trip, of None]
  have path: "fs_object_path ''kb'' ''a/z'' = Inr [''kb'', ''a'', ''z'']"
    by (simp add: fs_object_path_Inr_iff plain_segment_def MAX_SEGMENT_BYTES_def SIDECAR_SUFFIX_def TEMP_PREFIX_def)
  have valid: "valid_utf8 ''a/z''" by code_simp
  have reg: "\<exists>f. node_at sample_tree [''kb'', ''a'', ''z''] = Some (Reg f)" by (simp add: sample_tree_def node_at_Dir)
  have "''a/z'' \<in> om_key ` set (fs_matching sample_tree ''kb'' None)"
    using conjunct1[OF conjunct2[OF exact], THEN spec[of _ "''a/z''"], THEN spec[of _ "[''kb'', ''a'', ''z'']"]] path valid reg
    by (simp add: key_matches_def)
  moreover have "fs_pos unpack_cursor sample_tree ''kb'' None None = Some 0"
    using exact by blast
  then obtain lr where "fs_list_objects pack_cursor unpack_cursor sample_tree ''kb'' None 1 None = Inr lr"
    "lr_objects lr = take (min 1 1000) (drop 0 (fs_matching sample_tree ''kb'' None))"
    using conjunct2[OF conjunct2[OF conjunct2[OF exact]], THEN spec[of _ None], THEN spec[of _ 0], THEN spec[of _ 1]] by auto
  ultimately show ?thesis by simp
qed

end
