(* ===== verification/Fs_Store.thy ===== *)
theory Fs_Store
  imports Fs_Listing Staging Manifest
begin

text \<open>
  Storage over a directory tree (\<^verbatim>\<open>notedthat-storage-fs/src/storage.rs\<close>, \<^verbatim>\<open>meta.rs\<close>, \<^verbatim>\<open>commit.rs\<close>).  The state is
  the tree, the clock and the next inode number the kernel hands out.  An object's record holds the
  tag of its content and the size, time and inode of the file the tag was computed over.

  One operation sees one tree: the per-key lock keeps the server's own writers apart, and an edit by
  somebody else falls before or after it.  Permissions, durability (\<^verbatim>\<open>fsync\<close>) and mode bits are not
  represented.  JSON and SHA-256 are parameters.  The platform is Unix: a file has an inode.
\<close>

section \<open>State\<close>

record object_attrs =
  ao_v :: nat
  ao_etag :: string
  ao_content_type :: "string option"
  ao_size :: u64
  ao_mtime_secs :: int
  ao_mtime_nanos :: nat
  ao_ino :: "nat option"

record fs_env =
  fe_tenant :: tenant_slug
  fe_etag :: "bytes \<Rightarrow> string"
  fe_date :: "string \<Rightarrow> (string, system_time) result"
  fe_enc :: "object_attrs \<Rightarrow> bytes"
  fe_dec :: "bytes \<Rightarrow> object_attrs option"
  fe_cursor_enc :: "cursor \<Rightarrow> string"
  fe_cursor_dec :: "string \<Rightarrow> cursor option"
  fe_manifest_enc :: "kb_manifest \<Rightarrow> (string, bytes) result"
  fe_manifest_dec :: "bytes \<Rightarrow> (string, kb_manifest) result"

record fs_state =
  fst_tree :: fs_node
  fst_now :: system_time
  fst_ino :: nat

type_synonym ('e, 'a) fs_result = "('e, 'a) result \<times> fs_state"

fun io_bind :: "('e, 'a) fs_result \<Rightarrow> ('a \<Rightarrow> fs_state \<Rightarrow> ('e, 'b) fs_result) \<Rightarrow> ('e, 'b) fs_result" where
  "io_bind (Inl e, st) k = (Inl e, st)"
| "io_bind (Inr a, st) k = k a st"

fun io_err :: "('e \<Rightarrow> 'f) \<Rightarrow> ('e, 'a) fs_result \<Rightarrow> ('f, 'a) fs_result" where
  "io_err f (r, st) = (map_err f r, st)"

abbreviation (input) io_lift :: "fs_state \<Rightarrow> ('e, 'a) result \<Rightarrow> ('e, 'a) fs_result" where
  "io_lift st r \<equiv> (r, st)"

definition file_len :: "fs_file \<Rightarrow> u64" where
  "file_len f = of_nat (length (fi_bytes f))"

section \<open>Replacing a file\<close>

definition temp_in :: "fs_node \<Rightarrow> fs_path \<Rightarrow> (io_kind, unit) result" where
  "temp_in t dir = res_bind (walk_to t dir) (\<lambda>n. if is_dir_node n then Inr () else Inl Io_NotADirectory)"

definition STAGE_RETRIES :: nat where
  "STAGE_RETRIES = 8"

fun is_directory_race :: "io_kind \<Rightarrow> bool" where
  "is_directory_race Io_NotFound = True"
| "is_directory_race Io_AlreadyExists = True"
| "is_directory_race _ = False"

fun stage_attempts :: "nat \<Rightarrow> fs_node \<Rightarrow> fs_path \<Rightarrow> (io_kind, unit) result \<times> fs_node" where
  "stage_attempts remaining t dir =
     (let (r, t1) = fs_create_dir_all t dir in
      case res_bind r (\<lambda>_. temp_in t1 dir) of
        Inr _ \<Rightarrow> (Inr (), t1)
      | Inl e \<Rightarrow>
          if is_directory_race e \<and> remaining > 0 then stage_attempts (remaining - 1) t1 dir
          else (Inl e, t1))"

declare stage_attempts.simps [simp del]

definition stage_in :: "fs_state \<Rightarrow> fs_path \<Rightarrow> (io_kind, unit) fs_result" where
  "stage_in st dir = (let (r, t) = stage_attempts STAGE_RETRIES (fst_tree st) dir in (r, st\<lparr>fst_tree := t\<rparr>))"

text \<open>The staged file carries the time of its last write and its own inode through the rename.\<close>

definition commit_finish :: "fs_state \<Rightarrow> bytes \<Rightarrow> fs_path \<Rightarrow> (io_kind, fs_file) fs_result" where
  "commit_finish st bytes destination =
     (let f = \<lparr>fi_bytes = bytes, fi_modified = fst_now st, fi_ino = fst_ino st\<rparr>;
          st1 = st\<lparr>fst_ino := Suc (fst_ino st)\<rparr> in
      case fs_rename_over (fst_tree st) destination f of
        Inl e \<Rightarrow> (Inl e, st1)
      | Inr t \<Rightarrow> (Inr f, st1\<lparr>fst_tree := t\<rparr>))"

definition replace_file :: "fs_state \<Rightarrow> fs_path \<Rightarrow> fs_path \<Rightarrow> bytes \<Rightarrow> (storage_error, unit) fs_result" where
  "replace_file st dir path bytes =
     io_bind (io_err err_backend (stage_in st dir)) (\<lambda>_ st.
     io_bind (io_err err_backend (commit_finish st bytes path)) (\<lambda>_ st.
     (Inr (), st)))"

function prune_empty_dirs :: "fs_node \<Rightarrow> fs_path \<Rightarrow> fs_path \<Rightarrow> fs_node" where
  "prune_empty_dirs t current stop =
     (if current \<noteq> stop \<and> prefix stop current then
        case fs_remove_dir t current of
          Inl _ \<Rightarrow> t
        | Inr t1 \<Rightarrow> prune_empty_dirs t1 (butlast current) stop
      else t)"
  by pat_completeness auto
termination
proof (relation "measure (\<lambda>(_, current, _). length current)", goal_cases)
  case (2 t current stop t1)
  then have "current \<noteq> []" by auto
  then show ?case by simp
qed simp

declare prune_empty_dirs.simps [simp del]

section \<open>Records\<close>

definition SCHEMA_VERSION :: nat where
  "SCHEMA_VERSION = 1"

definition split_mtime :: "system_time \<Rightarrow> int \<times> nat" where
  "split_mtime modified =
     (unix_seconds_i64 modified, if 0 \<le> modified then nat (modified mod 1000000000) else 0)"

definition attrs_new :: "string \<Rightarrow> string option \<Rightarrow> fs_file \<Rightarrow> object_attrs" where
  "attrs_new etag content_type f =
     (let (secs, nanos) = split_mtime (fi_modified f) in
      \<lparr>ao_v = SCHEMA_VERSION, ao_etag = etag, ao_content_type = content_type, ao_size = file_len f,
       ao_mtime_secs = secs, ao_mtime_nanos = nanos, ao_ino = Some (fi_ino f)\<rparr>)"

definition is_fresh_for :: "object_attrs \<Rightarrow> fs_file \<Rightarrow> bool" where
  "is_fresh_for a f =
     (if ao_v a \<noteq> SCHEMA_VERSION \<or> ao_size a \<noteq> file_len f then False
      else
        let (secs, nanos) = split_mtime (fi_modified f) in
        if ao_mtime_secs a \<noteq> secs \<or> ao_mtime_nanos a \<noteq> nanos then False
        else case ao_ino a of Some recorded \<Rightarrow> recorded = fi_ino f | None \<Rightarrow> True)"

text \<open>\<^verbatim>\<open>Path::extension\<close> of a key, lowered.\<close>

definition path_extension :: "string \<Rightarrow> string option" where
  "path_extension key =
     (case rev (components key) of
        Comp_Normal name # _ \<Rightarrow>
          (let stem = dropWhile (\<lambda>c. c \<noteq> CHR ''.'') (rev name) in
           if stem = [] \<or> tl stem = [] then None
           else Some (rev (takeWhile (\<lambda>c. c \<noteq> CHR ''.'') (rev name))))
      | _ \<Rightarrow> None)"

definition guess_content_type :: "string \<Rightarrow> string option" where
  "guess_content_type key =
     (case path_extension key of
        None \<Rightarrow> None
      | Some ext \<Rightarrow>
          (let ext = map ascii_lower ext in
           if ext = ''md'' \<or> ext = ''markdown'' then Some ''text/markdown''
           else if ext = ''txt'' then Some ''text/plain''
           else if ext = ''json'' then Some ''application/json''
           else None))"

definition meta_load :: "fs_env \<Rightarrow> fs_node \<Rightarrow> string \<Rightarrow> string \<Rightarrow> object_attrs option" where
  "meta_load env t bucket key =
     (case res_bind (sidecar_path bucket key) (\<lambda>path. map_err (\<lambda>e. err_backend e) (fs_read t path)) of
        Inl _ \<Rightarrow> None
      | Inr bytes \<Rightarrow> fe_dec env bytes)"

definition meta_fresh :: "fs_env \<Rightarrow> fs_node \<Rightarrow> string \<Rightarrow> string \<Rightarrow> fs_file \<Rightarrow> object_attrs option" where
  "meta_fresh env t bucket key f =
     (case meta_load env t bucket key of None \<Rightarrow> None | Some a \<Rightarrow> if is_fresh_for a f then Some a else None)"

definition meta_write :: "fs_env \<Rightarrow> fs_state \<Rightarrow> string \<Rightarrow> string \<Rightarrow> object_attrs \<Rightarrow> (storage_error, unit) fs_result" where
  "meta_write env st bucket key a =
     io_bind (io_lift st (sidecar_path bucket key)) (\<lambda>path st.
     replace_file st (butlast path) path (fe_enc env a))"

definition meta_remove :: "fs_state \<Rightarrow> string \<Rightarrow> string \<Rightarrow> (storage_error, unit) fs_result" where
  "meta_remove st bucket key =
     io_bind (io_lift st (sidecar_path bucket key)) (\<lambda>path st.
       let prune = (\<lambda>t. (Inr (), st\<lparr>fst_tree := prune_empty_dirs t (butlast path) (fs_meta_bucket_dir bucket)\<rparr>)) in
       case fs_remove_file (fst_tree st) path of
         Inr t \<Rightarrow> prune t
       | Inl e \<Rightarrow> if e = Io_NotFound then prune (fst_tree st) else (Inl (err_backend e), st))"

definition meta_resolve :: "fs_env \<Rightarrow> fs_state \<Rightarrow> string \<Rightarrow> string \<Rightarrow> fs_file \<Rightarrow> object_attrs \<times> fs_state" where
  "meta_resolve env st bucket key f =
     (let recorded = meta_load env (fst_tree st) bucket key in
      if (case recorded of None \<Rightarrow> False | Some a \<Rightarrow> is_fresh_for a f) then (the recorded, st)
      else
        let etag = fe_etag env (fi_bytes f);
            content_type = (case recorded of
                Some a \<Rightarrow> (case ao_content_type a of Some ct \<Rightarrow> Some ct | None \<Rightarrow> guess_content_type key)
              | None \<Rightarrow> guess_content_type key);
            repaired = attrs_new etag content_type f in
        (repaired, snd (meta_write env st bucket key repaired)))"

section \<open>Objects\<close>

definition fs_bucket :: "fs_env \<Rightarrow> kb_slug \<Rightarrow> string" where
  "fs_bucket env kb = fs_bucket_name (fe_tenant env) kb"

definition fs_stat :: "fs_node \<Rightarrow> fs_path \<Rightarrow> string \<Rightarrow> (storage_error, fs_file) result" where
  "fs_stat t path key =
     res_bind (map_err (err_object key) (walk_to t path)) (\<lambda>n. case n of Reg f \<Rightarrow> Inr f | _ \<Rightarrow> Inl (SE_NotFound key))"

definition OPEN_ATTEMPTS :: nat where
  "OPEN_ATTEMPTS = 3"

text \<open>
  The loop of \<^verbatim>\<open>open\<close>: each attempt has what \<^verbatim>\<open>lstat\<close> and then \<^verbatim>\<open>open\<close> found at the path, which may differ.
  \<^verbatim>\<open>open\<close> follows a link, so the second may be a file elsewhere.
\<close>

fun open_attempts :: "((io_kind, fs_node) result \<times> (io_kind, fs_node) result) list \<Rightarrow> string \<Rightarrow> (storage_error, fs_file) result" where
  "open_attempts [] key = Inl (SE_NotFound key)"
| "open_attempts ((linked, opened) # rest) key =
     (case linked of
        Inl e \<Rightarrow> Inl (err_object key e)
      | Inr (Reg l) \<Rightarrow>
          (case opened of
             Inl e \<Rightarrow> Inl (err_object key e)
           | Inr (Reg f) \<Rightarrow> if fi_ino l = fi_ino f then Inr f else open_attempts rest key
           | Inr _ \<Rightarrow> open_attempts rest key)
      | Inr _ \<Rightarrow> Inl (SE_NotFound key))"

definition fs_open :: "fs_node \<Rightarrow> fs_path \<Rightarrow> string \<Rightarrow> (storage_error, fs_file) result" where
  "fs_open t path key = open_attempts (replicate OPEN_ATTEMPTS (walk_to t path, walk_to t path)) key"

definition fs_resolve :: "fs_env \<Rightarrow> fs_state \<Rightarrow> string \<Rightarrow> string \<Rightarrow> (storage_error, fs_file \<times> object_attrs) fs_result" where
  "fs_resolve env st bucket key =
     io_bind (io_lift st (fs_object_path bucket key)) (\<lambda>path st.
     io_bind (io_lift st (fs_open (fst_tree st) path key)) (\<lambda>f st.
       let (a, st) = meta_resolve env st bucket key f in (Inr (f, a), st)))"

definition fs_describe :: "fs_env \<Rightarrow> fs_state \<Rightarrow> string \<Rightarrow> string \<Rightarrow> (storage_error, fs_file \<times> object_attrs) fs_result" where
  "fs_describe env st bucket key =
     io_bind (io_lift st (fs_object_path bucket key)) (\<lambda>path st.
     io_bind (io_lift st (fs_stat (fst_tree st) path key)) (\<lambda>f st.
       case meta_fresh env (fst_tree st) bucket key f of
         Some a \<Rightarrow> (Inr (f, a), st)
       | None \<Rightarrow> fs_resolve env st bucket key))"

definition fs_object_meta :: "string \<Rightarrow> u64 \<Rightarrow> fs_file \<Rightarrow> object_attrs \<Rightarrow> object_meta" where
  "fs_object_meta key size' f a =
     \<lparr>om_key = key, om_size = size', om_last_modified = Some (unix_seconds_i64 (fi_modified f)),
      om_content_type = ao_content_type a, om_etag = Some (ao_etag a)\<rparr>"

definition fs_object_state :: "fs_file \<times> object_attrs \<Rightarrow> object_state" where
  "fs_object_state = (\<lambda>(f, a). \<lparr>os_etag = ao_etag a, os_last_modified = fi_modified f\<rparr>)"

definition fs_current :: "fs_env \<Rightarrow> fs_state \<Rightarrow> string \<Rightarrow> string \<Rightarrow> (storage_error, (fs_file \<times> object_attrs) option) fs_result" where
  "fs_current env st bucket key =
     (let (r, st1) = fs_describe env st bucket key in
      case r of
        Inr found \<Rightarrow> (Inr (Some found), st1)
      | Inl (SE_NotFound _) \<Rightarrow> (Inr None, st1)
      | Inl e \<Rightarrow> (Inl e, st1))"

text \<open>The first half of \<^verbatim>\<open>store\<close>, up to the rename of the object into place, and the whole.\<close>

definition store_object :: "fs_state \<Rightarrow> string \<Rightarrow> string \<Rightarrow> bytes \<Rightarrow> (storage_error, fs_file) fs_result" where
  "store_object st bucket key bytes =
     io_bind (io_lift st (fs_object_path bucket key)) (\<lambda>path st.
     io_bind (io_err (err_object key) (stage_in st (butlast path))) (\<lambda>_ st.
     io_err (err_object key) (commit_finish st bytes path)))"

definition fs_store :: "fs_env \<Rightarrow> fs_state \<Rightarrow> string \<Rightarrow> string \<Rightarrow> string option \<Rightarrow> bytes \<Rightarrow> (storage_error, string) fs_result" where
  "fs_store env st bucket key content_type bytes =
     io_bind (store_object st bucket key bytes) (\<lambda>f st.
       let etag = fe_etag env bytes in
       io_bind (meta_write env st bucket key (attrs_new etag content_type f)) (\<lambda>_ st.
       (Inr etag, st)))"

section \<open>Operations\<close>

definition fs_ensure_bucket :: "fs_env \<Rightarrow> fs_state \<Rightarrow> kb_slug \<Rightarrow> (storage_error, unit) fs_result" where
  "fs_ensure_bucket env st kb =
     (let bucket = fs_bucket env kb;
          mk = (\<lambda>st dir. let (r, t) = fs_create_dir_all (fst_tree st) dir in (r, st\<lparr>fst_tree := t\<rparr>)) in
      io_err (err_backend_at (''creating '' @ bucket))
        (io_bind (mk st (fs_bucket_dir bucket)) (\<lambda>_ st. mk st (fs_meta_bucket_dir bucket))))"

definition fs_probe :: "fs_env \<Rightarrow> fs_state \<Rightarrow> kb_slug \<Rightarrow> (storage_error, unit) result" where
  "fs_probe env st kb = res_map (\<lambda>_. ()) (fs_require_bucket (fst_tree st) (fs_bucket env kb))"

definition fs_read_manifest :: "fs_env \<Rightarrow> fs_state \<Rightarrow> kb_slug \<Rightarrow> (storage_error, kb_manifest) result" where
  "fs_read_manifest env st kb =
     (let bucket = fs_bucket env kb in
      res_bind (fs_require_bucket (fst_tree st) bucket) (\<lambda>_.
      res_bind (fs_object_path bucket MANIFEST_KEY) (\<lambda>path.
      res_bind (map_err (\<lambda>e. if e = Io_NotFound then SE_NotFound MANIFEST_KEY
                             else err_backend_at (''reading the manifest for '' @ bucket) e) (fs_read (fst_tree st) path)) (\<lambda>bytes.
      res_bind (map_err (\<lambda>e. SE_BackendUnavailable (''deserializing the manifest for '' @ bucket @ '': '' @ e)) (fe_manifest_dec env bytes)) (\<lambda>manifest.
      res_bind (map_err (\<lambda>e. SE_BackendUnavailable (''manifest validation failed for '' @ bucket @ '': '' @ error_display e)) (manifest_validate manifest)) (\<lambda>_.
      Inr manifest))))))"

definition fs_write_manifest :: "fs_env \<Rightarrow> fs_state \<Rightarrow> kb_slug \<Rightarrow> kb_manifest \<Rightarrow> (storage_error, unit) fs_result" where
  "fs_write_manifest env st kb manifest =
     (let bucket = fs_bucket env kb in
      io_bind (io_lift st (map_err (\<lambda>e. SE_BackendUnavailable (''serializing the manifest: '' @ e)) (fe_manifest_enc env manifest))) (\<lambda>bytes st.
      io_bind (io_lift st (fs_require_bucket (fst_tree st) bucket)) (\<lambda>_ st.
      io_bind (io_err (\<lambda>e. case e of
            SE_NotFound _ \<Rightarrow> SE_BackendUnavailable (''writing the manifest for '' @ bucket @ '' failed'')
          | SE_Other _ \<Rightarrow> SE_BackendUnavailable (''writing the manifest for '' @ bucket @ '' failed'')
          | other \<Rightarrow> other) (fs_store env st bucket MANIFEST_KEY (Some ''application/json'') bytes)) (\<lambda>_ st.
      (Inr (), st)))))"

definition fs_head_object :: "fs_env \<Rightarrow> fs_state \<Rightarrow> kb_slug \<Rightarrow> object_path \<Rightarrow> conditional_headers \<Rightarrow> (storage_error, object_meta) fs_result" where
  "fs_head_object env st kb path c =
     (let bucket = fs_bucket env kb; key = path_str path in
      io_bind (io_lift st (fs_require_bucket (fst_tree st) bucket)) (\<lambda>_ st.
      io_bind (fs_describe env st bucket key) (\<lambda>(f, a) st.
      io_bind (io_lift st (evaluate_read_preconditions (fe_date env) (fs_object_state (f, a)) c)) (\<lambda>_ st.
      (Inr (fs_object_meta key (file_len f) f a), st)))))"

text \<open>The handle has the length its metadata says, so reading exactly the resolved range succeeds.\<close>

definition read_slice :: "fs_file \<Rightarrow> u64 \<Rightarrow> u64 \<Rightarrow> bytes" where
  "read_slice f start len = take (unat len) (drop (unat start) (fi_bytes f))"

definition resolve_slice :: "fs_file \<Rightarrow> byte_range option \<Rightarrow> (storage_error, u64 \<times> u64 \<times> string option) result" where
  "resolve_slice f range' =
     res_map (\<lambda>resolved. case resolved of
         Some ((s, e), content_range) \<Rightarrow> (s, e - s, Some content_range)
       | None \<Rightarrow> (0, file_len f, None)) (resolve_range (file_len f) range')"

definition fs_get_object :: "fs_env \<Rightarrow> fs_state \<Rightarrow> kb_slug \<Rightarrow> object_path \<Rightarrow> byte_range option \<Rightarrow> conditional_headers
    \<Rightarrow> (storage_error, object_read) fs_result" where
  "fs_get_object env st kb path range' c =
     (let bucket = fs_bucket env kb; key = path_str path in
      io_bind (io_lift st (fs_require_bucket (fst_tree st) bucket)) (\<lambda>_ st.
      io_bind (fs_resolve env st bucket key) (\<lambda>(f, a) st.
      io_bind (io_lift st (evaluate_read_preconditions (fe_date env) (fs_object_state (f, a)) c)) (\<lambda>_ st.
      io_bind (io_lift st (resolve_slice f range')) (\<lambda>(start, len, content_range) st.
        let bytes = read_slice f start len in
        (Inr \<lparr>or_bytes = bytes, or_meta = fs_object_meta key (of_nat (length bytes)) f a, or_content_range = content_range\<rparr>, st))))))"

definition STREAM_CHUNK :: nat where
  "STREAM_CHUNK = 64 * 1024"

text \<open>The reads of a streamed body: full buffers, then what is left.\<close>

function chunks :: "nat \<Rightarrow> bytes \<Rightarrow> bytes list" where
  "chunks n xs = (if xs = [] \<or> n = 0 then [] else take n xs # chunks n (drop n xs))"
  by pat_completeness auto
termination
  by (relation "measure (length \<circ> snd)") auto

declare chunks.simps [simp del]

definition fs_get_object_stream :: "fs_env \<Rightarrow> fs_state \<Rightarrow> kb_slug \<Rightarrow> object_path \<Rightarrow> byte_range option \<Rightarrow> conditional_headers
    \<Rightarrow> (storage_error, bytes list \<times> object_meta \<times> string option) fs_result" where
  "fs_get_object_stream env st kb path range' c =
     (let bucket = fs_bucket env kb; key = path_str path in
      io_bind (io_lift st (fs_require_bucket (fst_tree st) bucket)) (\<lambda>_ st.
      io_bind (fs_resolve env st bucket key) (\<lambda>(f, a) st.
      io_bind (io_lift st (evaluate_read_preconditions (fe_date env) (fs_object_state (f, a)) c)) (\<lambda>_ st.
      io_bind (io_lift st (resolve_slice f range')) (\<lambda>(start, len, content_range) st.
        (Inr (chunks STREAM_CHUNK (read_slice f start len), fs_object_meta key len f a, content_range), st))))))"

definition fs_put_object :: "fs_env \<Rightarrow> fs_state \<Rightarrow> kb_slug \<Rightarrow> object_path \<Rightarrow> bytes \<Rightarrow> string option \<Rightarrow> conditional_headers
    \<Rightarrow> (storage_error, put_outcome) fs_result" where
  "fs_put_object env st kb path bytes content_type c =
     (let bucket = fs_bucket env kb; key = path_str path in
      io_bind (io_lift st (fs_require_bucket (fst_tree st) bucket)) (\<lambda>_ st.
      io_bind (fs_current env st bucket key) (\<lambda>current st.
      io_bind (io_lift st (evaluate_write_preconditions (map_option fs_object_state current) c)) (\<lambda>_ st.
      io_bind (fs_store env st bucket key content_type bytes) (\<lambda>etag st.
      (Inr \<lparr>po_etag = Some etag, po_created = (current = None)\<rparr>, st))))))"

text \<open>A spilled body is copied and hashed chunk by chunk; one in memory is written at once.\<close>

definition staged_content :: "staged_body \<Rightarrow> bytes" where
  "staged_content body = (if staged_is_file body then concat (chunks STREAM_CHUNK (staged_bytes body)) else staged_bytes body)"

definition fs_put_staged_object :: "fs_env \<Rightarrow> fs_state \<Rightarrow> kb_slug \<Rightarrow> object_path \<Rightarrow> staged_body \<Rightarrow> string option \<Rightarrow> conditional_headers
    \<Rightarrow> (storage_error, put_outcome) fs_result" where
  "fs_put_staged_object env st kb path body content_type c =
     (let bucket = fs_bucket env kb; key = path_str path in
      io_bind (io_lift st (fs_require_bucket (fst_tree st) bucket)) (\<lambda>_ st.
      io_bind (fs_current env st bucket key) (\<lambda>current st.
      io_bind (io_lift st (evaluate_write_preconditions (map_option fs_object_state current) c)) (\<lambda>_ st.
      io_bind (fs_store env st bucket key content_type (staged_content body)) (\<lambda>etag st.
      (Inr \<lparr>po_etag = Some etag, po_created = (current = None)\<rparr>, st))))))"

definition fs_copy_object :: "fs_env \<Rightarrow> fs_state \<Rightarrow> kb_slug \<Rightarrow> object_path \<Rightarrow> object_path \<Rightarrow> copy_object_options
    \<Rightarrow> (storage_error, put_outcome) fs_result" where
  "fs_copy_object env st kb src dst options =
     (let bucket = fs_bucket env kb; source_key = path_str src; destination_key = path_str dst in
      io_bind (io_lift st (fs_require_bucket (fst_tree st) bucket)) (\<lambda>_ st.
      io_bind (fs_resolve env st bucket source_key) (\<lambda>(source_file, source_attrs) st.
      if (case source_if_match options of None \<Rightarrow> False | Some expected \<Rightarrow> \<not> matches_if_match (ao_etag source_attrs) expected)
      then (Inl SE_PreconditionFailed, st)
      else
      io_bind (fs_current env st bucket destination_key) (\<lambda>current st.
      io_bind (io_lift st (evaluate_write_preconditions (map_option fs_object_state current)
          (no_conditions\<lparr>if_none_match := destination_if_none_match options\<rparr>))) (\<lambda>_ st.
      let content_type = (case copy_content_type options of Some ct \<Rightarrow> Some ct | None \<Rightarrow> ao_content_type source_attrs) in
      io_bind (fs_store env st bucket destination_key content_type (concat (chunks STREAM_CHUNK (fi_bytes source_file)))) (\<lambda>etag st.
      (Inr \<lparr>po_etag = Some etag, po_created = (current = None)\<rparr>, st)))))))"

definition fs_delete_object :: "fs_env \<Rightarrow> fs_state \<Rightarrow> kb_slug \<Rightarrow> object_path \<Rightarrow> conditional_headers
    \<Rightarrow> (storage_error, delete_outcome) fs_result" where
  "fs_delete_object env st kb path c =
     (let bucket = fs_bucket env kb; key = path_str path in
      io_bind (io_lift st (fs_require_bucket (fst_tree st) bucket)) (\<lambda>_ st.
      io_bind (fs_current env st bucket key) (\<lambda>current st.
      case current of
        None \<Rightarrow> (Inr Delete_NotFound, st)
      | Some (_, a) \<Rightarrow>
          if (case if_match c of None \<Rightarrow> False | Some expected \<Rightarrow> \<not> matches_if_match (ao_etag a) expected)
          then (Inl SE_PreconditionFailed, st)
          else
          io_bind (io_lift st (fs_object_path bucket key)) (\<lambda>object_path st.
          case fs_remove_file (fst_tree st) object_path of
            Inl e \<Rightarrow> if e = Io_NotFound then (Inr Delete_NotFound, st) else (Inl (err_object key e), st)
          | Inr t \<Rightarrow>
              io_bind (meta_remove (st\<lparr>fst_tree := t\<rparr>) bucket key) (\<lambda>_ st.
              (Inr Deleted, st\<lparr>fst_tree := prune_empty_dirs (fst_tree st) (butlast object_path) (fs_bucket_dir bucket)\<rparr>))))))"

text \<open>
  The loop of \<^verbatim>\<open>walk_etags\<close>.  Describing an object may write its record, which lies outside the directory
  walked, so the walk goes on over the tree it started with.
\<close>

function etag_loop :: "fs_env \<Rightarrow> fs_node \<Rightarrow> string \<Rightarrow> string option \<Rightarrow> ordered_walk \<Rightarrow> (string \<times> string) list \<Rightarrow> fs_state
    \<Rightarrow> (string \<times> string) list \<times> fs_state" where
  "etag_loop env t bucket pre walk acc st =
     (case next_match t (fs_bucket_dir bucket) None pre walk of
        (None, _) \<Rightarrow> (acc, st)
      | (Some entry, walk') \<Rightarrow>
          (case fs_describe env st bucket (fo_key entry) of
             (Inr (_, a), st') \<Rightarrow> etag_loop env t bucket pre walk' (acc @ [(fo_key entry, ao_etag a)]) st'
           | (Inl _, st') \<Rightarrow> etag_loop env t bucket pre walk' acc st'))"
  by pat_completeness auto
termination
  by (relation "measure (\<lambda>(_, t, _, _, walk, _, _). walk_weight t walk)")
    (auto dest: next_match_weight[OF sym])

declare etag_loop.simps [simp del]

definition fs_walk_etags :: "fs_env \<Rightarrow> fs_state \<Rightarrow> kb_slug \<Rightarrow> string option \<Rightarrow> (string \<times> string) list \<times> fs_state" where
  "fs_walk_etags env st kb pre =
     (let bucket = fs_bucket env kb in
      etag_loop env (fst_tree st) bucket pre (walk_new (fst_tree st) (fs_bucket_dir bucket)) [] st)"

end
