(* ===== verification/Fs_Fresh.thy ===== *)
theory Fs_Fresh
  imports Fs_Store
begin

text \<open>
  Tags of the filesystem backend are never stale.  An operation acts on the tree through the files it
  holds (\<open>file_at\<close>); directories come and go.  The invariant says that a record which still describes
  its file carries the tag of the file's content.  It survives every operation, a crash between the two
  renames of a write, and edits of the tree by somebody else that leave the records alone and change
  the size, time or inode of what they change.
\<close>

section \<open>Files\<close>

definition file_at :: "fs_node \<Rightarrow> fs_path \<Rightarrow> fs_file option" where
  "file_at t p = (case node_at t p of Some (Reg f) \<Rightarrow> Some f | _ \<Rightarrow> None)"

abbreviation files :: "fs_state \<Rightarrow> fs_path \<Rightarrow> fs_file option" where
  "files st \<equiv> file_at (fst_tree st)"

lemma file_at_entry: "file_at t p = Some f \<longleftrightarrow> entry_at t p = Some (E_Reg f)"
proof -
  have "node_entry n = E_Reg f \<longleftrightarrow> n = Reg f" for n by (cases n) auto
  then show ?thesis by (auto simp: file_at_def entry_at_def split: option.splits fs_node.splits)
qed

lemma file_at_walk: "file_at t p = Some f \<longleftrightarrow> walk_to t p = Inr (Reg f)"
  by (auto simp: file_at_def node_at_def split: option.splits fs_node.splits sum.splits)

lemma file_at_eqI: "(\<And>p f. entry_at t' p = Some (E_Reg f) \<longleftrightarrow> entry_at t p = Some (E_Reg f)) \<Longrightarrow> file_at t' = file_at t"
  by (rule ext, rule option.expand) (metis file_at_entry option.collapse option.distinct(1) option.exhaust_sel option.sel)+

lemma file_at_grown: "grown t t' p \<Longrightarrow> file_at t' = file_at t"
  by (rule file_at_eqI) (rule grown_file)

lemma file_at_upd: "entry_at t' = (entry_at t)(p \<mapsto> E_Reg f) \<Longrightarrow> file_at t' = (file_at t)(p \<mapsto> f)"
proof (rule ext)
  fix q
  assume e: "entry_at t' = (entry_at t)(p \<mapsto> E_Reg f)"
  have "file_at t' q = Some g \<longleftrightarrow> ((file_at t)(p \<mapsto> f)) q = Some g" for g by (auto simp: file_at_entry e)
  then show "file_at t' q = ((file_at t)(p \<mapsto> f)) q" by (metis option.exhaust)
qed

lemma file_at_del: "entry_at t' = (entry_at t)(p := None) \<Longrightarrow> file_at t' = (file_at t)(p := None)"
proof (rule ext)
  fix q
  assume e: "entry_at t' = (entry_at t)(p := None)"
  have "file_at t' q = Some g \<longleftrightarrow> ((file_at t)(p := None)) q = Some g" for g by (auto simp: file_at_entry e)
  then show "file_at t' q = ((file_at t)(p := None)) q" by (metis option.exhaust)
qed

lemma file_at_remove_file: "fs_remove_file t p = Inr t' \<Longrightarrow> p \<noteq> [] \<Longrightarrow> file_at t' = (file_at t)(p := None)"
proof -
  assume r: "fs_remove_file t p = Inr t'" and p: "p \<noteq> []"
  then have "is_dir_node t" by (cases t; cases p) (auto simp: fs_remove_file_def)
  then show ?thesis using fs_remove_file_Inr(1)[OF r] by (intro file_at_del)
qed

lemma file_at_remove_dir: "fs_remove_dir t p = Inr t' \<Longrightarrow> file_at t' = file_at t"
  using fs_remove_dir_Inr[of t p t'] by (intro file_at_eqI) (auto simp: is_dir_at_entry)

lemma file_at_prune: "file_at (prune_empty_dirs t p stop) = file_at t"
proof (induction t p stop rule: prune_empty_dirs.induct)
  case (1 t p stop)
  then show ?case
    by (subst prune_empty_dirs.simps) (auto split: sum.splits simp: file_at_remove_dir)
qed

lemma file_at_stage: "stage_attempts n t dir = (r, t') \<Longrightarrow> file_at t' = file_at t"
proof (induction n t dir arbitrary: r t' rule: stage_attempts.induct)
  case (1 n t dir)
  obtain r1 t1 where mk: "fs_create_dir_all t dir = (r1, t1)" by fastforce
  have "file_at t1 = file_at t" using fs_create_dir_all_grown[OF mk] file_at_grown by blast
  then show ?case using 1 mk by (subst (asm) (2) stage_attempts.simps) (auto split: sum.splits if_splits)
qed

lemma fs_read_file: "fs_read t p = Inr b \<longleftrightarrow> (\<exists>f. file_at t p = Some f \<and> fi_bytes f = b)"
proof (cases "walk_to t p")
  case (Inr n)
  then show ?thesis by (cases n) (simp_all add: fs_read_def file_at_walk)
qed (simp add: fs_read_def file_at_walk)

lemma meta_load_file:
  "meta_load env t b key = Some a \<longleftrightarrow>
     (\<exists>q g. sidecar_path b key = Inr q \<and> file_at t q = Some g \<and> fe_dec env (fi_bytes g) = Some a)"
proof -
  have "meta_load env t b key = (case sidecar_path b key of Inl _ \<Rightarrow> None
      | Inr q \<Rightarrow> (case fs_read t q of Inl _ \<Rightarrow> None | Inr bytes \<Rightarrow> fe_dec env bytes))"
    by (auto simp: meta_load_def split: sum.splits)
  moreover have "(case fs_read t q of Inl _ \<Rightarrow> None | Inr bytes \<Rightarrow> fe_dec env bytes) = Some a \<longleftrightarrow>
      (\<exists>g. file_at t q = Some g \<and> fe_dec env (fi_bytes g) = Some a)" for q
  proof (cases "fs_read t q")
    case (Inl e)
    then show ?thesis using fs_read_file[of t q] by (metis sum.case(1) sum.distinct(1) option.distinct(1))
  next
    case (Inr x)
    then obtain g where "file_at t q = Some g" "fi_bytes g = x" using fs_read_file[of t q x] by blast
    then show ?thesis using Inr by auto
  qed
  ultimately show ?thesis by (auto split: sum.splits)
qed

lemma fs_stat_file: "fs_stat t p key = Inr f \<longleftrightarrow> file_at t p = Some f"
proof (cases "walk_to t p")
  case (Inr n)
  then show ?thesis by (cases n) (simp_all add: fs_stat_def file_at_walk)
qed (simp add: fs_stat_def file_at_walk)

lemma fs_open_file: "fs_open t p key = Inr f \<longleftrightarrow> file_at t p = Some f"
  by (auto simp: fs_open_def OPEN_ATTEMPTS_def file_at_walk numeral_3_eq_3 split: sum.splits fs_node.splits)

text \<open>
  Whatever is swapped at the path while it is being opened, the file handed out is one that was a regular
  file at the path when it was last looked at: never the target of a link.
\<close>

lemma open_attempts_sound:
  "open_attempts obs key = Inr f \<Longrightarrow> \<exists>l. (Inr (Reg l), Inr (Reg f)) \<in> set obs \<and> fi_ino l = fi_ino f"
proof (induction obs)
  case (Cons ob rest)
  obtain linked opened where ob: "ob = (linked, opened)" by fastforce
  have later: "\<exists>l. (Inr (Reg l), Inr (Reg f)) \<in> set (ob # rest) \<and> fi_ino l = fi_ino f" if "open_attempts rest key = Inr f"
    using Cons.IH[OF that] by auto
  show ?case using Cons.prems later by (auto simp: ob split: sum.splits fs_node.splits if_splits)
qed simp

section \<open>Effects of the steps\<close>

lemma io_bind_Inr_iff: "io_bind m k = (Inr b, st2) \<longleftrightarrow> (\<exists>a st1. m = (Inr a, st1) \<and> k a st1 = (Inr b, st2))"
  by (cases m; cases "fst m") auto

lemma io_err_Inr_iff: "io_err f m = (Inr a, st) \<longleftrightarrow> m = (Inr a, st)"
  by (cases m; cases "fst m") auto

lemma io_bind_inv:
  "P (snd m) \<Longrightarrow> (\<And>a st. m = (Inr a, st) \<Longrightarrow> P st \<Longrightarrow> P (snd (k a st))) \<Longrightarrow> P (snd (io_bind m k))"
  by (cases m; cases "fst m") auto

lemma snd_io_err [simp]: "snd (io_err f m) = snd m"
  by (cases m) simp

lemma stage_in_effect: "stage_in st dir = (r, st') \<Longrightarrow> files st' = files st \<and> fst_now st' = fst_now st \<and> fst_ino st' = fst_ino st"
  by (auto simp: stage_in_def file_at_stage split: prod.splits)

lemma commit_finish_effect:
  assumes "commit_finish st bytes p = (r, st')"
  shows "fst_now st' = fst_now st" "fst_ino st' = Suc (fst_ino st)"
    and "r = Inr f \<Longrightarrow> f = \<lparr>fi_bytes = bytes, fi_modified = fst_now st, fi_ino = fst_ino st\<rparr> \<and> files st' = (files st)(p \<mapsto> f)"
    and "r = Inl e \<Longrightarrow> files st' = files st"
  using assms by (auto simp: commit_finish_def Let_def split: sum.splits dest!: fs_rename_over_Inr(1) file_at_upd)

section \<open>The invariant\<close>

definition in_meta :: "fs_path \<Rightarrow> bool" where
  "in_meta p \<longleftrightarrow> (\<exists>q. p = META_DIR # q)"

definition fresh_ok :: "fs_env \<Rightarrow> (fs_path \<Rightarrow> fs_file option) \<Rightarrow> bool" where
  "fresh_ok env F \<longleftrightarrow>
     (\<forall>b key p q f g a. b \<noteq> META_DIR \<and> fs_object_path b key = Inr p \<and> sidecar_path b key = Inr q \<and> F p = Some f
        \<and> F q = Some g \<and> fe_dec env (fi_bytes g) = Some a \<and> is_fresh_for a f \<longrightarrow> ao_etag a = fe_etag env (fi_bytes f))"

text \<open>The stamp the next file gets is not that of a file or a record there is: the time has moved on or the inode is new.\<close>

definition clock_ok :: "fs_env \<Rightarrow> (fs_path \<Rightarrow> fs_file option) \<Rightarrow> system_time \<Rightarrow> nat \<Rightarrow> bool" where
  "clock_ok env F now ino \<longleftrightarrow>
     (\<forall>p f. F p = Some f \<longrightarrow> fi_ino f < ino \<or> split_mtime (fi_modified f) \<noteq> split_mtime now)
     \<and> (\<forall>b key q g a. sidecar_path b key = Inr q \<and> F q = Some g \<and> fe_dec env (fi_bytes g) = Some a \<longrightarrow>
          (\<exists>i<ino. ao_ino a = Some i) \<or> (ao_mtime_secs a, ao_mtime_nanos a) \<noteq> split_mtime now)"

definition fs_inv :: "fs_env \<Rightarrow> fs_state \<Rightarrow> bool" where
  "fs_inv env st \<longleftrightarrow> fresh_ok env (files st) \<and> clock_ok env (files st) (fst_now st) (fst_ino st)"

lemma in_meta_simps:
  "sidecar_path b key = Inr q \<Longrightarrow> in_meta q"
  "fs_object_path b key = Inr p \<Longrightarrow> b \<noteq> META_DIR \<Longrightarrow> \<not> in_meta p"
  by (auto simp: in_meta_def sidecar_path_Inr_iff fs_object_path_Inr_iff)

lemma fs_inv_ino:
  assumes "fs_inv env st" "files st' = files st" "fst_now st' = fst_now st" "fst_ino st \<le> fst_ino st'"
  shows "fs_inv env st'"
proof -
  have "clock_ok env (files st) (fst_now st) (fst_ino st')"
    using assms(1,4) unfolding fs_inv_def clock_ok_def by (meson less_le_trans)
  then show ?thesis using assms by (simp add: fs_inv_def)
qed

lemma fresh_attrs: "is_fresh_for (attrs_new etag ct f) f"
  by (simp add: is_fresh_for_def attrs_new_def split: prod.splits)

lemma fresh_stamp:
  "is_fresh_for a f \<Longrightarrow> (ao_mtime_secs a, ao_mtime_nanos a) = split_mtime (fi_modified f) \<and> (\<forall>i. ao_ino a = Some i \<longrightarrow> i = fi_ino f)"
  by (auto simp: is_fresh_for_def split: if_splits prod.splits option.splits)

text \<open>A new object file: no record describes it yet.\<close>

lemma fs_inv_new_object:
  assumes inv: "fs_inv env st" and p: "\<not> in_meta p"
    and F: "files st' = (files st)(p \<mapsto> \<lparr>fi_bytes = bytes, fi_modified = fst_now st, fi_ino = fst_ino st\<rparr>)"
    and st': "fst_now st' = fst_now st" "fst_ino st' = Suc (fst_ino st)"
  shows "fs_inv env st'"
proof -
  let ?n = "\<lparr>fi_bytes = bytes, fi_modified = fst_now st, fi_ino = fst_ino st\<rparr>"
  have rec: "files st' q = files st q" if "sidecar_path b key = Inr q" for b key q
    using in_meta_simps(1)[OF that] p unfolding F by auto
  have old: "(\<exists>i<fst_ino st. ao_ino a = Some i) \<or> (ao_mtime_secs a, ao_mtime_nanos a) \<noteq> split_mtime (fst_now st)"
    if "sidecar_path b key = Inr q" "files st q = Some g" "fe_dec env (fi_bytes g) = Some a" for b key q g a
    using inv that unfolding fs_inv_def clock_ok_def by blast
  have stale: "\<not> is_fresh_for a ?n" if "sidecar_path b key = Inr q" "files st q = Some g" "fe_dec env (fi_bytes g) = Some a" for b key q g a
    using old[OF that] fresh_stamp[of a ?n] by auto
  have "fresh_ok env (files st')"
    unfolding fresh_ok_def
  proof (intro allI impI, elim conjE)
    fix b key p' q f g a
    assume h: "b \<noteq> META_DIR" "fs_object_path b key = Inr p'" "sidecar_path b key = Inr q" "files st' p' = Some f"
      "files st' q = Some g" "fe_dec env (fi_bytes g) = Some a" "is_fresh_for a f"
    have q: "files st q = Some g" using rec[OF h(3)] h(5) by simp
    show "ao_etag a = fe_etag env (fi_bytes f)"
    proof (cases "p' = p")
      case True
      then show ?thesis using h(4,7) stale[OF h(3) q h(6)] F by simp
    next
      case False
      then have "files st p' = Some f" using h(4) F by simp
      then show ?thesis using inv h q unfolding fs_inv_def fresh_ok_def by blast
    qed
  qed
  moreover have "clock_ok env (files st') (fst_now st') (fst_ino st')"
    unfolding clock_ok_def st'
  proof (intro conjI allI impI)
    fix p' f
    assume "files st' p' = Some f"
    then have "f = ?n \<or> files st p' = Some f" unfolding F by (auto split: if_splits)
    then show "fi_ino f < Suc (fst_ino st) \<or> split_mtime (fi_modified f) \<noteq> split_mtime (fst_now st)"
      using inv unfolding fs_inv_def clock_ok_def by (auto dest: less_SucI)
  next
    fix b key q g a
    assume "sidecar_path b key = Inr q \<and> files st' q = Some g \<and> fe_dec env (fi_bytes g) = Some a"
    then show "(\<exists>i<Suc (fst_ino st). ao_ino a = Some i) \<or> (ao_mtime_secs a, ao_mtime_nanos a) \<noteq> split_mtime (fst_now st)"
      using old[of b key q g a] rec[of b key q] by (metis less_SucI)
  qed
  ultimately show ?thesis by (simp add: fs_inv_def)
qed

text \<open>A new record of the tag of the file that is there.\<close>

lemma fs_inv_new_record:
  assumes inv: "fs_inv env st" and codec: "\<And>a. fe_dec env (fe_enc env a) = Some a"
    and paths: "b \<noteq> META_DIR" "fs_object_path b key = Inr p" "sidecar_path b key = Inr q" and f: "files st p = Some f"
    and F: "files st' = (files st)(q \<mapsto> \<lparr>fi_bytes = fe_enc env (attrs_new (fe_etag env (fi_bytes f)) ct f), fi_modified = fst_now st, fi_ino = fst_ino st\<rparr>)"
    and st': "fst_now st' = fst_now st" "fst_ino st' = Suc (fst_ino st)"
  shows "fs_inv env st'"
proof -
  let ?a = "attrs_new (fe_etag env (fi_bytes f)) ct f"
  have obj: "files st' p' = files st p'" if "b' \<noteq> META_DIR" "fs_object_path b' key' = Inr p'" for b' key' p'
    using in_meta_simps(2)[OF that(2,1)] in_meta_simps(1)[OF paths(3)] unfolding F by auto
  have "fresh_ok env (files st')"
    unfolding fresh_ok_def
  proof (intro allI impI, elim conjE)
    fix b' key' p' q' f' g a
    assume h: "b' \<noteq> META_DIR" "fs_object_path b' key' = Inr p'" "sidecar_path b' key' = Inr q'" "files st' p' = Some f'"
      "files st' q' = Some g" "fe_dec env (fi_bytes g) = Some a" "is_fresh_for a f'"
    have p': "files st p' = Some f'" using obj[OF h(1,2)] h(4) by simp
    show "ao_etag a = fe_etag env (fi_bytes f')"
    proof (cases "q' = q")
      case True
      then have "b' = b \<and> key' = key" using sidecar_path_inj[OF _ paths(3)] h(3) by blast
      then have "f' = f" "a = ?a" using p' f h(2,5,6) paths(2) codec unfolding F True by auto
      then show ?thesis by (simp add: attrs_new_def split: prod.splits)
    next
      case False
      then have "files st q' = Some g" using h(5) F by simp
      then show ?thesis using inv h p' unfolding fs_inv_def fresh_ok_def by blast
    qed
  qed
  moreover have "clock_ok env (files st') (fst_now st') (fst_ino st')"
    unfolding clock_ok_def st'
  proof (intro conjI allI impI)
    fix p' f'
    assume "files st' p' = Some f'"
    then have "fi_ino f' = fst_ino st \<or> files st p' = Some f'" unfolding F by (auto split: if_splits)
    then show "fi_ino f' < Suc (fst_ino st) \<or> split_mtime (fi_modified f') \<noteq> split_mtime (fst_now st)"
      using inv unfolding fs_inv_def clock_ok_def by (auto dest: less_SucI)
  next
    fix b' key' q' g a
    assume h: "sidecar_path b' key' = Inr q' \<and> files st' q' = Some g \<and> fe_dec env (fi_bytes g) = Some a"
    have stamp: "fi_ino f < fst_ino st \<or> split_mtime (fi_modified f) \<noteq> split_mtime (fst_now st)"
      using inv f unfolding fs_inv_def clock_ok_def by blast
    have new: "(\<exists>i<Suc (fst_ino st). ao_ino ?a = Some i) \<or> (ao_mtime_secs ?a, ao_mtime_nanos ?a) \<noteq> split_mtime (fst_now st)"
      using stamp by (auto simp: attrs_new_def split: prod.splits)
    have "a = ?a \<or> files st q' = Some g" using h codec unfolding F by (auto split: if_splits)
    then show "(\<exists>i<Suc (fst_ino st). ao_ino a = Some i) \<or> (ao_mtime_secs a, ao_mtime_nanos a) \<noteq> split_mtime (fst_now st)"
      using new inv h unfolding fs_inv_def clock_ok_def by (meson less_SucI)
  qed
  ultimately show ?thesis by (simp add: fs_inv_def)
qed

lemma fs_inv_fewer:
  assumes "fs_inv env st" "\<And>p f. files st' p = Some f \<Longrightarrow> files st p = Some f" "fst_now st' = fst_now st" "fst_ino st' = fst_ino st"
  shows "fs_inv env st'"
proof -
  have "fresh_ok env (files st')" using assms(1,2) unfolding fs_inv_def fresh_ok_def by blast
  moreover have "clock_ok env (files st') (fst_now st') (fst_ino st')"
    using assms(1,2) unfolding fs_inv_def clock_ok_def assms(3,4) by blast
  ultimately show ?thesis by (simp add: fs_inv_def)
qed

section \<open>Operations\<close>

definition kept :: "fs_state \<Rightarrow> fs_state \<Rightarrow> bool" where
  "kept st st' \<longleftrightarrow> (\<forall>p. \<not> in_meta p \<longrightarrow> files st' p = files st p)"

lemma kept_refl [simp]: "kept st st"
  by (simp add: kept_def)

lemma kept_trans: "kept st1 st2 \<Longrightarrow> kept st2 st3 \<Longrightarrow> kept st1 st3"
  by (simp add: kept_def)

lemma replace_file_effect:
  assumes "replace_file st dir path bytes = (r, st')"
  shows "fst_now st' = fst_now st \<and>
    (r = Inr () \<and> files st' = (files st)(path \<mapsto> \<lparr>fi_bytes = bytes, fi_modified = fst_now st, fi_ino = fst_ino st\<rparr>) \<and> fst_ino st' = Suc (fst_ino st)
     \<or> (\<exists>e. r = Inl e) \<and> files st' = files st \<and> fst_ino st \<le> fst_ino st')"
proof -
  obtain r1 st1 where s: "stage_in st dir = (r1, st1)" by fastforce
  obtain r2 st2 where c: "commit_finish st1 bytes path = (r2, st2)" by fastforce
  note eff = stage_in_effect[OF s] commit_finish_effect[OF c]
  show ?thesis
  proof (cases r1)
    case (Inl e)
    then show ?thesis using assms s eff by (auto simp: replace_file_def)
  next
    case (Inr u)
    then show ?thesis using assms s c eff by (cases r2) (auto simp: replace_file_def)
  qed
qed

lemma meta_write_effect:
  assumes "meta_write env st b key a = (r, st')"
  shows "fst_now st' = fst_now st \<and>
    (r = Inr () \<and> (\<exists>q. sidecar_path b key = Inr q \<and>
        files st' = (files st)(q \<mapsto> \<lparr>fi_bytes = fe_enc env a, fi_modified = fst_now st, fi_ino = fst_ino st\<rparr>)) \<and> fst_ino st' = Suc (fst_ino st)
     \<or> (\<exists>e. r = Inl e) \<and> files st' = files st \<and> fst_ino st \<le> fst_ino st')"
proof (cases "sidecar_path b key")
  case (Inr q)
  then have "replace_file st (butlast q) q (fe_enc env a) = (r, st')" using assms by (simp add: meta_write_def)
  from replace_file_effect[OF this] Inr show ?thesis by auto
qed (use assms in \<open>auto simp: meta_write_def\<close>)

lemma meta_write_kept: "kept st (snd (meta_write env st b key a))"
proof -
  obtain r st' where w: "meta_write env st b key a = (r, st')" by fastforce
  show ?thesis using meta_write_effect[OF w] w in_meta_simps(1)[of b key] by (auto simp: kept_def)
qed

lemma meta_write_inv:
  assumes inv: "fs_inv env st" and codec: "\<And>a. fe_dec env (fe_enc env a) = Some a"
    and p: "b \<noteq> META_DIR" "fs_object_path b key = Inr p" "files st p = Some f"
  shows "fs_inv env (snd (meta_write env st b key (attrs_new (fe_etag env (fi_bytes f)) ct f)))"
proof -
  obtain r st' where w: "meta_write env st b key (attrs_new (fe_etag env (fi_bytes f)) ct f) = (r, st')" by fastforce
  have st: "snd (meta_write env st b key (attrs_new (fe_etag env (fi_bytes f)) ct f)) = st'" by (simp add: w)
  show ?thesis unfolding st
    using meta_write_effect[OF w] fs_inv_new_record[OF inv codec p(1,2) _ p(3), where ct = ct and st' = st'] fs_inv_ino[OF inv, of st'] by auto
qed

lemma meta_resolve_ok:
  assumes inv: "fs_inv env st" and codec: "\<And>a. fe_dec env (fe_enc env a) = Some a"
    and p: "b \<noteq> META_DIR" "fs_object_path b key = Inr p" "files st p = Some f"
    and m: "meta_resolve env st b key f = (a, st')"
  shows "ao_etag a = fe_etag env (fi_bytes f) \<and> fs_inv env st' \<and> kept st st'"
proof (cases "\<exists>r. meta_load env (fst_tree st) b key = Some r \<and> is_fresh_for r f")
  case True
  then obtain r where r: "meta_load env (fst_tree st) b key = Some r" "is_fresh_for r f" by blast
  then have "ao_etag r = fe_etag env (fi_bytes f)"
    using inv p unfolding fs_inv_def fresh_ok_def meta_load_file by blast
  then show ?thesis using m r inv by (simp add: meta_resolve_def)
next
  case False
  then obtain ct where ct: "a = attrs_new (fe_etag env (fi_bytes f)) ct f" "st' = snd (meta_write env st b key a)"
    using m by (auto simp: meta_resolve_def Let_def split: option.splits)
  then show ?thesis using meta_write_inv[OF inv codec p] meta_write_kept[of st env b key a] by (simp add: attrs_new_def split: prod.splits)
qed

lemma fs_resolve_ok:
  assumes inv: "fs_inv env st" and codec: "\<And>a. fe_dec env (fe_enc env a) = Some a" and b: "b \<noteq> META_DIR"
    and r: "fs_resolve env st b key = (r, st')"
  shows "fs_inv env st' \<and> kept st st'
    \<and> (case r of Inr (f, a) \<Rightarrow> (\<exists>p. fs_object_path b key = Inr p \<and> files st p = Some f) \<and> ao_etag a = fe_etag env (fi_bytes f) | Inl e \<Rightarrow> st' = st)"
proof (cases "\<exists>p f. fs_object_path b key = Inr p \<and> files st p = Some f")
  case True
  then obtain p f where p: "fs_object_path b key = Inr p" "files st p = Some f" by blast
  obtain a st2 where m: "meta_resolve env st b key f = (a, st2)" by fastforce
  have "r = Inr (f, a)" "st' = st2" using r p m by (simp_all add: fs_resolve_def fs_open_file[THEN iffD2])
  then show ?thesis using meta_resolve_ok[OF inv codec b p m] p by simp
next
  case False
  have "\<exists>e. r = Inl e \<and> st' = st"
  proof (cases "fs_object_path b key")
    case (Inr p)
    then have "files st p = None" using False by auto
    then obtain e where "fs_open (fst_tree st) p key = Inl e" using fs_open_file by (metis option.distinct(1) sum.exhaust)
    then show ?thesis using r Inr by (auto simp: fs_resolve_def)
  qed (use r in \<open>auto simp: fs_resolve_def\<close>)
  then show ?thesis using inv by auto
qed

lemma fs_describe_ok:
  assumes inv: "fs_inv env st" and codec: "\<And>a. fe_dec env (fe_enc env a) = Some a" and b: "b \<noteq> META_DIR"
    and r: "fs_describe env st b key = (r, st')"
  shows "fs_inv env st' \<and> kept st st'
    \<and> (case r of Inr (f, a) \<Rightarrow> (\<exists>p. fs_object_path b key = Inr p \<and> files st p = Some f) \<and> ao_etag a = fe_etag env (fi_bytes f) | Inl e \<Rightarrow> st' = st)"
proof (cases "\<exists>p f a. fs_object_path b key = Inr p \<and> files st p = Some f \<and> meta_fresh env (fst_tree st) b key f = Some a")
  case True
  then obtain p f a where p: "fs_object_path b key = Inr p" "files st p = Some f" and a: "meta_fresh env (fst_tree st) b key f = Some a" by blast
  have "ao_etag a = fe_etag env (fi_bytes f)"
    using inv b p a unfolding fs_inv_def fresh_ok_def meta_fresh_def by (auto simp: meta_load_file split: option.splits if_splits)
  moreover have "r = Inr (f, a)" "st' = st" using r p a by (simp_all add: fs_describe_def fs_stat_file[THEN iffD2])
  ultimately show ?thesis using inv p by simp
next
  case False
  show ?thesis
  proof (cases "\<exists>p f. fs_object_path b key = Inr p \<and> files st p = Some f")
    case True
    then obtain p f where p: "fs_object_path b key = Inr p" "files st p = Some f" by blast
    then have "fs_resolve env st b key = (r, st')" using r False by (simp add: fs_describe_def fs_stat_file[THEN iffD2] split: option.splits)
    then show ?thesis using fs_resolve_ok[OF inv codec b] by blast
  next
    case no: False
    have "\<exists>e. r = Inl e \<and> st' = st"
    proof (cases "fs_object_path b key")
      case (Inr p)
      then have "files st p = None" using no by auto
      then obtain e where "fs_stat (fst_tree st) p key = Inl e" using fs_stat_file by (metis option.distinct(1) sum.exhaust)
      then show ?thesis using r Inr by (auto simp: fs_describe_def)
    qed (use r in \<open>auto simp: fs_describe_def\<close>)
    then show ?thesis using inv by auto
  qed
qed

lemma fs_describe_found:
  assumes "fs_object_path b key = Inr p" "files st p = Some f"
  shows "\<exists>a st'. fs_describe env st b key = (Inr (f, a), st')"
  using assms by (auto simp: fs_describe_def fs_resolve_def fs_stat_file[THEN iffD2] fs_open_file[THEN iffD2] split: option.splits prod.splits)

lemma fs_current_ok:
  assumes inv: "fs_inv env st" and codec: "\<And>a. fe_dec env (fe_enc env a) = Some a" and b: "b \<noteq> META_DIR"
    and r: "fs_current env st b key = (r, st')"
  shows "fs_inv env st' \<and> kept st st'
    \<and> (case r of
        Inr (Some (f, a)) \<Rightarrow> (\<exists>p. fs_object_path b key = Inr p \<and> files st p = Some f) \<and> ao_etag a = fe_etag env (fi_bytes f)
      | Inr None \<Rightarrow> \<forall>p. fs_object_path b key = Inr p \<longrightarrow> files st p = None
      | Inl e \<Rightarrow> st' = st)"
proof -
  obtain r1 st1 where d: "fs_describe env st b key = (r1, st1)" by fastforce
  note ok = fs_describe_ok[OF inv codec b d]
  have none: "files st p = None" if "r1 = Inl e" "fs_object_path b key = Inr p" for e p
    using fs_describe_found[OF that(2), of st _ env] d that(1) by (cases "files st p") auto
  show ?thesis
  proof (cases r1)
    case (Inl e)
    then show ?thesis using r d ok none by (cases e) (auto simp: fs_current_def)
  next
    case (Inr x)
    then show ?thesis using r d ok by (auto simp: fs_current_def)
  qed
qed

lemma store_object_effect:
  assumes "store_object st b key bytes = (r, st')"
  shows "fst_now st' = fst_now st \<and>
    ((\<exists>p f. fs_object_path b key = Inr p \<and> r = Inr f \<and> f = \<lparr>fi_bytes = bytes, fi_modified = fst_now st, fi_ino = fst_ino st\<rparr>
        \<and> files st' = (files st)(p \<mapsto> f)) \<and> fst_ino st' = Suc (fst_ino st)
     \<or> (\<exists>e. r = Inl e) \<and> files st' = files st \<and> fst_ino st \<le> fst_ino st')"
proof (cases "fs_object_path b key")
  case (Inr p)
  obtain r1 st1 where s: "stage_in st (butlast p) = (r1, st1)" by fastforce
  obtain r2 st2 where c: "commit_finish st1 bytes p = (r2, st2)" by fastforce
  note eff = stage_in_effect[OF s] commit_finish_effect[OF c]
  show ?thesis
  proof (cases r1)
    case (Inl e)
    then show ?thesis using assms s eff Inr by (auto simp: store_object_def)
  next
    case u: (Inr u)
    then show ?thesis using assms s c eff Inr by (cases r2) (auto simp: store_object_def)
  qed
qed (use assms in \<open>auto simp: store_object_def\<close>)

lemma store_object_inv:
  assumes "fs_inv env st" "b \<noteq> META_DIR" "store_object st b key bytes = (r, st')"
  shows "fs_inv env st'"
proof -
  note eff = store_object_effect[OF assms(3)]
  show ?thesis
  proof (cases r)
    case (Inl e)
    then show ?thesis using eff fs_inv_ino[OF assms(1), of st'] by auto
  next
    case (Inr f)
    then obtain p where "fs_object_path b key = Inr p"
      "files st' = (files st)(p \<mapsto> \<lparr>fi_bytes = bytes, fi_modified = fst_now st, fi_ino = fst_ino st\<rparr>)" "fst_ino st' = Suc (fst_ino st)"
      using eff by auto
    then show ?thesis using fs_inv_new_object[OF assms(1)] in_meta_simps(2)[OF _ assms(2)] eff by blast
  qed
qed

lemma fs_store_ok:
  assumes inv: "fs_inv env st" and codec: "\<And>a. fe_dec env (fe_enc env a) = Some a" and b: "b \<noteq> META_DIR"
    and r: "fs_store env st b key ct bytes = (r, st')"
  shows "fs_inv env st'"
    and "\<not> in_meta x \<Longrightarrow> fs_object_path b key \<noteq> Inr x \<Longrightarrow> files st' x = files st x"
    and "r = Inr etag \<Longrightarrow> etag = fe_etag env bytes \<and> (\<exists>p f. fs_object_path b key = Inr p \<and> files st' p = Some f \<and> fi_bytes f = bytes
      \<and> fi_modified f = fst_now st \<and> meta_load env (fst_tree st') b key = Some (attrs_new etag ct f))"
proof -
  obtain r1 st1 where s: "store_object st b key bytes = (r1, st1)" by fastforce
  note eff = store_object_effect[OF s]
  have inv1: "fs_inv env st1" by (rule store_object_inv[OF inv b s])
  have "fs_inv env st' \<and> (\<not> in_meta x \<longrightarrow> fs_object_path b key \<noteq> Inr x \<longrightarrow> files st' x = files st x) \<and>
    (r = Inr etag \<longrightarrow> etag = fe_etag env bytes \<and> (\<exists>p f. fs_object_path b key = Inr p \<and> files st' p = Some f \<and> fi_bytes f = bytes
      \<and> fi_modified f = fst_now st \<and> meta_load env (fst_tree st') b key = Some (attrs_new etag ct f)))"
  proof (cases r1)
    case (Inl e)
    then show ?thesis using r s eff inv1 by (auto simp: fs_store_def)
  next
    case (Inr f)
    then obtain p where p: "fs_object_path b key = Inr p" "files st1 = (files st)(p \<mapsto> f)" "fi_bytes f = bytes" "fi_modified f = fst_now st"
      using eff by auto
    let ?a = "attrs_new (fe_etag env bytes) ct f"
    obtain r2 where w: "meta_write env st1 b key ?a = (r2, st')" using r s Inr
      by (cases "meta_write env st1 b key ?a"; cases "fst (meta_write env st1 b key ?a)") (auto simp: fs_store_def)
    have r2: "r = Inr etag \<Longrightarrow> etag = fe_etag env bytes \<and> r2 = Inr ()" using r s Inr w by (cases r2) (auto simp: fs_store_def)
    have inv2: "fs_inv env st'" using meta_write_inv[OF inv1 codec b p(1), of f ct] w p(2,3) by simp
    have k: "kept st1 st'" using meta_write_kept[of st1 env b key ?a] w by simp
    have load: "meta_load env (fst_tree st') b key = Some ?a" if "r2 = Inr ()"
      using meta_write_effect[OF w] that codec by (auto simp: meta_load_file)
    show ?thesis
      using inv2 k p r2 load in_meta_simps(2)[OF p(1) b] by (auto simp: kept_def)
  qed
  then show "fs_inv env st'" "\<not> in_meta x \<Longrightarrow> fs_object_path b key \<noteq> Inr x \<Longrightarrow> files st' x = files st x"
    "r = Inr etag \<Longrightarrow> etag = fe_etag env bytes \<and> (\<exists>p f. fs_object_path b key = Inr p \<and> files st' p = Some f \<and> fi_bytes f = bytes
      \<and> fi_modified f = fst_now st \<and> meta_load env (fst_tree st') b key = Some (attrs_new etag ct f))"
    by blast+
qed

lemma fs_bucket_plain: "fs_bucket env kb \<noteq> META_DIR"
  by (simp add: fs_bucket_def bucket_name_not_reserved)

lemma fs_inv_files: "fs_inv env st \<Longrightarrow> file_at t = files st \<Longrightarrow> fs_inv env (st\<lparr>fst_tree := t\<rparr>)"
  by (simp add: fs_inv_def)

lemma fs_inv_without: "fs_inv env st \<Longrightarrow> file_at t = (files st)(p := None) \<Longrightarrow> fs_inv env (st\<lparr>fst_tree := t\<rparr>)"
  by (rule fs_inv_fewer[of env st]) (auto split: if_splits)

lemma meta_remove_inv:
  assumes "fs_inv env st"
  shows "fs_inv env (snd (meta_remove st b key))"
proof (cases "sidecar_path b key")
  case (Inr q)
  then have q: "q \<noteq> []" by (auto simp: sidecar_path_Inr_iff)
  show ?thesis
  proof (cases "fs_remove_file (fst_tree st) q")
    case (Inl e)
    then show ?thesis using assms Inr by (simp add: meta_remove_def Let_def file_at_prune fs_inv_files)
  next
    case rm: (Inr t)
    then show ?thesis using assms Inr file_at_remove_file[OF rm q] by (simp add: meta_remove_def Let_def file_at_prune fs_inv_without)
  qed
qed (use assms in \<open>simp add: meta_remove_def\<close>)

section \<open>Every operation keeps the invariant\<close>

text \<open>What an operation is made of, as rules for the state it leaves.\<close>

lemma inv_steps:
  assumes codec: "\<And>a. fe_dec env (fe_enc env a) = Some a" and inv: "fs_inv env st" and b: "b \<noteq> META_DIR"
  shows "fs_inv env (snd (fs_resolve env st b key))" "fs_inv env (snd (fs_describe env st b key))"
    "fs_inv env (snd (fs_current env st b key))" "fs_inv env (snd (fs_store env st b key ct bytes))"
  using fs_resolve_ok[OF inv codec b] fs_describe_ok[OF inv codec b] fs_current_ok[OF inv codec b] fs_store_ok(1)[OF inv codec b]
  by (metis prod.collapse)+

lemma fs_head_inv:
  assumes codec: "\<And>a. fe_dec env (fe_enc env a) = Some a" and inv: "fs_inv env st"
  shows "fs_inv env (snd (fs_head_object env st kb path c))"
  unfolding fs_head_object_def Let_def
  by (intro io_bind_inv[where P = "fs_inv env"]) (auto simp: inv inv_steps[OF codec] fs_bucket_plain intro!: io_bind_inv[where P = "fs_inv env"])

lemma fs_get_inv:
  assumes codec: "\<And>a. fe_dec env (fe_enc env a) = Some a" and inv: "fs_inv env st"
  shows "fs_inv env (snd (fs_get_object env st kb path rg c))" "fs_inv env (snd (fs_get_object_stream env st kb path rg c))"
  unfolding fs_get_object_def fs_get_object_stream_def Let_def
  by (intro io_bind_inv[where P = "fs_inv env"]; auto simp: inv inv_steps[OF codec] fs_bucket_plain intro!: io_bind_inv[where P = "fs_inv env"])+

lemma fs_put_inv:
  assumes codec: "\<And>a. fe_dec env (fe_enc env a) = Some a" and inv: "fs_inv env st"
  shows "fs_inv env (snd (fs_put_object env st kb path bytes ct c))" "fs_inv env (snd (fs_put_staged_object env st kb path body ct c))"
  unfolding fs_put_object_def fs_put_staged_object_def Let_def
  by (intro io_bind_inv[where P = "fs_inv env"]; simp add: inv inv_steps[OF codec] fs_bucket_plain)+

lemma fs_copy_inv:
  assumes codec: "\<And>a. fe_dec env (fe_enc env a) = Some a" and inv: "fs_inv env st"
  shows "fs_inv env (snd (fs_copy_object env st kb src dst opts))"
  unfolding fs_copy_object_def Let_def
  by (intro io_bind_inv[where P = "fs_inv env"])
    (auto simp: inv inv_steps[OF codec] fs_bucket_plain split: option.splits intro!: io_bind_inv[where P = "fs_inv env"])

lemma fs_write_manifest_inv:
  assumes codec: "\<And>a. fe_dec env (fe_enc env a) = Some a" and inv: "fs_inv env st"
  shows "fs_inv env (snd (fs_write_manifest env st kb m))"
  unfolding fs_write_manifest_def Let_def
  by (intro io_bind_inv[where P = "fs_inv env"]) (auto simp: inv inv_steps[OF codec] fs_bucket_plain)

lemma fs_ensure_bucket_inv: "fs_inv env st \<Longrightarrow> fs_inv env (snd (fs_ensure_bucket env st kb))"
  unfolding fs_ensure_bucket_def Let_def snd_io_err
  by (intro io_bind_inv[where P = "fs_inv env"])
    (auto split: prod.splits intro!: fs_inv_files file_at_grown dest: fs_create_dir_all_grown)

lemma fs_object_path_nonempty: "fs_object_path b key = Inr p \<Longrightarrow> p \<noteq> []"
  by (auto simp: fs_object_path_Inr_iff)

lemma fs_delete_inv:
  assumes codec: "\<And>a. fe_dec env (fe_enc env a) = Some a" and inv: "fs_inv env st"
  shows "fs_inv env (snd (fs_delete_object env st kb path c))"
proof -
  have tail: "fs_inv env (snd (case fs_remove_file (fst_tree st1) p of
        Inl e \<Rightarrow> if e = Io_NotFound then (Inr Delete_NotFound, st1) else (Inl (err_object key e), st1)
      | Inr t \<Rightarrow> io_bind (meta_remove (st1\<lparr>fst_tree := t\<rparr>) b key) (\<lambda>_ st.
          (Inr Deleted, st\<lparr>fst_tree := prune_empty_dirs (fst_tree st) (butlast p) d\<rparr>))))"
    if "fs_inv env st1" "p \<noteq> []" for st1 p b key d
  proof (cases "fs_remove_file (fst_tree st1) p")
    case (Inr t)
    then have "fs_inv env (st1\<lparr>fst_tree := t\<rparr>)" using fs_inv_without[OF that(1)] file_at_remove_file[OF Inr that(2)] by blast
    then show ?thesis using Inr
      by (auto intro!: io_bind_inv[where P = "fs_inv env"] meta_remove_inv fs_inv_files simp: file_at_prune)
  qed (use that in simp)
  show ?thesis
    unfolding fs_delete_object_def Let_def
    by (intro io_bind_inv[where P = "fs_inv env"])
      (auto simp: inv inv_steps[OF codec] fs_bucket_plain split: option.splits
        intro!: io_bind_inv[where P = "fs_inv env"] tail dest: fs_object_path_nonempty)
qed

lemma etag_loop_ok:
  "(\<And>a. fe_dec env (fe_enc env a) = Some a) \<Longrightarrow> b \<noteq> META_DIR \<Longrightarrow> fs_inv env st \<Longrightarrow> etag_loop env t b pre walk acc st = (xs, st') \<Longrightarrow>
     fs_inv env st' \<and> kept st st'
     \<and> (\<forall>x\<in>set xs. x \<in> set acc \<or> (\<exists>p f. fs_object_path b (fst x) = Inr p \<and> files st p = Some f \<and> snd x = fe_etag env (fi_bytes f)))"
proof (induction env t b pre walk acc st arbitrary: xs st' rule: etag_loop.induct)
  case (1 env t b pre walk acc st)
  note codec = 1(3) and b = 1(4) and inv = 1(5) and loop = 1(6)
  obtain r walk' where nx: "next_match t (fs_bucket_dir b) None pre walk = (r, walk')" by fastforce
  show ?case
  proof (cases r)
    case None
    then show ?thesis using loop nx inv by (simp add: etag_loop.simps[of env t b pre walk acc st])
  next
    case (Some entry)
    obtain d st1 where d: "fs_describe env st b (fo_key entry) = (d, st1)" by fastforce
    note ok = fs_describe_ok[OF inv codec b d]
    have was: "files st p = Some f" if "kept st st1" "fs_object_path b k = Inr p" "files st1 p = Some f" for p f k
      using that in_meta_simps(2)[OF that(2) b] by (simp add: kept_def)
    show ?thesis
    proof (cases d)
      case (Inl e)
      then have "etag_loop env t b pre walk' acc st1 = (xs, st')"
        using loop nx Some d by (simp add: etag_loop.simps[of env t b pre walk acc st])
      from 1(1)[OF nx[symmetric] Some d[symmetric] Inl codec b _ this] ok show ?thesis
        using Inl by simp
    next
      case (Inr x)
      obtain f a where x: "x = (f, a)" by fastforce
      have rest: "etag_loop env t b pre walk' (acc @ [(fo_key entry, ao_etag a)]) st1 = (xs, st')"
        using loop nx Some d Inr x by (simp add: etag_loop.simps[of env t b pre walk acc st])
      have inv1: "fs_inv env st1" and k1: "kept st st1" and e: "\<exists>p. fs_object_path b (fo_key entry) = Inr p \<and> files st p = Some f" "ao_etag a = fe_etag env (fi_bytes f)"
        using ok Inr x by auto
      note ih = 1(2)[OF nx[symmetric] Some d[symmetric] Inr x[symmetric] codec b inv1 rest]
      show ?thesis
      proof (intro conjI ballI)
        show "fs_inv env st'" "kept st st'" using ih kept_trans[OF k1] by auto
        fix y
        assume "y \<in> set xs"
        then consider "y \<in> set acc" | "y = (fo_key entry, ao_etag a)"
          | p g where "fs_object_path b (fst y) = Inr p" "files st1 p = Some g" "snd y = fe_etag env (fi_bytes g)"
          using ih by fastforce
        then show "y \<in> set acc \<or> (\<exists>p f. fs_object_path b (fst y) = Inr p \<and> files st p = Some f \<and> snd y = fe_etag env (fi_bytes f))"
          using e was[OF k1] by cases auto
      qed
    qed
  qed
qed

section \<open>Reachable states\<close>

text \<open>
  Somebody else changes the tree, and time passes.  The records are left alone, and what is changed is
  changed in size, time or inode as well.
\<close>

definition external_edit :: "fs_env \<Rightarrow> fs_state \<Rightarrow> fs_state \<Rightarrow> bool" where
  "external_edit env st st' \<longleftrightarrow>
     (\<forall>q. in_meta q \<longrightarrow> files st' q = files st q)
     \<and> (\<forall>b key p f a. fs_object_path b key = Inr p \<and> files st' p = Some f \<and> files st p \<noteq> Some f
          \<and> meta_load env (fst_tree st) b key = Some a \<longrightarrow> \<not> is_fresh_for a f)
     \<and> clock_ok env (files st') (fst_now st') (fst_ino st')"

inductive fs_reach :: "fs_env \<Rightarrow> fs_state \<Rightarrow> bool" for env where
  adopt: "(\<And>b key. meta_load env (fst_tree st) b key = None) \<Longrightarrow> clock_ok env (files st) (fst_now st) (fst_ino st) \<Longrightarrow> fs_reach env st"
| edit: "fs_reach env st \<Longrightarrow> external_edit env st st' \<Longrightarrow> fs_reach env st'"
| ensure: "fs_reach env st \<Longrightarrow> fs_reach env (snd (fs_ensure_bucket env st kb))"
| manifest: "fs_reach env st \<Longrightarrow> fs_reach env (snd (fs_write_manifest env st kb m))"
| head: "fs_reach env st \<Longrightarrow> fs_reach env (snd (fs_head_object env st kb path c))"
| get: "fs_reach env st \<Longrightarrow> fs_reach env (snd (fs_get_object env st kb path rg c))"
| stream: "fs_reach env st \<Longrightarrow> fs_reach env (snd (fs_get_object_stream env st kb path rg c))"
| put: "fs_reach env st \<Longrightarrow> fs_reach env (snd (fs_put_object env st kb path bytes ct c))"
| put_staged: "fs_reach env st \<Longrightarrow> fs_reach env (snd (fs_put_staged_object env st kb path body ct c))"
| copy: "fs_reach env st \<Longrightarrow> fs_reach env (snd (fs_copy_object env st kb path dst opts))"
| delete: "fs_reach env st \<Longrightarrow> fs_reach env (snd (fs_delete_object env st kb path c))"
| walk: "fs_reach env st \<Longrightarrow> fs_reach env (snd (fs_walk_etags env st kb pre))"
| crash_in_store: "fs_reach env st \<Longrightarrow> fs_reach env (snd (store_object st (fs_bucket env kb) key bytes))"
| crash_in_delete: "fs_reach env st \<Longrightarrow> fs_object_path (fs_bucket env kb) key = Inr p \<Longrightarrow> fs_remove_file (fst_tree st) p = Inr t
    \<Longrightarrow> fs_reach env (st\<lparr>fst_tree := t\<rparr>)"

lemma external_edit_inv:
  assumes "fs_inv env st" "external_edit env st st'"
  shows "fs_inv env st'"
proof -
  have "fresh_ok env (files st')"
    unfolding fresh_ok_def
  proof (intro allI impI, elim conjE)
    fix b key p q f g a
    assume h: "b \<noteq> META_DIR" "fs_object_path b key = Inr p" "sidecar_path b key = Inr q" "files st' p = Some f"
      "files st' q = Some g" "fe_dec env (fi_bytes g) = Some a" "is_fresh_for a f"
    have q: "files st q = Some g" using assms(2) h(3,5) in_meta_simps(1) unfolding external_edit_def by metis
    then have "meta_load env (fst_tree st) b key = Some a" using h(3,6) by (auto simp: meta_load_file)
    then have "files st p = Some f" using assms(2) h(2,4,7) unfolding external_edit_def by blast
    then show "ao_etag a = fe_etag env (fi_bytes f)" using assms(1) h q unfolding fs_inv_def fresh_ok_def by blast
  qed
  then show ?thesis using assms(2) by (simp add: fs_inv_def external_edit_def)
qed

lemma fs_reach_inv:
  assumes codec: "\<And>a. fe_dec env (fe_enc env a) = Some a"
  shows "fs_reach env st \<Longrightarrow> fs_inv env st"
proof (induction rule: fs_reach.induct)
  case (adopt st)
  have "fresh_ok env (files st)" unfolding fresh_ok_def using adopt(1) meta_load_file by (metis option.distinct(1))
  then show ?case using adopt(2) by (simp add: fs_inv_def)
next
  case (edit st st')
  then show ?case using external_edit_inv by blast
next
  case (walk st kb pre)
  then show ?case using etag_loop_ok[OF codec fs_bucket_plain] unfolding fs_walk_etags_def Let_def by (metis prod.collapse)
next
  case (crash_in_store st kb key bytes)
  then show ?case using store_object_inv[OF _ fs_bucket_plain] by (metis prod.collapse)
next
  case (crash_in_delete st kb key p t)
  then show ?case using file_at_remove_file fs_object_path_nonempty fs_inv_without by metis
qed (rule fs_ensure_bucket_inv fs_write_manifest_inv[OF codec] fs_head_inv[OF codec] fs_get_inv[OF codec] fs_put_inv[OF codec]
    fs_copy_inv[OF codec] fs_delete_inv[OF codec], assumption)+

section \<open>Properties\<close>

lemma unat_file_len: "length (fi_bytes f) < 2 ^ 64 \<Longrightarrow> unat (file_len f) = length (fi_bytes f)"
  by (simp add: file_len_def unat_of_nat take_bit_nat_eq_self)

lemma read_whole: "length (fi_bytes f) < 2 ^ 64 \<Longrightarrow> resolve_slice f None = Inr (s, n, cr) \<Longrightarrow> read_slice f s n = fi_bytes f \<and> cr = None"
  by (auto simp: resolve_slice_def resolve_range_def read_slice_def unat_file_len)

text \<open>
  C12: The filesystem backend never serves a stale tag.  In every state reached by requests, by crashes between
  the renames of a write or a delete, and by edits made outside the server, a read reports the tag of the
  bytes the file holds now, and a whole read returns those bytes; a head and the walk that feeds
  reconciliation report the tag of what the file holds too.
\<close>

theorem fs_etag_never_stale:
  assumes "fs_reach env st" "\<And>a. fe_dec env (fe_enc env a) = Some a"
  shows "(\<forall>kb path rg c r st'. fs_get_object env st kb path rg c = (Inr r, st') \<longrightarrow>
      (\<exists>p f. fs_object_path (fs_bucket env kb) (path_str path) = Inr p \<and> files st p = Some f
        \<and> om_etag (or_meta r) = Some (fe_etag env (fi_bytes f))
        \<and> (rg = None \<and> length (fi_bytes f) < 2 ^ 64 \<longrightarrow> or_bytes r = fi_bytes f)))
    \<and> (\<forall>kb path c m st'. fs_head_object env st kb path c = (Inr m, st') \<longrightarrow>
      (\<exists>p f. fs_object_path (fs_bucket env kb) (path_str path) = Inr p \<and> files st p = Some f
        \<and> om_etag m = Some (fe_etag env (fi_bytes f)) \<and> om_size m = file_len f))
    \<and> (\<forall>kb pre xs st'. fs_walk_etags env st kb pre = (xs, st') \<longrightarrow>
      (\<forall>(key, etag)\<in>set xs. \<exists>p f. fs_object_path (fs_bucket env kb) key = Inr p \<and> files st p = Some f \<and> etag = fe_etag env (fi_bytes f)))"
proof -
  have inv: "fs_inv env st" using fs_reach_inv assms by blast
  show ?thesis
  proof (intro conjI allI impI)
    fix kb path rg c r st'
    assume "fs_get_object env st kb path rg c = (Inr r, st')"
    then obtain f a st1 s n cr where g: "fs_resolve env st (fs_bucket env kb) (path_str path) = (Inr (f, a), st1)"
      "resolve_slice f rg = Inr (s, n, cr)" "or_bytes r = read_slice f s n" "om_etag (or_meta r) = Some (ao_etag a)"
      by (auto simp: fs_get_object_def Let_def io_bind_Inr_iff fs_object_meta_def)
    then show "\<exists>p f. fs_object_path (fs_bucket env kb) (path_str path) = Inr p \<and> files st p = Some f
        \<and> om_etag (or_meta r) = Some (fe_etag env (fi_bytes f)) \<and> (rg = None \<and> length (fi_bytes f) < 2 ^ 64 \<longrightarrow> or_bytes r = fi_bytes f)"
      using fs_resolve_ok[OF inv assms(2) fs_bucket_plain g(1)] read_whole by auto
  next
    fix kb path c m st'
    assume "fs_head_object env st kb path c = (Inr m, st')"
    then obtain f a st1 where g: "fs_describe env st (fs_bucket env kb) (path_str path) = (Inr (f, a), st1)"
      "m = fs_object_meta (path_str path) (file_len f) f a"
      by (auto simp: fs_head_object_def Let_def io_bind_Inr_iff)
    then show "\<exists>p f. fs_object_path (fs_bucket env kb) (path_str path) = Inr p \<and> files st p = Some f
        \<and> om_etag m = Some (fe_etag env (fi_bytes f)) \<and> om_size m = file_len f"
      using fs_describe_ok[OF inv assms(2) fs_bucket_plain g(1)] by (auto simp: fs_object_meta_def)
  next
    fix kb pre xs st'
    assume "fs_walk_etags env st kb pre = (xs, st')"
    then show "\<forall>(key, etag)\<in>set xs. \<exists>p f. fs_object_path (fs_bucket env kb) key = Inr p \<and> files st p = Some f \<and> etag = fe_etag env (fi_bytes f)"
      using etag_loop_ok[OF assms(2) fs_bucket_plain inv] by (fastforce simp: fs_walk_etags_def Let_def)
  qed
qed

lemma object_bucket_dir:
  assumes "fs_object_path b key = Inr p" "files st p = Some f"
  shows "is_dir_at (fst_tree st) (fs_bucket_dir b)"
proof -
  obtain seg segs where "split_on CHR ''/'' key = seg # segs" using split_on_not_Nil by (meson neq_Nil_conv)
  then have "entry_at (fst_tree st) ([b] @ seg # segs) \<noteq> None" using assms by (simp add: fs_object_path_Inr_iff file_at_entry)
  then show ?thesis using entry_at_below[of "fst_tree st" "[b]" seg segs] by (simp add: is_dir_at_entry fs_bucket_dir_def)
qed

lemma fs_put_Inr:
  assumes inv: "fs_inv env st" and codec: "\<And>a. fe_dec env (fe_enc env a) = Some a"
    and put: "fs_put_object env st kb path bytes ct c = (Inr out, st')"
  obtains p f where "fs_object_path (fs_bucket env kb) (path_str path) = Inr p" "files st' p = Some f" "fi_bytes f = bytes"
    "meta_load env (fst_tree st') (fs_bucket env kb) (path_str path) = Some (attrs_new (fe_etag env bytes) ct f)"
    "po_etag out = Some (fe_etag env bytes)" "po_created out \<longleftrightarrow> files st p = None"
    "\<And>x. \<not> in_meta x \<Longrightarrow> x \<noteq> p \<Longrightarrow> files st' x = files st x"
    "evaluate_write_preconditions (map_option (\<lambda>f. \<lparr>os_etag = fe_etag env (fi_bytes f), os_last_modified = fi_modified f\<rparr>) (files st p)) c = Inr ()"
proof -
  let ?b = "fs_bucket env kb" and ?k = "path_str path"
  obtain cur st1 etag where g: "fs_current env st ?b ?k = (Inr cur, st1)" "evaluate_write_preconditions (map_option fs_object_state cur) c = Inr ()"
    "fs_store env st1 ?b ?k ct bytes = (Inr etag, st')" "out = \<lparr>po_etag = Some etag, po_created = (cur = None)\<rparr>"
    using put by (auto simp: fs_put_object_def Let_def io_bind_Inr_iff)
  note cur = fs_current_ok[OF inv codec fs_bucket_plain g(1)]
  then have inv1: "fs_inv env st1" and k1: "kept st st1" by auto
  note stored = fs_store_ok[OF inv1 codec fs_bucket_plain g(3)]
  obtain p f where p: "fs_object_path ?b ?k = Inr p" "files st' p = Some f" "fi_bytes f = bytes" "etag = fe_etag env bytes"
    "meta_load env (fst_tree st') ?b ?k = Some (attrs_new etag ct f)"
    using stored(3)[OF refl] by blast
  have now: "files st p = map_option fst cur"
    using cur p(1) by (cases cur) auto
  moreover have "map_option fs_object_state cur = map_option (\<lambda>f. \<lparr>os_etag = fe_etag env (fi_bytes f), os_last_modified = fi_modified f\<rparr>) (files st p)"
    using cur now by (cases cur) (auto simp: fs_object_state_def)
  moreover have "files st' x = files st x" if "\<not> in_meta x" "x \<noteq> p" for x
    using stored(2)[of x] that k1 p(1) by (auto simp: kept_def)
  ultimately show ?thesis using that[OF p(1-3)] p(4,5) g(2,4) by (cases cur) auto
qed

lemma get_after_put:
  assumes inv: "fs_inv env st" and "\<And>a. fe_dec env (fe_enc env a) = Some a" "length bytes < 2 ^ 64"
    and "fs_put_object env st kb path bytes ct c = (Inr out, st')"
  shows "\<exists>m. fs_get_object env st' kb path None no_conditions = (Inr \<lparr>or_bytes = bytes, or_meta = m, or_content_range = None\<rparr>, st')
    \<and> om_etag m = po_etag out \<and> om_content_type m = ct"
proof (rule fs_put_Inr[OF inv assms(2,4)], goal_cases)
  case (1 p f)
  note p = this
  let ?a = "attrs_new (fe_etag env bytes) ct f"
  have dir: "is_dir_at (fst_tree st') (fs_bucket_dir (fs_bucket env kb))" by (rule object_bucket_dir[OF p(1,2)])
  have m: "meta_resolve env st' (fs_bucket env kb) (path_str path) f = (?a, st')"
    using p(4) fresh_attrs[of "fe_etag env bytes" ct f] by (simp add: meta_resolve_def)
  have r: "resolve_slice f None = Inr (0, file_len f, None)" by (simp add: resolve_slice_def resolve_range_def)
  have "fs_get_object env st' kb path None no_conditions =
      (Inr \<lparr>or_bytes = bytes, or_meta = fs_object_meta (path_str path) (of_nat (length bytes)) f ?a, or_content_range = None\<rparr>, st')"
    using read_whole[OF _ r] p(1-3) assms(3) dir m r
    by (simp add: fs_get_object_def fs_resolve_def fs_require_bucket_Inr_iff[THEN iffD2] fs_open_file[THEN iffD2])
  moreover have "ao_content_type ?a = ct" "ao_etag ?a = fe_etag env bytes" by (simp_all add: attrs_new_def split: prod.splits)
  ultimately show ?thesis using p(5) by (auto simp: fs_object_meta_def)
qed


text \<open>When the directories are there, a write goes through up to a directory in its place.\<close>

lemma stage_in_existing: "is_dir_at (fst_tree st) dir \<Longrightarrow> stage_in st dir = (Inr (), st)"
proof -
  assume d: "is_dir_at (fst_tree st) dir"
  then have e: "entry_at (fst_tree st) dir = Some E_Dir" by (simp add: is_dir_at_entry)
  have "\<exists>e. fs_mkdir (fst_tree st) dir = Inl e \<and> e \<noteq> Io_NotFound"
  proof (cases "dir = []")
    case False
    have "entry_at (fst_tree st) (butlast dir) = Some E_Dir" using entry_at_below[of "fst_tree st" "butlast dir" "last dir" "[]"] e False by simp
    then obtain es where es: "parent_entries (fst_tree st) dir = Inr es" by (auto simp: parent_entries_Inr_iff is_dir_at_entry[symmetric] walk_to_dir)
    then have "map_of es (last dir) \<noteq> None" using parent_entries_last[OF False es] e by (auto simp: entry_at_def)
    then show ?thesis using False es by (simp add: fs_mkdir_def)
  qed (simp add: fs_mkdir_def)
  then have mk: "fs_create_dir_all (fst_tree st) dir = (Inr (), fst_tree st)"
    using d by (subst fs_create_dir_all.simps) (auto split: io_kind.splits)
  have "temp_in (fst_tree st) dir = Inr ()" using d by (auto simp: temp_in_def walk_to_dir)
  then show ?thesis using mk by (simp add: stage_in_def stage_attempts.simps)
qed

lemma commit_finish_existing:
  assumes "is_dir_at (fst_tree st) (butlast p)" "p \<noteq> []"
  shows "commit_finish st bytes p =
    (if is_dir_at (fst_tree st) p then (Inl Io_IsADirectory, st\<lparr>fst_ino := Suc (fst_ino st)\<rparr>)
     else let f = \<lparr>fi_bytes = bytes, fi_modified = fst_now st, fi_ino = fst_ino st\<rparr> in
       (Inr f, st\<lparr>fst_ino := Suc (fst_ino st), fst_tree := set_at (fst_tree st) p (Reg f)\<rparr>))"
proof -
  obtain es where es: "parent_entries (fst_tree st) p = Inr es" using assms(1) by (auto simp: parent_entries_Inr_iff walk_to_dir)
  have "(case map_of es (last p) of None \<Rightarrow> False | Some n \<Rightarrow> is_dir_node n) \<longleftrightarrow> is_dir_at (fst_tree st) p"
    using parent_entries_last[OF assms(2) es] by (auto simp: is_dir_at_def is_dir_node_iff split: option.splits)
  then show ?thesis using es assms(2) by (simp add: commit_finish_def fs_rename_over_def Let_def)
qed

lemma fs_current_missing:
  assumes "fs_object_path b key = Inr p" "is_dir_at (fst_tree st) (butlast p)" "entry_at (fst_tree st) p = None"
  shows "fs_current env st b key = (Inr None, st)"
proof -
  have p: "p \<noteq> []" by (rule fs_object_path_nonempty[OF assms(1)])
  obtain es where es: "walk_to (fst_tree st) (butlast p) = Inr (Dir es)" using assms(2) by (auto simp: walk_to_dir)
  have "map_of es (last p) = None"
    using parent_entries_last[OF p, of "fst_tree st" es] es assms(3) by (simp add: parent_entries_Inr_iff entry_at_def)
  then have "walk_to (fst_tree st) (butlast p @ [last p]) = Inl Io_NotFound" by (simp add: walk_to_append es del: append_butlast_last_id)
  then show ?thesis using assms(1) p by (simp add: fs_current_def fs_describe_def fs_stat_def)
qed

lemma put_new_object:
  assumes path: "fs_object_path (fs_bucket env kb) (path_str path) = Inr p" "sidecar_path (fs_bucket env kb) (path_str path) = Inr q"
    and dirs: "is_dir_at (fst_tree st) (butlast p)" "entry_at (fst_tree st) p = None" "is_dir_at (fst_tree st) (butlast q)"
    and cond: "evaluate_write_preconditions None c = Inr ()"
  shows "\<exists>r st' f. fs_put_object env st kb path bytes ct c = (r, st') \<and> files st' p = Some f \<and> fi_bytes f = bytes
    \<and> (if is_dir_at (fst_tree st) q then r = Inl (SE_BackendUnavailable ''Is a directory (os error 21)'')
       else r = Inr \<lparr>po_etag = Some (fe_etag env bytes), po_created = True\<rparr>)"
proof -
  let ?b = "fs_bucket env kb" and ?k = "path_str path"
  have ne: "p \<noteq> []" "q \<noteq> []" using path by (auto simp: fs_object_path_Inr_iff sidecar_path_Inr_iff)
  have nd: "\<not> is_dir_at (fst_tree st) p" using dirs(2) by (simp add: is_dir_at_entry)
  let ?f = "\<lparr>fi_bytes = bytes, fi_modified = fst_now st, fi_ino = fst_ino st\<rparr>"
  let ?st1 = "st\<lparr>fst_ino := Suc (fst_ino st), fst_tree := set_at (fst_tree st) p (Reg ?f)\<rparr>"
  have e1: "entry_at (fst_tree ?st1) = (entry_at (fst_tree st))(p \<mapsto> E_Reg ?f)"
    using entry_at_set_leaf[OF dirs(1) ne(1) nd, of "Reg ?f"] by simp
  have store: "store_object st ?b ?k bytes = (Inr ?f, ?st1)"
    using path(1) nd by (simp add: store_object_def stage_in_existing[OF dirs(1)] commit_finish_existing[OF dirs(1) ne(1)] Let_def)
  have pq: "\<not> in_meta p" "in_meta q" using in_meta_simps(1)[OF path(2)] in_meta_simps(2)[OF path(1) fs_bucket_plain] by auto
  have "in_meta (butlast q)" using path(2) by (auto simp: in_meta_def sidecar_path_Inr_iff)
  then have d1: "is_dir_at (fst_tree ?st1) (butlast q)" "is_dir_at (fst_tree ?st1) q = is_dir_at (fst_tree st) q"
    using dirs(3) pq e1 by (auto simp: is_dir_at_entry)
  have bucket: "fs_require_bucket (fst_tree st) ?b = Inr (fs_bucket_dir ?b)"
  proof -
    obtain seg segs where seg: "split_on CHR ''/'' ?k = seg # segs" using split_on_not_Nil by (meson neq_Nil_conv)
    then have "butlast p = [?b] @ butlast (seg # segs)" using path(1) by (auto simp: fs_object_path_Inr_iff)
    then have "entry_at (fst_tree st) [?b] = Some E_Dir"
      using dirs(1) entry_at_below[of "fst_tree st" "[?b]"] by (cases "butlast (seg # segs)") (auto simp: is_dir_at_entry)
    then show ?thesis by (simp add: fs_require_bucket_Inr_iff is_dir_at_entry fs_bucket_dir_def)
  qed
  obtain r st' where put: "fs_put_object env st kb path bytes ct c = (r, st')" by fastforce
  obtain r2 st2 where w: "meta_write env ?st1 ?b ?k (attrs_new (fe_etag env bytes) ct ?f) = (r2, st2)" by fastforce
  have res: "r2 = (if is_dir_at (fst_tree st) q then Inl (SE_BackendUnavailable ''Is a directory (os error 21)'') else Inr ())"
    using w path(2) d1(2)
    by (auto simp: meta_write_def replace_file_def stage_in_existing[OF d1(1)] commit_finish_existing[OF d1(1) ne(2)] Let_def err_backend_def split: if_splits)
  have k: "files st2 p = Some ?f"
    using meta_write_kept[of ?st1 env ?b ?k "attrs_new (fe_etag env bytes) ct ?f"] w pq(1) e1 by (simp add: kept_def file_at_entry)
  have "st' = st2 \<and> r = res_map (\<lambda>_. \<lparr>po_etag = Some (fe_etag env bytes), po_created = True\<rparr>) r2"
    using put bucket fs_current_missing[OF path(1) dirs(1,2)] cond store w
    by (cases r2) (auto simp: fs_put_object_def fs_store_def Let_def)
  then show ?thesis using put res k by auto
qed

text \<open>
  C37: A put of a new object into directories that exist succeeds, unless a directory has the name its record
  would take.  Then it fails as if the backend were unavailable, although the object has been stored: the
  object is renamed into place before the record is written.  Another object's directory takes that name:
  the record of \<^verbatim>\<open>a\<close> is \<^verbatim>\<open>a.ntmeta\<close>, the directory of the records below \<^verbatim>\<open>a.ntmeta/\<close>.
\<close>

theorem fs_put_new_object:
  assumes "fs_object_path (fs_bucket env kb) (path_str path) = Inr p" "sidecar_path (fs_bucket env kb) (path_str path) = Inr q"
    and "is_dir_at (fst_tree st) (butlast p)" "entry_at (fst_tree st) p = None" "is_dir_at (fst_tree st) (butlast q)"
    and "evaluate_write_preconditions None c = Inr ()"
  shows "\<exists>r st' f. fs_put_object env st kb path bytes ct c = (r, st') \<and> files st' p = Some f \<and> fi_bytes f = bytes
    \<and> (if is_dir_at (fst_tree st) q then r = Inl (SE_BackendUnavailable ''Is a directory (os error 21)'')
       else r = Inr \<lparr>po_etag = Some (fe_etag env bytes), po_created = True\<rparr>)"
  by (rule put_new_object[OF assms])

section \<open>Instances\<close>

text \<open>A codec of records, and a root with one empty knowledge base.\<close>

abbreviation unary :: "nat \<Rightarrow> string" where
  "unary n \<equiv> replicate n CHR ''x''"

definition pack_attrs :: "object_attrs \<Rightarrow> bytes" where
  "pack_attrs a =
     pack [unary (ao_v a), ao_etag a, pack_option (ao_content_type a), unary (unat (ao_size a)), unary (nat (ao_mtime_secs a)),
       unary (nat (- ao_mtime_secs a)), unary (ao_mtime_nanos a), pack_option (map_option unary (ao_ino a))]"

definition unpack_attrs :: "bytes \<Rightarrow> object_attrs option" where
  "unpack_attrs s =
     (case unpack 8 s of
        [v, etag, ct, size', secs, neg, nanos, ino] \<Rightarrow>
          Some \<lparr>ao_v = length v, ao_etag = etag, ao_content_type = unpack_option ct, ao_size = of_nat (length size'),
            ao_mtime_secs = int (length secs) - int (length neg), ao_mtime_nanos = length nanos,
            ao_ino = map_option length (unpack_option ino)\<rparr>
      | _ \<Rightarrow> None)"

lemma attrs_round_trip: "unpack_attrs (pack_attrs a) = Some a"
proof -
  have "unpack 8 (pack_attrs a) =
      [unary (ao_v a), ao_etag a, pack_option (ao_content_type a), unary (unat (ao_size a)), unary (nat (ao_mtime_secs a)),
       unary (nat (- ao_mtime_secs a)), unary (ao_mtime_nanos a), pack_option (map_option unary (ao_ino a))]"
    unfolding pack_attrs_def by (rule unpack_packed) simp
  moreover have "map_option length (map_option unary x) = x" for x by (cases x) simp_all
  ultimately show ?thesis by (simp add: unpack_attrs_def)
qed

definition sample_env :: fs_env where
  "sample_env =
     \<lparr>fe_tenant = TenantSlug ''default'', fe_etag = (\<lambda>b. b), fe_date = (\<lambda>_. Inl []), fe_enc = pack_attrs, fe_dec = unpack_attrs,
      fe_cursor_enc = pack_cursor, fe_cursor_dec = unpack_cursor, fe_manifest_enc = (\<lambda>_. Inl []), fe_manifest_dec = (\<lambda>_. Inl [])\<rparr>"

definition sample_state :: fs_state where
  "sample_state =
     \<lparr>fst_tree = Dir [(''nt-default-kb'', Dir []), (META_DIR, Dir [(''nt-default-kb'', Dir [(''a.ntmeta'', Dir [])])])],
      fst_now = 5, fst_ino = 1\<rparr>"

lemma sample_codec: "fe_dec sample_env (fe_enc sample_env a) = Some a"
  by (simp add: sample_env_def attrs_round_trip)

lemma sample_bucket: "fs_bucket sample_env (KbSlug ''kb'') = ''nt-default-kb''"
  by (simp add: sample_env_def fs_bucket_def fs_bucket_name_def derive_bucket_name_def BUCKET_NAME_PREFIX_def)

lemma sample_etag: "fe_etag sample_env b = b"
  by (simp add: sample_env_def)

lemma sample_no_files: "files sample_state p = None"
proof -
  have dirs: "\<exists>es. n = Dir es" if "node_at t p = Some n" "t = Dir [] \<or> (\<exists>s. t = Dir [(s, Dir [])]) \<or> (\<exists>s u. t = Dir [(s, Dir [(u, Dir [])])])" for n t p
    using that by (induction t p arbitrary: n rule: walk_to.induct) (auto simp: node_at_Dir split: if_splits)
  show ?thesis
    by (cases p) (auto simp: sample_state_def file_at_def node_at_Dir split: option.splits fs_node.splits if_splits dest!: dirs)
qed

lemma sample_reach: "fs_reach sample_env sample_state"
proof (rule fs_reach.adopt)
  show "meta_load sample_env (fst_tree sample_state) b key = None" for b key
    using meta_load_file[of sample_env "fst_tree sample_state" b key] by (cases "meta_load sample_env (fst_tree sample_state) b key") (auto simp: sample_no_files)
  show "clock_ok sample_env (files sample_state) (fst_now sample_state) (fst_ino sample_state)"
    by (simp add: clock_ok_def sample_no_files)
qed

lemma sample_paths:
  "fs_object_path ''nt-default-kb'' ''a'' = Inr [''nt-default-kb'', ''a'']"
  "sidecar_path ''nt-default-kb'' ''a'' = Inr [META_DIR, ''nt-default-kb'', ''a.ntmeta'']"
  "fs_object_path ''nt-default-kb'' ''b'' = Inr [''nt-default-kb'', ''b'']"
  "sidecar_path ''nt-default-kb'' ''b'' = Inr [META_DIR, ''nt-default-kb'', ''b.ntmeta'']"
  by (simp_all add: fs_object_path_Inr_iff sidecar_path_Inr_iff plain_segment_def MAX_SEGMENT_BYTES_def SIDECAR_SUFFIX_def TEMP_PREFIX_def)

lemma sample_dirs:
  "is_dir_at (fst_tree sample_state) [''nt-default-kb'']" "is_dir_at (fst_tree sample_state) [META_DIR, ''nt-default-kb'']"
  "is_dir_at (fst_tree sample_state) [META_DIR, ''nt-default-kb'', ''a.ntmeta'']"
  "\<not> is_dir_at (fst_tree sample_state) [META_DIR, ''nt-default-kb'', ''b.ntmeta'']"
  "entry_at (fst_tree sample_state) [''nt-default-kb'', ''a''] = None" "entry_at (fst_tree sample_state) [''nt-default-kb'', ''b''] = None"
  by (simp_all add: sample_state_def is_dir_at_def node_at_Dir entry_at_Dir META_DIR_def)

lemma no_conditions_write: "evaluate_write_preconditions None no_conditions = Inr ()"
  by (simp add: evaluate_write_preconditions_def no_conditions_def)

theorem fs_put_new_object_witness:
  "\<exists>st' f. fs_put_object sample_env sample_state (KbSlug ''kb'') (ObjectPath ''a'') ''body'' None no_conditions
       = (Inl (SE_BackendUnavailable ''Is a directory (os error 21)''), st')
     \<and> files st' [''nt-default-kb'', ''a''] = Some f \<and> fi_bytes f = ''body''"
  using fs_put_new_object[of sample_env "KbSlug ''kb''" "ObjectPath ''a''", OF _ _ _ _ _ no_conditions_write,
        where p = "[''nt-default-kb'', ''a'']" and q = "[META_DIR, ''nt-default-kb'', ''a.ntmeta'']" and st = sample_state and bytes = "''body''" and ct = None]
      sample_paths(1,2) sample_dirs by (auto simp: sample_bucket)

lemma sample_put:
  obtains st' where "fs_put_object sample_env sample_state (KbSlug ''kb'') (ObjectPath ''b'') ''body'' None no_conditions
    = (Inr \<lparr>po_etag = Some ''body'', po_created = True\<rparr>, st')"
  using put_new_object[of sample_env "KbSlug ''kb''" "ObjectPath ''b''", OF _ _ _ _ _ no_conditions_write,
      where p = "[''nt-default-kb'', ''b'']" and q = "[META_DIR, ''nt-default-kb'', ''b.ntmeta'']" and st = sample_state and bytes = "''body''" and ct = None]
    sample_paths(3,4) sample_dirs that by (auto simp: sample_bucket sample_etag)


theorem fs_etag_never_stale_witness:
  "\<exists>st' st2 r f. fs_get_object sample_env st' (KbSlug ''kb'') (ObjectPath ''b'') None no_conditions = (Inr r, st2)
     \<and> files st' [''nt-default-kb'', ''b''] = Some f \<and> om_etag (or_meta r) = Some (fi_bytes f)"
proof (rule sample_put)
  fix st'
  assume st': "fs_put_object sample_env sample_state (KbSlug ''kb'') (ObjectPath ''b'') ''body'' None no_conditions
    = (Inr \<lparr>po_etag = Some ''body'', po_created = True\<rparr>, st')"
  have reach: "fs_reach sample_env st'"
    using fs_reach.put[OF sample_reach, of "KbSlug ''kb''" "ObjectPath ''b''" "''body''" None no_conditions] st' by simp
  obtain m where get: "fs_get_object sample_env st' (KbSlug ''kb'') (ObjectPath ''b'') None no_conditions
      = (Inr \<lparr>or_bytes = ''body'', or_meta = m, or_content_range = None\<rparr>, st')"
    using get_after_put[OF fs_reach_inv[OF sample_codec sample_reach] sample_codec _ st'] by auto
  have "\<exists>p f. fs_object_path (fs_bucket sample_env (KbSlug ''kb'')) (path_str (ObjectPath ''b'')) = Inr p \<and> files st' p = Some f
      \<and> om_etag m = Some (fe_etag sample_env (fi_bytes f))"
    using conjunct1[OF fs_etag_never_stale[OF reach sample_codec]] get by (metis object_read.select_convs(2))
  then obtain f where "files st' [''nt-default-kb'', ''b''] = Some f" "om_etag m = Some (fi_bytes f)"
    using sample_paths(3) by (auto simp: sample_bucket sample_etag)
  then have "fs_get_object sample_env st' (KbSlug ''kb'') (ObjectPath ''b'') None no_conditions = (Inr \<lparr>or_bytes = ''body'', or_meta = m, or_content_range = None\<rparr>, st')
      \<and> files st' [''nt-default-kb'', ''b''] = Some f \<and> om_etag (or_meta \<lparr>or_bytes = ''body'', or_meta = m, or_content_range = None\<rparr>) = Some (fi_bytes f)"
    using get by simp
  then show ?thesis by blast
qed

end
