(* ===== verification/Reconcile.thy ===== *)
theory Reconcile
  imports Mem_Storage
begin

text \<open>
  Reconciliation of storage and search index (\<^verbatim>\<open>notedthat-core/src/reconcile.rs\<close>): the comparison with
  two cursors, and the paged walk of storage that feeds it.

  The comparison is related to the two sides read as finite maps; the walk is proved, in the
  \<open>paged_store\<close> contract, to return the whole listing, and to end although its loop has no bound.
\<close>

section \<open>Definitions\<close>

record indexed_etag =
  ie_key :: string
  ie_etag :: string

record reconcile_report =
  objects_on_disk :: nat
  unchanged :: nat
  changed :: nat
  orphaned :: nat

definition report_is_clean :: "reconcile_report \<Rightarrow> bool" where
  "report_is_clean r \<longleftrightarrow> changed r = 0 \<and> orphaned r = 0"

record reconciliation =
  rec_report :: reconcile_report
  rec_keys :: "object_path list"

definition actionable_path :: "string \<Rightarrow> object_path option" where
  "actionable_path key = (case try_from_str key of Inl _ \<Rightarrow> None | Inr path \<Rightarrow> Some path)"

definition key_is_reserved :: "string \<Rightarrow> bool" where
  "key_is_reserved key \<longleftrightarrow> key \<in> set RESERVED_KEYS"

type_synonym storage_entry = "string \<times> object_path \<times> string option"
type_synonym index_entry = "indexed_etag \<times> object_path"

definition compare_storage_side :: "(string \<times> string option) list \<Rightarrow> storage_entry list" where
  "compare_storage_side in_storage =
     filter (\<lambda>(key, _, _). \<not> key_is_reserved key)
       (List.map_filter (\<lambda>(key, etag). map_option (\<lambda>path. (key, path, etag)) (actionable_path key))
         (filter (\<lambda>(key, _). \<not> is_internal_path key) in_storage))"

definition compare_index_side :: "indexed_etag list \<Rightarrow> string option \<Rightarrow> index_entry list" where
  "compare_index_side indexed pre =
     List.map_filter (\<lambda>entry. map_option (\<lambda>path. (entry, path)) (actionable_path (ie_key entry)))
       (filter (\<lambda>entry. case pre of None \<Rightarrow> True | Some p \<Rightarrow> prefix p (ie_key entry)) indexed)"

fun compare_loop :: "storage_entry list \<Rightarrow> index_entry list \<Rightarrow> reconcile_report \<Rightarrow> object_path list
    \<Rightarrow> reconcile_report \<times> object_path list" where
  "compare_loop [] [] report keys = (report, keys)"
| "compare_loop ((key, path, etag) # storage) ((entry, indexed_path) # index) report keys =
     (if key = ie_key entry then
        (if etag = Some (ie_etag entry)
         then compare_loop storage index (report\<lparr>unchanged := unchanged report + 1\<rparr>) keys
         else compare_loop storage index (report\<lparr>changed := changed report + 1\<rparr>) (keys @ [path]))
      else if key < ie_key entry then
        compare_loop storage ((entry, indexed_path) # index) (report\<lparr>changed := changed report + 1\<rparr>) (keys @ [path])
      else
        compare_loop ((key, path, etag) # storage) index (report\<lparr>orphaned := orphaned report + 1\<rparr>) (keys @ [indexed_path]))"
| "compare_loop ((key, path, etag) # storage) [] report keys =
     compare_loop storage [] (report\<lparr>changed := changed report + 1\<rparr>) (keys @ [path])"
| "compare_loop [] ((entry, path) # index) report keys =
     compare_loop [] index (report\<lparr>orphaned := orphaned report + 1\<rparr>) (keys @ [path])"

definition compare :: "(string \<times> string option) list \<Rightarrow> indexed_etag list \<Rightarrow> string option \<Rightarrow> reconciliation" where
  "compare in_storage0 indexed0 pre =
     (let in_storage = compare_storage_side in_storage0;
          indexed = compare_index_side indexed0 pre;
          (report, keys) = compare_loop in_storage indexed
            \<lparr>objects_on_disk = length in_storage, unchanged = 0, changed = 0, orphaned = 0\<rparr> [] in
      \<lparr>rec_report = report, rec_keys = keys\<rparr>)"

definition WALK_PAGE :: nat where
  "WALK_PAGE = 1000"

datatype advance = Adv_Done | Adv_Next string

fun advance_page :: "bool \<Rightarrow> string option \<Rightarrow> string option \<Rightarrow> (storage_error, advance) result" where
  "advance_page False _ _ = Inr Adv_Done"
| "advance_page True None _ = Inl (SE_BackendUnavailable ''listing reported more pages but supplied no cursor'')"
| "advance_page True (Some nxt) sent =
     (if Some nxt = sent then Inl (SE_BackendUnavailable ''listing repeated the cursor it was given'')
      else Inr (Adv_Next nxt))"

text \<open>The walk's loop has no bound of its own: a listing that never ends makes it \<^const>\<open>None\<close>.\<close>

partial_function (option) walk_loop ::
    "(string option \<Rightarrow> (storage_error, list_response) result) \<Rightarrow> string option \<Rightarrow> (string \<times> string option) list
     \<Rightarrow> (storage_error, (string \<times> string option) list) result option" where
  [code]: "walk_loop list_page cursor out =
     (case list_page cursor of
        Inl e \<Rightarrow> Some (Inl e)
      | Inr listing \<Rightarrow>
          (case advance_page (lr_truncated listing) (lr_next_cursor listing) cursor of
             Inl e \<Rightarrow> Some (Inl e)
           | Inr Adv_Done \<Rightarrow> Some (Inr (out @ map (\<lambda>obj. (om_key obj, om_etag obj)) (lr_objects listing)))
           | Inr (Adv_Next nxt) \<Rightarrow>
               walk_loop list_page (Some nxt)
                 (out @ map (\<lambda>obj. (om_key obj, om_etag obj)) (lr_objects listing))))"

definition walk_etags_paged ::
    "'s storage_ops \<Rightarrow> 's \<Rightarrow> kb_slug \<Rightarrow> string option \<Rightarrow> nat
     \<Rightarrow> (storage_error, (string \<times> string option) list) result option" where
  "walk_etags_paged ops s kb pre page = walk_loop (\<lambda>cursor. op_list ops s kb pre page cursor) None []"

definition walk_etags ::
    "'s storage_ops \<Rightarrow> 's \<Rightarrow> kb_slug \<Rightarrow> string option
     \<Rightarrow> (storage_error, (string \<times> string option) list) result option" where
  "walk_etags ops s kb pre = walk_etags_paged ops s kb pre WALK_PAGE"

section \<open>The comparison against finite maps\<close>

abbreviation st_key :: "storage_entry \<Rightarrow> string" where "st_key e \<equiv> fst e"
abbreviation st_path :: "storage_entry \<Rightarrow> object_path" where "st_path e \<equiv> fst (snd e)"
abbreviation st_etag :: "storage_entry \<Rightarrow> string option" where "st_etag e \<equiv> snd (snd e)"
abbreviation ix_key :: "index_entry \<Rightarrow> string" where "ix_key e \<equiv> ie_key (fst e)"

definition index_map :: "index_entry list \<Rightarrow> string \<rightharpoonup> string" where
  "index_map ix = map_of (map (\<lambda>e. (ix_key e, ie_etag (fst e))) ix)"

definition up_to_date :: "index_entry list \<Rightarrow> storage_entry \<Rightarrow> bool" where
  "up_to_date ix e \<longleftrightarrow> (\<exists>t. st_etag e = Some t \<and> index_map ix (st_key e) = Some t)"

definition stale_entries :: "storage_entry list \<Rightarrow> index_entry list \<Rightarrow> storage_entry list" where
  "stale_entries st ix = filter (\<lambda>e. \<not> up_to_date ix e) st"

definition orphan_entries :: "storage_entry list \<Rightarrow> index_entry list \<Rightarrow> index_entry list" where
  "orphan_entries st ix = filter (\<lambda>e. ix_key e \<notin> st_key ` set st) ix"

lemma index_map_None_iff: "index_map ix k = None \<longleftrightarrow> k \<notin> ix_key ` set ix"
  by (auto simp: index_map_def map_of_eq_None_iff image_image)

lemma index_map_Cons [simp]:
  "index_map (e # ix) = (index_map ix)(ix_key e \<mapsto> ie_etag (fst e))"
  by (simp add: index_map_def)

lemma index_map_Nil [simp]: "index_map [] = Map.empty"
  by (simp add: index_map_def)

lemma up_to_date_skip:
  "st_key e \<noteq> ix_key i \<Longrightarrow> up_to_date (i # ix) e \<longleftrightarrow> up_to_date ix e"
  by (simp add: up_to_date_def)

lemma up_to_date_head:
  "st_key e = ix_key i \<Longrightarrow> up_to_date (i # ix) e \<longleftrightarrow> st_etag e = Some (ie_etag (fst i))"
  by (auto simp: up_to_date_def)

lemma stale_skip_index:
  "\<forall>e\<in>set st. ix_key i < st_key e \<Longrightarrow> stale_entries st (i # ix) = stale_entries st ix"
  unfolding stale_entries_def by (rule filter_cong) (auto simp: up_to_date_skip)

lemma orphan_skip_storage:
  "\<forall>i\<in>set ix. st_key e < ix_key i \<Longrightarrow> orphan_entries (e # st) ix = orphan_entries st ix"
  unfolding orphan_entries_def by (rule filter_cong) auto

text \<open>
  What a run of the loop adds to its report and its keys: so many unchanged, changed and orphaned
  objects, and one key per changed or orphaned object, those of the given set.
\<close>

definition loop_adds :: "reconcile_report \<Rightarrow> object_path list \<Rightarrow> reconcile_report \<times> object_path list
    \<Rightarrow> nat \<Rightarrow> nat \<Rightarrow> nat \<Rightarrow> object_path set \<Rightarrow> bool" where
  "loop_adds r ks out u c orph P \<longleftrightarrow>
     fst out = r\<lparr>unchanged := unchanged r + u, changed := changed r + c, orphaned := orphaned r + orph\<rparr>
     \<and> (\<exists>new. snd out = ks @ new \<and> length new = c + orph \<and> set new = P)"

lemma loop_adds_nothing: "loop_adds r ks (r, ks) 0 0 0 {}"
  by (simp add: loop_adds_def)

lemma loop_adds_unchanged:
  "loop_adds (r\<lparr>unchanged := unchanged r + 1\<rparr>) ks out u c orph P \<Longrightarrow> loop_adds r ks out (Suc u) c orph P"
  by (simp add: loop_adds_def)

lemma loop_adds_changed:
  assumes "loop_adds (r\<lparr>changed := changed r + 1\<rparr>) (ks @ [p]) out u c orph P"
  shows "loop_adds r ks out u (Suc c) orph (insert p P)"
proof -
  obtain new where "snd out = ks @ p # new" "length new = c + orph" "set new = P"
    using assms by (auto simp: loop_adds_def)
  then show ?thesis using assms by (auto simp: loop_adds_def intro!: exI[of _ "p # new"])
qed

lemma loop_adds_orphaned:
  assumes "loop_adds (r\<lparr>orphaned := orphaned r + 1\<rparr>) (ks @ [p]) out u c orph P"
  shows "loop_adds r ks out u c (Suc orph) (insert p P)"
proof -
  obtain new where "snd out = ks @ p # new" "length new = c + orph" "set new = P"
    using assms by (auto simp: loop_adds_def)
  then show ?thesis using assms by (auto simp: loop_adds_def intro!: exI[of _ "p # new"])
qed

definition reported_paths :: "storage_entry list \<Rightarrow> index_entry list \<Rightarrow> object_path set" where
  "reported_paths st ix = st_path ` set (stale_entries st ix) \<union> snd ` set (orphan_entries st ix)"

abbreviation loop_result :: "storage_entry list \<Rightarrow> index_entry list \<Rightarrow> reconcile_report \<Rightarrow> object_path list \<Rightarrow> bool" where
  "loop_result st ix r ks \<equiv>
     loop_adds r ks (compare_loop st ix r ks) (length (filter (up_to_date ix) st))
       (length (stale_entries st ix)) (length (orphan_entries st ix)) (reported_paths st ix)"

lemma filter_up_to_date_skip:
  "\<forall>e\<in>set st. ix_key i < st_key e \<Longrightarrow> filter (up_to_date (i # ix)) st = filter (up_to_date ix) st"
  by (rule filter_cong) (auto simp: up_to_date_skip)

lemma compare_loop_spec:
  assumes "key_sorted st_key st" "key_sorted ix_key ix"
  shows "loop_result st ix r ks"
  using assms
proof (induction st ix r ks rule: compare_loop.induct)
  case (2 key path etag st entry ipath ix r ks)
  let ?e = "(key, path, etag)" and ?i = "(entry, ipath)"
  have sts: "\<forall>e\<in>set st. key < st_key e" and ixs: "\<forall>i\<in>set ix. ie_key entry < ix_key i"
    and sorted: "key_sorted st_key st" "key_sorted ix_key ix"
    using 2(5,6) by auto
  show ?case
  proof (cases rule: linorder_cases[of key "ie_key entry"])
    case equal
    have skip: "stale_entries st (?i # ix) = stale_entries st ix"
      "filter (up_to_date (?i # ix)) st = filter (up_to_date ix) st"
      "orphan_entries (?e # st) ix = orphan_entries st ix"
      using sts ixs equal by (simp_all add: stale_skip_index filter_up_to_date_skip orphan_skip_storage)
    have orphans: "orphan_entries (?e # st) (?i # ix) = orphan_entries st ix"
      using skip(3) equal by (simp add: orphan_entries_def)
    have head: "up_to_date (?i # ix) ?e \<longleftrightarrow> etag = Some (ie_etag entry)"
      using equal by (simp add: up_to_date_head)
    show ?thesis
    proof (cases "etag = Some (ie_etag entry)")
      case True
      then have "loop_result st ix (r\<lparr>unchanged := unchanged r + 1\<rparr>) ks" using 2(1) equal sorted by simp
      from loop_adds_unchanged[OF this] show ?thesis
        using True head equal skip orphans by (simp add: reported_paths_def stale_entries_def)
    next
      case False
      then have "loop_result st ix (r\<lparr>changed := changed r + 1\<rparr>) (ks @ [path])" using 2(2) equal sorted by simp
      from loop_adds_changed[OF this] show ?thesis
        using False head equal skip orphans by (simp add: reported_paths_def stale_entries_def)
    qed
  next
    case less
    have step: "loop_result st (?i # ix) (r\<lparr>changed := changed r + 1\<rparr>) (ks @ [path])"
      using 2(3,6) less sorted by simp
    have orphans: "orphan_entries (?e # st) (?i # ix) = orphan_entries st (?i # ix)"
      using ixs less by (intro orphan_skip_storage) auto
    have head: "\<not> up_to_date (?i # ix) ?e"
    proof -
      have "key \<notin> ix_key ` set (?i # ix)" using ixs less by fastforce
      then show ?thesis using index_map_None_iff[of "?i # ix" key] by (auto simp: up_to_date_def)
    qed
    from loop_adds_changed[OF step] show ?thesis
      using orphans head less less_imp_neq[OF less] by (simp add: reported_paths_def stale_entries_def)
  next
    case greater
    have step: "loop_result (?e # st) ix (r\<lparr>orphaned := orphaned r + 1\<rparr>) (ks @ [ipath])"
      using 2(4,5) greater sorted by simp
    have skip: "stale_entries (?e # st) (?i # ix) = stale_entries (?e # st) ix"
      "filter (up_to_date (?i # ix)) (?e # st) = filter (up_to_date ix) (?e # st)"
      using sts greater by (intro stale_skip_index filter_up_to_date_skip; auto)+
    have orphans: "orphan_entries (?e # st) (?i # ix) = ?i # orphan_entries (?e # st) ix"
      using sts greater by (auto simp: orphan_entries_def)
    from loop_adds_orphaned[OF step] show ?thesis
      using skip orphans less_imp_neq[OF greater] less_not_sym[OF greater] by (simp add: reported_paths_def del: filter.simps)
  qed
next
  case (3 key path etag st r ks)
  then have "loop_result st [] (r\<lparr>changed := changed r + 1\<rparr>) (ks @ [path])" by simp
  from loop_adds_changed[OF this] show ?case
    by (simp add: reported_paths_def stale_entries_def orphan_entries_def up_to_date_def)
next
  case (4 entry path ix r ks)
  then have "loop_result [] ix (r\<lparr>orphaned := orphaned r + 1\<rparr>) (ks @ [path])" by simp
  from loop_adds_orphaned[OF this] show ?case
    by (simp add: reported_paths_def stale_entries_def orphan_entries_def)
qed (simp add: loop_adds_nothing reported_paths_def stale_entries_def orphan_entries_def)

text \<open>The filters keep the order of both sides.\<close>

lemma map_filter_subseq:
  "\<lbrakk>\<And>x y. f x = Some y \<Longrightarrow> g y = h x; sorted_wrt (\<lambda>a b. P (h a) (h b)) xs\<rbrakk>
   \<Longrightarrow> sorted_wrt (\<lambda>a b. P (g a) (g b)) (List.map_filter f xs)"
proof (induction xs)
  case (Cons x xs)
  then show ?case
    by (cases "f x") (auto simp: map_filter_simps map_filter_def)
qed (simp add: map_filter_simps)

lemma compare_storage_side_sorted:
  assumes "key_sorted fst xs"
  shows "key_sorted st_key (compare_storage_side xs)"
  unfolding compare_storage_side_def
  by (intro sorted_wrt_filter map_filter_subseq[where h = fst and P = "(<)"]) (use assms in \<open>auto split: prod.splits\<close>)

lemma compare_index_side_sorted:
  assumes "key_sorted ie_key xs"
  shows "key_sorted ix_key (compare_index_side xs pre)"
  unfolding compare_index_side_def
  by (intro map_filter_subseq[where h = ie_key and P = "(<)"] sorted_wrt_filter) (use assms in auto)

lemma compare_storage_side_mem:
  "(key, path, etag) \<in> set (compare_storage_side xs) \<longleftrightarrow>
     (key, etag) \<in> set xs \<and> \<not> is_internal_path key \<and> \<not> key_is_reserved key \<and> try_from_str key = Inr path"
  by (auto simp: compare_storage_side_def map_filter_def actionable_path_def split: sum.splits)
    (force split: sum.splits)

lemma compare_index_side_mem:
  "(entry, path) \<in> set (compare_index_side xs pre) \<longleftrightarrow>
     entry \<in> set xs \<and> (\<forall>p. pre = Some p \<longrightarrow> prefix p (ie_key entry)) \<and> try_from_str (ie_key entry) = Inr path"
  by (auto simp: compare_index_side_def map_filter_def actionable_path_def split: sum.splits option.splits)
    (force split: sum.splits)+

section \<open>The walk\<close>

context paged_store
begin

abbreviation walked :: "object_meta list \<Rightarrow> (string \<times> string option) list" where
  "walked objs \<equiv> map (\<lambda>obj. (om_key obj, om_etag obj)) objs"

lemma walk_loop_complete:
  assumes "ready s kb" "0 < limit" "pos s kb pre cursor = Some n"
  shows "walk_loop (\<lambda>c. op_list ops s kb pre limit c) cursor out = Some (Inr (out @ walked (drop n (listing s kb pre))))"
  using assms(3)
proof (induction "length (listing s kb pre) - n" arbitrary: cursor n out rule: less_induct)
  case less
  define L where "L = listing s kb pre"
  define lim where "lim = min limit 1000"
  obtain lr where lr: "op_list ops s kb pre limit cursor = Inr lr" "lr_objects lr = take lim (drop n L)"
    "if n + lim < length L
     then lr_truncated lr \<and> (\<exists>c. lr_next_cursor lr = Some c \<and> pos s kb pre (Some c) = Some (n + lim))
     else \<not> lr_truncated lr \<and> lr_next_cursor lr = None"
    using page[OF assms(1) less.prems assms(2)] by (auto simp: L_def lim_def)
  have lim: "0 < lim" using assms(2) by (simp add: lim_def)
  show ?case
  proof (cases "n + lim < length L")
    case True
    then obtain c where c: "lr_truncated lr" "lr_next_cursor lr = Some c" "pos s kb pre (Some c) = Some (n + lim)"
      using lr(3) by auto
    then have "Some c \<noteq> cursor" using less.prems lim by auto
    moreover have "drop n L = take lim (drop n L) @ drop (n + lim) L"
      by (metis add.commute append_take_drop_id drop_drop)
    ultimately show ?thesis
      using less.hyps[of "n + lim" "Some c"] c lr(1,2) True lim
      by (subst walk_loop.simps) (simp add: L_def map_append[symmetric] del: map_append)
  next
    case False
    then show ?thesis using lr by (subst walk_loop.simps) (auto simp: L_def)
  qed
qed

lemma walk_complete:
  "\<lbrakk>ready s kb; 0 < limit\<rbrakk> \<Longrightarrow> walk_etags_paged ops s kb pre limit = Some (Inr (walked (listing s kb pre)))"
  using walk_loop_complete[OF _ _ pos_start] by (simp add: walk_etags_paged_def)

lemma walked_sorted: "ready s kb \<Longrightarrow> key_sorted fst (walked (listing s kb pre))"
  using listing_sorted by (simp add: sorted_wrt_map)

end

section \<open>Both sides as sets of entries\<close>

definition eligible_stored :: "(string \<times> string option) list \<Rightarrow> string \<Rightarrow> string option \<Rightarrow> object_path \<Rightarrow> bool" where
  "eligible_stored in_storage key etag path \<longleftrightarrow>
     (key, etag) \<in> set in_storage \<and> \<not> is_internal_path key \<and> key \<notin> set RESERVED_KEYS \<and> try_from_str key = Inr path"

definition eligible_indexed :: "indexed_etag list \<Rightarrow> string option \<Rightarrow> indexed_etag \<Rightarrow> object_path \<Rightarrow> bool" where
  "eligible_indexed indexed pre entry path \<longleftrightarrow>
     entry \<in> set indexed \<and> (\<forall>p. pre = Some p \<longrightarrow> prefix p (ie_key entry)) \<and> try_from_str (ie_key entry) = Inr path"

lemma index_map_Some_iff:
  assumes "key_sorted ix_key ix"
  shows "index_map ix k = Some t \<longleftrightarrow> (\<exists>entry path. (entry, path) \<in> set ix \<and> ie_key entry = k \<and> ie_etag entry = t)"
proof -
  have "distinct (map fst (map (\<lambda>e. (ix_key e, ie_etag (fst e))) ix))"
    using key_sorted_distinct[OF assms] by (simp add: o_def)
  from map_of_eq_Some_iff[OF this] show ?thesis by (auto simp: index_map_def intro: rev_image_eqI)
qed

lemma reported_paths_eq:
  assumes "key_sorted ie_key indexed"
  shows "reported_paths (compare_storage_side in_storage) (compare_index_side indexed pre) =
    {path. \<exists>key etag. eligible_stored in_storage key etag path \<and>
        \<not> (\<exists>entry p. eligible_indexed indexed pre entry p \<and> ie_key entry = key \<and> etag = Some (ie_etag entry))}
    \<union> {path. \<exists>entry. eligible_indexed indexed pre entry path \<and>
        \<not> (\<exists>etag p. eligible_stored in_storage (ie_key entry) etag p)}"
proof -
  let ?st = "compare_storage_side in_storage" and ?ix = "compare_index_side indexed pre"
  have ix: "(entry, p) \<in> set ?ix \<longleftrightarrow> eligible_indexed indexed pre entry p" for entry p
    by (simp add: compare_index_side_mem eligible_indexed_def)
  have st: "(key, p, etag) \<in> set ?st \<longleftrightarrow> eligible_stored in_storage key etag p" for key p etag
    by (simp add: compare_storage_side_mem eligible_stored_def key_is_reserved_def)
  have current: "up_to_date ?ix (key, p, etag) \<longleftrightarrow>
      (\<exists>entry p'. eligible_indexed indexed pre entry p' \<and> ie_key entry = key \<and> etag = Some (ie_etag entry))" for key p etag
    unfolding up_to_date_def index_map_Some_iff[OF compare_index_side_sorted[OF assms]] ix[symmetric] by auto
  have keys: "k \<in> st_key ` set ?st \<longleftrightarrow> (\<exists>etag p. eligible_stored in_storage k etag p)" for k
    unfolding st[symmetric] by force
  have "st_path ` set (stale_entries ?st ?ix) = {path. \<exists>key etag. eligible_stored in_storage key etag path \<and>
        \<not> (\<exists>entry p. eligible_indexed indexed pre entry p \<and> ie_key entry = key \<and> etag = Some (ie_etag entry))}"
    unfolding st[symmetric] current[symmetric, of _ _ undefined] stale_entries_def
    by (auto simp: up_to_date_def image_iff) force+
  moreover have "snd ` set (orphan_entries ?st ?ix) = {path. \<exists>entry. eligible_indexed indexed pre entry path \<and>
        \<not> (\<exists>etag p. eligible_stored in_storage (ie_key entry) etag p)}"
    unfolding ix[symmetric] keys[symmetric] orphan_entries_def by force
  ultimately show ?thesis by (simp add: reported_paths_def)
qed

lemma compare_counts:
  assumes "key_sorted fst in_storage" "key_sorted ie_key indexed" "r = compare in_storage indexed pre"
  shows "set (rec_keys r) = reported_paths (compare_storage_side in_storage) (compare_index_side indexed pre)"
    "length (rec_keys r) = changed (rec_report r) + orphaned (rec_report r)"
    "objects_on_disk (rec_report r) = unchanged (rec_report r) + changed (rec_report r)"
proof -
  let ?st = "compare_storage_side in_storage" and ?ix = "compare_index_side indexed pre"
  let ?r0 = "\<lparr>objects_on_disk = length ?st, unchanged = 0, changed = 0, orphaned = 0\<rparr>"
  have r: "r = \<lparr>rec_report = fst (compare_loop ?st ?ix ?r0 []), rec_keys = snd (compare_loop ?st ?ix ?r0 [])\<rparr>"
    by (simp add: assms(3) compare_def Let_def split_beta)
  have "length (filter (up_to_date ?ix) ?st) + length (stale_entries ?st ?ix) = length ?st"
    by (simp add: stale_entries_def sum_length_filter_compl)
  moreover have "loop_result ?st ?ix ?r0 []"
    by (intro compare_loop_spec compare_storage_side_sorted compare_index_side_sorted assms(1,2))
  ultimately show "set (rec_keys r) = reported_paths ?st ?ix"
    "length (rec_keys r) = changed (rec_report r) + orphaned (rec_report r)"
    "objects_on_disk (rec_report r) = unchanged (rec_report r) + changed (rec_report r)"
    unfolding loop_adds_def r by auto
qed

section \<open>Properties\<close>

text \<open>
  The two-cursor comparison reports exactly the differences.  For sides in key order, the
  reported paths are those of stored objects whose tag is not the indexed one, and of index
  entries with no stored object; internal and reserved keys never count as stored, and keys that
  are no object paths count on neither side.  One key is reported per changed or orphaned object,
  the counts add up, and a clean report means nothing was reported.
\<close>

theorem reconcile_compare_exact:
  assumes "key_sorted fst in_storage" "key_sorted ie_key indexed" "r = compare in_storage indexed pre"
  shows "set (rec_keys r) =
      {path. \<exists>key etag. eligible_stored in_storage key etag path \<and>
        \<not> (\<exists>entry p. eligible_indexed indexed pre entry p \<and> ie_key entry = key \<and> etag = Some (ie_etag entry))}
      \<union> {path. \<exists>entry. eligible_indexed indexed pre entry path \<and>
        \<not> (\<exists>etag p. eligible_stored in_storage (ie_key entry) etag p)}
    \<and> length (rec_keys r) = changed (rec_report r) + orphaned (rec_report r)
    \<and> objects_on_disk (rec_report r) = unchanged (rec_report r) + changed (rec_report r)
    \<and> (report_is_clean (rec_report r) \<longleftrightarrow> rec_keys r = [])"
  using compare_counts[OF assms] reported_paths_eq[OF assms(2), of in_storage pre]
  by (simp add: report_is_clean_def flip: length_0_conv)

theorem reconcile_compare_exact_witness:
  "length (rec_keys (compare [(''a.md'', Some ''v1''), (''b.md'', Some ''v2''), (''search'', Some ''v1'')]
       [\<lparr>ie_key = ''b.md'', ie_etag = ''v1''\<rparr>, \<lparr>ie_key = ''gone.md'', ie_etag = ''v1''\<rparr>] None)) = 3"
proof -
  let ?r = "compare [(''a.md'', Some ''v1''), (''b.md'', Some ''v2''), (''search'', Some ''v1'')]
       [\<lparr>ie_key = ''b.md'', ie_etag = ''v1''\<rparr>, \<lparr>ie_key = ''gone.md'', ie_etag = ''v1''\<rparr>] None"
  have "rec_report ?r = \<lparr>objects_on_disk = 2, unchanged = 0, changed = 2, orphaned = 1\<rparr>" by code_simp
  moreover have "key_sorted fst [(''a.md'', Some ''v1''), (''b.md'', Some ''v2''), (''search'', Some ''v1'')]"
    "key_sorted ie_key [\<lparr>ie_key = ''b.md'', ie_etag = ''v1''\<rparr>, \<lparr>ie_key = ''gone.md'', ie_etag = ''v1''\<rparr>]"
    by code_simp+
  ultimately show ?thesis
    using reconcile_compare_exact[of "[(''a.md'', Some ''v1''), (''b.md'', Some ''v2''), (''search'', Some ''v1'')]"
        "[\<lparr>ie_key = ''b.md'', ie_etag = ''v1''\<rparr>, \<lparr>ie_key = ''gone.md'', ie_etag = ''v1''\<rparr>]" ?r None]
    by simp
qed

text \<open>
  C30: The storage walk ends and is complete: over a reachable store with the knowledge base
  provisioned, for every page size the unbounded paging loop returns, in key order and each key
  once, exactly the stored objects under the prefix with their tags.
\<close>

theorem storage_walk_complete:
  assumes "mem_inv etag_of st" "mem_ready st kb" "0 < page"
  shows "\<exists>out. walk_etags_paged (mem_ops etag_of pd) st kb pre page = Some (Inr out)
    \<and> key_sorted fst out
    \<and> set out = {(key, Some (so_etag obj)) |key obj. mem_contents st (kb_str kb, key) = Some obj
         \<and> (\<forall>p. pre = Some p \<longrightarrow> prefix p key)}"
proof -
  have d: "distinct (map fst (m_objects st))" and ready: "mem_listable st kb"
    using assms(1,2) by (auto simp: mem_inv_def mem_listable_def)
  let ?out = "map (\<lambda>obj. (om_key obj, om_etag obj)) (mem_matching st kb pre)"
  have "set ?out = (\<lambda>x. (snd (fst x), Some (so_etag (snd x)))) ` {x \<in> set (m_objects st). mem_selected (kb_str kb) pre x}"
  proof -
    have "om_etag (mem_listed x) = Some (so_etag (snd x))" for x by (cases x rule: mem_listed.cases) simp
    then show ?thesis by (auto simp: mem_matching_set image_image)
  qed
  also have "\<dots> = {(key, Some (so_etag obj)) |key obj. mem_contents st (kb_str kb, key) = Some obj
         \<and> (\<forall>p. pre = Some p \<longrightarrow> prefix p key)}"
    unfolding map_of_eq_Some_iff[OF d] by (force split: option.splits)
  finally show ?thesis
    using mem_pages.walk_complete[OF ready assms(3), of etag_of pd pre] mem_pages.walked_sorted[OF ready, of pre]
    by (intro exI[of _ ?out] conjI)
qed

theorem storage_walk_complete_witness:
  "\<exists>out. walk_etags_paged (mem_ops (\<lambda>b. b) (\<lambda>_. Inr 0)) (with_kbs [KbSlug ''notes''] 0) (KbSlug ''notes'') None 1 = Some (Inr out)
     \<and> set out = {}"
proof -
  have "mem_inv (\<lambda>b. b) (with_kbs [KbSlug ''notes''] 0)" by (rule mem_inv_with_kbs)
  moreover have "mem_ready (with_kbs [KbSlug ''notes''] 0) (KbSlug ''notes'')"
    by (simp add: mem_ready_def with_kbs_def)
  ultimately show ?thesis
    using storage_walk_complete[of "\<lambda>b. b" "with_kbs [KbSlug ''notes''] 0" "KbSlug ''notes''" 1 "\<lambda>_. Inr 0" None]
    by (auto simp: with_kbs_def)
qed

end
