(* ===== verification/Fs_Reconcile.thy ===== *)
theory Fs_Reconcile
  imports Fs_Fresh Reconcile
begin

text \<open>
  Reconciliation of a knowledge base's directory with the search index
  (\<^verbatim>\<open>notedthat-storage-fs/src/reconcile.rs\<close>): the walk of the tree feeds the shared comparison, and every
  difference is sent to a channel.  The channel is how many sends it still accepts before the receiver
  is gone.
\<close>

section \<open>Definitions\<close>

record fs_change =
  fc_kb :: kb_slug
  fc_key :: object_path

fun send_keys :: "kb_slug \<Rightarrow> object_path list \<Rightarrow> nat \<Rightarrow> fs_change list \<Rightarrow> fs_change list \<times> bool" where
  "send_keys kb [] room sent = (sent, True)"
| "send_keys kb (key # keys) room sent =
     (if room = 0 then (sent, False)
      else send_keys kb keys (room - 1) (sent @ [\<lparr>fc_kb = kb, fc_key = key\<rparr>]))"

definition fs_reconcile :: "fs_env \<Rightarrow> fs_state \<Rightarrow> kb_slug \<Rightarrow> string option \<Rightarrow> indexed_etag list \<Rightarrow> nat
    \<Rightarrow> reconcile_report option \<times> fs_change list \<times> fs_state" where
  "fs_reconcile env st kb pre indexed room =
     (let (walked, st) = fs_walk_etags env st kb pre;
          on_disk = map (\<lambda>(key, etag). (key, Some etag)) walked;
          r = compare on_disk indexed pre;
          (sent, complete) = send_keys kb (rec_keys r) room [] in
      (if complete then Some (rec_report r) else None, sent, st))"

section \<open>The walk is exact\<close>

lemma listed_valid:
  assumes "key \<in> om_key ` set (fs_matching t b pre)" "tree_ok t"
  shows "valid_utf8 key"
proof -
  obtain e where e: "e \<in> below t (fs_bucket_dir b) (fs_bucket_dir b)" "we_key e = key"
    using assms unfolding fs_matching_def by (auto simp: set_walk_new)
  then obtain p where "we_path e = fs_bucket_dir b @ p" "key_from_path (fs_bucket_dir b) (we_path e) = Some key"
    by (auto simp: below_def file_entry_def)
  then show ?thesis using key_from_path_Some_iff[of "fs_bucket_dir b" p key] valid_join[of p] by simp
qed

definition tagged :: "fs_env \<Rightarrow> fs_node \<Rightarrow> string \<Rightarrow> string \<Rightarrow> (string \<times> string) option" where
  "tagged env t b key =
     (case fs_object_path b key of
        Inl _ \<Rightarrow> None
      | Inr p \<Rightarrow> map_option (\<lambda>f. (key, fe_etag env (fi_bytes f))) (file_at t p))"

lemma etag_loop_exact:
  "(\<And>a. fe_dec env (fe_enc env a) = Some a) \<Longrightarrow> b \<noteq> META_DIR \<Longrightarrow> fs_inv env st \<Longrightarrow> tree_ok t \<Longrightarrow> stack_ok (fs_bucket_dir b) walk \<Longrightarrow>
     (\<And>p. \<not> in_meta p \<Longrightarrow> files st p = file_at t p) \<Longrightarrow> etag_loop env t b pre walk acc st = (xs, st') \<Longrightarrow>
     xs = acc @ List.map_filter (\<lambda>e. tagged env t b (we_key e)) (matches_of t (fs_bucket_dir b) None pre walk)"
proof (induction env t b pre walk acc st arbitrary: xs st' rule: etag_loop.induct)
  case (1 env t b pre walk acc st)
  note codec = 1(3) and b = 1(4) and inv = 1(5) and tree = 1(6) and stack = 1(7) and same = 1(8) and loop = 1(9)
  obtain r walk' where nx: "next_match t (fs_bucket_dir b) None pre walk = (r, walk')" by fastforce
  note m = next_match_matches[OF tree stack nx]
  show ?case
  proof (cases "matches_of t (fs_bucket_dir b) None pre walk")
    case Nil
    then show ?thesis using m nx loop by (simp add: etag_loop.simps[of env t b pre walk acc st] List.map_filter_simps)
  next
    case (Cons e es)
    then have r: "r = Some (found_of t e)" "matches_of t (fs_bucket_dir b) None pre walk' = es" "stack_ok (fs_bucket_dir b) walk'"
      using m by auto
    have key: "fo_key (found_of t e) = we_key e" by (simp add: found_of_def)
    obtain d st1 where d: "fs_describe env st b (fo_key (found_of t e)) = (d, st1)" by fastforce
    note ok = fs_describe_ok[OF inv codec b d]
    have inv1: "fs_inv env st1" and same1: "\<And>p. \<not> in_meta p \<Longrightarrow> files st1 p = file_at t p" using ok same by (auto simp: kept_def)
    show ?thesis
    proof (cases d)
      case (Inl x)
      have "tagged env t b (we_key e) = None"
      proof (cases "fs_object_path b (we_key e)")
        case (Inr p)
        then have "files st p = None" using fs_describe_found[OF Inr, of st _ env] d Inl key by (cases "files st p") auto
        then show ?thesis using same[of p] in_meta_simps(2)[OF Inr b] Inr by (simp add: tagged_def)
      qed (simp add: tagged_def)
      moreover have "etag_loop env t b pre walk' acc st1 = (xs, st')"
        using loop nx r(1) d Inl by (simp add: etag_loop.simps[of env t b pre walk acc st])
      ultimately show ?thesis
        using 1(1)[OF nx[symmetric] r(1) d[symmetric] Inl codec b inv1 tree r(3) same1] Cons r(2) by (simp add: List.map_filter_simps)
    next
      case (Inr y)
      obtain f a where y: "y = (f, a)" by fastforce
      then obtain p where p: "fs_object_path b (we_key e) = Inr p" "files st p = Some f" "ao_etag a = fe_etag env (fi_bytes f)"
        using ok Inr key by auto
      then have "tagged env t b (we_key e) = Some (we_key e, ao_etag a)"
        using same[of p] in_meta_simps(2)[OF p(1) b] by (simp add: tagged_def)
      moreover have "etag_loop env t b pre walk' (acc @ [(we_key e, ao_etag a)]) st1 = (xs, st')"
        using loop nx r(1) d Inr y by (simp add: etag_loop.simps[of env t b pre walk acc st] key)
      ultimately show ?thesis
        using 1(2)[OF nx[symmetric] r(1) d[symmetric] Inr y[symmetric] codec b inv1 tree r(3) same1] Cons r(2)
        by (simp add: List.map_filter_simps key)
    qed
  qed
qed

lemma file_at_node: "file_at t p = Some f \<longleftrightarrow> node_at t p = Some (Reg f)"
  by (simp add: file_at_walk node_at_Some_iff)

text \<open>What the walk returns, read off the tree.\<close>

definition stored_file :: "fs_env \<Rightarrow> fs_state \<Rightarrow> kb_slug \<Rightarrow> string option \<Rightarrow> string \<Rightarrow> fs_file \<Rightarrow> bool" where
  "stored_file env st kb pre key f \<longleftrightarrow>
     valid_utf8 key \<and> key_matches None pre key \<and> (\<exists>p. fs_object_path (fs_bucket env kb) key = Inr p \<and> files st p = Some f)"

lemma tagged_sorted: "key_sorted we_key es \<Longrightarrow> key_sorted fst (List.map_filter (\<lambda>e. tagged env t b (we_key e)) es)"
proof (induction es)
  case (Cons e es)
  have key: "fst y = we_key e" if "tagged env t b (we_key e) = Some y" for e y
    using that by (auto simp: tagged_def split: sum.splits)
  have "we_key e < fst y" if y: "y \<in> set (List.map_filter (\<lambda>e. tagged env t b (we_key e)) es)" for y
  proof -
    obtain x where "x \<in> set es" "tagged env t b (we_key x) = Some y" using y by (auto simp: map_filter_mem)
    then show ?thesis using Cons.prems key[of x y] by simp
  qed
  then show ?case using Cons key[of e] by (auto simp: List.map_filter_simps split: option.splits)
qed (simp add: List.map_filter_simps)

lemma walk_exact:
  assumes codec: "\<And>a. fe_dec env (fe_enc env a) = Some a" and inv: "fs_inv env st" and tree: "tree_ok (fst_tree st)"
    and w: "fs_walk_etags env st kb pre = (xs, st')"
  shows "(key, etag) \<in> set xs \<longleftrightarrow> (\<exists>f. stored_file env st kb pre key f \<and> etag = fe_etag env (fi_bytes f))" "key_sorted fst xs"
proof -
  let ?t = "fst_tree st" and ?b = "fs_bucket env kb"
  let ?es = "matches_of ?t (fs_bucket_dir ?b) None pre (walk_new ?t (fs_bucket_dir ?b))"
  have xs: "xs = List.map_filter (\<lambda>e. tagged env ?t ?b (we_key e)) ?es"
    using etag_loop_exact[OF codec fs_bucket_plain[of env kb] inv tree walk_new_ok[OF tree], where acc = "[]"] w
    unfolding fs_walk_etags_def Let_def by (metis append_Nil)
  have keys: "om_key ` set (fs_matching ?t ?b pre) = we_key ` set ?es"
    unfolding fs_matching_def by (auto simp: image_image)
  have tag: "tagged env ?t ?b k = Some (key, etag) \<longleftrightarrow>
      k = key \<and> (\<exists>p f. fs_object_path ?b key = Inr p \<and> files st p = Some f \<and> etag = fe_etag env (fi_bytes f))" for k
    by (auto simp: tagged_def split: sum.splits)
  have "(key, etag) \<in> set xs \<longleftrightarrow> key \<in> om_key ` set (fs_matching ?t ?b pre)
      \<and> (\<exists>p f. fs_object_path ?b key = Inr p \<and> files st p = Some f \<and> etag = fe_etag env (fi_bytes f))"
    unfolding xs keys by (auto simp: map_filter_mem tag)
  also have "\<dots> \<longleftrightarrow> (\<exists>f. stored_file env st kb pre key f \<and> etag = fe_etag env (fi_bytes f))"
    using listed_iff[OF tree, of ?b key _ pre] listed_valid[OF _ tree, of key ?b pre]
    unfolding file_at_node[symmetric] stored_file_def by blast
  finally show "(key, etag) \<in> set xs \<longleftrightarrow> (\<exists>f. stored_file env st kb pre key f \<and> etag = fe_etag env (fi_bytes f))" .
  have "key_sorted we_key ?es" using walk_new_sorted[OF tree] by (simp add: sorted_wrt_filter)
  then show "key_sorted fst xs" unfolding xs by (rule tagged_sorted)
qed

lemma send_keys_exact:
  "send_keys kb keys room sent = (sent @ map (\<lambda>key. \<lparr>fc_kb = kb, fc_key = key\<rparr>) (take room keys), length keys \<le> room)"
proof (induction kb keys room sent rule: send_keys.induct)
  case (2 kb key keys room sent)
  then show ?case by (cases room) simp_all
qed simp

definition eligible_key :: "string \<Rightarrow> object_path \<Rightarrow> bool" where
  "eligible_key key path \<longleftrightarrow> \<not> is_internal_path key \<and> key \<notin> set RESERVED_KEYS \<and> try_from_str key = Inr path"

definition stale_paths :: "fs_env \<Rightarrow> fs_state \<Rightarrow> kb_slug \<Rightarrow> string option \<Rightarrow> indexed_etag list \<Rightarrow> object_path set" where
  "stale_paths env st kb pre indexed =
     {path. \<exists>key f. stored_file env st kb pre key f \<and> eligible_key key path \<and>
        \<not> (\<exists>entry p. eligible_indexed indexed pre entry p \<and> ie_key entry = key \<and> fe_etag env (fi_bytes f) = ie_etag entry)}
     \<union> {path. \<exists>entry. eligible_indexed indexed pre entry path \<and>
        \<not> (\<exists>f p. stored_file env st kb pre (ie_key entry) f \<and> eligible_key (ie_key entry) p)}"

section \<open>Properties\<close>

text \<open>
  C26: A reconciliation pass over the tree finds exactly what the index has wrong.  In every reachable state the
  objects sent for another look are files whose content has not the tag the index holds and index
  entries with no file; when the pass reports that it ran to the end it has sent all of them, once
  each, and otherwise it has sent as many as the receiver took.
\<close>

theorem fs_reconcile_exact:
  assumes "fs_reach env st" "\<And>a. fe_dec env (fe_enc env a) = Some a" "tree_ok (fst_tree st)" "key_sorted ie_key indexed"
    and r: "fs_reconcile env st kb pre indexed room = (res, sent, st')"
  shows "(\<forall>ch\<in>set sent. fc_kb ch = kb \<and> fc_key ch \<in> stale_paths env st kb pre indexed)
    \<and> (case res of
        Some report \<Rightarrow> fc_key ` set sent = stale_paths env st kb pre indexed \<and> length sent = changed report + orphaned report
      | None \<Rightarrow> length sent = room)"
proof -
  obtain walked st1 where w: "fs_walk_etags env st kb pre = (walked, st1)" by fastforce
  note exact = walk_exact[OF assms(2) fs_reach_inv[OF assms(2,1)] assms(3) w]
  let ?disk = "map (\<lambda>(key, etag). (key, Some etag)) walked"
  let ?r = "compare ?disk indexed pre"
  have disk: "(key, etag) \<in> set ?disk \<longleftrightarrow> (\<exists>f. stored_file env st kb pre key f \<and> etag = Some (fe_etag env (fi_bytes f)))" for key etag
    using exact(1)[of key] by force
  have "key_sorted fst ?disk" using exact(2) by (simp add: sorted_wrt_map case_prod_beta)
  note cmp = compare_counts[OF this assms(4), of ?r pre]
  have el: "eligible_stored ?disk key etag path \<longleftrightarrow>
      (\<exists>f. stored_file env st kb pre key f \<and> etag = Some (fe_etag env (fi_bytes f))) \<and> eligible_key key path" for key etag path
    unfolding eligible_stored_def eligible_key_def disk by blast
  have pull: "(\<exists>key etag. ((\<exists>f. A key f \<and> etag = Some (B f)) \<and> C key) \<and> D key etag) \<longleftrightarrow> (\<exists>key f. A key f \<and> C key \<and> D key (Some (B f)))" for A B C D
    by blast
  have pull': "(\<exists>etag p. (\<exists>f. A f \<and> etag = Some (B f)) \<and> E p) \<longleftrightarrow> (\<exists>f p. A f \<and> E p)" for A B E
    by blast
  have "reported_paths (compare_storage_side ?disk) (compare_index_side indexed pre) = stale_paths env st kb pre indexed"
    unfolding reported_paths_eq[OF assms(4)] stale_paths_def el pull pull' option.inject by (rule refl)
  then have keys: "set (rec_keys ?r) = stale_paths env st kb pre indexed" using cmp(1) by simp
  have "res = (if length (rec_keys ?r) \<le> room then Some (rec_report ?r) else None)"
    "sent = map (\<lambda>key. \<lparr>fc_kb = kb, fc_key = key\<rparr>) (take room (rec_keys ?r))"
    using r w by (auto simp: fs_reconcile_def send_keys_exact Let_def)
  then show ?thesis using keys cmp(2) by (auto simp: image_image dest: in_set_takeD)
qed

theorem fs_reconcile_exact_witness:
  "\<exists>report sent st'. fs_reconcile sample_env sample_state (KbSlug ''kb'') None [\<lparr>ie_key = ''old.md'', ie_etag = ''v1''\<rparr>] 5 = (Some report, sent, st')
     \<and> ObjectPath ''old.md'' \<in> fc_key ` set sent"
proof -
  let ?ix = "[\<lparr>ie_key = ''old.md'', ie_etag = ''v1''\<rparr>]"
  have tree: "tree_ok (fst_tree sample_state)" by (simp add: sample_state_def META_DIR_def)
  obtain walked st1 where w: "fs_walk_etags sample_env sample_state (KbSlug ''kb'') None = (walked, st1)" by fastforce
  have none: "\<not> stored_file sample_env sample_state (KbSlug ''kb'') None key f" for key f
    by (simp add: stored_file_def sample_no_files)
  then have "walked = []" using walk_exact(1)[OF sample_codec fs_reach_inv[OF sample_codec sample_reach] tree w] by (cases walked) auto
  moreover have "compare [] ?ix None = \<lparr>rec_report = \<lparr>objects_on_disk = 0, unchanged = 0, changed = 0, orphaned = 1\<rparr>, rec_keys = [ObjectPath ''old.md'']\<rparr>"
    by code_simp
  ultimately obtain report sent where rec: "fs_reconcile sample_env sample_state (KbSlug ''kb'') None ?ix 5 = (Some report, sent, st1)"
    using w by (simp add: fs_reconcile_def)
  have "eligible_indexed ?ix None \<lparr>ie_key = ''old.md'', ie_etag = ''v1''\<rparr> (ObjectPath ''old.md'')"
    unfolding eligible_indexed_def by (intro conjI) (simp_all, code_simp)
  then have "ObjectPath ''old.md'' \<in> stale_paths sample_env sample_state (KbSlug ''kb'') None ?ix"
    using none by (auto simp: stale_paths_def)
  then show ?thesis using fs_reconcile_exact[OF sample_reach sample_codec tree _ rec] rec by simp
qed

end
