(* ===== verification/Fs_Watch.thy ===== *)
theory Fs_Watch
  imports Fs_Layout
begin

text \<open>
  Watching the tree (\<^verbatim>\<open>notedthat-storage-fs/src/watch.rs\<close>, \<^verbatim>\<open>watch/pending.rs\<close>): kernel events become pending work, and
  pending work becomes signals once it has settled.  A \<^verbatim>\<open>HashMap\<close> is an association list, so signals of one
  width come in some order.  An \<^verbatim>\<open>Instant\<close> is a natural number of nanoseconds.  What the kernel reports and
  whether a path is a directory when the event is handled are inputs.
\<close>

section \<open>Pending work\<close>

datatype fs_signal =
    Sig_Changed kb_slug object_path
  | Sig_Prefix kb_slug string
  | Sig_Kb kb_slug

record pending =
  pe_whole :: "(kb_slug \<times> nat) list"
  pe_prefixes :: "((kb_slug \<times> string) \<times> nat) list"
  pe_keys :: "((kb_slug \<times> object_path) \<times> nat) list"
  pe_overflowed :: bool
  pe_capacity :: nat

definition pending_new :: "nat \<Rightarrow> pending" where
  "pending_new capacity' = \<lparr>pe_whole = [], pe_prefixes = [], pe_keys = [], pe_overflowed = False, pe_capacity = capacity'\<rparr>"

definition ancestor_prefixes :: "string \<Rightarrow> string list" where
  "ancestor_prefixes path = map (\<lambda>at. take (Suc at) path) (filter (\<lambda>at. path ! at = CHR ''/'') [0..<length path])"

definition len_for :: "pending \<Rightarrow> kb_slug \<Rightarrow> nat" where
  "len_for pe kb =
     (if map_of (pe_whole pe) kb \<noteq> None then 1 else 0)
     + length (filter (\<lambda>e. fst (fst e) = kb) (pe_prefixes pe))
     + length (filter (\<lambda>e. fst (fst e) = kb) (pe_keys pe))"

definition pending_whole_kb :: "pending \<Rightarrow> kb_slug \<Rightarrow> nat \<Rightarrow> pending" where
  "pending_whole_kb pe kb now =
     pe\<lparr>pe_prefixes := filter (\<lambda>e. fst (fst e) \<noteq> kb) (pe_prefixes pe),
        pe_keys := filter (\<lambda>e. fst (fst e) \<noteq> kb) (pe_keys pe),
        pe_whole := AList.update kb now (pe_whole pe)\<rparr>"

definition covered :: "pending \<Rightarrow> kb_slug \<Rightarrow> string \<Rightarrow> bool" where
  "covered pe kb path =
     (if map_of (pe_whole pe) kb \<noteq> None then True
      else list_ex (\<lambda>pre. map_of (pe_prefixes pe) (kb, pre) \<noteq> None) (ancestor_prefixes path))"

definition at_capacity :: "pending \<Rightarrow> kb_slug \<Rightarrow> bool \<times> pending" where
  "at_capacity pe kb =
     (if pe_capacity pe \<le> len_for pe kb then (True, pe\<lparr>pe_overflowed := True\<rparr>) else (False, pe))"

definition pending_prefix :: "pending \<Rightarrow> kb_slug \<Rightarrow> string \<Rightarrow> nat \<Rightarrow> pending" where
  "pending_prefix pe kb pre now =
     (if covered pe kb pre then pe
      else
        let pe = pe\<lparr>pe_prefixes := filter (\<lambda>((k, p), _). k \<noteq> kb \<or> \<not> prefix pre p) (pe_prefixes pe),
                    pe_keys := filter (\<lambda>((k, key), _). k \<noteq> kb \<or> \<not> prefix pre (path_str key)) (pe_keys pe)\<rparr>;
            (full, pe) = at_capacity pe kb in
        if full then pending_whole_kb pe kb now
        else pe\<lparr>pe_prefixes := AList.update (kb, pre) now (pe_prefixes pe)\<rparr>)"

definition pending_key :: "pending \<Rightarrow> kb_slug \<Rightarrow> object_path \<Rightarrow> nat \<Rightarrow> pending" where
  "pending_key pe kb key now =
     (if covered pe kb (path_str key) then pe
      else
        let (full, pe) = at_capacity pe kb in
        if full then pending_whole_kb pe kb now
        else pe\<lparr>pe_keys := AList.update (kb, key) now (pe_keys pe)\<rparr>)"

text \<open>\<^verbatim>\<open>saturating_duration_since\<close> is the truncated difference.\<close>

definition is_ready :: "nat \<Rightarrow> nat \<Rightarrow> nat \<Rightarrow> bool" where
  "is_ready now settle at \<longleftrightarrow> settle \<le> now - at"

definition take_settled :: "pending \<Rightarrow> nat \<Rightarrow> nat \<Rightarrow> fs_signal list \<times> pending" where
  "take_settled pe now settle =
     (map (\<lambda>(kb, _). Sig_Kb kb) (filter (\<lambda>e. is_ready now settle (snd e)) (pe_whole pe))
      @ map (\<lambda>((kb, pre), _). Sig_Prefix kb pre) (filter (\<lambda>e. is_ready now settle (snd e)) (pe_prefixes pe))
      @ map (\<lambda>((kb, key), _). Sig_Changed kb key) (filter (\<lambda>e. is_ready now settle (snd e)) (pe_keys pe)),
      pe\<lparr>pe_whole := filter (\<lambda>e. \<not> is_ready now settle (snd e)) (pe_whole pe),
         pe_prefixes := filter (\<lambda>e. \<not> is_ready now settle (snd e)) (pe_prefixes pe),
         pe_keys := filter (\<lambda>e. \<not> is_ready now settle (snd e)) (pe_keys pe)\<rparr>)"

definition take_overflowed :: "pending \<Rightarrow> bool \<times> pending" where
  "take_overflowed pe = (pe_overflowed pe, pe\<lparr>pe_overflowed := False\<rparr>)"

section \<open>Kernel events\<close>

record watched =
  wa_kb :: kb_slug
  wa_dir :: fs_path

datatype event_kind = Ek_Access | Ek_Modify_Metadata | Ek_Modify | Ek_Create | Ek_Remove | Ek_Other | Ek_Any

record fs_event =
  ev_rescan :: bool
  ev_kind :: event_kind
  ev_paths :: "fs_path list"

record watch_state =
  ws_directories :: "fs_path set"
  ws_pending :: pending

definition VCS_DIRS :: "string list" where
  "VCS_DIRS = [''.git'', ''.svn'', ''.hg'']"

definition PENDING_CAPACITY :: nat where
  "PENDING_CAPACITY = 65536"

definition is_change :: "event_kind \<Rightarrow> bool" where
  "is_change kind \<longleftrightarrow> \<not> (kind = Ek_Access \<or> kind = Ek_Modify_Metadata)"

definition watched_name :: "string \<Rightarrow> bool" where
  "watched_name name \<longleftrightarrow>
     (case to_str name of None \<Rightarrow> False | Some name \<Rightarrow> \<not> prefix TEMP_PREFIX name \<and> name \<notin> set VCS_DIRS)"

definition key_for :: "watched list \<Rightarrow> fs_path \<Rightarrow> (kb_slug \<times> string) option" where
  "key_for ws path =
     (case find (\<lambda>e. prefix (wa_dir e) path \<and> path \<noteq> wa_dir e) ws of
        None \<Rightarrow> None
      | Some e \<Rightarrow>
          if \<not> list_all watched_name (drop (length (wa_dir e)) path) then None
          else case key_from_path (wa_dir e) path of
            None \<Rightarrow> None
          | Some key \<Rightarrow> if is_internal_path key then None else Some (wa_kb e, key))"

fun collect_directories :: "fs_node \<Rightarrow> fs_path \<Rightarrow> fs_path set" where
  "collect_directories (Dir es) root = insert root (\<Union>(name, n)\<in>set es. collect_directories n (root @ [name]))"
| "collect_directories _ root = {}"

definition directory_count :: "fs_node \<Rightarrow> watched list \<Rightarrow> nat" where
  "directory_count t ws =
     card (\<Union>e\<in>set ws. case node_at t (wa_dir e) of None \<Rightarrow> {} | Some n \<Rightarrow> collect_directories n (wa_dir e))"

definition all_whole :: "watched list \<Rightarrow> nat \<Rightarrow> pending \<Rightarrow> pending" where
  "all_whole ws now pe = fold (\<lambda>e pe. pending_whole_kb pe (wa_kb e) now) ws pe"

definition handle_path :: "watched list \<Rightarrow> (fs_path \<Rightarrow> bool) \<Rightarrow> nat \<Rightarrow> fs_path \<Rightarrow> watch_state \<Rightarrow> watch_state" where
  "handle_path ws is_dir now path st =
     (case key_for ws path of
        None \<Rightarrow> st
      | Some (kb, key) \<Rightarrow>
          if is_dir path then
            st\<lparr>ws_directories := insert path (ws_directories st),
               ws_pending := pending_prefix (ws_pending st) kb (key @ ''/'') now\<rparr>
          else if path \<in> ws_directories st then
            st\<lparr>ws_directories := {known \<in> ws_directories st. known \<noteq> path \<and> \<not> prefix path known},
               ws_pending := pending_prefix (ws_pending st) kb (key @ ''/'') now\<rparr>
          else case try_from_str key of
            Inr key \<Rightarrow> st\<lparr>ws_pending := pending_key (ws_pending st) kb key now\<rparr>
          | Inl _ \<Rightarrow> st)"

definition fs_handle_event :: "watched list \<Rightarrow> (fs_path \<Rightarrow> bool) \<Rightarrow> nat \<Rightarrow> fs_event \<Rightarrow> watch_state \<Rightarrow> watch_state" where
  "fs_handle_event ws is_dir now event st =
     (if ev_rescan event then st\<lparr>ws_pending := all_whole ws now (ws_pending st)\<rparr>
      else if \<not> is_change (ev_kind event) then st
      else fold (handle_path ws is_dir now) (ev_paths event) st)"

definition fs_handle_error :: "watched list \<Rightarrow> nat \<Rightarrow> watch_state \<Rightarrow> watch_state" where
  "fs_handle_error ws now st = st\<lparr>ws_pending := all_whole ws now (ws_pending st)\<rparr>"

text \<open>One turn of \<^verbatim>\<open>settle_loop\<close>: the signals go to the consumer one after the other while it listens.\<close>

definition settle_turn :: "nat \<Rightarrow> nat \<Rightarrow> watch_state \<Rightarrow> fs_signal list \<times> watch_state" where
  "settle_turn now debounce st =
     (let (settled, pe) = take_settled (ws_pending st) now debounce; (_, pe) = take_overflowed pe in
      (settled, st\<lparr>ws_pending := pe\<rparr>))"

section \<open>What pending work covers\<close>

fun sig_covers :: "fs_signal \<Rightarrow> kb_slug \<Rightarrow> string \<Rightarrow> bool" where
  "sig_covers (Sig_Kb k) kb path \<longleftrightarrow> k = kb"
| "sig_covers (Sig_Prefix k pre) kb path \<longleftrightarrow> k = kb \<and> prefix pre path"
| "sig_covers (Sig_Changed k key) kb path \<longleftrightarrow> k = kb \<and> path_str key = path"

text \<open>The signals that would come out if everything settled.\<close>

definition work :: "pending \<Rightarrow> fs_signal set" where
  "work pe = (Sig_Kb \<circ> fst) ` set (pe_whole pe) \<union> (\<lambda>e. Sig_Prefix (fst (fst e)) (snd (fst e))) ` set (pe_prefixes pe)
     \<union> (\<lambda>e. Sig_Changed (fst (fst e)) (snd (fst e))) ` set (pe_keys pe)"

definition work_covers :: "fs_signal set \<Rightarrow> kb_slug \<Rightarrow> string \<Rightarrow> bool" where
  "work_covers S kb path \<longleftrightarrow> (\<exists>sig\<in>S. sig_covers sig kb path)"

lemma work_mem:
  "Sig_Kb kb \<in> work pe \<longleftrightarrow> kb \<in> fst ` set (pe_whole pe)"
  "Sig_Prefix kb pre \<in> work pe \<longleftrightarrow> (kb, pre) \<in> fst ` set (pe_prefixes pe)"
  "Sig_Changed kb key \<in> work pe \<longleftrightarrow> (kb, key) \<in> fst ` set (pe_keys pe)"
  by (force simp: work_def)+

definition ends_slash :: "string \<Rightarrow> bool" where
  "ends_slash s \<longleftrightarrow> s \<noteq> [] \<and> last s = CHR ''/''"

lemma ends_slash_snoc [simp]: "ends_slash (s @ ''/'')"
  by (simp add: ends_slash_def)

lemma ancestor_prefixes_mem: "p \<in> set (ancestor_prefixes path) \<longleftrightarrow> ends_slash p \<and> prefix p path"
proof
  assume "p \<in> set (ancestor_prefixes path)"
  then obtain i where i: "i < length path" "path ! i = CHR ''/''" "p = take (Suc i) path" by (auto simp: ancestor_prefixes_def)
  then have "last p = path ! i" "p \<noteq> []" by (auto simp: take_Suc_conv_app_nth)
  then show "ends_slash p \<and> prefix p path" using i by (auto simp: ends_slash_def take_is_prefix)
next
  assume p: "ends_slash p \<and> prefix p path"
  then obtain r where r: "path = p @ r" by (auto simp: prefix_def)
  then have n: "0 < length p" using p by (simp add: ends_slash_def)
  then have "path ! (length p - 1) = CHR ''/''" "length p - 1 < length path" "p = take (Suc (length p - 1)) path"
    using p r by (auto simp: ends_slash_def nth_append last_conv_nth less_eq_Suc_le)
  then show "p \<in> set (ancestor_prefixes path)" unfolding ancestor_prefixes_def by force
qed

text \<open>The invariant: nothing is pending below something broader, and prefixes end in a slash.\<close>

fun sig_kb :: "fs_signal \<Rightarrow> kb_slug" where
  "sig_kb (Sig_Kb k) = k"
| "sig_kb (Sig_Prefix k _) = k"
| "sig_kb (Sig_Changed k _) = k"

fun subsumes :: "fs_signal \<Rightarrow> fs_signal \<Rightarrow> bool" where
  "subsumes (Sig_Kb k) sig \<longleftrightarrow> sig_kb sig = k"
| "subsumes (Sig_Prefix k pre) (Sig_Prefix k' pre') \<longleftrightarrow> k = k' \<and> prefix pre pre'"
| "subsumes (Sig_Prefix k pre) (Sig_Changed k' key) \<longleftrightarrow> k = k' \<and> prefix pre (path_str key)"
| "subsumes _ _ \<longleftrightarrow> False"

definition work_ok :: "fs_signal set \<Rightarrow> bool" where
  "work_ok S \<longleftrightarrow> (\<forall>kb pre. Sig_Prefix kb pre \<in> S \<longrightarrow> ends_slash pre) \<and> (\<forall>a\<in>S. \<forall>b\<in>S. a \<noteq> b \<longrightarrow> \<not> subsumes a b)"

definition pending_ok :: "pending \<Rightarrow> bool" where
  "pending_ok pe \<longleftrightarrow>
     distinct (map fst (pe_whole pe)) \<and> distinct (map fst (pe_prefixes pe)) \<and> distinct (map fst (pe_keys pe)) \<and> work_ok (work pe)"

lemma covered_iff:
  assumes "pending_ok pe"
  shows "covered pe kb path \<longleftrightarrow> Sig_Kb kb \<in> work pe \<or> (\<exists>pre. Sig_Prefix kb pre \<in> work pe \<and> prefix pre path)"
proof -
  have "ends_slash pre" if "(kb, pre) \<in> fst ` set (pe_prefixes pe)" for pre
    using assms that unfolding pending_ok_def work_ok_def by (metis work_mem(2))
  then show ?thesis
    unfolding covered_def work_mem map_of_eq_None_iff list_ex_iff by (auto simp del: split_paired_Ex simp: ancestor_prefixes_mem Bex_def)
qed

lemma work_eqI:
  assumes "\<And>kb. Sig_Kb kb \<in> work pe \<longleftrightarrow> Sig_Kb kb \<in> S" "\<And>kb pre. Sig_Prefix kb pre \<in> work pe \<longleftrightarrow> Sig_Prefix kb pre \<in> S"
    "\<And>kb key. Sig_Changed kb key \<in> work pe \<longleftrightarrow> Sig_Changed kb key \<in> S"
  shows "work pe = S"
proof (rule set_eqI)
  show "sig \<in> work pe \<longleftrightarrow> sig \<in> S" for sig using assms by (cases sig) auto
qed

lemma filter_keys: "x \<in> fst ` set (filter (\<lambda>e. P (fst e)) es) \<longleftrightarrow> P x \<and> x \<in> fst ` set es"
  by force

lemma work_whole_kb: "work (pending_whole_kb pe kb now) = insert (Sig_Kb kb) {sig \<in> work pe. \<forall>path. \<not> sig_covers sig kb path}"
  by (rule work_eqI) (auto simp: work_mem pending_whole_kb_def dom_update filter_keys[of _ "\<lambda>x. fst x \<noteq> kb"])

lemma work_update:
  "work (pe\<lparr>pe_prefixes := AList.update (kb, pre) now (pe_prefixes pe)\<rparr>) = insert (Sig_Prefix kb pre) (work pe)"
  "work (pe\<lparr>pe_keys := AList.update (kb, key) now (pe_keys pe)\<rparr>) = insert (Sig_Changed kb key) (work pe)"
  by (rule work_eqI; simp add: work_mem dom_update)+

lemma work_overflowed [simp]: "work (pe\<lparr>pe_overflowed := b\<rparr>) = work pe" "pending_ok (pe\<lparr>pe_overflowed := b\<rparr>) = pending_ok pe"
  by (simp_all add: work_def pending_ok_def)

lemma work_ok_mono: "work_ok S \<Longrightarrow> S' \<subseteq> S \<Longrightarrow> work_ok S'"
  unfolding work_ok_def by blast

lemma sig_covers_any: "sig_covers sig kb path \<Longrightarrow> sig = Sig_Kb kb \<or> (\<exists>pre. sig = Sig_Prefix kb pre) \<or> (\<exists>key. sig = Sig_Changed kb key)"
  by (cases sig) auto

lemma work_ok_insert:
  assumes "work_ok S" "\<And>kb pre. x = Sig_Prefix kb pre \<Longrightarrow> ends_slash pre" "\<And>a. a \<in> S \<Longrightarrow> a \<noteq> x \<Longrightarrow> \<not> subsumes a x \<and> \<not> subsumes x a"
  shows "work_ok (insert x S)"
  using assms unfolding work_ok_def by blast

lemma sig_covers_kb: "(\<forall>path. \<not> sig_covers sig kb path) \<longleftrightarrow> sig_kb sig \<noteq> kb"
  by (cases sig) auto

lemma subsumes_kb: "subsumes a b \<Longrightarrow> sig_kb a = sig_kb b"
  by (induction a b rule: subsumes.induct) auto

lemma work_ok_whole: "work_ok S \<Longrightarrow> work_ok (insert (Sig_Kb kb) {sig \<in> S. \<forall>path. \<not> sig_covers sig kb path})"
  by (rule work_ok_insert[OF work_ok_mono]) (auto simp: sig_covers_kb dest: subsumes_kb)

definition narrowed :: "fs_signal set \<Rightarrow> kb_slug \<Rightarrow> string \<Rightarrow> fs_signal set" where
  "narrowed S kb pre = {sig \<in> S. \<not> (\<exists>p. sig = Sig_Prefix kb p \<and> prefix pre p) \<and> \<not> (\<exists>key. sig = Sig_Changed kb key \<and> prefix pre (path_str key))}"

lemma work_ok_prefix:
  assumes "work_ok S" "ends_slash pre" "Sig_Kb kb \<notin> S" "\<nexists>p. Sig_Prefix kb p \<in> S \<and> prefix p pre"
  shows "work_ok (insert (Sig_Prefix kb pre) (narrowed S kb pre))"
proof -
  have "\<not> subsumes a (Sig_Prefix kb pre) \<and> \<not> subsumes (Sig_Prefix kb pre) a" if "a \<in> narrowed S kb pre" "a \<noteq> Sig_Prefix kb pre" for a
    using that assms(3,4) by (cases a) (auto simp: narrowed_def)
  moreover have "work_ok (narrowed S kb pre)" by (rule work_ok_mono[OF assms(1)]) (auto simp: narrowed_def)
  ultimately show ?thesis using assms(2) by (intro work_ok_insert) auto
qed

lemma work_ok_key:
  assumes "work_ok S" "Sig_Kb kb \<notin> S" "\<nexists>p. Sig_Prefix kb p \<in> S \<and> prefix p (path_str key)"
  shows "work_ok (insert (Sig_Changed kb key) S)"
proof (rule work_ok_insert[OF assms(1)])
  show "\<not> subsumes a (Sig_Changed kb key) \<and> \<not> subsumes (Sig_Changed kb key) a" if "a \<in> S" for a
    using that assms(2,3) by (cases a) auto
qed simp

lemma work_narrow:
  "work (pe\<lparr>pe_prefixes := filter (\<lambda>((k, p), _). k \<noteq> kb \<or> \<not> prefix pre p) (pe_prefixes pe),
     pe_keys := filter (\<lambda>((k, key), _). k \<noteq> kb \<or> \<not> prefix pre (path_str key)) (pe_keys pe)\<rparr>) = narrowed (work pe) kb pre"
  by (rule work_eqI) (force simp: work_mem narrowed_def)+

lemma distinct_filter_keys: "distinct (map fst es) \<Longrightarrow> distinct (map fst (filter P es))"
  by (rule distinct_map_filter)

lemma pending_whole_kb_ok: "pending_ok pe \<Longrightarrow> pending_ok (pending_whole_kb pe kb now)"
  unfolding pending_ok_def work_whole_kb
  by (simp add: work_ok_whole pending_whole_kb_def distinct_filter_keys distinct_update)

lemma at_capacity_eq: "at_capacity pe kb = (b, pe') \<Longrightarrow> pe' = pe\<lparr>pe_overflowed := pe_overflowed pe \<or> b\<rparr> \<and> (b \<longleftrightarrow> pe_capacity pe \<le> len_for pe kb)"
  by (cases pe) (auto simp: at_capacity_def split: if_splits)

text \<open>What each report leaves pending.\<close>

lemma pending_key_work:
  assumes "pending_ok pe"
  shows "pending_ok (pending_key pe kb key now)" "work (pending_key pe kb key now) \<in>
    {work pe, work (pending_whole_kb pe kb now), insert (Sig_Changed kb key) (work pe)}"
    "work_covers (work (pending_key pe kb key now)) kb (path_str key)"
proof -
  obtain b pe1 where c: "at_capacity pe kb = (b, pe1)" by fastforce
  note pe1 = at_capacity_eq[OF c]
  have ok1: "pending_ok pe1" "work pe1 = work pe" using assms pe1 by auto
  have upd: "pending_ok (pe1\<lparr>pe_keys := AList.update (kb, key) now (pe_keys pe1)\<rparr>)" if "\<not> covered pe kb (path_str key)"
    using ok1 that covered_iff[OF assms] work_ok_key[of "work pe" kb key]
    unfolding pending_ok_def work_update by (simp add: distinct_update)
  show "pending_ok (pending_key pe kb key now)"
    using c upd ok1 pending_whole_kb_ok[of pe1 kb now] assms by (simp add: pending_key_def)
  show "work (pending_key pe kb key now) \<in> {work pe, work (pending_whole_kb pe kb now), insert (Sig_Changed kb key) (work pe)}"
    using c ok1(2) by (simp add: pending_key_def work_update work_whole_kb)
  show "work_covers (work (pending_key pe kb key now)) kb (path_str key)"
    using c ok1(2) covered_iff[OF assms, of kb "path_str key"]
    by (auto simp: pending_key_def work_update work_whole_kb work_covers_def intro: bexI[rotated])
qed

lemma pending_prefix_work:
  assumes "pending_ok pe" "ends_slash pre"
  shows "pending_ok (pending_prefix pe kb pre now)" "work (pending_prefix pe kb pre now) \<in>
    {work pe, insert (Sig_Kb kb) {sig \<in> narrowed (work pe) kb pre. \<forall>path. \<not> sig_covers sig kb path}, insert (Sig_Prefix kb pre) (narrowed (work pe) kb pre)}"
    "prefix pre path \<Longrightarrow> work_covers (work (pending_prefix pe kb pre now)) kb path"
proof -
  let ?pe = "pe\<lparr>pe_prefixes := filter (\<lambda>((k, p), _). k \<noteq> kb \<or> \<not> prefix pre p) (pe_prefixes pe),
     pe_keys := filter (\<lambda>((k, key), _). k \<noteq> kb \<or> \<not> prefix pre (path_str key)) (pe_keys pe)\<rparr>"
  obtain b pe1 where c: "at_capacity ?pe kb = (b, pe1)" by fastforce
  note pe1 = at_capacity_eq[OF c]
  have sub: "narrowed (work pe) kb pre \<subseteq> work pe" by (auto simp: narrowed_def)
  have ok0: "pending_ok ?pe" using assms(1) work_ok_mono[OF _ sub] unfolding pending_ok_def work_narrow by (simp add: distinct_filter_keys)
  have ok1: "pending_ok pe1" "work pe1 = narrowed (work pe) kb pre" using ok0 pe1 work_narrow by auto
  have upd: "pending_ok (pe1\<lparr>pe_prefixes := AList.update (kb, pre) now (pe_prefixes pe1)\<rparr>)" if "\<not> covered pe kb pre"
    using ok1 that covered_iff[OF assms(1)] work_ok_prefix[of "work pe" pre kb] assms
    unfolding pending_ok_def work_update by (simp add: distinct_update)
  have eq: "pending_prefix pe kb pre now = (if covered pe kb pre then pe else if b then pending_whole_kb pe1 kb now
      else pe1\<lparr>pe_prefixes := AList.update (kb, pre) now (pe_prefixes pe1)\<rparr>)"
    using c by (simp add: pending_prefix_def)
  show "pending_ok (pending_prefix pe kb pre now)" using upd ok1 pending_whole_kb_ok[of pe1 kb now] assms by (simp add: eq)
  show "work (pending_prefix pe kb pre now) \<in>
    {work pe, insert (Sig_Kb kb) {sig \<in> narrowed (work pe) kb pre. \<forall>path. \<not> sig_covers sig kb path}, insert (Sig_Prefix kb pre) (narrowed (work pe) kb pre)}"
    using ok1(2) by (simp add: eq work_update work_whole_kb)
  show "work_covers (work (pending_prefix pe kb pre now)) kb path" if path: "prefix pre path"
  proof (cases "covered pe kb pre")
    case True
    then consider "Sig_Kb kb \<in> work pe" | p where "Sig_Prefix kb p \<in> work pe" "prefix p path"
      using covered_iff[OF assms(1)] path prefix_order.trans by blast
    then show ?thesis using True by cases (auto simp: eq work_covers_def intro: bexI[rotated])
  next
    case False
    then show ?thesis using path by (auto simp: eq work_update work_whole_kb work_covers_def)
  qed
qed

section \<open>Nothing pending is lost\<close>

lemma covers_mono: "work_covers S kb x \<Longrightarrow> S \<subseteq> S' \<Longrightarrow> work_covers S' kb x"
  by (auto simp: work_covers_def)

lemma covers_whole: "work_covers S k x \<Longrightarrow> work_covers (insert (Sig_Kb kb) {sig \<in> S. \<forall>path. \<not> sig_covers sig kb path}) k x"
proof -
  assume "work_covers S k x"
  then obtain sig where sig: "sig \<in> S" "sig_covers sig k x" by (auto simp: work_covers_def)
  then have "sig_kb sig = k" by (cases sig) auto
  then show ?thesis using sig by (cases "k = kb") (auto simp: work_covers_def sig_covers_kb)
qed

lemma covers_narrowed: "work_covers S k x \<Longrightarrow> work_covers (insert (Sig_Prefix kb pre) (narrowed S kb pre)) k x"
proof -
  assume "work_covers S k x"
  then obtain sig where sig: "sig \<in> S" "sig_covers sig k x" by (auto simp: work_covers_def)
  show ?thesis
  proof (cases "sig \<in> narrowed S kb pre")
    case False
    then have "k = kb \<and> prefix pre x" using sig by (cases sig) (auto simp: narrowed_def)
    then show ?thesis by (simp add: work_covers_def)
  qed (use sig in \<open>auto simp: work_covers_def\<close>)
qed

lemma covers_narrowed_whole:
  "work_covers S k x \<Longrightarrow> work_covers (insert (Sig_Kb kb) {sig \<in> narrowed S kb pre. \<forall>path. \<not> sig_covers sig kb path}) k x"
proof -
  assume "work_covers S k x"
  then obtain sig where sig: "sig \<in> S" "sig_covers sig k x" by (auto simp: work_covers_def)
  then have "sig_kb sig = k" by (cases sig) auto
  moreover have "sig \<in> narrowed S kb pre" if "sig_kb sig \<noteq> kb" using that sig(1) by (cases sig) (auto simp: narrowed_def)
  ultimately show ?thesis using sig by (cases "k = kb") (auto simp: work_covers_def sig_covers_kb)
qed

lemma reports_keep:
  assumes "work_covers (work pe) k x"
  shows "work_covers (work (pending_whole_kb pe kb now)) k x"
    "pending_ok pe \<Longrightarrow> ends_slash pre \<Longrightarrow> work_covers (work (pending_prefix pe kb pre now)) k x"
    "pending_ok pe \<Longrightarrow> work_covers (work (pending_key pe kb key now)) k x"
proof -
  show w: "work_covers (work (pending_whole_kb pe kb now)) k x" using covers_whole[OF assms] by (simp add: work_whole_kb)
  show "work_covers (work (pending_prefix pe kb pre now)) k x" if "pending_ok pe" "ends_slash pre"
    using pending_prefix_work(2)[OF that, of kb now] covers_narrowed[OF assms] covers_narrowed_whole[OF assms] assms by auto
  show "work_covers (work (pending_key pe kb key now)) k x" if "pending_ok pe"
    using pending_key_work(2)[OF that, of kb key now] w assms covers_mono[OF assms] by auto
qed

lemma filter_split: "f ` set (filter P xs) \<union> f ` set (filter (\<lambda>x. \<not> P x) xs) = f ` set xs"
  by auto

lemma take_settled_work:
  assumes "take_settled pe now settle = (out, pe')"
  shows "set out \<union> work pe' = work pe" "pending_ok pe \<Longrightarrow> pending_ok pe'"
    "\<And>e. e \<in> set (pe_whole pe') \<Longrightarrow> now - snd e < settle" "\<And>e. e \<in> set (pe_prefixes pe') \<Longrightarrow> now - snd e < settle"
    "\<And>e. e \<in> set (pe_keys pe') \<Longrightarrow> now - snd e < settle"
proof -
  have out: "set out = (Sig_Kb \<circ> fst) ` set (filter (\<lambda>e. is_ready now settle (snd e)) (pe_whole pe))
      \<union> (\<lambda>e. Sig_Prefix (fst (fst e)) (snd (fst e))) ` set (filter (\<lambda>e. is_ready now settle (snd e)) (pe_prefixes pe))
      \<union> (\<lambda>e. Sig_Changed (fst (fst e)) (snd (fst e))) ` set (filter (\<lambda>e. is_ready now settle (snd e)) (pe_keys pe))"
    and pe': "pe' = pe\<lparr>pe_whole := filter (\<lambda>e. \<not> is_ready now settle (snd e)) (pe_whole pe),
         pe_prefixes := filter (\<lambda>e. \<not> is_ready now settle (snd e)) (pe_prefixes pe),
         pe_keys := filter (\<lambda>e. \<not> is_ready now settle (snd e)) (pe_keys pe)\<rparr>"
    using assms by (simp_all only: take_settled_def prod.inject case_prod_beta' set_append set_map comp_def Un_assoc) (elim conjE; hypsubst; simp add: Un_assoc)+
  show all: "set out \<union> work pe' = work pe"
    unfolding out pe' work_def using filter_split by (simp add: Un_ac) blast
  show "pending_ok pe'" if "pending_ok pe"
    using that work_ok_mono[of "work pe" "work pe'"] all by (auto simp: pending_ok_def pe' distinct_filter_keys)
  show "\<And>e. e \<in> set (pe_whole pe') \<Longrightarrow> now - snd e < settle" "\<And>e. e \<in> set (pe_prefixes pe') \<Longrightarrow> now - snd e < settle"
    "\<And>e. e \<in> set (pe_keys pe') \<Longrightarrow> now - snd e < settle"
    by (auto simp: pe' is_ready_def)
qed

section \<open>Bounded work\<close>

definition pending_bounded :: "pending \<Rightarrow> bool" where
  "pending_bounded pe \<longleftrightarrow> (\<forall>kb. len_for pe kb \<le> max 1 (pe_capacity pe))"

lemma filter_update_len:
  "length (filter (\<lambda>e. Q (fst e)) (AList.update k v al)) \<le> length (filter (\<lambda>e. Q (fst e)) al) + (if Q k then 1 else 0)"
  by (induction al) auto

lemma len_for_update:
  "len_for (pe\<lparr>pe_keys := AList.update (kb, key) now (pe_keys pe)\<rparr>) k \<le> len_for pe k + (if k = kb then 1 else 0)"
  "len_for (pe\<lparr>pe_prefixes := AList.update (kb, pre) now (pe_prefixes pe)\<rparr>) k \<le> len_for pe k + (if k = kb then 1 else 0)"
  using filter_update_len[of "\<lambda>x. fst x = k" "(kb, key)" now "pe_keys pe"] filter_update_len[of "\<lambda>x. fst x = k" "(kb, pre)" now "pe_prefixes pe"]
  by (auto simp: len_for_def)

lemma filter_other_kb: "filter (\<lambda>e. fst (fst e) = k) (filter (\<lambda>e. fst (fst e) \<noteq> kb) es) = (if k = kb then [] else filter (\<lambda>e. fst (fst e) = k) es)"
  by (induction es) auto

lemma len_for_whole: "len_for (pending_whole_kb pe kb now) k = (if k = kb then 1 else len_for pe k)"
  by (simp add: len_for_def pending_whole_kb_def update_conv' filter_other_kb del: filter_filter)

lemma length_filter_filter: "length (filter Q (filter P xs)) \<le> length (filter Q xs)"
  by (induction xs) auto

lemma map_of_filter_None: "map_of al k = None \<Longrightarrow> map_of (filter P al) k = None"
  by (auto simp: map_of_eq_None_iff)

lemma len_for_less:
  assumes "\<And>e. e \<in> set (pe_whole pe') \<Longrightarrow> e \<in> set (pe_whole pe)" "pe_prefixes pe' = filter P (pe_prefixes pe)" "pe_keys pe' = filter Q (pe_keys pe)"
  shows "len_for pe' k \<le> len_for pe k"
proof -
  have "map_of (pe_whole pe) k = None \<Longrightarrow> map_of (pe_whole pe') k = None" using assms(1) by (force simp: map_of_eq_None_iff)
  then show ?thesis
    unfolding len_for_def assms(2,3) by (intro add_mono length_filter_filter) simp
qed

lemma len_for_overflowed [simp]: "len_for (pe\<lparr>pe_overflowed := b\<rparr>) k = len_for pe k"
  by (simp add: len_for_def)

lemma pending_whole_kb_bounded: "pending_bounded pe \<Longrightarrow> pending_bounded (pending_whole_kb pe kb now)"
  by (simp add: pending_bounded_def len_for_whole) (simp add: pending_whole_kb_def)

lemma pending_key_bounded: "pending_bounded pe \<Longrightarrow> pending_bounded (pending_key pe kb key now)"
proof -
  assume b: "pending_bounded pe"
  obtain f pe1 where c: "at_capacity pe kb = (f, pe1)" by fastforce
  note pe1 = at_capacity_eq[OF c]
  have b1: "pending_bounded pe1" using b pe1 by (simp add: pending_bounded_def)
  have "pending_bounded (pe1\<lparr>pe_keys := AList.update (kb, key) now (pe_keys pe1)\<rparr>)" if "\<not> f"
    unfolding pending_bounded_def
  proof
    fix k
    have "k = kb \<Longrightarrow> len_for pe1 k < pe_capacity pe1" using pe1 that by auto
    then show "len_for (pe1\<lparr>pe_keys := AList.update (kb, key) now (pe_keys pe1)\<rparr>) k \<le> max 1 (pe_capacity (pe1\<lparr>pe_keys := AList.update (kb, key) now (pe_keys pe1)\<rparr>))"
      using len_for_update(1)[where pe = pe1 and kb = kb and key = key and now = now and k = k] b1 by (cases "k = kb") (auto simp: pending_bounded_def intro: order_trans)
  qed
  then show ?thesis using c b b1 pending_whole_kb_bounded by (auto simp: pending_key_def)
qed

lemma pending_prefix_bounded: "pending_bounded pe \<Longrightarrow> pending_bounded (pending_prefix pe kb pre now)"
proof -
  assume b: "pending_bounded pe"
  let ?pe = "pe\<lparr>pe_prefixes := filter (\<lambda>((k, p), _). k \<noteq> kb \<or> \<not> prefix pre p) (pe_prefixes pe),
     pe_keys := filter (\<lambda>((k, key), _). k \<noteq> kb \<or> \<not> prefix pre (path_str key)) (pe_keys pe)\<rparr>"
  obtain f pe1 where c: "at_capacity ?pe kb = (f, pe1)" by fastforce
  note pe1 = at_capacity_eq[OF c]
  have "len_for ?pe k \<le> len_for pe k" for k by (rule len_for_less) auto
  then have "pending_bounded ?pe" using b by (auto simp: pending_bounded_def intro: order_trans)
  then have b1: "pending_bounded pe1" using pe1 by (simp add: pending_bounded_def)
  have "pending_bounded (pe1\<lparr>pe_prefixes := AList.update (kb, pre) now (pe_prefixes pe1)\<rparr>)" if "\<not> f"
    unfolding pending_bounded_def
  proof
    fix k
    have "k = kb \<Longrightarrow> len_for pe1 k < pe_capacity pe1" using pe1 that by auto
    then show "len_for (pe1\<lparr>pe_prefixes := AList.update (kb, pre) now (pe_prefixes pe1)\<rparr>) k \<le> max 1 (pe_capacity (pe1\<lparr>pe_prefixes := AList.update (kb, pre) now (pe_prefixes pe1)\<rparr>))"
      using len_for_update(2)[where pe = pe1 and kb = kb and pre = pre and now = now and k = k] b1 by (cases "k = kb") (auto simp: pending_bounded_def intro: order_trans)
  qed
  then show ?thesis using c b b1 pending_whole_kb_bounded by (auto simp: pending_prefix_def)
qed

lemma take_settled_bounded: "pending_bounded pe \<Longrightarrow> take_settled pe now settle = (out, pe') \<Longrightarrow> pending_bounded pe'"
proof -
  assume b: "pending_bounded pe" and t: "take_settled pe now settle = (out, pe')"
  have "len_for pe' k \<le> len_for pe k" for k by (rule len_for_less) (use t in \<open>auto simp: take_settled_def\<close>)
  moreover have "pe_capacity pe' = pe_capacity pe" using t by (auto simp: take_settled_def)
  ultimately show ?thesis using b by (auto simp: pending_bounded_def intro: order_trans)
qed

section \<open>Runs\<close>

datatype watch_action = Wa_Event fs_event "fs_path \<Rightarrow> bool" nat | Wa_Error nat | Wa_Settle nat nat

fun watch_step :: "watched list \<Rightarrow> watch_action \<Rightarrow> watch_state \<Rightarrow> fs_signal list \<times> watch_state" where
  "watch_step ws (Wa_Event event is_dir now) st = ([], fs_handle_event ws is_dir now event st)"
| "watch_step ws (Wa_Error now) st = ([], fs_handle_error ws now st)"
| "watch_step ws (Wa_Settle now debounce) st = settle_turn now debounce st"

fun watch_run :: "watched list \<Rightarrow> watch_action list \<Rightarrow> watch_state \<Rightarrow> fs_signal list \<times> watch_state" where
  "watch_run ws [] st = ([], st)"
| "watch_run ws (act # acts) st =
     (let (out, st) = watch_step ws act st; (rest, st) = watch_run ws acts st in (out @ rest, st))"

definition watch_start :: "fs_node \<Rightarrow> watched list \<Rightarrow> watch_state" where
  "watch_start t ws =
     \<lparr>ws_directories = (\<Union>e\<in>set ws. case node_at t (wa_dir e) of None \<Rightarrow> {} | Some n \<Rightarrow> collect_directories n (wa_dir e)),
      ws_pending = pending_new PENDING_CAPACITY\<rparr>"

definition watch_ok :: "watch_state \<Rightarrow> bool" where
  "watch_ok st \<longleftrightarrow> pending_ok (ws_pending st) \<and> pending_bounded (ws_pending st)"

lemma watch_start_ok: "watch_ok (watch_start t ws)"
  by (simp add: watch_ok_def watch_start_def pending_new_def pending_ok_def work_ok_def work_def pending_bounded_def len_for_def)

lemma all_whole_ok:
  "pending_ok pe \<Longrightarrow> pending_ok (all_whole ws now pe)" "pending_bounded pe \<Longrightarrow> pending_bounded (all_whole ws now pe)"
  "work_covers (work pe) kb x \<Longrightarrow> work_covers (work (all_whole ws now pe)) kb x"
  by (induction ws arbitrary: pe) (auto simp: all_whole_def pending_whole_kb_ok pending_whole_kb_bounded reports_keep(1))

lemma all_whole_covers: "kb \<in> wa_kb ` set ws \<Longrightarrow> work_covers (work (all_whole ws now pe)) kb x"
proof (induction ws arbitrary: pe)
  case (Cons e ws)
  have "work_covers (work (all_whole ws now (pending_whole_kb pe (wa_kb e) now))) (wa_kb e) x"
    by (rule all_whole_ok(3)) (simp add: work_whole_kb work_covers_def)
  then show ?case using Cons by (auto simp: all_whole_def)
qed simp

lemma handle_path_ok: "watch_ok st \<Longrightarrow> watch_ok (handle_path ws is_dir now path st)"
  by (auto simp: watch_ok_def handle_path_def pending_prefix_work(1) pending_key_work(1) pending_prefix_bounded pending_key_bounded
      split: option.splits sum.splits)

lemma handle_path_keeps:
  "watch_ok st \<Longrightarrow> work_covers (work (ws_pending st)) kb x \<Longrightarrow> work_covers (work (ws_pending (handle_path ws is_dir now path st))) kb x"
  by (auto simp: watch_ok_def handle_path_def reports_keep(2,3) split: option.splits sum.splits)

lemma handle_paths_ok:
  "watch_ok st \<Longrightarrow> watch_ok (fold (handle_path ws is_dir now) paths st)"
  "watch_ok st \<Longrightarrow> work_covers (work (ws_pending st)) kb x \<Longrightarrow> work_covers (work (ws_pending (fold (handle_path ws is_dir now) paths st))) kb x"
  by (induction paths arbitrary: st) (auto simp: handle_path_ok handle_path_keeps)

lemma watch_step_ok:
  assumes "watch_ok st" "watch_step ws act st = (out, st')"
  shows "watch_ok st'" "work_covers (work (ws_pending st)) kb x \<Longrightarrow> work_covers (set out \<union> work (ws_pending st')) kb x"
proof -
  have "watch_ok st' \<and> (work_covers (work (ws_pending st)) kb x \<longrightarrow> work_covers (set out \<union> work (ws_pending st')) kb x)"
  proof (cases act)
    case (Wa_Event event is_dir now)
    then show ?thesis
      using assms all_whole_ok[of "ws_pending st"] handle_paths_ok[OF assms(1)]
      by (auto simp: fs_handle_event_def watch_ok_def)
  next
    case (Wa_Error now)
    then show ?thesis using assms all_whole_ok[of "ws_pending st"] by (auto simp: fs_handle_error_def watch_ok_def)
  next
    case (Wa_Settle now debounce)
    obtain pe where t: "take_settled (ws_pending st) now debounce = (out, pe)" and st': "st' = st\<lparr>ws_pending := pe\<lparr>pe_overflowed := False\<rparr>\<rparr>"
      using assms(2) Wa_Settle by (auto simp: settle_turn_def take_overflowed_def split: prod.splits)
    have "pending_bounded (pe\<lparr>pe_overflowed := False\<rparr>)"
      using take_settled_bounded[OF _ t] assms(1) by (simp add: watch_ok_def pending_bounded_def)
    then show ?thesis using take_settled_work(1,2)[OF t] assms(1) by (simp add: watch_ok_def st')
  qed
  then show "watch_ok st'" "work_covers (work (ws_pending st)) kb x \<Longrightarrow> work_covers (set out \<union> work (ws_pending st')) kb x" by auto
qed

lemma watch_run_ok:
  "watch_ok st \<Longrightarrow> watch_run ws acts st = (out, st') \<Longrightarrow>
     watch_ok st' \<and> (work_covers (work (ws_pending st)) kb x \<longrightarrow> work_covers (set out \<union> work (ws_pending st')) kb x)"
proof (induction acts arbitrary: st out)
  case (Cons act acts)
  obtain o1 st1 where s: "watch_step ws act st = (o1, st1)" by fastforce
  obtain o2 where r: "watch_run ws acts st1 = (o2, st')" and out: "out = o1 @ o2"
    using Cons.prems(2) s by (auto split: prod.splits)
  note step = watch_step_ok[OF Cons.prems(1) s] and ih = Cons.IH[OF watch_step_ok(1)[OF Cons.prems(1) s] r]
  have "work_covers (set out \<union> work (ws_pending st')) kb x" if "work_covers (work (ws_pending st)) kb x"
  proof -
    have "work_covers (set o1) kb x \<or> work_covers (work (ws_pending st1)) kb x" using step(2)[OF that] by (auto simp: work_covers_def)
    then show ?thesis using ih covers_mono[of _ kb x] by (auto simp: out work_covers_def)
  qed
  then show ?case using ih by blast
qed simp

text \<open>What an event asks to be looked at again.\<close>

definition must_reexamine :: "watched list \<Rightarrow> (fs_path \<Rightarrow> bool) \<Rightarrow> nat \<Rightarrow> fs_event \<Rightarrow> watch_state \<Rightarrow> kb_slug \<Rightarrow> string \<Rightarrow> bool" where
  "must_reexamine ws is_dir now event st kb x \<longleftrightarrow>
     (if ev_rescan event then kb \<in> wa_kb ` set ws
      else is_change (ev_kind event) \<and>
        (\<exists>before path rest key. ev_paths event = before @ path # rest \<and> key_for ws path = Some (kb, key)
           \<and> (if is_dir path \<or> path \<in> ws_directories (fold (handle_path ws is_dir now) before st) then prefix (key @ ''/'') x
              else try_from_str key = Inr (ObjectPath x))))"

lemma event_covers:
  assumes ok: "watch_ok st" and m: "must_reexamine ws is_dir now event st kb x"
  shows "work_covers (work (ws_pending (fs_handle_event ws is_dir now event st))) kb x"
proof (cases "ev_rescan event")
  case True
  then show ?thesis using m by (simp add: must_reexamine_def fs_handle_event_def all_whole_covers)
next
  case False
  then obtain before path rest key where p: "is_change (ev_kind event)" "ev_paths event = before @ path # rest" "key_for ws path = Some (kb, key)"
    and x: "if is_dir path \<or> path \<in> ws_directories (fold (handle_path ws is_dir now) before st) then prefix (key @ ''/'') x
              else try_from_str key = Inr (ObjectPath x)"
    using m by (auto simp: must_reexamine_def)
  let ?st = "fold (handle_path ws is_dir now) before st"
  have ok1: "watch_ok ?st" using handle_paths_ok(1)[OF ok] .
  then have pok: "pending_ok (ws_pending ?st)" by (simp add: watch_ok_def)
  have "work_covers (work (ws_pending (handle_path ws is_dir now path ?st))) kb x"
    using p(3) x pending_prefix_work(3)[OF pok, of "key @ ''/''"] pending_key_work(3)[OF pok, of kb "ObjectPath x" now]
    by (auto simp: handle_path_def split: if_splits)
  then show ?thesis
    using handle_paths_ok(2)[OF handle_path_ok[OF ok1]] p(1,2) False by (simp add: fs_handle_event_def)
qed

lemma capacity_kept:
  "pe_capacity (pending_whole_kb pe kb now) = pe_capacity pe" "pe_capacity (pending_prefix pe kb pre now) = pe_capacity pe"
  "pe_capacity (pending_key pe kb key now) = pe_capacity pe" "pe_capacity (all_whole ws now pe) = pe_capacity pe"
proof -
  show w: "pe_capacity (pending_whole_kb pe kb now) = pe_capacity pe" for pe kb by (simp add: pending_whole_kb_def)
  show "pe_capacity (pending_prefix pe kb pre now) = pe_capacity pe" "pe_capacity (pending_key pe kb key now) = pe_capacity pe"
    by (simp_all add: pending_prefix_def pending_key_def at_capacity_def w Let_def)
  show "pe_capacity (all_whole ws now pe) = pe_capacity pe"
    by (induction ws arbitrary: pe) (simp_all add: all_whole_def w)
qed

lemma handle_path_capacity: "pe_capacity (ws_pending (handle_path ws is_dir now path st)) = pe_capacity (ws_pending st)"
  by (auto simp: handle_path_def capacity_kept split: option.splits sum.splits)

lemma handle_paths_capacity: "pe_capacity (ws_pending (fold (handle_path ws is_dir now) paths st)) = pe_capacity (ws_pending st)"
  by (induction paths arbitrary: st) (simp_all add: handle_path_capacity)

lemma watch_step_capacity: "watch_step ws act st = (out, st') \<Longrightarrow> pe_capacity (ws_pending st') = pe_capacity (ws_pending st)"
  by (cases act)
    (auto simp: fs_handle_event_def fs_handle_error_def settle_turn_def take_settled_def take_overflowed_def capacity_kept handle_paths_capacity)

lemma watch_run_capacity: "watch_run ws acts st = (out, st') \<Longrightarrow> pe_capacity (ws_pending st') = pe_capacity (ws_pending st)"
proof (induction acts arbitrary: st out)
  case (Cons act acts)
  obtain o1 st1 where s: "watch_step ws act st = (o1, st1)" by fastforce
  obtain o2 where r: "watch_run ws acts st1 = (o2, st')" using Cons.prems s by (auto split: prod.splits)
  show ?case using Cons.IH[OF r] watch_step_capacity[OF s] by simp
qed simp

section \<open>Properties\<close>



text \<open>
  Pending work stays minimal and bounded.  At every moment no pending look is contained in another one,
  and a knowledge base never has more than \<open>PENDING_CAPACITY\<close> of them; a turn of the settle loop sends
  exactly the work that has been quiet for the debounce time and keeps the rest.
\<close>

theorem watch_work_minimal:
  assumes "watch_run ws acts (watch_start t ws) = (out, st)"
  shows "(\<forall>a\<in>work (ws_pending st). \<forall>b\<in>work (ws_pending st). a \<noteq> b \<longrightarrow> \<not> subsumes a b)
    \<and> (\<forall>kb. len_for (ws_pending st) kb \<le> PENDING_CAPACITY)
    \<and> (\<forall>now debounce sent st2. settle_turn now debounce st = (sent, st2) \<longrightarrow>
         set sent \<union> work (ws_pending st2) = work (ws_pending st)
         \<and> (\<forall>e\<in>set (pe_whole (ws_pending st2)). now - snd e < debounce)
         \<and> (\<forall>e\<in>set (pe_prefixes (ws_pending st2)). now - snd e < debounce)
         \<and> (\<forall>e\<in>set (pe_keys (ws_pending st2)). now - snd e < debounce))"
proof (intro conjI)
  have ok: "watch_ok st" using watch_run_ok[OF watch_start_ok assms] by blast
  then show "\<forall>a\<in>work (ws_pending st). \<forall>b\<in>work (ws_pending st). a \<noteq> b \<longrightarrow> \<not> subsumes a b"
    by (simp add: watch_ok_def pending_ok_def work_ok_def)
  show "\<forall>kb. len_for (ws_pending st) kb \<le> PENDING_CAPACITY"
    using ok watch_run_capacity[OF assms] by (simp add: watch_ok_def pending_bounded_def watch_start_def pending_new_def PENDING_CAPACITY_def)
  show "\<forall>now debounce sent st2. settle_turn now debounce st = (sent, st2) \<longrightarrow>
         set sent \<union> work (ws_pending st2) = work (ws_pending st)
         \<and> (\<forall>e\<in>set (pe_whole (ws_pending st2)). now - snd e < debounce)
         \<and> (\<forall>e\<in>set (pe_prefixes (ws_pending st2)). now - snd e < debounce)
         \<and> (\<forall>e\<in>set (pe_keys (ws_pending st2)). now - snd e < debounce)"
  proof (intro allI impI)
    fix now debounce sent st2
    assume "settle_turn now debounce st = (sent, st2)"
    then obtain pe where t: "take_settled (ws_pending st) now debounce = (sent, pe)" and st2: "ws_pending st2 = pe\<lparr>pe_overflowed := False\<rparr>"
      by (auto simp: settle_turn_def take_overflowed_def split: prod.splits)
    show "set sent \<union> work (ws_pending st2) = work (ws_pending st)
         \<and> (\<forall>e\<in>set (pe_whole (ws_pending st2)). now - snd e < debounce)
         \<and> (\<forall>e\<in>set (pe_prefixes (ws_pending st2)). now - snd e < debounce)
         \<and> (\<forall>e\<in>set (pe_keys (ws_pending st2)). now - snd e < debounce)"
      using take_settled_work[OF t] by (simp add: st2)
  qed
qed

theorem watch_work_minimal_witness:
  "\<forall>kb. len_for (ws_pending (watch_start (Dir []) [])) kb \<le> PENDING_CAPACITY"
  using watch_work_minimal[of "[]" "[]" "Dir []" "[]" "watch_start (Dir []) []"] by simp

end
