(* ===== verification/Fs_Locks.thy ===== *)
theory Fs_Locks
  imports Prelude
begin

text \<open>
  The striped key locks of the filesystem backend (\<^verbatim>\<open>notedthat-storage-fs/src/locks.rs\<close>).  A request asks for one
  stripe, or for the two of a copy in ascending order, and drops its guard when it is done.  Requests
  run as threads of an interleaving; the hash of a key is a parameter.
\<close>

section \<open>Definitions\<close>

definition STRIPES :: nat where
  "STRIPES = 512"

definition stripe_of :: "(string \<Rightarrow> string \<Rightarrow> nat) \<Rightarrow> string \<Rightarrow> string \<Rightarrow> nat" where
  "stripe_of hash bucket key = hash bucket key mod STRIPES"

text \<open>The stripes a guard takes, in the order it takes them.\<close>

definition lock_key :: "(string \<Rightarrow> string \<Rightarrow> nat) \<Rightarrow> string \<Rightarrow> string \<Rightarrow> nat list" where
  "lock_key hash bucket key = [stripe_of hash bucket key]"

definition lock_pair :: "(string \<Rightarrow> string \<Rightarrow> nat) \<Rightarrow> string \<Rightarrow> string \<Rightarrow> string \<Rightarrow> nat list" where
  "lock_pair hash bucket first' second =
     (let a = stripe_of hash bucket first'; b = stripe_of hash bucket second in
      if a = b then [a]
      else let (low, high) = (if a < b then (a, b) else (b, a)) in [low, high])"

section \<open>Threads\<close>

record lock_thread =
  lt_held :: "nat list"
  lt_wants :: "nat list"

definition thread_for :: "nat list \<Rightarrow> lock_thread" where
  "thread_for plan = \<lparr>lt_held = [], lt_wants = plan\<rparr>"

definition stripe_free :: "lock_thread list \<Rightarrow> nat \<Rightarrow> bool" where
  "stripe_free ts s \<longleftrightarrow> (\<forall>t\<in>set ts. s \<notin> set (lt_held t))"

text \<open>A thread takes the next stripe it wants when that is free; one that has them all finishes and drops them.\<close>

inductive lock_step :: "lock_thread list \<Rightarrow> lock_thread list \<Rightarrow> bool" where
  acquire: "i < length ts \<Longrightarrow> lt_wants (ts ! i) = s # rest \<Longrightarrow> stripe_free ts s \<Longrightarrow>
    lock_step ts (ts[i := \<lparr>lt_held = lt_held (ts ! i) @ [s], lt_wants = rest\<rparr>])"
| release: "i < length ts \<Longrightarrow> lt_wants (ts ! i) = [] \<Longrightarrow> lt_held (ts ! i) \<noteq> [] \<Longrightarrow>
    lock_step ts (ts[i := \<lparr>lt_held = [], lt_wants = []\<rparr>])"
| arrive: "lock_step ts (ts @ [thread_for (lock_key hash bucket key)])"
| arrive_pair: "lock_step ts (ts @ [thread_for (lock_pair hash bucket k1 k2)])"

inductive_cases lock_step_cases: "lock_step ts ts'"

definition lock_inv :: "lock_thread list \<Rightarrow> bool" where
  "lock_inv ts \<longleftrightarrow>
     (\<forall>t\<in>set ts. sorted_wrt (<) (lt_held t @ lt_wants t))
     \<and> (\<forall>i<length ts. \<forall>j<length ts. i \<noteq> j \<longrightarrow> set (lt_held (ts ! i)) \<inter> set (lt_held (ts ! j)) = {})"

lemma lock_plans_ascend: "sorted_wrt (<) (lock_key hash b k)" "sorted_wrt (<) (lock_pair hash b k1 k2)"
  by (auto simp: lock_key_def lock_pair_def Let_def)

lemma lock_inv_new:
  assumes "lock_inv ts" "sorted_wrt (<) plan"
  shows "lock_inv (ts @ [thread_for plan])"
  using assms by (auto simp: lock_inv_def thread_for_def nth_append less_Suc_eq)

lemma lock_inv_replace:
  assumes inv: "lock_inv ts" and i: "i < length ts" and s: "sorted_wrt (<) (lt_held t @ lt_wants t)"
    and d: "\<And>j. j < length ts \<Longrightarrow> j \<noteq> i \<Longrightarrow> set (lt_held t) \<inter> set (lt_held (ts ! j)) = {}"
  shows "lock_inv (ts[i := t])"
proof -
  have "\<forall>u\<in>set (ts[i := t]). sorted_wrt (<) (lt_held u @ lt_wants u)"
    using inv s set_update_subset_insert[of ts i t] unfolding lock_inv_def by blast
  moreover have "set (lt_held (ts[i := t] ! a)) \<inter> set (lt_held (ts[i := t] ! b)) = {}" if "a < length ts" "b < length ts" "a \<noteq> b" for a b
    using inv d[of a] d[of b] that i unfolding lock_inv_def by (auto simp: nth_list_update)
  ultimately show ?thesis by (auto simp: lock_inv_def)
qed

lemma lock_inv_step: "lock_step ts ts' \<Longrightarrow> lock_inv ts \<Longrightarrow> lock_inv ts'"
proof (induction rule: lock_step.induct)
  case (acquire i ts s rest)
  then have mem: "ts ! i \<in> set ts" by simp
  then have "sorted_wrt (<) (lt_held (ts ! i) @ s # rest)" using acquire unfolding lock_inv_def by metis
  then show ?case
    using mem acquire by (intro lock_inv_replace) (auto simp: lock_inv_def stripe_free_def)
next
  case (release i ts)
  then show ?case by (intro lock_inv_replace) auto
qed (rule lock_inv_new, assumption, rule lock_plans_ascend)+

lemma lock_inv_reach: "lock_step\<^sup>*\<^sup>* [] ts \<Longrightarrow> lock_inv ts"
  by (induction rule: rtranclp_induct) (auto simp: lock_inv_def[of "[]"] lock_inv_step)

section \<open>Properties\<close>

text \<open>A step of the threads there are: nobody new arrives.\<close>

definition can_progress :: "lock_thread list \<Rightarrow> bool" where
  "can_progress ts \<longleftrightarrow> (\<exists>i<length ts. (\<exists>s rest. lt_wants (ts ! i) = s # rest \<and> stripe_free ts s) \<or> (lt_wants (ts ! i) = [] \<and> lt_held (ts ! i) \<noteq> []))"

text \<open>
  C20: The key locks exclude and never deadlock.  Two requests never hold the same stripe, so never the same
  key; and as long as a request holds or wants a stripe, one of the requests there are can go on,
  whichever stripes their keys share.
\<close>

theorem locks_exclude_without_deadlock:
  assumes "lock_step\<^sup>*\<^sup>* [] ts"
  shows "(\<forall>i<length ts. \<forall>j<length ts. i \<noteq> j \<longrightarrow> set (lt_held (ts ! i)) \<inter> set (lt_held (ts ! j)) = {})
    \<and> ((\<exists>t\<in>set ts. lt_held t \<noteq> [] \<or> lt_wants t \<noteq> []) \<longrightarrow> can_progress ts)"
proof (intro conjI impI)
  have inv: "lock_inv ts" by (rule lock_inv_reach[OF assms])
  then show "\<forall>i<length ts. \<forall>j<length ts. i \<noteq> j \<longrightarrow> set (lt_held (ts ! i)) \<inter> set (lt_held (ts ! j)) = {}"
    by (simp add: lock_inv_def)
  assume busy: "\<exists>t\<in>set ts. lt_held t \<noteq> [] \<or> lt_wants t \<noteq> []"
  show "can_progress ts"
  proof (rule ccontr)
    assume stuck: "\<not> can_progress ts"
    have wants: "\<exists>s rest. lt_wants t = s # rest \<and> \<not> stripe_free ts s" if "t \<in> set ts" "lt_held t \<noteq> [] \<or> lt_wants t \<noteq> []" for t
      using that stuck unfolding can_progress_def in_set_conv_nth by (metis list.exhaust)
    define held where "held = (\<Union>t\<in>set ts. set (lt_held t))"
    have fin: "finite held" by (simp add: held_def)
    have "held \<noteq> {}" using busy wants unfolding stripe_free_def held_def by blast
    then obtain t where t: "t \<in> set ts" "Max held \<in> set (lt_held t)" using Max_in[OF fin] by (auto simp: held_def)
    then obtain s rest where s: "lt_wants t = s # rest" "\<not> stripe_free ts s" using wants by (metis empty_iff empty_set)
    have "Max held < s" using inv t s(1) unfolding lock_inv_def by (auto simp: sorted_wrt_append)
    moreover have "s \<in> held" using s(2) by (auto simp: stripe_free_def held_def)
    ultimately show False using Max_ge[OF fin] by (meson leD)
  qed
qed

theorem locks_exclude_without_deadlock_witness:
  "can_progress [thread_for (lock_pair (\<lambda>_ k. length k) ''b'' ''xy'' ''z'')]"
proof -
  have "lock_step\<^sup>*\<^sup>* [] [thread_for (lock_pair (\<lambda>_ k. length k) ''b'' ''xy'' ''z'')]"
    using lock_step.arrive_pair[of "[]"] by auto
  moreover have "lt_wants (thread_for (lock_pair (\<lambda>_ k. length k) ''b'' ''xy'' ''z'')) \<noteq> []"
    by (simp add: thread_for_def lock_pair_def stripe_of_def STRIPES_def Let_def)
  ultimately show ?thesis using locks_exclude_without_deadlock by auto
qed

end
