(* ===== verification/Auth.thy ===== *)
theory Auth
  imports Access Utf8
begin

text \<open>
  Credentials (\<^verbatim>\<open>notedthat-core/src/auth.rs\<close>) and the two layers that ask for them: the HTTP API's
  (\<^verbatim>\<open>notedthat-api-http/src/middleware.rs\<close>) and the MCP endpoint's (\<^verbatim>\<open>notedthat-mcp/src/auth.rs\<close>).

  The \<^verbatim>\<open>http\<close> crate's header values and the \<^verbatim>\<open>base64\<close> crate are parameters, the fields of \<open>auth_lib\<close>; the
  identity provider is the token verifier of the authenticator.  A response is its status and its
  challenge: bodies and request ids are left out.
\<close>

section \<open>Extracting and comparing credentials\<close>

record auth_lib =
  al_to_str :: "string \<Rightarrow> string option"
  al_from_str :: "string \<Rightarrow> string option"
  al_base64 :: "string \<Rightarrow> string option"

text \<open>\<^verbatim>\<open>subtle\<close>'s comparison takes the same time whatever it finds; its answer is equality.\<close>

definition verify_bearer_token :: "string \<Rightarrow> string \<Rightarrow> bool" where
  "verify_bearer_token provided expected =
     (if length provided \<noteq> length expected then False
      else if expected = [] then False
      else provided = expected)"

definition extract_bearer_from_header :: "string \<Rightarrow> string option" where
  "extract_bearer_from_header value =
     (case split_once CHR '' '' value of
        None \<Rightarrow> None
      | Some (scheme, rest) \<Rightarrow>
          if \<not> eq_ignore_ascii_case scheme ''bearer'' then None
          else if rest = [] \<or> prefix '' '' rest then None
          else Some rest)"

definition verify_basic_credentials :: "string \<Rightarrow> string \<Rightarrow> string \<Rightarrow> string \<Rightarrow> bool" where
  "verify_basic_credentials provided_username provided_password expected_username expected_password =
     (if provided_username = [] \<or> provided_password = [] \<or> expected_username = [] \<or> expected_password = [] then False
      else if length provided_username \<noteq> length expected_username
              \<or> length provided_password \<noteq> length expected_password then False
      else provided_username = expected_username \<and> provided_password = expected_password)"

definition extract_basic_from_header :: "auth_lib \<Rightarrow> string \<Rightarrow> (string \<times> string) option" where
  "extract_basic_from_header lib value =
     (case split_once CHR '' '' value of
        None \<Rightarrow> None
      | Some (scheme, rest) \<Rightarrow>
          if \<not> eq_ignore_ascii_case scheme ''basic'' then None
          else if prefix '' '' rest then None
          else case al_base64 lib rest of
            None \<Rightarrow> None
          | Some decoded \<Rightarrow>
              if \<not> valid_utf8 decoded then None
              else case split_once CHR '':'' decoded of
                None \<Rightarrow> None
              | Some (username, password) \<Rightarrow>
                  if username = [] \<or> password = [] then None else Some (username, password))"

datatype credential_refused = CredentialRefused

datatype schemes = Bearer | BasicOrBearer

datatype token_rejected = TokenRejected string

section \<open>Protected-resource metadata\<close>

record protected_resource =
  pr_resource :: string
  pr_authorization_servers :: "string list"
  pr_metadata_url :: string

definition PROTECTED_RESOURCE_WELL_KNOWN :: string where
  "PROTECTED_RESOURCE_WELL_KNOWN = ''/.well-known/oauth-protected-resource''"

text \<open>\<^verbatim>\<open>str::find\<close> of a string, the index of the first occurrence.\<close>

fun find_str :: "string \<Rightarrow> string \<Rightarrow> nat option" where
  "find_str p [] = (if p = [] then Some 0 else None)"
| "find_str p (x # xs) = (if prefix p (x # xs) then Some 0 else map_option Suc (find_str p xs))"

definition split_origin :: "string \<Rightarrow> string \<times> string" where
  "split_origin url =
     (let after_scheme = (case find_str ''://'' url of None \<Rightarrow> 0 | Some i \<Rightarrow> i + 3);
          authority = length (takeWhile (\<lambda>c. c \<notin> {CHR ''/'', CHR ''?'', CHR ''#''}) (drop after_scheme url));
          path_start = after_scheme + authority in
      (take path_start url, drop path_start url))"

definition trim_end_slashes :: "string \<Rightarrow> string" where
  "trim_end_slashes s = rev (dropWhile (\<lambda>c. c = CHR ''/'') (rev s))"

definition metadata_url_for :: "string \<Rightarrow> string" where
  "metadata_url_for resource =
     (let (origin, path) = split_origin resource in
      origin @ PROTECTED_RESOURCE_WELL_KNOWN @ trim_end_slashes path)"

definition protected_resource_new :: "string \<Rightarrow> string list \<Rightarrow> protected_resource" where
  "protected_resource_new resource servers =
     \<lparr>pr_resource = resource, pr_authorization_servers = servers, pr_metadata_url = metadata_url_for resource\<rparr>"

definition metadata_path :: "protected_resource \<Rightarrow> string" where
  "metadata_path r = snd (split_origin (pr_metadata_url r))"

section \<open>The authenticator\<close>

record authenticator =
  au_service_token :: string
  au_basic :: "(string \<times> string) option"
  au_verifier :: "(string \<Rightarrow> (token_rejected, user_identity) result) option"
  au_protected_resource :: "protected_resource option"

definition authenticator_new :: "string \<Rightarrow> authenticator" where
  "authenticator_new tok =
     \<lparr>au_service_token = tok, au_basic = None, au_verifier = None, au_protected_resource = None\<rparr>"

definition with_basic :: "string \<Rightarrow> string \<Rightarrow> authenticator \<Rightarrow> authenticator" where
  "with_basic username password a = a\<lparr>au_basic := Some (username, password)\<rparr>"

definition with_token_verifier :: "(string \<Rightarrow> (token_rejected, user_identity) result) \<Rightarrow> authenticator \<Rightarrow> authenticator" where
  "with_token_verifier verifier a = a\<lparr>au_verifier := Some verifier\<rparr>"

definition with_protected_resource :: "protected_resource \<Rightarrow> authenticator \<Rightarrow> authenticator" where
  "with_protected_resource r a = a\<lparr>au_protected_resource := Some r\<rparr>"

definition accepts_identity_tokens :: "authenticator \<Rightarrow> bool" where
  "accepts_identity_tokens a \<longleftrightarrow> au_verifier a \<noteq> None"

definition bearer_challenge :: "auth_lib \<Rightarrow> authenticator \<Rightarrow> string option" where
  "bearer_challenge lib a =
     (case au_protected_resource a of
        None \<Rightarrow> None
      | Some r \<Rightarrow> al_from_str lib (''Bearer resource_metadata='' @ dq @ pr_metadata_url r @ dq))"

definition resolve_bearer :: "authenticator \<Rightarrow> string \<Rightarrow> (credential_refused, principal) result" where
  "resolve_bearer a token =
     (if verify_bearer_token token (au_service_token a) then Inr service_token
      else case au_verifier a of
        None \<Rightarrow> Inl CredentialRefused
      | Some verify \<Rightarrow>
          (case verify token of
             Inr identity \<Rightarrow> Inr (PSignedIn (UserId identity))
           | Inl _ \<Rightarrow> Inl CredentialRefused))"

text \<open>The argument is the list of values of the request's \<^verbatim>\<open>Authorization\<close> headers.\<close>

definition resolve_basic :: "auth_lib \<Rightarrow> authenticator \<Rightarrow> string \<Rightarrow> bool" where
  "resolve_basic lib a header =
     (case extract_basic_from_header lib header of
        None \<Rightarrow> False
      | Some (username, password) \<Rightarrow>
          (case au_basic a of
             None \<Rightarrow> False
           | Some (expected_user, expected_pass) \<Rightarrow>
               verify_basic_credentials username password expected_user expected_pass))"

definition auth_resolve :: "auth_lib \<Rightarrow> authenticator \<Rightarrow> string list \<Rightarrow> schemes \<Rightarrow> (credential_refused, principal) result" where
  "auth_resolve lib a headers accept =
     (case headers of
        [] \<Rightarrow> Inr PAnyone
      | [v] \<Rightarrow>
          (case al_to_str lib v of
             None \<Rightarrow> Inl CredentialRefused
           | Some header \<Rightarrow>
               (case extract_bearer_from_header header of
                  Some token \<Rightarrow> resolve_bearer a token
                | None \<Rightarrow>
                    if accept = BasicOrBearer \<and> resolve_basic lib a header then Inr service_token
                    else Inl CredentialRefused))
      | _ # _ # _ \<Rightarrow> Inl CredentialRefused)"

section \<open>The HTTP layer\<close>

datatype http_method = GET | HEAD | POST | PUT | PATCH | DELETE | Other_Method string

definition MATCHED_KBS :: string where "MATCHED_KBS = ''/api/v1/knowledgebases''"
definition MATCHED_KB :: string where "MATCHED_KB = ''/api/v1/knowledgebases/{kb_slug}''"
definition MATCHED_KB_SEARCH :: string where "MATCHED_KB_SEARCH = ''/api/v1/knowledgebases/{kb_slug}/search''"
definition MATCHED_KB_EVENTS :: string where "MATCHED_KB_EVENTS = ''/api/v1/knowledgebases/{kb_slug}/events''"
definition MATCHED_KB_INDEX :: string where "MATCHED_KB_INDEX = ''/api/v1/knowledgebases/{kb_slug}/index''"
definition MATCHED_KB_INDEX_RECONCILE :: string where
  "MATCHED_KB_INDEX_RECONCILE = ''/api/v1/knowledgebases/{kb_slug}/index/reconcile''"
definition MATCHED_KB_OBJECT :: string where "MATCHED_KB_OBJECT = ''/api/v1/knowledgebases/{kb_slug}/{*object_path}''"

definition ANONYMOUS_REACHABLE :: "(http_method \<times> string) list" where
  "ANONYMOUS_REACHABLE =
     [(GET, MATCHED_KBS), (HEAD, MATCHED_KBS), (GET, MATCHED_KB), (HEAD, MATCHED_KB),
      (GET, MATCHED_KB_OBJECT), (HEAD, MATCHED_KB_OBJECT), (POST, MATCHED_KB_SEARCH),
      (GET, MATCHED_KB_EVENTS), (GET, MATCHED_KB_INDEX)]"

definition OPERATOR_ONLY :: "string list" where
  "OPERATOR_ONLY = [MATCHED_KB_INDEX_RECONCILE]"

definition anonymous_may_reach :: "http_method \<Rightarrow> string option \<Rightarrow> bool" where
  "anonymous_may_reach meth matched =
     (case matched of
        None \<Rightarrow> False
      | Some m \<Rightarrow> list_ex (\<lambda>(mt, route). mt = meth \<and> route = m) ANONYMOUS_REACHABLE)"

record auth_response =
  ar_status :: nat
  ar_www_authenticate :: "string option"

definition unauthorized :: auth_response where
  "unauthorized = \<lparr>ar_status = 401, ar_www_authenticate = None\<rparr>"

definition with_bearer_challenge :: "auth_lib \<Rightarrow> authenticator \<Rightarrow> auth_response \<Rightarrow> auth_response" where
  "with_bearer_challenge lib a r =
     (if ar_status r = 401 then
        (case bearer_challenge lib a of
           Some c \<Rightarrow> r\<lparr>ar_www_authenticate := Some c\<rparr>
         | None \<Rightarrow> r)
      else r)"

text \<open>\<open>next\<close> is the handler behind the layer, given the principal the layer stored in the request.\<close>

definition auth_middleware :: "auth_lib \<Rightarrow> authenticator \<Rightarrow> http_method \<Rightarrow> string option \<Rightarrow> string list
    \<Rightarrow> (principal \<Rightarrow> auth_response) \<Rightarrow> auth_response" where
  "auth_middleware lib a meth matched headers next =
     with_bearer_challenge lib a
       (case auth_resolve lib a headers Bearer of
          Inl CredentialRefused \<Rightarrow> unauthorized
        | Inr prin \<Rightarrow>
            if is_anonymous prin \<and> \<not> anonymous_may_reach meth matched then unauthorized
            else next prin)"

section \<open>The MCP layer\<close>

datatype caller = Caller_Bearer string | Caller_Anonymous

record mcp_auth =
  ma_authenticator :: authenticator
  ma_anonymous :: bool

text \<open>The caller the layer stores, \<open>None\<close> when it stores none, and the principal.\<close>

definition authenticate_caller :: "auth_lib \<Rightarrow> mcp_auth \<Rightarrow> string list
    \<Rightarrow> (caller option \<Rightarrow> principal \<Rightarrow> auth_response) \<Rightarrow> auth_response" where
  "authenticate_caller lib m headers next =
     (case auth_resolve lib (ma_authenticator m) headers Bearer of
        Inr prin \<Rightarrow>
          if is_signed_in prin then
            next (case headers of
                    [] \<Rightarrow> None
                  | v # _ \<Rightarrow> map_option Caller_Bearer (Option.bind (al_to_str lib v) extract_bearer_from_header))
                 prin
          else if ma_anonymous m then next (Some Caller_Anonymous) prin
          else unauthorized\<lparr>ar_www_authenticate := bearer_challenge lib (ma_authenticator m)\<rparr>
      | Inl CredentialRefused \<Rightarrow>
          unauthorized\<lparr>ar_www_authenticate := bearer_challenge lib (ma_authenticator m)\<rparr>)"

section \<open>What a credential is\<close>

definition bearer_of :: "string \<Rightarrow> string \<Rightarrow> bool" where
  "bearer_of header token \<longleftrightarrow>
     (\<exists>scheme. header = scheme @ '' '' @ token \<and> eq_ignore_ascii_case scheme ''bearer'')
     \<and> token \<noteq> [] \<and> hd token \<noteq> CHR '' ''"

definition basic_of :: "auth_lib \<Rightarrow> string \<Rightarrow> string \<Rightarrow> string \<Rightarrow> bool" where
  "basic_of lib header username password \<longleftrightarrow>
     (\<exists>scheme enc. header = scheme @ '' '' @ enc \<and> eq_ignore_ascii_case scheme ''basic'' \<and> \<not> prefix '' '' enc
        \<and> al_base64 lib enc = Some (username @ '':'' @ password) \<and> valid_utf8 (username @ '':'' @ password))
     \<and> CHR '':'' \<notin> set username \<and> username \<noteq> [] \<and> password \<noteq> []"

lemma scheme_no_space:
  "eq_ignore_ascii_case scheme ''bearer'' \<Longrightarrow> CHR '' '' \<notin> set scheme"
  "eq_ignore_ascii_case scheme ''basic'' \<Longrightarrow> CHR '' '' \<notin> set scheme"
  by (auto simp: eq_ignore_ascii_case_def ascii_lower_def split: if_splits)

lemma scheme_differs: "eq_ignore_ascii_case scheme ''bearer'' \<Longrightarrow> \<not> eq_ignore_ascii_case scheme ''basic''"
  by (auto simp: eq_ignore_ascii_case_def dest: arg_cong[where f = length])

lemma extract_bearer_iff: "extract_bearer_from_header header = Some token \<longleftrightarrow> bearer_of header token"
proof
  assume "extract_bearer_from_header header = Some token"
  then obtain scheme where "split_once CHR '' '' header = Some (scheme, token)"
      "eq_ignore_ascii_case scheme ''bearer''" "token \<noteq> []" "\<not> prefix '' '' token"
    by (auto simp: extract_bearer_from_header_def split: option.splits if_splits)
  then show "bearer_of header token" by (cases token) (auto simp: bearer_of_def split_once_Some_iff)
next
  assume "bearer_of header token"
  then obtain scheme where s: "header = scheme @ CHR '' '' # token" "eq_ignore_ascii_case scheme ''bearer''"
      "token \<noteq> []" "hd token \<noteq> CHR '' ''"
    by (auto simp: bearer_of_def)
  have "split_once CHR '' '' header = Some (scheme, token)"
    using s scheme_no_space(1)[OF s(2)] by (simp add: split_once_Some_iff)
  with s show "extract_bearer_from_header header = Some token"
    by (cases token) (auto simp: extract_bearer_from_header_def)
qed

lemma extract_basic_iff:
  "extract_basic_from_header lib header = Some (username, password) \<longleftrightarrow> basic_of lib header username password"
proof
  assume "extract_basic_from_header lib header = Some (username, password)"
  then obtain scheme enc d where "split_once CHR '' '' header = Some (scheme, enc)"
      "eq_ignore_ascii_case scheme ''basic''" "\<not> prefix '' '' enc" "al_base64 lib enc = Some d" "valid_utf8 d"
      "split_once CHR '':'' d = Some (username, password)" "username \<noteq> []" "password \<noteq> []"
    by (auto simp: extract_basic_from_header_def split: option.splits if_splits)
  then show "basic_of lib header username password"
    by (auto simp: basic_of_def split_once_Some_iff)
next
  assume "basic_of lib header username password"
  then obtain scheme enc where s: "header = scheme @ CHR '' '' # enc" "eq_ignore_ascii_case scheme ''basic''"
      "\<not> prefix '' '' enc" "al_base64 lib enc = Some (username @ CHR '':'' # password)"
      "valid_utf8 (username @ CHR '':'' # password)" "CHR '':'' \<notin> set username" "username \<noteq> []" "password \<noteq> []"
    by (auto simp: basic_of_def)
  have "split_once CHR '' '' header = Some (scheme, enc)"
      "split_once CHR '':'' (username @ CHR '':'' # password) = Some (username, password)"
    using s scheme_no_space(2)[OF s(2)] by (simp_all add: split_once_Some_iff)
  with s show "extract_basic_from_header lib header = Some (username, password)"
    by (simp add: extract_basic_from_header_def)
qed

text \<open>The comparison of tokens is equality, once the provided one is a credential at all.\<close>

lemma verify_bearer_iff: "token \<noteq> [] \<Longrightarrow> verify_bearer_token token expected \<longleftrightarrow> token = expected"
  by (auto simp: verify_bearer_token_def)

lemma verify_basic_iff:
  "u \<noteq> [] \<Longrightarrow> p \<noteq> [] \<Longrightarrow> verify_basic_credentials u p eu ep \<longleftrightarrow> u = eu \<and> p = ep"
  by (auto simp: verify_basic_credentials_def)

lemma bearer_of_unique: "bearer_of h t \<Longrightarrow> bearer_of h t' \<Longrightarrow> t = t'"
  using extract_bearer_iff by (metis option.inject)

lemma bearer_not_basic:
  assumes "bearer_of h t" "basic_of lib h u p"
  shows False
proof -
  from assms(1) obtain s1 where s1: "h = s1 @ CHR '' '' # t" "eq_ignore_ascii_case s1 ''bearer''"
    by (auto simp: bearer_of_def)
  from assms(2) obtain s2 r2 where s2: "h = s2 @ CHR '' '' # r2" "eq_ignore_ascii_case s2 ''basic''"
    by (auto simp: basic_of_def)
  have "s1 = s2"
    using append_sep_inj[of s1 "CHR '' ''" t s2 r2] s1 s2 scheme_no_space by simp
  with s1 s2 scheme_differs show False by blast
qed

lemma resolve_basic_iff:
  "resolve_basic lib a h \<longleftrightarrow> (\<exists>u p. au_basic a = Some (u, p) \<and> basic_of lib h u p)"
proof -
  have "u \<noteq> [] \<and> p \<noteq> []" if "basic_of lib h u p" for u p using that by (simp add: basic_of_def)
  then show ?thesis
    by (fastforce simp: resolve_basic_def extract_basic_iff verify_basic_iff split: option.splits
        simp flip: extract_basic_iff)
qed


definition presented :: "auth_lib \<Rightarrow> string list \<Rightarrow> string \<Rightarrow> bool" where
  "presented lib headers header \<longleftrightarrow> (\<exists>v. headers = [v] \<and> al_to_str lib v = Some header)"

lemma auth_resolve_single:
  "auth_resolve lib a headers accept =
     (if headers = [] then Inr PAnyone
      else case (case headers of [v] \<Rightarrow> al_to_str lib v | _ \<Rightarrow> None) of
        None \<Rightarrow> Inl CredentialRefused
      | Some header \<Rightarrow>
          (case extract_bearer_from_header header of
             Some token \<Rightarrow> resolve_bearer a token
           | None \<Rightarrow> if accept = BasicOrBearer \<and> resolve_basic lib a header then Inr service_token
                    else Inl CredentialRefused))"
  by (auto simp: auth_resolve_def split: list.splits option.splits)

lemma bearer_of_nonempty: "bearer_of h t \<Longrightarrow> t \<noteq> []"
  by (simp add: bearer_of_def)

lemma resolve_anyone: "auth_resolve lib a headers accept = Inr PAnyone \<longleftrightarrow> headers = []"
  by (auto simp: auth_resolve_def resolve_bearer_def service_token_def split: list.splits option.splits sum.splits if_splits)

lemma resolve_signed_in:
  "auth_resolve lib a headers accept = Inr (PSignedIn i) \<longleftrightarrow>
     (\<exists>header. presented lib headers header \<and>
        ((\<exists>token. bearer_of header token \<and> resolve_bearer a token = Inr (PSignedIn i))
         \<or> accept = BasicOrBearer \<and> resolve_basic lib a header \<and> i = ServiceToken))"
  (is "?l \<longleftrightarrow> ?r")
proof
  assume ?l
  then show ?r
    by (auto simp: auth_resolve_def presented_def service_token_def extract_bearer_iff
        split: list.splits option.splits if_splits)
next
  assume ?r
  then obtain v header where h: "headers = [v]" "al_to_str lib v = Some header"
      "(\<exists>token. bearer_of header token \<and> resolve_bearer a token = Inr (PSignedIn i))
       \<or> accept = BasicOrBearer \<and> resolve_basic lib a header \<and> i = ServiceToken"
    by (auto simp: presented_def)
  from h(3) show ?l
  proof
    assume "\<exists>token. bearer_of header token \<and> resolve_bearer a token = Inr (PSignedIn i)"
    with h(1,2) show ?l by (auto simp: auth_resolve_def simp flip: extract_bearer_iff)
  next
    assume b: "accept = BasicOrBearer \<and> resolve_basic lib a header \<and> i = ServiceToken"
    then have "\<nexists>t. bearer_of header t" using bearer_not_basic by (auto simp: resolve_basic_iff)
    then have "extract_bearer_from_header header = None"
      using extract_bearer_iff by (cases "extract_bearer_from_header header") auto
    with h(1,2) b show ?l by (simp add: auth_resolve_def service_token_def)
  qed
qed

lemma resolve_bearer_service:
  "bearer_of h t \<Longrightarrow> resolve_bearer a t = Inr (PSignedIn ServiceToken) \<longleftrightarrow> t = au_service_token a"
  using bearer_of_nonempty[of h t]
  by (auto simp: resolve_bearer_def verify_bearer_iff service_token_def split: option.splits sum.splits)

lemma service_bearer_iff:
  "(\<exists>token. bearer_of h token \<and> resolve_bearer a token = Inr (PSignedIn ServiceToken)) \<longleftrightarrow> bearer_of h (au_service_token a)"
  using resolve_bearer_service[of h _ a] by blast

lemma resolve_bearer_user:
  "bearer_of h t \<Longrightarrow> resolve_bearer a t = Inr (PSignedIn (UserId u)) \<longleftrightarrow>
     t \<noteq> au_service_token a \<and> (\<exists>verify. au_verifier a = Some verify \<and> verify t = Inr u)"
  using bearer_of_nonempty[of h t]
  by (auto simp: resolve_bearer_def verify_bearer_iff service_token_def split: option.splits sum.splits)

lemma resolve_refused:
  assumes "headers \<noteq> []" "\<nexists>h t. presented lib headers h \<and> bearer_of h t \<and> resolve_bearer a t \<noteq> Inl CredentialRefused"
  shows "auth_resolve lib a headers Bearer = Inl CredentialRefused"
proof (cases "auth_resolve lib a headers Bearer")
  case (Inl e)
  then show ?thesis by (cases e) simp
next
  case (Inr p)
  then obtain i where p: "p = PSignedIn i" using assms(1) resolve_anyone by (cases p) auto
  with Inr have "\<exists>h t. presented lib headers h \<and> bearer_of h t \<and> resolve_bearer a t = Inr (PSignedIn i)"
    by (auto simp: resolve_signed_in)
  with assms(2) show ?thesis by (metis sum.distinct(1))
qed

lemma Bearer_spelling: "eq_ignore_ascii_case ''Bearer'' ''bearer''"
  by code_simp

lemma bearer_of_loopback: "bearer_of h t \<Longrightarrow> bearer_of (''Bearer '' @ t) t"
  unfolding bearer_of_def using Bearer_spelling by auto

lemma challenge_added:
  "ar_status (with_bearer_challenge lib a r) = 401 \<Longrightarrow> bearer_challenge lib a = Some c \<Longrightarrow>
     ar_www_authenticate (with_bearer_challenge lib a r) = Some c"
  by (auto simp: with_bearer_challenge_def split: if_splits)

lemma operator_routes_closed: "\<not> (anonymous_may_reach meth (Some route) \<and> route \<in> set OPERATOR_ONLY)"
  by (auto simp: anonymous_may_reach_def ANONYMOUS_REACHABLE_def OPERATOR_ONLY_def MATCHED_KBS_def MATCHED_KB_def
      MATCHED_KB_SEARCH_def MATCHED_KB_EVENTS_def MATCHED_KB_INDEX_def MATCHED_KB_INDEX_RECONCILE_def MATCHED_KB_OBJECT_def)

section \<open>Where the metadata is served\<close>

lemma find_str_scheme: "CHR '':'' \<notin> set scheme \<Longrightarrow> find_str ''://'' (scheme @ ''://'' @ r) = Some (length scheme)"
  by (induction scheme) auto

lemma split_origin_url:
  assumes "CHR '':'' \<notin> set scheme" "set auth \<inter> {CHR ''/'', CHR ''?'', CHR ''#''} = {}"
    and "path = [] \<or> hd path \<in> {CHR ''/'', CHR ''?'', CHR ''#''}"
  shows "split_origin (scheme @ ''://'' @ auth @ path) = (scheme @ ''://'' @ auth, path)"
proof -
  have "takeWhile (\<lambda>c. c \<notin> {CHR ''/'', CHR ''?'', CHR ''#''}) (auth @ path) = auth"
    using assms(2,3) by (subst takeWhile_append2) (auto, (cases path; simp)+)
  then show ?thesis
    using find_str_scheme[OF assms(1), of "auth @ path"] by (simp add: split_origin_def Let_def numeral_3_eq_3)
qed

text \<open>The path the server routes is the one the advertised URL names, on the same origin.\<close>

lemma metadata_path_new:
  assumes "CHR '':'' \<notin> set scheme" "set auth \<inter> {CHR ''/'', CHR ''?'', CHR ''#''} = {}"
    and "path = [] \<or> hd path = CHR ''/''"
  shows "pr_metadata_url (protected_resource_new (scheme @ ''://'' @ auth @ path) servers)
           = scheme @ ''://'' @ auth @ metadata_path (protected_resource_new (scheme @ ''://'' @ auth @ path) servers)"
    and "metadata_path (protected_resource_new (scheme @ ''://'' @ auth @ path) servers)
           = PROTECTED_RESOURCE_WELL_KNOWN @ trim_end_slashes path"
proof -
  have url: "pr_metadata_url (protected_resource_new (scheme @ ''://'' @ auth @ path) servers)
      = scheme @ ''://'' @ auth @ PROTECTED_RESOURCE_WELL_KNOWN @ trim_end_slashes path"
    using split_origin_url[of scheme auth path] assms by (auto simp: protected_resource_new_def metadata_url_for_def)
  show p: "metadata_path (protected_resource_new (scheme @ ''://'' @ auth @ path) servers)
      = PROTECTED_RESOURCE_WELL_KNOWN @ trim_end_slashes path"
    unfolding metadata_path_def url
    using split_origin_url[OF assms(1,2), of "PROTECTED_RESOURCE_WELL_KNOWN @ trim_end_slashes path"]
    by (simp add: PROTECTED_RESOURCE_WELL_KNOWN_def)
  show "pr_metadata_url (protected_resource_new (scheme @ ''://'' @ auth @ path) servers)
           = scheme @ ''://'' @ auth @ metadata_path (protected_resource_new (scheme @ ''://'' @ auth @ path) servers)"
    unfolding p by (rule url)
qed

section \<open>Properties\<close>

text \<open>
  C11: Who a request is, from its \<^verbatim>\<open>Authorization\<close> headers.  It is nobody exactly when there is none.  It is the
  service exactly when there is one and it carries the configured token as a bearer or, where Basic
  is accepted, the configured pair, neither empty.  It is a user exactly when the one header carries another
  bearer token and the identity provider vouches for that user.  Whatever else was sent is refused:
  a supplied credential is never taken for none.
\<close>

theorem credentials_exact:
  "(auth_resolve lib a headers accept = Inr PAnyone \<longleftrightarrow> headers = [])
   \<and> (auth_resolve lib a headers accept = Inr (PSignedIn ServiceToken) \<longleftrightarrow>
     (\<exists>header. presented lib headers header \<and>
        (bearer_of header (au_service_token a)
         \<or> accept = BasicOrBearer \<and> (\<exists>u p. au_basic a = Some (u, p) \<and> basic_of lib header u p))))
   \<and> (auth_resolve lib a headers accept = Inr (PSignedIn (UserId user)) \<longleftrightarrow>
     (\<exists>header token verify. presented lib headers header \<and> bearer_of header token
        \<and> token \<noteq> au_service_token a \<and> au_verifier a = Some verify \<and> verify token = Inr user))"
proof (intro conjI)
  show "auth_resolve lib a headers accept = Inr PAnyone \<longleftrightarrow> headers = []" by (rule resolve_anyone)
  show "auth_resolve lib a headers accept = Inr (PSignedIn ServiceToken) \<longleftrightarrow>
     (\<exists>header. presented lib headers header \<and>
        (bearer_of header (au_service_token a)
         \<or> accept = BasicOrBearer \<and> (\<exists>u p. au_basic a = Some (u, p) \<and> basic_of lib header u p)))"
    by (simp add: resolve_signed_in resolve_basic_iff service_bearer_iff)
  show "auth_resolve lib a headers accept = Inr (PSignedIn (UserId user)) \<longleftrightarrow>
     (\<exists>header token verify. presented lib headers header \<and> bearer_of header token
        \<and> token \<noteq> au_service_token a \<and> au_verifier a = Some verify \<and> verify token = Inr user)"
    using resolve_bearer_user by (simp add: resolve_signed_in) blast
qed

text \<open>
  C21: The two layers in front of the handlers.  A request with a credential runs its handler as the principal that
  credential resolves to, or not at all: behind the HTTP layer, and behind the MCP layer with exactly the token it
  presented, which the HTTP layer then resolves to the same principal when a tool calls back with it.  A
  request without one runs as nobody where the route is in the table, no operator route being there, and
  under MCP where the deployment admits it; otherwise the answer is 401.  Every 401 that leaves the
  HTTP layer carries the challenge, when one is published.
\<close>

theorem surfaces_never_downgrade:
  assumes supplied: "presented lib headers header" "bearer_of header token"
    and resolved: "resolve_bearer (ma_authenticator m) token = Inr (PSignedIn i)"
    and loopback: "al_to_str lib v = Some (''Bearer '' @ token)"
    and refused: "bad \<noteq> []" "\<nexists>h t. presented lib bad h \<and> bearer_of h t \<and> resolve_bearer (ma_authenticator m) t \<noteq> Inl CredentialRefused"
  shows "(authenticate_caller lib m headers next2 = next2 (Some (Caller_Bearer token)) (PSignedIn i))
    \<and> (auth_middleware lib (ma_authenticator m) meth matched headers next
           = with_bearer_challenge lib (ma_authenticator m) (next (PSignedIn i)))
    \<and> (auth_middleware lib (ma_authenticator m) meth matched [v] next
           = with_bearer_challenge lib (ma_authenticator m) (next (PSignedIn i)))
    \<and> (auth_middleware lib (ma_authenticator m) meth matched bad next
           = with_bearer_challenge lib (ma_authenticator m) unauthorized)
    \<and> ar_status (authenticate_caller lib m bad next2) = 401
    \<and> (auth_middleware lib (ma_authenticator m) meth matched [] next
           = with_bearer_challenge lib (ma_authenticator m) (if anonymous_may_reach meth matched then next PAnyone else unauthorized))
    \<and> (authenticate_caller lib m [] next2
           = (if ma_anonymous m then next2 (Some Caller_Anonymous) PAnyone
              else unauthorized\<lparr>ar_www_authenticate := bearer_challenge lib (ma_authenticator m)\<rparr>))
    \<and> \<not> (anonymous_may_reach meth (Some route) \<and> route \<in> set OPERATOR_ONLY)
    \<and> (ar_status (auth_middleware lib a meth matched headers next) = 401 \<and> bearer_challenge lib a = Some c \<longrightarrow>
           ar_www_authenticate (auth_middleware lib a meth matched headers next) = Some c)"
proof -
  have res: "auth_resolve lib (ma_authenticator m) headers Bearer = Inr (PSignedIn i)"
    using supplied resolved by (auto simp: resolve_signed_in)
  have loop: "auth_resolve lib (ma_authenticator m) [v] Bearer = Inr (PSignedIn i)"
    using bearer_of_loopback[OF supplied(2)] resolved loopback by (auto simp: resolve_signed_in presented_def)
  have bad: "auth_resolve lib (ma_authenticator m) bad Bearer = Inl CredentialRefused"
    using refused by (rule resolve_refused)
  show ?thesis
  proof (intro conjI)
    show "authenticate_caller lib m headers next2 = next2 (Some (Caller_Bearer token)) (PSignedIn i)"
      using supplied res by (auto simp: authenticate_caller_def presented_def simp flip: extract_bearer_iff)
    show "auth_middleware lib (ma_authenticator m) meth matched headers next
             = with_bearer_challenge lib (ma_authenticator m) (next (PSignedIn i))"
         "auth_middleware lib (ma_authenticator m) meth matched [v] next
             = with_bearer_challenge lib (ma_authenticator m) (next (PSignedIn i))"
         "auth_middleware lib (ma_authenticator m) meth matched bad next
             = with_bearer_challenge lib (ma_authenticator m) unauthorized"
      using res loop bad by (simp_all add: auth_middleware_def)
    show "ar_status (authenticate_caller lib m bad next2) = 401"
      using bad by (simp add: authenticate_caller_def unauthorized_def)
    show "auth_middleware lib (ma_authenticator m) meth matched [] next
             = with_bearer_challenge lib (ma_authenticator m) (if anonymous_may_reach meth matched then next PAnyone else unauthorized)"
         "authenticate_caller lib m [] next2
             = (if ma_anonymous m then next2 (Some Caller_Anonymous) PAnyone
                else unauthorized\<lparr>ar_www_authenticate := bearer_challenge lib (ma_authenticator m)\<rparr>)"
      by (simp_all add: auth_middleware_def authenticate_caller_def auth_resolve_def)
    show "\<not> (anonymous_may_reach meth (Some route) \<and> route \<in> set OPERATOR_ONLY)"
      by (rule operator_routes_closed)
    show "ar_status (auth_middleware lib a meth matched headers next) = 401 \<and> bearer_challenge lib a = Some c \<longrightarrow>
             ar_www_authenticate (auth_middleware lib a meth matched headers next) = Some c"
      unfolding auth_middleware_def using challenge_added by blast
  qed
qed

text \<open>A token of the service and a garbled header, on a deployment that publishes metadata.\<close>

theorem surfaces_never_downgrade_witness:
  "authenticate_caller \<lparr>al_to_str = Some, al_from_str = Some, al_base64 = Map.empty\<rparr>
       \<lparr>ma_authenticator = authenticator_new ''tok'', ma_anonymous = True\<rparr> [''bearer tok'']
       (\<lambda>c p. \<lparr>ar_status = (if c = Some (Caller_Bearer ''tok'') then 200 else 500), ar_www_authenticate = None\<rparr>)
     = \<lparr>ar_status = 200, ar_www_authenticate = None\<rparr>
   \<and> ar_status (authenticate_caller \<lparr>al_to_str = Some, al_from_str = Some, al_base64 = Map.empty\<rparr>
       \<lparr>ma_authenticator = authenticator_new ''tok'', ma_anonymous = True\<rparr> [''bearer kot'']
       (\<lambda>c p. \<lparr>ar_status = 200, ar_www_authenticate = None\<rparr>)) = 401"
proof -
  define lib :: auth_lib where "lib = \<lparr>al_to_str = Some, al_from_str = Some, al_base64 = Map.empty\<rparr>"
  define m where "m = \<lparr>ma_authenticator = authenticator_new ''tok'', ma_anonymous = True\<rparr>"
  define a where "a = (authenticator_new ''tok'')\<lparr>au_protected_resource := Some (protected_resource_new ''https://h'' [])\<rparr>"
  define n1 where "n1 = (\<lambda>(c :: caller option) (p :: principal).
      \<lparr>ar_status = (if c = Some (Caller_Bearer ''tok'') then 200 else 500 :: nat), ar_www_authenticate = None :: string option\<rparr>)"
  define n2 where "n2 = (\<lambda>(c :: caller option) (p :: principal). \<lparr>ar_status = 200 :: nat, ar_www_authenticate = None :: string option\<rparr>)"
  have b: "bearer_of ''bearer tok'' ''tok''" "presented lib [''bearer tok''] ''bearer tok''"
    "resolve_bearer (ma_authenticator m) ''tok'' = Inr (PSignedIn ServiceToken)"
    "al_to_str lib ''Bearer tok'' = Some (''Bearer '' @ ''tok'')"
    by (simp_all add: lib_def m_def presented_def resolve_bearer_def authenticator_new_def verify_bearer_token_def service_token_def
        eq_ignore_ascii_case_def ascii_lower_def extract_bearer_from_header_def flip: extract_bearer_iff)
  have bad: "\<nexists>h t. presented lib [''bearer kot''] h \<and> bearer_of h t \<and> resolve_bearer (ma_authenticator m) t \<noteq> Inl CredentialRefused"
    by (simp add: lib_def m_def presented_def resolve_bearer_def authenticator_new_def verify_bearer_token_def
        eq_ignore_ascii_case_def ascii_lower_def extract_bearer_from_header_def flip: extract_bearer_iff)
  have nx: "al_to_str lib ''Bearer tok'' = Some (''Bearer '' @ ''tok'')" "[''bearer kot''] \<noteq> []" using b by simp_all
  note r = surfaces_never_downgrade[OF b(2,1,3) nx bad]
  show ?thesis
    using r[of n1] r[of n2] unfolding n1_def n2_def lib_def m_def by simp
qed

end
