(* ===== verification/Dav_Access.thy ===== *)
theory Dav_Access
  imports Auth Storage_Api
begin

text \<open>
  The WebDAV surface before its handlers (\<^verbatim>\<open>notedthat-webdav/src\<close>: \<^verbatim>\<open>middleware/path_validation.rs\<close>, \<^verbatim>\<open>access.rs\<close>,
  \<^verbatim>\<open>middleware/access.rs\<close>, \<^verbatim>\<open>middleware/mod.rs\<close>, \<^verbatim>\<open>propfind.rs\<close>, \<^verbatim>\<open>if_header.rs\<close>): the target a URI names, who may do what
  there, and the \<^verbatim>\<open>If\<close> header.

  Percent decoding and URI parsing are parameters, the fields of \<open>dav_lib\<close>.  A response is its status, the
  headers of the code and its body; request ids are left out.
\<close>

section \<open>State and responses\<close>

record dav_lib =
  dl_auth :: auth_lib
  dl_percent :: "string \<Rightarrow> string"
  dl_uri :: "string \<Rightarrow> (string option \<times> string) option"

record webdav_state =
  dv_authenticator :: authenticator
  dv_declared_kbs :: "(string \<times> kb_slug) list"
  dv_access_policies :: "string \<rightharpoonup> access_policy"

record dav_response =
  dr_status :: nat
  dr_headers :: "(string \<times> string) list"
  dr_body :: string

definition status_only :: "nat \<Rightarrow> dav_response" where
  "status_only n = \<lparr>dr_status = n, dr_headers = [], dr_body = []\<rparr>"

section \<open>Targets\<close>

datatype dav_target = Dav_Root | Dav_KbRoot kb_slug | Dav_Object kb_slug object_path | Dav_NonDeclaredKb

definition WEBDAV_PREFIX :: string where
  "WEBDAV_PREFIX = ''/webdav''"

definition strip_webdav_prefix :: "string \<Rightarrow> (unit, string) result" where
  "strip_webdav_prefix uri_path =
     (case strip_prefix WEBDAV_PREFIX uri_path of
        Some path \<Rightarrow> if path = [] then Inr ''/'' else if prefix ''/'' path then Inr path else Inl ()
      | None \<Rightarrow> Inl ())"

definition decode_uri_segment :: "dav_lib \<Rightarrow> string \<Rightarrow> (unit, string) result" where
  "decode_uri_segment lib raw_segment =
     (let decoded = dl_percent lib raw_segment in if valid_utf8 decoded then Inr decoded else Inl ())"

definition validate_decoded_segment :: "string \<Rightarrow> bool" where
  "validate_decoded_segment decoded \<longleftrightarrow>
     decoded \<noteq> [] \<and> CHR ''/'' \<notin> set decoded \<and> decoded \<noteq> ''.'' \<and> decoded \<noteq> ''..''
     \<and> backslash \<notin> set decoded \<and> CHR 0x00 \<notin> set decoded"

definition checked_segment :: "dav_lib \<Rightarrow> string \<Rightarrow> (unit, string) result" where
  "checked_segment lib raw =
     res_bind (decode_uri_segment lib raw) (\<lambda>decoded.
       if validate_decoded_segment decoded then Inr decoded else Inl ())"

definition strip_slash :: "string \<Rightarrow> string" where
  "strip_slash uri_path = (case strip_prefix ''/'' uri_path of Some r \<Rightarrow> r | None \<Rightarrow> uri_path)"

definition parse_uri_path :: "dav_lib \<Rightarrow> (string \<times> kb_slug) list \<Rightarrow> string \<Rightarrow> (unit, dav_target) result" where
  "parse_uri_path lib declared uri_path =
     (let raw_path = strip_slash uri_path in
      if raw_path = [] then Inr Dav_Root
      else
        let (kb_raw, rest_raw) = (case split_once CHR ''/'' raw_path of Some p \<Rightarrow> p | None \<Rightarrow> (raw_path, [])) in
        res_bind (checked_segment lib kb_raw) (\<lambda>kb_decoded.
          case kb_slug_try_new kb_decoded of
            Inl _ \<Rightarrow> Inl ()
          | Inr slug \<Rightarrow>
              if map_of declared kb_decoded = None then Inr Dav_NonDeclaredKb
              else if rest_raw = [] then Inr (Dav_KbRoot slug)
              else res_bind (collect_results (checked_segment lib) (split_on CHR ''/'' rest_raw)) (\<lambda>parts.
                     case try_from_str (join ''/'' parts) of
                       Inl _ \<Rightarrow> Inl ()
                     | Inr path \<Rightarrow> Inr (Dav_Object slug path))))"

definition parse_webdav_uri_path :: "dav_lib \<Rightarrow> (string \<times> kb_slug) list \<Rightarrow> string \<Rightarrow> (unit, dav_target) result" where
  "parse_webdav_uri_path lib declared uri_path =
     res_bind (strip_webdav_prefix uri_path) (parse_uri_path lib declared)"

definition validate_read_uri_path :: "dav_lib \<Rightarrow> (string \<times> kb_slug) list \<Rightarrow> string \<Rightarrow> (unit, unit) result" where
  "validate_read_uri_path lib declared uri_path =
     (let raw_path = strip_slash uri_path in
      if raw_path = [] then Inr ()
      else
        res_bind (case strip_suffix ''/'' raw_path of
                    Some stripped \<Rightarrow> if stripped = [] \<or> suffix ''/'' stripped then Inl () else Inr stripped
                  | None \<Rightarrow> Inr raw_path) (\<lambda>candidate_raw.
        res_bind (check_all (\<lambda>raw. res_map (\<lambda>_. ()) (checked_segment lib raw)) (split_on CHR ''/'' candidate_raw)) (\<lambda>_.
        res_bind (if suffix ''/'' raw_path then ok_or () (strip_suffix ''/'' uri_path) else Inr uri_path) (\<lambda>candidate_uri.
        res_map (\<lambda>_. ()) (parse_uri_path lib declared candidate_uri)))))"

definition validate_webdav_read_uri_path :: "dav_lib \<Rightarrow> (string \<times> kb_slug) list \<Rightarrow> string \<Rightarrow> (unit, unit) result" where
  "validate_webdav_read_uri_path lib declared uri_path =
     res_bind (strip_webdav_prefix uri_path) (validate_read_uri_path lib declared)"

text \<open>The target dav-server's own path names, once the prefix is gone.\<close>

datatype fs_error = Fs_NotFound | Fs_Forbidden | Fs_GeneralFailure | Fs_NotImplemented | Fs_TooLarge | Fs_InsufficientStorage

definition parse_dav_path :: "(string \<times> kb_slug) list \<Rightarrow> string \<Rightarrow> (fs_error, dav_target) result" where
  "parse_dav_path declared bytes =
     (if \<not> valid_utf8 bytes then Inl Fs_NotFound
      else
        let stripped = dropWhile (\<lambda>c. c = CHR ''/'') bytes in
        if stripped = [] then Inr Dav_Root
        else
          let (kb_part, rest) = (case split_once CHR ''/'' stripped of Some p \<Rightarrow> p | None \<Rightarrow> (stripped, [])) in
          case kb_slug_try_new kb_part of
            Inl _ \<Rightarrow> Inl Fs_NotFound
          | Inr slug \<Rightarrow>
              if map_of declared kb_part = None then Inr Dav_NonDeclaredKb
              else if rest = [] then Inr (Dav_KbRoot slug)
              else
                let rest' = (case strip_suffix ''/'' rest of Some r \<Rightarrow> r | None \<Rightarrow> rest) in
                if rest' = [] then Inr (Dav_KbRoot slug)
                else case try_from_str rest' of
                  Inr path \<Rightarrow> Inr (Dav_Object slug path)
                | Inl _ \<Rightarrow> Inl Fs_NotFound)"

section \<open>Access\<close>

definition policy_for :: "webdav_state \<Rightarrow> kb_slug \<Rightarrow> access_policy" where
  "policy_for state kb = (case dv_access_policies state (kb_str kb) of Some p \<Rightarrow> p | None \<Rightarrow> policy_empty)"

definition verbs_for_method :: "string \<Rightarrow> verb list" where
  "verbs_for_method meth =
     (if meth = ''OPTIONS'' then []
      else if meth = ''PROPFIND'' then [List]
      else if meth = ''GET'' \<or> meth = ''HEAD'' then [Read]
      else if meth = ''DELETE'' then [Delete]
      else if meth = ''MOVE'' then [Write, Delete]
      else [Write])"

record dav_allow =
  da_content :: bool
  da_propfind :: bool

definition AUTH_GUIDANCE :: string where
  "AUTH_GUIDANCE = ''valid credentials are required; anonymous access is available only '' @
     ''where the knowledge base'' @ sq @ ''s access rules grant it, and invalid credentials are not treated as '' @
     ''anonymous.''"

definition challenge :: dav_response where
  "challenge = \<lparr>dr_status = 401, dr_headers = [(''www-authenticate'', ''Basic realm='' @ dq @ ''NotedThat'' @ dq)],
                dr_body = AUTH_GUIDANCE\<rparr>"

definition forbidden :: dav_response where
  "forbidden = \<lparr>dr_status = 403, dr_headers = [],
                dr_body = ''the knowledge base'' @ sq @ ''s access rules do not grant this operation''\<rparr>"

fun dav_allows :: "webdav_state \<Rightarrow> dav_target \<Rightarrow> principal \<Rightarrow> verb \<Rightarrow> bool" where
  "dav_allows state Dav_Root p v =
     (is_signed_in p \<or> list_ex (\<lambda>(_, kb). Access.visible_in_listing (policy_for state kb) p) (dv_declared_kbs state))"
| "dav_allows state (Dav_KbRoot kb) p v = grants_any (policy_for state kb) p v"
| "dav_allows state (Dav_Object kb path) p v = policy_allows (policy_for state kb) p v (path_str path)"
| "dav_allows state Dav_NonDeclaredKb p v = False"

definition target_path :: "string \<Rightarrow> string" where
  "target_path uri_path =
     (case strip_suffix ''/'' uri_path of
        Some path \<Rightarrow> if path \<noteq> [] then path else uri_path
      | None \<Rightarrow> uri_path)"

text \<open>The layer answers itself, or lets the request through with a principal and what \<^verbatim>\<open>OPTIONS\<close> will report.\<close>

definition basic_auth_middleware :: "dav_lib \<Rightarrow> webdav_state \<Rightarrow> string \<Rightarrow> string \<Rightarrow> string list
    \<Rightarrow> (dav_response, principal \<times> dav_allow) result" where
  "basic_auth_middleware lib state meth uri_path authorization =
     (case auth_resolve (dl_auth lib) (dv_authenticator state) authorization BasicOrBearer of
        Inl _ \<Rightarrow> Inl challenge
      | Inr p \<Rightarrow>
          let vs = verbs_for_method meth in
          if is_anonymous p \<and> list_ex is_mutating vs then Inl challenge
          else if \<not> is_ok (validate_webdav_read_uri_path lib (dv_declared_kbs state) uri_path) then Inl (status_only 400)
          else case parse_webdav_uri_path lib (dv_declared_kbs state) (target_path uri_path) of
            Inl _ \<Rightarrow> Inl (status_only 400)
          | Inr target \<Rightarrow>
              let allow = \<lparr>da_content = target \<noteq> Dav_Root \<and> dav_allows state target p Read,
                           da_propfind = dav_allows state target p List\<rparr>;
                  authorized = (if vs = [] then da_content allow \<or> da_propfind allow
                                else list_all (dav_allows state target p) vs) in
              if \<not> authorized then Inl (case p of PAnyone \<Rightarrow> challenge | PSignedIn _ \<Rightarrow> forbidden)
              else Inr (p, allow))"

definition options_allow :: "dav_allow \<Rightarrow> string" where
  "options_allow access =
     join '', '' ([''OPTIONS''] @ (if da_content access then [''GET'', ''HEAD''] else [])
       @ (if da_propfind access then [''PROPFIND''] else []))"

section \<open>Depth\<close>

datatype propfind_depth = Depth_Default | Depth_Zero | Depth_One | Depth_Infinity | Depth_Invalid

definition parse_propfind_depth :: "string list \<Rightarrow> propfind_depth" where
  "parse_propfind_depth values =
     (case values of
        [] \<Rightarrow> Depth_Default
      | [v] \<Rightarrow> (if v = ''0'' then Depth_Zero
                else if v = ''1'' then Depth_One
                else if v = ''infinity'' \<or> v = ''Infinity'' then Depth_Infinity
                else Depth_Invalid)
      | _ # _ # _ \<Rightarrow> Depth_Invalid)"

section \<open>What a target is\<close>

definition segment_ok :: "dav_lib \<Rightarrow> string \<Rightarrow> string \<Rightarrow> bool" where
  "segment_ok lib raw decoded \<longleftrightarrow> dl_percent lib raw = decoded \<and> valid_utf8 decoded \<and> validate_decoded_segment decoded"

lemma checked_segment_Inr_iff [result_simps]: "checked_segment lib raw = Inr d \<longleftrightarrow> segment_ok lib raw d"
  by (auto simp: checked_segment_def decode_uri_segment_def segment_ok_def Let_def res_bind_Inr_iff)

lemma valid_segment_wf: "validate_decoded_segment d \<Longrightarrow> wf_segment d"
  by (simp add: validate_decoded_segment_def wf_segment_def)

lemma valid_segments_path:
  assumes "parts \<noteq> []" "\<And>d. d \<in> set parts \<Longrightarrow> validate_decoded_segment d"
  shows "wf_path (join ''/'' parts)" "split_on CHR ''/'' (join ''/'' parts) = parts"
proof -
  show sp: "split_on CHR ''/'' (join ''/'' parts) = parts"
    using assms by (intro split_on_join) (auto simp: validate_decoded_segment_def)
  have "c \<noteq> backslash \<and> c \<noteq> CHR 0x00" if "c \<in> set (join ''/'' parts)" for c
    using that assms by (induction parts rule: induct_list012) (auto simp: validate_decoded_segment_def)
  then show "wf_path (join ''/'' parts)"
    using assms valid_segment_wf by (auto simp: wf_path_def sp list_all_iff)
qed

lemma collect_segments:
  "collect_results (checked_segment lib) raws = Inr parts \<longleftrightarrow> list_all2 (segment_ok lib) raws parts"
  by (induction raws arbitrary: parts) (auto simp: res_bind_Inr_iff checked_segment_Inr_iff list_all2_Cons1)

definition uri_parts :: "string \<Rightarrow> string \<times> string" where
  "uri_parts raw = (case split_once CHR ''/'' raw of Some p \<Rightarrow> p | None \<Rightarrow> (raw, []))"

lemma uri_parts_simps [simp]:
  "CHR ''/'' \<notin> set k \<Longrightarrow> uri_parts (k @ CHR ''/'' # r) = (k, r)"
  "CHR ''/'' \<notin> set k \<Longrightarrow> uri_parts k = (k, [])"
  using split_once_Some_iff[of "CHR ''/''" "k @ CHR ''/'' # r" k r] split_once_None_iff[of "CHR ''/''" k]
  by (simp_all add: uri_parts_def)

definition parse_parts :: "dav_lib \<Rightarrow> (string \<times> kb_slug) list \<Rightarrow> string \<times> string \<Rightarrow> (unit, dav_target) result" where
  "parse_parts lib declared kr =
     res_bind (checked_segment lib (fst kr)) (\<lambda>kb_decoded.
        case kb_slug_try_new kb_decoded of
          Inl _ \<Rightarrow> Inl ()
        | Inr slug \<Rightarrow>
            if map_of declared kb_decoded = None then Inr Dav_NonDeclaredKb
            else if snd kr = [] then Inr (Dav_KbRoot slug)
            else res_bind (collect_results (checked_segment lib) (split_on CHR ''/'' (snd kr))) (\<lambda>parts.
                   case try_from_str (join ''/'' parts) of
                     Inl _ \<Rightarrow> Inl ()
                   | Inr path \<Rightarrow> Inr (Dav_Object slug path)))"

lemma parse_uri_path_slash:
  "r \<noteq> [] \<Longrightarrow> parse_uri_path lib declared (CHR ''/'' # r) = parse_parts lib declared (uri_parts r)"
  unfolding uri_parts_def parse_parts_def
  by (simp add: parse_uri_path_def strip_slash_def strip_prefix_def split_beta Let_def)

lemma parse_parts_Inr_iff:
  "parse_parts lib declared kr = Inr t \<longleftrightarrow>
     (\<exists>d slug. segment_ok lib (fst kr) d \<and> kb_slug_try_new d = Inr slug \<and>
        (if map_of declared d = None then t = Dav_NonDeclaredKb
         else if snd kr = [] then t = Dav_KbRoot slug
         else \<exists>parts path. list_all2 (segment_ok lib) (split_on CHR ''/'' (snd kr)) parts
                \<and> try_from_str (join ''/'' parts) = Inr path \<and> t = Dav_Object slug path))"
proof -
  have last_step: "res_bind (collect_results (checked_segment lib) raws) (\<lambda>parts.
        case try_from_str (join ''/'' parts) of Inl _ \<Rightarrow> Inl () | Inr path \<Rightarrow> Inr (Dav_Object slug path)) = Inr t
      \<longleftrightarrow> (\<exists>parts path. list_all2 (segment_ok lib) raws parts \<and> try_from_str (join ''/'' parts) = Inr path
            \<and> t = Dav_Object slug path)" for raws slug
  proof (cases "collect_results (checked_segment lib) raws")
    case (Inl e)
    then have "\<not> list_all2 (segment_ok lib) raws parts" for parts using collect_segments[of lib raws parts] by simp
    with Inl show ?thesis by simp
  next
    case (Inr ps)
    then have "list_all2 (segment_ok lib) raws parts \<longleftrightarrow> parts = ps" for parts using collect_segments[of lib raws parts] by auto
    with Inr show ?thesis by (cases "try_from_str (join ''/'' ps)") auto
  qed
  show ?thesis
  proof (cases "checked_segment lib (fst kr)")
    case (Inl e)
    then have "\<not> segment_ok lib (fst kr) d" for d by (metis checked_segment_Inr_iff sum.distinct(1))
    with Inl show ?thesis by (simp add: parse_parts_def)
  next
    case (Inr d)
    then have d: "segment_ok lib (fst kr) d' \<longleftrightarrow> d' = d" for d' by (metis checked_segment_Inr_iff sum.inject(2))
    show ?thesis by (cases "kb_slug_try_new d") (auto simp: parse_parts_def Inr d last_step)
  qed
qed

lemma strip_webdav_Inr_iff:
  "strip_webdav_prefix uri = Inr q \<longleftrightarrow> uri = ''/webdav'' \<and> q = ''/'' \<or> (\<exists>r. uri = ''/webdav/'' @ r \<and> q = CHR ''/'' # r)"
  by (auto simp: strip_webdav_prefix_def WEBDAV_PREFIX_def strip_prefix_def prefix_def split: option.splits if_splits)

lemma parse_object_iff:
  assumes "r \<noteq> []"
  shows "parse_uri_path lib declared (CHR ''/'' # r) = Inr (Dav_Object kb path) \<longleftrightarrow>
     snd (uri_parts r) \<noteq> [] \<and> segment_ok lib (fst (uri_parts r)) (kb_str kb) \<and> kb_slug_try_new (kb_str kb) = Inr kb
     \<and> map_of declared (kb_str kb) \<noteq> None
     \<and> list_all2 (segment_ok lib) (split_on CHR ''/'' (snd (uri_parts r))) (split_on CHR ''/'' (path_str path))"
    (is "?l \<longleftrightarrow> ?r")
proof
  assume ?l
  then obtain d parts where d: "segment_ok lib (fst (uri_parts r)) d" "kb_slug_try_new d = Inr kb" "map_of declared d \<noteq> None"
      "snd (uri_parts r) \<noteq> []" "list_all2 (segment_ok lib) (split_on CHR ''/'' (snd (uri_parts r))) parts"
      "try_from_str (join ''/'' parts) = Inr path"
    using assms by (auto simp: parse_uri_path_slash parse_parts_Inr_iff split: if_splits)
  have ne: "parts \<noteq> []" using d(5) by (metis list_all2_Nil2 split_on_not_Nil)
  have v: "validate_decoded_segment x" if "x \<in> set parts" for x
    using d(5) that by (auto simp: list_all2_conv_all_nth in_set_conv_nth segment_ok_def)
  note p = valid_segments_path[OF ne v]
  have "path = ObjectPath (join ''/'' parts)"
    using d(6) p(1) by (simp add: try_from_str_Inr_iff wf_path_no_leading_slash)
  moreover have "d = kb_str kb" using d(2) by (auto simp: kb_slug_try_new_Inr_iff)
  ultimately show ?r using d p(2) by simp
next
  assume r: ?r
  have ne: "split_on CHR ''/'' (path_str path) \<noteq> []" by simp
  have v: "validate_decoded_segment x" if "x \<in> set (split_on CHR ''/'' (path_str path))" for x
    using r that by (auto simp: list_all2_conv_all_nth in_set_conv_nth segment_ok_def)
  have "wf_path (path_str path)" using valid_segments_path(1)[OF ne v] by (simp add: join_split_on)
  then have "try_from_str (join ''/'' (split_on CHR ''/'' (path_str path))) = Inr path"
    by (simp add: join_split_on try_from_str_Inr_iff wf_path_no_leading_slash)
  with r show ?l
    using assms by (auto simp: parse_uri_path_slash parse_parts_Inr_iff
        intro!: exI[of _ "kb_str kb"] exI[of _ "split_on CHR ''/'' (path_str path)"])
qed

text \<open>A slash at the end: the handlers parse the path as it came, the access layer without it.\<close>

lemma split_on_trailing: "split_on c (s @ [c]) = split_on c s @ [[]]"
  using split_on_append_sep[of c s "[]"] by simp

lemma segment_ok_Nil: "dl_percent lib [] = [] \<Longrightarrow> \<not> segment_ok lib [] d"
  by (auto simp: segment_ok_def validate_decoded_segment_def)

lemma parse_trailing_slash:
  assumes nil: "dl_percent lib [] = []" and r: "r \<noteq> []"
    and ok: "parse_uri_path lib declared (CHR ''/'' # r @ ''/'') = Inr t"
  shows "parse_uri_path lib declared (CHR ''/'' # r) = Inr t"
proof (cases "CHR ''/'' \<in> set r")
  case False
  then have "uri_parts (r @ ''/'') = (r, [])" "uri_parts r = (r, [])" by simp_all
  then show ?thesis using ok r by (simp add: parse_uri_path_slash)
next
  case True
  then obtain k u where u: "r = k @ CHR ''/'' # u" "CHR ''/'' \<notin> set k" by (metis split_list_first)
  then have p: "uri_parts (r @ ''/'') = (k, u @ ''/'')" "uri_parts r = (k, u)" by simp_all
  have "\<not> list_all2 (segment_ok lib) (split_on CHR ''/'' (u @ ''/'')) parts" for parts
    using segment_ok_Nil[OF nil] by (auto simp: split_on_trailing list_all2_append1 list_all2_Cons1)
  with ok r p show ?thesis
    by (auto simp: parse_uri_path_slash parse_parts_Inr_iff split: if_splits)
qed

lemma parse_empty_segment: "dl_percent lib [] = [] \<Longrightarrow> parse_uri_path lib declared ''//'' \<noteq> Inr t"
  using segment_ok_Nil[of lib] by (auto simp: parse_uri_path_slash parse_parts_Inr_iff uri_parts_def)

lemma authorised_target:
  assumes nil: "dl_percent lib [] = []" and ok: "parse_webdav_uri_path lib declared uri = Inr t"
  shows "parse_webdav_uri_path lib declared (target_path uri) = Inr t"
proof (cases "suffix ''/'' uri")
  case False
  then show ?thesis using ok by (simp add: target_path_def strip_suffix_def)
next
  case True
  from ok obtain q where q: "strip_webdav_prefix uri = Inr q" "parse_uri_path lib declared q = Inr t"
    by (auto simp: parse_webdav_uri_path_def res_bind_Inr_iff)
  have "uri \<noteq> ''/webdav''" using True by (auto simp: suffix_single_iff)
  with q(1) obtain r where r: "uri = ''/webdav/'' @ r" "q = CHR ''/'' # r"
    unfolding strip_webdav_Inr_iff by blast
  show ?thesis
  proof (cases r rule: rev_cases)
    case Nil
    then have "target_path uri = ''/webdav''" using r by (simp add: target_path_def strip_suffix_def suffix_def)
    then show ?thesis using q r Nil by (simp add: parse_webdav_uri_path_def strip_webdav_prefix_def WEBDAV_PREFIX_def strip_prefix_def)
  next
    case (snoc r' c)
    with True r have c: "c = CHR ''/''" by (auto simp: suffix_def)
    then have tp: "target_path uri = ''/webdav/'' @ r'" using r snoc by (simp add: target_path_def strip_suffix_def suffix_def)
    have ok': "parse_uri_path lib declared (CHR ''/'' # r' @ ''/'') = Inr t" using q(2) r(2) snoc c by simp
    have "r' \<noteq> []"
    proof
      assume "r' = []"
      with ok' show False using parse_empty_segment[OF nil, of declared t] by simp
    qed
    then have "parse_uri_path lib declared (CHR ''/'' # r') = Inr t"
      by (rule parse_trailing_slash[OF nil _ ok'])
    then show ?thesis
      by (simp add: parse_webdav_uri_path_def tp strip_webdav_prefix_def WEBDAV_PREFIX_def strip_prefix_def)
  qed
qed

text \<open>What dav-server hands back, the decoded path, is the same target.\<close>

lemma slug_char_ascii: "slug_char c \<Longrightarrow> in_range 0 0x7F c"
  by (auto simp: slug_char_def in_range_def less_eq_char_def)

lemma slug_chars:
  assumes "kb_slug_try_new s = Inr kb"
  shows "s = kb_str kb" "valid_utf8 s" "s \<noteq> []" "CHR ''/'' \<notin> set s"
proof -
  have w: "\<And>c. c \<in> set s \<Longrightarrow> slug_char c" "s \<noteq> []" "kb = KbSlug s"
    using assms by (auto simp: kb_slug_try_new_Inr_iff wf_slug_def list_all_iff)
  show "s = kb_str kb" "s \<noteq> []" using w by simp_all
  show "valid_utf8 s" using w slug_char_ascii by (intro valid_ascii) blast
  show "CHR ''/'' \<notin> set s" using w(1)[of "CHR ''/''"] by (auto simp: slug_char_def)
qed

lemma dav_path_agrees:
  assumes "kb_slug_try_new (kb_str kb) = Inr kb" "map_of declared (kb_str kb) \<noteq> None"
    and "wf_path (path_str path)" "valid_utf8 (path_str path)" and tail: "tail \<in> {[], ''/''}"
  shows "parse_dav_path declared (''/'' @ kb_str kb @ ''/'' @ path_str path @ tail) = Inr (Dav_Object kb path)"
proof -
  let ?k = "kb_str kb" and ?p = "path_str path"
  note k = slug_chars[OF assms(1)]
  have v: "valid_utf8 (''/'' @ ?k @ ''/'' @ ?p @ tail)"
    using k assms(4) tail by (auto simp: valid_append valid_slash)
  have st: "dropWhile (\<lambda>c. c = CHR ''/'') (''/'' @ ?k @ ''/'' @ ?p @ tail) = ?k @ CHR ''/'' # ?p @ tail"
    using k(3,4) by (cases ?k) auto
  have so: "split_once CHR ''/'' (?k @ CHR ''/'' # ?p @ tail) = Some (?k, ?p @ tail)"
    using k(4) by (simp add: split_once_Some_iff)
  have p: "?p \<noteq> []" "\<not> suffix ''/'' ?p" "try_from_str ?p = Inr path"
    using assms(3) by (auto simp: wf_path_not_Nil wf_path_no_trailing_slash try_from_str_Inr_iff wf_path_no_leading_slash)
  have ss: "(case strip_suffix ''/'' (?p @ tail) of Some r \<Rightarrow> r | None \<Rightarrow> ?p @ tail) = ?p"
    using tail p(2) by (auto simp: strip_suffix_def)
  show ?thesis
    using v k(3) assms(1,2) p ss unfolding parse_dav_path_def Let_def st so by (auto simp: Let_def)
qed

lemma segments_wf:
  assumes "list_all2 (segment_ok lib) raws (split_on CHR ''/'' p)"
  shows "wf_path p" "valid_utf8 p"
proof -
  have v: "validate_decoded_segment x" "valid_utf8 x" if "x \<in> set (split_on CHR ''/'' p)" for x
    using assms that by (auto simp: list_all2_conv_all_nth in_set_conv_nth segment_ok_def)
  show "wf_path p" using valid_segments_path(1)[of "split_on CHR ''/'' p"] v by (simp add: join_split_on)
  show "valid_utf8 p" using valid_join[of "split_on CHR ''/'' p"] v by (simp add: join_split_on list_all_iff)
qed

lemma object_uriE:
  assumes "parse_webdav_uri_path lib declared uri = Inr (Dav_Object kb path)"
  obtains kb_raw rest where "uri = ''/webdav/'' @ kb_raw @ ''/'' @ rest" "CHR ''/'' \<notin> set kb_raw" "rest \<noteq> []"
    "segment_ok lib kb_raw (kb_str kb)" "kb_slug_try_new (kb_str kb) = Inr kb" "map_of declared (kb_str kb) \<noteq> None"
    "list_all2 (segment_ok lib) (split_on CHR ''/'' rest) (split_on CHR ''/'' (path_str path))"
proof -
  from assms obtain q where q: "strip_webdav_prefix uri = Inr q" "parse_uri_path lib declared q = Inr (Dav_Object kb path)"
    by (auto simp: parse_webdav_uri_path_def res_bind_Inr_iff)
  have root: "parse_uri_path lib declared ''/'' = Inr Dav_Root"
    by (simp add: parse_uri_path_def strip_slash_def strip_prefix_def)
  then have "q \<noteq> ''/''" using q(2) by auto
  then obtain r where r: "uri = ''/webdav/'' @ r" "q = CHR ''/'' # r" "r \<noteq> []"
    using q(1) unfolding strip_webdav_Inr_iff by blast
  note i = parse_object_iff[OF r(3), of lib declared kb path]
  have o: "snd (uri_parts r) \<noteq> []" using i q(2) r(2) by simp
  then obtain k u where u: "split_once CHR ''/'' r = Some (k, u)" by (auto simp: uri_parts_def split: option.splits)
  then have k: "r = k @ CHR ''/'' # u" "CHR ''/'' \<notin> set k" by (auto simp: split_once_Some_iff)
  then have "uri_parts r = (k, u)" by simp
  with i q(2) r k show thesis by (intro that[of k u]) simp_all
qed

lemma object_uriI:
  assumes "uri = ''/webdav/'' @ kb_raw @ ''/'' @ rest" "CHR ''/'' \<notin> set kb_raw" "rest \<noteq> []"
    "segment_ok lib kb_raw (kb_str kb)" "kb_slug_try_new (kb_str kb) = Inr kb" "map_of declared (kb_str kb) \<noteq> None"
    "list_all2 (segment_ok lib) (split_on CHR ''/'' rest) (split_on CHR ''/'' (path_str path))"
  shows "parse_webdav_uri_path lib declared uri = Inr (Dav_Object kb path)"
proof -
  have st: "strip_webdav_prefix uri = Inr (CHR ''/'' # kb_raw @ CHR ''/'' # rest)"
    unfolding strip_webdav_Inr_iff assms(1) by simp
  have "parse_uri_path lib declared (CHR ''/'' # kb_raw @ CHR ''/'' # rest) = Inr (Dav_Object kb path)"
    using assms(2-7) by (subst parse_object_iff) simp_all
  with st show ?thesis by (simp add: parse_webdav_uri_path_def)
qed

text \<open>A request the access layer lets through is granted every verb of its method at the target its handler parses.\<close>

lemma middleware_principal:
  assumes "basic_auth_middleware lib st meth uri auth = Inr (p, allow)"
  shows "auth_resolve (dl_auth lib) (dv_authenticator st) auth BasicOrBearer = Inr p"
    and "\<not> (is_anonymous p \<and> list_ex is_mutating (verbs_for_method meth))"
    and "\<exists>target. parse_webdav_uri_path lib (dv_declared_kbs st) (target_path uri) = Inr target
           \<and> (if verbs_for_method meth = [] then dav_allows st target p Read \<or> dav_allows st target p List
              else list_all (dav_allows st target p) (verbs_for_method meth))"
  using assms by (auto simp: basic_auth_middleware_def Let_def split: sum.splits if_splits)

lemma middleware_granted:
  assumes "dl_percent lib [] = []" "basic_auth_middleware lib st meth uri auth = Inr (p, allow)"
    and "parse_webdav_uri_path lib (dv_declared_kbs st) uri = Inr target" "v \<in> set (verbs_for_method meth)"
  shows "dav_allows st target p v"
  using middleware_principal(3)[OF assms(2)] authorised_target[OF assms(1,3)] assms(4)
  by (auto simp: list_all_iff split: if_splits)

section \<open>Properties\<close>

text \<open>
  C22: The object a WebDAV URI names.  The path is accepted exactly when it is the prefix, a declared knowledge
  base and at least one segment, each of which decodes to text that is not empty, not a dot name, and
  free of slashes, backslashes and NULs, however it was encoded; the key is those segments with slashes
  between.  So the key is always a well-formed object path, and dav-server's path of the same name, with or without a slash
  at the end, is read as the same object.
\<close>

theorem dav_target_exact:
  "(parse_webdav_uri_path lib declared uri = Inr (Dav_Object kb path) \<longleftrightarrow>
     (\<exists>kb_raw rest. uri = ''/webdav/'' @ kb_raw @ ''/'' @ rest \<and> CHR ''/'' \<notin> set kb_raw \<and> rest \<noteq> []
        \<and> segment_ok lib kb_raw (kb_str kb) \<and> kb_slug_try_new (kb_str kb) = Inr kb \<and> map_of declared (kb_str kb) \<noteq> None
        \<and> list_all2 (segment_ok lib) (split_on CHR ''/'' rest) (split_on CHR ''/'' (path_str path))))
   \<and> (parse_webdav_uri_path lib declared uri = Inr (Dav_Object kb path) \<longrightarrow>
     wf_path (path_str path)
     \<and> parse_dav_path declared (''/'' @ kb_str kb @ ''/'' @ path_str path) = Inr (Dav_Object kb path)
     \<and> parse_dav_path declared (''/'' @ kb_str kb @ ''/'' @ path_str path @ ''/'') = Inr (Dav_Object kb path))"
    (is "(?l \<longleftrightarrow> ?r) \<and> (?l \<longrightarrow> ?w)")
proof (intro conjI impI)
  show "?l \<longleftrightarrow> ?r"
  proof
    assume ?l
    then show ?r by (rule object_uriE) blast
  next
    assume ?r
    then show ?l using object_uriI by blast
  qed
next
  assume ?l
  then obtain kb_raw rest where r: "kb_slug_try_new (kb_str kb) = Inr kb" "map_of declared (kb_str kb) \<noteq> None"
      "list_all2 (segment_ok lib) (split_on CHR ''/'' rest) (split_on CHR ''/'' (path_str path))"
    by (rule object_uriE)
  note w = segments_wf[OF r(3)]
  show "wf_path (path_str path)" by (rule w)
  show "parse_dav_path declared (''/'' @ kb_str kb @ ''/'' @ path_str path) = Inr (Dav_Object kb path)"
    using dav_path_agrees[OF r(1,2) w, of "[]"] by simp
  show "parse_dav_path declared (''/'' @ kb_str kb @ ''/'' @ path_str path @ ''/'') = Inr (Dav_Object kb path)"
    using dav_path_agrees[OF r(1,2) w, of "''/''"] by simp
qed

text \<open>An encoded slash in a segment is refused; a plain path names its object.\<close>

theorem dav_target_exact_witness:
  "parse_webdav_uri_path \<lparr>dl_auth = \<lparr>al_to_str = Some, al_from_str = Some, al_base64 = Map.empty\<rparr>,
       dl_percent = (\<lambda>s. if s = ''%2f'' then ''/'' else s), dl_uri = Map.empty\<rparr>
     [(''notes'', KbSlug ''notes'')] ''/webdav/notes/a/b'' = Inr (Dav_Object (KbSlug ''notes'') (ObjectPath ''a/b''))
   \<and> wf_path ''a/b''
   \<and> parse_webdav_uri_path \<lparr>dl_auth = \<lparr>al_to_str = Some, al_from_str = Some, al_base64 = Map.empty\<rparr>,
       dl_percent = (\<lambda>s. if s = ''%2f'' then ''/'' else s), dl_uri = Map.empty\<rparr>
     [(''notes'', KbSlug ''notes'')] ''/webdav/notes/a/%2f'' = Inl ()"
proof -
  have p: "parse_webdav_uri_path \<lparr>dl_auth = \<lparr>al_to_str = Some, al_from_str = Some, al_base64 = Map.empty\<rparr>,
       dl_percent = (\<lambda>s. if s = ''%2f'' then ''/'' else s), dl_uri = Map.empty\<rparr>
     [(''notes'', KbSlug ''notes'')] ''/webdav/notes/a/b'' = Inr (Dav_Object (KbSlug ''notes'') (ObjectPath ''a/b''))"
    by code_simp
  have q: "parse_webdav_uri_path \<lparr>dl_auth = \<lparr>al_to_str = Some, al_from_str = Some, al_base64 = Map.empty\<rparr>,
       dl_percent = (\<lambda>s. if s = ''%2f'' then ''/'' else s), dl_uri = Map.empty\<rparr>
     [(''notes'', KbSlug ''notes'')] ''/webdav/notes/a/%2f'' = Inl ()"
    by code_simp
  show ?thesis using conjunct2[OF dav_target_exact, rule_format, OF p] p q by simp
qed

end
