(* ===== verification/If_Header.thy ===== *)
theory If_Header
  imports Utf8
begin

text \<open>
  The WebDAV \<^verbatim>\<open>If\<close> request header (\<^verbatim>\<open>notedthat-webdav/src/if_header.rs\<close>): its parser and its evaluation.  The parser's
  position is the rest of the value; its two loops are recursive functions whose every turn consumes input.
\<close>

section \<open>Values\<close>

datatype if_condition = Cond_ETag string | Cond_StateToken

record if_term =
  it_not :: bool
  it_condition :: if_condition

record if_list =
  il_resource :: "string option"
  il_terms :: "if_term list"

datatype if_header = IfHeader (if_lists: "if_list list")

datatype malformed = Malformed

section \<open>Parser\<close>

definition skip_whitespace :: "string \<Rightarrow> string" where
  "skip_whitespace rest = dropWhile (\<lambda>c. c \<in> {CHR '' '', CHR 0x09, CHR 0x0D, CHR 0x0A}) rest"

definition delimited :: "char \<Rightarrow> char \<Rightarrow> string \<Rightarrow> (malformed, string \<times> string) result" where
  "delimited open' close' rest =
     res_bind (ok_or Malformed (strip_prefix [open'] rest)) (\<lambda>body. ok_or Malformed (split_once close' body))"

definition angle_bracketed :: "string \<Rightarrow> (malformed, string \<times> string) result" where
  "angle_bracketed rest =
     res_bind (delimited CHR ''<'' CHR ''>'' rest) (\<lambda>(inner, after).
       if inner = [] \<or> list_ex is_whitespace (utf8_chars inner) then Inl Malformed else Inr (inner, after))"

definition parse_not :: "string \<Rightarrow> bool \<times> string" where
  "parse_not rest =
     (if 3 \<le> length rest \<and> eq_ignore_ascii_case (take 3 rest) ''not''
      then (True, skip_whitespace (drop 3 rest)) else (False, rest))"

definition parse_term :: "string \<Rightarrow> (malformed, if_term \<times> string) result" where
  "parse_term rest =
     (let (neg, rest) = parse_not rest in
      case rest of
        [] \<Rightarrow> Inl Malformed
      | c # _ \<Rightarrow>
          if c = CHR ''<'' then
            res_bind (angle_bracketed rest) (\<lambda>(_, after). Inr (\<lparr>it_not = neg, it_condition = Cond_StateToken\<rparr>, after))
          else if c = CHR ''['' then
            res_bind (delimited CHR ''['' CHR '']'' rest) (\<lambda>(inner, after).
              let etag = trim inner in
              if etag = [] then Inl Malformed
              else Inr (\<lparr>it_not = neg, it_condition = Cond_ETag etag\<rparr>, after))
          else Inl Malformed)"

lemma skip_length: "length (skip_whitespace s) \<le> length s"
  by (simp add: skip_whitespace_def length_dropWhile_le)

lemma delimited_length: "delimited a b s = Inr (i, r) \<Longrightarrow> length r < length s"
  by (auto simp: delimited_def result_simps str_simps)

lemma angle_length: "angle_bracketed s = Inr (i, r) \<Longrightarrow> length r < length s"
  using delimited_length by (auto simp: angle_bracketed_def result_simps split: if_splits)

lemma parse_not_length: "parse_not s = (b, r) \<Longrightarrow> length r \<le> length s"
  using skip_length[of "drop 3 s"] by (auto simp: parse_not_def split: if_splits)

lemma parse_term_length: "parse_term s = Inr (t, r) \<Longrightarrow> length r < length s"
proof -
  assume p: "parse_term s = Inr (t, r)"
  obtain b r1 where n: "parse_not s = (b, r1)" by fastforce
  have "length r < length r1"
    using p n angle_length[of r1 _ r] delimited_length[of _ _ r1 _ r]
    by (auto simp: parse_term_def Let_def result_simps split: list.splits if_splits)
  with parse_not_length[OF n] show ?thesis by simp
qed

function parse_terms :: "if_term list \<Rightarrow> string \<Rightarrow> (malformed, if_term list \<times> string) result" where
  "parse_terms acc rest =
     (let rest' = skip_whitespace rest in
      case strip_prefix '')'' rest' of
        Some after \<Rightarrow> Inr (acc, after)
      | None \<Rightarrow>
          (case parse_term rest' of
             Inl e \<Rightarrow> Inl e
           | Inr (t, after) \<Rightarrow> parse_terms (acc @ [t]) after))"
  by auto

termination
  by (relation "measure (\<lambda>(acc, rest). length rest)") (auto dest!: parse_term_length intro: less_le_trans skip_length)

declare parse_terms.simps [simp del]

definition parse_list :: "string \<Rightarrow> (malformed, if_term list \<times> string) result" where
  "parse_list rest =
     res_bind (ok_or Malformed (strip_prefix ''('' rest)) (\<lambda>rest.
     res_bind (parse_terms [] rest) (\<lambda>(terms, after).
       if terms = [] then Inl Malformed else Inr (terms, after)))"

text \<open>The state of the outer loop: the lists so far, the resource tag in force, and whether lists are tagged.\<close>

record if_state =
  is_lists :: "if_list list"
  is_resource :: "string option"
  is_tagged :: "bool option"

lemma parse_terms_length: "parse_terms acc s = Inr (ts, r) \<Longrightarrow> length r < length s"
proof (induction acc s rule: parse_terms.induct)
  case (1 acc rest)
  show ?case
  proof (cases "strip_prefix '')'' (skip_whitespace rest)")
    case None
    with 1(2) obtain t after where p: "parse_term (skip_whitespace rest) = Inr (t, after)" "parse_terms (acc @ [t]) after = Inr (ts, r)"
      by (subst (asm) parse_terms.simps) (auto simp: Let_def split: sum.splits)
    then show ?thesis using 1(1)[OF refl None p(1) refl p(2)] parse_term_length[OF p(1)] skip_length[of rest] by simp
  next
    case (Some a)
    with 1(2) have "a = r" by (subst (asm) parse_terms.simps) (simp add: Let_def)
    with Some show ?thesis using skip_length[of rest] by (auto simp: str_simps)
  qed
qed

lemma parse_list_length: "parse_list s = Inr (ts, r) \<Longrightarrow> length r < length s"
  using parse_terms_length by (fastforce simp: parse_list_def result_simps str_simps split: if_splits)

function parse_lists :: "if_state \<Rightarrow> string \<Rightarrow> (malformed, if_state) result" where
  "parse_lists st rest =
     (let rest' = skip_whitespace rest in
      if rest' = [] then Inr st
      else if hd rest' = CHR ''<'' then
        if is_tagged st = Some False then Inl Malformed
        else (case angle_bracketed rest' of
                Inl e \<Rightarrow> Inl e
              | Inr (tag, after) \<Rightarrow>
                  let after' = skip_whitespace after in
                  if \<not> prefix ''('' after' then Inl Malformed
                  else parse_lists (st\<lparr>is_tagged := Some True, is_resource := Some tag\<rparr>) after')
      else if hd rest' = CHR ''('' then
        (case parse_list rest' of
           Inl e \<Rightarrow> Inl e
         | Inr (terms, after) \<Rightarrow>
             parse_lists
               (st\<lparr>is_tagged := (if is_tagged st = None then Some False else is_tagged st),
                   is_lists := is_lists st @ [\<lparr>il_resource = is_resource st, il_terms = terms\<rparr>]\<rparr>) after)
      else Inl Malformed)"
  by auto

termination
  by (relation "measure (\<lambda>(st, rest). length rest)")
    (auto dest!: angle_length parse_list_length intro: less_le_trans skip_length le_less_trans[OF skip_length])

declare parse_lists.simps [simp del]

definition if_parse :: "string \<Rightarrow> (malformed, if_header) result" where
  "if_parse value =
     res_bind (parse_lists \<lparr>is_lists = [], is_resource = None, is_tagged = None\<rparr> value) (\<lambda>st.
       if is_lists st = [] then Inl Malformed else Inr (IfHeader (is_lists st)))"

text \<open>The argument is the list of values of the request's \<^verbatim>\<open>If\<close> headers, and how a value is read as text.\<close>

definition if_from_headers :: "(string \<Rightarrow> string option) \<Rightarrow> string list \<Rightarrow> (malformed, if_header option) result" where
  "if_from_headers to_str values =
     (case values of
        [] \<Rightarrow> Inr None
      | [v] \<Rightarrow> res_bind (ok_or Malformed (to_str v)) (\<lambda>s. res_map Some (if_parse s))
      | _ # _ # _ \<Rightarrow> Inl Malformed)"

definition if_resources :: "if_header \<Rightarrow> string list" where
  "if_resources h = List.map_filter il_resource (if_lists h)"

section \<open>Evaluation\<close>

fun condition_holds :: "string option \<Rightarrow> if_condition \<Rightarrow> bool" where
  "condition_holds etag (Cond_ETag expected) =
     (case etag of None \<Rightarrow> False | Some current \<Rightarrow> \<not> prefix ''W/'' current \<and> current = expected)"
| "condition_holds etag Cond_StateToken = False"

definition if_evaluate :: "(string option \<Rightarrow> string option) \<Rightarrow> if_header \<Rightarrow> bool" where
  "if_evaluate current_etag h =
     list_ex (\<lambda>l. let etag = current_etag (il_resource l) in
        list_all (\<lambda>t. condition_holds etag (it_condition t) \<noteq> it_not t) (il_terms l)) (if_lists h)"

section \<open>The grammar\<close>

text \<open>
  The grammar of RFC 4918 section 10.4.2, as the set of texts that spell a value: a header is one or more lists
  without a tag, or one or more resource tags each with one or more lists.  White space may stand between
  the pieces, \<^verbatim>\<open>Not\<close> may be in any case, and a state token may be any text, which is not kept.
\<close>

definition ws_only :: "string \<Rightarrow> bool" where
  "ws_only s \<longleftrightarrow> set s \<subseteq> {CHR '' '', CHR 0x09, CHR 0x0D, CHR 0x0A}"

definition wf_tag :: "string \<Rightarrow> bool" where
  "wf_tag s \<longleftrightarrow> s \<noteq> [] \<and> CHR ''>'' \<notin> set s \<and> \<not> list_ex is_whitespace (utf8_chars s)"

inductive spells_condition :: "string \<Rightarrow> if_condition \<Rightarrow> bool" where
  token: "wf_tag tok \<Longrightarrow> spells_condition (''<'' @ tok @ ''>'') Cond_StateToken"
| etag: "CHR '']'' \<notin> set inner \<Longrightarrow> trim inner \<noteq> [] \<Longrightarrow> spells_condition (''['' @ inner @ '']'') (Cond_ETag (trim inner))"

inductive spells_term :: "string \<Rightarrow> if_term \<Rightarrow> bool" where
  plain: "spells_condition v c \<Longrightarrow> spells_term v \<lparr>it_not = False, it_condition = c\<rparr>"
| negated: "eq_ignore_ascii_case n ''not'' \<Longrightarrow> ws_only s \<Longrightarrow> spells_condition v c
    \<Longrightarrow> spells_term (n @ s @ v) \<lparr>it_not = True, it_condition = c\<rparr>"

text \<open>The inside of a list, up to and with its closing parenthesis.\<close>

inductive spells_terms :: "string \<Rightarrow> if_term list \<Rightarrow> bool" where
  close: "ws_only s \<Longrightarrow> spells_terms (s @ '')'') []"
| more: "ws_only s \<Longrightarrow> spells_term u t \<Longrightarrow> spells_terms v ts \<Longrightarrow> spells_terms (s @ u @ v) (t # ts)"

inductive spells_group :: "string \<Rightarrow> if_term list list \<Rightarrow> bool" where
  none: "spells_group [] []"
| list: "ws_only s \<Longrightarrow> spells_terms v ts \<Longrightarrow> ts \<noteq> [] \<Longrightarrow> spells_group u gs \<Longrightarrow> spells_group (s @ ''('' @ v @ u) (ts # gs)"

inductive spells_tagged :: "string \<Rightarrow> (string \<times> if_term list list) list \<Rightarrow> bool" where
  none: "spells_tagged [] []"
| tag: "ws_only s \<Longrightarrow> wf_tag tg \<Longrightarrow> spells_group g gs \<Longrightarrow> gs \<noteq> [] \<Longrightarrow> spells_tagged u rest
    \<Longrightarrow> spells_tagged (s @ ''<'' @ tg @ ''>'' @ g @ u) ((tg, gs) # rest)"

abbreviation lists_of :: "string option \<Rightarrow> if_term list list \<Rightarrow> if_list list" where
  "lists_of r gs \<equiv> map (\<lambda>ts. \<lparr>il_resource = r, il_terms = ts\<rparr>) gs"

definition tagged_lists :: "(string \<times> if_term list list) list \<Rightarrow> if_list list" where
  "tagged_lists tgs = concat (map (\<lambda>(tg, gs). lists_of (Some tg) gs) tgs)"

inductive spells_if :: "string \<Rightarrow> if_header \<Rightarrow> bool" where
  untagged: "spells_group g gs \<Longrightarrow> gs \<noteq> [] \<Longrightarrow> ws_only w \<Longrightarrow> spells_if (g @ w) (IfHeader (lists_of None gs))"
| tagged: "spells_tagged u tgs \<Longrightarrow> tgs \<noteq> [] \<Longrightarrow> ws_only w \<Longrightarrow> spells_if (u @ w) (IfHeader (tagged_lists tgs))"

section \<open>The parser decides the grammar\<close>

lemma ws_only_append [simp]: "ws_only (a @ b) \<longleftrightarrow> ws_only a \<and> ws_only b" "ws_only []"
  by (auto simp: ws_only_def)

lemma skip_split: "\<exists>s. ws_only s \<and> x = s @ skip_whitespace x"
  unfolding skip_whitespace_def
  by (intro exI[of _ "takeWhile (\<lambda>c. c \<in> {CHR '' '', CHR 0x09, CHR 0x0D, CHR 0x0A}) x"]) (auto simp: ws_only_def dest: set_takeWhileD)

lemma skip_ws: "ws_only s \<Longrightarrow> skip_whitespace (s @ x) = skip_whitespace x"
  unfolding skip_whitespace_def ws_only_def by (subst dropWhile_append2) auto

lemma skip_start: "c \<notin> {CHR '' '', CHR 0x09, CHR 0x0D, CHR 0x0A} \<Longrightarrow> skip_whitespace (c # x) = c # x"
  by (simp add: skip_whitespace_def)

lemma skip_ws_all: "ws_only s \<Longrightarrow> skip_whitespace s = []"
  using skip_ws[of s "[]"] by (simp add: skip_whitespace_def)

lemma delimited_iff: "delimited a b s = Inr (i, r) \<longleftrightarrow> s = a # i @ b # r \<and> b \<notin> set i"
  by (auto simp: delimited_def result_simps str_simps)

lemma angle_iff: "angle_bracketed s = Inr (i, r) \<longleftrightarrow> s = CHR ''<'' # i @ CHR ''>'' # r \<and> wf_tag i"
  by (auto simp: angle_bracketed_def delimited_iff wf_tag_def result_simps split: if_splits)

lemma not_word_length: "eq_ignore_ascii_case n ''not'' \<Longrightarrow> length n = 3"
  unfolding eq_ignore_ascii_case_def by (drule arg_cong[of _ _ length]) simp

lemma not_word_start:
  "eq_ignore_ascii_case (c # n) ''not'' \<Longrightarrow> c \<notin> {CHR '' '', CHR 0x09, CHR 0x0D, CHR 0x0A, CHR '')'', CHR ''<'', CHR ''[''}"
  by (auto simp: eq_ignore_ascii_case_def ascii_lower_def)

lemma spells_condition_start: "spells_condition v c \<Longrightarrow> \<exists>x. v = CHR ''<'' # x \<or> v = CHR ''['' # x"
  by (auto elim!: spells_condition.cases)

lemma parse_not_plain:
  assumes "spells_condition v c"
  shows "parse_not (v @ r) = (False, v @ r)"
proof -
  obtain d x where d: "v @ r = d # x" "d \<in> {CHR ''<'', CHR ''[''}" using spells_condition_start[OF assms] by auto
  have "\<not> eq_ignore_ascii_case (take 3 (d # x)) ''not''"
    using not_word_start[of d "take 2 x"] d(2) by (auto simp: numeral_3_eq_3 numeral_2_eq_2)
  then show ?thesis by (simp add: d(1) parse_not_def)
qed

lemma parse_not_negated:
  assumes "eq_ignore_ascii_case n ''not''" "ws_only s" "spells_condition v c"
  shows "parse_not (n @ s @ v @ r) = (True, v @ r)"
proof -
  have "skip_whitespace (s @ v @ r) = v @ r"
    using spells_condition_start[OF assms(3)] by (auto simp: skip_ws[OF assms(2)] skip_start)
  then show ?thesis using assms(1) not_word_length[OF assms(1)] by (simp add: parse_not_def)
qed

text \<open>What follows the optional \<^verbatim>\<open>Not\<close>.\<close>

lemma parse_condition:
  assumes "parse_not s = (neg, x)"
  shows "parse_term s = Inr (t, r) \<longleftrightarrow> (\<exists>v c. x = v @ r \<and> spells_condition v c \<and> t = \<lparr>it_not = neg, it_condition = c\<rparr>)"
proof
  assume p: "parse_term s = Inr (t, r)"
  then obtain d y where x: "x = d # y" using assms by (cases x) (auto simp: parse_term_def)
  then consider i where "angle_bracketed x = Inr (i, r)" "t = \<lparr>it_not = neg, it_condition = Cond_StateToken\<rparr>"
    | i where "delimited CHR ''['' CHR '']'' x = Inr (i, r)" "trim i \<noteq> []" "t = \<lparr>it_not = neg, it_condition = Cond_ETag (trim i)\<rparr>"
    using p assms by (auto simp: parse_term_def Let_def result_simps split: if_splits)
  then show "\<exists>v c. x = v @ r \<and> spells_condition v c \<and> t = \<lparr>it_not = neg, it_condition = c\<rparr>"
  proof cases
    case 1
    then show ?thesis using spells_condition.token[of i] by (auto simp: angle_iff intro!: exI[of _ "''<'' @ i @ ''>''"])
  next
    case 2
    then show ?thesis using spells_condition.etag[of i] by (auto simp: delimited_iff intro!: exI[of _ "''['' @ i @ '']''"])
  qed
next
  assume "\<exists>v c. x = v @ r \<and> spells_condition v c \<and> t = \<lparr>it_not = neg, it_condition = c\<rparr>"
  then obtain v c where v: "x = v @ r" "spells_condition v c" "t = \<lparr>it_not = neg, it_condition = c\<rparr>" by blast
  from v(2) show "parse_term s = Inr (t, r)"
  proof cases
    case (token tok)
    then have "angle_bracketed x = Inr (tok, r)" using v(1) by (simp add: angle_iff)
    then show ?thesis using assms v token by (simp add: parse_term_def)
  next
    case (etag inner)
    then have "delimited CHR ''['' CHR '']'' x = Inr (inner, r)" using v(1) by (simp add: delimited_iff)
    then show ?thesis using assms v etag by (simp add: parse_term_def)
  qed
qed

lemma parse_term_iff: "parse_term s = Inr (t, r) \<longleftrightarrow> (\<exists>u. s = u @ r \<and> spells_term u t)"
proof
  assume p: "parse_term s = Inr (t, r)"
  obtain neg x where n: "parse_not s = (neg, x)" by fastforce
  obtain v c where v: "x = v @ r" "spells_condition v c" "t = \<lparr>it_not = neg, it_condition = c\<rparr>" using p parse_condition[OF n] by blast
  show "\<exists>u. s = u @ r \<and> spells_term u t"
  proof (cases neg)
    case True
    obtain w where w: "ws_only w" "drop 3 s = w @ skip_whitespace (drop 3 s)" using skip_split by blast
    have word: "eq_ignore_ascii_case (take 3 s) ''not''" and "x = skip_whitespace (drop 3 s)"
      using n True by (auto simp: parse_not_def split: if_splits)
    then have "drop 3 s = w @ v @ r" using w(2) v(1) by simp
    then have "s = (take 3 s @ w @ v) @ r" using append_take_drop_id[of 3 s] by simp
    moreover have "spells_term (take 3 s @ w @ v) t" using spells_term.negated[OF word w(1) v(2)] v(3) True by simp
    ultimately show ?thesis by (rule exI[of _ "take 3 s @ w @ v", OF conjI])
  next
    case False
    then have "s = v @ r" using n v(1) by (simp add: parse_not_def split: if_splits)
    moreover have "spells_term v t" using spells_term.plain[OF v(2)] v(3) False by simp
    ultimately show ?thesis by (rule exI[of _ v, OF conjI])
  qed
next
  assume "\<exists>u. s = u @ r \<and> spells_term u t"
  then obtain u where u: "s = u @ r" "spells_term u t" by blast
  from u(2) show "parse_term s = Inr (t, r)"
  proof cases
    case (plain c)
    then show ?thesis using parse_condition[OF parse_not_plain[of u c r]] u(1) by auto
  next
    case (negated n w v c)
    then show ?thesis using parse_condition[OF parse_not_negated[OF negated(3-5), of r]] u(1) by auto
  qed
qed

lemma spells_term_start:
  assumes "spells_term u t"
  shows "\<exists>d x. u = d # x \<and> d \<noteq> CHR '')'' \<and> skip_whitespace (d # x @ r) = d # x @ r"
  using assms
proof cases
  case (plain c)
  obtain x where "u = CHR ''<'' # x \<or> u = CHR ''['' # x" using spells_condition_start[OF plain(2)] by blast
  then show ?thesis by (elim disjE) (simp_all add: skip_start)
next
  case (negated n s v c)
  obtain d y where "n = d # y" using not_word_length[OF negated(3)] by (cases n) auto
  then show ?thesis using negated not_word_start[of d y] by (auto simp: skip_start)
qed

lemma parse_terms_turn:
  "ws_only s \<Longrightarrow> spells_term u t \<Longrightarrow> parse_terms acc (s @ u @ x) = parse_terms (acc @ [t]) x"
proof -
  assume s: "ws_only s" and u: "spells_term u t"
  obtain d y where d: "u = d # y" "d \<noteq> CHR '')''" "skip_whitespace (d # y @ x) = d # y @ x" using spells_term_start[OF u] by blast
  have "parse_term (u @ x) = Inr (t, x)" using u parse_term_iff by blast
  then show ?thesis using d skip_ws[OF s, of "u @ x"] by (subst parse_terms.simps) (simp add: strip_prefix_def)
qed

lemma parse_terms_close: "ws_only s \<Longrightarrow> parse_terms acc (s @ CHR '')'' # x) = Inr (acc, x)"
  by (subst parse_terms.simps) (simp add: skip_ws skip_start strip_prefix_def)

lemma parse_terms_complete: "spells_terms u ts \<Longrightarrow> parse_terms acc (u @ r) = Inr (acc @ ts, r)"
  by (induction u ts arbitrary: acc rule: spells_terms.induct) (simp_all add: parse_terms_close parse_terms_turn)

lemma parse_terms_sound:
  "parse_terms acc s = Inr (res, r) \<Longrightarrow> \<exists>u ts. s = u @ r \<and> res = acc @ ts \<and> spells_terms u ts"
proof (induction acc s rule: parse_terms.induct)
  case (1 acc rest)
  obtain w where w: "ws_only w" "rest = w @ skip_whitespace rest" using skip_split by blast
  show ?case
  proof (cases "strip_prefix '')'' (skip_whitespace rest)")
    case (Some a)
    then have "Inr (acc, a) = (Inr (res, r) :: (malformed, if_term list \<times> string) result)" using 1(2) by (subst (asm) parse_terms.simps) (simp add: Let_def)
    then have "rest = (w @ '')'') @ r" "res = acc @ []" using w(2) Some by (simp_all add: strip_prefix_Some_iff)
    then show ?thesis using spells_terms.close[OF w(1)] by blast
  next
    case None
    then obtain t after where p: "parse_term (skip_whitespace rest) = Inr (t, after)" "parse_terms (acc @ [t]) after = Inr (res, r)"
      using 1(2) by (subst (asm) parse_terms.simps) (auto simp: Let_def split: sum.splits)
    obtain u where u: "skip_whitespace rest = u @ after" "spells_term u t" using p(1) parse_term_iff by blast
    obtain v ts where v: "after = v @ r" "res = (acc @ [t]) @ ts" "spells_terms v ts"
      using 1(1)[OF refl None p(1) refl p(2)] by blast
    have "rest = (w @ u @ v) @ r" using w(2) u(1) v(1) by simp
    then show ?thesis using spells_terms.more[OF w(1) u(2) v(3)] v(2) by auto
  qed
qed

lemma parse_list_iff: "parse_list s = Inr (ts, r) \<longleftrightarrow> (\<exists>v. s = CHR ''('' # v @ r \<and> spells_terms v ts \<and> ts \<noteq> [])"
proof
  assume "parse_list s = Inr (ts, r)"
  then show "\<exists>v. s = CHR ''('' # v @ r \<and> spells_terms v ts \<and> ts \<noteq> []"
    by (auto simp: parse_list_def result_simps str_simps dest!: parse_terms_sound split: if_splits)
qed (auto simp: parse_list_def strip_prefix_def parse_terms_complete)

text \<open>One turn of the outer loop for each kind of piece.\<close>

lemma parse_lists_end: "ws_only w \<Longrightarrow> parse_lists st w = Inr st"
  by (subst parse_lists.simps) (simp add: skip_ws_all)

lemma parse_lists_list:
  assumes "ws_only s" "spells_terms v ts" "ts \<noteq> []"
  shows "parse_lists st (s @ CHR ''('' # v @ r) = parse_lists
    (st\<lparr>is_tagged := (if is_tagged st = None then Some False else is_tagged st),
        is_lists := is_lists st @ [\<lparr>il_resource = is_resource st, il_terms = ts\<rparr>]\<rparr>) r"
proof -
  have "parse_list (CHR ''('' # v @ r) = Inr (ts, r)" using assms(2,3) by (auto simp: parse_list_iff)
  then show ?thesis by (subst parse_lists.simps) (simp add: skip_ws[OF assms(1)] skip_start)
qed

lemma parse_lists_tag:
  assumes "ws_only s" "wf_tag tg" "prefix ''('' (skip_whitespace r)" "is_tagged st \<noteq> Some False"
  shows "parse_lists st (s @ CHR ''<'' # tg @ CHR ''>'' # r) =
    parse_lists (st\<lparr>is_tagged := Some True, is_resource := Some tg\<rparr>) (skip_whitespace r)"
proof -
  have "angle_bracketed (CHR ''<'' # tg @ CHR ''>'' # r) = Inr (tg, r)" using assms(2) by (simp add: angle_iff)
  then show ?thesis using assms(3,4) by (subst parse_lists.simps) (simp add: skip_ws[OF assms(1)] skip_start)
qed

lemma parse_lists_skip: "parse_lists st (skip_whitespace r) = parse_lists st r"
proof -
  obtain w where w: "ws_only w" "r = w @ skip_whitespace r" using skip_split by blast
  then have "skip_whitespace (skip_whitespace r) = skip_whitespace r" using skip_ws[OF w(1), of "skip_whitespace r"] by simp
  then show ?thesis by (subst (1 2) parse_lists.simps) simp
qed

lemma parse_group:
  "spells_group g gs \<Longrightarrow> is_tagged st \<noteq> None \<Longrightarrow> parse_lists st (g @ r) = parse_lists (st\<lparr>is_lists := is_lists st @ lists_of (is_resource st) gs\<rparr>) r"
proof (induction g gs arbitrary: st rule: spells_group.induct)
  case (list s v ts u gs)
  obtain y where "is_tagged st = Some y" using list.prems by auto
  then have "st\<lparr>is_tagged := (if is_tagged st = None then Some False else is_tagged st), is_lists := ls\<rparr> = st\<lparr>is_lists := ls\<rparr>" for ls
    by (cases st) simp
  then show ?case using parse_lists_list[OF list(1-3), of st "u @ r"] list.IH list.prems by simp
qed simp

lemma group_start: "spells_group g gs \<Longrightarrow> gs \<noteq> [] \<Longrightarrow> \<exists>x. skip_whitespace (g @ r) = CHR ''('' # x"
  by (erule spells_group.cases) (auto simp: skip_ws skip_start)

lemma parse_tagged:
  "spells_tagged u tgs \<Longrightarrow> is_tagged st \<noteq> Some False \<Longrightarrow> ws_only w \<Longrightarrow>
    \<exists>st'. parse_lists st (u @ w) = Inr st' \<and> is_lists st' = is_lists st @ tagged_lists tgs"
proof (induction u tgs arbitrary: st rule: spells_tagged.induct)
  case none
  then show ?case by (simp add: parse_lists_end tagged_lists_def)
next
  case (tag s tg g gs u rest)
  let ?st = "st\<lparr>is_tagged := Some True, is_resource := Some tg\<rparr>"
  have pre: "prefix ''('' (skip_whitespace (g @ u @ w))" using group_start[OF tag(3,4), of "u @ w"] by auto
  have "parse_lists st ((s @ ''<'' @ tg @ ''>'' @ g @ u) @ w) = parse_lists ?st (g @ u @ w)"
    using parse_lists_tag[OF tag(1,2) pre tag.prems(1)] by (simp add: parse_lists_skip)
  also have "\<dots> = parse_lists (?st\<lparr>is_lists := is_lists ?st @ lists_of (is_resource ?st) gs\<rparr>) (u @ w)"
    by (rule parse_group[OF tag(3)]) simp
  finally show ?case
    using tag.IH[of "?st\<lparr>is_lists := is_lists ?st @ lists_of (is_resource ?st) gs\<rparr>"] tag.prems(2) by (simp add: tagged_lists_def)
qed

lemma parse_complete:
  assumes "spells_if s h"
  shows "if_parse s = Inr h"
proof -
  let ?st = "\<lparr>is_lists = [], is_resource = None, is_tagged = None\<rparr> :: if_state"
  from assms have "\<exists>st'. parse_lists ?st s = Inr st' \<and> is_lists st' = if_lists h \<and> if_lists h \<noteq> []"
  proof cases
    case (tagged u tgs w)
    from tagged(3,4) have "tagged_lists tgs \<noteq> []" by cases (auto simp: tagged_lists_def)
    then show ?thesis using parse_tagged[OF tagged(3), of ?st w] tagged by simp
  next
    case (untagged g gs w)
    from untagged(3,4) obtain s' v ts u gs' where g: "g = s' @ ''('' @ v @ u" "gs = ts # gs'" "ws_only s'" "spells_terms v ts" "ts \<noteq> []" "spells_group u gs'"
      by cases auto
    let ?st1 = "?st\<lparr>is_tagged := Some False, is_lists := [\<lparr>il_resource = None, il_terms = ts\<rparr>]\<rparr>"
    have "parse_lists ?st (g @ w) = parse_lists ?st1 (u @ w)"
      using parse_lists_list[OF g(3-5), of ?st "u @ w"] g(1) by simp
    also have "\<dots> = Inr (?st1\<lparr>is_lists := is_lists ?st1 @ lists_of (is_resource ?st1) gs'\<rparr>)"
      using parse_group[OF g(6), of ?st1 w] parse_lists_end[OF untagged(5)] by simp
    finally show ?thesis using untagged g(2) by simp
  qed
  then show ?thesis by (cases h) (auto simp: if_parse_def)
qed

text \<open>What the loop has read, by the kind of lists it is in.\<close>

definition read_rest :: "if_state \<Rightarrow> string \<Rightarrow> if_list list \<Rightarrow> bool" where
  "read_rest st s ls \<longleftrightarrow>
     (case is_tagged st of
        None \<Rightarrow> ls = [] \<and> ws_only s \<or> spells_if s (IfHeader ls)
      | Some False \<Rightarrow> \<exists>g gs w. s = g @ w \<and> ws_only w \<and> spells_group g gs \<and> ls = lists_of (is_resource st) gs
      | Some True \<Rightarrow> \<exists>g gs u tgs w. s = g @ u @ w \<and> ws_only w \<and> spells_group g gs \<and> spells_tagged u tgs
          \<and> ls = lists_of (is_resource st) gs @ tagged_lists tgs)"

lemma read_rest_end: "ws_only w \<Longrightarrow> read_rest st w []"
proof (cases "is_tagged st")
  case (Some b)
  assume w: "ws_only w"
  show ?thesis
  proof (cases b)
    case True
    then show ?thesis using Some w spells_group.none spells_tagged.none unfolding read_rest_def
      by (simp, intro exI[of _ "[]"] exI[of _ w]) (simp add: tagged_lists_def)
  next
    case False
    then show ?thesis using Some w spells_group.none unfolding read_rest_def
      by (simp, intro exI[of _ "[]"] exI[of _ w]) simp
  qed
qed (simp add: read_rest_def)

lemma read_rest_list:
  assumes "ws_only s" "spells_terms v ts" "ts \<noteq> []" "is_tagged st = None \<Longrightarrow> is_resource st = None"
    and "read_rest (st\<lparr>is_tagged := (if is_tagged st = None then Some False else is_tagged st), is_lists := x\<rparr>) r ls"
  shows "read_rest st (s @ CHR ''('' # v @ r) (\<lparr>il_resource = is_resource st, il_terms = ts\<rparr> # ls)"
proof -
  note one = spells_group.list[OF assms(1-3)]
  show ?thesis
  proof (cases "is_tagged st = Some True")
    case True
    then obtain g gs u tgs w where "r = g @ u @ w" "ws_only w" "spells_group g gs" "spells_tagged u tgs"
      "ls = lists_of (is_resource st) gs @ tagged_lists tgs"
      using assms(5) by (auto simp: read_rest_def)
    then show ?thesis unfolding read_rest_def using True one[of g gs]
      by (simp, intro exI[of _ "s @ ''('' @ v @ g"] exI[of _ "ts # gs"] exI[of _ u] exI[of _ tgs] exI[of _ w]) simp
  next
    case False
    then obtain g gs w where g: "r = g @ w" "ws_only w" "spells_group g gs" "ls = lists_of (is_resource st) gs"
      using assms(5) by (cases "is_tagged st") (auto simp: read_rest_def split: bool.splits)
    show ?thesis
    proof (cases "is_tagged st")
      case None
      then show ?thesis using spells_if.untagged[OF one[OF g(3)] _ g(2)] g assms(4) by (simp add: read_rest_def)
    next
      case (Some b)
      then show ?thesis unfolding read_rest_def using False one[OF g(3)] g
        by (simp, intro exI[of _ "s @ ''('' @ v @ g"] exI[of _ "ts # gs"] exI[of _ w]) simp
    qed
  qed
qed

lemma read_rest_tag:
  assumes "ws_only s" "wf_tag tg" "prefix ''('' (skip_whitespace after)" "is_tagged st \<noteq> Some False"
    and "read_rest (st\<lparr>is_tagged := Some True, is_resource := Some tg\<rparr>) (skip_whitespace after) ls"
  shows "read_rest st (s @ CHR ''<'' # tg @ CHR ''>'' # after) ls"
proof -
  obtain g gs u tgs w where g: "skip_whitespace after = g @ u @ w" "ws_only w" "spells_group g gs" "spells_tagged u tgs"
    "ls = lists_of (Some tg) gs @ tagged_lists tgs"
    using assms(5) by (auto simp: read_rest_def)
  obtain x where x: "g @ u @ w = CHR ''('' # x" using assms(3) g(1) by (auto simp: prefix_def)
  obtain sp where sp: "ws_only sp" "after = sp @ skip_whitespace after" using skip_split by blast
  have "gs \<noteq> []"
  proof
    assume "gs = []"
    then have "g = []" using g(3) by (auto elim: spells_group.cases)
    then have "u @ w = CHR ''('' # x" using x by simp
    with g(4) g(2) show False
    proof cases
      case none
      then show False using \<open>u @ w = _\<close> g(2) by (auto simp: ws_only_def)
    next
      case (tag s' tg' g' gs' u' rest)
      then show False using \<open>u @ w = _\<close> by (cases s') (auto simp: ws_only_def)
    qed
  qed
  from g(3) this obtain s1 v ts u1 gs' where g1: "g = s1 @ ''('' @ v @ u1" "gs = ts # gs'" "ws_only s1" "spells_terms v ts" "ts \<noteq> []" "spells_group u1 gs'"
    by cases auto
  have sg: "spells_group (sp @ g) gs" using spells_group.list[of "sp @ s1", OF _ g1(4-6)] sp(1) g1(1-3) by simp
  note t = spells_tagged.tag[OF assms(1,2) sg \<open>gs \<noteq> []\<close> g(4)]
  have spelled: "s @ CHR ''<'' # tg @ CHR ''>'' # after = (s @ ''<'' @ tg @ ''>'' @ (sp @ g) @ u) @ w"
    using sp(2) g(1) by simp
  have ls: "ls = tagged_lists ((tg, gs) # tgs)" using g(5) by (simp add: tagged_lists_def)
  show ?thesis
  proof (cases "is_tagged st")
    case None
    then show ?thesis unfolding spelled using spells_if.tagged[OF t _ g(2)] ls by (simp add: read_rest_def)
  next
    case (Some b)
    then have "is_tagged st = Some True" using assms(4) by auto
    then show ?thesis unfolding spelled read_rest_def ls using t g(2) spells_group.none
      by (simp, intro exI[of _ "[]"] exI[of _ "s @ ''<'' @ tg @ ''>'' @ (sp @ g) @ u"] exI[of _ "(tg, gs) # tgs"] exI[of _ w]) auto
  qed
qed

lemma parse_lists_turn:
  assumes "parse_lists st rest = Inr st'"
  obtains "skip_whitespace rest = []" "st' = st"
  | tg after where "skip_whitespace rest = CHR ''<'' # tg @ CHR ''>'' # after" "wf_tag tg" "is_tagged st \<noteq> Some False"
      "prefix ''('' (skip_whitespace after)" "angle_bracketed (skip_whitespace rest) = Inr (tg, after)"
      "parse_lists (st\<lparr>is_tagged := Some True, is_resource := Some tg\<rparr>) (skip_whitespace after) = Inr st'"
  | ts after v where "skip_whitespace rest = CHR ''('' # v @ after" "spells_terms v ts" "ts \<noteq> []" "parse_list (skip_whitespace rest) = Inr (ts, after)"
      "parse_lists (st\<lparr>is_tagged := (if is_tagged st = None then Some False else is_tagged st),
                   is_lists := is_lists st @ [\<lparr>il_resource = is_resource st, il_terms = ts\<rparr>]\<rparr>) after = Inr st'"
proof (cases "skip_whitespace rest")
  case Nil
  then show ?thesis using that(1) assms by (subst (asm) parse_lists.simps) simp
next
  case (Cons c x)
  note run = assms[unfolded parse_lists.simps[of st rest] Let_def Cons]
  consider "c = CHR ''<''" | "c = CHR ''(''" using run by (auto split: if_splits)
  then show ?thesis
  proof cases
    case 1
    then obtain tg after where a: "angle_bracketed (c # x) = Inr (tg, after)" using run by (cases "angle_bracketed (c # x)") (auto split: if_splits)
    have s: "c # x = CHR ''<'' # tg @ CHR ''>'' # after" "wf_tag tg" using a by (simp_all add: angle_iff)
    have "is_tagged st \<noteq> Some False \<and> prefix ''('' (skip_whitespace after)
        \<and> parse_lists (st\<lparr>is_tagged := Some True, is_resource := Some tg\<rparr>) (skip_whitespace after) = Inr st'"
      using run 1 by (simp add: a[unfolded 1] split: if_splits)
    then show ?thesis using that(2)[of tg after] Cons a s by simp
  next
    case 2
    then obtain ts after where a: "parse_list (c # x) = Inr (ts, after)" using run by (cases "parse_list (c # x)") (auto split: if_splits)
    then obtain v where "c # x = CHR ''('' # v @ after" "spells_terms v ts" "ts \<noteq> []" by (auto simp: parse_list_iff)
    then show ?thesis using run 2 a that(3)[of v after ts] Cons by simp
  qed
qed

lemma parse_lists_sound:
  "parse_lists st s = Inr st' \<Longrightarrow> (is_tagged st = None \<longrightarrow> is_resource st = None)
    \<Longrightarrow> \<exists>ls. is_lists st' = is_lists st @ ls \<and> read_rest st s ls"
proof (induction st s rule: parse_lists.induct)
  case (1 st rest)
  obtain w where w: "ws_only w" "rest = w @ skip_whitespace rest" using skip_split by blast
  from 1(3) show ?case
  proof (cases rule: parse_lists_turn)
    case 1
    then have "ws_only rest" using w by simp
    then show ?thesis using read_rest_end[of rest st] 1(2) by auto
  next
    case (2 tg after)
    have "\<exists>ls. is_lists st' = is_lists (st\<lparr>is_tagged := Some True, is_resource := Some tg\<rparr>) @ ls
        \<and> read_rest (st\<lparr>is_tagged := Some True, is_resource := Some tg\<rparr>) (skip_whitespace after) ls"
      using 1(1)[OF refl _ _ 2(3,5) refl refl] 2 by simp
    then obtain ls where "is_lists st' = is_lists st @ ls" "read_rest st (w @ CHR ''<'' # tg @ CHR ''>'' # after) ls"
      using read_rest_tag[OF w(1) 2(2,4,3)] by auto
    moreover have "rest = w @ CHR ''<'' # tg @ CHR ''>'' # after" using w(2) 2(1) by simp
    ultimately show ?thesis by blast
  next
    case (3 ts after v)
    have "\<exists>ls. is_lists st' = (is_lists st @ [\<lparr>il_resource = is_resource st, il_terms = ts\<rparr>]) @ ls
        \<and> read_rest (st\<lparr>is_tagged := (if is_tagged st = None then Some False else is_tagged st),
                   is_lists := is_lists st @ [\<lparr>il_resource = is_resource st, il_terms = ts\<rparr>]\<rparr>) after ls"
      using 1(2)[OF refl _ _ _ 3(4) refl] 3 1(4) by simp
    then obtain ls where "is_lists st' = is_lists st @ \<lparr>il_resource = is_resource st, il_terms = ts\<rparr> # ls"
      "read_rest st (w @ CHR ''('' # v @ after) (\<lparr>il_resource = is_resource st, il_terms = ts\<rparr> # ls)"
      using read_rest_list[OF w(1) 3(2,3), of st] 1(4) by auto
    moreover have "rest = w @ CHR ''('' # v @ after" using w(2) 3(1) by simp
    ultimately show ?thesis by blast
  qed
qed

lemma if_parse_iff: "if_parse s = Inr h \<longleftrightarrow> spells_if s h"
proof
  assume "if_parse s = Inr h"
  then obtain st' where st: "parse_lists \<lparr>is_lists = [], is_resource = None, is_tagged = None\<rparr> s = Inr st'" "is_lists st' \<noteq> []" "h = IfHeader (is_lists st')"
    by (auto simp: if_parse_def result_simps split: if_splits)
  show "spells_if s h" using parse_lists_sound[OF st(1)] st(2,3) by (auto simp: read_rest_def)
qed (rule parse_complete)

section \<open>Properties\<close>



end
