(* ===== verification/Dav_Write.thy ===== *)
theory Dav_Write
  imports Dav_Access If_Header Write_Path Staging
begin

text \<open>
  The WebDAV write methods (\<^verbatim>\<open>notedthat-webdav/src/middleware\<close>: \<^verbatim>\<open>handlers.rs\<close>, \<^verbatim>\<open>handlers/put.rs\<close>, \<^verbatim>\<open>handlers/copy_move.rs\<close>,
  \<^verbatim>\<open>handlers/proppatch.rs\<close>, \<^verbatim>\<open>helpers.rs\<close>, \<^verbatim>\<open>errors.rs\<close>, \<^verbatim>\<open>mod.rs\<close>) behind the access layer of \<^verbatim>\<open>Dav_Access\<close>.  They act on the world of
  \<^verbatim>\<open>Write_Path\<close>, whose trace says which objects a request stored, copied or deleted.

  \<open>dvr_headers\<close> gives the values of a header by its lower-case name.  The XML parser is a parameter.
\<close>

section \<open>Requests\<close>

record 'e dav_request =
  dvr_method :: string
  dvr_path :: string
  dvr_headers :: "string \<Rightarrow> string list"
  dvr_body :: "('e, string) result list"

definition to_str :: "dav_lib \<Rightarrow> string \<Rightarrow> string option" where
  "to_str lib = al_to_str (dl_auth lib)"

definition first_header :: "dav_lib \<Rightarrow> 'e dav_request \<Rightarrow> string \<Rightarrow> string option" where
  "first_header lib req name = (case dvr_headers req name of [] \<Rightarrow> None | v # _ \<Rightarrow> to_str lib v)"

definition single_header :: "dav_lib \<Rightarrow> 'e dav_request \<Rightarrow> string \<Rightarrow> (unit, string option) result" where
  "single_header lib req name =
     (case dvr_headers req name of
        [] \<Rightarrow> Inr None
      | [v] \<Rightarrow> (case to_str lib v of Some s \<Rightarrow> Inr (Some s) | None \<Rightarrow> Inl ())
      | _ # _ # _ \<Rightarrow> Inl ())"

text \<open>\<^verbatim>\<open>str::parse::<u64>\<close>.\<close>

definition parse_u64_str :: "string \<Rightarrow> u64 option" where
  "parse_u64_str s =
     (let digits = (case s of c # r \<Rightarrow> if c = CHR ''+'' then r else s | [] \<Rightarrow> []) in
      if digits \<noteq> [] \<and> list_all is_digit digits \<and> digits_val digits < 2 ^ 64
      then Some (of_nat (digits_val digits)) else None)"

definition content_length :: "dav_lib \<Rightarrow> 'e dav_request \<Rightarrow> (unit, u64 option) result" where
  "content_length lib req =
     (case dvr_headers req ''content-length'' of
        [] \<Rightarrow> Inr None
      | [v] \<Rightarrow> (case Option.bind (to_str lib v) parse_u64_str of Some n \<Rightarrow> Inr (Some n) | None \<Rightarrow> Inl ())
      | _ # _ # _ \<Rightarrow> Inl ())"

definition dav_conditionals :: "dav_lib \<Rightarrow> 'e dav_request \<Rightarrow> conditional_headers" where
  "dav_conditionals lib req = from_header_map (first_header lib req)"

section \<open>Errors as responses\<close>

definition dav_error_body :: "string \<Rightarrow> string" where
  "dav_error_body condition =
     ''<?xml version='' @ dq @ ''1.0'' @ dq @ '' encoding='' @ dq @ ''utf-8'' @ dq @ ''?><D:error xmlns:D='' @ dq @ ''DAV:'' @ dq
       @ '' xmlns:nt='' @ dq @ ''urn:notedthat:error'' @ dq @ ''><nt:'' @ condition @ ''/></D:error>''"

definition dav_error :: "nat \<Rightarrow> string \<Rightarrow> dav_response" where
  "dav_error n condition = \<lparr>dr_status = n, dr_headers = [], dr_body = dav_error_body condition\<rparr>"

record retry =
  queue_full :: string
  publish_failed :: string

definition retry_later :: "string \<Rightarrow> dav_response" where
  "retry_later message =
     \<lparr>dr_status = 503, dr_headers = [(''retry-after'', ''5''), (''content-type'', ''application/json'')],
      dr_body = ''{'' @ dq @ ''error'' @ dq @ '':'' @ dq @ ''backend_unavailable'' @ dq @ '','' @ dq @ ''message'' @ dq @ '':''
        @ dq @ message @ dq @ ''}''\<rparr>"

fun storage_status :: "storage_error \<Rightarrow> nat" where
  "storage_status (SE_NotFound _) = 404"
| "storage_status (SE_BucketNotFound _) = 404"
| "storage_status (SE_BackendUnavailable _) = 503"
| "storage_status SE_PreconditionFailed = 412"
| "storage_status _ = 500"

definition write_error_response :: "write_error \<Rightarrow> retry \<Rightarrow> dav_response" where
  "write_error_response e r =
     (case e of
        WE_TooLarge _ _ \<Rightarrow> status_only 413
      | WE_PatchTooLarge _ _ \<Rightarrow> status_only 413
      | WE_Storage se \<Rightarrow> status_only (storage_status se)
      | WE_IndexerBackpressureUpsert \<Rightarrow> retry_later (queue_full r)
      | WE_IndexerBackpressureTombstone \<Rightarrow> retry_later (queue_full r)
      | WE_EventPublishFailed _ \<Rightarrow> retry_later (publish_failed r)
      | WE_InvalidManifest message \<Rightarrow> \<lparr>dr_status = 400, dr_headers = [], dr_body = message\<rparr>
      | WE_PatchInvalidRange message \<Rightarrow> \<lparr>dr_status = 400, dr_headers = [], dr_body = message\<rparr>
      | WE_PreconditionRequired _ \<Rightarrow> status_only 428
      | WE_PatchLineOutOfRange _ _ _ _ \<Rightarrow> status_only 416
      | WE_ReplaceNoMatch \<Rightarrow> status_only 422
      | WE_ReplaceAmbiguous _ \<Rightarrow> status_only 422)"

datatype target_error = TE_Collection | TE_Forbidden

fun target_error_response :: "target_error \<Rightarrow> dav_response" where
  "target_error_response TE_Collection = dav_error 403 ''no-collection-move''"
| "target_error_response TE_Forbidden = status_only 403"

fun object_target_or_collection_error :: "dav_target \<Rightarrow> (target_error, kb_slug \<times> object_path) result" where
  "object_target_or_collection_error (Dav_Object kb path) = Inr (kb, path)"
| "object_target_or_collection_error Dav_Root = Inl TE_Collection"
| "object_target_or_collection_error (Dav_KbRoot _) = Inl TE_Collection"
| "object_target_or_collection_error Dav_NonDeclaredKb = Inl TE_Forbidden"

definition response_with_optional_etag :: "dav_lib \<Rightarrow> nat \<Rightarrow> string option \<Rightarrow> dav_response" where
  "response_with_optional_etag lib status etag =
     \<lparr>dr_status = status,
      dr_headers = (case Option.bind etag (al_from_str (dl_auth lib)) of None \<Rightarrow> [] | Some v \<Rightarrow> [(''etag'', v)]),
      dr_body = []\<rparr>"

section \<open>DELETE and PUT\<close>

definition em_dash :: string where
  "em_dash = [CHR 0xE2, CHR 0x80, CHR 0x94]"

definition DELETE_RETRY :: retry where
  "DELETE_RETRY = \<lparr>queue_full = ''deleted from storage; retry to clear from search index'',
     publish_failed = ''deleted from storage; change event not published. Retry DELETE to publish.''\<rparr>"

definition PUT_RETRY :: retry where
  "PUT_RETRY = \<lparr>queue_full = ''object stored; indexer queue full '' @ em_dash @ '' retry to re-enqueue'',
     publish_failed = ''object stored; change event not published. Retry PUT to publish.''\<rparr>"

definition handle_delete :: "dav_lib \<Rightarrow> webdav_state \<Rightarrow> ('s, 'p) backend \<Rightarrow> write_sinks \<Rightarrow> 'e dav_request
    \<Rightarrow> ('s, 'p) world \<Rightarrow> dav_response \<times> ('s, 'p) world" where
  "handle_delete lib st be sinks req w =
     (case parse_webdav_uri_path lib (dv_declared_kbs st) (dvr_path req) of
        Inl _ \<Rightarrow> (status_only 400, w)
      | Inr Dav_Root \<Rightarrow> (status_only 400, w)
      | Inr (Dav_KbRoot _) \<Rightarrow> (status_only 400, w)
      | Inr Dav_NonDeclaredKb \<Rightarrow> (status_only 403, w)
      | Inr (Dav_Object kb path) \<Rightarrow>
          (case commit_delete be sinks kb path (dav_conditionals lib req) w of
             (Inr _, w1) \<Rightarrow> (status_only 204, w1)
           | (Inl e, w1) \<Rightarrow> (write_error_response e DELETE_RETRY, w1)))"

definition handle_put :: "dav_lib \<Rightarrow> 'e disk \<Rightarrow> webdav_state \<Rightarrow> ('s, 'p) backend \<Rightarrow> write_sinks \<Rightarrow> 'e dav_request
    \<Rightarrow> ('s, 'p) world \<Rightarrow> dav_response \<times> ('s, 'p) world" where
  "handle_put lib dk st be sinks req w =
     (case parse_webdav_uri_path lib (dv_declared_kbs st) (dvr_path req) of
        Inl _ \<Rightarrow> (status_only 400, w)
      | Inr Dav_Root \<Rightarrow> (status_only 400, w)
      | Inr (Dav_KbRoot _) \<Rightarrow> (status_only 400, w)
      | Inr Dav_NonDeclaredKb \<Rightarrow> (status_only 403, w)
      | Inr (Dav_Object kb path) \<Rightarrow>
          if is_reserved path then (status_only 400, w)
          else case content_length lib req of
            Inl _ \<Rightarrow> (status_only 400, w)
          | Inr expected \<Rightarrow>
              if (case expected of None \<Rightarrow> False | Some n \<Rightarrow> n > MAX_UPLOAD_BYTES) then (status_only 413, w)
              else case stage_stream dk (dvr_body req) expected MAX_UPLOAD_BYTES of
                Inl (Stage_TooLarge _ _) \<Rightarrow> (status_only 413, w)
              | Inl (Stage_LengthMismatch _ _) \<Rightarrow> (status_only 400, w)
              | Inl (Stage_Read _) \<Rightarrow> (status_only 400, w)
              | Inl Stage_Write \<Rightarrow> (status_only 507, w)
              | Inl Stage_Config \<Rightarrow> (status_only 507, w)
              | Inr body \<Rightarrow>
                  (case commit be sinks kb path (staged_bytes body) (first_header lib req ''content-type'')
                          (dav_conditionals lib req) w of
                     (Inr outcome, w1) \<Rightarrow>
                       (response_with_optional_etag lib (if po_created outcome then 201 else 204) (po_etag outcome), w1)
                   | (Inl e, w1) \<Rightarrow> (write_error_response e PUT_RETRY, w1)))"

section \<open>COPY and MOVE\<close>

definition COPY_RETRY :: retry where
  "COPY_RETRY = \<lparr>queue_full = ''destination write succeeded but destination index event failed. Retry COPY to re-enqueue destination index event.'',
     publish_failed = ''destination copied; its change event not published. Retry COPY to publish.''\<rparr>"

definition MOVE_DEST :: retry where
  "MOVE_DEST = \<lparr>queue_full = ''destination write succeeded but destination index event failed; source unchanged. Retry MOVE to re-enqueue destination index event.'',
     publish_failed = ''destination copied; its change event not published; source unchanged. Retry MOVE to publish.''\<rparr>"

definition MOVE_SOURCE :: retry where
  "MOVE_SOURCE = \<lparr>queue_full = ''destination write succeeded and source deleted from storage, but source search-index tombstone failed '' @ em_dash
       @ '' search may return stale entries for the source path until retry or reindex. Send DELETE for the source to re-enqueue its tombstone '' @ em_dash
       @ '' DELETE of a missing key is idempotent and still enqueues, whereas a retried MOVE would find no source.'',
     publish_failed = ''destination copied and source deleted; the source'' @ sq @ ''s change event not published. Send DELETE for the source to publish it '' @ em_dash
       @ '' DELETE of a missing key is idempotent and still publishes, whereas a retried MOVE would find no source.''\<rparr>"

definition same_object :: "dav_lib \<Rightarrow> webdav_state \<Rightarrow> string \<Rightarrow> kb_slug \<Rightarrow> object_path \<Rightarrow> bool" where
  "same_object lib st tag kb obj =
     (case dl_uri lib tag of
        None \<Rightarrow> False
      | Some (_, path) \<Rightarrow>
          (case parse_webdav_uri_path lib (dv_declared_kbs st) path of
             Inl _ \<Rightarrow> False
           | Inr target \<Rightarrow> object_target_or_collection_error target = Inr (kb, obj)))"

text \<open>The part before the first colon.\<close>

definition bare_host :: "string \<Rightarrow> string" where
  "bare_host host = hd (split_on CHR '':'' host)"

record copy_plan =
  cp_kb :: kb_slug
  cp_src :: object_path
  cp_dst :: object_path
  cp_overwrite :: bool
  cp_conditionals :: conditional_headers
  cp_if :: "if_header option"

text \<open>What the handler reads from the request before it looks at storage: the answer, or what to copy.  First the headers.\<close>

definition copy_headers :: "dav_lib \<Rightarrow> 'e dav_request \<Rightarrow> (dav_response, bool \<times> string) result" where
  "copy_headers lib req =
     (case single_header lib req ''destination'' of
        Inl _ \<Rightarrow> Inl (status_only 400)
      | Inr None \<Rightarrow> Inl (status_only 400)
      | Inr (Some dest_header) \<Rightarrow>
          (case (case single_header lib req ''overwrite'' of
                   Inl _ \<Rightarrow> None
                 | Inr None \<Rightarrow> Some True
                 | Inr (Some v) \<Rightarrow> if v = ''T'' then Some True else if v = ''F'' then Some False else None) of
             None \<Rightarrow> Inl (status_only 400)
           | Some overwrite \<Rightarrow>
               if CHR ''#'' \<in> set dest_header then Inl (status_only 400)
               else case dl_uri lib dest_header of
                 None \<Rightarrow> Inl (status_only 400)
               | Some (dest_authority, dest_path) \<Rightarrow>
                   let req_host = (case first_header lib req ''host'' of None \<Rightarrow> [] | Some h \<Rightarrow> h) in
                   if (case dest_authority of
                         None \<Rightarrow> False
                       | Some a \<Rightarrow> \<not> eq_ignore_ascii_case (bare_host req_host) (bare_host a))
                   then Inl (dav_error 502 ''destination-different-server'')
                   else Inr (overwrite, dest_path)))"

text \<open>Then the two targets and the \<^verbatim>\<open>If\<close> header.\<close>

definition copy_targets :: "bool \<Rightarrow> dav_target \<Rightarrow> dav_target \<Rightarrow> (dav_response, kb_slug \<times> object_path \<times> object_path) result" where
  "copy_targets delete_source src_target dst_target =
     (case object_target_or_collection_error src_target of
        Inl e \<Rightarrow> Inl (target_error_response e)
      | Inr (src_kb, src_obj) \<Rightarrow>
          (case object_target_or_collection_error dst_target of
             Inl e \<Rightarrow> Inl (target_error_response e)
           | Inr (dst_kb, dst_obj) \<Rightarrow>
               if is_reserved dst_obj then Inl (status_only 400)
               else if src_kb \<noteq> dst_kb then Inl (dav_error 403 ''cannot-modify-source'')
               else if src_obj = dst_obj then
                 Inl (dav_error 403 (if delete_source then ''cannot-move-resource'' else ''cannot-copy-resource''))
               else Inr (src_kb, src_obj, dst_obj)))"

definition copy_request :: "dav_lib \<Rightarrow> webdav_state \<Rightarrow> 'e dav_request \<Rightarrow> bool \<Rightarrow> (dav_response, copy_plan) result" where
  "copy_request lib st req delete_source =
     res_bind (copy_headers lib req) (\<lambda>(overwrite, dest_path).
     res_bind (map_err (\<lambda>_. status_only 400) (parse_webdav_uri_path lib (dv_declared_kbs st) (dvr_path req))) (\<lambda>src_target.
     res_bind (map_err (\<lambda>_. status_only 400) (parse_webdav_uri_path lib (dv_declared_kbs st) dest_path)) (\<lambda>dst_target.
     res_bind (copy_targets delete_source src_target dst_target) (\<lambda>(kb, src_obj, dst_obj).
     res_bind (map_err (\<lambda>_. status_only 400) (if_from_headers (to_str lib) (dvr_headers req ''if''))) (\<lambda>if_header.
       Inr \<lparr>cp_kb = kb, cp_src = src_obj, cp_dst = dst_obj, cp_overwrite = overwrite,
            cp_conditionals = dav_conditionals lib req, cp_if = if_header\<rparr>)))))"

text \<open>The tag of the destination, looked up only when the \<^verbatim>\<open>If\<close> header names it.\<close>

definition destination_etag :: "dav_lib \<Rightarrow> webdav_state \<Rightarrow> ('s, 'p) backend \<Rightarrow> copy_plan \<Rightarrow> ('s, 'p) world
    \<Rightarrow> string option \<times> ('s, 'p) world" where
  "destination_etag lib st be c w =
     (if (case cp_if c of None \<Rightarrow> False
          | Some h \<Rightarrow> list_ex (\<lambda>tag. same_object lib st tag (cp_kb c) (cp_dst c)) (if_resources h)) then
        (case st_head be (cp_kb c) (cp_dst c) no_conditions w of
           (Inr meta, w') \<Rightarrow> (Some (case om_etag meta of None \<Rightarrow> [] | Some e \<Rightarrow> e), w')
         | (Inl _, w') \<Rightarrow> (None, w'))
      else (None, w))"

definition if_holds :: "dav_lib \<Rightarrow> webdav_state \<Rightarrow> copy_plan \<Rightarrow> string \<Rightarrow> string option \<Rightarrow> bool" where
  "if_holds lib st c source_etag dst_etag =
     (case cp_if c of
        None \<Rightarrow> True
      | Some h \<Rightarrow>
          if_evaluate (\<lambda>resource.
            case resource of
              None \<Rightarrow> Some source_etag
            | Some tag \<Rightarrow>
                if same_object lib st tag (cp_kb c) (cp_src c) then Some source_etag
                else if same_object lib st tag (cp_kb c) (cp_dst c) then dst_etag
                else None) h)"

definition move_source :: "('s, 'p) backend \<Rightarrow> write_sinks \<Rightarrow> copy_plan \<Rightarrow> string \<Rightarrow> ('s, 'p) world
    \<Rightarrow> dav_response option \<times> ('s, 'p) world" where
  "move_source be sinks c source_etag w =
     (case commit_delete be sinks (cp_kb c) (cp_src c) (only_if_match source_etag) w of
        (Inr _, w1) \<Rightarrow> (None, w1)
      | (Inl e, w1) \<Rightarrow>
          if e = WE_Storage SE_PreconditionFailed then
            (Some \<lparr>dr_status = 412, dr_headers = [],
               dr_body = ''MOVE partially completed: destination copied and queued for indexing; source changed before deletion and was not deleted.''\<rparr>, w1)
          else (Some (write_error_response e MOVE_SOURCE), w1))"

definition handle_copy_or_move :: "dav_lib \<Rightarrow> webdav_state \<Rightarrow> ('s, 'p) backend \<Rightarrow> write_sinks \<Rightarrow> bool \<Rightarrow> 'e dav_request
    \<Rightarrow> ('s, 'p) world \<Rightarrow> dav_response \<times> ('s, 'p) world" where
  "handle_copy_or_move lib st be sinks delete_source req w =
     (case copy_request lib st req delete_source of
        Inl r \<Rightarrow> (r, w)
      | Inr c \<Rightarrow>
          (case st_head be (cp_kb c) (cp_src c) no_conditions w of
             (Inl e, w1) \<Rightarrow> (status_only (storage_status e), w1)
           | (Inr src_meta, w1) \<Rightarrow>
               (case om_etag src_meta of
                  None \<Rightarrow> (status_only 500, w1)
                | Some source_etag \<Rightarrow>
                    if \<not> is_ok (evaluate_write_preconditions (Some \<lparr>os_etag = source_etag, os_last_modified = 0\<rparr>) (cp_conditionals c))
                    then (status_only 412, w1)
                    else
                      let (dst_etag, w2) = destination_etag lib st be c w1 in
                      if \<not> if_holds lib st c source_etag dst_etag then (status_only 412, w2)
                      else
                        (case commit_copy be sinks (cp_kb c) (cp_src c) (cp_dst c)
                                \<lparr>source_if_match = Some source_etag,
                                 destination_if_none_match = (if cp_overwrite c then None else Some ''*''),
                                 copy_content_type = Some (sniff_content_type (om_content_type src_meta) (cp_dst c))\<rparr> w2 of
                           (Inl e, w3) \<Rightarrow> (write_error_response e (if delete_source then MOVE_DEST else COPY_RETRY), w3)
                         | (Inr outcome, w3) \<Rightarrow>
                             (case (if delete_source then move_source be sinks c source_etag w3 else (None, w3)) of
                                (Some r, w4) \<Rightarrow> (r, w4)
                              | (None, w4) \<Rightarrow>
                                  (response_with_optional_etag lib (if po_created outcome then 201 else 204) (po_etag outcome), w4))))))"

definition handle_move :: "dav_lib \<Rightarrow> webdav_state \<Rightarrow> ('s, 'p) backend \<Rightarrow> write_sinks \<Rightarrow> 'e dav_request
    \<Rightarrow> ('s, 'p) world \<Rightarrow> dav_response \<times> ('s, 'p) world" where
  "handle_move lib st be sinks req = handle_copy_or_move lib st be sinks True req"

definition handle_copy :: "dav_lib \<Rightarrow> webdav_state \<Rightarrow> ('s, 'p) backend \<Rightarrow> write_sinks \<Rightarrow> 'e dav_request
    \<Rightarrow> ('s, 'p) world \<Rightarrow> dav_response \<times> ('s, 'p) world" where
  "handle_copy lib st be sinks req = handle_copy_or_move lib st be sinks False req"

section \<open>PROPPATCH\<close>

datatype xml_element = XElement (xe_namespace: "string option") (xe_name: string) (xe_children: "xml_node list")
and xml_node = XNode_Element xml_element | XNode_Other

definition MAX_PROPPATCH_BODY :: nat where
  "MAX_PROPPATCH_BODY = 64 * 1024"

definition DAV_NS :: string where
  "DAV_NS = ''DAV:''"

definition MS_NS :: string where
  "MS_NS = ''urn:schemas-microsoft-com:''"

record dav_property =
  dp_namespace :: "string option"
  dp_name :: string

definition is_windows_timestamp :: "dav_property \<Rightarrow> bool" where
  "is_windows_timestamp p \<longleftrightarrow> dp_namespace p = Some MS_NS \<and> prefix ''Win32'' (dp_name p)"

definition xml_elements :: "xml_element \<Rightarrow> xml_element list" where
  "xml_elements parent =
     List.map_filter (\<lambda>n. case n of XNode_Element e \<Rightarrow> Some e | XNode_Other \<Rightarrow> None) (xe_children parent)"

definition is_dav :: "xml_element \<Rightarrow> string \<Rightarrow> bool" where
  "is_dav e name \<longleftrightarrow> xe_namespace e = Some DAV_NS \<and> xe_name e = name"

definition parse_propertyupdate :: "(string \<Rightarrow> xml_element option) \<Rightarrow> string \<Rightarrow> dav_property list option" where
  "parse_propertyupdate xml body =
     (case xml body of
        None \<Rightarrow> None
      | Some root \<Rightarrow>
          if \<not> is_dav root ''propertyupdate'' then None
          else if \<exists>i\<in>set (xml_elements root). \<not> is_dav i ''set'' \<and> \<not> is_dav i ''remove'' then None
          else if \<exists>i\<in>set (xml_elements root). \<exists>p\<in>set (xml_elements i). \<not> is_dav p ''prop'' then None
          else
            let properties = concat (map (\<lambda>i. concat (map (\<lambda>p.
                  map (\<lambda>e. \<lparr>dp_namespace = xe_namespace e, dp_name = xe_name e\<rparr>) (xml_elements p)) (xml_elements i)))
                  (xml_elements root)) in
            if properties = [] then None else Some properties)"

definition replace_char :: "char \<Rightarrow> string \<Rightarrow> string \<Rightarrow> string" where
  "replace_char c by' text = concat (map (\<lambda>x. if x = c then by' else [x]) text)"

definition xml_escape :: "string \<Rightarrow> string" where
  "xml_escape text =
     replace_char CHR 0x22 ''&quot;'' (replace_char CHR ''>'' ''&gt;'' (replace_char CHR ''<'' ''&lt;''
       (replace_char CHR ''&'' ''&amp;'' text)))"

definition show_property :: "nat \<Rightarrow> dav_property \<Rightarrow> string" where
  "show_property index p =
     (case dp_namespace p of
        Some ns \<Rightarrow> ''<p'' @ show_nat index @ '':'' @ dp_name p @ '' xmlns:p'' @ show_nat index @ ''='' @ dq @ xml_escape ns @ dq @ ''/>''
      | None \<Rightarrow> ''<'' @ dp_name p @ '' xmlns='' @ dq @ dq @ ''/>'')"

definition push_propstat :: "dav_property list \<Rightarrow> string \<Rightarrow> string option \<Rightarrow> string" where
  "push_propstat properties status err =
     ''<D:propstat><D:prop>'' @ concat (map (\<lambda>(i, p). show_property i p) (enumerate 0 properties))
     @ ''</D:prop><D:status>'' @ status @ ''</D:status>'' @ (case err of None \<Rightarrow> [] | Some e \<Rightarrow> e) @ ''</D:propstat>''"

definition multistatus :: "string \<Rightarrow> dav_property list \<Rightarrow> string" where
  "multistatus href properties =
     (let all_windows = list_all is_windows_timestamp properties;
          (windows, refused) = partition is_windows_timestamp properties in
      ''<?xml version='' @ dq @ ''1.0'' @ dq @ '' encoding='' @ dq @ ''utf-8'' @ dq @ ''?>'' @ [CHR 0x0A]
      @ ''<D:multistatus xmlns:D='' @ dq @ ''DAV:'' @ dq @ ''><D:response>''
      @ ''<D:href>'' @ xml_escape href @ ''</D:href>''
      @ (if windows \<noteq> [] then
           push_propstat windows (if all_windows then ''HTTP/1.1 200 OK'' else ''HTTP/1.1 424 Failed Dependency'') None
         else [])
      @ (if refused \<noteq> [] then
           push_propstat refused ''HTTP/1.1 403 Forbidden'' (Some ''<D:error><D:cannot-modify-protected-property/></D:error>'')
         else [])
      @ ''</D:response></D:multistatus>'')"

text \<open>\<^verbatim>\<open>to_bytes\<close> collects a body up to a limit.\<close>

definition to_bytes :: "('e, string) result list \<Rightarrow> nat \<Rightarrow> string option" where
  "to_bytes chunks limit =
     (case collect_results id chunks of
        Inl _ \<Rightarrow> None
      | Inr parts \<Rightarrow> if length (concat parts) \<le> limit then Some (concat parts) else None)"

definition st_list :: "('s, 'p) backend \<Rightarrow> kb_slug \<Rightarrow> string option \<Rightarrow> nat \<Rightarrow> string option \<Rightarrow> ('s, 'p, storage_error, list_response) action" where
  "st_list be kb pre limit cursor w =
     (let w' = interfere be w in (op_list (be_ops be) (wd_store w') kb pre limit cursor, w'))"

text \<open>The tag the preconditions compare, or the answer when the target does not exist.\<close>

definition proppatch_etag :: "('s, 'p) backend \<Rightarrow> dav_target \<Rightarrow> ('s, 'p, dav_response, string option) action" where
  "proppatch_etag be target w =
     (case target of
        Dav_Root \<Rightarrow> (Inr None, w)
      | Dav_KbRoot _ \<Rightarrow> (Inr None, w)
      | Dav_NonDeclaredKb \<Rightarrow> (Inl (status_only 403), w)
      | Dav_Object kb path \<Rightarrow>
          (case st_head be kb path no_conditions w of
             (Inr meta, w1) \<Rightarrow> (Inr (om_etag meta), w1)
           | (Inl e, w1) \<Rightarrow>
               if is_not_found e then
                 (case st_list be kb (Some (path_str path @ ''/'')) 1 None w1 of
                    (Inr listing, w2) \<Rightarrow> (if lr_objects listing \<noteq> [] then Inr None else Inl (status_only 404), w2)
                  | (Inl _, w2) \<Rightarrow> (Inl (status_only 500), w2))
               else (Inl (status_only (storage_status e)), w1)))"

definition handle_proppatch :: "dav_lib \<Rightarrow> (string \<Rightarrow> xml_element option) \<Rightarrow> webdav_state \<Rightarrow> ('s, 'p) backend \<Rightarrow> 'e dav_request
    \<Rightarrow> ('s, 'p) world \<Rightarrow> dav_response \<times> ('s, 'p) world" where
  "handle_proppatch lib xml st be req w =
     (let uri_path = dvr_path req in
      case parse_webdav_uri_path lib (dv_declared_kbs st) (target_path uri_path) of
        Inl _ \<Rightarrow> (status_only 400, w)
      | Inr target \<Rightarrow>
          (case if_from_headers (to_str lib) (dvr_headers req ''if'') of
             Inl _ \<Rightarrow> (status_only 400, w)
           | Inr if_header \<Rightarrow>
               (case proppatch_etag be target w of
                  (Inl r, w1) \<Rightarrow> (r, w1)
                | (Inr etag, w1) \<Rightarrow>
                    if \<not> is_ok (evaluate_write_preconditions (map_option (\<lambda>e. \<lparr>os_etag = e, os_last_modified = 0\<rparr>) etag)
                                 (dav_conditionals lib req))
                       \<or> (case if_header of
                            None \<Rightarrow> False
                          | Some h \<Rightarrow> \<not> if_evaluate (\<lambda>resource.
                              case resource of
                                None \<Rightarrow> etag
                              | Some tag \<Rightarrow> (case dl_uri lib tag of None \<Rightarrow> None
                                             | Some (_, path) \<Rightarrow> if path = uri_path then etag else None)) h)
                    then (status_only 412, w1)
                    else case to_bytes (dvr_body req) MAX_PROPPATCH_BODY of
                      None \<Rightarrow> (status_only 413, w1)
                    | Some body \<Rightarrow>
                        (case parse_propertyupdate xml body of
                           None \<Rightarrow> (status_only 400, w1)
                         | Some properties \<Rightarrow>
                             (\<lparr>dr_status = 207, dr_headers = [(''content-type'', ''application/xml; charset=utf-8'')],
                               dr_body = multistatus uri_path properties\<rparr>, w1)))))"

section \<open>The stack\<close>

text \<open>\<open>next\<close> is what lies behind: the remaining layers and dav-server.\<close>

definition intercept_write_methods :: "dav_lib \<Rightarrow> 'e disk \<Rightarrow> (string \<Rightarrow> xml_element option) \<Rightarrow> webdav_state \<Rightarrow> ('s, 'p) backend
    \<Rightarrow> write_sinks \<Rightarrow> 'e dav_request \<Rightarrow> (('s, 'p) world \<Rightarrow> dav_response \<times> ('s, 'p) world) \<Rightarrow> ('s, 'p) world
    \<Rightarrow> dav_response \<times> ('s, 'p) world" where
  "intercept_write_methods lib dk xml st be sinks req next w =
     (if dvr_method req = ''PUT'' then handle_put lib dk st be sinks req w
      else if dvr_method req = ''DELETE'' then handle_delete lib st be sinks req w
      else if dvr_method req = ''MOVE'' then handle_move lib st be sinks req w
      else if dvr_method req = ''COPY'' then handle_copy lib st be sinks req w
      else if dvr_method req = ''PROPPATCH'' then handle_proppatch lib xml st be req w
      else next w)"

text \<open>A request whose method is none of \<^verbatim>\<open>GET\<close>, \<^verbatim>\<open>HEAD\<close>, \<^verbatim>\<open>PROPFIND\<close> passes the read layers unchanged.\<close>

definition webdav_serve :: "dav_lib \<Rightarrow> 'e disk \<Rightarrow> (string \<Rightarrow> xml_element option) \<Rightarrow> webdav_state \<Rightarrow> ('s, 'p) backend
    \<Rightarrow> write_sinks \<Rightarrow> 'e dav_request \<Rightarrow> (principal \<Rightarrow> dav_allow \<Rightarrow> ('s, 'p) world \<Rightarrow> dav_response \<times> ('s, 'p) world)
    \<Rightarrow> ('s, 'p) world \<Rightarrow> dav_response \<times> ('s, 'p) world" where
  "webdav_serve lib dk xml st be sinks req next w =
     (case basic_auth_middleware lib st (dvr_method req) (dvr_path req) (dvr_headers req ''authorization'') of
        Inl r \<Rightarrow> (r, w)
      | Inr (p, allow) \<Rightarrow> intercept_write_methods lib dk xml st be sinks req (next p allow) w)"

section \<open>What a request did\<close>

text \<open>The grants each storage action of a request needs; a copy stores at its destination.\<close>

fun act_granted :: "webdav_state \<Rightarrow> principal \<Rightarrow> 's write_action \<Rightarrow> bool" where
  "act_granted st p (Act_Put _ kb path _) = policy_allows (policy_for st kb) p Write (path_str path)"
| "act_granted st p (Act_Delete _ kb path) = policy_allows (policy_for st kb) p Delete (path_str path)"
| "act_granted st p (Act_Copy _ kb src dst) =
     (policy_allows (policy_for st kb) p Write (path_str src) \<and> policy_allows (policy_for st kb) p Write (path_str dst))"
| "act_granted st p (Act_Publish _ _) = True"
| "act_granted st p (Act_Offer _ _) = True"

text \<open>A copy of which only the source is covered: what the handlers let through.\<close>

definition source_granted :: "webdav_state \<Rightarrow> principal \<Rightarrow> 's write_action \<Rightarrow> bool" where
  "source_granted st p a \<longleftrightarrow> (\<exists>s kb src dst. a = Act_Copy s kb src dst \<and> policy_allows (policy_for st kb) p Write (path_str src))"

text \<open>The object a storage action names: of a copy, its source.\<close>

fun act_object :: "'s write_action \<Rightarrow> (kb_slug \<times> object_path) option" where
  "act_object (Act_Put _ kb path _) = Some (kb, path)"
| "act_object (Act_Delete _ kb path) = Some (kb, path)"
| "act_object (Act_Copy _ kb src _) = Some (kb, src)"
| "act_object _ = None"

definition act_by_rules :: "dav_lib \<Rightarrow> webdav_state \<Rightarrow> 'e dav_request \<Rightarrow> principal \<Rightarrow> 's write_action \<Rightarrow> bool" where
  "act_by_rules lib st req p a \<longleftrightarrow>
     (act_granted st p a \<or> dvr_method req \<in> {''COPY'', ''MOVE''} \<and> source_granted st p a)
     \<and> (\<forall>kb path. act_object a = Some (kb, path) \<longrightarrow>
          parse_webdav_uri_path lib (dv_declared_kbs st) (dvr_path req) = Inr (Dav_Object kb path))"

definition only_at :: "('s write_action \<Rightarrow> bool) \<Rightarrow> ('s, 'p) world \<Rightarrow> ('s, 'p) world \<Rightarrow> bool" where
  "only_at G w w' \<longleftrightarrow> (\<exists>acts. wd_trace w' = wd_trace w @ acts \<and> (\<forall>a\<in>set acts. G a))"

lemma only_at_refl: "wd_trace w' = wd_trace w \<Longrightarrow> only_at G w w'"
  by (auto simp: only_at_def)

lemma only_at_trans: "only_at G w w1 \<Longrightarrow> only_at G w1 w2 \<Longrightarrow> only_at G w w2"
  by (fastforce simp: only_at_def)

definition ignores_announcements :: "('s write_action \<Rightarrow> bool) \<Rightarrow> bool" where
  "ignores_announcements G \<longleftrightarrow> (\<forall>ev ok. G (Act_Publish ev ok)) \<and> (\<forall>ev off. G (Act_Offer ev off))"

lemma by_rules_announcements: "ignores_announcements (act_by_rules lib st req p)"
  by (simp add: ignores_announcements_def act_by_rules_def)

lemma announced_only:
  "ignores_announcements G \<Longrightarrow> announcements sinks about event acts pub off \<Longrightarrow> a \<in> set acts \<Longrightarrow> G a"
  by (auto simp: announcements_def ignores_announcements_def split: if_splits)

lemma shape_only:
  assumes "ignores_announcements G" "write_shape about event sinks full effect storage ok res acts" "\<And>a. storage a \<Longrightarrow> G a" "a \<in> set acts"
  shows "G a"
  using assms announced_only by (fastforce simp: write_shape_def)

lemma commit_only_at:
  assumes "commit be sinks kb path b ct c w = (r, w')" "ignores_announcements G" "\<And>s. G (Act_Put s kb path b)"
  shows "only_at G w w'"
  using commit_shape[OF assms(1)] shape_only[OF assms(2)] assms(3) unfolding only_at_def by fastforce

lemma commit_copy_only_at:
  assumes "commit_copy be sinks kb src dst opts w = (r, w')" "ignores_announcements G" "\<And>s. G (Act_Copy s kb src dst)"
  shows "only_at G w w'"
  using commit_copy_shape[OF assms(1)] shape_only[OF assms(2)] assms(3) unfolding only_at_def by fastforce

lemma commit_delete_only_at:
  assumes "commit_delete be sinks kb path c w = (r, w')" "ignores_announcements G" "\<And>s. G (Act_Delete s kb path)"
  shows "only_at G w w'"
  using commit_delete_trace[OF assms(1)] announced_only[OF assms(2)] assms(3) unfolding only_at_def by fastforce

lemma st_head_only_at: "st_head be kb path c w = (r, w') \<Longrightarrow> only_at G w w'"
  by (intro only_at_refl) (rule st_read_trace)

lemma destination_etag_only_at: "destination_etag lib st be c w = (r, w') \<Longrightarrow> only_at G w w'"
  unfolding destination_etag_def
  by (auto intro: st_head_only_at only_at_refl split: if_splits prod.splits sum.splits)

lemma handle_delete_only_at:
  assumes "handle_delete lib st be sinks req w = (r, w')" "ignores_announcements G"
    and "\<And>kb path s. parse_webdav_uri_path lib (dv_declared_kbs st) (dvr_path req) = Inr (Dav_Object kb path) \<Longrightarrow> G (Act_Delete s kb path)"
  shows "only_at G w w'"
  using assms(1) unfolding handle_delete_def
  by (auto intro: only_at_refl commit_delete_only_at[OF _ assms(2)] assms(3) split: sum.splits dav_target.splits prod.splits)

lemma handle_put_only_at:
  assumes "handle_put lib dk st be sinks req w = (r, w')" "ignores_announcements G"
    and "\<And>kb path s b. parse_webdav_uri_path lib (dv_declared_kbs st) (dvr_path req) = Inr (Dav_Object kb path) \<Longrightarrow> G (Act_Put s kb path b)"
  shows "only_at G w w'"
  using assms(1) unfolding handle_put_def
  by (auto intro: only_at_refl commit_only_at[OF _ assms(2)] assms(3) split: sum.splits dav_target.splits prod.splits if_splits option.splits stage_error.splits)

lemma copy_targets_Inr:
  assumes "copy_targets del src dst = Inr (kb, a, b)"
  shows "src = Dav_Object kb a \<and> dst = Dav_Object kb b \<and> a \<noteq> b \<and> \<not> is_reserved b"
  using assms unfolding copy_targets_def
  by (cases src; cases dst) (simp_all split: if_splits)

lemma copy_request_source:
  assumes "copy_request lib st req del = Inr c"
  shows "parse_webdav_uri_path lib (dv_declared_kbs st) (dvr_path req) = Inr (Dav_Object (cp_kb c) (cp_src c))"
  using assms by (auto simp: copy_request_def res_bind_Inr_iff map_err_Inr_iff dest!: copy_targets_Inr)

lemma move_source_only_at:
  assumes "move_source be sinks c e w = (r, w')" "ignores_announcements G" "\<And>s. G (Act_Delete s (cp_kb c) (cp_src c))"
  shows "only_at G w w'"
  using assms(1) commit_delete_only_at[OF _ assms(2,3)] unfolding move_source_def
  by (auto split: sum.splits prod.splits if_splits)

lemma handle_copy_or_move_only_at:
  assumes run: "handle_copy_or_move lib st be sinks del req w = (r, w')" and ann: "ignores_announcements G"
    and wr: "\<And>kb path s dst. parse_webdav_uri_path lib (dv_declared_kbs st) (dvr_path req) = Inr (Dav_Object kb path)
           \<Longrightarrow> G (Act_Copy s kb path dst) \<and> (del \<longrightarrow> G (Act_Delete s kb path))"
  shows "only_at G w w'"
proof (cases "copy_request lib st req del")
  case (Inl e)
  with run show ?thesis by (auto simp: handle_copy_or_move_def intro: only_at_refl)
next
  case (Inr c)
  note g = wr[OF copy_request_source[OF Inr]]
  obtain h w1 where h: "st_head be (cp_kb c) (cp_src c) no_conditions w = (h, w1)" by fastforce
  obtain d w2 where d: "destination_etag lib st be c w1 = (d, w2)" by fastforce
  have o1: "only_at G w w1" "only_at G w w2"
    using st_head_only_at[OF h] destination_etag_only_at[OF d] only_at_trans by blast+
  have o3: "only_at G w w3" if "commit_copy be sinks (cp_kb c) (cp_src c) (cp_dst c) opts w2 = (x, w3)" for opts x w3
    using only_at_trans[OF o1(2) commit_copy_only_at[OF that ann]] g by blast
  have o4: "only_at G w w4"
    if "commit_copy be sinks (cp_kb c) (cp_src c) (cp_dst c) opts w2 = (x, w3)"
      "(if del then move_source be sinks c e w3 else (None, w3)) = (y, w4)" for opts x w3 e y w4
  proof (cases del)
    case True
    then show ?thesis using only_at_trans[OF o3[OF that(1)] move_source_only_at[of be sinks c e w3 y w4, OF _ ann]] g that(2) by simp
  next
    case False
    then show ?thesis using o3[OF that(1)] that(2) by simp
  qed
  show ?thesis
    using run o1 unfolding handle_copy_or_move_def Inr sum.case h prod.case
    by (cases h) (auto simp: d intro: o3 o4 split: option.splits if_splits prod.splits sum.splits)
qed

lemma handle_proppatch_only_at:
  assumes "handle_proppatch lib xml st be req w = (r, w')"
  shows "only_at G w w'"
proof -
  have e: "wd_trace w1 = wd_trace w" if "proppatch_etag be target w = (x, w1)" for target x w1
    using that unfolding proppatch_etag_def st_list_def
    by (auto simp: Let_def dest: st_read_trace split: dav_target.splits prod.splits sum.splits if_splits)
  have "wd_trace w' = wd_trace w"
    using assms e unfolding handle_proppatch_def Let_def
    by (auto split: sum.splits option.splits if_splits prod.splits)
  then show ?thesis by (rule only_at_refl)
qed

lemma write_methods_verbs:
  "set (verbs_for_method ''PUT'') = {Write}" "set (verbs_for_method ''DELETE'') = {Delete}"
  "set (verbs_for_method ''MOVE'') = {Write, Delete}" "set (verbs_for_method ''COPY'') = {Write}"
  by (auto simp: verbs_for_method_def)

section \<open>Moving under interference\<close>

definition deletes_nothing :: "('s, 'p) world \<Rightarrow> ('s, 'p) world \<Rightarrow> bool" where
  "deletes_nothing w w' \<longleftrightarrow> only_at (\<lambda>a. \<forall>s k p. a \<noteq> Act_Delete s k p) w w'"

lemma commit_copy_deletes_nothing:
  assumes "commit_copy be sinks kb src dst opts w = (r, w')"
  shows "deletes_nothing w w'"
  using commit_copy_shape[OF assms] unfolding deletes_nothing_def only_at_def write_shape_def announcements_def
  by (auto split: if_splits)

text \<open>A move either stopped before it could delete, or deletes under the tag the copy was made under.\<close>

lemma handle_move_cases:
  assumes run: "handle_copy_or_move lib st be sinks True req w = (r, w')"
  obtains (stopped) "deletes_nothing w w'"
  | (moved) c meta w1 etag d w2 opts out w3 x where
      "st_head be (cp_kb c) (cp_src c) no_conditions w = (Inr meta, w1)" "om_etag meta = Some etag"
      "destination_etag lib st be c w1 = (d, w2)"
      "commit_copy be sinks (cp_kb c) (cp_src c) (cp_dst c) opts w2 = (Inr out, w3)" "source_if_match opts = Some etag"
      "move_source be sinks c etag w3 = (x, w')"
proof (cases "copy_request lib st req True")
  case (Inl e)
  with run have "w' = w" by (simp add: handle_copy_or_move_def)
  then show thesis using stopped by (simp add: deletes_nothing_def only_at_refl)
next
  case (Inr c)
  obtain h w1 where h: "st_head be (cp_kb c) (cp_src c) no_conditions w = (h, w1)" by fastforce
  obtain d w2 where d: "destination_etag lib st be c w1 = (d, w2)" by fastforce
  have n: "deletes_nothing w w1" "deletes_nothing w w2"
    unfolding deletes_nothing_def using st_head_only_at[OF h] destination_etag_only_at[OF d] only_at_trans by blast+
  show thesis
  proof (cases h)
    case (Inl e)
    with run Inr h have "w' = w1" by (simp add: handle_copy_or_move_def)
    then show thesis using stopped n by simp
  next
    case (Inr meta)
    show thesis
    proof (cases "om_etag meta")
      case None
      with run \<open>copy_request _ _ _ _ = _\<close> h Inr have "w' = w1" by (simp add: handle_copy_or_move_def)
      then show thesis using stopped n by simp
    next
      case (Some etag)
      define opts where "opts = \<lparr>source_if_match = Some etag,
        destination_if_none_match = (if cp_overwrite c then None else Some ''*''),
        copy_content_type = Some (sniff_content_type (om_content_type meta) (cp_dst c))\<rparr>"
      obtain y w3 where cc: "commit_copy be sinks (cp_kb c) (cp_src c) (cp_dst c) opts w2 = (y, w3)" by fastforce
      have n3: "deletes_nothing w w3"
        using n(2) commit_copy_deletes_nothing[OF cc] only_at_trans unfolding deletes_nothing_def by blast
      obtain x w4 where ms: "move_source be sinks c etag w3 = (x, w4)" by fastforce
      note go = run[unfolded handle_copy_or_move_def \<open>copy_request _ _ _ _ = _\<close> sum.case h prod.case Inr Some option.case Let_def d,
          folded opts_def, unfolded cc if_True ms prod.case]
      show thesis
      proof (cases y)
        case (Inl e)
        with go have "w' = w1 \<or> w' = w2 \<or> w' = w3" by (auto split: if_splits)
        then show thesis using stopped n n3 by blast
      next
        case (Inr out)
        with go have "w' = w1 \<or> w' = w2 \<or> w' = w4" by (auto split: if_splits option.splits)
        moreover have "thesis" if "w' = w4"
          using that moved[OF h[unfolded \<open>h = _\<close>] Some d cc[unfolded Inr] _ ms[folded that]] by (simp add: opts_def)
        ultimately show thesis using stopped n by blast
      qed
    qed
  qed
qed

lemma commit_delete_extends:
  assumes "commit_delete be sinks kb path c w = (r, w')" "st_delete be kb path c w = (d, w1)"
  shows "\<exists>acts. wd_trace w' = wd_trace w1 @ acts \<and> (\<forall>a\<in>set acts. \<forall>s k p. a \<noteq> Act_Delete s k p)"
proof -
  have pub: "\<exists>ev ok. wd_trace y = wd_trace x @ [Act_Publish ev ok]" if "publish_change be e af x = (q, y)" for e af x q y
    using publish_trace[OF that] by blast
  show ?thesis
    using assms unfolding commit_delete_def
    by (auto dest!: offer_trace pub split: prod.splits if_splits offered.splits option.splits)
qed

locale conditional_store = object_store ops inv contents etag_of
  for ops :: "'s storage_ops" and inv contents etag_of +
  assumes delete_seen: "\<lbrakk>op_delete ops s kb path c = (Inr d, s'); if_match c = Some t\<rbrakk> \<Longrightarrow>
      \<exists>obj. contents s (obj_key kb path) = Some obj \<and> matches_if_match (so_etag obj) t"
    and copy_seen: "\<lbrakk>op_copy ops s kb src dst opts = (Inr out, s'); source_if_match opts = Some t\<rbrakk> \<Longrightarrow>
      \<exists>obj. contents s (obj_key kb src) = Some obj \<and> matches_if_match (so_etag obj) t"
begin

lemma announce_keeps:
  assumes "env_keeps inv be" "inv (wd_store w)"
  shows "after_write be sinks kb path out sz mime w = (r, w') \<Longrightarrow> inv (wd_store w')"
    and "check_copied_manifest be kb src dst w = (r2, w2) \<Longrightarrow> inv (wd_store w2)"
    and "copy_stamp be sinks kb dst opts w = (r3, w3) \<Longrightarrow> inv (wd_store w3)"
    and "st_head be kb path c w = (r4, w4) \<Longrightarrow> inv (wd_store w4)"
  by (rule only_othersD[OF announce_others(1) assms], assumption)
    (rule only_othersD[OF announce_others(2) assms] only_othersD[OF announce_others(3) assms]
       only_othersD[OF announce_others(4) assms], assumption)+

lemma commit_copy_seen:
  assumes be: "be_ops be = ops" "env_keeps inv be" "inv (wd_store w)"
    and run: "commit_copy be sinks kb src dst opts w = (Inr out, w')" and t: "source_if_match opts = Some t"
  shows "\<exists>s obj acts. wd_trace w' = wd_trace w @ Act_Copy s kb src dst # acts \<and> contents s (obj_key kb src) = Some obj
    \<and> inv s \<and> matches_if_match (so_etag obj) t \<and> inv (wd_store w') \<and> (\<forall>s k p. Act_Delete s k p \<notin> set acts)"
proof -
  obtain r1 w1 where c: "check_copied_manifest be kb src dst w = (r1, w1)" by fastforce
  with run obtain u where u: "r1 = Inr u" by (cases r1) (auto simp: commit_copy_def)
  obtain r2 w2 where cp: "st_copy be kb src dst opts w1 = (r2, w2)" by fastforce
  with run c u obtain out' where o: "r2 = Inr out'" by (cases r2) (auto simp: commit_copy_def)
  obtain sz mime w3 where st: "copy_stamp be sinks kb dst opts w2 = ((sz, mime), w3)" by (metis surj_pair)
  obtain r4 w4 where aw: "after_write be sinks kb dst out' sz (case mime of None \<Rightarrow> [] | Some m \<Rightarrow> m) w3 = (r4, w4)" by fastforce
  have w': "w' = w4" using run c u cp o st aw by (cases r4) (auto simp: commit_copy_def)
  have i1: "inv (wd_store w1)" using announce_keeps(2)[OF be(2,3) c] .
  let ?s = "wd_store (interfere be w1)"
  have inv_s: "inv ?s" using env_keepsD[OF be(2) i1] .
  have op: "op_copy ops ?s kb src dst opts = (Inr out', wd_store w2)"
    using cp o be(1) by (auto simp: st_copy_def Let_def split: prod.splits if_splits)
  have i2: "inv (wd_store w2)" using copy_ok[OF inv_s op] by blast
  have i4: "inv (wd_store w4)" using announce_keeps(1)[OF be(2) announce_keeps(3)[OF be(2) i2 st] aw] .
  have tr3: "wd_trace w3 = wd_trace w2"
    using st unfolding copy_stamp_def by (auto dest: st_read_trace split: if_splits prod.splits sum.splits)
  obtain acts p off where a: "wd_trace w4 = wd_trace w3 @ acts"
      "announcements sinks (about_write kb dst out' sinks) (Upsert kb dst) acts p off"
    using after_write_trace[OF aw] by blast
  have nd: "Act_Delete s k q \<notin> set acts" for s k q using a(2) by (auto simp: announcements_def split: if_splits)
  have "wd_trace w' = wd_trace w @ Act_Copy ?s kb src dst # acts"
    using a(1) tr3 st_copy_trace[OF cp] o conjunct1[OF check_copied_trace[OF c]] w' by simp
  then show ?thesis using copy_seen[OF op t] inv_s i4 w' nd by blast
qed

lemma commit_delete_seen:
  assumes be: "be_ops be = ops" "env_keeps inv be" "inv (wd_store w)"
    and run: "commit_delete be sinks kb path c w = (r, w')" and t: "if_match c = Some t"
  shows "\<exists>acts. wd_trace w' = wd_trace w @ acts \<and> (\<forall>s k p. Act_Delete s k p \<in> set acts \<longrightarrow> k = kb \<and> p = path \<and> inv s
    \<and> (\<exists>obj. contents s (obj_key kb path) = Some obj \<and> matches_if_match (so_etag obj) t))"
proof -
  obtain d w1 where del: "st_delete be kb path c w = (d, w1)" by fastforce
  let ?s = "wd_store (interfere be w)"
  have inv_s: "inv ?s" using env_keepsD[OF be(2,3)] .
  have op: "op_delete ops ?s kb path c = (d, wd_store w1)"
    using del be(1) by (auto simp: st_delete_def Let_def split: prod.splits if_splits)
  obtain acts where a: "wd_trace w' = wd_trace w1 @ acts" "\<And>s k p. Act_Delete s k p \<notin> set acts"
    using commit_delete_extends[OF run del] by blast
  have tr: "wd_trace w' = wd_trace w @ (if is_ok d then [Act_Delete ?s kb path] else []) @ acts"
    using a(1) st_delete_trace[OF del] by simp
  have "\<exists>obj. contents ?s (obj_key kb path) = Some obj \<and> matches_if_match (so_etag obj) t" if "is_ok d"
    using that op delete_seen[OF _ t] by (auto simp: is_ok_iff)
  with tr a(2) inv_s show ?thesis by (intro exI[of _ "(if is_ok d then [Act_Delete ?s kb path] else []) @ acts"]) auto
qed

lemma move_deletes_copied:
  assumes be: "be_ops be = ops" "env_keeps inv be" "inv (wd_store w)"
    and tags: "inj etag_of" "\<And>b. plain_tag (etag_of b)"
    and run: "handle_copy_or_move lib st be sinks True req w = (r, w')"
    and acts: "wd_trace w' = wd_trace w @ acts" and del: "Act_Delete s' kb src \<in> set acts"
  shows "\<exists>s dst more obj obj'. acts = Act_Copy s kb src dst # more \<and> Act_Delete s' kb src \<in> set more
    \<and> contents s (obj_key kb src) = Some obj \<and> contents s' (obj_key kb src) = Some obj' \<and> so_bytes obj' = so_bytes obj"
  using run
proof (cases rule: handle_move_cases)
  case stopped
  then show ?thesis using acts del by (auto simp: deletes_nothing_def only_at_def)
next
  case (moved c meta w1 etag d w2 opts out w3 x)
  have i1: "inv (wd_store w1)" using announce_keeps(4)[OF be(2,3) moved(1)] .
  have i2: "inv (wd_store w2)" "wd_trace w2 = wd_trace w"
  proof -
    show "inv (wd_store w2)"
      using moved(3) i1 announce_keeps(4)[OF be(2) i1] unfolding destination_etag_def
      by (auto split: if_splits prod.splits sum.splits)
    show "wd_trace w2 = wd_trace w"
      using moved(3) st_read_trace(1)[OF moved(1)] unfolding destination_etag_def
      by (auto dest: st_read_trace split: if_splits prod.splits sum.splits)
  qed
  have hs: "wd_store w1 = wd_store (interfere be w)" "op_head ops (wd_store w1) (cp_kb c) (cp_src c) no_conditions = Inr meta"
    using moved(1) be(1) by (auto simp: st_head_def Let_def)
  obtain obj0 where "contents (wd_store w1) (obj_key (cp_kb c) (cp_src c)) = Some obj0" "etag = so_etag obj0"
    using head_ok[OF hs(2)] moved(2) by auto
  then have plain: "plain_tag etag" using etag_inv[OF i1] tags(2) by simp
  obtain s obj a1 where cp: "wd_trace w3 = wd_trace w2 @ Act_Copy s (cp_kb c) (cp_src c) (cp_dst c) # a1"
      "contents s (obj_key (cp_kb c) (cp_src c)) = Some obj" "inv s" "matches_if_match (so_etag obj) etag" "inv (wd_store w3)"
      "\<forall>s k p. Act_Delete s k p \<notin> set a1"
    using commit_copy_seen[OF be(1,2) i2(1) moved(4,5)] by blast
  obtain q where cd: "commit_delete be sinks (cp_kb c) (cp_src c) (only_if_match etag) w3 = (q, w')"
    using moved(6) unfolding move_source_def by (auto split: prod.splits sum.splits if_splits)
  obtain a2 where a2: "wd_trace w' = wd_trace w3 @ a2"
      "\<And>s k p. Act_Delete s k p \<in> set a2 \<Longrightarrow> k = cp_kb c \<and> p = cp_src c \<and> inv s
         \<and> (\<exists>obj. contents s (obj_key (cp_kb c) (cp_src c)) = Some obj \<and> matches_if_match (so_etag obj) etag)"
    using commit_delete_seen[OF be(1,2) cp(5) cd, of etag] by (auto simp: only_if_match_def)
  have ac: "acts = Act_Copy s (cp_kb c) (cp_src c) (cp_dst c) # a1 @ a2" using acts a2(1) cp(1) i2(2) by simp
  with del cp(6) have "Act_Delete s' kb src \<in> set a2" by auto
  from a2(2)[OF this] obtain obj' where o: "kb = cp_kb c" "src = cp_src c" "inv s'"
      "contents s' (obj_key (cp_kb c) (cp_src c)) = Some obj'" "matches_if_match (so_etag obj') etag" by blast
  have "so_etag obj' = so_etag obj" using o(5) cp(4) plain by simp
  then have "etag_of (so_bytes obj') = etag_of (so_bytes obj)" using etag_inv[OF o(3,4)] etag_inv[OF cp(3,2)] by simp
  then have "so_bytes obj' = so_bytes obj" using tags(1) by (simp add: inj_eq)
  then show ?thesis using ac o cp(2) \<open>Act_Delete s' kb src \<in> set a2\<close> by auto
qed

end

interpretation mem_conditional: conditional_store "mem_ops etag_of parse_date" "mem_inv etag_of" mem_contents etag_of
  for etag_of :: "bytes \<Rightarrow> string" and parse_date :: "string \<Rightarrow> (string, system_time) result"
proof
  fix s kb path c d s' t
  assume "op_delete (mem_ops etag_of parse_date) s kb path c = (Inr d, s')" "if_match c = Some t"
  then show "\<exists>obj. mem_contents s (obj_key kb path) = Some obj \<and> matches_if_match (so_etag obj) t"
    using mem_delete_Inr(2)[of s kb path c d s'] by (simp add: mem_ops_def)
next
  fix s kb src dst opts out s' t
  assume "op_copy (mem_ops etag_of parse_date) s kb src dst opts = (Inr out, s')" "source_if_match opts = Some t"
  then show "\<exists>obj. mem_contents s (obj_key kb src) = Some obj \<and> matches_if_match (so_etag obj) t"
    by (auto simp: mem_ops_def mem_copy_object_def Let_def mem_lookup_Inr_iff split: sum.splits if_splits)
qed

section \<open>Properties\<close>


text \<open>A user who may write everything the rules can grant, and copies one note.\<close>

definition dav_demo_lib :: dav_lib where
  "dav_demo_lib = \<lparr>dl_auth = \<lparr>al_to_str = Some, al_from_str = Some, al_base64 = Map.empty\<rparr>, dl_percent = id,
     dl_uri = (\<lambda>s. Some (None, s))\<rparr>"

definition dav_bob :: user_identity where
  "dav_bob = \<lparr>subject = ''bob'', groups = {}, valid_until = None\<rparr>"

definition dav_demo_state :: webdav_state where
  "dav_demo_state = \<lparr>dv_authenticator = with_token_verifier (\<lambda>_. Inr dav_bob) (authenticator_new ''svc''),
     dv_declared_kbs = [(''notes'', KbSlug ''notes'')],
     dv_access_policies = [''notes'' \<mapsto> [rule_new (WUser ''bob'') {Write}]]\<rparr>"

definition dav_demo_copy :: "string \<Rightarrow> unit dav_request" where
  "dav_demo_copy dest = \<lparr>dvr_method = ''COPY'', dvr_path = ''/webdav/notes/a.md'',
     dvr_headers = (\<lambda>n. if n = ''destination'' then [dest] else if n = ''authorization'' then [''Bearer t''] else []),
     dvr_body = []\<rparr>"

lemma dav_demo_through:
  "basic_auth_middleware dav_demo_lib dav_demo_state ''COPY'' ''/webdav/notes/a.md'' [''Bearer t'']
     = Inr (PSignedIn (UserId dav_bob), \<lparr>da_content = False, da_propfind = False\<rparr>)"
  by code_simp

lemma dav_demo_request:
  "copy_request dav_demo_lib dav_demo_state (dav_demo_copy ''/webdav/notes/.notedthat/x'') False
     = Inr \<lparr>cp_kb = KbSlug ''notes'', cp_src = ObjectPath ''a.md'', cp_dst = ObjectPath ''.notedthat/x'', cp_overwrite = True,
            cp_conditionals = no_conditions, cp_if = None\<rparr>"
  "copy_request dav_demo_lib dav_demo_state (dav_demo_copy ''/webdav/notes/b.md'') False
     = Inr \<lparr>cp_kb = KbSlug ''notes'', cp_src = ObjectPath ''a.md'', cp_dst = ObjectPath ''b.md'', cp_overwrite = True,
            cp_conditionals = no_conditions, cp_if = None\<rparr>"
  by code_simp+

lemma dav_demo_refused: "\<not> policy_allows (policy_for dav_demo_state (KbSlug ''notes'')) (PSignedIn (UserId dav_bob)) Write ''.notedthat/x''"
  by code_simp

lemma dav_demo_copy_runs:
  assumes "dst \<noteq> ''a.md''" "dst \<noteq> MANIFEST_KEY"
  shows "\<exists>out w'. commit_copy demo_backend demo_sinks (KbSlug ''notes'') (ObjectPath ''a.md'') (ObjectPath dst)
       \<lparr>source_if_match = Some (demo_tag ''ab''), destination_if_none_match = None, copy_content_type = ct\<rparr>
       (demo_world\<lparr>wd_tick := 1\<rparr>) = (Inr out, w') \<and> po_created out
     \<and> map_option so_bytes (mem_contents (wd_store w') (''notes'', dst)) = Some ''ab''
     \<and> map_option so_etag (mem_contents (wd_store w') (''notes'', ''a.md'')) = Some (demo_tag ''ab'')
     \<and> mem_ready (wd_store w') (KbSlug ''notes'')"
proof -
  have man: "check_copied_manifest demo_backend (KbSlug ''notes'') (ObjectPath ''a.md'') (ObjectPath dst) w = (Inr (), w)" for w
    using assms(2) by (simp add: check_copied_manifest_def is_manifest_def)
  have tag: "matches_if_match (demo_tag ''ab'') (demo_tag ''ab'')"
    using demo_write_tag[of "''ab''" 0] by (simp add: evaluate_write_Inr_iff only_if_match_def no_conditions_def)
  obtain out s tr where cp: "st_copy demo_backend (KbSlug ''notes'') (ObjectPath ''a.md'') (ObjectPath dst)
       \<lparr>source_if_match = Some (demo_tag ''ab''), destination_if_none_match = None, copy_content_type = ct\<rparr>
       (demo_world\<lparr>wd_tick := 1\<rparr>) = (Inr out, demo_world\<lparr>wd_tick := 2, wd_store := s, wd_trace := tr\<rparr>)"
      "po_created out" "map_option so_bytes (mem_contents s (''notes'', dst)) = Some ''ab''"
      "map_option so_etag (mem_contents s (''notes'', ''a.md'')) = Some (demo_tag ''ab'')" "mem_ready s (KbSlug ''notes'')"
    using assms(1) by (simp add: st_copy_def demo_interfere Let_def demo_eval mem_copy_object_def tag evaluate_write_Inr_iff
        evaluate_write_preconditions_def no_conditions_def emit_def update_conv' mem_ready_def)
  obtain sz mime where st: "copy_stamp demo_backend demo_sinks (KbSlug ''notes'') (ObjectPath dst)
       \<lparr>source_if_match = Some (demo_tag ''ab''), destination_if_none_match = None, copy_content_type = ct\<rparr>
       (demo_world\<lparr>wd_tick := 2, wd_store := s, wd_trace := tr\<rparr>)
       = ((sz, mime), demo_world\<lparr>wd_tick := 3, wd_store := s, wd_trace := tr\<rparr>)"
    by (cases "op_head (be_ops demo_backend) s (KbSlug ''notes'') (ObjectPath dst) no_conditions")
      (simp_all add: copy_stamp_def demo_sinks_def st_head_def demo_interfere Let_def demo_world_def)
  obtain w4 where aw: "after_write demo_backend demo_sinks (KbSlug ''notes'') (ObjectPath dst) out sz
       (case mime of None \<Rightarrow> [] | Some t \<Rightarrow> t) (demo_world\<lparr>wd_tick := 3, wd_store := s, wd_trace := tr\<rparr>) = (Inr (), w4)" "wd_store w4 = s"
    by (simp add: after_write_def demo_sinks_def publish_change_def demo_interfere offer_to_index_def Let_def
        demo_world_def index_queue_new_def queue_try_send_def emit_def)
  show ?thesis
    using cp aw by (simp add: commit_copy_def man st)
qed

lemma dav_demo_head:
  "\<exists>m. st_head demo_backend (KbSlug ''notes'') (ObjectPath ''a.md'') no_conditions demo_world = (Inr m, demo_world\<lparr>wd_tick := 1\<rparr>)
     \<and> om_etag m = Some (demo_tag ''ab'')"
  by (simp add: st_head_def demo_interfere Let_def demo_eval mem_head_object_def evaluate_read_preconditions_def
      no_conditions_def for_read_def)

lemma dav_demo_copied:
  assumes "dst \<in> {''.notedthat/x'', ''b.md''}"
  shows "\<exists>r w'. webdav_serve dav_demo_lib dk xml dav_demo_state demo_backend demo_sinks (dav_demo_copy (''/webdav/notes/'' @ dst)) next demo_world
       = (r, w') \<and> dr_status r = 201 \<and> wd_trace w' \<noteq> []
     \<and> map_option so_bytes (mem_contents (wd_store w') (''notes'', dst)) = Some ''ab''"
proof -
  let ?req = "dav_demo_copy (''/webdav/notes/'' @ dst)"
  let ?c = "\<lparr>cp_kb = KbSlug ''notes'', cp_src = ObjectPath ''a.md'', cp_dst = ObjectPath dst, cp_overwrite = True,
            cp_conditionals = no_conditions, cp_if = None\<rparr>"
  obtain m where m: "st_head demo_backend (KbSlug ''notes'') (ObjectPath ''a.md'') no_conditions demo_world = (Inr m, demo_world\<lparr>wd_tick := 1\<rparr>)"
      "om_etag m = Some (demo_tag ''ab'')" using dav_demo_head by blast
  have ne: "dst \<noteq> ''a.md''" "dst \<noteq> MANIFEST_KEY" using assms by (auto simp: MANIFEST_KEY_def)
  obtain out w' where cp: "commit_copy demo_backend demo_sinks (KbSlug ''notes'') (ObjectPath ''a.md'') (ObjectPath dst)
       \<lparr>source_if_match = Some (demo_tag ''ab''), destination_if_none_match = None,
        copy_content_type = Some (sniff_content_type (om_content_type m) (ObjectPath dst))\<rparr>
       (demo_world\<lparr>wd_tick := 1\<rparr>) = (Inr out, w')" "po_created out"
      "map_option so_bytes (mem_contents (wd_store w') (''notes'', dst)) = Some ''ab''"
    using dav_demo_copy_runs[OF ne] by blast
  have rq: "copy_request dav_demo_lib dav_demo_state ?req False = Inr ?c" using assms dav_demo_request by auto
  have pre: "is_ok (evaluate_write_preconditions (Some \<lparr>os_etag = e, os_last_modified = 0\<rparr>) no_conditions)" for e
    by (simp add: evaluate_write_preconditions_def no_conditions_def)
  have h: "handle_copy dav_demo_lib dav_demo_state demo_backend demo_sinks ?req demo_world
      = (response_with_optional_etag dav_demo_lib 201 (po_etag out), w')"
    unfolding handle_copy_def handle_copy_or_move_def rq
    using m cp pre by (simp add: destination_etag_def if_holds_def)
  have req: "dvr_method ?req = ''COPY''" "dvr_path ?req = ''/webdav/notes/a.md''" "dvr_headers ?req ''authorization'' = [''Bearer t'']"
    by (simp_all add: dav_demo_copy_def)
  have "webdav_serve dav_demo_lib dk xml dav_demo_state demo_backend demo_sinks ?req next demo_world
      = handle_copy dav_demo_lib dav_demo_state demo_backend demo_sinks ?req demo_world"
    unfolding webdav_serve_def intercept_write_methods_def req dav_demo_through by simp
  moreover have "wd_trace w' \<noteq> []"
    using commit_copy_shape[OF cp(1)] by (auto simp: write_shape_def)
  ultimately show ?thesis using h cp(3) by (simp add: response_with_optional_etag_def)
qed

text \<open>
  C38: The destination of a copy is not checked.  The comment on the methods says that the handler checks each key of a
  \<^verbatim>\<open>MOVE\<close> against its own rule, and the manual asks for \<^verbatim>\<open>write\<close> at the destination; the handler consults no
  rule.  Here a user the rules let write notes copies one into the internal namespace, where no rule can let
  a user write, and is answered 201.
\<close>

theorem dav_copy_unchecked_destination:
  "\<not> policy_allows (policy_for dav_demo_state (KbSlug ''notes'')) (PSignedIn (UserId dav_bob)) Write ''.notedthat/x''
   \<and> auth_resolve (dl_auth dav_demo_lib) (dv_authenticator dav_demo_state)
        (dvr_headers (dav_demo_copy ''/webdav/notes/.notedthat/x'') ''authorization'') BasicOrBearer = Inr (PSignedIn (UserId dav_bob))
   \<and> (\<exists>r w'. webdav_serve dav_demo_lib dk xml dav_demo_state demo_backend demo_sinks
              (dav_demo_copy ''/webdav/notes/.notedthat/x'') next demo_world = (r, w') \<and> dr_status r = 201
        \<and> map_option so_bytes (mem_contents (wd_store w') (''notes'', ''.notedthat/x'')) = Some ''ab'')"
proof (intro conjI)
  show "auth_resolve (dl_auth dav_demo_lib) (dv_authenticator dav_demo_state)
        (dvr_headers (dav_demo_copy ''/webdav/notes/.notedthat/x'') ''authorization'') BasicOrBearer = Inr (PSignedIn (UserId dav_bob))"
    using middleware_principal(1)[OF dav_demo_through] by (simp add: dav_demo_copy_def)
  show "\<exists>r w'. webdav_serve dav_demo_lib dk xml dav_demo_state demo_backend demo_sinks
              (dav_demo_copy ''/webdav/notes/.notedthat/x'') next demo_world = (r, w') \<and> dr_status r = 201
        \<and> map_option so_bytes (mem_contents (wd_store w') (''notes'', ''.notedthat/x'')) = Some ''ab''"
    using dav_demo_copied[of "''.notedthat/x''" dk xml "next"] by fastforce
qed (rule dav_demo_refused)

text \<open>
  C18: A move under interference.  Whatever other tasks do between its steps, the version of the source a move deletes
  has the bytes it copied to the destination before; a source that changed in between is kept.
\<close>

theorem dav_move_loses_nothing:
  assumes "be_ops be = mem_ops etag_of pd" "env_keeps (mem_inv etag_of) be" "mem_inv etag_of (wd_store w)"
    and "inj etag_of" "\<And>b. plain_tag (etag_of b)"
    and "handle_move lib st be sinks req w = (r, w')" "wd_trace w' = wd_trace w @ acts" "Act_Delete s' kb src \<in> set acts"
  shows "\<exists>s dst more obj obj'. acts = Act_Copy s kb src dst # more \<and> Act_Delete s' kb src \<in> set more
    \<and> mem_contents s (obj_key kb src) = Some obj \<and> mem_contents s' (obj_key kb src) = Some obj'
    \<and> so_bytes obj' = so_bytes obj"
  using mem_conditional.move_deletes_copied[OF assms(1-5) assms(6)[unfolded handle_move_def] assms(7,8)] .

lemma dav_demo_moved:
  "\<exists>r w' s. handle_move dav_demo_lib dav_demo_state demo_backend demo_sinks (dav_demo_copy ''/webdav/notes/.notedthat/x'') demo_world = (r, w')
     \<and> Act_Delete s (KbSlug ''notes'') (ObjectPath ''a.md'') \<in> set (wd_trace w')"
proof -
  let ?req = "dav_demo_copy ''/webdav/notes/.notedthat/x''" and ?kb = "KbSlug ''notes''" and ?src = "ObjectPath ''a.md''"
  let ?c = "\<lparr>cp_kb = ?kb, cp_src = ?src, cp_dst = ObjectPath ''.notedthat/x'', cp_overwrite = True,
            cp_conditionals = no_conditions, cp_if = None\<rparr>"
  have rq: "copy_request dav_demo_lib dav_demo_state ?req True = Inr ?c" by code_simp
  obtain m where m: "st_head demo_backend ?kb ?src no_conditions demo_world = (Inr m, demo_world\<lparr>wd_tick := 1\<rparr>)"
      "om_etag m = Some (demo_tag ''ab'')" using dav_demo_head by blast
  have ne: "''.notedthat/x'' \<noteq> ''a.md''" "''.notedthat/x'' \<noteq> MANIFEST_KEY" by (simp_all add: MANIFEST_KEY_def)
  obtain out w3 where cp: "commit_copy demo_backend demo_sinks ?kb ?src (ObjectPath ''.notedthat/x'')
       \<lparr>source_if_match = Some (demo_tag ''ab''), destination_if_none_match = None,
        copy_content_type = Some (sniff_content_type (om_content_type m) (ObjectPath ''.notedthat/x''))\<rparr>
       (demo_world\<lparr>wd_tick := 1\<rparr>) = (Inr out, w3)"
      "map_option so_etag (mem_contents (wd_store w3) (''notes'', ''a.md'')) = Some (demo_tag ''ab'')" "mem_ready (wd_store w3) ?kb"
    using dav_demo_copy_runs[of "''.notedthat/x''", OF ne] by blast
  have pre: "is_ok (evaluate_write_preconditions (Some \<lparr>os_etag = e, os_last_modified = 0\<rparr>) no_conditions)" for e
    by (simp add: evaluate_write_preconditions_def no_conditions_def)
  obtain x w' where ms: "move_source demo_backend demo_sinks ?c (demo_tag ''ab'') w3 = (x, w')" by fastforce
  have h: "\<exists>r. handle_move dav_demo_lib dav_demo_state demo_backend demo_sinks ?req demo_world = (r, w')"
    using m cp(1) pre ms by (cases x) (simp_all add: handle_move_def handle_copy_or_move_def rq destination_etag_def if_holds_def)
  obtain q where cd: "commit_delete demo_backend demo_sinks ?kb ?src (only_if_match (demo_tag ''ab'')) w3 = (q, w')"
    using ms unfolding move_source_def by (auto split: prod.splits sum.splits if_splits)
  obtain d w4 where sd: "st_delete demo_backend ?kb ?src (only_if_match (demo_tag ''ab'')) w3 = (d, w4)" by fastforce
  have "is_ok d"
    using sd cp(2,3) by (auto simp: st_delete_def demo_interfere Let_def mem_ops_def mem_delete_object_def mem_ready_def
        check_reachable_def require_bucket_def only_if_match_def no_conditions_def demo_tag_plain split: prod.splits if_splits)
  then have "Act_Delete (wd_store (interfere demo_backend w3)) ?kb ?src \<in> set (wd_trace w4)" using st_delete_trace[OF sd] by simp
  moreover have "set (wd_trace w4) \<subseteq> set (wd_trace w')" using commit_delete_extends[OF cd sd] by auto
  ultimately show ?thesis using h by blast
qed

theorem dav_move_loses_nothing_witness:
  "\<exists>s s' dst obj obj'. mem_contents s (''notes'', ''a.md'') = Some obj \<and> mem_contents s' (''notes'', ''a.md'') = Some obj'
     \<and> so_bytes obj' = so_bytes obj
     \<and> Act_Copy s (KbSlug ''notes'') (ObjectPath ''a.md'') dst
         = hd (wd_trace (snd (handle_move dav_demo_lib dav_demo_state demo_backend demo_sinks (dav_demo_copy ''/webdav/notes/.notedthat/x'') demo_world)))"
proof -
  obtain r w' s' where run: "handle_move dav_demo_lib dav_demo_state demo_backend demo_sinks (dav_demo_copy ''/webdav/notes/.notedthat/x'') demo_world = (r, w')"
      "Act_Delete s' (KbSlug ''notes'') (ObjectPath ''a.md'') \<in> set (wd_trace w')" using dav_demo_moved by blast
  have h: "be_ops demo_backend = mem_ops demo_tag (\<lambda>_. Inr 0)" "mem_inv demo_tag (wd_store demo_world)" "wd_trace w' = wd_trace demo_world @ wd_trace w'"
    using demo_inv by (simp_all add: demo_world_def)
  from dav_move_loses_nothing[OF h(1) demo_env h(2) demo_tag_inj demo_tag_plain run(1) h(3) run(2)] run(1)
  show ?thesis by fastforce
qed


end
