(* ===== verification/Dav_Read.thy ===== *)
theory Dav_Read
  imports Dav_Write Api_Listing
begin

text \<open>
  The WebDAV read side (\<^verbatim>\<open>notedthat-webdav/src\<close>: \<^verbatim>\<open>filesystem.rs\<close>, \<^verbatim>\<open>metadata.rs\<close>, \<^verbatim>\<open>propfind.rs\<close>, the \<^verbatim>\<open>PROPFIND\<close> layer of
  \<^verbatim>\<open>middleware/mod.rs\<close>): the collection of a listing page by page under its two caps, the entries dav-server is
  given, and files read in pieces.

  A storage is its operations \<open>ops\<close> and its state \<open>s\<close>, which these operations only read.
\<close>

section \<open>Collecting a listing\<close>

definition PROPFIND_MAX_ENTRIES :: nat where
  "PROPFIND_MAX_ENTRIES = 10000"

definition PROPFIND_MAX_SCANNED :: nat where
  "PROPFIND_MAX_SCANNED = 100000"

datatype listing_error = Listing_TooLarge | Listing_Storage storage_error

text \<open>The rows of one page.\<close>

fun collect_rows :: "(string \<Rightarrow> bool) \<Rightarrow> object_meta list \<Rightarrow> object_meta list \<Rightarrow> nat
    \<Rightarrow> (listing_error, object_meta list \<times> nat) result" where
  "collect_rows allows [] all_objects scanned = Inr (all_objects, scanned)"
| "collect_rows allows (obj # rows) all_objects scanned =
     (let scanned = scanned + 1 in
      if scanned > PROPFIND_MAX_SCANNED then Inl Listing_TooLarge
      else if \<not> allows (om_key obj) then collect_rows allows rows all_objects scanned
      else if length all_objects \<ge> PROPFIND_MAX_ENTRIES then Inl Listing_TooLarge
      else collect_rows allows rows (all_objects @ [obj]) scanned)"

text \<open>The loop ends when a page has no cursor: it need not, for a storage that always gives one.\<close>

partial_function (option) collect_loop ::
    "(nat \<Rightarrow> string option \<Rightarrow> (storage_error, list_response) result) \<Rightarrow> (string \<Rightarrow> bool) \<Rightarrow> object_meta list \<Rightarrow> string option \<Rightarrow> nat
     \<Rightarrow> (listing_error, object_meta list) result option" where
  [code]: "collect_loop list_page allows all_objects cursor scanned =
     (let remaining_cap = PROPFIND_MAX_ENTRIES - length all_objects;
          page_limit = min (remaining_cap + 1) 1000 in
      case list_page page_limit cursor of
        Inl e \<Rightarrow> Some (Inl (Listing_Storage e))
      | Inr response \<Rightarrow>
          (case collect_rows allows (lr_objects response) all_objects scanned of
             Inl e \<Rightarrow> Some (Inl e)
           | Inr (all_objects', scanned') \<Rightarrow>
               (case lr_next_cursor response of
                  None \<Rightarrow> Some (Inr all_objects')
                | Some c \<Rightarrow> collect_loop list_page allows all_objects' (Some c) scanned')))"

definition collect_propfind_objects :: "webdav_state \<Rightarrow> 's storage_ops \<Rightarrow> 's \<Rightarrow> kb_slug \<Rightarrow> string option \<Rightarrow> principal
    \<Rightarrow> (listing_error, object_meta list) result option" where
  "collect_propfind_objects st ops s kb pre p =
     (let key_filter = policy_key_filter (policy_for st kb) p List in
      collect_loop (\<lambda>limit cursor. op_list ops s kb pre limit cursor) (filter_allows key_filter) [] None 0)"

record propfind_listing =
  pl_kb :: kb_slug
  pl_prefix :: "string option"
  pl_objects :: "object_meta list"

definition listing_matches :: "propfind_listing \<Rightarrow> kb_slug \<Rightarrow> string option \<Rightarrow> bool" where
  "listing_matches l kb pre \<longleftrightarrow> pl_kb l = kb \<and> pl_prefix l = pre"

definition prepare_propfind_listing :: "webdav_state \<Rightarrow> 's storage_ops \<Rightarrow> 's \<Rightarrow> dav_target \<Rightarrow> principal
    \<Rightarrow> (listing_error, propfind_listing option) result option" where
  "prepare_propfind_listing st ops s target p =
     (case target of
        Dav_Root \<Rightarrow> Some (Inr None)
      | Dav_NonDeclaredKb \<Rightarrow> Some (Inr None)
      | Dav_KbRoot kb \<Rightarrow>
          map_option (res_map (\<lambda>objects. Some \<lparr>pl_kb = kb, pl_prefix = None, pl_objects = objects\<rparr>))
            (collect_propfind_objects st ops s kb None p)
      | Dav_Object kb path \<Rightarrow>
          (case op_head ops s kb path no_conditions of
             Inr _ \<Rightarrow> Some (Inr None)
           | Inl e \<Rightarrow>
               if is_not_found e then
                 let pre = path_str path @ ''/'' in
                 map_option (res_map (\<lambda>objects. Some \<lparr>pl_kb = kb, pl_prefix = Some pre, pl_objects = objects\<rparr>))
                   (collect_propfind_objects st ops s kb (Some pre) p)
               else Some (Inl (Listing_Storage e))))"

section \<open>The PROPFIND layer\<close>

definition PROPFIND_TOO_LARGE_DAV_XML :: string where
  "PROPFIND_TOO_LARGE_DAV_XML =
     ''<?xml version='' @ dq @ ''1.0'' @ dq @ '' encoding='' @ dq @ ''utf-8'' @ dq @ ''?>'' @ [CHR 0x0A]
     @ ''<D:error xmlns:D='' @ dq @ ''DAV:'' @ dq @ '' xmlns:nt='' @ dq @ ''urn:notedthat:error'' @ dq @ ''>'' @ [CHR 0x0A]
     @ ''  <nt:propfind-too-large/>'' @ [CHR 0x0A] @ ''</D:error>''"

definition depth_infinity_response :: dav_response where
  "depth_infinity_response =
     \<lparr>dr_status = 403, dr_headers = [(''content-type'', ''application/xml; charset=utf-8'')],
      dr_body = ''<?xml version='' @ dq @ ''1.0'' @ dq @ '' encoding='' @ dq @ ''utf-8'' @ dq @ ''?>'' @ [CHR 0x0A]
        @ ''<D:error xmlns:D='' @ dq @ ''DAV:'' @ dq @ ''><D:propfind-finite-depth/></D:error>''\<rparr>"

definition is_virtual_folder :: "'s storage_ops \<Rightarrow> 's \<Rightarrow> kb_slug \<Rightarrow> object_path \<Rightarrow> bool" where
  "is_virtual_folder ops s kb path =
     (case op_head ops s kb path no_conditions of
        Inl e \<Rightarrow>
          is_not_found e \<and>
          (case op_list ops s kb (Some (path_str path @ ''/'')) 1 None of
             Inr listing \<Rightarrow> lr_objects listing \<noteq> []
           | Inl _ \<Rightarrow> False)
      | Inr _ \<Rightarrow> False)"

text \<open>The layer answers, or goes on: with the depth set to zero or as it was, and with a listing or without.\<close>

datatype propfind_next = Propfind_Answer dav_response | Propfind_Go bool "propfind_listing option"

definition intercept_propfind_too_large :: "dav_lib \<Rightarrow> webdav_state \<Rightarrow> 's storage_ops \<Rightarrow> 's \<Rightarrow> string \<Rightarrow> string \<Rightarrow> string list \<Rightarrow> principal
    \<Rightarrow> propfind_next option" where
  "intercept_propfind_too_large lib st ops s meth uri_path depth p =
     (if meth \<noteq> ''PROPFIND'' then Some (Propfind_Go False None)
      else
        let target = parse_webdav_uri_path lib (dv_declared_kbs st) (target_path uri_path);
            infinite = (case target of
                Inr (Dav_Object kb path) \<Rightarrow>
                  if \<not> is_virtual_folder ops s kb path then Propfind_Go True None else Propfind_Answer depth_infinity_response
              | _ \<Rightarrow> Propfind_Answer depth_infinity_response) in
        case parse_propfind_depth depth of
          Depth_Default \<Rightarrow> Some infinite
        | Depth_Infinity \<Rightarrow> Some infinite
        | Depth_Invalid \<Rightarrow> Some (Propfind_Answer (status_only 400))
        | Depth_Zero \<Rightarrow> Some (Propfind_Go False None)
        | Depth_One \<Rightarrow>
            (case target of
               Inl _ \<Rightarrow> Some (Propfind_Go False None)
             | Inr target \<Rightarrow>
                 map_option (\<lambda>r. case r of
                     Inl Listing_TooLarge \<Rightarrow>
                       Propfind_Answer \<lparr>dr_status = 507, dr_headers = [(''content-type'', ''application/xml; charset=utf-8'')],
                                        dr_body = PROPFIND_TOO_LARGE_DAV_XML\<rparr>
                   | Inl (Listing_Storage e) \<Rightarrow>
                       if is_not_found e then Propfind_Answer (status_only 404)
                       else Propfind_Answer (status_only (storage_status e))
                   | Inr listing \<Rightarrow> Propfind_Go False listing)
                 (prepare_propfind_listing st ops s target p)))"

definition intercept_read_methods :: "dav_lib \<Rightarrow> webdav_state \<Rightarrow> string \<Rightarrow> string \<Rightarrow> dav_response option" where
  "intercept_read_methods lib st meth uri_path =
     (if meth \<in> {''GET'', ''HEAD'', ''PROPFIND''} then
        (case validate_webdav_read_uri_path lib (dv_declared_kbs st) uri_path of
           Inl _ \<Rightarrow> Some (status_only 400)
         | Inr _ \<Rightarrow> None)
      else None)"

section \<open>Entries\<close>

datatype dav_entry = Entry_Kb string string | Entry_Dir string | Entry_Object string object_meta

fun entry_name :: "dav_entry \<Rightarrow> string" where
  "entry_name (Entry_Kb name _) = name"
| "entry_name (Entry_Dir name) = name"
| "entry_name (Entry_Object name _) = name"

text \<open>The rollup's folders are a sorted set and its files a sorted map.\<close>

definition entries_from_objects :: "object_meta list \<Rightarrow> string option \<Rightarrow> dav_entry list" where
  "entries_from_objects objects pre =
     (let r = roll_up objects (case pre of None \<Rightarrow> [] | Some q \<Rightarrow> q) in
      map Entry_Dir (sorted_list_of_set (folders r))
      @ map (\<lambda>name. Entry_Object name (the (files r name))) (sorted_list_of_set (dom (files r) - folders r)))"

definition root_entries :: "webdav_state \<Rightarrow> principal \<Rightarrow> dav_entry list" where
  "root_entries st p =
     map (\<lambda>(name, kb). Entry_Kb name (kb_str kb))
       (filter (\<lambda>(_, kb). Access.visible_in_listing (policy_for st kb) p) (dv_declared_kbs st))"

fun storage_error_to_fs :: "storage_error \<Rightarrow> fs_error" where
  "storage_error_to_fs (SE_NotFound _) = Fs_NotFound"
| "storage_error_to_fs (SE_BucketNotFound _) = Fs_NotFound"
| "storage_error_to_fs SE_PreconditionFailed = Fs_Forbidden"
| "storage_error_to_fs (SE_RangeNotSatisfiable _) = Fs_Forbidden"
| "storage_error_to_fs _ = Fs_GeneralFailure"

fun listing_error_to_fs :: "listing_error \<Rightarrow> fs_error" where
  "listing_error_to_fs Listing_TooLarge = Fs_InsufficientStorage"
| "listing_error_to_fs (Listing_Storage e) = storage_error_to_fs e"

definition list_entries :: "webdav_state \<Rightarrow> 's storage_ops \<Rightarrow> 's \<Rightarrow> kb_slug \<Rightarrow> string option \<Rightarrow> propfind_listing option \<Rightarrow> principal
    \<Rightarrow> (fs_error, dav_entry list) result option" where
  "list_entries st ops s kb pre prepared p =
     (let key_filter = policy_key_filter (policy_for st kb) p List in
      case prepared of
        Some l \<Rightarrow>
          if listing_matches l kb pre then
            Some (Inr (entries_from_objects (filter (\<lambda>meta. filter_allows key_filter (om_key meta)) (pl_objects l)) pre))
          else map_option (\<lambda>r. res_map (\<lambda>objects. entries_from_objects objects pre) (map_err listing_error_to_fs r))
                 (collect_propfind_objects st ops s kb pre p)
      | None \<Rightarrow> map_option (\<lambda>r. res_map (\<lambda>objects. entries_from_objects objects pre) (map_err listing_error_to_fs r))
                 (collect_propfind_objects st ops s kb pre p))"

definition read_dir :: "webdav_state \<Rightarrow> 's storage_ops \<Rightarrow> 's \<Rightarrow> string \<Rightarrow> propfind_listing option \<Rightarrow> principal
    \<Rightarrow> (fs_error, dav_entry list) result option" where
  "read_dir st ops s path prepared p =
     (case parse_dav_path (dv_declared_kbs st) path of
        Inl e \<Rightarrow> Some (Inl e)
      | Inr Dav_Root \<Rightarrow> Some (Inr (root_entries st p))
      | Inr (Dav_KbRoot kb) \<Rightarrow> list_entries st ops s kb None prepared p
      | Inr (Dav_Object kb obj) \<Rightarrow> list_entries st ops s kb (Some (path_str obj @ ''/'')) prepared p
      | Inr Dav_NonDeclaredKb \<Rightarrow> Some (Inl Fs_Forbidden))"

section \<open>Metadata\<close>

datatype webdav_meta_data = Meta_Root system_time | Meta_Kb string system_time | Meta_Object object_meta

definition virtual_mtime :: system_time where
  "virtual_mtime = 1000000000"

fun meta_len :: "webdav_meta_data \<Rightarrow> u64" where
  "meta_len (Meta_Object meta) = om_size meta"
| "meta_len _ = 0"

fun meta_modified :: "webdav_meta_data \<Rightarrow> system_time" where
  "meta_modified (Meta_Root start) = start"
| "meta_modified (Meta_Kb _ start) = start"
| "meta_modified (Meta_Object meta) =
     max (case om_last_modified meta of Some t \<Rightarrow> t | None \<Rightarrow> 0) 0 * 1000000000"

fun meta_is_dir :: "webdav_meta_data \<Rightarrow> bool" where
  "meta_is_dir (Meta_Object _) = False"
| "meta_is_dir _ = True"

text \<open>\<^verbatim>\<open>{:x}\<close>.\<close>

fun show_hex :: "nat \<Rightarrow> string" where
  "show_hex n =
     (let digit = (\<lambda>d. if d < 10 then char_of (48 + d) else char_of (87 + d)) in
      if n < 16 then [digit n] else show_hex (n div 16) @ [digit (n mod 16)])"

declare show_hex.simps [simp del]

definition trim_quotes :: "string \<Rightarrow> string" where
  "trim_quotes s = rev (dropWhile (\<lambda>c. c = CHR 0x22) (rev (dropWhile (\<lambda>c. c = CHR 0x22) s)))"

fun meta_etag :: "webdav_meta_data \<Rightarrow> string option" where
  "meta_etag (Meta_Root start) = Some (''nt-root-'' @ show_hex (unix_seconds start))"
| "meta_etag (Meta_Kb slug start) = Some (''nt-kb-'' @ slug @ ''-'' @ show_hex (unix_seconds start))"
| "meta_etag (Meta_Object meta) = map_option trim_quotes (om_etag meta)"

fun entry_metadata :: "dav_entry \<Rightarrow> webdav_meta_data" where
  "entry_metadata (Entry_Kb _ kb) = Meta_Kb kb virtual_mtime"
| "entry_metadata (Entry_Dir name) = Meta_Kb (''virtual-'' @ name) virtual_mtime"
| "entry_metadata (Entry_Object _ meta) = Meta_Object meta"

fun entry_is_dir :: "dav_entry \<Rightarrow> bool" where
  "entry_is_dir (Entry_Object _ _) = False"
| "entry_is_dir _ = True"

definition metadata_for_object_or_prefix :: "'s storage_ops \<Rightarrow> 's \<Rightarrow> kb_slug \<Rightarrow> object_path \<Rightarrow> (fs_error, webdav_meta_data) result" where
  "metadata_for_object_or_prefix ops s kb path =
     (case op_head ops s kb path no_conditions of
        Inr meta \<Rightarrow> Inr (Meta_Object meta)
      | Inl e \<Rightarrow>
          if is_not_found e then
            res_bind (map_err storage_error_to_fs (op_list ops s kb (Some (path_str path @ ''/'')) 1 None)) (\<lambda>response.
              if lr_objects response = [] then Inl Fs_NotFound
              else Inr (Meta_Kb (''virtual-'' @ path_str path) virtual_mtime))
          else Inl (storage_error_to_fs e))"

definition dav_metadata :: "webdav_state \<Rightarrow> 's storage_ops \<Rightarrow> 's \<Rightarrow> string \<Rightarrow> principal \<Rightarrow> (fs_error, webdav_meta_data) result" where
  "dav_metadata st ops s path p =
     res_bind (parse_dav_path (dv_declared_kbs st) path) (\<lambda>target.
       case target of
         Dav_Root \<Rightarrow> Inr (Meta_Root virtual_mtime)
       | Dav_KbRoot kb \<Rightarrow> Inr (Meta_Kb (kb_str kb) virtual_mtime)
       | Dav_Object kb obj \<Rightarrow>
           if list_ex (\<lambda>v. policy_allows (policy_for st kb) p v (path_str obj)) [List, Read]
           then metadata_for_object_or_prefix ops s kb obj else Inl Fs_Forbidden
       | Dav_NonDeclaredKb \<Rightarrow> Inl Fs_Forbidden)"

section \<open>Open files\<close>

record open_options =
  oo_write :: bool
  oo_append :: bool
  oo_create :: bool
  oo_create_new :: bool
  oo_truncate :: bool

record storage_read_file =
  rf_kb :: kb_slug
  rf_path :: object_path
  rf_read_offset :: u64
  rf_size_hint :: "u64 option"

definition dav_open :: "webdav_state \<Rightarrow> string \<Rightarrow> open_options \<Rightarrow> principal \<Rightarrow> (fs_error, storage_read_file) result" where
  "dav_open st path options p =
     (if oo_write options \<or> oo_append options \<or> oo_create options \<or> oo_create_new options \<or> oo_truncate options
      then Inl Fs_NotImplemented
      else case parse_dav_path (dv_declared_kbs st) path of
        Inr (Dav_Object kb obj) \<Rightarrow>
          if policy_allows (policy_for st kb) p Read (path_str obj)
          then Inr \<lparr>rf_kb = kb, rf_path = obj, rf_read_offset = 0, rf_size_hint = None\<rparr>
          else Inl Fs_Forbidden
      | Inr _ \<Rightarrow> Inl Fs_Forbidden
      | Inl e \<Rightarrow> Inl e)"

definition read_bytes :: "'s storage_ops \<Rightarrow> 's \<Rightarrow> u64 \<Rightarrow> storage_read_file \<Rightarrow> (fs_error, bytes) result \<times> storage_read_file" where
  "read_bytes ops s n f =
     (if n = 0 then (Inr [], f)
      else case Option.bind (checked_add (rf_read_offset f) n) (\<lambda>e. checked_sub e 1) of
        None \<Rightarrow> (Inl Fs_TooLarge, f)
      | Some lst \<Rightarrow>
          (case (case op_get ops s (rf_kb f) (rf_path f) (Some (BFromStart (rf_read_offset f) lst)) no_conditions of
                   Inr obj \<Rightarrow> Inr (or_bytes obj)
                 | Inl (SE_RangeNotSatisfiable _) \<Rightarrow> Inr []
                 | Inl e \<Rightarrow> Inl (storage_error_to_fs e)) of
             Inl e \<Rightarrow> (Inl e, f)
           | Inr b \<Rightarrow>
               (case checked_add (rf_read_offset f) (of_nat (length b)) of
                  None \<Rightarrow> (Inl Fs_TooLarge, f)
                | Some off \<Rightarrow> (Inr b, f\<lparr>rf_read_offset := off\<rparr>))))"

text \<open>\<open>delta\<close> is an \<^verbatim>\<open>i64\<close>.\<close>

definition apply_seek_delta :: "u64 \<Rightarrow> int \<Rightarrow> (fs_error, u64) result" where
  "apply_seek_delta base delta =
     (if delta \<ge> 0 then ok_or Fs_TooLarge (checked_add base (of_int delta))
      else ok_or Fs_Forbidden (checked_sub base (of_int (- delta))))"

datatype seek_from = Seek_Start u64 | Seek_Current int | Seek_End int

definition seek :: "'s storage_ops \<Rightarrow> 's \<Rightarrow> seek_from \<Rightarrow> storage_read_file \<Rightarrow> (fs_error, u64) result \<times> storage_read_file" where
  "seek ops s pos f =
     (case pos of
        Seek_Start off \<Rightarrow> (Inr off, f\<lparr>rf_read_offset := off\<rparr>)
      | Seek_Current delta \<Rightarrow>
          (case apply_seek_delta (rf_read_offset f) delta of
             Inl e \<Rightarrow> (Inl e, f)
           | Inr off \<Rightarrow> (Inr off, f\<lparr>rf_read_offset := off\<rparr>))
      | Seek_End delta \<Rightarrow>
          (case (case rf_size_hint f of
                   Some sz \<Rightarrow> Inr sz
                 | None \<Rightarrow> map_err storage_error_to_fs (res_map om_size (op_head ops s (rf_kb f) (rf_path f) no_conditions))) of
             Inl e \<Rightarrow> (Inl e, f)
           | Inr sz \<Rightarrow>
               (case apply_seek_delta sz delta of
                  Inl e \<Rightarrow> (Inl e, f\<lparr>rf_size_hint := Some sz\<rparr>)
                | Inr off \<Rightarrow> (Inr off, f\<lparr>rf_size_hint := Some sz, rf_read_offset := off\<rparr>))))"

text \<open>\<^verbatim>\<open>StorageReadFile::metadata\<close>: the size is kept for a seek from the end.\<close>

definition file_metadata :: "'s storage_ops \<Rightarrow> 's \<Rightarrow> storage_read_file \<Rightarrow> (fs_error, webdav_meta_data) result \<times> storage_read_file" where
  "file_metadata ops s f =
     (case op_head ops s (rf_kb f) (rf_path f) no_conditions of
        Inl e \<Rightarrow> (Inl (storage_error_to_fs e), f)
      | Inr meta \<Rightarrow> (Inr (Meta_Object meta), f\<lparr>rf_size_hint := Some (om_size meta)\<rparr>))"

text \<open>A client reads a file in pieces.\<close>

fun read_series :: "'s storage_ops \<Rightarrow> 's \<Rightarrow> u64 list \<Rightarrow> storage_read_file \<Rightarrow> (fs_error, bytes list) result" where
  "read_series ops s [] f = Inr []"
| "read_series ops s (n # ns) f =
     (case read_bytes ops s n f of
        (Inl e, _) \<Rightarrow> Inl e
      | (Inr b, f') \<Rightarrow> res_map ((#) b) (read_series ops s ns f'))"

section \<open>Listings are complete or refused\<close>

lemma collect_rows_spec:
  assumes "length objs \<le> PROPFIND_MAX_ENTRIES" "scanned \<le> PROPFIND_MAX_SCANNED"
  shows "collect_rows allows rows objs scanned =
    (if scanned + length rows \<le> PROPFIND_MAX_SCANNED
        \<and> length objs + length (filter (\<lambda>obj. allows (om_key obj)) rows) \<le> PROPFIND_MAX_ENTRIES
     then Inr (objs @ filter (\<lambda>obj. allows (om_key obj)) rows, scanned + length rows)
     else Inl Listing_TooLarge)"
  using assms
proof (induction rows arbitrary: objs scanned)
  case (Cons row rows)
  show ?case
  proof (cases "scanned + 1 \<le> PROPFIND_MAX_SCANNED")
    case True
    then show ?thesis
      using Cons.IH[of objs "scanned + 1"] Cons.IH[of "objs @ [row]" "scanned + 1"] Cons.prems
      by (cases "allows (om_key row)"; cases "length objs < PROPFIND_MAX_ENTRIES") simp_all
  qed (use Cons.prems in simp)
qed simp

definition capped :: "(string \<Rightarrow> bool) \<Rightarrow> object_meta list \<Rightarrow> (listing_error, object_meta list) result" where
  "capped allows rows =
     (let vis = filter (\<lambda>obj. allows (om_key obj)) rows in
      if length rows \<le> PROPFIND_MAX_SCANNED \<and> length vis \<le> PROPFIND_MAX_ENTRIES then Inr vis
      else Inl Listing_TooLarge)"

lemma capped_prefix_too_large:
  assumes "\<not> (length (take m rows) \<le> PROPFIND_MAX_SCANNED
      \<and> length (filter (\<lambda>obj. allows (om_key obj)) (take m rows)) \<le> PROPFIND_MAX_ENTRIES)"
  shows "capped allows rows = Inl Listing_TooLarge"
proof -
  have "length (filter (\<lambda>obj. allows (om_key obj)) rows) =
      length (filter (\<lambda>obj. allows (om_key obj)) (take m rows)) + length (filter (\<lambda>obj. allows (om_key obj)) (drop m rows))"
    by (metis append_take_drop_id filter_append length_append)
  then show ?thesis using assms by (auto simp: capped_def Let_def)
qed

context filtered_listing
begin

lemma collect_loop_exact:
  fixes pre :: "string option"
  assumes "ready s kb"
  defines "L \<equiv> listing s kb pre"
  shows "\<lbrakk>pos s kb pre cursor = Some n; n \<le> length L; n \<le> PROPFIND_MAX_SCANNED;
      objs = visible allows (take n L); length objs \<le> PROPFIND_MAX_ENTRIES\<rbrakk> \<Longrightarrow>
    collect_loop (\<lambda>k c. op_list ops s kb pre k c) allows objs cursor n = Some (capped allows L)"
proof (induction "length L - n" arbitrary: cursor n objs rule: less_induct)
  case less
  define lim where "lim = min (PROPFIND_MAX_ENTRIES - length objs + 1) 1000"
  have lim: "0 < lim" "min lim 1000 = lim" by (auto simp: lim_def)
  obtain lr where lr: "op_list ops s kb pre lim cursor = Inr lr" "lr_objects lr = take lim (drop n L)"
    "if n + lim < length L
     then \<exists>c. lr_next_cursor lr = Some c \<and> pos s kb pre (Some c) = Some (n + lim)
     else lr_next_cursor lr = None"
    using page[OF assms(1) less.prems(1) lim(1)] lim(2) by (auto simp: L_def split: if_splits)
  have tk: "take (n + lim) L = take n L @ take lim (drop n L)" by (simp add: take_add)
  define m where "m = n + length (take lim (drop n L))"
  have m: "take m L = take (n + lim) L" "m = min (n + lim) (length L)" using less.prems(2) by (auto simp: m_def min_def)
  have vis: "objs @ visible allows (take lim (drop n L)) = visible allows (take m L)"
    by (simp add: less.prems(4) m(1) tk)
  have "m = length (take m L)" using m(2) by simp
  define fits where "fits \<longleftrightarrow> m \<le> PROPFIND_MAX_SCANNED \<and> length (visible allows (take m L)) \<le> PROPFIND_MAX_ENTRIES"
  have rows: "collect_rows allows (lr_objects lr) objs n =
      (if fits then Inr (visible allows (take m L), m) else Inl Listing_TooLarge)"
  proof -
    have len: "length objs + length (visible allows (take lim (drop n L))) = length (visible allows (take m L))"
      using arg_cong[OF vis, of length] by simp
    show ?thesis
      unfolding collect_rows_spec[OF less.prems(5,3)] lr(2) len vis m_def[symmetric] fits_def ..
  qed
  have unf: "collect_loop (\<lambda>k c. op_list ops s kb pre k c) allows objs cursor n =
      (if fits then (case lr_next_cursor lr of
           None \<Rightarrow> Some (Inr (visible allows (take m L)))
         | Some c \<Rightarrow> collect_loop (\<lambda>k c. op_list ops s kb pre k c) allows (visible allows (take m L)) (Some c) m)
       else Some (Inl Listing_TooLarge))"
    by (subst collect_loop.simps, unfold Let_def lim_def[symmetric] lr(1)) (simp add: rows)
  show ?case
  proof (cases fits)
    case False
    then have "capped allows L = Inl Listing_TooLarge"
      using capped_prefix_too_large[of m L allows] \<open>m = length (take m L)\<close> by (simp add: fits_def)
    then show ?thesis using unf False by simp
  next
    case True
    show ?thesis
    proof (cases "n + lim < length L")
      case True
      then obtain c where c: "lr_next_cursor lr = Some c" "pos s kb pre (Some c) = Some m"
        using lr(3) m(2) by auto
      have "length L - m < length L - n" using True m(2) lim(1) by simp
      then show ?thesis using less.hyps[OF _ c(2), of "visible allows (take m L)"] unf c(1) \<open>fits\<close> m(2)
        by (simp add: fits_def)
    next
      case False
      then have "m = length L" using m(2) by simp
      then show ?thesis using unf \<open>fits\<close> lr(3) False by (simp add: capped_def fits_def Let_def)
    qed
  qed
qed

lemma collect_exact:
  "ready s kb \<Longrightarrow> collect_propfind_objects st ops s kb pre p =
    Some (capped (policy_allows (policy_for st kb) p List) (listing s kb pre))"
  using collect_loop_exact[of s kb pre None 0 "[]" "filter_allows (policy_key_filter (policy_for st kb) p List)"]
  by (simp add: collect_propfind_objects_def pos_start policy_allows_def [abs_def] Let_def)

end

lemma roll_up_finite: "finite (folders (roll_up objs pre)) \<and> finite (dom (files (roll_up objs pre)))"
proof (induction objs rule: rev_induct)
  case (snoc obj objs)
  then show ?case
    by (auto simp: roll_up_snoc roll_up_step_def split: option.splits if_splits)
qed (simp add: roll_up_def)

lemma entries_names:
  "distinct (map entry_name (entries_from_objects objs pre))
   \<and> set (map entry_name (entries_from_objects objs pre)) =
       folders (roll_up objs (case pre of None \<Rightarrow> [] | Some q \<Rightarrow> q)) \<union> dom (files (roll_up objs (case pre of None \<Rightarrow> [] | Some q \<Rightarrow> q)))"
proof -
  define r where "r = roll_up objs (case pre of None \<Rightarrow> [] | Some q \<Rightarrow> q)"
  have fin: "finite (folders r)" "finite (dom (files r))"
    unfolding r_def using roll_up_finite by blast+
  have names: "map entry_name (entries_from_objects objs pre) =
      sorted_list_of_set (folders r) @ sorted_list_of_set (dom (files r) - folders r)"
    by (simp add: entries_from_objects_def r_def Let_def o_def)
  show ?thesis unfolding names r_def[symmetric] using fin by auto
qed

section \<open>Reading in pieces\<close>

lemma read_bytes_mem:
  assumes obj: "mem_lookup s (rf_kb f) (rf_path f) = Inr obj"
    and len: "length (so_bytes obj) < 2 ^ 64" and fits: "unat (rf_read_offset f) + unat n < 2 ^ 64"
    and inside: "unat (rf_read_offset f) \<le> length (so_bytes obj)"
  shows "\<exists>f'. read_bytes (mem_ops etag_of parse_date) s n f =
        (Inr (take (unat n) (drop (unat (rf_read_offset f)) (so_bytes obj))), f')
      \<and> rf_kb f' = rf_kb f \<and> rf_path f' = rf_path f
      \<and> unat (rf_read_offset f') = min (length (so_bytes obj)) (unat (rf_read_offset f) + unat n)"
proof (cases "n = 0")
  case False
  define B where "B = so_bytes obj"
  define off where "off = unat (rf_read_offset f)"
  obtain e where e: "checked_add (rf_read_offset f) n = Some e" "unat e = off + unat n"
    using fits by (auto simp: checked_add_def off_def unat_plus_if')
  have n: "0 < unat n" using False by (simp add: unat_gt_0)
  obtain lst where lst: "checked_sub e 1 = Some lst" "unat lst + 1 = off + unat n"
  proof -
    have "unat (e - 1) = unat e - 1" using e(2) n by (intro unat_u64_pred) auto
    then have "checked_sub e 1 = Some (e - 1)" using e(2) n by (subst checked_sub_Some_iff) simp
    then show ?thesis using that \<open>unat (e - 1) = unat e - 1\<close> e(2) n by simp
  qed
  have total: "unat (of_nat (length B) :: u64) = length B" using len by (simp add: B_def unat_of_nat)
  define got where "got = take (unat n) (drop off B)"
  have read: "(case op_get (mem_ops etag_of parse_date) s (rf_kb f) (rf_path f) (Some (BFromStart (rf_read_offset f) lst)) no_conditions of
                   Inr obj \<Rightarrow> Inr (or_bytes obj)
                 | Inl (SE_RangeNotSatisfiable _) \<Rightarrow> Inr []
                 | Inl e \<Rightarrow> Inl (storage_error_to_fs e)) = Inr got"
  proof (cases "to_exclusive_range (BFromStart (rf_read_offset f) lst) (of_nat (length B))")
    case None
    then have "\<not> byte_selected (BFromStart (rf_read_offset f) lst) (length B) off"
      unfolding to_exclusive_range_None total by blast
    then have "length B \<le> off" using lst(2) n by (simp add: off_def)
    then show ?thesis
      using None obj by (simp add: mem_ops_def mem_get_object_def resolve_range_def B_def got_def)
  next
    case (Some se)
    obtain a b where ab: "se = (a, b)" by (cases se)
    have "a = rf_read_offset f" using Some ab by (auto split: if_splits)
    have b: "unat a < unat b" "unat b \<le> length B"
      "\<And>i. unat a \<le> i \<and> i < unat b \<longleftrightarrow> byte_selected (BFromStart (rf_read_offset f) lst) (length B) i"
      using to_exclusive_range_Some[OF Some[unfolded ab]] unfolding total by blast+
    have a: "unat a = off" by (simp add: off_def \<open>a = rf_read_offset f\<close>)
    have sel: "off \<le> i \<and> i < unat b \<longleftrightarrow> i < length B \<and> off \<le> i \<and> i < off + unat n" for i
      using b(3)[of i] lst(2) unfolding a byte_selected.simps off_def[symmetric] by linarith
    have "unat b \<le> off + unat n" using sel[of "unat b - 1"] b(1) a by linarith
    moreover have "unat b = length B \<or> off + unat n \<le> unat b" using sel[of "unat b"] b(1,2) a by linarith
    ultimately have "unat b - unat a = min (unat n) (length B - off)" using b(1,2) a by linarith
    then have "take (unat b - unat a) (drop (unat a) B) = got"
      using \<open>a = rf_read_offset f\<close> by (simp add: got_def off_def min_def)
    then show ?thesis
      using Some ab obj by (simp add: mem_ops_def mem_get_object_def resolve_range_def B_def)
  qed
  have glen: "length got = min (length B - off) (unat n)" by (simp add: got_def)
  have "unat (of_nat (length got) :: u64) = length got" using len by (simp add: glen B_def unat_of_nat)
  moreover have "off + length got < 2 ^ 64" using fits glen by (simp add: off_def)
  ultimately obtain off' where off': "checked_add (rf_read_offset f) (of_nat (length got)) = Some off'" "unat off' = off + length got"
    by (auto simp: checked_add_def off_def unat_plus_if')
  have "read_bytes (mem_ops etag_of parse_date) s n f = (Inr got, f\<lparr>rf_read_offset := off'\<rparr>)"
    unfolding read_bytes_def using False e(1) lst(1) off'(1) by (simp add: read)
  then show ?thesis using off'(2) glen inside by (auto simp: got_def B_def off_def)
qed (use inside in \<open>auto simp: read_bytes_def\<close>)

lemma read_series_mem:
  assumes "mem_lookup s (rf_kb f) (rf_path f) = Inr obj" "length (so_bytes obj) < 2 ^ 64"
    and "unat (rf_read_offset f) + sum_list (map unat ns) < 2 ^ 64" "unat (rf_read_offset f) \<le> length (so_bytes obj)"
  shows "\<exists>pieces. read_series (mem_ops etag_of parse_date) s ns f = Inr pieces
    \<and> concat pieces = take (sum_list (map unat ns)) (drop (unat (rf_read_offset f)) (so_bytes obj))"
  using assms
proof (induction ns arbitrary: f)
  case (Cons n ns)
  define off where "off = unat (rf_read_offset f)"
  obtain f' where f': "read_bytes (mem_ops etag_of parse_date) s n f = (Inr (take (unat n) (drop off (so_bytes obj))), f')"
    "rf_kb f' = rf_kb f" "rf_path f' = rf_path f" "unat (rf_read_offset f') = min (length (so_bytes obj)) (off + unat n)"
    using read_bytes_mem[OF Cons.prems(1,2) _ Cons.prems(4), of n etag_of parse_date] Cons.prems(3) by (auto simp: off_def)
  obtain pieces where "read_series (mem_ops etag_of parse_date) s ns f' = Inr pieces"
    "concat pieces = take (sum_list (map unat ns)) (drop (unat (rf_read_offset f')) (so_bytes obj))"
  proof -
    have "unat (rf_read_offset f') \<le> off + unat n" unfolding f'(4) by (rule min.cobounded2)
    then have "unat (rf_read_offset f') + sum_list (map unat ns) < 2 ^ 64" using Cons.prems(3) by (simp add: off_def)
    then show ?thesis using Cons.IH[of f'] Cons.prems(1,2) f'(2-4) that by auto
  qed
  moreover have "drop (unat (rf_read_offset f')) (so_bytes obj) = drop (unat n) (drop off (so_bytes obj))"
    unfolding f'(4) by (simp add: add.commute min_def)
  ultimately show ?case using f'(1) by (auto simp: take_add off_def)
qed simp

lemma entry_kinds: "entry_is_dir e = meta_is_dir (entry_metadata e)"
  by (cases e) simp_all

section \<open>Theorems\<close>

text \<open>The folder a target lists, if it is one.\<close>

fun listed_folder :: "dav_target \<Rightarrow> (kb_slug \<times> string option) option" where
  "listed_folder (Dav_KbRoot kb) = Some (kb, None)"
| "listed_folder (Dav_Object kb path) = Some (kb, Some (path_str path @ ''/''))"
| "listed_folder _ = None"

text \<open>The first segment of a key below the prefix.\<close>

definition is_child :: "string \<Rightarrow> string \<Rightarrow> string \<Rightarrow> bool" where
  "is_child pre key name \<longleftrightarrow> CHR ''/'' \<notin> set name \<and> (name \<noteq> [] \<and> key = pre @ name \<or> prefix (pre @ name @ ''/'') key)"

lemma entries_children:
  "set (map entry_name (entries_from_objects objs pre)) =
    {name. \<exists>obj\<in>set objs. is_child (case pre of None \<Rightarrow> [] | Some q \<Rightarrow> q) (om_key obj) name}"
  unfolding conjunct2[OF entries_names] roll_up_folders roll_up_files_dom
  by (fastforce simp: is_child_def prefix_def image_iff)

lemma mem_collect:
  "mem_listable s kb \<Longrightarrow> collect_propfind_objects st (mem_ops etag_of parse_date) s kb pre p =
    Some (capped (policy_allows (policy_for st kb) p List) (mem_matching s kb pre))"
  by (rule mem_filtered.collect_exact)

lemma prepare_folder:
  assumes "mem_listable s kb" "listed_folder target = Some (kb, pre)"
    and "prepare_propfind_listing st (mem_ops etag_of parse_date) s target p = Some (Inr (Some l))"
  shows "l = \<lparr>pl_kb = kb, pl_prefix = pre, pl_objects = pl_objects l\<rparr>
    \<and> capped (policy_allows (policy_for st kb) p List) (mem_matching s kb pre) = Inr (pl_objects l)"
proof (cases target)
  case (Dav_Object k path)
  then show ?thesis
    using assms mem_collect[OF assms(1), of st etag_of parse_date pre p]
    by (auto simp: prepare_propfind_listing_def Let_def res_map_Inr_iff split: sum.splits if_splits)
qed (use assms mem_collect[OF assms(1), of st etag_of parse_date pre p] in
    \<open>auto simp: prepare_propfind_listing_def res_map_Inr_iff\<close>)

lemma read_dir_folder:
  assumes "parse_dav_path (dv_declared_kbs st) path = Inr target" "listed_folder target = Some (kb, pre)"
  shows "read_dir st ops s path prepared p = list_entries st ops s kb pre prepared p"
  using assms by (cases target) (simp_all add: read_dir_def)

text \<open>
  C14: A PROPFIND of depth one is answered with a complete listing or refused.  Collecting a folder returns
  for every storage state: the rows the caller may list, all of them, when at most 100000 rows lie below
  the folder and at most 10000 of them are the caller's, and the refusal otherwise.  When a listing was
  collected, the directory dav-server is given has each child of the folder that leads to a visible
  object once and no other name, with the listing the layer prepared or without it.
\<close>

theorem propfind_complete_or_refused:
  assumes "mem_listable s kb" "listed_folder target = Some (kb, pre)"
    and "parse_dav_path (dv_declared_kbs st) path = Inr target"
  shows "collect_propfind_objects st (mem_ops etag_of parse_date) s kb pre p =
      Some (let vis = filter (\<lambda>obj. policy_allows (policy_for st kb) p List (om_key obj)) (mem_matching s kb pre) in
            if length (mem_matching s kb pre) \<le> 100000 \<and> length vis \<le> 10000 then Inr vis else Inl Listing_TooLarge)
    \<and> (\<forall>l. prepare_propfind_listing st (mem_ops etag_of parse_date) s target p = Some (Inr (Some l)) \<longrightarrow>
        (\<exists>es. read_dir st (mem_ops etag_of parse_date) s path (Some l) p = Some (Inr es)
          \<and> read_dir st (mem_ops etag_of parse_date) s path None p = Some (Inr es)
          \<and> distinct (map entry_name es)
          \<and> set (map entry_name es) = {name. \<exists>obj\<in>set (mem_matching s kb pre).
               policy_allows (policy_for st kb) p List (om_key obj)
               \<and> is_child (case pre of None \<Rightarrow> [] | Some q \<Rightarrow> q) (om_key obj) name}))"
proof (intro conjI allI impI)
  note collect = mem_collect[OF assms(1), of st etag_of parse_date pre p]
  show "collect_propfind_objects st (mem_ops etag_of parse_date) s kb pre p =
      Some (let vis = filter (\<lambda>obj. policy_allows (policy_for st kb) p List (om_key obj)) (mem_matching s kb pre) in
            if length (mem_matching s kb pre) \<le> 100000 \<and> length vis \<le> 10000 then Inr vis else Inl Listing_TooLarge)"
    unfolding collect capped_def PROPFIND_MAX_SCANNED_def PROPFIND_MAX_ENTRIES_def ..
  fix l
  assume "prepare_propfind_listing st (mem_ops etag_of parse_date) s target p = Some (Inr (Some l))"
  note l = prepare_folder[OF assms(1,2) this]
  define vis where "vis = filter (\<lambda>obj. policy_allows (policy_for st kb) p List (om_key obj)) (mem_matching s kb pre)"
  have objs: "pl_objects l = vis" using conjunct2[OF l] by (simp add: capped_def vis_def Let_def split: if_splits)
  have "listing_matches l kb pre" by (subst conjunct1[OF l]) (simp add: listing_matches_def)
  moreover have "filter (\<lambda>meta. filter_allows (policy_key_filter (policy_for st kb) p List) (om_key meta)) vis = vis"
    by (simp add: vis_def policy_allows_def)
  ultimately have "list_entries st (mem_ops etag_of parse_date) s kb pre (Some l) p = Some (Inr (entries_from_objects vis pre))"
    by (simp add: list_entries_def objs)
  moreover have "list_entries st (mem_ops etag_of parse_date) s kb pre None p = Some (Inr (entries_from_objects vis pre))"
    using conjunct2[OF l] by (simp add: list_entries_def collect objs)
  moreover note conjunct1[OF entries_names[of vis pre]] entries_children[of vis pre]
  ultimately show "\<exists>es. read_dir st (mem_ops etag_of parse_date) s path (Some l) p = Some (Inr es)
          \<and> read_dir st (mem_ops etag_of parse_date) s path None p = Some (Inr es)
          \<and> distinct (map entry_name es)
          \<and> set (map entry_name es) = {name. \<exists>obj\<in>set (mem_matching s kb pre).
               policy_allows (policy_for st kb) p List (om_key obj)
               \<and> is_child (case pre of None \<Rightarrow> [] | Some q \<Rightarrow> q) (om_key obj) name}"
    unfolding read_dir_folder[OF assms(3,2)]
    by (intro exI[of _ "entries_from_objects vis pre"]) (simp add: vis_def conj_assoc Bex_def)
qed

definition demo_dav_store :: mem_storage where
  "demo_dav_store = (with_kbs [KbSlug ''notes''] 0)\<lparr>m_objects :=
     [((''notes'', ''sub/b.md''), \<lparr>so_bytes = ''hello'', so_content_type = None, so_etag = ''t'', so_last_modified = 0\<rparr>),
      ((''notes'', ''a.md''), \<lparr>so_bytes = ''hi'', so_content_type = None, so_etag = ''u'', so_last_modified = 0\<rparr>)]\<rparr>"

definition demo_dav_state :: webdav_state where
  "demo_dav_state = \<lparr>dv_authenticator = undefined, dv_declared_kbs = [(''notes'', KbSlug ''notes'')],
                     dv_access_policies = [''notes'' \<mapsto> [rule_new WAnyone {List}]]\<rparr>"

theorem propfind_complete_or_refused_witness:
  "\<exists>es. read_dir demo_dav_state (mem_ops (\<lambda>b. b) (\<lambda>_. Inr 0)) demo_dav_store ''/notes/'' None PAnyone = Some (Inr es)
     \<and> set (map entry_name es) = {''sub'', ''a.md''}"
proof -
  let ?kb = "KbSlug ''notes''" and ?ops = "mem_ops (\<lambda>b. b) (\<lambda>_. Inr 0) :: mem_storage storage_ops"
  let ?a = "\<lparr>om_key = ''a.md'', om_size = 2, om_last_modified = Some 0, om_content_type = None, om_etag = Some ''u''\<rparr>"
    and ?b = "\<lparr>om_key = ''sub/b.md'', om_size = 5, om_last_modified = Some 0, om_content_type = None, om_etag = Some ''t''\<rparr>"
  have ready: "mem_listable demo_dav_store ?kb"
    by (simp add: mem_listable_def mem_ready_def demo_dav_store_def with_kbs_def)
  have path: "parse_dav_path (dv_declared_kbs demo_dav_state) ''/notes/'' = Inr (Dav_KbRoot ?kb)" by code_simp
  have all: "policy_allows (policy_for demo_dav_state ?kb) PAnyone List ''a.md''"
    "policy_allows (policy_for demo_dav_state ?kb) PAnyone List ''sub/b.md''" by code_simp+
  have rows: "mem_matching demo_dav_store ?kb None = [?a, ?b]"
    by (simp add: mem_matching_def demo_dav_store_def with_kbs_def unix_seconds_i64_def unix_seconds_def)
  note exact = propfind_complete_or_refused[OF ready _ path, of None "\<lambda>b. b" "\<lambda>_. Inr 0" PAnyone]
  have "prepare_propfind_listing demo_dav_state ?ops demo_dav_store (Dav_KbRoot ?kb) PAnyone =
      Some (Inr (Some \<lparr>pl_kb = ?kb, pl_prefix = None, pl_objects = [?a, ?b]\<rparr>))"
    using exact by (simp add: prepare_propfind_listing_def rows all Let_def)
  then obtain es where es: "read_dir demo_dav_state ?ops demo_dav_store ''/notes/'' None PAnyone = Some (Inr es)"
    "set (map entry_name es) = {name. is_child [] ''a.md'' name \<or> is_child [] ''sub/b.md'' name}"
    using exact by (auto simp: rows all)
  moreover have "is_child [] ''a.md'' name \<longleftrightarrow> name = ''a.md''" for name
    by (auto simp: is_child_def prefix_Cons neq_Nil_conv)
  moreover have "is_child [] ''sub/b.md'' name \<longleftrightarrow> name = ''sub''" for name
    by (auto simp: is_child_def prefix_Cons neq_Nil_conv)
  ultimately show ?thesis by auto
qed

text \<open>
  A file is read as it is: whatever the counts a client asks for, each read returns the next bytes,
  and the pieces together are the object up to the sum of the counts.  Past the end a read is empty.
\<close>

theorem dav_reads_compose:
  assumes "mem_lookup s kb path = Inr obj" "length (so_bytes obj) < 2 ^ 64" "sum_list (map unat ns) < 2 ^ 64"
  shows "\<exists>pieces. read_series (mem_ops etag_of parse_date) s ns
        \<lparr>rf_kb = kb, rf_path = path, rf_read_offset = 0, rf_size_hint = hint\<rparr> = Inr pieces
    \<and> concat pieces = take (sum_list (map unat ns)) (so_bytes obj)"
  using read_series_mem[of s "\<lparr>rf_kb = kb, rf_path = path, rf_read_offset = 0, rf_size_hint = hint\<rparr>" obj ns etag_of parse_date] assms
  by simp

end
