(* ===== verification/Spec2Isabelle.thy ===== *)
theory Spec2Isabelle
  imports Api_Listing Storage_Trait Write_Path Index_Pipeline Fs_Reconcile Fs_Watch Fs_Locks Dav_Read
begin

text \<open>
  NotedThat, a knowledge-base server: a verification development of its core.

  The program. A deployment serves one tenant with several knowledge bases; a knowledge base is a
  bucket of objects plus a manifest with its access rules. Requests arrive over HTTP, WebDAV or MCP,
  are authorised against the manifest's rules, and read or write objects through a storage backend.
  Every write goes through one shared path, which checks the body, writes conditionally, publishes
  a change event on the event log, and offers the object to a bounded indexing queue; a background
  worker drains the queue object by object and keeps a search index up to date. A reconciliation
  pass compares storage with the index and re-offers what differs.

  \<^bold>\<open>Theories and the code they model\<close> (paths are below \<^verbatim>\<open>src/crates\<close>):

  \<^item> \<^verbatim>\<open>Prelude\<close>: type names, the parts of Rust's standard library used (strings are byte lists), generic
    lemmas and the collection of simplification facts. No code of the repository.
  \<^item> \<^verbatim>\<open>Errors\<close> (\<^verbatim>\<open>notedthat-core/src/error.rs\<close>): the error types and conversions; the locale
    \<open>validated_newtype\<close>, the contract of every checked constructor.
  \<^item> \<^verbatim>\<open>Object_Path\<close>, \<^verbatim>\<open>Slug\<close> (\<^verbatim>\<open>object_path.rs\<close>, \<^verbatim>\<open>search/object_key.rs\<close>, \<^verbatim>\<open>slug.rs\<close>, \<^verbatim>\<open>bucket_name.rs\<close>): checked
    names, interpreted as \<open>validated_newtype\<close>; bucket names are injective.
  \<^item> \<^verbatim>\<open>Glob_Loop\<close>, \<^verbatim>\<open>Key_Pattern\<close> (\<^verbatim>\<open>access/pattern.rs\<close>): the two iterative wildcard loops. The locale
    \<open>two_pointer_glob\<close> proves the loop equal to the declarative matching relation once; it is
    interpreted for tokens within a segment and for segments within a key. Parsing and brace
    expansion are related to the inductive predicate \<open>expands\<close>.
  \<^item> \<^verbatim>\<open>Access\<close> (\<^verbatim>\<open>access/mod.rs\<close>): principals, rules, the compiled key filter, and its equality with the
    rule semantics.
  \<^item> \<^verbatim>\<open>Ranges\<close>, \<^verbatim>\<open>Conditionals\<close> (\<^verbatim>\<open>range.rs\<close>, \<^verbatim>\<open>conditional.rs\<close>, \<^verbatim>\<open>preconditions.rs\<close>): header parsing and
    evaluation on 64-bit words.
  \<^item> \<^verbatim>\<open>Storage_Api\<close>, \<^verbatim>\<open>Mem_Storage\<close> (\<^verbatim>\<open>storage.rs\<close>, \<^verbatim>\<open>testing.rs\<close>): the storage trait as a record of operations
    with two contracts, the locales \<open>object_store\<close> (put, get, delete laws) and \<open>paged_store\<close> (paging
    laws); the in-memory backend interprets both.
  \<^item> \<^verbatim>\<open>Reconcile\<close> (\<^verbatim>\<open>reconcile.rs\<close>): the comparison with two cursors and the paging walk.
  \<^item> \<^verbatim>\<open>Api_Listing\<close> (\<^verbatim>\<open>notedthat-api-http/src/authz.rs\<close>, \<^verbatim>\<open>router/kbs.rs\<close>, \<^verbatim>\<open>router/helpers.rs\<close>,
    \<^verbatim>\<open>notedthat-core/src/listing.rs\<close>): permissions of a request, the filtered listing (client of
    \<open>paged_store\<close>, locale \<open>filtered_listing\<close>), the roll-up.
  \<^item> \<^verbatim>\<open>Event_Log\<close> (\<^verbatim>\<open>notedthat-core/src/events.rs\<close>, \<^verbatim>\<open>notedthat-events/src/memory.rs\<close>): events, the ring, and
    a subscriber interleaved with publishers as a step relation.
  \<^item> \<^verbatim>\<open>Index_Queue\<close>, \<^verbatim>\<open>Index_Health\<close> (\<^verbatim>\<open>notedthat-indexer/src\<close>: \<^verbatim>\<open>event.rs\<close>, \<^verbatim>\<open>queue.rs\<close>, \<^verbatim>\<open>worker.rs\<close>,
    \<^verbatim>\<open>worker/last_seen.rs\<close>, \<^verbatim>\<open>health.rs\<close>): the bounded queue, the per-object lanes and the worker loop as a
    step relation, and the health view derived from the stamps.
  \<^item> \<^verbatim>\<open>Patch\<close>, \<^verbatim>\<open>Manifest\<close>, \<^verbatim>\<open>Write_Path\<close> (\<^verbatim>\<open>notedthat-write/src\<close>): the byte rewrites, the manifest check, and
    put, copy, delete, patch and replace with the optimistic rewrite loop. Other tasks act on the
    same storage: before every storage call the model applies an arbitrary environment step
    (\<open>be_env\<close>), so the theorems hold under interference.
  \<^item> \<^verbatim>\<open>Utf8\<close>: Rust's UTF-8 validation and the characters of a valid string. No code of the repository.
  \<^item> \<^verbatim>\<open>Heading_Scan\<close>, \<^verbatim>\<open>Chunker\<close> (\<^verbatim>\<open>notedthat-indexer/src/chunker.rs\<close> and below \<^verbatim>\<open>chunker/streaming\<close>): the scanner for
    headings and the iterator that cuts a document into chunks, shown to cover the document.
  \<^item> \<^verbatim>\<open>Staging\<close> (\<^verbatim>\<open>notedthat-core/src/staging.rs\<close>): bodies received in memory or in a private file.
  \<^item> \<^verbatim>\<open>Index_Snapshot\<close> (\<^verbatim>\<open>worker/snapshot.rs\<close>, \<^verbatim>\<open>okf.rs\<close>): the observer of a staged body and its front matter.
  \<^item> \<^verbatim>\<open>Vector_Store\<close> (\<^verbatim>\<open>vector_store.rs\<close>, \<^verbatim>\<open>worker/points.rs\<close>, \<^verbatim>\<open>notedthat-indexer/src/testing.rs\<close>): points, and the
    store as a record of operations with the contract \<open>chunk_index\<close> over a map from object and chunk
    index to payload; the in-memory store interprets it.
  \<^item> \<^verbatim>\<open>Index_Pipeline\<close> (\<^verbatim>\<open>worker.rs\<close>, \<^verbatim>\<open>worker/pipeline.rs\<close>, \<^verbatim>\<open>worker/chunks.rs\<close>): what the worker does with one
    event, a client of \<open>chunk_index\<close>: the result of a handler refines the abstract outcome
    \<open>event_result\<close>. Other handlers act on the store before each call (\<open>ie_env\<close>).
  \<^item> \<^verbatim>\<open>Fs_Tree\<close>: the part of \<^verbatim>\<open>std::fs\<close> the filesystem backend calls, on a tree of directories and files. No code
    of the repository.
  \<^item> \<^verbatim>\<open>Fs_Layout\<close>, \<^verbatim>\<open>Fs_Listing\<close>, \<^verbatim>\<open>Fs_Store\<close> (\<^verbatim>\<open>notedthat-storage-fs/src\<close>: \<^verbatim>\<open>layout.rs\<close>, \<^verbatim>\<open>errors.rs\<close>, \<^verbatim>\<open>listing.rs\<close>, \<^verbatim>\<open>meta.rs\<close>,
    \<^verbatim>\<open>commit.rs\<close>, \<^verbatim>\<open>storage.rs\<close>): where objects and their records lie, the ordered walk with its paging, and every
    operation of the backend.
  \<^item> \<^verbatim>\<open>Fs_Fresh\<close>: the states requests, crashes and outside edits lead to, as an inductive relation, and the
    invariant that a record which still describes its file has the tag of its content.
  \<^item> \<^verbatim>\<open>Fs_Reconcile\<close> (\<^verbatim>\<open>notedthat-storage-fs/src/reconcile.rs\<close>): the walk composed with the comparison of \<^verbatim>\<open>Reconcile\<close>.
  \<^item> \<^verbatim>\<open>Fs_Watch\<close>, \<^verbatim>\<open>Fs_Locks\<close> (\<^verbatim>\<open>watch.rs\<close>, \<^verbatim>\<open>watch/pending.rs\<close>, \<^verbatim>\<open>locks.rs\<close>): what the watcher makes of the kernel's events, and
    the striped locks as threads of an interleaving.
  \<^item> \<^verbatim>\<open>Auth\<close> (\<^verbatim>\<open>notedthat-core/src/auth.rs\<close>, \<^verbatim>\<open>notedthat-api-http/src/middleware.rs\<close>, \<^verbatim>\<open>notedthat-mcp/src/auth.rs\<close>): from the \<^verbatim>\<open>Authorization\<close>
    header to the principal, and the layers of the HTTP API and of MCP.
  \<^item> \<^verbatim>\<open>Dav_Access\<close>, \<^verbatim>\<open>If_Header\<close>, \<^verbatim>\<open>Dav_Write\<close> (\<^verbatim>\<open>notedthat-webdav/src\<close>): the target a URI names, who may do what there, the \<^verbatim>\<open>If\<close>
    header, and the write methods on the world of \<^verbatim>\<open>Write_Path\<close>. The locale \<open>conditional_store\<close> extends \<open>object_store\<close> with
    what deletes and copies promise under a condition; the in-memory backend interprets it.
  \<^item> \<^verbatim>\<open>Dav_Read\<close> (\<^verbatim>\<open>notedthat-webdav/src\<close>: \<^verbatim>\<open>filesystem.rs\<close>, \<^verbatim>\<open>metadata.rs\<close>, \<^verbatim>\<open>propfind.rs\<close>): what dav-server is given for a directory,
    a resource and an open file. A listing is collected page by page, in the locale \<open>filtered_listing\<close>: the loop is a partial
    function, and it is proved to return.

  \<^bold>\<open>How state and effects correspond.\<close> Backends, logs, queues and health records are values passed and
  returned. A Rust \<^verbatim>\<open>Result\<close> is a sum with the error on the left; a Rust \<^verbatim>\<open>Option\<close> is an option; \<^verbatim>\<open>u64\<close>
  and \<^verbatim>\<open>usize\<close> are 64-bit words where arithmetic may wrap and naturals where the code only counts
  in-memory elements. Concurrency is an explicit order of atomic steps: the lock each of these
  objects takes makes its operations atomic in the code.

  \<^bold>\<open>Code outside the repository\<close> is a parameter, with what the program relies on as a named hypothesis:
  the HTTP-date parser; SHA-256 tags (injective, and spelled as a plain quoted tag); tokio's
  broadcast channel (delivers in order or reports a lag, \<open>in_order\<close>); \<^verbatim>\<open>serde_json\<close>'s reading of a
  manifest; the substring search of \<^verbatim>\<open>memchr\<close> (\<open>leftmost_finder\<close>); the Markdown parser (\<open>cmark_offsets\<close>,
  \<open>cmark_underlines\<close>); the YAML parser; the embedder; the disk a body is staged on; the stream storage
  serves a body as (\<open>stream_faithful\<close>); the JSON and base64 of records and cursors (decoding undoes
  encoding); the kernel's stamps (an edit changes size, time or inode, \<open>external_edit\<close>) and
  the events it reports of changed files; the identity provider; header values, percent decoding, URIs and XML. Point ids are 64-bit hashes: the store's contract is proved for
  a set of chunks whose ids differ. Each property with such a hypothesis
  has a witness with a concrete instance.

  \<^bold>\<open>Loops, fuel and bounds.\<close> Loops over finite data are recursive functions. The listing scan stops after
  \<open>LIST_SCAN_MAX_CALLS\<close> storage calls as the code does. The reconciliation walk has no bound in the
  code: it is a partial function into option, and \<open>storage_walk_complete\<close> proves that it returns.
  The chunk iterator's merge loop and the batch loop of the worker are partial functions too, shown to
  return in \<open>chunks_cover_file\<close> and \<open>index_outcome_exact\<close>.
  The rewrite loop runs at most three attempts, the code's own bound. Rust limits a buffer to
  \<open>2\<^sup>6\<^sup>3 - 1\<close> bytes; theorems about lengths assume it where the code relies on it.

  \<^bold>\<open>Not modelled.\<close> The network layers (axum routing, the response rendering of the HTTP API, MCP's tools and
  protocol frames), process setup and configuration, OIDC, metrics and tracing, the S3, NATS and Qdrant clients (calls to services whose
  behaviour is not in the repository), and the embedding models.
\<close>

end
